(* ===== verification/Prelude.thy ===== *)
theory Prelude
  imports Main "HOL-Library.Word" "HOL-Library.Multiset"
begin

text \<open>
  What every component of the development shares: names for the machine types of the C
  source, the error codes that the modelled functions return, the collections of hints that
  carry the component proofs, and generic facts on lists and functions.
\<close>

unbundle bit_operations_syntax

section \<open>Machine types\<close>

type_synonym u8 = "8 word"
type_synonym u16 = "16 word"
type_synonym u32 = "32 word"
type_synonym u64 = "64 word"

text \<open>
  A pointer to a handle, a request or a watcher is a natural number, and the null pointer
  is \<open>0\<close>. A \<open>container_of\<close> between a structure and the single node of
  one kind embedded in it is the identity: the node is named by its structure.
\<close>

type_synonym ptr = nat

abbreviation (input) NULL :: ptr where
  "NULL \<equiv> 0"

lemma unat_of_nat_u32: "n < 2 ^ 32 \<Longrightarrow> unat (of_nat n :: u32) = n"
  by (simp add: unat_of_nat take_bit_nat_eq_self)

section \<open>Hint collections\<close>

named_theorems links_simps \<open>reads of a link after a write of a link\<close>
named_theorems frame_intros \<open>a representation predicate kept by a write elsewhere\<close>

section \<open>Functions updated at a point\<close>

lemma fun_upd_comp_notin: "x \<notin> set xs \<Longrightarrow> map (f(x := y)) xs = map f xs"
  by auto

section \<open>Lists\<close>

lemma distinct_snoc [simp]: "distinct (xs @ [x]) \<longleftrightarrow> distinct xs \<and> x \<notin> set xs"
  by auto

lemma remove1_split: "x \<notin> set xs \<Longrightarrow> remove1 x (xs @ x # ys) = xs @ ys"
  by (induction xs) auto

lemma remove1_decomp:
  assumes "x \<in> set zs"
  obtains xs ys where "zs = xs @ x # ys" "remove1 x zs = xs @ ys" "x \<notin> set xs"
  using split_list_first [OF assms] remove1_split by fastforce

lemma set_butlast_distinct: "distinct xs \<Longrightarrow> xs \<noteq> [] \<Longrightarrow> set (butlast xs) = set xs - {last xs}"
  by (cases xs rule: rev_cases) auto

lemma list_ends_cases [case_names Nil single ends]:
  obtains "xs = []" | x where "xs = [x]" | x ys z where "xs = x # ys @ [z]"
  by (metis append_butlast_last_id list.exhaust)

section \<open>Bits of machine words\<close>

lemma all_u8:
  assumes "list_all (\<lambda>n. P (word_of_nat n)) [0..<256]"
  shows "P (b :: u8)"
proof -
  have "unat b < 256" using unsigned_less [of b, where ?'a = nat] by simp
  then have "unat b \<in> set [0..<256]" by simp
  with assms have "P (word_of_nat (unat b))" unfolding list_all_iff by blast
  then show ?thesis by simp
qed

lemma and_take_bit:
  "x AND 0x3F = take_bit 6 x" "0x7FF AND x = take_bit 11 x" "0xFFFF AND x = take_bit 16 x"
  "x AND 0x1FFFFF = take_bit 21 x" "x AND 7 = take_bit 3 x" "x AND 15 = take_bit 4 x" "x AND 31 = take_bit 5 x"
  "x AND 0xFF = take_bit 8 x"
   for x :: "'a::len word"
  by (simp_all add: take_bit_eq_mask mask_numeral and.commute)

lemma and_take_bit_int:
  "x AND 0x3F = take_bit 6 x" "x AND 0x3FF = take_bit 10 x" for x :: int
  by (simp_all add: take_bit_eq_mask mask_numeral)

lemma or_plus: fixes x y :: "'a::len word" assumes "x AND y = 0" shows "x OR y = x + y"
  using assms disjunctive_add_eq_or by metis

lemma mod_known: "x = k * n + m \<Longrightarrow> 0 \<le> m \<Longrightarrow> m < n \<Longrightarrow> x mod n = (m :: int)"
  by (simp add: mod_mult_self3)

end
