(* ===== verification/Queue.thy ===== *)
theory Queue
  imports Prelude
begin

text \<open>
  \<^verbatim>\<open>queue.h\<close>: the intrusive circular doubly linked list that carries every list of the
  library. The store \<open>links\<close> holds the two link fields of every queue node, the list
  heads among them; each operation is the sequence of writes of its C body. The relation
  \<open>queue s h xs\<close> says that the ring at head \<open>h\<close> holds the nodes \<open>xs\<close> in order, and the
  lemmas show that the operations act on that list as their names say, and that they touch
  no other ring.
\<close>

section \<open>The store and the operations\<close>

record 'a links =
  qnext :: "'a \<Rightarrow> 'a"
  qprev :: "'a \<Rightarrow> 'a"

definition set_next :: "'a \<Rightarrow> 'a \<Rightarrow> 'a links \<Rightarrow> 'a links" where
  "set_next p v s = s\<lparr>qnext := (qnext s)(p := v)\<rparr>"

definition set_prev :: "'a \<Rightarrow> 'a \<Rightarrow> 'a links \<Rightarrow> 'a links" where
  "set_prev p v s = s\<lparr>qprev := (qprev s)(p := v)\<rparr>"

definition uv__queue_init :: "'a \<Rightarrow> 'a links \<Rightarrow> 'a links" where
  "uv__queue_init q s =
     (let s = set_next q q s
      in set_prev q q s)"

definition uv__queue_empty :: "'a \<Rightarrow> 'a links \<Rightarrow> bool" where
  "uv__queue_empty q s \<longleftrightarrow> q = qnext s q"

definition uv__queue_head :: "'a \<Rightarrow> 'a links \<Rightarrow> 'a" where
  "uv__queue_head q s = qnext s q"

definition uv__queue_next :: "'a \<Rightarrow> 'a links \<Rightarrow> 'a" where
  "uv__queue_next q s = qnext s q"

definition uv__queue_add :: "'a \<Rightarrow> 'a \<Rightarrow> 'a links \<Rightarrow> 'a links" where
  "uv__queue_add h n s =
     (let s = set_next (qprev s h) (qnext s n) s;
          s = set_prev (qnext s n) (qprev s h) s;
          s = set_prev h (qprev s n) s
      in set_next (qprev s h) h s)"

definition uv__queue_split :: "'a \<Rightarrow> 'a \<Rightarrow> 'a \<Rightarrow> 'a links \<Rightarrow> 'a links" where
  "uv__queue_split h q n s =
     (let s = set_prev n (qprev s h) s;
          s = set_next (qprev s n) n s;
          s = set_next n q s;
          s = set_prev h (qprev s q) s;
          s = set_next (qprev s h) h s
      in set_prev q n s)"

definition uv__queue_move :: "'a \<Rightarrow> 'a \<Rightarrow> 'a links \<Rightarrow> 'a links" where
  "uv__queue_move h n s =
     (if uv__queue_empty h s then uv__queue_init n s
      else uv__queue_split h (qnext s h) n s)"

definition uv__queue_insert_head :: "'a \<Rightarrow> 'a \<Rightarrow> 'a links \<Rightarrow> 'a links" where
  "uv__queue_insert_head h q s =
     (let s = set_next q (qnext s h) s;
          s = set_prev q h s;
          s = set_prev (qnext s q) q s
      in set_next h q s)"

definition uv__queue_insert_tail :: "'a \<Rightarrow> 'a \<Rightarrow> 'a links \<Rightarrow> 'a links" where
  "uv__queue_insert_tail h q s =
     (let s = set_next q h s;
          s = set_prev q (qprev s h) s;
          s = set_next (qprev s q) q s
      in set_prev h q s)"

definition uv__queue_remove :: "'a \<Rightarrow> 'a links \<Rightarrow> 'a links" where
  "uv__queue_remove q s =
     (let s = set_next (qprev s q) (qnext s q) s
      in set_prev (qnext s q) (qprev s q) s)"

lemmas queue_op_defs =
  uv__queue_init_def uv__queue_empty_def uv__queue_head_def uv__queue_next_def
  uv__queue_add_def uv__queue_split_def uv__queue_move_def uv__queue_insert_head_def
  uv__queue_insert_tail_def uv__queue_remove_def Let_def

lemma link_reads [links_simps]:
  "qnext (set_next p v s) = (qnext s)(p := v)"
  "qprev (set_next p v s) = qprev s"
  "qprev (set_prev p v s) = (qprev s)(p := v)"
  "qnext (set_prev p v s) = qnext s"
  by (simp_all add: set_next_def set_prev_def)

section \<open>Rings as lists\<close>

text \<open>
  \<open>chain s a xs b\<close>: following \<open>next\<close> from \<open>a\<close> visits \<open>xs\<close> and arrives at \<open>b\<close>, and every
  \<open>prev\<close> on the way points back. A queue is a chain from its head to itself.
\<close>

fun chain :: "'a links \<Rightarrow> 'a \<Rightarrow> 'a list \<Rightarrow> 'a \<Rightarrow> bool" where
  "chain s a [] b \<longleftrightarrow> qnext s a = b \<and> qprev s b = a"
| "chain s a (x # xs) b \<longleftrightarrow> qnext s a = x \<and> qprev s x = a \<and> chain s x xs b"

definition queue :: "'a links \<Rightarrow> 'a \<Rightarrow> 'a list \<Rightarrow> bool" where
  "queue s h xs \<longleftrightarrow> chain s h xs h \<and> distinct (h # xs)"

lemma chain_append [simp]:
  "chain s a (xs @ y # ys) b \<longleftrightarrow> chain s a xs y \<and> chain s y ys b"
  by (induction xs arbitrary: a) auto

lemma chain_set_next_frame [frame_intros]:
  "p \<notin> insert a (set xs) \<Longrightarrow> chain (set_next p v s) a xs b = chain s a xs b"
  by (induction xs arbitrary: a) (auto simp: links_simps)

lemma chain_set_prev_frame [frame_intros]:
  "p \<notin> insert b (set xs) \<Longrightarrow> chain (set_prev p v s) a xs b = chain s a xs b"
  by (induction xs arbitrary: a) (auto simp: links_simps)

lemma chain_cong:
  assumes "\<And>p. p \<in> insert a (set xs) \<Longrightarrow> qnext s' p = qnext s p"
    and "\<And>p. p \<in> insert b (set xs) \<Longrightarrow> qprev s' p = qprev s p"
  shows "chain s' a xs b = chain s a xs b"
  using assms by (induction xs arbitrary: a) auto

lemma chain_first: "chain s a xs b \<Longrightarrow> qnext s a = hd (xs @ [b])"
  by (cases xs) auto

lemma chain_last: "chain s a xs b \<Longrightarrow> qprev s b = last (a # xs)"
  by (induction xs arbitrary: a) auto

lemma chain_unique:
  "chain s a xs b \<Longrightarrow> chain s a ys b \<Longrightarrow> b \<notin> set xs \<Longrightarrow> b \<notin> set ys \<Longrightarrow> xs = ys"
proof (induction xs arbitrary: a ys)
  case Nil
  then show ?case by (cases ys) auto
next
  case (Cons x xs)
  then show ?case by (cases ys) auto
qed

lemma queue_unique: "queue s h xs \<Longrightarrow> queue s h ys \<Longrightarrow> xs = ys"
  unfolding queue_def by (auto intro: chain_unique)

text \<open>
  The boundary fields of a ring are the only ones an operation at the boundary writes:
  the chain from its first to its last node survives any write to them.
\<close>

lemma queue_cong:
  assumes "\<And>p. p \<in> insert h (set xs) \<Longrightarrow> qnext s' p = qnext s p \<and> qprev s' p = qprev s p"
  shows "queue s' h xs = queue s h xs"
  using chain_cong [of h xs s' s h] assms by (simp add: queue_def)

section \<open>The operations on the represented lists\<close>

lemma queue_init: "queue (uv__queue_init h s) h []"
  by (simp add: queue_def queue_op_defs links_simps)

lemma queue_empty_iff: "queue s h xs \<Longrightarrow> uv__queue_empty h s \<longleftrightarrow> xs = []"
  by (cases xs) (auto simp: queue_def queue_op_defs)

lemma queue_head: "queue s h (x # xs) \<Longrightarrow> uv__queue_head h s = x"
  by (simp add: queue_def queue_op_defs)

lemma queue_next: "queue s h (xs @ x # ys) \<Longrightarrow> uv__queue_next x s = hd (ys @ [h])"
  by (auto simp: queue_def queue_op_defs dest: chain_first)

lemma queue_insert_tail:
  assumes "queue s h xs" and "q \<notin> insert h (set xs)"
  shows "queue (uv__queue_insert_tail h q s) h (xs @ [q])"
proof (cases xs rule: rev_cases)
  case Nil
  with assms show ?thesis by (auto simp: queue_def queue_op_defs links_simps)
next
  case (snoc ys y)
  with assms have c: "chain s h ys y" "qnext s y = h" "qprev s h = y" "distinct (h # ys @ [y])"
    by (auto simp: queue_def)
  from snoc assms c show ?thesis
    by (auto simp: queue_def queue_op_defs links_simps chain_set_next_frame chain_set_prev_frame)
qed

lemma queue_insert_head:
  assumes "queue s h xs" and "q \<notin> insert h (set xs)"
  shows "queue (uv__queue_insert_head h q s) h (q # xs)"
proof (cases xs)
  case Nil
  with assms show ?thesis by (auto simp: queue_def queue_op_defs links_simps)
next
  case (Cons y ys)
  with assms have "chain s y ys h" "qnext s h = y" "qprev s y = h" "distinct (h # y # ys)"
    by (auto simp: queue_def)
  with Cons assms show ?thesis
    by (auto simp: queue_def queue_op_defs links_simps chain_set_next_frame chain_set_prev_frame)
qed

lemma queue_remove:
  assumes "queue s h (xs @ q # ys)"
  shows "queue (uv__queue_remove q s) h (xs @ ys)"
proof -
  from assms have c: "chain s h xs q" "chain s q ys h" "distinct (h # xs @ q # ys)"
    by (auto simp: queue_def)
  then have "qprev s q = last (h # xs)" "qnext s q = hd (ys @ [h])"
    by (auto dest: chain_last chain_first)
  then have "uv__queue_remove q s =
      set_prev (hd (ys @ [h])) (last (h # xs)) (set_next (last (h # xs)) (hd (ys @ [h])) s)"
    if "q \<noteq> last (h # xs)" using that
    by (simp only: uv__queue_remove_def Let_def links_simps fun_upd_apply if_False)
  moreover have "q \<noteq> last (h # xs)" using c(3) last_in_set [of "h # xs"] by auto
  moreover have "chain (set_prev (hd (ys @ [h])) (last (h # xs))
      (set_next (last (h # xs)) (hd (ys @ [h])) s)) h (xs @ ys) h"
  proof (cases xs rule: rev_cases)
    case Nil
    with c show ?thesis
      by (cases ys) (auto simp: links_simps chain_set_next_frame chain_set_prev_frame)
  next
    case (snoc zs z)
    with c show ?thesis
      by (cases ys) (auto simp: links_simps chain_set_next_frame chain_set_prev_frame)
  qed
  ultimately show ?thesis using c(3) by (simp add: queue_def)
qed

lemma queue_remove1:
  assumes "queue s h xs" and "q \<in> set xs"
  shows "queue (uv__queue_remove q s) h (remove1 q xs)"
  using assms remove1_decomp [OF assms(2)] queue_remove by metis

lemma queue_remove_head: "queue s h (x # xs) \<Longrightarrow> queue (uv__queue_remove x s) h xs"
  using queue_remove [of s h "[]"] by simp

text \<open>A node that is in no list is linked to itself, and unlinking it changes nothing.\<close>

lemma queue_remove_single: "queue s q [] \<Longrightarrow> uv__queue_remove q s = s"
  by (cases s) (auto simp: queue_def queue_op_defs set_next_def set_prev_def fun_upd_idem)

lemma queue_split:
  assumes "queue s h (xs @ q # ys)" and "n \<notin> insert h (insert q (set xs \<union> set ys))"
  shows "queue (uv__queue_split h q n s) h xs" and "queue (uv__queue_split h q n s) n (q # ys)"
proof -
  from assms have c: "chain s h xs q" "chain s q ys h" "distinct (h # xs @ q # ys)"
    by (auto simp: queue_def)
  then have l: "qprev s q = last (h # xs)" "qprev s h = last (q # ys)"
    by (auto dest: chain_last)
  show "queue (uv__queue_split h q n s) h xs"
    by (cases xs rule: rev_cases; cases ys rule: rev_cases)
      (use c l assms(2) in \<open>auto simp: queue_def uv__queue_split_def Let_def links_simps
         chain_set_next_frame chain_set_prev_frame\<close>)
  show "queue (uv__queue_split h q n s) n (q # ys)"
    by (cases xs rule: rev_cases; cases ys rule: rev_cases)
      (use c l assms(2) in \<open>auto simp: queue_def uv__queue_split_def Let_def links_simps
         chain_set_next_frame chain_set_prev_frame\<close>)
qed

lemma queue_move:
  assumes "queue s h xs" and "n \<notin> insert h (set xs)"
  shows "queue (uv__queue_move h n s) h []" and "queue (uv__queue_move h n s) n xs"
proof -
  have "queue (uv__queue_move h n s) h [] \<and> queue (uv__queue_move h n s) n xs"
  proof (cases xs)
    case Nil
    with assms show ?thesis
      by (auto simp: uv__queue_move_def queue_empty_iff queue_init)
        (auto simp: queue_def queue_op_defs links_simps)
  next
    case (Cons y ys)
    with assms have "\<not> uv__queue_empty h s" "qnext s h = y"
      by (auto simp: queue_empty_iff) (auto simp: queue_def)
    with Cons assms queue_split [of s h "[]" y ys n] show ?thesis
      by (simp add: uv__queue_move_def)
  qed
  then show "queue (uv__queue_move h n s) h []" and "queue (uv__queue_move h n s) n xs"
    by auto
qed

lemma queue_add:
  assumes "queue s h xs" and "queue s n ys" and "insert h (set xs) \<inter> insert n (set ys) = {}"
  shows "queue (uv__queue_add h n s) h (xs @ ys)"
proof -
  from assms have c: "chain s h xs h" "chain s n ys n" "distinct (h # xs @ n # ys)"
    by (auto simp: queue_def)
  then have l: "qprev s h = last (h # xs)" "qprev s n = last (n # ys)"
    by (auto dest: chain_last)
  show ?thesis
    by (cases xs rule: rev_cases; cases ys rule: list_ends_cases)
      (use c l in \<open>auto simp: queue_def uv__queue_add_def Let_def links_simps
         chain_set_next_frame chain_set_prev_frame\<close>)
qed

section \<open>What an operation leaves alone\<close>

definition same_outside :: "'a set \<Rightarrow> 'a links \<Rightarrow> 'a links \<Rightarrow> bool" where
  "same_outside A s s' \<longleftrightarrow> (\<forall>p. p \<notin> A \<longrightarrow> qnext s' p = qnext s p \<and> qprev s' p = qprev s p)"

lemma queue_frame:
  "same_outside A s s' \<Longrightarrow> A \<inter> insert g (set zs) = {} \<Longrightarrow> queue s g zs \<Longrightarrow> queue s' g zs"
  using queue_cong [of g zs s' s] by (auto simp: same_outside_def)

lemma same_outside_init: "same_outside {q} s (uv__queue_init q s)"
  by (simp add: same_outside_def queue_op_defs links_simps)

lemma queue_prev_in: "queue s h xs \<Longrightarrow> qprev s h \<in> insert h (set xs)"
  by (cases xs rule: rev_cases) (auto simp: queue_def)

lemma queue_next_in: "queue s h xs \<Longrightarrow> qnext s h \<in> insert h (set xs)"
  by (cases xs) (auto simp: queue_def)

lemma queue_prev_node: "queue s h (xs @ q # ys) \<Longrightarrow> qprev s q \<in> insert h (set xs)"
  by (cases xs rule: rev_cases) (auto simp: queue_def)

lemma queue_next_node: "queue s h (xs @ q # ys) \<Longrightarrow> qnext s q \<in> insert h (set ys)"
  by (cases ys) (auto simp: queue_def)

lemma same_outside_insert_tail:
  "queue s h xs \<Longrightarrow> same_outside (insert q (insert h (set xs))) s (uv__queue_insert_tail h q s)"
  using queue_prev_in [of s h xs] by (auto simp: same_outside_def queue_op_defs links_simps)

lemma same_outside_insert_head:
  "queue s h xs \<Longrightarrow> same_outside (insert q (insert h (set xs))) s (uv__queue_insert_head h q s)"
  using queue_next_in [of s h xs] by (auto simp: same_outside_def queue_op_defs links_simps)

lemma same_outside_remove:
  assumes "queue s h xs" and "q \<in> set xs"
  shows "same_outside (insert h (set xs)) s (uv__queue_remove q s)"
proof -
  obtain us vs where "xs = us @ q # vs" using split_list [OF assms(2)] by blast
  with assms(1) have "qprev s q \<in> insert h (set us)" "qnext s q \<in> insert h (set vs)"
    "xs = us @ q # vs" using queue_prev_node queue_next_node by metis+
  then show ?thesis by (auto simp: same_outside_def queue_op_defs links_simps)
qed

lemma same_outside_move:
  assumes "queue s h xs"
  shows "same_outside (insert n (insert h (set xs))) s (uv__queue_move h n s)"
proof (cases xs)
  case Nil
  with assms have "uv__queue_move h n s = uv__queue_init n s"
    by (simp add: uv__queue_move_def queue_empty_iff)
  then show ?thesis using same_outside_init [of n s] by (auto simp: same_outside_def)
next
  case (Cons y ys)
  with assms have "\<not> uv__queue_empty h s" "qnext s h = y" "qprev s h \<in> insert h (set xs)"
      "qprev s y = h"
    using queue_prev_in [of s h xs] by (auto simp: queue_empty_iff) (auto simp: queue_def)
  with Cons show ?thesis
    by (auto simp: same_outside_def uv__queue_move_def uv__queue_split_def Let_def links_simps)
qed

section \<open>The interface the clients of a queue rely on\<close>

text \<open>
  The contract of an intrusive queue: a relation between the store and the list at a head,
  the operations, what each does to the list, and that it leaves every ring alone that
  shares no node with the one it works on.
\<close>

locale intrusive_queue =
  fixes ring :: "'s \<Rightarrow> 'n \<Rightarrow> 'n list \<Rightarrow> bool"
    and init :: "'n \<Rightarrow> 's \<Rightarrow> 's"
    and is_empty :: "'n \<Rightarrow> 's \<Rightarrow> bool"
    and first :: "'n \<Rightarrow> 's \<Rightarrow> 'n"
    and add_tail :: "'n \<Rightarrow> 'n \<Rightarrow> 's \<Rightarrow> 's"
    and add_head :: "'n \<Rightarrow> 'n \<Rightarrow> 's \<Rightarrow> 's"
    and unlink :: "'n \<Rightarrow> 's \<Rightarrow> 's"
    and move :: "'n \<Rightarrow> 'n \<Rightarrow> 's \<Rightarrow> 's"
  assumes ring_distinct: "ring s h xs \<Longrightarrow> distinct (h # xs)"
    and ring_init: "ring (init h s) h []"
    and is_empty: "ring s h xs \<Longrightarrow> is_empty h s \<longleftrightarrow> xs = []"
    and first: "ring s h (x # xs) \<Longrightarrow> first h s = x"
    and add_tail: "ring s h xs \<Longrightarrow> q \<notin> insert h (set xs) \<Longrightarrow> ring (add_tail h q s) h (xs @ [q])"
    and add_head: "ring s h xs \<Longrightarrow> q \<notin> insert h (set xs) \<Longrightarrow> ring (add_head h q s) h (q # xs)"
    and unlink: "ring s h xs \<Longrightarrow> q \<in> set xs \<Longrightarrow> ring (unlink q s) h (remove1 q xs)"
    and unlink_single: "ring s q [] \<Longrightarrow> unlink q s = s"
    and move: "ring s h xs \<Longrightarrow> n \<notin> insert h (set xs) \<Longrightarrow>
      ring (move h n s) h [] \<and> ring (move h n s) n xs"
    and init_frame: "ring s g zs \<Longrightarrow> q \<notin> insert g (set zs) \<Longrightarrow> ring (init q s) g zs"
    and add_tail_frame: "ring s g zs \<Longrightarrow> ring s h xs \<Longrightarrow>
      insert q (insert h (set xs)) \<inter> insert g (set zs) = {} \<Longrightarrow> ring (add_tail h q s) g zs"
    and add_head_frame: "ring s g zs \<Longrightarrow> ring s h xs \<Longrightarrow>
      insert q (insert h (set xs)) \<inter> insert g (set zs) = {} \<Longrightarrow> ring (add_head h q s) g zs"
    and unlink_frame: "ring s g zs \<Longrightarrow> ring s h xs \<Longrightarrow> q \<in> set xs \<Longrightarrow>
      insert h (set xs) \<inter> insert g (set zs) = {} \<Longrightarrow> ring (unlink q s) g zs"
    and move_frame: "ring s g zs \<Longrightarrow> ring s h xs \<Longrightarrow>
      insert n (insert h (set xs)) \<inter> insert g (set zs) = {} \<Longrightarrow> ring (move h n s) g zs"
begin

lemma not_empty: "ring s h (x # xs) \<Longrightarrow> \<not> is_empty h s"
  by (simp add: is_empty)

lemma pop: "ring s h (x # xs) \<Longrightarrow> ring (unlink (first h s) s) h xs"
  using unlink [of s h "x # xs" x] by (simp add: first)

text \<open>Taking the first node off one ring and putting it at the end of another.\<close>

lemma rotate:
  assumes "ring s a (x # xs)" and "ring s b ys"
    and "insert a (insert x (set xs)) \<inter> insert b (set ys) = {}"
  shows "ring (add_tail b x (unlink x s)) a xs" and "ring (add_tail b x (unlink x s)) b (ys @ [x])"
proof -
  have d: "distinct (a # x # xs)" using assms(1) ring_distinct by blast
  have 1: "ring (unlink x s) a xs" using unlink [OF assms(1), of x] by simp
  have 2: "ring (unlink x s) b ys"
    by (rule unlink_frame [OF assms(2,1)]) (use assms(3) in auto)
  show "ring (add_tail b x (unlink x s)) b (ys @ [x])"
    by (rule add_tail [OF 2]) (use assms(3) in auto)
  show "ring (add_tail b x (unlink x s)) a xs"
    by (rule add_tail_frame [OF 1 2]) (use assms(3) d in auto)
qed

lemma rotate_frame:
  assumes "ring s a (x # xs)" and "ring s b ys" and "ring s g zs"
    and "insert a (insert x (set xs)) \<inter> insert b (set ys) = {}"
    and "(insert a (insert x (set xs)) \<union> insert b (set ys)) \<inter> insert g (set zs) = {}"
  shows "ring (add_tail b x (unlink x s)) g zs"
proof (rule add_tail_frame)
  show "ring (unlink x s) g zs" by (rule unlink_frame [OF assms(3,1)]) (use assms(5) in auto)
  show "ring (unlink x s) b ys" by (rule unlink_frame [OF assms(2,1)]) (use assms(4) in auto)
  show "insert x (insert b (set ys)) \<inter> insert g (set zs) = {}" using assms(5) by auto
qed

lemma add_all:
  "ring s h xs \<Longrightarrow> distinct qs \<Longrightarrow> set qs \<inter> insert h (set xs) = {} \<Longrightarrow>
   ring (fold (add_tail h) qs s) h (xs @ qs)"
proof (induction qs arbitrary: s xs)
  case (Cons q qs)
  then have "ring (add_tail h q s) h (xs @ [q])" by (intro add_tail) auto
  from Cons.IH [OF this] Cons.prems show ?case by auto
qed simp

end

interpretation uvq: intrusive_queue queue uv__queue_init uv__queue_empty uv__queue_head
  uv__queue_insert_tail uv__queue_insert_head uv__queue_remove uv__queue_move
proof unfold_locales
  fix s :: "'a links" and g h n q x :: 'a and xs zs :: "'a list"
  show "queue s h xs \<Longrightarrow> distinct (h # xs)" by (simp add: queue_def)
  show "queue (uv__queue_init h s) h []" by (rule queue_init)
  show "queue s h xs \<Longrightarrow> uv__queue_empty h s \<longleftrightarrow> xs = []" by (rule queue_empty_iff)
  show "queue s h (x # xs) \<Longrightarrow> uv__queue_head h s = x" by (rule queue_head)
  show "queue s h xs \<Longrightarrow> q \<notin> insert h (set xs) \<Longrightarrow>
    queue (uv__queue_insert_tail h q s) h (xs @ [q])" by (rule queue_insert_tail)
  show "queue s h xs \<Longrightarrow> q \<notin> insert h (set xs) \<Longrightarrow>
    queue (uv__queue_insert_head h q s) h (q # xs)" by (rule queue_insert_head)
  show "queue s h xs \<Longrightarrow> q \<in> set xs \<Longrightarrow> queue (uv__queue_remove q s) h (remove1 q xs)"
    by (rule queue_remove1)
  show "queue s q [] \<Longrightarrow> uv__queue_remove q s = s" by (rule queue_remove_single)
  show "queue s h xs \<Longrightarrow> n \<notin> insert h (set xs) \<Longrightarrow>
    queue (uv__queue_move h n s) h [] \<and> queue (uv__queue_move h n s) n xs"
    by (blast intro: queue_move)
  show "queue s g zs \<Longrightarrow> q \<notin> insert g (set zs) \<Longrightarrow> queue (uv__queue_init q s) g zs"
    by (rule queue_frame [OF same_outside_init]) auto
  show "queue s g zs \<Longrightarrow> queue s h xs \<Longrightarrow> insert q (insert h (set xs)) \<inter> insert g (set zs) = {} \<Longrightarrow>
    queue (uv__queue_insert_tail h q s) g zs"
    by (rule queue_frame [OF same_outside_insert_tail])
  show "queue s g zs \<Longrightarrow> queue s h xs \<Longrightarrow> insert q (insert h (set xs)) \<inter> insert g (set zs) = {} \<Longrightarrow>
    queue (uv__queue_insert_head h q s) g zs"
    by (rule queue_frame [OF same_outside_insert_head])
  show "queue s g zs \<Longrightarrow> queue s h xs \<Longrightarrow> q \<in> set xs \<Longrightarrow>
    insert h (set xs) \<inter> insert g (set zs) = {} \<Longrightarrow> queue (uv__queue_remove q s) g zs"
    by (rule queue_frame [OF same_outside_remove])
  show "queue s g zs \<Longrightarrow> queue s h xs \<Longrightarrow> insert n (insert h (set xs)) \<inter> insert g (set zs) = {} \<Longrightarrow>
    queue (uv__queue_move h n s) g zs"
    by (rule queue_frame [OF same_outside_move])
qed

section \<open>Programs of queue operations\<close>

text \<open>
  The abstract state lists the rings by head, each with its nodes. \<open>spec_op\<close> says what an
  operation means there and when it may be called; \<open>exec_op\<close> is the C operation.
\<close>

type_synonym 'a rings = "('a \<times> 'a list) list"

datatype 'a queue_op =
  Init 'a | InsertTail 'a 'a | InsertHead 'a 'a | Remove 'a | Move 'a 'a

fun exec_op :: "'a queue_op \<Rightarrow> 'a links \<Rightarrow> 'a links" where
  "exec_op (Init h) s = uv__queue_init h s"
| "exec_op (InsertTail h q) s = uv__queue_insert_tail h q s"
| "exec_op (InsertHead h q) s = uv__queue_insert_head h q s"
| "exec_op (Remove q) s = uv__queue_remove q s"
| "exec_op (Move h n) s = uv__queue_move h n s"

definition ring_nodes :: "'a rings \<Rightarrow> 'a list" where
  "ring_nodes R = concat (map (\<lambda>(h, xs). h # xs) R)"

definition on_ring :: "'a \<Rightarrow> ('a list \<Rightarrow> 'a list) \<Rightarrow> 'a rings \<Rightarrow> 'a rings" where
  "on_ring h f R = map (\<lambda>(g, xs). (g, if g = h then f xs else xs)) R"

fun spec_op :: "'a queue_op \<Rightarrow> 'a rings \<Rightarrow> 'a rings option" where
  "spec_op (Init h) R = (if h \<in> set (ring_nodes R) then None else Some ((h, []) # R))"
| "spec_op (InsertTail h q) R =
     (if h \<notin> fst ` set R \<or> q \<in> set (ring_nodes R) then None
      else Some (on_ring h (\<lambda>xs. xs @ [q]) R))"
| "spec_op (InsertHead h q) R =
     (if h \<notin> fst ` set R \<or> q \<in> set (ring_nodes R) then None
      else Some (on_ring h (\<lambda>xs. q # xs) R))"
| "spec_op (Remove q) R =
     (case filter (\<lambda>(h, xs). q \<in> set xs) R of
        [] \<Rightarrow> None
      | (h, _) # _ \<Rightarrow> Some (on_ring h (remove1 q) R))"
| "spec_op (Move h n) R =
     (case map_of R h of
        None \<Rightarrow> None
      | Some xs \<Rightarrow>
          if n \<in> set (ring_nodes R) then None else Some ((n, xs) # on_ring h (\<lambda>_. []) R))"

fun spec_ops :: "'a queue_op list \<Rightarrow> 'a rings \<Rightarrow> 'a rings option" where
  "spec_ops [] R = Some R"
| "spec_ops (op # ops) R = Option.bind (spec_op op R) (spec_ops ops)"

definition represents :: "'a links \<Rightarrow> 'a rings \<Rightarrow> bool" where
  "represents s R \<longleftrightarrow> (\<forall>(h, xs) \<in> set R. queue s h xs) \<and> distinct (ring_nodes R)"

lemma ring_nodes_append [simp]:
  "ring_nodes [] = []" "ring_nodes ((h, xs) # R) = h # xs @ ring_nodes R"
  "ring_nodes (R1 @ R2) = ring_nodes R1 @ ring_nodes R2"
  by (simp_all add: ring_nodes_def)

lemma ring_nodes_in: "(g, zs) \<in> set R \<Longrightarrow> insert g (set zs) \<subseteq> set (ring_nodes R)"
  by (auto simp: ring_nodes_def)

lemma head_in: "h \<in> fst ` set R \<Longrightarrow> h \<in> set (ring_nodes R)"
  using ring_nodes_in by fastforce

lemma on_ring_other: "h \<notin> set (ring_nodes R) \<Longrightarrow> on_ring h f R = R"
  unfolding on_ring_def using ring_nodes_in by (intro map_idI) fastforce

lemma map_of_other: "h \<notin> set (ring_nodes R) \<Longrightarrow> map_of R h = None"
  using ring_nodes_in by (fastforce simp: map_of_eq_None_iff)

lemma on_ring_append [simp]: "on_ring h f (R1 @ (h, xs) # R2) = on_ring h f R1 @ (h, f xs) # on_ring h f R2"
  by (simp add: on_ring_def)

lemma rings_split:
  assumes "(h, xs) \<in> set R" "represents s R"
  obtains R1 R2 where "R = R1 @ (h, xs) # R2" "queue s h xs" "map_of R h = Some xs"
    "\<And>f. on_ring h f R = R1 @ (h, f xs) # R2"
    "\<And>g zs. (g, zs) \<in> set (R1 @ R2) \<Longrightarrow> queue s g zs \<and> insert h (set xs) \<inter> insert g (set zs) = {}"
proof -
  from assms(1) obtain R1 R2 where R: "R = R1 @ (h, xs) # R2" by (meson split_list)
  have d: "distinct (ring_nodes R1 @ h # xs @ ring_nodes R2)"
    using assms(2) by (simp add: represents_def R)
  then have dis: "insert h (set xs) \<inter> set (ring_nodes (R1 @ R2)) = {}" by auto
  then have "on_ring h f R = R1 @ (h, f xs) # R2" for f by (simp add: R on_ring_other)
  moreover have "map_of R h = Some xs"
    using dis map_of_other [of h R1] by (simp add: R map_add_def)
  moreover have "queue s h xs" "\<And>g zs. (g, zs) \<in> set (R1 @ R2) \<Longrightarrow> queue s g zs"
    using assms(2) unfolding R represents_def by auto
  moreover have "insert h (set xs) \<inter> insert g (set zs) = {}" if "(g, zs) \<in> set (R1 @ R2)" for g zs
    using dis ring_nodes_in [OF that] by blast
  ultimately show ?thesis using that R by blast
qed

lemma represents_update:
  assumes "represents s (R1 @ (h, xs) # R2)" "queue s' h ys"
    and "\<And>g zs. (g, zs) \<in> set (R1 @ R2) \<Longrightarrow> queue s' g zs"
    and "set ys \<inter> set (ring_nodes (R1 @ R2)) = {}"
  shows "represents s' (R1 @ (h, ys) # R2)"
proof -
  have "distinct (h # ys)" using assms(2) by (simp add: queue_def)
  then have "distinct (ring_nodes (R1 @ (h, ys) # R2))"
    using assms(1,4) by (auto simp: represents_def)
  then show ?thesis using assms(2,3) by (auto simp: represents_def)
qed

lemma init_refines:
  assumes "represents s R" "h \<notin> set (ring_nodes R)"
  shows "represents (uv__queue_init h s) ((h, []) # R)"
proof -
  have "queue (uv__queue_init h s) g zs" if "(g, zs) \<in> set R" for g zs
    using that assms ring_nodes_in [OF that] by (intro uvq.init_frame) (auto simp: represents_def)
  then show ?thesis using assms uvq.ring_init by (auto simp: represents_def)
qed

lemma insert_refines:
  assumes r: "represents s R" and h: "(h, xs) \<in> set R" and q: "q \<notin> set (ring_nodes R)"
  shows "represents (uv__queue_insert_tail h q s) (on_ring h (\<lambda>xs. xs @ [q]) R)"
    and "represents (uv__queue_insert_head h q s) (on_ring h ((#) q) R)"
proof -
  from rings_split [OF h r] obtain R1 R2 where
    R: "R = R1 @ (h, xs) # R2" "queue s h xs" "\<And>f. on_ring h f R = R1 @ (h, f xs) # R2"
    "\<And>g zs. (g, zs) \<in> set (R1 @ R2) \<Longrightarrow> queue s g zs \<and> insert h (set xs) \<inter> insert g (set zs) = {}"
    by metis
  have qn: "q \<notin> insert h (set xs)" "q \<notin> set (ring_nodes (R1 @ R2))" using q by (auto simp: R(1))
  have dis: "insert q (insert h (set xs)) \<inter> insert g (set zs) = {}" if "(g, zs) \<in> set (R1 @ R2)" for g zs
    using R(4) [OF that] qn(2) ring_nodes_in [OF that] by blast
  have new: "insert q (set xs) \<inter> set (ring_nodes (R1 @ R2)) = {}"
    using r qn unfolding R(1) represents_def by auto
  show "represents (uv__queue_insert_tail h q s) (on_ring h (\<lambda>xs. xs @ [q]) R)" unfolding R(3)
    by (rule represents_update [OF r [unfolded R(1)] uvq.add_tail [OF R(2) qn(1)]])
       (use new R(4) dis uvq.add_tail_frame [OF _ R(2)] in auto)
  show "represents (uv__queue_insert_head h q s) (on_ring h ((#) q) R)" unfolding R(3)
    by (rule represents_update [OF r [unfolded R(1)] uvq.add_head [OF R(2) qn(1)]])
       (use new R(4) dis uvq.add_head_frame [OF _ R(2)] in auto)
qed

lemma remove_refines:
  assumes r: "represents s R" and h: "(h, xs) \<in> set R" and q: "q \<in> set xs"
  shows "represents (uv__queue_remove q s) (on_ring h (remove1 q) R)"
proof -
  from rings_split [OF h r] obtain R1 R2 where
    R: "R = R1 @ (h, xs) # R2" "queue s h xs" "\<And>f. on_ring h f R = R1 @ (h, f xs) # R2"
    "\<And>g zs. (g, zs) \<in> set (R1 @ R2) \<Longrightarrow> queue s g zs \<and> insert h (set xs) \<inter> insert g (set zs) = {}"
    by metis
  have "set xs \<inter> set (ring_nodes (R1 @ R2)) = {}"
    using r unfolding R(1) represents_def by auto
  then have dis: "set (remove1 q xs) \<inter> set (ring_nodes (R1 @ R2)) = {}"
    using set_remove1_subset [of q xs] by blast
  have f: "queue (uv__queue_remove q s) g zs" if "(g, zs) \<in> set (R1 @ R2)" for g zs
    using R(4) [OF that] uvq.unlink_frame [OF _ R(2) q] by blast
  show ?thesis unfolding R(3)
    by (rule represents_update [OF r [unfolded R(1)] uvq.unlink [OF R(2) q] f dis])
qed

lemma move_refines:
  assumes r: "represents s R" and h: "(h, xs) \<in> set R" and n: "n \<notin> set (ring_nodes R)"
  shows "represents (uv__queue_move h n s) ((n, xs) # on_ring h (\<lambda>_. []) R)"
proof -
  from rings_split [OF h r] obtain R1 R2 where
    R: "R = R1 @ (h, xs) # R2" "queue s h xs" "\<And>f. on_ring h f R = R1 @ (h, f xs) # R2"
    "\<And>g zs. (g, zs) \<in> set (R1 @ R2) \<Longrightarrow> queue s g zs \<and> insert h (set xs) \<inter> insert g (set zs) = {}"
    by metis
  have nn: "n \<notin> insert h (set xs)" "n \<notin> set (ring_nodes (R1 @ R2))" using n by (auto simp: R(1))
  have dis: "insert n (insert h (set xs)) \<inter> insert g (set zs) = {}" if "(g, zs) \<in> set (R1 @ R2)" for g zs
    using R(4) [OF that] nn(2) ring_nodes_in [OF that] by blast
  have m: "queue (uv__queue_move h n s) h []" "queue (uv__queue_move h n s) n xs"
    using uvq.move [OF R(2) nn(1)] by auto
  have f: "queue (uv__queue_move h n s) g zs" if "(g, zs) \<in> set (R1 @ R2)" for g zs
    by (rule uvq.move_frame [OF _ R(2)]) (use R(4) [OF that] dis [OF that] in auto)
  have "distinct (ring_nodes ((n, xs) # R1 @ (h, []) # R2))"
    using r nn unfolding R(1) represents_def by auto
  then show ?thesis unfolding R(3) using m f by (auto simp: represents_def)
qed

lemma op_refines:
  assumes r: "represents s R" and op: "spec_op op R = Some R'"
  shows "represents (exec_op op s) R'"
proof (cases op)
  case (Init h)
  then show ?thesis using assms init_refines by (auto split: if_splits)
next
  case (InsertTail h q)
  then show ?thesis using assms insert_refines(1) by (fastforce split: if_splits)
next
  case (InsertHead h q)
  then show ?thesis using assms insert_refines(2) by (fastforce split: if_splits)
next
  case (Remove q)
  with op obtain h xs zs where f: "filter (\<lambda>(h, xs). q \<in> set xs) R = (h, xs) # zs"
    and R': "R' = on_ring h (remove1 q) R"
    by (auto split: list.splits)
  have "(h, xs) \<in> set (filter (\<lambda>(h, xs). q \<in> set xs) R)" by (simp only: f) simp
  then show ?thesis using remove_refines [OF r] by (auto simp: Remove R')
next
  case (Move h n)
  with op obtain xs where "(h, xs) \<in> set R" "n \<notin> set (ring_nodes R)"
    "R' = (n, xs) # on_ring h (\<lambda>_. []) R"
    by (auto split: if_splits option.splits dest: map_of_SomeD)
  then show ?thesis using move_refines [OF r] by (simp add: Move)
qed

section \<open>Properties\<close>

text \<open>
  C8: every program of queue operations, on any number of rings, does to the doubly linked
  store what the corresponding list operations do to the lists: after it each ring holds
  exactly the nodes the lists say, in order, and no node is on two rings.
\<close>

theorem queue_programs_refine_lists:
  assumes "represents s R" and "spec_ops ops R = Some R'"
  shows "represents (fold exec_op ops s) R'"
  using assms
proof (induction ops arbitrary: s R)
  case (Cons op ops)
  then obtain R1 where "spec_op op R = Some R1" "spec_ops ops R1 = Some R'"
    by (auto simp: bind_eq_Some_conv)
  with Cons op_refines show ?case by fastforce
qed simp

theorem queue_programs_refine_lists_witness:
  "represents (fold exec_op
     [Init 1, Init 2, InsertTail 1 (10::nat), InsertTail 1 11, InsertHead 1 9, InsertTail 2 20,
      Remove 10, Move 1 3] \<lparr>qnext = (\<lambda>_. 0), qprev = (\<lambda>_. 0)\<rparr>)
     [(3, [9, 11]), (2, [20]), (1, [])]"
  by (rule queue_programs_refine_lists [where R = "[]"])
     (simp_all add: represents_def ring_nodes_def on_ring_def)

end
