(* ===== verification/Heap.thy ===== *)
theory Heap
  imports Prelude
begin

unbundle bit_operations_syntax

text \<open>
  \<^verbatim>\<open>heap-inl.h\<close>: the pointer-linked binary min heap that orders the timers. The state holds
  the root, the element count (an \<^verbatim>\<open>unsigned int\<close>) and the three link fields of every node;
  each operation is the sequence of reads and writes of its C body. The relation
  \<open>heap_repr h xs\<close> says that the nodes form the complete binary tree whose nodes in level
  order are \<open>xs\<close>; under it, the pointer operations refine the textbook operations on an
  array, and those keep the heap order. The locale \<open>pqueue\<close> is the contract the timers
  rely on.
\<close>

section \<open>State and node operations\<close>

record heap =
  hmin :: ptr
  nelts :: u32
  hleft :: "ptr \<Rightarrow> ptr"
  hright :: "ptr \<Rightarrow> ptr"
  hparent :: "ptr \<Rightarrow> ptr"

definition set_left :: "ptr \<Rightarrow> ptr \<Rightarrow> heap \<Rightarrow> heap" where
  "set_left p v h = h\<lparr>hleft := (hleft h)(p := v)\<rparr>"

definition set_right :: "ptr \<Rightarrow> ptr \<Rightarrow> heap \<Rightarrow> heap" where
  "set_right p v h = h\<lparr>hright := (hright h)(p := v)\<rparr>"

definition set_parent :: "ptr \<Rightarrow> ptr \<Rightarrow> heap \<Rightarrow> heap" where
  "set_parent p v h = h\<lparr>hparent := (hparent h)(p := v)\<rparr>"

lemma node_reads [links_simps]:
  "hleft (set_left p v h) = (hleft h)(p := v)" "hright (set_left p v h) = hright h"
  "hparent (set_left p v h) = hparent h" "hmin (set_left p v h) = hmin h"
  "nelts (set_left p v h) = nelts h"
  "hleft (set_right p v h) = hleft h" "hright (set_right p v h) = (hright h)(p := v)"
  "hparent (set_right p v h) = hparent h" "hmin (set_right p v h) = hmin h"
  "nelts (set_right p v h) = nelts h"
  "hleft (set_parent p v h) = hleft h" "hright (set_parent p v h) = hright h"
  "hparent (set_parent p v h) = (hparent h)(p := v)" "hmin (set_parent p v h) = hmin h"
  "nelts (set_parent p v h) = nelts h"
  by (simp_all add: set_left_def set_right_def set_parent_def)

text \<open>
  Two idioms of the file: \<open>if (q != NULL) q->parent = v\<close>, and making \<open>new\<close> take the
  place of \<open>old\<close> below \<open>par\<close>, where a null \<open>par\<close> means the root.
\<close>

definition set_parent_of :: "ptr \<Rightarrow> ptr \<Rightarrow> heap \<Rightarrow> heap" where
  "set_parent_of q v h = (if q \<noteq> NULL then set_parent q v h else h)"

definition replace_child :: "ptr \<Rightarrow> ptr \<Rightarrow> ptr \<Rightarrow> heap \<Rightarrow> heap" where
  "replace_child par old new h =
     (if par = NULL then h\<lparr>hmin := new\<rparr>
      else if hleft h par = old then set_left par new h
      else set_right par new h)"

lemma set_parent_of_reads [links_simps]:
  "hleft (set_parent_of q v h) = hleft h" "hright (set_parent_of q v h) = hright h"
  "hmin (set_parent_of q v h) = hmin h" "nelts (set_parent_of q v h) = nelts h"
  "hparent (set_parent_of q v h) x = (if q \<noteq> 0 \<and> x = q then v else hparent h x)"
  by (simp_all add: set_parent_of_def links_simps)

lemma replace_child_reads [links_simps]:
  "hleft (replace_child par old new h) x =
     (if par \<noteq> 0 \<and> hleft h par = old \<and> x = par then new else hleft h x)"
  "hright (replace_child par old new h) x =
     (if par \<noteq> 0 \<and> hleft h par \<noteq> old \<and> x = par then new else hright h x)"
  "hparent (replace_child par old new h) = hparent h"
  "hmin (replace_child par old new h) = (if par = 0 then new else hmin h)"
  "nelts (replace_child par old new h) = nelts h"
  by (simp_all add: replace_child_def links_simps)

definition heap_init :: "heap \<Rightarrow> heap" where
  "heap_init h = h\<lparr>hmin := NULL, nelts := 0\<rparr>"

definition heap_min :: "heap \<Rightarrow> ptr" where
  "heap_min h = hmin h"

text \<open>
  \<open>heap_node_swap\<close>: the child moves one level up and its parent one level down. First the
  contents of the two nodes are exchanged, then the links between the two are set, then those
  of the sibling, of the grandchildren and of the grandparent.
\<close>

definition swap_contents :: "ptr \<Rightarrow> ptr \<Rightarrow> heap \<Rightarrow> heap" where
  "swap_contents parent child h =
     h\<lparr>hleft := (hleft h)(parent := hleft h child, child := hleft h parent),
       hright := (hright h)(parent := hright h child, child := hright h parent),
       hparent := (hparent h)(parent := hparent h child, child := hparent h parent)\<rparr>"

definition link_below :: "ptr \<Rightarrow> ptr \<Rightarrow> heap \<Rightarrow> heap \<times> ptr" where
  "link_below parent child h =
     (if hleft h child = child then (set_left child parent h, hright h child)
      else (set_right child parent h, hleft h child))"

definition heap_node_swap :: "ptr \<Rightarrow> ptr \<Rightarrow> heap \<Rightarrow> heap" where
  "heap_node_swap parent child h =
     (let h = set_parent parent child (swap_contents parent child h);
          (h, sibling) = link_below parent child h;
          h = set_parent_of sibling child h;
          h = set_parent_of (hleft h parent) parent h;
          h = set_parent_of (hright h parent) parent h
      in replace_child (hparent h child) parent child h)"

text \<open>
  The middle part of \<open>heap_remove\<close>: the node \<open>child\<close> takes over the links of \<open>node\<close>.
\<close>

definition take_place :: "ptr \<Rightarrow> ptr \<Rightarrow> heap \<Rightarrow> heap" where
  "take_place child node h =
     (let h = set_left child (hleft h node) h;
          h = set_right child (hright h node) h;
          h = set_parent child (hparent h node) h;
          h = set_parent_of (hleft h child) child h;
          h = set_parent_of (hright h child) child h
      in replace_child (hparent h node) node child h)"

section \<open>Paths from the root\<close>

text \<open>
  The loop that turns the number of a node into the path to it, and the walk along that path.
  A pointer to a link field is a \<open>slot\<close>.
\<close>

function heap_path :: "u32 \<Rightarrow> u32 \<Rightarrow> u32 \<Rightarrow> u32 \<times> u32" where
  "heap_path path k n =
     (if 2 \<le> n then heap_path (push_bit 1 path OR (n AND 1)) (k + 1) (n div 2) else (path, k))"
  by pat_completeness auto
termination
  by (relation "measure (\<lambda>(path, k, n). unat n)") (auto simp: word_le_nat_alt unat_div)

declare heap_path.simps [simp del]

datatype slot = Root | LeftOf ptr | RightOf ptr

fun read_slot :: "slot \<Rightarrow> heap \<Rightarrow> ptr" where
  "read_slot Root h = hmin h"
| "read_slot (LeftOf p) h = hleft h p"
| "read_slot (RightOf p) h = hright h p"

fun write_slot :: "slot \<Rightarrow> ptr \<Rightarrow> heap \<Rightarrow> heap" where
  "write_slot Root v h = h\<lparr>hmin := v\<rparr>"
| "write_slot (LeftOf p) v h = set_left p v h"
| "write_slot (RightOf p) v h = set_right p v h"

function heap_walk :: "heap \<Rightarrow> u32 \<Rightarrow> u32 \<Rightarrow> slot \<Rightarrow> slot \<Rightarrow> slot \<times> slot" where
  "heap_walk h k path parent child =
     (if 0 < k
      then heap_walk h (k - 1) (drop_bit 1 path) child
             (if path AND 1 \<noteq> 0 then RightOf (read_slot child h) else LeftOf (read_slot child h))
      else (parent, child))"
  by pat_completeness auto
termination
  by (relation "measure (\<lambda>(h, k, path, parent, child). unat k)")
     (auto simp: word_gt_0 intro: measure_unat)

declare heap_walk.simps [simp del]

section \<open>The operations\<close>

text \<open>
  The two loops that restore the order. On a corrupted heap they may run forever, so their
  type is \<open>option\<close>; that they return on a proper heap is part of what is proved.
\<close>

partial_function (option) sift_up :: "(ptr \<Rightarrow> ptr \<Rightarrow> bool) \<Rightarrow> ptr \<Rightarrow> heap \<Rightarrow> heap option" where
  "sift_up lt node h =
     (if hparent h node \<noteq> NULL \<and> lt node (hparent h node)
      then sift_up lt node (heap_node_swap (hparent h node) node h)
      else Some h)"

definition smallest_of :: "(ptr \<Rightarrow> ptr \<Rightarrow> bool) \<Rightarrow> ptr \<Rightarrow> heap \<Rightarrow> ptr" where
  "smallest_of lt child h =
     (let smallest = child;
          smallest = (if hleft h child \<noteq> NULL \<and> lt (hleft h child) smallest
                      then hleft h child else smallest)
      in if hright h child \<noteq> NULL \<and> lt (hright h child) smallest
         then hright h child else smallest)"

partial_function (option) sift_down :: "(ptr \<Rightarrow> ptr \<Rightarrow> bool) \<Rightarrow> ptr \<Rightarrow> heap \<Rightarrow> heap option" where
  "sift_down lt child h =
     (let smallest = smallest_of lt child h
      in if smallest = child then Some h
         else sift_down lt child (heap_node_swap child smallest h))"

declare sift_up.simps [code] and sift_down.simps [code]

definition heap_insert :: "ptr \<Rightarrow> (ptr \<Rightarrow> ptr \<Rightarrow> bool) \<Rightarrow> heap \<Rightarrow> heap option" where
  "heap_insert newnode lt h =
     (let h = set_left newnode NULL h;
          h = set_right newnode NULL h;
          h = set_parent newnode NULL h;
          (path, k) = heap_path 0 0 (1 + nelts h);
          (parent, child) = heap_walk h k path Root Root;
          h = set_parent newnode (read_slot parent h) h;
          h = write_slot child newnode h;
          h = h\<lparr>nelts := nelts h + 1\<rparr>
      in sift_up lt newnode h)"

definition heap_remove :: "ptr \<Rightarrow> (ptr \<Rightarrow> ptr \<Rightarrow> bool) \<Rightarrow> heap \<Rightarrow> heap option" where
  "heap_remove node lt h =
     (if nelts h = 0 then Some h
      else
        (let (path, k) = heap_path 0 0 (nelts h);
             (_, max) = heap_walk h k path Root Root;
             h = h\<lparr>nelts := nelts h - 1\<rparr>;
             child = read_slot max h;
             h = write_slot max NULL h
         in if child = node then
              Some (if child = hmin h then h\<lparr>hmin := NULL\<rparr> else h)
            else
              (let h = take_place child node h
               in Option.bind (sift_down lt child h) (sift_up lt child))))"

definition heap_dequeue :: "(ptr \<Rightarrow> ptr \<Rightarrow> bool) \<Rightarrow> heap \<Rightarrow> heap option" where
  "heap_dequeue lt h = heap_remove (hmin h) lt h"

section \<open>The complete tree as an array\<close>

text \<open>
  \<open>at xs i\<close> is the node with number \<open>i\<close>, counted from 1 in level order, and \<open>NULL\<close>
  outside. The children of number \<open>i\<close> have the numbers \<open>2 * i\<close> and \<open>2 * i + 1\<close>.
\<close>

definition at :: "ptr list \<Rightarrow> nat \<Rightarrow> ptr" where
  "at xs i = (if 1 \<le> i \<and> i \<le> length xs then xs ! (i - 1) else NULL)"

definition heap_repr :: "heap \<Rightarrow> ptr list \<Rightarrow> bool" where
  "heap_repr h xs \<longleftrightarrow>
     length xs < 2 ^ 32 \<and> nelts h = of_nat (length xs) \<and> distinct xs \<and> NULL \<notin> set xs \<and>
     hmin h = at xs 1 \<and>
     (\<forall>i. 1 \<le> i \<and> i \<le> length xs \<longrightarrow>
        hleft h (at xs i) = at xs (2 * i) \<and> hright h (at xs i) = at xs (2 * i + 1) \<and>
        hparent h (at xs i) = at xs (i div 2))"

lemma at_in: "1 \<le> i \<Longrightarrow> i \<le> length xs \<Longrightarrow> at xs i \<in> set xs"
  by (simp add: at_def)

lemma at_out: "i = 0 \<or> length xs < i \<Longrightarrow> at xs i = NULL"
  by (auto simp: at_def)

lemma at_exists: "p \<in> set xs \<Longrightarrow> \<exists>i. 1 \<le> i \<and> i \<le> length xs \<and> at xs i = p"
  by (metis One_nat_def Suc_leI at_def diff_Suc_1 in_set_conv_nth le_add1 plus_1_eq_Suc)

lemma at_inj:
  "distinct xs \<Longrightarrow> 1 \<le> i \<Longrightarrow> i \<le> length xs \<Longrightarrow> 1 \<le> j \<Longrightarrow> j \<le> length xs \<Longrightarrow>
   at xs i = at xs j \<longleftrightarrow> i = j"
  by (auto simp: at_def nth_eq_iff_index_eq)

lemma at_NULL_iff: "NULL \<notin> set xs \<Longrightarrow> at xs i = NULL \<longleftrightarrow> i = 0 \<or> length xs < i"
  by (metis at_def at_in not_less not_less_eq One_nat_def less_Suc0)

lemma heap_reads:
  assumes "heap_repr h xs" "1 \<le> i" "i \<le> length xs"
  shows "hleft h (at xs i) = at xs (2 * i)" "hright h (at xs i) = at xs (2 * i + 1)"
    "hparent h (at xs i) = at xs (i div 2)"
  using assms by (auto simp: heap_repr_def)

lemma heap_null:
  assumes "heap_repr h xs"
  shows "at xs i = 0 \<longleftrightarrow> i = 0 \<or> length xs < i"
  using assms at_NULL_iff by (auto simp: heap_repr_def)

lemma heap_inj:
  assumes "heap_repr h xs"
  shows "at xs a = at xs b \<longleftrightarrow> a = b \<or> (a = 0 \<or> length xs < a) \<and> (b = 0 \<or> length xs < b)"
  using at_inj [of xs a b] heap_null [OF assms] assms
  by (metis heap_repr_def less_one not_less)

text \<open>When a node is the left or the right child of its parent.\<close>

lemma parent_link:
  assumes r: "heap_repr h xs" and i: "1 \<le> i" "i \<le> length xs" and m: "1 \<le> m" "m \<le> length xs"
  shows "at xs (i div 2) \<noteq> 0 \<and> hleft h (at xs (i div 2)) = at xs i \<and> at xs m = at xs (i div 2)
      \<longleftrightarrow> 2 * m = i" (is ?L)
    and "at xs (i div 2) \<noteq> 0 \<and> hleft h (at xs (i div 2)) \<noteq> at xs i \<and> at xs m = at xs (i div 2)
      \<longleftrightarrow> 2 * m + 1 = i" (is ?R)
proof -
  have above: "at xs (i div 2) \<noteq> 0 \<and> at xs m = at xs (i div 2) \<longleftrightarrow> m = i div 2 \<and> 2 \<le> i"
    using m i by (auto simp: heap_inj [OF r] heap_null [OF r])
  have lg: "hleft h (at xs (i div 2)) = at xs i \<longleftrightarrow> even i" if "2 \<le> i"
    using that i heap_reads(1) [OF r, of "i div 2"] heap_inj [OF r, of "2 * (i div 2)" i]
    by (auto elim: evenE) presburger
  show ?L ?R using m above lg by (auto elim: evenE oddE)
qed

definition swap_at :: "nat \<Rightarrow> nat \<Rightarrow> ptr list \<Rightarrow> ptr list" where
  "swap_at i j xs = xs[i - 1 := at xs j, j - 1 := at xs i]"

lemma length_swap_at [simp]: "length (swap_at i j xs) = length xs"
  by (simp add: swap_at_def)

lemma at_swap_at:
  "1 \<le> i \<Longrightarrow> i \<le> length xs \<Longrightarrow> 1 \<le> j \<Longrightarrow> j \<le> length xs \<Longrightarrow>
   at (swap_at i j xs) k = (if k = i then at xs j else if k = j then at xs i else at xs k)"
  by (auto simp: swap_at_def at_def nth_list_update)

lemma mset_swap_at:
  "1 \<le> i \<Longrightarrow> i \<le> length xs \<Longrightarrow> 1 \<le> j \<Longrightarrow> j \<le> length xs \<Longrightarrow> mset (swap_at i j xs) = mset xs"
  using mset_swap [of "j - 1" xs "i - 1"] by (simp add: swap_at_def at_def)

section \<open>The swap of a node with its parent\<close>

text \<open>Exchanging two numbers, and where the children and the parent of a number go.\<close>

abbreviation exch :: "nat \<Rightarrow> nat \<Rightarrow> nat \<Rightarrow> nat" where
  "exch i j k \<equiv> if k = i then j else if k = j then i else k"

lemma exch_range: "1 \<le> i \<Longrightarrow> i \<le> n \<Longrightarrow> 1 \<le> j \<Longrightarrow> j \<le> n \<Longrightarrow> 1 \<le> exch i j k \<and> exch i j k \<le> n \<longleftrightarrow> 1 \<le> k \<and> k \<le> n"
  by auto

lemma at_swap_exch:
  assumes "1 \<le> i" "i \<le> length xs" "1 \<le> j" "j \<le> length xs"
  shows "at (swap_at i j xs) k = at xs (exch i j k)"
  using at_swap_at [OF assms, of k] by auto

text \<open>
  The link fields after a swap, in terms of the ones before: \<open>g\<close> is the grandparent,
  \<open>cl\<close> and \<open>cr\<close> are the grandchildren and \<open>sib\<close> is the sibling.
\<close>

lemma swap_fields:
  assumes f: "hparent h p = g" "hleft h c = cl" "hright h c = cr" "hparent h c = p"
    and side: "hleft h p = c \<and> hright h p = sib \<or> hright h p = c \<and> hleft h p = sib"
    and ne: "p \<noteq> c" "p \<noteq> 0" "c \<noteq> 0" "sib \<noteq> p" "sib \<noteq> c" "cl \<noteq> p" "cl \<noteq> c" "cr \<noteq> p" "cr \<noteq> c"
      "g \<noteq> p" "g \<noteq> c"
  shows
    "hleft (heap_node_swap p c h) x =
       (if g \<noteq> 0 \<and> hleft h g = p \<and> x = g then c else if x = p then cl
        else if x = c then (if hleft h p = c then p else sib) else hleft h x)" (is ?L)
    "hright (heap_node_swap p c h) x =
       (if g \<noteq> 0 \<and> hleft h g \<noteq> p \<and> x = g then c else if x = p then cr
        else if x = c then (if hleft h p = c then sib else p) else hright h x)" (is ?R)
    "hparent (heap_node_swap p c h) x =
       (if cr \<noteq> 0 \<and> x = cr then p else if cl \<noteq> 0 \<and> x = cl then p
        else if sib \<noteq> 0 \<and> x = sib then c else if x = c then g else if x = p then c
        else hparent h x)" (is ?P)
    "hmin (heap_node_swap p c h) = (if g = 0 then c else hmin h)" (is ?M)
    "nelts (heap_node_swap p c h) = nelts h" (is ?N)
proof -
  define h1 where "h1 = set_parent p c (swap_contents p c h)"
  define h2 where "h2 = fst (link_below p c h1)"
  define h3 where "h3 = set_parent_of cr p (set_parent_of cl p (set_parent_of sib c h2))"
  have h1: "hleft h1 = (hleft h)(p := cl, c := hleft h p)" "hright h1 = (hright h)(p := cr, c := hright h p)"
    "hparent h1 = (hparent h)(p := c, c := g)" "hmin h1 = hmin h" "nelts h1 = nelts h"
    using ne f by (auto simp: h1_def swap_contents_def links_simps)
  have below: "link_below p c h1 = (h2, sib)"
    using side ne by (auto simp: link_below_def h2_def h1)
  have h2: "hleft h2 c = (if hleft h p = c then p else sib)" "hright h2 c = (if hleft h p = c then sib else p)"
    "x \<noteq> c \<Longrightarrow> hleft h2 x = hleft h1 x" "x \<noteq> c \<Longrightarrow> hright h2 x = hright h1 x"
    "hparent h2 = hparent h1" "hmin h2 = hmin h" "nelts h2 = nelts h" for x
    using side ne by (auto simp: h2_def link_below_def h1 links_simps)
  have h3: "hleft h3 = hleft h2" "hright h3 = hright h2" "hmin h3 = hmin h" "nelts h3 = nelts h"
    "hparent h3 x = (if cr \<noteq> 0 \<and> x = cr then p else if cl \<noteq> 0 \<and> x = cl then p
        else if sib \<noteq> 0 \<and> x = sib then c else if x = c then g else if x = p then c
        else hparent h x)" for x
    by (simp_all add: h3_def h2 h1 links_simps)
  have r: "hleft h2 p = cl" "hright h2 p = cr" using ne by (simp_all add: h2 h1)
  have g: "hparent h3 c = g" using ne by (simp add: h3)
  have "heap_node_swap p c h = replace_child (hparent h3 c) p c h3"
    unfolding heap_node_swap_def h1_def [symmetric] Let_def below prod.case h3_def
    by (simp only: set_parent_of_reads(1,2) r)
  then have eq: "heap_node_swap p c h = replace_child g p c h3" unfolding g .
  have l3: "hleft h3 x = (if x = p then cl else if x = c then (if hleft h p = c then p else sib) else hleft h x)"
    and r3: "hright h3 x = (if x = p then cr else if x = c then (if hleft h p = c then sib else p) else hright h x)"
    for x using ne(1) by (cases "x = c"; simp add: h3(1,2) h2 h1(1,2))+
  have lg: "hleft h3 g = hleft h g" using ne by (simp add: l3)
  show ?L unfolding eq replace_child_reads unfolding lg unfolding l3 ..
  show ?R unfolding eq replace_child_reads unfolding lg unfolding r3 ..
  show ?P unfolding eq replace_child_reads h3 ..
  show ?M ?N unfolding eq replace_child_reads h3 by simp_all
qed

lemma heap_swap_repr:
  assumes r: "heap_repr h xs" and j: "2 \<le> j" "j \<le> length xs" and i: "i = j div 2"
  shows "heap_repr (heap_node_swap (at xs i) (at xs j) h) (swap_at i j xs)" (is "heap_repr ?h ?xs")
proof -
  let ?n = "length xs" and ?p = "at xs i" and ?c = "at xs j" and ?s = "at xs (if even j then j + 1 else j - 1)"
  have i': "1 \<le> i" "i \<le> ?n" "i < j" "even j \<Longrightarrow> 2 * i = j" "odd j \<Longrightarrow> 2 * i + 1 = j"
    using i j by (auto elim: evenE oddE)
  have d: "distinct xs" "NULL \<notin> set xs" and hm: "hmin h = at xs 1" "nelts h = of_nat ?n" "?n < 2 ^ 32"
    using r by (auto simp: heap_repr_def)
  note L = heap_reads [OF r] and nul = heap_null [OF r] and inj = heap_inj [OF r]
  have F: "hparent h ?p = at xs (i div 2)" "hleft h ?c = at xs (2 * j)" "hright h ?c = at xs (2 * j + 1)"
    "hparent h ?c = ?p" using L i j i' by auto
  have side: "hleft h ?p = ?c \<and> hright h ?p = ?s \<or> hright h ?p = ?c \<and> hleft h ?p = ?s"
    using L [of i] i' by (cases "even j") auto
  have lp: "hleft h ?p = ?c \<longleftrightarrow> even j"
    using L [of i] i' j inj [of "2 * i" j] by (auto elim: evenE)
  note S = swap_fields [OF F side]
  have ne: "?p \<noteq> ?c" "?p \<noteq> 0" "?c \<noteq> 0" "?s \<noteq> ?p" "?s \<noteq> ?c" "at xs (2 * j) \<noteq> ?p" "at xs (2 * j) \<noteq> ?c"
    "at xs (2 * j + 1) \<noteq> ?p" "at xs (2 * j + 1) \<noteq> ?c" "at xs (i div 2) \<noteq> ?p" "at xs (i div 2) \<noteq> ?c"
    using i' j by (auto simp: inj nul elim: oddE)
  have X: "at ?xs k = at xs (exch i j k)" for k
    using at_swap_exch [of i xs j k] i' j by simp
  note GL = parent_link(1) [OF r i'(1,2)] and GR = parent_link(2) [OF r i'(1,2)]
  have pc: "at xs m = ?p \<longleftrightarrow> m = i" "at xs m = ?c \<longleftrightarrow> m = j" if "1 \<le> m" "m \<le> ?n" for m
    using that i' j by (auto simp: inj)
  have SL: "hleft ?h (at xs m) = at ?xs (2 * exch i j m)" if "1 \<le> m" "m \<le> ?n" for m
    unfolding S(1) [OF ne] X GL [OF that] lp pc [OF that] L(1) [OF that] using i' j by auto
  have SR: "hright ?h (at xs m) = at ?xs (2 * exch i j m + 1)" if "1 \<le> m" "m \<le> ?n" for m
    unfolding S(2) [OF ne] X GR [OF that] lp pc [OF that] L(2) [OF that] using i' j by auto
  have SP: "hparent ?h (at xs m) = at ?xs (exch i j m div 2)" if "1 \<le> m" "m \<le> ?n" for m
  proof -
    have "at xs (2 * j + 1) \<noteq> 0 \<and> at xs m = at xs (2 * j + 1) \<longleftrightarrow> m = 2 * j + 1"
      "at xs (2 * j) \<noteq> 0 \<and> at xs m = at xs (2 * j) \<longleftrightarrow> m = 2 * j"
      "?s \<noteq> 0 \<and> at xs m = ?s \<longleftrightarrow> m = (if even j then j + 1 else j - 1)"
      using that i' j by (auto simp: inj nul)
    note K = this
    have E: "hparent ?h (at xs m) =
      (if m = 2 * j + 1 then ?p else if m = 2 * j then ?p else if m = (if even j then j + 1 else j - 1) then ?c
       else if m = j then at xs (i div 2) else if m = i then ?c else at xs (m div 2))"
      unfolding S(3) [OF ne] K pc [OF that] L(3) [OF that] ..
    have sib: "m div 2 = i \<longleftrightarrow> m = j \<or> m = (if even j then j + 1 else j - 1)"
      and ch: "m div 2 = j \<longleftrightarrow> m = 2 * j \<or> m = 2 * j + 1" and up: "i div 2 \<noteq> i" "i div 2 \<noteq> j"
      using i' by (cases "even j"; auto)+
    consider "m = i" | "m = j" | "m \<noteq> i" "m \<noteq> j" by blast
    then show ?thesis
    proof cases
      case 1
      then have "m div 2 \<noteq> i" "m div 2 \<noteq> j" using up by auto
      with 1 sib ch i' i [symmetric] show ?thesis unfolding E X by simp
    next
      case 2
      then have "m div 2 = i" "m div 2 \<noteq> j" "m \<noteq> (if even j then j + 1 else j - 1)"
        using i' i j by auto
      with 2 ch up i' show ?thesis unfolding E X by simp
    next
      case 3
      consider "m = 2 * j + 1 \<or> m = 2 * j" | "m = (if even j then j + 1 else j - 1)" "m div 2 = i"
        | "m div 2 \<noteq> i" "m div 2 \<noteq> j" using sib ch 3 by blast
      then show ?thesis
      proof cases
        case 1
        then have "m div 2 = j" "j \<noteq> i" using ch i' by auto
        with 1 3 show ?thesis unfolding E X by auto
      next
        case 2
        then have "m \<noteq> 2 * j + 1" "m \<noteq> 2 * j" using ch i' by auto
        with 2 3 i' show ?thesis unfolding E X by simp
      next
        case 3
        with sib ch \<open>m \<noteq> i\<close> \<open>m \<noteq> j\<close> show ?thesis unfolding E X by simp
      qed
    qed
  qed
  have "mset ?xs = mset xs" by (rule mset_swap_at) (use i' j in auto)
  then have D: "distinct ?xs" "set ?xs = set xs" using d mset_eq_imp_distinct_iff mset_eq_setD by blast+
  have M: "hmin ?h = at ?xs 1" unfolding S(4) [OF ne] X using i' j hm(1) by (auto simp: nul)
  have all: "hleft ?h (at ?xs k) = at ?xs (2 * k) \<and> hright ?h (at ?xs k) = at ?xs (2 * k + 1) \<and>
      hparent ?h (at ?xs k) = at ?xs (k div 2)" if "1 \<le> k" "k \<le> ?n" for k
  proof -
    have "1 \<le> exch i j k" "exch i j k \<le> ?n" using that i' j by auto
    note T = SL [OF this] SR [OF this] SP [OF this]
    have "exch i j (exch i j k) = k" by auto
    with T show ?thesis unfolding X [of k] by (simp only:)
  qed
  show ?thesis unfolding heap_repr_def
    using hm(2,3) d(2) D M all S(5) [OF ne] by simp
qed

section \<open>The path reaches the numbered slot\<close>

text \<open>
  \<open>top_bits n\<close> are the binary digits of \<open>n\<close> below the leading one, most significant first:
  the turns from the root to number \<open>n\<close>. \<open>low_bits path k\<close> are the \<open>k\<close> low digits of
  \<open>path\<close>, least significant first, as the walk reads them.
\<close>

fun top_bits :: "nat \<Rightarrow> bool list" where
  "top_bits n = (if n < 2 then [] else top_bits (n div 2) @ [odd n])"

declare top_bits.simps [simp del]

definition low_bits :: "u32 \<Rightarrow> nat \<Rightarrow> bool list" where
  "low_bits path k = map (bit path) [0..<k]"

lemma top_bits_decode: "1 \<le> n \<Longrightarrow> fold (\<lambda>b m. 2 * m + of_bool b) (top_bits n) 1 = n"
proof (induction n rule: top_bits.induct)
  case (1 n)
  show ?case
  proof (cases "n < 2")
    case True
    with "1.prems" show ?thesis by (simp add: top_bits.simps)
  next
    case False
    then have "fold (\<lambda>b m. 2 * m + of_bool b) (top_bits (n div 2)) 1 = n div 2"
      using "1.IH" by simp
    with False show ?thesis by (subst top_bits.simps) (auto elim: evenE oddE)
  qed
qed

lemma length_top_bits: "n < 2 ^ (k + 1) \<Longrightarrow> length (top_bits n) \<le> k"
proof (induction n arbitrary: k rule: top_bits.induct)
  case (1 n)
  show ?case
  proof (cases "n < 2")
    case True
    then show ?thesis by (simp add: top_bits.simps)
  next
    case False
    with "1.prems" obtain k' where k: "k = Suc k'" by (cases k) auto
    with "1.prems" have "n div 2 < 2 ^ (k' + 1)" by auto
    from "1.IH" [OF False this] k False show ?thesis by (subst top_bits.simps) simp
  qed
qed

lemma low_bits_push:
  assumes "k < 32"
  shows "low_bits (push_bit 1 path OR (n AND 1)) (Suc k) = bit n 0 # low_bits path k"
proof -
  have "bit (push_bit 1 path OR (n AND 1)) (Suc i) = bit path i" if "i < k" for i
    using that assms
    by (simp add: bit_or_iff bit_and_iff bit_1_iff bit_push_bit_iff del: push_bit_of_Suc_0)
      (simp add: mult.commute [of path] bit_double_iff)
  moreover have "bit (push_bit 1 path OR (n AND 1)) 0 = bit n 0"
    by (simp add: bit_or_iff bit_and_iff bit_1_iff mult.commute [of path] bit_double_iff)
  moreover have "low_bits p (Suc k) = bit p 0 # map (\<lambda>i. bit p (Suc i)) [0..<k]" for p
    unfolding low_bits_def by (subst upt_conv_Cons) (simp_all add: map_Suc_upt [symmetric] del: upt_Suc)
  ultimately show ?thesis by (simp add: low_bits_def)
qed

lemma bit_0_unat: "bit n 0 \<longleftrightarrow> odd (unat n)" for n :: "'a::len word"
proof -
  have "bit (unat n) 0 = bit n 0" by (simp only: bit_unsigned_iff) simp
  then show ?thesis by (simp add: bit_0)
qed

lemma heap_path_bits:
  assumes "unat k + length (top_bits (unat n)) \<le> 32"
  shows "\<exists>path' k'. heap_path path k n = (path', k') \<and>
     unat k' = unat k + length (top_bits (unat n)) \<and>
     low_bits path' (unat k') = top_bits (unat n) @ low_bits path (unat k)"
  using assms
proof (induction path k n rule: heap_path.induct)
  case (1 path k n)
  show ?case
  proof (cases "2 \<le> n")
    case False
    then have "unat n < 2" by (simp add: word_le_nat_alt)
    with False show ?thesis by (simp add: heap_path.simps top_bits.simps)
  next
    case True
    then have n2: "\<not> unat n < 2" "unat (n div 2) = unat n div 2"
      by (simp_all add: word_le_nat_alt unat_div)
    then have t: "top_bits (unat n) = top_bits (unat (n div 2)) @ [odd (unat n)]"
      by (subst top_bits.simps) simp
    with "1.prems" have k: "unat k < 32" and k1: "unat (k + 1) = Suc (unat k)"
      by (auto simp: unat_word_ariths)
    from low_bits_push [OF k, of path n] 1(1) [OF True] "1.prems" t k1 True bit_0_unat [of n] show ?thesis
      by (subst heap_path.simps) auto
  qed
qed

definition slot_at :: "ptr list \<Rightarrow> nat \<Rightarrow> slot" where
  "slot_at xs m = (if m \<le> 1 then Root else if even m then LeftOf (at xs (m div 2)) else RightOf (at xs (m div 2)))"

lemma read_slot_at:
  assumes "heap_repr h xs" "1 \<le> m" "m div 2 \<le> length xs"
  shows "read_slot (slot_at xs m) h = at xs m"
proof (cases "m \<le> 1")
  case True
  with assms show ?thesis by (auto simp: slot_at_def heap_repr_def)
next
  case False
  with assms have "hleft h (at xs (m div 2)) = at xs (2 * (m div 2))"
    "hright h (at xs (m div 2)) = at xs (2 * (m div 2) + 1)"
    by (simp_all add: heap_repr_def)
  with False show ?thesis by (auto simp: slot_at_def elim: evenE oddE)
qed

lemma fold_bits_mono: "m \<le> fold (\<lambda>b m. 2 * m + of_bool b) bs (m :: nat)"
proof (induction bs arbitrary: m)
  case (Cons b bs)
  from Cons [of "2 * m + of_bool b"] show ?case by simp
qed simp

lemma low_bits_Suc: "low_bits path (Suc k) = bit path 0 # low_bits (drop_bit 1 path) k"
  unfolding low_bits_def
  by (subst upt_conv_Cons) (simp_all add: map_Suc_upt [symmetric] bit_drop_bit_eq comp_def
      del: upt_Suc drop_bit_of_Suc_0)

lemma heap_walk_slot:
  assumes "heap_repr h xs" and "1 \<le> m"
    and "n = fold (\<lambda>b m. 2 * m + of_bool b) (low_bits path (unat k)) m" and "n div 2 \<le> length xs"
  shows "heap_walk h k path (slot_at xs (m div 2)) (slot_at xs m) = (slot_at xs (n div 2), slot_at xs n)"
  using assms(2-)
proof (induction "unat k" arbitrary: k path m)
  case 0
  then have "k = 0" by (simp add: unat_eq_zero)
  with 0 show ?case by (simp add: heap_walk.simps low_bits_def)
next
  case (Suc j)
  have "k \<noteq> 0" using Suc.hyps(2) by auto
  then have k: "0 < k" "unat (k - 1) = j"
    using Suc.hyps(2) by (simp_all add: word_gt_0 unat_minus_one)
  let ?m = "2 * m + of_bool (bit path 0)"
  have n: "n = fold (\<lambda>b m. 2 * m + of_bool b) (low_bits (drop_bit 1 path) j) ?m"
    using Suc.prems(2) Suc.hyps(2) [symmetric] by (simp add: low_bits_Suc)
  then have "?m \<le> n" using fold_bits_mono by metis
  then have "m \<le> n div 2" by simp
  with Suc.prems assms(1) have "read_slot (slot_at xs m) h = at xs m"
    by (intro read_slot_at) auto
  moreover have "path AND 1 \<noteq> 0 \<longleftrightarrow> bit path 0"
    by (simp add: and_one_eq bit_0 odd_iff_mod_2_eq_one)
  ultimately have slot: "(if path AND 1 \<noteq> 0 then RightOf (read_slot (slot_at xs m) h)
      else LeftOf (read_slot (slot_at xs m) h)) = slot_at xs ?m"
    using Suc.prems(1) by (auto simp: slot_at_def)
  have "heap_walk h (k - 1) (drop_bit 1 path) (slot_at xs (?m div 2)) (slot_at xs ?m) =
      (slot_at xs (n div 2), slot_at xs n)"
    by (rule Suc.hyps(1)) (use k n Suc.prems in auto)
  moreover have "?m div 2 = m" by simp
  ultimately show ?case using k(1) slot by (subst heap_walk.simps) simp
qed

lemma heap_locate:
  assumes "heap_repr h xs" "1 \<le> n" "n div 2 \<le> length xs" "n < 2 ^ 32"
  obtains path k where "heap_path 0 0 (of_nat n) = (path, k)"
    "heap_walk h k path Root Root = (slot_at xs (n div 2), slot_at xs n)"
proof -
  have u: "unat (of_nat n :: u32) = n" using assms(4) by (rule unat_of_nat_u32)
  have "length (top_bits n) \<le> 31" using length_top_bits [of n 31] assms(4) by simp
  then obtain path k where p: "heap_path 0 0 (of_nat n) = (path, k)"
    and "unat k = length (top_bits n)" "low_bits path (unat k) = top_bits n"
    using heap_path_bits [of 0 "of_nat n" 0] by (auto simp: u low_bits_def)
  then have "heap_walk h k path (slot_at xs (1 div 2)) (slot_at xs 1) = (slot_at xs (n div 2), slot_at xs n)"
    by (intro heap_walk_slot) (use assms top_bits_decode [of n] in auto)
  with p that show ?thesis by (simp add: slot_at_def)
qed

section \<open>Linking a node in at the end and taking the last one out\<close>

lemma heap_repr_cong:
  assumes "heap_repr h xs" "hmin h' = hmin h" "nelts h' = nelts h"
    and "\<And>p. p \<in> set xs \<Longrightarrow> hleft h' p = hleft h p \<and> hright h' p = hright h p \<and> hparent h' p = hparent h p"
  shows "heap_repr h' xs"
  using assms at_in [of _ xs] by (auto simp: heap_repr_def)

lemma at_append: "at (xs @ [x]) i = (if i = Suc (length xs) then x else at xs i)"
  by (auto simp: at_def nth_append)

lemma at_butlast: "xs \<noteq> [] \<Longrightarrow> at (butlast xs) i = (if i = length xs then NULL else at xs i)"
  by (auto simp: at_def nth_butlast)

lemma write_slot_reads [links_simps]:
  "hparent (write_slot s v h) = hparent h" "nelts (write_slot s v h) = nelts h"
  by (cases s; simp add: links_simps)+

lemma write_slot_at:
  assumes r: "heap_repr h xs" and n: "1 \<le> n" "n div 2 \<le> length xs"
  shows "hmin (write_slot (slot_at xs n) v h) = (if n = 1 then v else hmin h)"
    and "1 \<le> i \<Longrightarrow> i \<le> length xs \<Longrightarrow>
      hleft (write_slot (slot_at xs n) v h) (at xs i) = (if 2 * i = n then v else hleft h (at xs i))"
    and "1 \<le> i \<Longrightarrow> i \<le> length xs \<Longrightarrow>
      hright (write_slot (slot_at xs n) v h) (at xs i) = (if 2 * i + 1 = n then v else hright h (at xs i))"
    and "p \<notin> set xs \<Longrightarrow> hleft (write_slot (slot_at xs n) v h) p = hleft h p \<and>
      hright (write_slot (slot_at xs n) v h) p = hright h p"
proof -
  have d: "distinct xs" using r by (simp add: heap_repr_def)
  have inj: "at xs i = at xs (n div 2) \<longleftrightarrow> i = n div 2" if "1 \<le> i" "i \<le> length xs" "\<not> n \<le> 1"
    using at_inj [OF d, of i "n div 2"] that n by auto
  show "hmin (write_slot (slot_at xs n) v h) = (if n = 1 then v else hmin h)"
    using n by (auto simp: slot_at_def links_simps)
  show "hleft (write_slot (slot_at xs n) v h) (at xs i) = (if 2 * i = n then v else hleft h (at xs i))"
    if "1 \<le> i" "i \<le> length xs"
    using that inj [OF that] by (auto simp: slot_at_def links_simps elim!: evenE oddE)
  show "hright (write_slot (slot_at xs n) v h) (at xs i) = (if 2 * i + 1 = n then v else hright h (at xs i))"
    if "1 \<le> i" "i \<le> length xs"
    using that inj [OF that] by (auto simp: slot_at_def links_simps elim!: evenE oddE)
  show "hleft (write_slot (slot_at xs n) v h) p = hleft h p \<and>
      hright (write_slot (slot_at xs n) v h) p = hright h p" if "p \<notin> set xs"
    using that at_in [of "n div 2" xs] n by (auto simp: slot_at_def links_simps)
qed

section \<open>The array operations the pointer operations refine\<close>

function array_up :: "(ptr \<Rightarrow> ptr \<Rightarrow> bool) \<Rightarrow> nat \<Rightarrow> ptr list \<Rightarrow> ptr list" where
  "array_up lt i xs =
     (if 2 \<le> i \<and> lt (at xs i) (at xs (i div 2))
      then array_up lt (i div 2) (swap_at (i div 2) i xs) else xs)"
  by pat_completeness auto
termination by (relation "measure (\<lambda>(lt, i, xs). i)") auto

declare array_up.simps [simp del]

definition small_index :: "(ptr \<Rightarrow> ptr \<Rightarrow> bool) \<Rightarrow> nat \<Rightarrow> ptr list \<Rightarrow> nat" where
  "small_index lt i xs =
     (let s = (if 2 * i \<le> length xs \<and> lt (at xs (2 * i)) (at xs i) then 2 * i else i)
      in if 2 * i + 1 \<le> length xs \<and> lt (at xs (2 * i + 1)) (at xs s) then 2 * i + 1 else s)"

lemma small_index_cases:
  "small_index lt i xs = i \<or> small_index lt i xs div 2 = i \<and> i < small_index lt i xs \<and>
     small_index lt i xs \<le> length xs \<or> i = 0"
  by (auto simp: small_index_def Let_def)

function array_down :: "(ptr \<Rightarrow> ptr \<Rightarrow> bool) \<Rightarrow> nat \<Rightarrow> ptr list \<Rightarrow> ptr list \<times> nat" where
  "array_down lt i xs =
     (if i = 0 \<or> small_index lt i xs = i then (xs, i)
      else array_down lt (small_index lt i xs) (swap_at i (small_index lt i xs) xs))"
  by pat_completeness auto
termination
proof (relation "measure (\<lambda>(lt, i, xs). length xs - i)", goal_cases)
  case (2 lt i xs)
  then show ?case using small_index_cases [of lt i xs] by auto
qed simp

declare array_down.simps [simp del]

lemma sift_up_refines:
  "heap_repr h xs \<Longrightarrow> 1 \<le> i \<Longrightarrow> i \<le> length xs \<Longrightarrow>
   \<exists>h'. sift_up lt (at xs i) h = Some h' \<and> heap_repr h' (array_up lt i xs)"
proof (induction lt i xs arbitrary: h rule: array_up.induct)
  case (1 lt i xs)
  have par: "hparent h (at xs i) = at xs (i div 2)" "hparent h (at xs i) \<noteq> 0 \<longleftrightarrow> 2 \<le> i"
    using heap_reads [OF "1.prems"] heap_null [OF "1.prems"(1)] "1.prems" by auto
  show ?case
  proof (cases "2 \<le> i \<and> lt (at xs i) (at xs (i div 2))")
    case False
    with par "1.prems"(1) show ?thesis by (subst sift_up.simps, subst array_up.simps) auto
  next
    case True
    let ?h = "heap_node_swap (at xs (i div 2)) (at xs i) h" and ?xs = "swap_at (i div 2) i xs"
    have "heap_repr ?h ?xs" by (rule heap_swap_repr) (use True "1.prems" in auto)
    moreover have "1 \<le> i div 2" "i div 2 \<le> length xs" using True "1.prems" by auto
    then have "at ?xs (i div 2) = at xs i" using "1.prems" by (simp add: at_swap_at)
    ultimately show ?thesis
      using "1.IH" [OF True, of ?h] True par "1.prems"
      by (subst sift_up.simps, subst array_up.simps) auto
  qed
qed

lemma smallest_of_at:
  assumes "heap_repr h xs" "1 \<le> i" "i \<le> length xs"
  shows "smallest_of lt (at xs i) h = at xs (small_index lt i xs)"
  using heap_reads [OF assms] heap_null [OF assms(1)] assms
  by (auto simp: smallest_of_def small_index_def Let_def)

lemma sift_down_refines:
  "heap_repr h xs \<Longrightarrow> 1 \<le> i \<Longrightarrow> i \<le> length xs \<Longrightarrow> array_down lt i xs = (ys, j) \<Longrightarrow>
   (\<exists>h'. sift_down lt (at xs i) h = Some h' \<and> heap_repr h' ys) \<and>
   1 \<le> j \<and> j \<le> length ys \<and> at ys j = at xs i"
proof (induction lt i xs arbitrary: h rule: array_down.induct)
  case (1 lt i xs)
  let ?s = "small_index lt i xs"
  have sm: "smallest_of lt (at xs i) h = at xs ?s" using smallest_of_at "1.prems" by blast
  show ?case
  proof (cases "?s = i")
    case True
    with sm "1.prems" show ?thesis by (subst sift_down.simps) (auto simp: array_down.simps)
  next
    case False
    with small_index_cases [of lt i xs] "1.prems" have s: "?s div 2 = i" "i < ?s" "?s \<le> length xs" by auto
    let ?h = "heap_node_swap (at xs i) (at xs ?s) h" and ?xs = "swap_at i ?s xs"
    have "heap_repr ?h ?xs" by (rule heap_swap_repr) (use s "1.prems" in auto)
    moreover have "at ?xs ?s = at xs i" using s "1.prems" by (simp add: at_swap_at)
    moreover have "at xs ?s \<noteq> at xs i"
      using at_inj [of xs ?s i] s "1.prems" by (auto simp: heap_repr_def)
    moreover have "array_down lt ?s ?xs = (ys, j)"
      using "1.prems" False by (subst (asm) array_down.simps) auto
    ultimately show ?thesis
      using "1.IH" [of ?h] False s "1.prems"
      by (subst sift_down.simps) (auto simp: sm Let_def)
  qed
qed

lemma heap_link_last:
  assumes r: "heap_repr h xs" and x: "x \<notin> set xs" "x \<noteq> NULL" and len: "length xs + 1 < 2 ^ 32"
    and leaf: "hleft h x = NULL" "hright h x = NULL" "hparent h x = at xs ((length xs + 1) div 2)"
  shows "heap_repr (write_slot (slot_at xs (length xs + 1)) x h\<lparr>nelts := nelts h + 1\<rparr>) (xs @ [x])"
    (is "heap_repr ?h _")
proof -
  let ?n = "length xs + 1"
  have half: "1 \<le> ?n" "?n div 2 \<le> length xs" "Suc (length xs) div 2 \<noteq> Suc (length xs)" by auto
  note W = write_slot_at [OF r half(1,2), where v = x]
  have L: "hleft ?h (at (xs @ [x]) i) = at (xs @ [x]) (2 * i) \<and>
      hright ?h (at (xs @ [x]) i) = at (xs @ [x]) (2 * i + 1) \<and>
      hparent ?h (at (xs @ [x]) i) = at (xs @ [x]) (i div 2)"
    if i: "1 \<le> i" "i \<le> length (xs @ [x])" for i
  proof (cases "i = ?n")
    case True
    with W(4) [OF x(1)] half leaf show ?thesis
      by (simp add: at_append links_simps at_out)
  next
    case False
    with i have i': "1 \<le> i" "i \<le> length xs" by auto
    then have "at xs i \<noteq> x" using at_in x(1) by metis
    with W(2,3) [OF i'] heap_reads [OF r i'] i' show ?thesis
      by (auto simp: at_append links_simps at_out)
  qed
  have "hmin ?h = at (xs @ [x]) 1" using W(1) r by (auto simp: at_append heap_repr_def)
  moreover have "nelts ?h = of_nat (length (xs @ [x]))" using r by (simp add: heap_repr_def)
  ultimately show ?thesis using L r x len by (auto simp: heap_repr_def)
qed

lemma heap_insert_refines:
  assumes r: "heap_repr h xs" and x: "x \<notin> set xs" "x \<noteq> NULL" and len: "length xs + 1 < 2 ^ 32"
  shows "\<exists>h'. heap_insert x lt h = Some h' \<and>
    heap_repr h' (array_up lt (length xs + 1) (xs @ [x]))"
proof -
  let ?n = "length xs + 1"
  define h1 where "h1 = set_parent x NULL (set_right x NULL (set_left x NULL h))"
  have r1: "heap_repr h1 xs"
    by (rule heap_repr_cong [OF r]) (use x in \<open>auto simp: h1_def links_simps\<close>)
  have n: "nelts h = of_nat (length xs)" using r by (simp add: heap_repr_def)
  obtain path k where p: "heap_path 0 0 (of_nat ?n) = (path, k)"
    "heap_walk h1 k path Root Root = (slot_at xs (?n div 2), slot_at xs ?n)"
    by (rule heap_locate [OF r1, of ?n]) (use len in auto)
  define h2 where "h2 = set_parent x (at xs (?n div 2)) h1"
  have rd: "read_slot (slot_at xs (?n div 2)) h1 = at xs (?n div 2)"
  proof (cases "xs = []")
    case True
    with r1 show ?thesis by (simp add: slot_at_def heap_repr_def at_def)
  next
    case False
    then show ?thesis by (intro read_slot_at [OF r1]) (auto simp: Suc_le_eq)
  qed
  have r2: "heap_repr h2 xs"
    by (rule heap_repr_cong [OF r1]) (use x in \<open>auto simp: h2_def links_simps\<close>)
  have "heap_repr (write_slot (slot_at xs ?n) x h2\<lparr>nelts := nelts h2 + 1\<rparr>) (xs @ [x])"
    by (rule heap_link_last [OF r2 x len]) (simp_all add: h2_def h1_def links_simps)
  from sift_up_refines [OF this, of ?n lt] show ?thesis
    using p rd n by (simp add: heap_insert_def h1_def [symmetric] at_append)
      (simp add: h2_def [symmetric] links_simps, simp add: h2_def h1_def links_simps)
qed

text \<open>
  Unlinking the last node, and putting that node in the place of another one: the two halves
  of \<open>heap_remove\<close> before the order is restored.
\<close>

lemma heap_unlink_last:
  assumes r: "heap_repr h xs" and ne: "xs \<noteq> []"
  shows "heap_repr (write_slot (slot_at xs (length xs)) NULL (h\<lparr>nelts := nelts h - 1\<rparr>)) (butlast xs)"
    (is "heap_repr ?h _")
proof -
  let ?n = "length xs" and ?g = "h\<lparr>nelts := nelts h - 1\<rparr>"
  have n: "1 \<le> ?n" "?n div 2 \<le> ?n" using ne by (auto simp: Suc_le_eq)
  have slot: "hmin (write_slot (slot_at xs ?n) v ?g) = hmin (write_slot (slot_at xs ?n) v h)"
    "hleft (write_slot (slot_at xs ?n) v ?g) = hleft (write_slot (slot_at xs ?n) v h)"
    "hright (write_slot (slot_at xs ?n) v ?g) = hright (write_slot (slot_at xs ?n) v h)" for v
    by (cases "slot_at xs ?n"; simp add: set_left_def set_right_def)+
  note W = write_slot_at [OF r n, where v = NULL]
  have L: "hleft ?h (at xs i) = (if 2 * i = ?n then NULL else at xs (2 * i)) \<and>
      hright ?h (at xs i) = (if 2 * i + 1 = ?n then NULL else at xs (2 * i + 1)) \<and>
      hparent ?h (at xs i) = at xs (i div 2)" if "1 \<le> i" "i \<le> ?n" for i
    using W(2,3) [OF that] heap_reads [OF r that] by (simp add: slot links_simps)
  have "nelts ?h = of_nat (length (butlast xs))"
    using r ne by (simp add: links_simps heap_repr_def of_nat_diff Suc_le_eq)
  moreover have "hmin ?h = at (butlast xs) 1"
    unfolding slot W(1) using r ne by (auto simp: at_butlast heap_repr_def)
  ultimately show ?thesis
    using r ne L by (auto simp: heap_repr_def at_butlast distinct_butlast dest: in_set_butlastD)
qed

lemma at_list_update:
  "1 \<le> i \<Longrightarrow> i \<le> length xs \<Longrightarrow> at (xs[i - 1 := x]) k = (if k = i then x else at xs k)"
  by (auto simp: at_def nth_list_update)

lemma take_place_reads:
  assumes "child \<noteq> node" "hleft h node \<noteq> node" "hright h node \<noteq> node" "hparent h node \<noteq> child"
  shows "hleft (take_place child node h) p =
      (if hparent h node \<noteq> 0 \<and> hleft h (hparent h node) = node \<and> p = hparent h node then child
       else if p = child then hleft h node else hleft h p)"
    "hright (take_place child node h) p =
      (if hparent h node \<noteq> 0 \<and> hleft h (hparent h node) \<noteq> node \<and> p = hparent h node then child
       else if p = child then hright h node else hright h p)"
    "hparent (take_place child node h) p =
      (if hright h node \<noteq> 0 \<and> p = hright h node then child
       else if hleft h node \<noteq> 0 \<and> p = hleft h node then child
       else if p = child then hparent h node else hparent h p)"
    "hmin (take_place child node h) = (if hparent h node = 0 then child else hmin h)"
    "nelts (take_place child node h) = nelts h"
proof -
  define k where "k = set_parent child (hparent h node) (set_right child (hright h node)
    (set_left child (hleft h node) h))"
  have k: "hleft k = (hleft h)(child := hleft h node)" "hright k = (hright h)(child := hright h node)"
    "hparent k = (hparent h)(child := hparent h node)" "hmin k = hmin h" "nelts k = nelts h"
    by (simp_all add: k_def links_simps)
  have "take_place child node h = replace_child (hparent h node) node child
      (set_parent_of (hright h node) child (set_parent_of (hleft h node) child k))"
    using assms by (simp add: take_place_def Let_def links_simps k_def)
  note E = this
  show "hleft (take_place child node h) p =
      (if hparent h node \<noteq> 0 \<and> hleft h (hparent h node) = node \<and> p = hparent h node then child
       else if p = child then hleft h node else hleft h p)"
    "hright (take_place child node h) p =
      (if hparent h node \<noteq> 0 \<and> hleft h (hparent h node) \<noteq> node \<and> p = hparent h node then child
       else if p = child then hright h node else hright h p)"
    "hparent (take_place child node h) p =
      (if hright h node \<noteq> 0 \<and> p = hright h node then child
       else if hleft h node \<noteq> 0 \<and> p = hleft h node then child
       else if p = child then hparent h node else hparent h p)"
    "hmin (take_place child node h) = (if hparent h node = 0 then child else hmin h)"
    "nelts (take_place child node h) = nelts h"
    using assms(4) unfolding E links_simps k by (simp_all add: fun_upd_def)
qed

lemma heap_take_place:
  assumes r: "heap_repr h xs" and i: "1 \<le> i" "i \<le> length xs" and c: "c \<notin> set xs" "c \<noteq> NULL"
  shows "heap_repr (take_place c (at xs i) h) (xs[i - 1 := c])" (is "heap_repr ?h ?xs")
proof -
  let ?n = "length xs" and ?v = "at xs i"
  have d: "distinct xs" "NULL \<notin> set xs" using r by (auto simp: heap_repr_def)
  note nul = heap_null [OF r] and inj = heap_inj [OF r]
  have cn: "at xs a \<noteq> c" for a using c at_in [of a xs] at_out [of a xs] by fastforce
  note V = heap_reads [OF r i]
  have "c \<noteq> ?v" "hleft h ?v \<noteq> ?v" "hright h ?v \<noteq> ?v" "hparent h ?v \<noteq> c"
    unfolding V using cn [of i] cn [of "i div 2"] i by (auto simp: inj)
  note S = take_place_reads [OF this, unfolded V]
  have X: "at ?xs k = (if k = i then c else at xs k)" for k by (rule at_list_update [OF i])
  have L: "hleft ?h (at ?xs m) = at ?xs (2 * m) \<and> hright ?h (at ?xs m) = at ?xs (2 * m + 1) \<and>
      hparent ?h (at ?xs m) = at ?xs (m div 2)" if m: "1 \<le> m" "m \<le> ?n" for m
  proof (cases "m = i")
    case True
    then show ?thesis unfolding S X using i cn [of "2 * i"] cn [of "2 * i + 1"] cn [of "i div 2"]
      by (auto simp: X)
  next
    case False
    have 1: "hleft ?h (at xs m) = at ?xs (2 * m)" "hright ?h (at xs m) = at ?xs (2 * m + 1)"
      unfolding S X parent_link [OF r i m] using heap_reads [OF r m] cn [of m] by auto
    have 2: "hparent ?h (at xs m) = at ?xs (m div 2)"
    proof -
      have "at xs (2 * i + 1) \<noteq> 0 \<and> at xs m = at xs (2 * i + 1) \<longleftrightarrow> m = 2 * i + 1"
        "at xs (2 * i) \<noteq> 0 \<and> at xs m = at xs (2 * i) \<longleftrightarrow> m = 2 * i"
        using m i by (auto simp: inj nul)
      note K = this
      have "m div 2 = i \<longleftrightarrow> m = 2 * i + 1 \<or> m = 2 * i" by auto
      then show ?thesis unfolding S X K heap_reads(3) [OF r m] using cn [of m] by simp
    qed
    have "at ?xs m = at xs m" using False by (simp only: X if_False)
    then show ?thesis using 1 2 by simp
  qed
  have "hmin ?h = at ?xs 1" unfolding S X using r i by (auto simp: heap_repr_def nul)
  then show ?thesis unfolding heap_repr_def
    using L r c by (auto simp: heap_repr_def S distinct_list_update dest: set_update_subset_insert [THEN subsetD])
qed

lemma heap_remove_refines:
  assumes r: "heap_repr h xs" and i: "1 \<le> i" "i \<le> length xs"
  shows "\<exists>h'. heap_remove (at xs i) lt h = Some h' \<and>
    heap_repr h' (if i = length xs then butlast xs
      else (let (ys, j) = array_down lt i ((butlast xs)[i - 1 := last xs]) in array_up lt j ys))"
proof -
  let ?n = "length xs"
  have ne: "xs \<noteq> []" "1 \<le> ?n" "?n < 2 ^ 32" using i r by (auto simp: heap_repr_def)
  have n: "nelts h = of_nat ?n" using r by (simp add: heap_repr_def)
  have n0: "nelts h \<noteq> 0"
    unfolding n using ne unat_of_nat_u32 [of ?n] by auto
  define g where "g = h\<lparr>nelts := nelts h - 1\<rparr>"
  obtain path k where p: "heap_path 0 0 (of_nat ?n) = (path, k)"
    "heap_walk h k path Root Root = (slot_at xs (?n div 2), slot_at xs ?n)"
    by (rule heap_locate [OF r, of ?n]) (use ne in auto)
  have "read_slot (slot_at xs ?n) h = at xs ?n"
    by (rule read_slot_at [OF r]) (use ne in auto)
  moreover have "read_slot (slot_at xs ?n) g = read_slot (slot_at xs ?n) h"
    by (cases "slot_at xs ?n") (simp_all add: g_def)
  moreover have "at xs ?n = last xs" using ne by (simp add: at_def last_conv_nth)
  ultimately have max: "read_slot (slot_at xs ?n) g = last xs" by simp
  define h1 where "h1 = write_slot (slot_at xs ?n) NULL g"
  have r1: "heap_repr h1 (butlast xs)"
    unfolding h1_def g_def by (rule heap_unlink_last [OF r ne(1)])
  have rm: "heap_remove (at xs i) lt h =
      (if last xs = at xs i then Some (if last xs = hmin h1 then h1\<lparr>hmin := NULL\<rparr> else h1)
       else Option.bind (sift_down lt (last xs) (take_place (last xs) (at xs i) h1)) (sift_up lt (last xs)))"
    using n0 p [folded n] max by (simp add: heap_remove_def g_def [symmetric] h1_def [symmetric] Let_def)
  have d: "distinct xs" "NULL \<notin> set xs" using r by (auto simp: heap_repr_def)
  have same: "last xs = at xs i \<longleftrightarrow> i = ?n"
    using \<open>at xs ?n = last xs\<close> heap_inj [OF r, of ?n i] i by auto
  have lb: "last xs \<notin> set (butlast xs)" "last xs \<noteq> NULL"
    using d ne(1) append_butlast_last_id [OF ne(1)] by (metis distinct_snoc, metis last_in_set)
  show ?thesis
  proof (cases "i = ?n")
    case True
    have "last xs \<noteq> hmin h1"
      using r1 lb heap_null [OF r1, of 1] at_in [of 1 "butlast xs"] by (auto simp: heap_repr_def at_def)
    with True same r1 rm show ?thesis by simp
  next
    case False
    with i have i1: "1 \<le> i" "i \<le> length (butlast xs)" by auto
    let ?ys = "(butlast xs)[i - 1 := last xs]"
    have at1: "at (butlast xs) i = at xs i" using False ne by (simp add: at_butlast)
    have r2: "heap_repr (take_place (last xs) (at xs i) h1) ?ys"
      using heap_take_place [OF r1 i1 lb] at1 by simp
    obtain zs j where z: "array_down lt i ?ys = (zs, j)" by fastforce
    have "at ?ys i = last xs" using at_list_update [OF i1] by simp
    with sift_down_refines [OF r2 _ _ z] i1 obtain h2 where
      h2: "sift_down lt (last xs) (take_place (last xs) (at xs i) h1) = Some h2" "heap_repr h2 zs"
      and j: "1 \<le> j" "j \<le> length zs" "at zs j = last xs" by auto
    from sift_up_refines [OF h2(2) j(1,2), of lt] j(3) h2 rm same False z show ?thesis by auto
  qed
qed

section \<open>The heap order\<close>

text \<open>
  \<open>heap_ordered\<close> is the heap property. While a node travels, the property holds except at
  one number: \<open>ordered_above i\<close> allows number \<open>i\<close> to be less than its parent, and
  \<open>ordered_but i\<close> allows it to disagree with its children as well; in both, the children of
  \<open>i\<close> are not less than the parent of \<open>i\<close>.
\<close>

definition heap_ordered :: "(ptr \<Rightarrow> ptr \<Rightarrow> bool) \<Rightarrow> ptr list \<Rightarrow> bool" where
  "heap_ordered lt xs \<longleftrightarrow> (\<forall>j. 2 \<le> j \<and> j \<le> length xs \<longrightarrow> \<not> lt (at xs j) (at xs (j div 2)))"

definition ordered_above :: "(ptr \<Rightarrow> ptr \<Rightarrow> bool) \<Rightarrow> nat \<Rightarrow> ptr list \<Rightarrow> bool" where
  "ordered_above lt i xs \<longleftrightarrow>
     (\<forall>j. 2 \<le> j \<and> j \<le> length xs \<and> j \<noteq> i \<longrightarrow> \<not> lt (at xs j) (at xs (j div 2))) \<and>
     (2 \<le> i \<longrightarrow> (\<forall>j. 2 \<le> j \<and> j \<le> length xs \<and> j div 2 = i \<longrightarrow> \<not> lt (at xs j) (at xs (i div 2))))"

definition ordered_but :: "(ptr \<Rightarrow> ptr \<Rightarrow> bool) \<Rightarrow> nat \<Rightarrow> ptr list \<Rightarrow> bool" where
  "ordered_but lt i xs \<longleftrightarrow>
     (\<forall>j. 2 \<le> j \<and> j \<le> length xs \<and> j \<noteq> i \<and> j div 2 \<noteq> i \<longrightarrow> \<not> lt (at xs j) (at xs (j div 2))) \<and>
     (2 \<le> i \<longrightarrow> (\<forall>j. 2 \<le> j \<and> j \<le> length xs \<and> j div 2 = i \<longrightarrow> \<not> lt (at xs j) (at xs (i div 2))))"

lemma mset_array_up: "1 \<le> i \<Longrightarrow> i \<le> length xs \<Longrightarrow> mset (array_up lt i xs) = mset xs"
proof (induction lt i xs rule: array_up.induct)
  case (1 lt i xs)
  have "mset (swap_at (i div 2) i xs) = mset xs" if "2 \<le> i"
    by (rule mset_swap_at) (use that "1.prems" in auto)
  with 1 show ?case by (subst array_up.simps) auto
qed

lemma mset_array_down:
  "1 \<le> i \<Longrightarrow> i \<le> length xs \<Longrightarrow> mset (fst (array_down lt i xs)) = mset xs"
proof (induction lt i xs rule: array_down.induct)
  case (1 lt i xs)
  show ?case
  proof (cases "small_index lt i xs = i")
    case True
    then show ?thesis by (simp add: array_down.simps)
  next
    case False
    with small_index_cases [of lt i xs] "1.prems" have s: "i < small_index lt i xs"
      "small_index lt i xs \<le> length xs" by auto
    then have "mset (swap_at i (small_index lt i xs) xs) = mset xs"
      by (intro mset_swap_at) (use "1.prems" in auto)
    with 1 False s show ?thesis by (subst array_down.simps) auto
  qed
qed

lemma array_down_range:
  "1 \<le> i \<Longrightarrow> i \<le> length xs \<Longrightarrow> array_down lt i xs = (ys, j) \<Longrightarrow> 1 \<le> j \<and> j \<le> length ys"
proof (induction lt i xs rule: array_down.induct)
  case (1 lt i xs)
  show ?case
  proof (cases "small_index lt i xs = i")
    case True
    with 1 show ?thesis by (auto simp: array_down.simps)
  next
    case False
    from "1.prems"(3) False "1.prems"(1)
    have "array_down lt (small_index lt i xs) (swap_at i (small_index lt i xs) xs) = (ys, j)"
      by (subst (asm) array_down.simps) auto
    with "1.IH" False small_index_cases [of lt i xs] "1.prems"(1) show ?thesis by auto
  qed
qed

text \<open>The contract of a comparison function: a strict weak order.\<close>

locale weak_order =
  fixes lt :: "ptr \<Rightarrow> ptr \<Rightarrow> bool"
  assumes asym: "lt a b \<Longrightarrow> \<not> lt b a"
    and not_lt_trans: "\<not> lt b a \<Longrightarrow> \<not> lt c b \<Longrightarrow> \<not> lt c a"
begin

lemma not_lt_refl: "\<not> lt a a"
  using asym by blast

lemma heap_ordered_root:
  assumes "heap_ordered lt xs"
  shows "1 \<le> j \<Longrightarrow> j \<le> length xs \<Longrightarrow> \<not> lt (at xs j) (at xs 1)"
proof (induction j rule: less_induct)
  case (less j)
  show ?case
  proof (cases "j = 1")
    case True
    then show ?thesis by (simp add: not_lt_refl)
  next
    case False
    with less.prems have "\<not> lt (at xs (j div 2)) (at xs 1)" "\<not> lt (at xs j) (at xs (j div 2))"
      using less.IH [of "j div 2"] assms by (auto simp: heap_ordered_def)
    then show ?thesis by (rule not_lt_trans)
  qed
qed

lemma ordered_above_swap:
  assumes o: "ordered_above lt i xs" and i: "2 \<le> i" "i \<le> length xs" and l: "lt (at xs i) (at xs (i div 2))"
  shows "ordered_above lt (i div 2) (swap_at (i div 2) i xs)"
proof -
  let ?p = "i div 2"
  have p: "1 \<le> ?p" "?p \<le> length xs" "?p \<noteq> i" "i \<le> length xs" "1 \<le> i" using i by auto
  have X: "at (swap_at ?p i xs) k = (if k = ?p then at xs i else if k = i then at xs ?p else at xs k)" for k
    using at_swap_at p by blast
  have pi: "\<not> lt (at xs ?p) (at xs i)" using l asym by blast
  have o1: "\<not> lt (at xs j) (at xs (j div 2))" if "2 \<le> j" "j \<le> length xs" "j \<noteq> i" for j
    using o that by (auto simp: ordered_above_def)
  have o2: "\<not> lt (at xs j) (at xs ?p)" if "2 \<le> j" "j \<le> length xs" "j div 2 = i" for j
    using o that i by (auto simp: ordered_above_def)
  have "\<not> lt (at (swap_at ?p i xs) j) (at (swap_at ?p i xs) (j div 2))"
    if j: "2 \<le> j" "j \<le> length xs" "j \<noteq> ?p" for j
  proof -
    consider "j = i" | "j \<noteq> i" "j div 2 = ?p" | "j div 2 = i" | "j \<noteq> i" "j div 2 \<noteq> ?p" "j div 2 \<noteq> i"
      by blast
    then show ?thesis
    proof cases
      case 1
      with p pi show ?thesis unfolding X by simp
    next
      case 2
      with o1 [OF j(1,2)] j not_lt_trans [OF pi, of "at xs j"] show ?thesis unfolding X by simp
    next
      case 3
      with j p o2 [OF j(1,2) 3] show ?thesis unfolding X by auto
    next
      case 4
      with j o1 [OF j(1,2)] show ?thesis unfolding X by simp
    qed
  qed
  moreover have "\<not> lt (at (swap_at ?p i xs) j) (at (swap_at ?p i xs) (?p div 2))"
    if j: "2 \<le> ?p" "2 \<le> j" "j \<le> length xs" "j div 2 = ?p" for j
  proof -
    have "\<not> lt (at xs ?p) (at xs (?p div 2))" using o1 [of ?p] j p by simp
    moreover have "\<not> lt (at xs j) (at xs (?p div 2))" if "j \<noteq> i"
      using o1 [OF j(2,3) that] j(4) calculation not_lt_trans by metis
    ultimately show ?thesis unfolding X using j p by auto
  qed
  ultimately show ?thesis by (auto simp: ordered_above_def)
qed

lemma array_up_ordered:
  "1 \<le> i \<Longrightarrow> i \<le> length xs \<Longrightarrow> ordered_above lt i xs \<Longrightarrow> heap_ordered lt (array_up lt i xs)"
proof (induction i arbitrary: xs rule: less_induct)
  case (less i)
  show ?case
  proof (cases "2 \<le> i \<and> lt (at xs i) (at xs (i div 2))")
    case True
    then have "ordered_above lt (i div 2) (swap_at (i div 2) i xs)"
      using ordered_above_swap less.prems by blast
    with True less.prems(2) have "heap_ordered lt (array_up lt (i div 2) (swap_at (i div 2) i xs))"
      by (intro less.IH) auto
    with True show ?thesis by (subst array_up.simps) simp
  next
    case False
    then have "heap_ordered lt xs"
      using less.prems(3) unfolding heap_ordered_def ordered_above_def by blast
    with False show ?thesis by (subst array_up.simps) auto
  qed
qed

lemma small_index_least:
  assumes "1 \<le> i" "i \<le> length xs" "s = small_index lt i xs"
  shows "\<not> lt (at xs i) (at xs s)"
    and "2 \<le> j \<Longrightarrow> j \<le> length xs \<Longrightarrow> j div 2 = i \<Longrightarrow> \<not> lt (at xs j) (at xs s)"
proof -
  define t where "t = (if 2 * i \<le> length xs \<and> lt (at xs (2 * i)) (at xs i) then 2 * i else i)"
  have s: "s = (if 2 * i + 1 \<le> length xs \<and> lt (at xs (2 * i + 1)) (at xs t) then 2 * i + 1 else t)"
    using assms(3) by (simp only: small_index_def Let_def t_def)
  have s1: "\<not> lt (at xs i) (at xs t)" "2 * i \<le> length xs \<Longrightarrow> \<not> lt (at xs (2 * i)) (at xs t)"
    by (simp_all add: t_def not_lt_refl asym)
  have s2: "\<not> lt (at xs t) (at xs s)" "2 * i + 1 \<le> length xs \<Longrightarrow> \<not> lt (at xs (2 * i + 1)) (at xs s)"
    by (simp_all add: s not_lt_refl asym)
  show "\<not> lt (at xs i) (at xs s)" using s1 s2 not_lt_trans by blast
  show "\<not> lt (at xs j) (at xs s)" if "2 \<le> j" "j \<le> length xs" "j div 2 = i"
  proof -
    have "j = 2 * i \<or> j = 2 * i + 1" using that by auto
    then show ?thesis using s1 s2 not_lt_trans that by blast
  qed
qed

lemma ordered_but_swap:
  assumes o: "ordered_but lt i xs" and i: "1 \<le> i" "i \<le> length xs"
    and s: "s = small_index lt i xs" "s div 2 = i" "i < s" "s \<le> length xs"
  shows "ordered_but lt s (swap_at i s xs)"
proof -
  have X: "at (swap_at i s xs) k = (if k = i then at xs s else if k = s then at xs i else at xs k)" for k
    using at_swap_at [of i xs s k] i s by simp
  note least = small_index_least [OF i s(1)]
  have o1: "\<not> lt (at xs j) (at xs (j div 2))" if "2 \<le> j" "j \<le> length xs" "j \<noteq> i" "j div 2 \<noteq> i" for j
    using o that by (auto simp: ordered_but_def)
  have o2: "\<not> lt (at xs j) (at xs (i div 2))" if "2 \<le> i" "2 \<le> j" "j \<le> length xs" "j div 2 = i" for j
    using o that i by (auto simp: ordered_but_def)
  have "\<not> lt (at (swap_at i s xs) j) (at (swap_at i s xs) (j div 2))"
    if j: "2 \<le> j" "j \<le> length xs" "j \<noteq> s" "j div 2 \<noteq> s" for j
  proof -
    consider "j = i" | "j \<noteq> i" "j div 2 = i" | "j \<noteq> i" "j div 2 \<noteq> i" by blast
    then show ?thesis
    proof cases
      case 1
      then have "\<not> lt (at xs s) (at xs (i div 2))" using o2 [of s] j s by simp
      with 1 j s show ?thesis unfolding X by auto
    next
      case 2
      with j least(2) [OF j(1,2)] show ?thesis unfolding X by simp
    next
      case 3
      with j o1 [OF j(1,2)] show ?thesis unfolding X by simp
    qed
  qed
  moreover have "\<not> lt (at (swap_at i s xs) j) (at (swap_at i s xs) (s div 2))"
    if j: "2 \<le> j" "j \<le> length xs" "j div 2 = s" for j
    using o1 [OF j(1,2)] j s unfolding X by auto
  ultimately show ?thesis by (auto simp: ordered_but_def)
qed

lemma array_down_ordered:
  "1 \<le> i \<Longrightarrow> i \<le> length xs \<Longrightarrow> ordered_but lt i xs \<Longrightarrow> array_down lt i xs = (ys, j) \<Longrightarrow>
   ordered_above lt j ys"
proof (induction "length xs - i" arbitrary: i xs rule: less_induct)
  case less
  let ?s = "small_index lt i xs"
  show ?case
  proof (cases "?s = i")
    case True
    with less.prems have "ys = xs" "j = i" by (simp_all add: array_down.simps)
    with less.prems small_index_least [OF less.prems(1,2) True [symmetric]] show ?thesis
      by (auto simp: ordered_above_def ordered_but_def)
  next
    case False
    with small_index_cases [of lt i xs] less.prems
    have s: "?s div 2 = i" "i < ?s" "?s \<le> length xs" by auto
    have "ordered_but lt ?s (swap_at i ?s xs)"
      by (rule ordered_but_swap [OF less.prems(3,1,2) refl s])
    moreover have "array_down lt ?s (swap_at i ?s xs) = (ys, j)"
      using less.prems(1,4) False by (subst (asm) array_down.simps) auto
    ultimately show ?thesis using less.hyps [of "swap_at i ?s xs" ?s] s less.prems by auto
  qed
qed

text \<open>What an insertion and a removal start from.\<close>

lemma ordered_above_snoc: "heap_ordered lt xs \<Longrightarrow> ordered_above lt (length xs + 1) (xs @ [x])"
  by (auto simp: heap_ordered_def ordered_above_def at_append)

lemma ordered_but_replace:
  assumes "heap_ordered lt xs" "1 \<le> i" "i < length xs"
  shows "ordered_but lt i ((butlast xs)[i - 1 := x])"
proof -
  define ys where "ys = (butlast xs)[i - 1 := x]"
  have X: "at ys k = (if k = i then x else at xs k)" if "k < length xs" for k
    using assms that at_list_update [of i "butlast xs" x k] at_butlast [of xs k]
    by (cases "xs = []") (auto simp: ys_def)
  have len: "length ys = length xs - 1" by (simp add: ys_def)
  have o: "\<not> lt (at xs j) (at xs (j div 2))" if "2 \<le> j" "j < length xs" for j
    using assms that by (auto simp: heap_ordered_def)
  have "\<not> lt (at xs j) (at xs (i div 2))" if "2 \<le> i" "2 \<le> j" "j < length xs" "j div 2 = i" for j
    using o [of j] o [of i] that assms not_lt_trans by metis
  moreover have "length xs - 1 < length xs" using assms by auto
  ultimately have "ordered_but lt i ys"
    using o assms unfolding ordered_but_def len by (auto simp: X)
  then show ?thesis by (simp add: ys_def)
qed

end

section \<open>The contract of the priority queue\<close>

text \<open>
  \<open>heap_pq lt h A\<close>: the heap \<open>h\<close> holds exactly the nodes \<open>A\<close>, in heap order. The locale
  states what a client may rely on; the numbers of elements stay below \<open>2 ^ 32\<close>, the range
  of the element count.
\<close>

definition heap_pq :: "(ptr \<Rightarrow> ptr \<Rightarrow> bool) \<Rightarrow> heap \<Rightarrow> ptr set \<Rightarrow> bool" where
  "heap_pq lt h A \<longleftrightarrow> (\<exists>xs. heap_repr h xs \<and> heap_ordered lt xs \<and> set xs = A)"

locale pqueue = weak_order lt
  for lt :: "ptr \<Rightarrow> ptr \<Rightarrow> bool" +
  fixes pq :: "'h \<Rightarrow> ptr set \<Rightarrow> bool"
    and init :: "'h \<Rightarrow> 'h"
    and least :: "'h \<Rightarrow> ptr"
    and insert_pq :: "ptr \<Rightarrow> 'h \<Rightarrow> 'h option"
    and remove_pq :: "ptr \<Rightarrow> 'h \<Rightarrow> 'h option"
  assumes pq_finite: "pq h A \<Longrightarrow> finite A \<and> NULL \<notin> A"
    and pq_init: "pq (init h) {}"
    and least_null: "pq h A \<Longrightarrow> least h = NULL \<longleftrightarrow> A = {}"
    and least_in: "pq h A \<Longrightarrow> A \<noteq> {} \<Longrightarrow> least h \<in> A"
    and least_le: "pq h A \<Longrightarrow> a \<in> A \<Longrightarrow> \<not> lt a (least h)"
    and insert_pq: "pq h A \<Longrightarrow> x \<notin> A \<Longrightarrow> x \<noteq> NULL \<Longrightarrow> card A + 1 < 2 ^ 32 \<Longrightarrow>
      \<exists>h'. insert_pq x h = Some h' \<and> pq h' (insert x A)"
    and remove_pq: "pq h A \<Longrightarrow> x \<in> A \<Longrightarrow> \<exists>h'. remove_pq x h = Some h' \<and> pq h' (A - {x})"
begin

text \<open>Taking the least element until none is left: the drain loop of the timers.\<close>

fun drain :: "nat \<Rightarrow> 'h \<Rightarrow> ptr list option" where
  "drain 0 h = (if least h = NULL then Some [] else None)"
| "drain (Suc n) h =
     (if least h = NULL then Some []
      else Option.bind (remove_pq (least h) h) (\<lambda>h'. map_option ((#) (least h)) (drain n h')))"

lemma drain_sorted:
  "pq h A \<Longrightarrow> card A \<le> n \<Longrightarrow>
   \<exists>xs. drain n h = Some xs \<and> distinct xs \<and> set xs = A \<and> sorted_wrt (\<lambda>a b. \<not> lt b a) xs"
proof (induction n arbitrary: h A)
  case 0
  then show ?case using pq_finite least_null by auto
next
  case (Suc n)
  show ?case
  proof (cases "A = {}")
    case True
    with Suc.prems show ?thesis using least_null by auto
  next
    case False
    let ?m = "least h"
    have m: "?m \<in> A" "finite A" "?m \<noteq> NULL"
      using Suc.prems False least_in pq_finite least_null by auto
    from remove_pq [OF Suc.prems(1) m(1)] obtain h' where
      h': "remove_pq ?m h = Some h'" "pq h' (A - {?m})" by blast
    have "card (A - {?m}) \<le> n" using Suc.prems m by simp
    from Suc.IH [OF h'(2) this] obtain xs where
      xs: "drain n h' = Some xs" "distinct xs" "set xs = A - {?m}" "sorted_wrt (\<lambda>a b. \<not> lt b a) xs"
      by blast
    have "\<not> lt b ?m" if "b \<in> set xs" for b
      using that xs(3) least_le [OF Suc.prems(1)] by blast
    with xs h' m show ?thesis by (intro exI [of _ "?m # xs"]) auto
  qed
qed

end

context weak_order
begin

lemma heap_pq_insert:
  assumes "heap_pq lt h A" "x \<notin> A" "x \<noteq> NULL" "card A + 1 < 2 ^ 32"
  shows "\<exists>h'. heap_insert x lt h = Some h' \<and> heap_pq lt h' (insert x A)"
proof -
  obtain xs where xs: "heap_repr h xs" "heap_ordered lt xs" "set xs = A"
    using assms(1) by (auto simp: heap_pq_def)
  have "card A = length xs" using xs by (auto simp: heap_repr_def distinct_card)
  with assms xs obtain h' where h': "heap_insert x lt h = Some h'"
    "heap_repr h' (array_up lt (length xs + 1) (xs @ [x]))"
    using heap_insert_refines [of h xs x lt] by auto
  have "mset (array_up lt (length xs + 1) (xs @ [x])) = mset (xs @ [x])"
    by (rule mset_array_up) auto
  from mset_eq_setD [OF this] have "set (array_up lt (length xs + 1) (xs @ [x])) = insert x A"
    using xs(3) by simp
  moreover have "heap_ordered lt (array_up lt (length xs + 1) (xs @ [x]))"
    by (rule array_up_ordered) (use ordered_above_snoc [OF xs(2)] in auto)
  ultimately show ?thesis using h' by (auto simp: heap_pq_def)
qed

lemma heap_pq_remove:
  assumes "heap_pq lt h A" "x \<in> A"
  shows "\<exists>h'. heap_remove x lt h = Some h' \<and> heap_pq lt h' (A - {x})"
proof -
  obtain xs where xs: "heap_repr h xs" "heap_ordered lt xs" "set xs = A"
    using assms(1) by (auto simp: heap_pq_def)
  obtain i where i: "1 \<le> i" "i \<le> length xs" "at xs i = x" using assms(2) xs(3) at_exists by blast
  then have ne: "xs \<noteq> []" by auto
  have d: "distinct xs" using xs(1) by (simp add: heap_repr_def)
  have lx: "at xs (length xs) = last xs" using ne by (simp add: at_def last_conv_nth Suc_le_eq)
  have but: "set (butlast xs) = A - {last xs}" using set_butlast_distinct [OF d ne] xs(3) by simp
  show ?thesis
  proof (cases "i = length xs")
    case True
    have "heap_ordered lt (butlast xs)"
      using xs(2) ne by (auto simp: heap_ordered_def at_butlast)
    with but True i lx show ?thesis
      using heap_remove_refines [OF xs(1) i(1,2), of lt] by (auto simp: heap_pq_def)
  next
    case False
    with i have i1: "i < length xs" "i - 1 < length (butlast xs)" by auto
    let ?ys = "(butlast xs)[i - 1 := last xs]"
    obtain zs j where z: "array_down lt i ?ys = (zs, j)" by fastforce
    have b: "ordered_but lt i ?ys" by (rule ordered_but_replace [OF xs(2) i(1) i1(1)])
    have iy: "1 \<le> i" "i \<le> length ?ys" using i i1 by auto
    obtain h' where h': "heap_remove x lt h = Some h'" "heap_repr h' (array_up lt j zs)"
      using heap_remove_refines [OF xs(1) i(1,2), of lt] False i(3) z by auto
    have m: "mset zs = mset ?ys" using mset_array_down [OF iy, of lt] z by simp
    have j: "1 \<le> j" "j \<le> length zs" using array_down_range [OF iy z] by auto
    have "heap_ordered lt (array_up lt j zs)"
      by (rule array_up_ordered [OF j array_down_ordered [OF iy b z]])
    moreover have "set (array_up lt j zs) = A - {x}"
    proof -
      have "set (array_up lt j zs) = set ?ys"
        using mset_array_up [OF j, of lt] m mset_eq_setD by metis
      also have "\<dots> = insert (last xs) (set (butlast xs) - {butlast xs ! (i - 1)})"
        by (rule set_update_distinct [OF distinct_butlast [OF d] i1(2)])
      also have "butlast xs ! (i - 1) = x" using i i1 by (simp add: nth_butlast at_def)
      also have "last xs \<noteq> x" using heap_inj [OF xs(1), of "length xs" i] lx i False by auto
      then have "insert (last xs) (set (butlast xs) - {x}) = A - {x}"
        using but ne xs(3) by (auto dest: last_in_set)
      finally show ?thesis .
    qed
    ultimately show ?thesis using h' by (auto simp: heap_pq_def)
  qed
qed

lemma heap_pq_least:
  assumes "heap_pq lt h A"
  shows "heap_min h = NULL \<longleftrightarrow> A = {}" and "A \<noteq> {} \<Longrightarrow> heap_min h \<in> A"
    and "a \<in> A \<Longrightarrow> \<not> lt a (heap_min h)"
proof -
  obtain xs where xs: "heap_repr h xs" "heap_ordered lt xs" "set xs = A"
    using assms by (auto simp: heap_pq_def)
  have m: "heap_min h = at xs 1" using xs(1) by (simp add: heap_min_def heap_repr_def)
  show "heap_min h = NULL \<longleftrightarrow> A = {}"
    unfolding m heap_null [OF xs(1)] xs(3) [symmetric] by (cases xs) auto
  show "A \<noteq> {} \<Longrightarrow> heap_min h \<in> A"
    unfolding m xs(3) [symmetric] by (rule at_in) (auto simp: Suc_le_eq)
  show "a \<in> A \<Longrightarrow> \<not> lt a (heap_min h)"
    unfolding m using xs heap_ordered_root at_exists by metis
qed

end

lemma heap_pq_cong:
  assumes "heap_pq lt h A" "\<And>a b. a \<in> A \<Longrightarrow> b \<in> A \<Longrightarrow> lt' a b = lt a b"
  shows "heap_pq lt' h A"
proof -
  obtain xs where xs: "heap_repr h xs" "heap_ordered lt xs" "set xs = A"
    using assms(1) by (auto simp: heap_pq_def)
  have "\<not> lt' (at xs j) (at xs (j div 2))" if "2 \<le> j" "j \<le> length xs" for j
    using that xs assms(2) at_in [of j xs] at_in [of "j div 2" xs] by (auto simp: heap_ordered_def)
  with xs show ?thesis by (auto simp: heap_pq_def heap_ordered_def)
qed

lemma heap_pq_init: "heap_pq lt (heap_init h) {}"
  by (auto simp: heap_pq_def heap_repr_def heap_init_def heap_ordered_def at_def intro!: exI [of _ "[]"])

lemma heap_pq_finite: "heap_pq lt h A \<Longrightarrow> finite A \<and> NULL \<notin> A"
  by (auto simp: heap_pq_def heap_repr_def)

text \<open>The heap of the source is such a queue, for every comparison that is a weak order.\<close>

sublocale weak_order \<subseteq> heap_queue: pqueue lt "heap_pq lt" heap_init heap_min
  "\<lambda>x. heap_insert x lt" "\<lambda>x. heap_remove x lt"
proof unfold_locales
  fix h :: heap and A :: "ptr set" and a x :: ptr
  show "heap_pq lt h A \<Longrightarrow> finite A \<and> NULL \<notin> A" by (rule heap_pq_finite)
  show "heap_pq lt (heap_init h) {}" by (rule heap_pq_init)
  show "heap_pq lt h A \<Longrightarrow> heap_min h = NULL \<longleftrightarrow> A = {}" by (rule heap_pq_least(1))
  show "heap_pq lt h A \<Longrightarrow> A \<noteq> {} \<Longrightarrow> heap_min h \<in> A" by (rule heap_pq_least(2))
  show "heap_pq lt h A \<Longrightarrow> a \<in> A \<Longrightarrow> \<not> lt a (heap_min h)" by (rule heap_pq_least(3))
  show "heap_pq lt h A \<Longrightarrow> x \<notin> A \<Longrightarrow> x \<noteq> NULL \<Longrightarrow> card A + 1 < 2 ^ 32 \<Longrightarrow>
    \<exists>h'. heap_insert x lt h = Some h' \<and> heap_pq lt h' (insert x A)"
    by (rule heap_pq_insert)
  show "heap_pq lt h A \<Longrightarrow> x \<in> A \<Longrightarrow> \<exists>h'. heap_remove x lt h = Some h' \<and> heap_pq lt h' (A - {x})"
    by (rule heap_pq_remove)
qed

section \<open>Properties\<close>

definition heap_insert_all :: "ptr list \<Rightarrow> (ptr \<Rightarrow> ptr \<Rightarrow> bool) \<Rightarrow> heap \<Rightarrow> heap option" where
  "heap_insert_all xs lt h = fold (\<lambda>x r. Option.bind r (heap_insert x lt)) xs (Some h)"

fun heap_drain :: "nat \<Rightarrow> (ptr \<Rightarrow> ptr \<Rightarrow> bool) \<Rightarrow> heap \<Rightarrow> ptr list option" where
  "heap_drain 0 lt h = (if heap_min h = NULL then Some [] else None)"
| "heap_drain (Suc n) lt h =
     (if heap_min h = NULL then Some []
      else Option.bind (heap_dequeue lt h) (\<lambda>h'. map_option ((#) (heap_min h)) (heap_drain n lt h')))"

context weak_order
begin

lemma heap_pq_insert_all:
  "heap_pq lt h A \<Longrightarrow> distinct xs \<Longrightarrow> set xs \<inter> insert NULL A = {} \<Longrightarrow> card A + length xs < 2 ^ 32 \<Longrightarrow>
   \<exists>h'. heap_insert_all xs lt h = Some h' \<and> heap_pq lt h' (A \<union> set xs)"
proof (induction xs arbitrary: h A)
  case (Cons x xs)
  then obtain h1 where h1: "heap_insert x lt h = Some h1" "heap_pq lt h1 (insert x A)"
    using heap_pq_insert [of h A x] by auto
  have "card (insert x A) + length xs < 2 ^ 32"
    using Cons.prems heap_pq_finite [OF Cons.prems(1)] by simp
  with Cons.IH [OF h1(2)] Cons.prems h1(1) show ?case by (auto simp: heap_insert_all_def)
qed (simp add: heap_insert_all_def)

lemma heap_drain_eq: "heap_drain n lt h = heap_queue.drain n h"
  by (induction n arbitrary: h) (simp_all add: heap_dequeue_def heap_min_def)

lemma heap_drain_pq:
  "heap_pq lt h (set xs) \<Longrightarrow> distinct xs \<Longrightarrow>
   \<exists>ys. heap_drain (length xs) lt h = Some ys \<and> mset ys = mset xs \<and> sorted_wrt (\<lambda>a b. \<not> lt b a) ys"
  unfolding heap_drain_eq using heap_queue.drain_sorted [of h "set xs" "length xs"] card_length
  by (metis set_eq_iff_mset_eq_distinct)

end

text \<open>
  C7: removing any node from a heap, wherever it stands, ends with a heap that holds exactly
  the other nodes in heap order; in particular both repair loops terminate.
\<close>

theorem heap_remove_correct:
  assumes "\<And>a b. lt a b \<Longrightarrow> \<not> lt b a" and "\<And>a b c. \<not> lt b a \<Longrightarrow> \<not> lt c b \<Longrightarrow> \<not> lt c a"
    and "heap_pq lt h A" and "x \<in> A"
  shows "\<exists>h'. heap_remove x lt h = Some h' \<and> heap_pq lt h' (A - {x})"
  by (rule weak_order.heap_pq_remove [OF weak_order.intro, OF assms(1,2,3,4)])

theorem heap_remove_correct_witness:
  "\<exists>h'. heap_remove 1 (\<lambda>a b. a < b) \<lparr>hmin = 1, nelts = 2, hleft = (\<lambda>_. 0)(1 := 2),
     hright = (\<lambda>_. 0), hparent = (\<lambda>_. 0)(2 := 1)\<rparr> = Some h' \<and>
     heap_pq (\<lambda>a b. a < b) h' ({1, 2} - {1})"
proof (rule heap_remove_correct)
  show "heap_pq (\<lambda>a b. a < b) \<lparr>hmin = 1, nelts = 2, hleft = (\<lambda>_. 0)(1 := 2),
     hright = (\<lambda>_. 0), hparent = (\<lambda>_. 0)(2 := 1)\<rparr> {1, 2}"
    by (auto simp: heap_pq_def heap_repr_def heap_ordered_def at_def nth_Cons' intro!: exI [of _ "[1, 2]"])
qed auto

text \<open>
  C34: inserting any fewer than \<open>2 ^ 32\<close> distinct nodes into an empty heap and then dequeueing
  until the heap is empty returns the same nodes, each once, sorted by the comparison.
\<close>

theorem heap_sorts:
  assumes "\<And>a b. lt a b \<Longrightarrow> \<not> lt b a" and "\<And>a b c. \<not> lt b a \<Longrightarrow> \<not> lt c b \<Longrightarrow> \<not> lt c a"
    and "distinct xs" and "NULL \<notin> set xs" and "length xs < 2 ^ 32"
  shows "\<exists>h ys. heap_insert_all xs lt (heap_init h0) = Some h \<and>
    heap_drain (length xs) lt h = Some ys \<and> mset ys = mset xs \<and> sorted_wrt (\<lambda>a b. \<not> lt b a) ys"
proof -
  have w: "weak_order lt" using assms(1,2) by (rule weak_order.intro)
  obtain h where h: "heap_insert_all xs lt (heap_init h0) = Some h" "heap_pq lt h (set xs)"
    using weak_order.heap_pq_insert_all [OF w heap_pq_init [of lt h0] assms(3)] assms(4,5) by auto
  with weak_order.heap_drain_pq [OF w h(2) assms(3)] show ?thesis by blast
qed

theorem heap_sorts_witness:
  "\<exists>h ys. heap_insert_all [5, 1, 4, 2] (\<lambda>a b. a < b) (heap_init \<lparr>hmin = 3, nelts = 9,
     hleft = (\<lambda>_. 0), hright = (\<lambda>_. 0), hparent = (\<lambda>_. 0)\<rparr>) = Some h \<and>
    heap_drain (length [5, 1, 4, 2 :: ptr]) (\<lambda>a b. a < b) h = Some ys \<and> mset ys = mset [5, 1, 4, 2] \<and>
    sorted_wrt (\<lambda>a b. \<not> b < a) ys"
  by (rule heap_sorts) auto

end
