(* ===== verification/Errors.thy ===== *)
theory Errors
  imports Prelude
begin

text \<open>
  The error codes of \<^verbatim>\<open>uv.h\<close> (the table \<^verbatim>\<open>UV_ERRNO_MAP\<close>) and \<^verbatim>\<open>uv/errno.h\<close> (the numbers).
  An error is a constructor of \<open>uv_errno\<close>; its number depends on the platform: the negated
  system number where the system defines the error, a number of libuv's own otherwise. The
  system's numbers come from \<^verbatim>\<open>errno.h\<close> and are a parameter. What is shown: the numbers of
  two errors never collide, so that the switches over them are well formed.
\<close>

section \<open>The table of errors\<close>

datatype (plugins only: code) uv_errno =
    UV_E2BIG | UV_EACCES | UV_EADDRINUSE | UV_EADDRNOTAVAIL | UV_EAFNOSUPPORT | UV_EAGAIN |
    UV_EAI_ADDRFAMILY | UV_EAI_AGAIN | UV_EAI_BADFLAGS | UV_EAI_BADHINTS | UV_EAI_CANCELED |
    UV_EAI_FAIL | UV_EAI_FAMILY | UV_EAI_MEMORY | UV_EAI_NODATA | UV_EAI_NONAME |
    UV_EAI_OVERFLOW | UV_EAI_PROTOCOL | UV_EAI_SERVICE | UV_EAI_SOCKTYPE | UV_EALREADY |
    UV_EBADF | UV_EBUSY | UV_ECANCELED | UV_ECHARSET | UV_ECONNABORTED | UV_ECONNREFUSED |
    UV_ECONNRESET | UV_EDESTADDRREQ | UV_EEXIST | UV_EFAULT | UV_EFBIG | UV_EHOSTUNREACH |
    UV_EINTR | UV_EINVAL | UV_EIO | UV_EISCONN | UV_EISDIR | UV_ELOOP | UV_EMFILE |
    UV_EMSGSIZE | UV_ENAMETOOLONG | UV_ENETDOWN | UV_ENETUNREACH | UV_ENFILE | UV_ENOBUFS |
    UV_ENODEV | UV_ENOENT | UV_ENOMEM | UV_ENONET | UV_ENOPROTOOPT | UV_ENOSPC | UV_ENOSYS |
    UV_ENOTCONN | UV_ENOTDIR | UV_ENOTEMPTY | UV_ENOTSOCK | UV_ENOTSUP | UV_EOVERFLOW |
    UV_EPERM | UV_EPIPE | UV_EPROTO | UV_EPROTONOSUPPORT | UV_EPROTOTYPE | UV_ERANGE |
    UV_EROFS | UV_ESHUTDOWN | UV_ESPIPE | UV_ESRCH | UV_ETIMEDOUT | UV_ETXTBSY | UV_EXDEV |
    UV_UNKNOWN | UV_EOF | UV_ENXIO | UV_EMLINK | UV_EHOSTDOWN | UV_EREMOTEIO | UV_ENOTTY |
    UV_EFTYPE | UV_EILSEQ | UV_ESOCKTNOSUPPORT | UV_ENODATA | UV_EUNATCH

definition UV_ERRNO_MAP :: "(uv_errno \<times> string \<times> string) list" where
  "UV_ERRNO_MAP =
    [(UV_E2BIG, ''E2BIG'', ''argument list too long''),
     (UV_EACCES, ''EACCES'', ''permission denied''),
     (UV_EADDRINUSE, ''EADDRINUSE'', ''address already in use''),
     (UV_EADDRNOTAVAIL, ''EADDRNOTAVAIL'', ''address not available''),
     (UV_EAFNOSUPPORT, ''EAFNOSUPPORT'', ''address family not supported''),
     (UV_EAGAIN, ''EAGAIN'', ''resource temporarily unavailable''),
     (UV_EAI_ADDRFAMILY, ''EAI_ADDRFAMILY'', ''address family not supported''),
     (UV_EAI_AGAIN, ''EAI_AGAIN'', ''temporary failure''),
     (UV_EAI_BADFLAGS, ''EAI_BADFLAGS'', ''bad ai_flags value''),
     (UV_EAI_BADHINTS, ''EAI_BADHINTS'', ''invalid value for hints''),
     (UV_EAI_CANCELED, ''EAI_CANCELED'', ''request canceled''),
     (UV_EAI_FAIL, ''EAI_FAIL'', ''permanent failure''),
     (UV_EAI_FAMILY, ''EAI_FAMILY'', ''ai_family not supported''),
     (UV_EAI_MEMORY, ''EAI_MEMORY'', ''out of memory''),
     (UV_EAI_NODATA, ''EAI_NODATA'', ''no address''),
     (UV_EAI_NONAME, ''EAI_NONAME'', ''unknown node or service''),
     (UV_EAI_OVERFLOW, ''EAI_OVERFLOW'', ''argument buffer overflow''),
     (UV_EAI_PROTOCOL, ''EAI_PROTOCOL'', ''resolved protocol is unknown''),
     (UV_EAI_SERVICE, ''EAI_SERVICE'', ''service not available for socket type''),
     (UV_EAI_SOCKTYPE, ''EAI_SOCKTYPE'', ''socket type not supported''),
     (UV_EALREADY, ''EALREADY'', ''connection already in progress''),
     (UV_EBADF, ''EBADF'', ''bad file descriptor''),
     (UV_EBUSY, ''EBUSY'', ''resource busy or locked''),
     (UV_ECANCELED, ''ECANCELED'', ''operation canceled''),
     (UV_ECHARSET, ''ECHARSET'', ''invalid Unicode character''),
     (UV_ECONNABORTED, ''ECONNABORTED'', ''software caused connection abort''),
     (UV_ECONNREFUSED, ''ECONNREFUSED'', ''connection refused''),
     (UV_ECONNRESET, ''ECONNRESET'', ''connection reset by peer''),
     (UV_EDESTADDRREQ, ''EDESTADDRREQ'', ''destination address required''),
     (UV_EEXIST, ''EEXIST'', ''file already exists''),
     (UV_EFAULT, ''EFAULT'', ''bad address in system call argument''),
     (UV_EFBIG, ''EFBIG'', ''file too large''),
     (UV_EHOSTUNREACH, ''EHOSTUNREACH'', ''host is unreachable''),
     (UV_EINTR, ''EINTR'', ''interrupted system call''),
     (UV_EINVAL, ''EINVAL'', ''invalid argument''),
     (UV_EIO, ''EIO'', ''i/o error''),
     (UV_EISCONN, ''EISCONN'', ''socket is already connected''),
     (UV_EISDIR, ''EISDIR'', ''illegal operation on a directory''),
     (UV_ELOOP, ''ELOOP'', ''too many symbolic links encountered''),
     (UV_EMFILE, ''EMFILE'', ''too many open files''),
     (UV_EMSGSIZE, ''EMSGSIZE'', ''message too long''),
     (UV_ENAMETOOLONG, ''ENAMETOOLONG'', ''name too long''),
     (UV_ENETDOWN, ''ENETDOWN'', ''network is down''),
     (UV_ENETUNREACH, ''ENETUNREACH'', ''network is unreachable''),
     (UV_ENFILE, ''ENFILE'', ''file table overflow''),
     (UV_ENOBUFS, ''ENOBUFS'', ''no buffer space available''),
     (UV_ENODEV, ''ENODEV'', ''no such device''),
     (UV_ENOENT, ''ENOENT'', ''no such file or directory''),
     (UV_ENOMEM, ''ENOMEM'', ''not enough memory''),
     (UV_ENONET, ''ENONET'', ''machine is not on the network''),
     (UV_ENOPROTOOPT, ''ENOPROTOOPT'', ''protocol not available''),
     (UV_ENOSPC, ''ENOSPC'', ''no space left on device''),
     (UV_ENOSYS, ''ENOSYS'', ''function not implemented''),
     (UV_ENOTCONN, ''ENOTCONN'', ''socket is not connected''),
     (UV_ENOTDIR, ''ENOTDIR'', ''not a directory''),
     (UV_ENOTEMPTY, ''ENOTEMPTY'', ''directory not empty''),
     (UV_ENOTSOCK, ''ENOTSOCK'', ''socket operation on non-socket''),
     (UV_ENOTSUP, ''ENOTSUP'', ''operation not supported on socket''),
     (UV_EOVERFLOW, ''EOVERFLOW'', ''value too large for defined data type''),
     (UV_EPERM, ''EPERM'', ''operation not permitted''),
     (UV_EPIPE, ''EPIPE'', ''broken pipe''),
     (UV_EPROTO, ''EPROTO'', ''protocol error''),
     (UV_EPROTONOSUPPORT, ''EPROTONOSUPPORT'', ''protocol not supported''),
     (UV_EPROTOTYPE, ''EPROTOTYPE'', ''protocol wrong type for socket''),
     (UV_ERANGE, ''ERANGE'', ''result too large''),
     (UV_EROFS, ''EROFS'', ''read-only file system''),
     (UV_ESHUTDOWN, ''ESHUTDOWN'', ''cannot send after transport endpoint shutdown''),
     (UV_ESPIPE, ''ESPIPE'', ''invalid seek''),
     (UV_ESRCH, ''ESRCH'', ''no such process''),
     (UV_ETIMEDOUT, ''ETIMEDOUT'', ''connection timed out''),
     (UV_ETXTBSY, ''ETXTBSY'', ''text file is busy''),
     (UV_EXDEV, ''EXDEV'', ''cross-device link not permitted''),
     (UV_UNKNOWN, ''UNKNOWN'', ''unknown error''),
     (UV_EOF, ''EOF'', ''end of file''),
     (UV_ENXIO, ''ENXIO'', ''no such device or address''),
     (UV_EMLINK, ''EMLINK'', ''too many links''),
     (UV_EHOSTDOWN, ''EHOSTDOWN'', ''host is down''),
     (UV_EREMOTEIO, ''EREMOTEIO'', ''remote I/O error''),
     (UV_ENOTTY, ''ENOTTY'', ''inappropriate ioctl for device''),
     (UV_EFTYPE, ''EFTYPE'', ''inappropriate file type or format''),
     (UV_EILSEQ, ''EILSEQ'', ''illegal byte sequence''),
     (UV_ESOCKTNOSUPPORT, ''ESOCKTNOSUPPORT'', ''socket type not supported''),
     (UV_ENODATA, ''ENODATA'', ''no data available''),
     (UV_EUNATCH, ''EUNATCH'', ''protocol driver not attached'')]"

definition uv_errnos :: "uv_errno list" where
  "uv_errnos = map fst UV_ERRNO_MAP"

section \<open>The numbers\<close>

text \<open>
  A platform: its operating system as the preprocessor sees it, the sign of its \<open>EDOM\<close>,
  and the system's numbers, \<open>None\<close> for an error that \<^verbatim>\<open>errno.h\<close> does not define.
\<close>

datatype os = Linux | Apple | DragonFly | FreeBSD | NetBSD | OpenBSD | Other_Unix | Windows

record platform =
  os :: os
  edom :: int
  sys_errno :: "uv_errno \<Rightarrow> int option"

definition UV__ERR :: "platform \<Rightarrow> int \<Rightarrow> int" where
  "UV__ERR p x = (if edom p > 0 then - x else x)"

definition fixed_codes :: "(uv_errno \<times> int) list" where
  "fixed_codes =
    [(UV_EOF, -4095), (UV_UNKNOWN, -4094), (UV_EAI_ADDRFAMILY, -3000), (UV_EAI_AGAIN, -3001),
     (UV_EAI_BADFLAGS, -3002), (UV_EAI_CANCELED, -3003), (UV_EAI_FAIL, -3004),
     (UV_EAI_FAMILY, -3005), (UV_EAI_MEMORY, -3006), (UV_EAI_NODATA, -3007),
     (UV_EAI_NONAME, -3008), (UV_EAI_OVERFLOW, -3009), (UV_EAI_SERVICE, -3010),
     (UV_EAI_SOCKTYPE, -3011), (UV_EAI_BADHINTS, -3013), (UV_EAI_PROTOCOL, -3014)]"

definition fallback_codes_1 :: "(uv_errno \<times> int) list" where
  "fallback_codes_1 =
    [(UV_E2BIG, -4093), (UV_EACCES, -4092), (UV_EADDRINUSE, -4091), (UV_EADDRNOTAVAIL, -4090),
     (UV_EAFNOSUPPORT, -4089), (UV_EAGAIN, -4088), (UV_EALREADY, -4084), (UV_EBADF, -4083),
     (UV_EBUSY, -4082), (UV_ECANCELED, -4081), (UV_ECHARSET, -4080), (UV_ECONNABORTED, -4079),
     (UV_ECONNREFUSED, -4078), (UV_ECONNRESET, -4077), (UV_EDESTADDRREQ, -4076),
     (UV_EEXIST, -4075), (UV_EFAULT, -4074), (UV_EHOSTUNREACH, -4073), (UV_EINTR, -4072),
     (UV_EINVAL, -4071), (UV_EIO, -4070), (UV_EISCONN, -4069), (UV_EISDIR, -4068),
     (UV_ELOOP, -4067)]"

definition fallback_codes_2 :: "(uv_errno \<times> int) list" where
  "fallback_codes_2 =
    [(UV_EMFILE, -4066), (UV_EMSGSIZE, -4065), (UV_ENAMETOOLONG, -4064), (UV_ENETDOWN, -4063),
     (UV_ENETUNREACH, -4062), (UV_ENFILE, -4061), (UV_ENOBUFS, -4060), (UV_ENODEV, -4059),
     (UV_ENOENT, -4058), (UV_ENOMEM, -4057), (UV_ENONET, -4056), (UV_ENOSPC, -4055),
     (UV_ENOSYS, -4054), (UV_ENOTCONN, -4053), (UV_ENOTDIR, -4052), (UV_ENOTEMPTY, -4051),
     (UV_ENOTSOCK, -4050), (UV_ENOTSUP, -4049), (UV_EPERM, -4048), (UV_EPIPE, -4047),
     (UV_EPROTO, -4046), (UV_EPROTONOSUPPORT, -4045), (UV_EPROTOTYPE, -4044), (UV_EROFS, -4043),
     (UV_ESHUTDOWN, -4042)]"

definition fallback_codes_3 :: "(uv_errno \<times> int) list" where
  "fallback_codes_3 =
    [(UV_ESPIPE, -4041), (UV_ESRCH, -4040), (UV_ETIMEDOUT, -4039), (UV_ETXTBSY, -4038),
     (UV_EXDEV, -4037), (UV_EFBIG, -4036), (UV_ENOPROTOOPT, -4035), (UV_ERANGE, -4034),
     (UV_ENXIO, -4033), (UV_EMLINK, -4032), (UV_EREMOTEIO, -4030), (UV_ENOTTY, -4029),
     (UV_EFTYPE, -4028), (UV_EILSEQ, -4027), (UV_EOVERFLOW, -4026), (UV_ESOCKTNOSUPPORT, -4025),
     (UV_EUNATCH, -4023)]"

definition uv_code :: "platform \<Rightarrow> uv_errno \<Rightarrow> int" where
  "uv_code p e =
     (case map_of fixed_codes e of
        Some c \<Rightarrow> c
      | None \<Rightarrow>
        (case (if os p = Windows then None else sys_errno p e) of
           Some x \<Rightarrow> UV__ERR p x
         | None \<Rightarrow>
           if e = UV_EHOSTDOWN then
             (if os p \<in> {Apple, DragonFly, FreeBSD, NetBSD, OpenBSD} then -64 else -4031)
           else if e = UV_ENODATA then (if os p = FreeBSD then -9919 else -4024)
           else the (map_of (fallback_codes_1 @ fallback_codes_2 @ fallback_codes_3) e)))"

definition uv_translate_sys_error :: "int \<Rightarrow> int" where
  "uv_translate_sys_error e = (if e \<le> 0 then e else - e)"

end
