(* ===== verification/Strings.thy ===== *)
theory Strings
  imports Errors
begin

text \<open>
  C strings: \<^verbatim>\<open>strscpy.c\<close>, \<^verbatim>\<open>strtok.c\<close>, what the modelled code uses of \<open>snprintf\<close>, and the
  functions of \<^verbatim>\<open>uv-common.c\<close> that name and describe errors. A buffer is the list of its
  characters; an access outside of it is \<open>None\<close>. A string whose buffer does not matter (a
  literal, an argument that is only read) is the list of the characters before its NUL.
\<close>

section \<open>Printing\<close>

abbreviation NUL :: char where
  "NUL \<equiv> CHR 0x00"

definition digit_char :: "nat \<Rightarrow> char" where
  "digit_char d = ''0123456789abcdef'' ! d"

text \<open>The conversions \<^verbatim>\<open>%u\<close>, \<^verbatim>\<open>%x\<close> (bases 10 and 16) and \<^verbatim>\<open>%d\<close>.\<close>

function print_nat :: "nat \<Rightarrow> nat \<Rightarrow> string" where
  "print_nat b n =
     (if n < b \<or> b < 2 then [digit_char n] else print_nat b (n div b) @ [digit_char (n mod b)])"
  by pat_completeness auto
termination
  by (relation "measure snd") auto

declare print_nat.simps [simp del]

definition print_int :: "int \<Rightarrow> string" where
  "print_int i = (if i < 0 then CHR ''-'' # print_nat 10 (nat (- i)) else print_nat 10 (nat i))"

text \<open>
  \<open>snprintf\<close> with its text already formatted: the buffer afterwards and the length of the
  text, which is what it returns.
\<close>

definition snprintf :: "string \<Rightarrow> nat \<Rightarrow> string \<Rightarrow> (string \<times> nat) option" where
  "snprintf d sz t =
     (if sz = 0 then Some (d, length t)
      else if length d < min sz (length t + 1) then None
      else let u = take (sz - 1) t @ [NUL]
           in Some (u @ drop (length u) d, length t))"

text \<open>The string that a buffer holds: the characters before the first NUL.\<close>

definition c_string :: "string \<Rightarrow> string" where
  "c_string d = takeWhile (\<lambda>c. c \<noteq> NUL) d"

section \<open>strscpy\<close>

definition SSIZE_MAX :: nat where
  "SSIZE_MAX = 2 ^ 63 - 1"

function strscpy_from :: "nat \<Rightarrow> platform \<Rightarrow> string \<Rightarrow> string \<Rightarrow> nat \<Rightarrow> (string \<times> int) option" where
  "strscpy_from i p d s n =
     (if i < n then
        if length d \<le> i \<or> length s \<le> i then None
        else
          let d' = d[i := s ! i]
          in if s ! i = NUL then Some (d', if SSIZE_MAX < i then uv_code p UV_E2BIG else int i)
             else strscpy_from (i + 1) p d' s n
      else if i = 0 then Some (d, 0)
      else Some (d[i - 1 := NUL], uv_code p UV_E2BIG))"
  by pat_completeness auto
termination
  by (relation "measure (\<lambda>(i, p, d, s, n). n - i)") auto

declare strscpy_from.simps [simp del]

definition uv__strscpy :: "platform \<Rightarrow> string \<Rightarrow> string \<Rightarrow> nat \<Rightarrow> (string \<times> int) option" where
  "uv__strscpy p d s n = strscpy_from 0 p d s n"

section \<open>strtok\<close>

text \<open>
  The tokens live in one buffer that the function cuts up in place; pointers into it are
  offsets, and \<open>None\<close> is the null pointer. The inner loop looks for the current character
  among the separators.
\<close>

fun strtok_sep :: "char \<Rightarrow> string \<Rightarrow> bool" where
  "strtok_sep c [] \<longleftrightarrow> False"
| "strtok_sep c (s # sep) \<longleftrightarrow> (if c = s then True else strtok_sep c sep)"

datatype scan = Separator nat | Terminator

function strtok_scan :: "string \<Rightarrow> string \<Rightarrow> nat \<Rightarrow> scan option" where
  "strtok_scan m sep tmp =
     (if length m \<le> tmp then None
      else if m ! tmp = NUL then Some Terminator
      else if strtok_sep (m ! tmp) sep then Some (Separator tmp)
      else strtok_scan m sep (tmp + 1))"
  by pat_completeness auto
termination
  by (relation "measure (\<lambda>(m, sep, tmp). length m - tmp)") auto

declare strtok_scan.simps [simp del]

definition uv__strtok ::
  "string \<Rightarrow> nat option \<Rightarrow> string \<Rightarrow> nat option \<Rightarrow> (string \<times> nat option \<times> nat option) option" where
  "uv__strtok m str sep itr =
     (let start = (if str = None then itr else str)
      in case start of
           None \<Rightarrow> Some (m, itr, None)
         | Some tmp \<Rightarrow>
             (case strtok_scan m sep tmp of
                None \<Rightarrow> None
              | Some (Separator t) \<Rightarrow> Some (m[t := NUL], Some (t + 1), start)
              | Some Terminator \<Rightarrow> Some (m, None, start)))"

text \<open>
  How a caller reads all tokens: the first call gets the string, the others the null pointer,
  until one returns it. The fuel bounds the number of calls.
\<close>

fun tokens_from :: "nat \<Rightarrow> string \<Rightarrow> nat option \<Rightarrow> string \<Rightarrow> nat option \<Rightarrow> string list option" where
  "tokens_from 0 m str sep itr = None"
| "tokens_from (Suc k) m str sep itr =
     (case uv__strtok m str sep itr of
        None \<Rightarrow> None
      | Some (m', itr', None) \<Rightarrow> Some []
      | Some (m', itr', Some q) \<Rightarrow>
          map_option ((#) (c_string (drop q m'))) (tokens_from k m' None sep itr'))"

section \<open>Names and descriptions of errors\<close>

text \<open>
  \<open>alloc_ok\<close> says whether the \<open>malloc\<close> inside \<open>uv__strdup\<close> succeeds. The switches over all
  errors become a search of the table for the entry with the number.
\<close>

definition find_errno :: "platform \<Rightarrow> int \<Rightarrow> (uv_errno \<times> string \<times> string) option" where
  "find_errno p err = find (\<lambda>(e, _, _). uv_code p e = err) UV_ERRNO_MAP"

definition uv__unknown_err_code :: "bool \<Rightarrow> int \<Rightarrow> string option" where
  "uv__unknown_err_code alloc_ok err =
     map_option (\<lambda>(buf, _). if alloc_ok then c_string buf else ''Unknown system error'')
       (snprintf (replicate 32 NUL) 32 (''Unknown system error '' @ print_int err))"

definition uv_err_name_r :: "platform \<Rightarrow> int \<Rightarrow> string \<Rightarrow> nat \<Rightarrow> string option" where
  "uv_err_name_r p err buf buflen =
     (case find_errno p err of
        Some (_, name, _) \<Rightarrow> map_option fst (uv__strscpy p buf (name @ [NUL]) buflen)
      | None \<Rightarrow> map_option fst (snprintf buf buflen (''Unknown system error '' @ print_int err)))"

definition uv_err_name :: "platform \<Rightarrow> bool \<Rightarrow> int \<Rightarrow> string option" where
  "uv_err_name p alloc_ok err =
     (case find_errno p err of
        Some (_, name, _) \<Rightarrow> Some name
      | None \<Rightarrow> uv__unknown_err_code alloc_ok err)"

definition uv_strerror_r :: "platform \<Rightarrow> int \<Rightarrow> string \<Rightarrow> nat \<Rightarrow> string option" where
  "uv_strerror_r p err buf buflen =
     (case find_errno p err of
        Some (_, _, msg) \<Rightarrow> map_option fst (snprintf buf buflen msg)
      | None \<Rightarrow> map_option fst (snprintf buf buflen (''Unknown system error '' @ print_int err)))"

definition uv_strerror :: "platform \<Rightarrow> bool \<Rightarrow> int \<Rightarrow> string option" where
  "uv_strerror p alloc_ok err =
     (case find_errno p err of
        Some (_, _, msg) \<Rightarrow> Some msg
      | None \<Rightarrow> uv__unknown_err_code alloc_ok err)"

section \<open>Copies are truncated and terminated\<close>

lemma c_string_append: "NUL \<notin> set s \<Longrightarrow> c_string (s @ NUL # r) = s"
  unfolding c_string_def by (subst takeWhile_append2) auto

lemma strscpy_from_steps:
  assumes "NUL \<notin> set s" "n \<le> length d"
  shows "i \<le> length s \<Longrightarrow> i \<le> n \<Longrightarrow> take i d = take i s \<Longrightarrow>
    strscpy_from i p d (s @ NUL # t) n =
      (if length s < n then
         Some (s @ NUL # drop (length s + 1) d, if SSIZE_MAX < length s then uv_code p UV_E2BIG else int (length s))
       else if n = 0 then Some (d, 0)
       else Some (take (n - 1) s @ NUL # drop n d, uv_code p UV_E2BIG))"
  using assms
proof (induction "n - i" arbitrary: i d)
  case 0
  then show ?case
    by (subst strscpy_from.simps)
       (auto simp: upd_conv_take_nth_drop take_Suc_conv_app_nth min_def dest: arg_cong [of _ _ "take (i - 1)"])
next
  case (Suc k)
  then have i: "i < n" "i < length d" by auto
  show ?case
  proof (cases "i = length s")
    case True
    with Suc.prems i show ?thesis
      by (subst strscpy_from.simps) (auto simp: upd_conv_take_nth_drop)
  next
    case False
    with Suc.prems have il: "i < length s" by simp
    then have "s ! i \<noteq> NUL" using Suc.prems(4) by (metis nth_mem)
    moreover have "take (i + 1) (d[i := s ! i]) = take (i + 1) s"
      using Suc.prems(3) il i by (simp add: take_Suc_conv_app_nth)
    ultimately show ?thesis
      using Suc.hyps(1) [of "i + 1" "d[i := s ! i]"] Suc.hyps(2) Suc.prems il i
      by (subst strscpy_from.simps) (auto simp: nth_append)
  qed
qed

lemma strscpy_fits:
  assumes "NUL \<notin> set s" "length s < n" "n \<le> length d"
  shows "\<exists>r. uv__strscpy p d (s @ NUL # t) n = Some (s @ NUL # drop (length s + 1) d, r)"
  using strscpy_from_steps [OF assms(1,3), of 0 p t] assms(2) by (simp add: uv__strscpy_def)

lemma strscpy_string:
  assumes "NUL \<notin> set s" "n \<le> length d" "0 < n"
  shows "\<exists>d' r. uv__strscpy p d (s @ [NUL]) n = Some (d', r) \<and> length d' = length d \<and>
    c_string d' = take (n - 1) s \<and> (length s < n \<and> n \<le> SSIZE_MAX \<longrightarrow> r = int (length s)) \<and>
    (n \<le> length s \<longrightarrow> r = uv_code p UV_E2BIG)"
proof -
  have "NUL \<notin> set (take (n - 1) s)" using assms(1) by (auto dest: in_set_takeD)
  then show ?thesis
    using strscpy_from_steps [OF assms(1,2), of 0 p "[]"] assms by (auto simp: uv__strscpy_def c_string_append)
qed

section \<open>Tokens\<close>

text \<open>The fields of a string between separators, empty ones included.\<close>

fun fields :: "string \<Rightarrow> string \<Rightarrow> string list" where
  "fields sep [] = [[]]"
| "fields sep (c # s) =
     (if c \<in> set sep then [] # fields sep s
      else (c # hd (fields sep s)) # tl (fields sep s))"

lemma strtok_sep_iff [simp]: "strtok_sep c sep \<longleftrightarrow> c \<in> set sep"
  by (induction sep) auto

lemma fields_none: "set s \<inter> set sep = {} \<Longrightarrow> fields sep s = [s]"
  by (induction s) auto

lemma fields_split: "set f \<inter> set sep = {} \<Longrightarrow> c \<in> set sep \<Longrightarrow> fields sep (f @ c # s) = f # fields sep s"
  by (induction f) auto

lemma strtok_scan_skip:
  "set f \<inter> set sep = {} \<Longrightarrow> NUL \<notin> set f \<Longrightarrow>
   strtok_scan (pre @ f @ r) sep (length pre) = strtok_scan (pre @ f @ r) sep (length pre + length f)"
proof (induction f arbitrary: pre)
  case (Cons c f)
  then have "strtok_scan (pre @ (c # f) @ r) sep (length pre)
    = strtok_scan ((pre @ [c]) @ f @ r) sep (length (pre @ [c]))"
    by (subst strtok_scan.simps) auto
  also have "\<dots> = strtok_scan ((pre @ [c]) @ f @ r) sep (length (pre @ [c]) + length f)"
    using Cons by (intro Cons.IH) auto
  finally show ?case by simp
qed simp

lemma strtok_end:
  assumes "set f \<inter> set sep = {}" "NUL \<notin> set f" "str = Some (length pre) \<or> str = None \<and> itr = Some (length pre)"
  shows "uv__strtok (pre @ f @ [NUL]) str sep itr = Some (pre @ f @ [NUL], None, Some (length pre))"
  using strtok_scan_skip [OF assms(1,2), of pre "[NUL]"] assms(3)
  by (auto simp: uv__strtok_def strtok_scan.simps [of _ _ "length pre + length f"] nth_append)

lemma strtok_sep:
  assumes "set f \<inter> set sep = {}" "NUL \<notin> set f" "c \<in> set sep" "NUL \<notin> set sep"
    "str = Some (length pre) \<or> str = None \<and> itr = Some (length pre)"
  shows "uv__strtok (pre @ f @ c # r) str sep itr =
    Some ((pre @ f @ [NUL]) @ r, Some (length (pre @ f @ [NUL])), Some (length pre))"
proof -
  have "c \<noteq> NUL" using assms(3,4) by auto
  then show ?thesis
    using strtok_scan_skip [OF assms(1,2), of pre "c # r"] assms(3,5)
    by (auto simp: uv__strtok_def strtok_scan.simps [of _ _ "length pre + length f"] nth_append
        list_update_append)
qed

lemma tokens_fields:
  assumes "NUL \<notin> set sep"
  shows "NUL \<notin> set s \<Longrightarrow> length s + 2 \<le> k \<Longrightarrow>
    str = Some (length pre) \<or> str = None \<and> itr = Some (length pre) \<Longrightarrow>
    tokens_from k (pre @ s @ [NUL]) str sep itr = Some (fields sep s)"
proof (induction "length s" arbitrary: s k pre str itr rule: less_induct)
  case less
  obtain k1 where k: "k = Suc (Suc k1)" using less.prems(2) by (metis add_2_eq_Suc' le_Suc_ex add_Suc)
  show ?case
  proof (cases "set s \<inter> set sep = {}")
    case True
    have "uv__strtok m None sep None = Some (m, None, None)" for m
      by (simp add: uv__strtok_def)
    then show ?thesis
      using strtok_end [OF True less.prems(1,3)] c_string_append [OF less.prems(1), of "[]"]
      by (simp add: k fields_none [OF True])
  next
    case False
    then have "\<exists>c \<in> set s. c \<in> set sep" by auto
    from split_list_first_prop [OF this] obtain f c r where
      s: "s = f @ c # r" "c \<in> set sep" "\<forall>x \<in> set f. x \<notin> set sep" by blast
    then have s3: "set f \<inter> set sep = {}" by auto
    from less.prems(1) have nul: "NUL \<notin> set f" "NUL \<notin> set r" by (simp_all add: s(1))
    have "tokens_from (Suc k1) ((pre @ f @ [NUL]) @ r @ [NUL]) None sep (Some (length (pre @ f @ [NUL])))
      = Some (fields sep r)"
      by (rule less.hyps) (use less.prems k s nul in auto)
    moreover have "uv__strtok (pre @ s @ [NUL]) str sep itr =
      Some ((pre @ f @ [NUL]) @ r @ [NUL], Some (length (pre @ f @ [NUL])), Some (length pre))"
      using strtok_sep [OF s3 nul(1) s(2) assms less.prems(3), of "r @ [NUL]"] s(1) by simp
    moreover have "c_string (f @ NUL # r @ [NUL]) = f" by (rule c_string_append [OF nul(1)])
    ultimately show ?thesis unfolding s(1) fields_split [OF s3 s(2)] by (simp add: k)
  qed
qed

section \<open>Error numbers\<close>

text \<open>
  What is relied on of \<^verbatim>\<open>errno.h\<close>: its numbers are positive, below 3000 and different, and the
  systems for which the source hard-codes the number 64 use it for nothing else.
\<close>

definition errno_ok :: "platform \<Rightarrow> bool" where
  "errno_ok p \<longleftrightarrow> edom p > 0 \<and>
     (\<forall>e x. sys_errno p e = Some x \<longrightarrow> 0 < x \<and> x < 3000 \<and> 
        (x = 64 \<and> os p \<in> {Apple, DragonFly, FreeBSD, NetBSD, OpenBSD} \<longrightarrow> e = UV_EHOSTDOWN)) \<and>
     (\<forall>e e' x. sys_errno p e = Some x \<and> sys_errno p e' = Some x \<longrightarrow> e = e')"

definition own_code :: "os \<Rightarrow> uv_errno \<Rightarrow> int" where
  "own_code s e = uv_code \<lparr>os = s, edom = 1, sys_errno = (\<lambda>_. None)\<rparr> e"

lemmas code_tables = fixed_codes_def fallback_codes_1_def fallback_codes_2_def fallback_codes_3_def

lemma uv_errnos_all: "e \<in> set uv_errnos"
  unfolding uv_errnos_def UV_ERRNO_MAP_def by (cases e) simp_all

lemma own_code_tables:
  "own_code s e = (case map_of fixed_codes e of Some c \<Rightarrow> c
     | None \<Rightarrow> if e = UV_EHOSTDOWN then
         (if s \<in> {Apple, DragonFly, FreeBSD, NetBSD, OpenBSD} then -64 else -4031)
       else if e = UV_ENODATA then (if s = FreeBSD then -9919 else -4024)
       else the (map_of (fallback_codes_1 @ fallback_codes_2 @ fallback_codes_3) e))"
  by (simp add: own_code_def uv_code_def split: option.splits)

lemma uv_code_cases:
  assumes "edom p > 0"
  obtains x where "sys_errno p e = Some x" "uv_code p e = - x" "map_of fixed_codes e = None"
  | "uv_code p e = own_code (os p) e"
proof (cases "map_of fixed_codes e = None \<and> os p \<noteq> Windows \<and> sys_errno p e \<noteq> None")
  case True
  with assms that(1) show ?thesis by (auto simp: uv_code_def UV__ERR_def)
next
  case False
  then have "uv_code p e = own_code (os p) e"
    unfolding own_code_tables uv_code_def by (cases "map_of fixed_codes e") auto
  with that(2) show ?thesis .
qed

lemma own_code_low: "own_code s e \<le> -3000 \<or> e = UV_EHOSTDOWN"
  unfolding own_code_tables code_tables by (cases e) simp_all

lemma own_code_hostdown:
  "own_code s UV_EHOSTDOWN = (if s \<in> {Apple, DragonFly, FreeBSD, NetBSD, OpenBSD} then -64 else -4031)"
  unfolding own_code_tables code_tables by simp

lemma own_code_distinct:
  "distinct (map (own_code Linux) uv_errnos)" "distinct (map (own_code Apple) uv_errnos)"
  "distinct (map (own_code FreeBSD) uv_errnos)"
  by code_simp+

lemma own_code_inj: "own_code s e = own_code s e' \<longleftrightarrow> e = e'"
proof -
  have i: "f e = f e' \<longleftrightarrow> e = e'" if "distinct (map f uv_errnos)" for f :: "uv_errno \<Rightarrow> int"
    using that uv_errnos_all by (auto simp: distinct_map inj_on_def)
  have "own_code s = own_code Linux \<or> own_code s = own_code Apple \<or> own_code s = own_code FreeBSD"
    unfolding own_code_tables fun_eq_iff by (cases s) simp_all
  then show ?thesis using i own_code_distinct by metis
qed

lemma uv_code_inj:
  assumes "errno_ok p"
  shows "uv_code p e = uv_code p e' \<longleftrightarrow> e = e'"
proof -
  have ed: "edom p > 0" using assms by (simp add: errno_ok_def)
  have mixed: "- x \<noteq> own_code (os p) b" if "sys_errno p a = Some x" "a \<noteq> b" for a b x
  proof -
    have x: "0 < x" "x < 3000"
      and r: "x = 64 \<Longrightarrow> os p \<in> {Apple, DragonFly, FreeBSD, NetBSD, OpenBSD} \<Longrightarrow> a = UV_EHOSTDOWN"
      using assms that(1) unfolding errno_ok_def by blast+
    show ?thesis
    proof (cases "b = UV_EHOSTDOWN")
      case True
      have "own_code (os p) b = -64 \<and> os p \<in> {Apple, DragonFly, FreeBSD, NetBSD, OpenBSD} \<or>
        own_code (os p) b = -4031"
        unfolding True own_code_hostdown by (cases "os p \<in> {Apple, DragonFly, FreeBSD, NetBSD, OpenBSD}") simp_all
      with x r True that(2) show ?thesis by fastforce
    next
      case False
      with own_code_low [of "os p" b] x show ?thesis by simp
    qed
  qed
  show ?thesis
  proof (rule uv_code_cases [OF ed, of e]; rule uv_code_cases [OF ed, of e'])
    fix x y
    assume "sys_errno p e = Some x" "uv_code p e = - x" "sys_errno p e' = Some y" "uv_code p e' = - y"
    with assms show ?thesis unfolding errno_ok_def by auto
  next
    fix x
    assume "sys_errno p e = Some x" "uv_code p e = - x" "uv_code p e' = own_code (os p) e'"
    with mixed [of e x e'] show ?thesis by (cases "e = e'") auto
  next
    fix y
    assume "sys_errno p e' = Some y" "uv_code p e' = - y" "uv_code p e = own_code (os p) e"
    with mixed [of e' y e] show ?thesis by (cases "e' = e") auto
  qed (simp add: own_code_inj)
qed

lemma find_errno_code:
  assumes "errno_ok p" "(e, name, msg) \<in> set UV_ERRNO_MAP"
  shows "find_errno p (uv_code p e) = Some (e, name, msg)"
proof -
  have d: "distinct (map fst UV_ERRNO_MAP)" by code_simp
  have f: "find (\<lambda>(e', _, _). uv_code p e' = uv_code p e) xs = Some (e, name, msg)"
    if "(e, name, msg) \<in> set xs" "distinct (map fst xs)" for xs
    using that by (induction xs) (auto simp: uv_code_inj [OF assms(1)] image_iff)
  show ?thesis unfolding find_errno_def by (rule f [OF assms(2) d])
qed

lemma errno_names: "\<forall>(e, name, msg) \<in> set UV_ERRNO_MAP. NUL \<notin> set name \<and> NUL \<notin> set msg"
  by code_simp

lemma snprintf_string:
  assumes "NUL \<notin> set t" "0 < n" "n \<le> length d"
  shows "\<exists>d'. snprintf d n t = Some (d', length t) \<and> length d' = length d \<and> c_string d' = take (n - 1) t"
proof -
  have "NUL \<notin> set (take (n - 1) t)" using assms(1) by (auto dest: in_set_takeD)
  with assms show ?thesis by (auto simp: snprintf_def Let_def c_string_append min_def)
qed

section \<open>Decimal numbers\<close>

lemma digit_char_cases: "d < 16 \<Longrightarrow> digit_char d \<in> set ''0123456789abcdef''"
  unfolding digit_char_def by (rule nth_mem) simp

lemma print_nat_digits: "b \<le> 16 \<Longrightarrow> 2 \<le> b \<Longrightarrow> set (print_nat b n) \<subseteq> set ''0123456789abcdef''"
proof (induction b n rule: print_nat.induct)
  case (1 b n)
  then show ?case
    using digit_char_cases [of n] digit_char_cases [of "n mod b"] mod_less_divisor [of b n]
    by (subst print_nat.simps) (auto simp del: mod_less_divisor)
qed

lemma print_nat_no_nul: "NUL \<notin> set (print_nat 10 n)"
  using print_nat_digits [of 10 n] by auto

lemma length_print_nat: "0 < k \<Longrightarrow> length (print_nat 10 n) \<le> k \<longleftrightarrow> n < 10 ^ k"
proof (induction k arbitrary: n)
  case (Suc k)
  have ne: "print_nat 10 n \<noteq> []" for n by (subst print_nat.simps) simp
  show ?case
  proof (cases "n < 10")
    case True
    then have "n < 10 ^ Suc k" by (rule less_le_trans) simp
    with True show ?thesis by (subst print_nat.simps) simp
  next
    case False
    then have "length (print_nat 10 n) = Suc (length (print_nat 10 (n div 10)))"
      by (subst print_nat.simps) simp
    with False ne [of "n div 10"] Suc.IH [of "n div 10"] show ?thesis
      by (cases "k = 0") (simp_all add: div_less_iff_less_mult mult.commute)
  qed
qed simp

lemma length_print_int:
  "-1000000000 < i \<Longrightarrow> i < 10000000000 \<Longrightarrow> length (print_int i) \<le> 10"
  "i \<le> -1000000000 \<Longrightarrow> 10 < length (print_int i)"
  using length_print_nat [of 9 "nat (- i)"] length_print_nat [of 10 "nat (- i)"]
    length_print_nat [of 10 "nat i"] length_print_nat [of 9 "nat i"]
  by (auto simp: print_int_def nat_less_iff not_le [symmetric])

lemma print_int_no_nul: "NUL \<notin> set (print_int i)"
  using print_nat_no_nul by (simp add: print_int_def)

section \<open>Properties\<close>

text \<open>
  C36: for every entry of the table, the name and the description found from the number of the
  error are those of the entry, on every platform whose \<^verbatim>\<open>errno.h\<close> is sane; and the variants
  that write to a buffer leave there the same text, cut to the buffer and terminated.
\<close>

theorem errno_roundtrip:
  assumes "errno_ok p" and "(e, name, msg) \<in> set UV_ERRNO_MAP"
    and "0 < n" and "n \<le> length buf"
  shows "uv_err_name p a (uv_code p e) = Some name \<and> uv_strerror p a (uv_code p e) = Some msg \<and>
    (\<exists>b. uv_err_name_r p (uv_code p e) buf n = Some b \<and> c_string b = take (n - 1) name) \<and>
    (\<exists>b. uv_strerror_r p (uv_code p e) buf n = Some b \<and> c_string b = take (n - 1) msg)"
proof -
  have nul: "NUL \<notin> set name" "NUL \<notin> set msg" using errno_names assms(2) by auto
  note f = find_errno_code [OF assms(1,2)]
  show ?thesis
    using strscpy_string [OF nul(1) assms(4,3), of p] snprintf_string [OF nul(2) assms(3,4)]
    by (auto simp: uv_err_name_def uv_strerror_def uv_err_name_r_def uv_strerror_r_def f)
qed

theorem errno_roundtrip_witness:
  "let p = \<lparr>os = Linux, edom = 33, sys_errno = [UV_EPERM \<mapsto> 1, UV_ENOENT \<mapsto> 2]\<rparr>
   in uv_err_name p True (uv_code p UV_ENOENT) = Some ''ENOENT''"
  unfolding Let_def
  by (rule errno_roundtrip [where n = 1 and buf = "[NUL]" and msg = "''no such file or directory''",
        THEN conjunct1])
     (auto simp: errno_ok_def UV_ERRNO_MAP_def split: if_splits)

text \<open>
  C40: the text for a number that is no error is complete exactly when the number is above
  \<open>-1000000000\<close>: the buffer of 32 characters has no room for the last digit of the others.
\<close>

theorem unknown_error_text:
  assumes "find_errno p err = None" and "- (2 ^ 31) \<le> err" and "err < 2 ^ 31"
  shows "uv_err_name p True err = Some (''Unknown system error '' @ print_int err)
      \<longleftrightarrow> -1000000000 < err"
proof -
  let ?t = "''Unknown system error '' @ print_int err"
  have "NUL \<notin> set ?t" using print_int_no_nul [of err] by auto
  from snprintf_string [OF this, of 32 "replicate 32 NUL"]
  have 1: "uv_err_name p True err = Some (take 31 ?t)"
    using assms(1) by (auto simp: uv_err_name_def uv__unknown_err_code_def)
  have l: "length ?t = 21 + length (print_int err)" by simp
  have e: "err < 10000000000" using assms(3) by simp
  have "length ?t \<le> 31 \<longleftrightarrow> -1000000000 < err"
    unfolding l using length_print_int(1) [of err, OF _ e] length_print_int(2) [of err]
    by (cases "-1000000000 < err") linarith+
  moreover have "take 31 ?t = ?t \<longleftrightarrow> length ?t \<le> 31" by (rule take_all_iff)
  ultimately show ?thesis unfolding 1 by (simp only: option.inject)
qed

theorem unknown_error_text_witness:
  "uv_err_name \<lparr>os = Windows, edom = 1, sys_errno = (\<lambda>_. None)\<rparr> True (-1000000000)
     = Some (''Unknown system error '' @ print_int (-1000000000)) \<longleftrightarrow> -1000000000 < (-1000000000 :: int)"
  by (rule unknown_error_text) code_simp+

text \<open>
  C38: calling \<open>uv__strtok\<close> until it returns the null pointer yields the fields of the string
  between the separators, empty fields included, and stays inside the buffer.
\<close>

theorem strtok_yields_fields:
  assumes "NUL \<notin> set s" and "NUL \<notin> set sep"
  shows "tokens_from (length s + 2) (s @ [NUL]) (Some 0) sep itr = Some (fields sep s)"
  using tokens_fields [OF assms(2,1), of "length s + 2" "Some 0" "[]"] by simp

theorem strtok_yields_fields_witness:
  "tokens_from (length ''/bin::/usr/bin'' + 2) (''/bin::/usr/bin'' @ [NUL]) (Some 0) '':'' None
   = Some (fields '':'' ''/bin::/usr/bin'')"
  by (rule strtok_yields_fields) simp_all

end
