(* ===== verification/Utf8.thy ===== *)
theory Utf8
  imports Errors
begin

unbundle bit_operations_syntax

text \<open>
  The transformation formats of \<^verbatim>\<open>idna.c\<close>: decoding of WTF-8 and UTF-8, and the conversions
  between UTF-16 and WTF-8. A pointer that walks over a buffer is the list of the elements from
  the pointer to the end of the buffer; reading past the end is \<open>None\<close> or \<open>Overrun\<close>. All
  arithmetic on \<open>unsigned\<close> and \<open>uint32_t\<close> is on 32-bit words.
\<close>

section \<open>Decoding WTF-8\<close>

text \<open>
  \<open>uv__wtf8_decode1\<close> leaves the pointer on the last byte it has looked at. Each byte after the
  first is read, checked and appended to the code point by \<open>wtf8_cont\<close>. The result is
  \<open>None\<close> when a read leaves the buffer; \<open>-1\<close> is the code's error value.
\<close>

definition is_cont :: "u8 \<Rightarrow> bool" where
  "is_cont b \<longleftrightarrow> b AND 0xC0 = 0x80"

definition wtf8_shift :: "u32 \<Rightarrow> u8 \<Rightarrow> u32" where
  "wtf8_shift code_point b = push_bit 6 code_point OR (ucast b AND 0x3F)"

definition uv__wtf8_decode1 :: "u8 list \<Rightarrow> (int \<times> u8 list) option" where
  "uv__wtf8_decode1 input =
     (case input of [] \<Rightarrow> None | b1 # p1 \<Rightarrow>
      if b1 \<le> 0x7F then Some (uint b1, input)
      else if b1 < 0xC2 then Some (-1, input)
      else (case p1 of [] \<Rightarrow> None | b2 # p2 \<Rightarrow>
        if \<not> is_cont b2 then Some (-1, p1)
        else let code_point = wtf8_shift (ucast b1) b2 in
        if b1 \<le> 0xDF then Some (uint (0x7FF AND code_point), p1)
        else (case p2 of [] \<Rightarrow> None | b3 # p3 \<Rightarrow>
          if \<not> is_cont b3 then Some (-1, p2)
          else let code_point = wtf8_shift code_point b3 in
          if b1 \<le> 0xEF then Some (uint (0xFFFF AND code_point), p2)
          else (case p3 of [] \<Rightarrow> None | b4 # p4 \<Rightarrow>
            if \<not> is_cont b4 then Some (-1, p3)
            else let code_point = wtf8_shift code_point b4 in
            if b1 \<le> 0xF4 \<and> code_point AND 0x1FFFFF \<le> 0x10FFFF
            then Some (uint (code_point AND 0x1FFFFF), p3)
            else Some (-1, p3)))))"

section \<open>Decoding UTF-8\<close>

text \<open>
  \<open>uv__utf8_decode1\<close> takes the bytes from the pointer to \<open>pe\<close> and returns the code point, or
  \<open>UINT_MAX\<close>, with the bytes that are left. The switch on the number of bytes left falls through
  to the shorter forms when the lead byte does not ask for the longer ones; its result is
  \<open>min\<close>, \<open>a\<close>, \<open>b\<close>, \<open>c\<close>, \<open>d\<close> and the pointer, or \<open>None\<close> for the \<open>return -1\<close> of the last case.
\<close>

abbreviation UINT_MAX :: u32 where
  "UINT_MAX \<equiv> 0xFFFFFFFF"

fun utf8_switch :: "u8 list \<Rightarrow> u32 \<Rightarrow> (u32 \<times> u32 \<times> u32 \<times> u32 \<times> u32 \<times> u8 list) option" where
  "utf8_switch (x # y # z # p) a =
     (if a > 0xEF then Some (0x10000, a AND 7, ucast x, ucast y, ucast z, p)
      else if a > 0xDF then Some (0x800, 0, 0x80 OR (a AND 15), ucast x, ucast y, z # p)
      else if a > 0xBF then Some (0x80, 0, 0x80, 0x80 OR (a AND 31), ucast x, y # z # p)
      else None)"
| "utf8_switch [x, y] a =
     (if a > 0xDF then Some (0x800, 0, 0x80 OR (a AND 15), ucast x, ucast y, [])
      else if a > 0xBF then Some (0x80, 0, 0x80, 0x80 OR (a AND 31), ucast x, [y])
      else None)"
| "utf8_switch [x] a =
     (if a > 0xBF then Some (0x80, 0, 0x80, 0x80 OR (a AND 31), ucast x, []) else None)"
| "utf8_switch [] a = None"

definition utf8_join :: "u32 \<Rightarrow> u32 \<Rightarrow> u32 \<Rightarrow> u32 \<Rightarrow> u32" where
  "utf8_join a b c d =
     (let b = b AND 63; c = c AND 63; d = d AND 63
      in push_bit 18 a OR push_bit 12 b OR push_bit 6 c OR d)"

definition uv__utf8_decode1_slow :: "u8 list \<Rightarrow> u32 \<Rightarrow> u32 \<times> u8 list" where
  "uv__utf8_decode1_slow p a =
     (if a > 0xF7 then (UINT_MAX, p)
      else case utf8_switch p a of None \<Rightarrow> (UINT_MAX, p)
      | Some (least, a, b, c, d, p) \<Rightarrow>
        if 0x80 \<noteq> 0xC0 AND (b XOR c XOR d) then (UINT_MAX, p)
        else let a = utf8_join a b c d
        in if a < least then (UINT_MAX, p)
           else if a > 0x10FFFF then (UINT_MAX, p)
           else if a \<ge> 0xD800 \<and> a \<le> 0xDFFF then (UINT_MAX, p)
           else (a, p))"

fun uv__utf8_decode1 :: "u8 list \<Rightarrow> (u32 \<times> u8 list) option" where
  "uv__utf8_decode1 [] = None"
| "uv__utf8_decode1 (x # p) =
     (let a = ucast x in if a < 128 then Some (a, p) else Some (uv__utf8_decode1_slow p a))"

section \<open>Between WTF-8 and UTF-16\<close>

text \<open>
  A loop may run over the end of a buffer or into a failing \<open>assert\<close>. The sources end with a
  NUL; the pointer is tested and advanced past the last byte of a character by \<open>*p++\<close>.
\<close>

datatype fault = Overrun | Assertion

lemma wtf8_decode1_shorter:
  "uv__wtf8_decode1 p = Some (c, q) \<Longrightarrow> q \<noteq> [] \<and> length q \<le> length p"
  by (auto simp: uv__wtf8_decode1_def Let_def split: list.splits if_splits)

lemma wtf8_decode1_tl: "uv__wtf8_decode1 p = Some (c, q) \<Longrightarrow> length q - Suc 0 < length p"
  using wtf8_decode1_shorter [of p c q] by (cases q) auto

lemma utf8_switch_shorter:
  "utf8_switch p a = Some (mn, a', b, c, d, q) \<Longrightarrow> length q < length p"
  by (induction p a rule: utf8_switch.induct) (auto split: if_splits)

lemma utf8_decode1_shorter:
  "uv__utf8_decode1 p = Some (c, q) \<Longrightarrow> length q < length p"
  by (cases p)
     (auto simp: uv__utf8_decode1_slow_def Let_def dest: utf8_switch_shorter split: if_splits option.splits)

function wtf8_length_from :: "u8 list \<Rightarrow> nat \<Rightarrow> int option" where
  "wtf8_length_from source w_target_len =
     (case uv__wtf8_decode1 source of
        None \<Rightarrow> None
      | Some (code_point, p) \<Rightarrow>
          if code_point < 0 then Some (-1)
          else
            let n = (if code_point > 0xFFFF then w_target_len + 1 else w_target_len) + 1
            in if hd p = 0 then Some (int n) else wtf8_length_from (tl p) n)"
  by pat_completeness auto
termination
  by (relation "measure (\<lambda>(source, n). length source)")
     (auto dest: wtf8_decode1_tl)

declare wtf8_length_from.simps [simp del]

definition uv_wtf8_length_as_utf16 :: "u8 list \<Rightarrow> int option" where
  "uv_wtf8_length_as_utf16 source = wtf8_length_from source 0"

text \<open>
  \<open>uv_wtf8_to_utf16\<close> writes to a buffer of \<open>cap\<close> units without a check of its own; \<open>out\<close>
  are the units written so far.
\<close>

definition emit :: "nat \<Rightarrow> u16 list \<Rightarrow> u16 list \<Rightarrow> fault + u16 list" where
  "emit cap out us = (if length (out @ us) \<le> cap then Inr (out @ us) else Inl Overrun)"

definition code_units :: "int \<Rightarrow> fault + (u16 list \<times> u64)" where
  "code_units code_point =
     (if code_point > 0x10000 then
        if code_point < 0x10FFFF then
          Inr ([word_of_int (drop_bit 10 (code_point - 0x10000) + 0xD800),
                word_of_int (((code_point - 0x10000) AND 0x3FF) + 0xDC00)], 2)
        else Inl Assertion
      else Inr ([word_of_int code_point], 1))"

function wtf8_to_utf16_from :: "u8 list \<Rightarrow> nat \<Rightarrow> u64 \<Rightarrow> u16 list \<Rightarrow> fault + u16 list" where
  "wtf8_to_utf16_from source cap w_target_len out =
     (case uv__wtf8_decode1 source of
        None \<Rightarrow> Inl Overrun
      | Some (code_point, p) \<Rightarrow>
          if code_point < 0 then Inl Assertion
          else
            (case code_units code_point of
               Inl f \<Rightarrow> Inl f
             | Inr (us, k) \<Rightarrow>
               (case emit cap out us of
                  Inl f \<Rightarrow> Inl f
                | Inr out' \<Rightarrow>
                    if hd p = 0 then (if w_target_len - k = 0 then Inr out' else Inl Assertion)
                    else wtf8_to_utf16_from (tl p) cap (w_target_len - k) out')))"
  by pat_completeness auto
termination
  by (relation "measure (\<lambda>(source, cap, n, out). length source)")
     (auto dest: wtf8_decode1_tl)

declare wtf8_to_utf16_from.simps [simp del]

definition uv_wtf8_to_utf16 :: "u8 list \<Rightarrow> nat \<Rightarrow> u64 \<Rightarrow> fault + u16 list" where
  "uv_wtf8_to_utf16 source cap w_target_len = wtf8_to_utf16_from source cap w_target_len []"

text \<open>From UTF-16. A length below zero means that a zero unit ends the source.\<close>

definition uv__get_surrogate_value :: "u16 list \<Rightarrow> int \<Rightarrow> int option" where
  "uv__get_surrogate_value w_source w_source_len =
     (case w_source of [] \<Rightarrow> None | u # r \<Rightarrow>
        if u \<ge> 0xD800 \<and> u \<le> 0xDBFF \<and> w_source_len \<noteq> 1 then
          (case r of [] \<Rightarrow> None | nxt # _ \<Rightarrow>
             if nxt \<ge> 0xDC00 \<and> nxt \<le> 0xDFFF
             then Some (0x10000 + push_bit 10 (uint u - 0xD800) + (uint nxt - 0xDC00))
             else Some (uint u))
        else Some (uint u))"

text \<open>Advancing the source by one unit, and by the units of a code point.\<close>

definition less_one :: "int \<Rightarrow> int" where
  "less_one n = (if n > 0 then n - 1 else n)"

definition past_code :: "int \<Rightarrow> u16 list \<times> int \<Rightarrow> u16 list \<times> int" where
  "past_code code_point = (\<lambda>(src, len).
     if code_point < 0x10000 then (drop 1 src, less_one len)
     else (drop 2 src, less_one (less_one len)))"

lemma past_code_shorter: "src \<noteq> [] \<Longrightarrow> length (fst (past_code c (src, len))) < length src"
  by (auto simp: past_code_def)

lemma surrogate_nonempty: "uv__get_surrogate_value src len = Some c \<Longrightarrow> src \<noteq> []"
  by (auto simp: uv__get_surrogate_value_def)

function utf16_length_from :: "u16 list \<times> int \<Rightarrow> nat \<Rightarrow> nat option" where
  "utf16_length_from s target_len =
     (if snd s = 0 then Some target_len
      else case uv__get_surrogate_value (fst s) (snd s) of
        None \<Rightarrow> None
      | Some code_point \<Rightarrow>
          if snd s < 0 \<and> code_point = 0 then Some target_len
          else
            let k = (if code_point < 0x80 then 1 else if code_point < 0x800 then 2
                     else if code_point < 0x10000 then 3 else 4)
            in utf16_length_from (past_code code_point s) (target_len + k))"
  by pat_completeness auto
termination
  by (relation "measure (\<lambda>(s, n). length (fst s))")
     (auto intro!: past_code_shorter dest: surrogate_nonempty)

declare utf16_length_from.simps [simp del]

definition uv_utf16_length_as_wtf8 :: "u16 list \<Rightarrow> int \<Rightarrow> nat option" where
  "uv_utf16_length_as_wtf8 w_source w_source_len = utf16_length_from (w_source, w_source_len) 0"

text \<open>
  The bytes of a code point, and the loop that writes them while there is room: \<open>target_end\<close>
  is the number of bytes that fit, and the loop leaves the character that did not fit in the
  source. \<open>target_len\<close> counts the bytes of the characters that were written in full.
\<close>

definition wtf8_bytes :: "int \<Rightarrow> u8 list" where
  "wtf8_bytes c =
     (if c < 0x80 then [word_of_int c]
      else if c < 0x800 then
        [word_of_int (0xC0 OR drop_bit 6 c), word_of_int (0x80 OR (c AND 0x3F))]
      else if c < 0x10000 then
        [word_of_int (0xE0 OR drop_bit 12 c), word_of_int (0x80 OR (drop_bit 6 c AND 0x3F)),
         word_of_int (0x80 OR (c AND 0x3F))]
      else
        [word_of_int (0xF0 OR drop_bit 18 c), word_of_int (0x80 OR (drop_bit 12 c AND 0x3F)),
         word_of_int (0x80 OR (drop_bit 6 c AND 0x3F)), word_of_int (0x80 OR (c AND 0x3F))])"

function utf16_write :: "u16 list \<times> int \<Rightarrow> nat \<Rightarrow> nat \<Rightarrow> u8 list \<Rightarrow>
    ((u16 list \<times> int) \<times> nat \<times> u8 list) option" where
  "utf16_write s target_end target_len out =
     (if length out = target_end \<or> snd s = 0 then Some (s, target_len, out)
      else case uv__get_surrogate_value (fst s) (snd s) of
        None \<Rightarrow> None
      | Some code_point \<Rightarrow>
          if snd s < 0 \<and> code_point = 0 then Some ((fst s, 0), target_len, out)
          else
            let bs = wtf8_bytes code_point; out' = out @ bs
            in if length out' \<le> target_end
               then utf16_write (past_code code_point s) target_end (length out') out'
               else Some (s, target_len, take target_end out'))"
  by pat_completeness auto
termination
  by (relation "measure (\<lambda>(s, e, n, out). length (fst s))")
     (auto intro!: past_code_shorter dest: surrogate_nonempty)

declare utf16_write.simps [simp del]

text \<open>
  What follows the loop: the report of the length, the test whether the source ends where the
  target does, the terminator, and the length that would have been needed.
\<close>

definition utf16_finish ::
  "(u16 list \<times> int) \<times> nat \<times> u8 list \<Rightarrow> nat \<Rightarrow> nat option \<Rightarrow>
     (uv_errno option \<times> u8 list option \<times> nat option) option" where
  "utf16_finish r target_end target_len_ptr =
     (case r of ((src, len), target_len, out) \<Rightarrow>
        let lp = (if length out \<noteq> target_end then map_option (\<lambda>_. length out) target_len_ptr
                  else target_len_ptr)
        in if len < 0 \<and> length out = target_end \<and> src = [] then None
           else
             let len = (if len < 0 \<and> length out = target_end \<and> hd src = 0 then 0 else len);
                 out = out @ [0]
             in if len \<noteq> 0 then
                  (case lp of
                     None \<Rightarrow> Some (Some UV_ENOBUFS, Some out, None)
                   | Some _ \<Rightarrow>
                       map_option (\<lambda>k. (Some UV_ENOBUFS, Some out, Some (target_len + k)))
                         (uv_utf16_length_as_wtf8 src len))
                else Some (None, Some out, lp))"

datatype target = No_target | Null_target | Buffer_target

definition uv_utf16_to_wtf8 ::
  "bool \<Rightarrow> u16 list \<Rightarrow> int \<Rightarrow> target \<Rightarrow> nat option \<Rightarrow>
     (uv_errno option \<times> u8 list option \<times> nat option) option" where
  "uv_utf16_to_wtf8 alloc_ok w_source w_source_len target_ptr target_len_ptr =
     Option.bind
       (if target_ptr = Buffer_target
        then map_option (\<lambda>n. (n, target_len_ptr)) target_len_ptr
        else map_option (\<lambda>n. (n, map_option (\<lambda>_. n) target_len_ptr))
               (uv_utf16_length_as_wtf8 w_source w_source_len))
       (\<lambda>(target_len, target_len_ptr).
          if target_ptr = No_target then Some (None, None, target_len_ptr)
          else if target_ptr = Null_target \<and> \<not> alloc_ok
          then Some (Some UV_ENOMEM, None, target_len_ptr)
          else
            Option.bind (utf16_write (w_source, w_source_len) target_len target_len [])
              (\<lambda>r. utf16_finish r target_len target_len_ptr))"

section \<open>Bytes and bits\<close>

lemma is_cont_range: "is_cont b \<longleftrightarrow> 0x80 \<le> b \<and> b < 0xC0"
  by (rule all_u8) code_simp

lemma uint_wide: "uint (ucast b :: u32) = uint b" for b :: u8
  by (rule uint_up_ucast) (simp add: is_up)

lemma uint_shift6: "uint (push_bit 6 x OR (y AND 0x3F)) = (uint x * 64 + uint y mod 64) mod 2 ^ 32" for x y :: u32
proof -
  have "push_bit 6 x AND take_bit 6 y = 0"
    by (rule bit_eqI) (auto simp: bit_simps)
  then have "push_bit 6 x OR (y AND 0x3F) = x * 64 + take_bit 6 y"
    by (simp add: and_take_bit or_plus push_bit_eq_mult)
  moreover have "uint (take_bit 6 y) = uint y mod 64"
    unfolding unsigned_take_bit_eq by (simp add: take_bit_eq_mod)
  ultimately show ?thesis by (simp add: uint_word_ariths mod_simps)
qed

lemma uint_shift: "uint (wtf8_shift a b) = (uint a * 64 + uint b mod 64) mod 2 ^ 32"
  by (simp add: wtf8_shift_def uint_shift6 uint_wide)

lemma or_low: 
  "0 \<le> r \<Longrightarrow> r < 64 \<Longrightarrow> 0x80 OR r = 0x80 + (r::int)"
  "0 \<le> r \<Longrightarrow> r < 32 \<Longrightarrow> 0xC0 OR r = 0xC0 + (r::int)"
  "0 \<le> r \<Longrightarrow> r < 16 \<Longrightarrow> 0xE0 OR r = 0xE0 + (r::int)"
  "0 \<le> r \<Longrightarrow> r < 8 \<Longrightarrow> 0xF0 OR r = 0xF0 + (r::int)"
proof -
  have "list_all (\<lambda>r. 0x80 OR r = 0x80 + (r::int)) [0..63]" "list_all (\<lambda>r. 0xC0 OR r = 0xC0 + (r::int)) [0..31]"
  "list_all (\<lambda>r. 0xE0 OR r = 0xE0 + (r::int)) [0..15]"
  "list_all (\<lambda>r. 0xF0 OR r = 0xF0 + (r::int)) [0..7]" by code_simp+
  then show "0 \<le> r \<Longrightarrow> r < 64 \<Longrightarrow> 0x80 OR r = 0x80 + (r::int)"
  "0 \<le> r \<Longrightarrow> r < 32 \<Longrightarrow> 0xC0 OR r = 0xC0 + (r::int)"
  "0 \<le> r \<Longrightarrow> r < 16 \<Longrightarrow> 0xE0 OR r = 0xE0 + (r::int)"
  "0 \<le> r \<Longrightarrow> r < 8 \<Longrightarrow> 0xF0 OR r = 0xF0 + (r::int)" by (simp_all add: list_all_iff)
qed

lemma wtf8_bytes_arith:
  "0 \<le> c \<Longrightarrow> c \<le> 0x10FFFF \<Longrightarrow> wtf8_bytes c =
     (if c < 0x80 then [word_of_int c]
      else if c < 0x800 then [word_of_int (0xC0 + c div 64), word_of_int (0x80 + c mod 64)]
      else if c < 0x10000 then
        [word_of_int (0xE0 + c div 4096), word_of_int (0x80 + c div 64 mod 64), word_of_int (0x80 + c mod 64)]
      else
        [word_of_int (0xF0 + c div 262144), word_of_int (0x80 + c div 4096 mod 64),
         word_of_int (0x80 + c div 64 mod 64), word_of_int (0x80 + c mod 64)])"
  by (auto simp add: wtf8_bytes_def and_take_bit_int take_bit_eq_mod drop_bit_eq_div or_low)

lemma uint_byte: "0 \<le> x \<Longrightarrow> x < 256 \<Longrightarrow> uint (word_of_int x :: u8) = x"
  by (simp add: uint_word_of_int)

lemma cont_byte: "uint b = 0x80 + r \<Longrightarrow> 0 \<le> r \<Longrightarrow> r < 64 \<Longrightarrow> is_cont b"
 by (simp add: is_cont_range word_le_def word_less_def)

lemma shift_byte: "uint b = 0x80 + r \<Longrightarrow> 0 \<le> r \<Longrightarrow> r < 64 \<Longrightarrow> uint a < 2 ^ 26 \<Longrightarrow>
   uint (wtf8_shift a b) = uint a * 64 + r"
proof -
  assume a: "uint b = 0x80 + r" "0 \<le> r" "r < 64" "uint a < 2 ^ 26"
  then have "uint b mod 64 = r" by (intro mod_known [where k = 2]) auto
  with a show ?thesis by (simp add: uint_shift)
qed

lemma uint_mask: "uint (0x7FF AND x) = uint x mod 0x800" "uint (0xFFFF AND x) = uint x mod 0x10000"
  "uint (x AND 0x1FFFFF) = uint x mod 0x200000" for x :: u32
  unfolding and_take_bit unsigned_take_bit_eq by (simp_all add: take_bit_eq_mod)

section \<open>Decoding undoes encoding\<close>

lemma wtf8_dec2: assumes "uint b1 = 0xC0 + q" "2 \<le> q" "q < 32" "uint b2 = 0x80 + r" "0 \<le> r" "r < 64"
  shows "uv__wtf8_decode1 (b1 # b2 # rest) = Some (q * 64 + r, b2 # rest)"
proof -
  have b: "\<not> b1 \<le> 0x7F" "\<not> b1 < 0xC2" "b1 \<le> 0xDF" using assms(1-3) by (simp_all add: word_le_def word_less_def)
  have u: "uint (ucast b1 :: u32) = uint b1" by (rule uint_wide)
  have "uint (wtf8_shift (ucast b1) b2) = (0xC0 + q) * 64 + r"
    using shift_byte [OF assms(4-6), of "ucast b1"] assms u by simp
  moreover have "((0xC0 + q) * 64 + r) mod 0x800 = q * 64 + r"
    by (rule mod_known [where k = 6]) (use assms in auto)
  ultimately show ?thesis using b cont_byte [OF assms(4-6)] by (simp add: uv__wtf8_decode1_def uint_mask)
qed

lemma wtf8_dec3: assumes "uint b1 = 0xE0 + q" "0 \<le> q" "q < 16" "uint b2 = 0x80 + r" "0 \<le> r" "r < 64" "uint b3 = 0x80 + s" "0 \<le> s" "s < 64"
  shows "uv__wtf8_decode1 (b1 # b2 # b3 # rest) = Some (q * 4096 + r * 64 + s, b3 # rest)"
proof -
  have b: "\<not> b1 \<le> 0x7F" "\<not> b1 < 0xC2" "\<not> b1 \<le> 0xDF" "b1 \<le> 0xEF" using assms(1-3) by (simp_all add: word_le_def word_less_def)
  have u: "uint (ucast b1 :: u32) = uint b1" by (rule uint_wide)
  have "uint (wtf8_shift (ucast b1) b2) = (0xE0 + q) * 64 + r"
    using shift_byte [OF assms(4-6), of "ucast b1"] assms u by simp
  then have "uint (wtf8_shift (wtf8_shift (ucast b1) b2) b3) = ((0xE0 + q) * 64 + r) * 64 + s"
    using shift_byte [OF assms(7-9), of "wtf8_shift (ucast b1) b2"] assms by simp
  moreover have "(((0xE0 + q) * 64 + r) * 64 + s) mod 0x10000 = q * 4096 + r * 64 + s"
    by (rule mod_known [where k = 14]) (use assms in auto)
  ultimately show ?thesis using b cont_byte [OF assms(4-6)] cont_byte [OF assms(7-9)] by (simp add: uv__wtf8_decode1_def uint_mask)
qed

lemma wtf8_dec4: assumes "uint b1 = 0xF0 + q" "0 \<le> q" "q < 5" "uint b2 = 0x80 + r" "0 \<le> r" "r < 64" "uint b3 = 0x80 + s" "0 \<le> s" "s < 64"
 "uint b4 = 0x80 + t" "0 \<le> t" "t < 64" "q * 262144 + r * 4096 + s * 64 + t \<le> 0x10FFFF"
  shows "uv__wtf8_decode1 (b1 # b2 # b3 # b4 # rest) = Some (q * 262144 + r * 4096 + s * 64 + t, b4 # rest)"
proof -
  have b: "\<not> b1 \<le> 0x7F" "\<not> b1 < 0xC2" "\<not> b1 \<le> 0xDF" "\<not> b1 \<le> 0xEF" "b1 \<le> 0xF4" using assms(1-3) by (simp_all add: word_le_def word_less_def)
  have u: "uint (ucast b1 :: u32) = uint b1" by (rule uint_wide)
  have "uint (wtf8_shift (ucast b1) b2) = (0xF0 + q) * 64 + r"
    using shift_byte [OF assms(4-6), of "ucast b1"] assms u by simp
  then have "uint (wtf8_shift (wtf8_shift (ucast b1) b2) b3) = ((0xF0 + q) * 64 + r) * 64 + s"
    using shift_byte [OF assms(7-9), of "wtf8_shift (ucast b1) b2"] assms by simp
  then have "uint (wtf8_shift (wtf8_shift (wtf8_shift (ucast b1) b2) b3) b4) = (((0xF0 + q) * 64 + r) * 64 + s) * 64 + t"
    using shift_byte [OF assms(10-12), of "wtf8_shift (wtf8_shift (ucast b1) b2) b3"] assms by simp
  moreover have "((((0xF0 + q) * 64 + r) * 64 + s) * 64 + t) mod 0x200000 = q * 262144 + r * 4096 + s * 64 + t"
    by (rule mod_known [where k = 30]) (use assms in auto)
  ultimately have "uint (wtf8_shift (wtf8_shift (wtf8_shift (ucast b1) b2) b3) b4 AND 0x1FFFFF) = q * 262144 + r * 4096 + s * 64 + t"
   unfolding uint_mask by simp
  then show ?thesis using b cont_byte [OF assms(4-6)] cont_byte [OF assms(7-9)] cont_byte [OF assms(10-12)] assms(13)
    by (simp add: uv__wtf8_decode1_def word_le_def)
qed

lemma bytes4:
  fixes a b c d :: u32
  assumes "uint a < 8"
  shows "uint (push_bit 18 a OR push_bit 12 (b AND 63) OR push_bit 6 (c AND 63) OR (d AND 63)) =
    uint a * 0x40000 + uint b mod 64 * 0x1000 + uint c mod 64 * 64 + uint d mod 64"
proof -
  have e: "push_bit 18 a OR push_bit 12 (b AND 63) OR push_bit 6 (c AND 63) OR (d AND 63) =
    push_bit 6 (push_bit 6 (push_bit 6 a OR (b AND 63)) OR (c AND 63)) OR (d AND 63)"
    by (simp add: push_bit_or or.assoc push_bit_push_bit)
  have "uint (push_bit 6 a OR (b AND 63)) = uint a * 64 + uint b mod 64"
    unfolding uint_shift6 using assms by simp
  then have "uint (push_bit 6 (push_bit 6 a OR (b AND 63)) OR (c AND 63)) = (uint a * 64 + uint b mod 64) * 64 + uint c mod 64"
    unfolding uint_shift6 using assms by simp
  then show ?thesis unfolding e
    by (subst uint_shift6) (use assms in simp)
qed

lemma cont3: assumes "is_cont b" "is_cont c" "is_cont d"
  shows "0xC0 AND (ucast b XOR ucast c XOR ucast d :: u32) = 0x80"
proof -
  have "0xC0 AND (ucast b :: u32) = 0x80" if "is_cont b" for b
  proof -
    have "is_cont b \<longrightarrow> 0xC0 AND (ucast b :: u32) = 0x80"  by (rule all_u8) code_simp
  with that show ?thesis by simp qed
  then show ?thesis using assms by (simp add: bit.conj_xor_distrib)
qed

lemma switch2: "a > 0xBF \<Longrightarrow> \<not> a > 0xDF \<Longrightarrow>
  utf8_switch (y # p) a = Some (0x80, 0, 0x80, 0x80 OR (a AND 31), ucast y, p)"
  by (cases p rule: utf8_switch.cases [of "(p, a)" for p]; cases "tl p") (auto simp: word_less_def)

lemma switch3: "a > 0xDF \<Longrightarrow> \<not> a > 0xEF \<Longrightarrow>
  utf8_switch (x # y # p) a = Some (0x800, 0, 0x80 OR (a AND 15), ucast x, ucast y, p)"
  by (cases p) auto

lemma switch4: "a > 0xEF \<Longrightarrow>
  utf8_switch (x # y # z # p) a = Some (0x10000, a AND 7, ucast x, ucast y, ucast z, p)"
  by simp

lemma slow_known:
  assumes "utf8_switch p a = Some (least, a', b, c, d, q)" "\<not> a > 0xF7"
    "0xC0 AND (b XOR c XOR d) = 0x80" "uint a' < 8"
    "v = uint a' * 0x40000 + uint b mod 64 * 0x1000 + uint c mod 64 * 64 + uint d mod 64"
    "uint least \<le> v" "v \<le> 0x10FFFF" "\<not> (0xD800 \<le> v \<and> v \<le> 0xDFFF)"
  shows "uv__utf8_decode1_slow p a = (word_of_int v, q)"
proof -
  have u: "uint (utf8_join a' b c d) = v"
    unfolding utf8_join_def Let_def bytes4 [OF assms(4)] assms(5) ..
  then have w: "utf8_join a' b c d = word_of_int v" by (metis word_of_int_uint)
  have "\<not> utf8_join a' b c d < least" "\<not> utf8_join a' b c d > 0x10FFFF"
    "\<not> (utf8_join a' b c d \<ge> 0xD800 \<and> utf8_join a' b c d \<le> 0xDFFF)"
    using u assms(6-8) by (simp_all add: word_less_def word_le_def)
  with assms(1-3) show ?thesis unfolding uv__utf8_decode1_slow_def Let_def
    by (simp only: w option.case prod.case if_False not_True_eq_False simp_thms)
qed

lemma lead_bytes:
  "0xC0 AND (0x80 OR (x AND 31)) = 0x80" "0xC0 AND (0x80 OR (x AND 15)) = 0x80"
  "uint (0x80 OR (x AND 31)) mod 64 = uint x mod 32"
  "uint (0x80 OR (x AND 15)) mod 64 = uint x mod 16" "uint (x AND 7) = uint x mod 8"
  for x :: u32
proof -
  have 1: "0x80 AND (x AND 31) = 0" "0x80 AND (x AND 15) = 0" "0xC0 AND (x AND 31) = 0" "0xC0 AND (x AND 15) = 0"
    by (simp_all add: and.left_commute [of _ x])
  then show "0xC0 AND (0x80 OR (x AND 31)) = 0x80" "0xC0 AND (0x80 OR (x AND 15)) = 0x80"
    by (simp_all add: bit.conj_disj_distrib)
  have 2: "uint (x AND 31) = uint x mod 32" "uint (x AND 15) = uint x mod 16" "uint (x AND 7) = uint x mod 8"
    unfolding and_take_bit unsigned_take_bit_eq by (simp_all add: take_bit_eq_mod)
  have "uint x mod 32 < 32" "uint x mod 16 < 16" "0 \<le> uint x mod 32" "0 \<le> uint x mod 16" by simp_all
  then have 3: "uint (0x80 + (x AND 31)) = 0x80 + uint x mod 32" "uint (0x80 + (x AND 15)) = 0x80 + uint x mod 16"
    by (simp_all add: uint_word_ariths 2)
  have 4: "(0x80 + uint x mod 32) mod 64 = uint x mod 32" "(0x80 + uint x mod 16) mod 64 = uint x mod 16"
    using \<open>uint x mod 32 < 32\<close> \<open>uint x mod 16 < 16\<close> by (intro mod_known [where k = 2]; simp)+
  show "uint (0x80 OR (x AND 31)) mod 64 = uint x mod 32" "uint (0x80 OR (x AND 15)) mod 64 = uint x mod 16"
    unfolding or_plus [OF 1(1)] or_plus [OF 1(2)] 3 by (rule 4)+
  show "uint (x AND 7) = uint x mod 8" by (rule 2)
qed

lemma cont_top: "is_cont b \<Longrightarrow> 0xC0 AND ucast b = (0x80 :: u32)"
proof -
  have "is_cont b \<longrightarrow> 0xC0 AND (ucast b :: u32) = 0x80" by (rule all_u8) code_simp
  then show "is_cont b \<Longrightarrow> 0xC0 AND ucast b = (0x80 :: u32)" by simp
qed

lemma cont_low: "uint b = 0x80 + r \<Longrightarrow> 0 \<le> r \<Longrightarrow> r < 64 \<Longrightarrow> uint (ucast b :: u32) mod 64 = r" for b :: u8
  unfolding uint_wide by (rule mod_known [where k = 2]) auto

lemma utf8_dec2:
  assumes b1: "uint b1 = 0xC0 + q" "2 \<le> q" "q < 32" and b2: "uint b2 = 0x80 + r" "0 \<le> r" "r < 64"
  shows "uv__utf8_decode1 (b1 # b2 # rest) = Some (word_of_int (q * 64 + r), rest)"
proof -
  let ?a = "ucast b1 :: u32"
  have a: "?a > 0xBF" "\<not> ?a > 0xDF" "\<not> ?a > 0xF7" "\<not> ?a < 128"
    using b1 by (simp_all add: word_less_def uint_wide)
  have m: "uint ?a mod 32 = q" unfolding uint_wide by (rule mod_known [where k = 6]) (use b1 in auto)
  have "uv__utf8_decode1_slow (b2 # rest) ?a = (word_of_int (q * 64 + r), rest)"
    by (rule slow_known [OF switch2 [OF a(1,2)] a(3)])
       (use b1 b2 m in \<open>simp_all add: bit.conj_xor_distrib lead_bytes cont_top [OF cont_byte [OF b2]] cont_low [OF b2]\<close>)
  with a show ?thesis by simp
qed

lemma utf8_dec3:
  assumes b1: "uint b1 = 0xE0 + q" "0 \<le> q" "q < 16" and b2: "uint b2 = 0x80 + r" "0 \<le> r" "r < 64"
   and b3: "uint b3 = 0x80 + s" "0 \<le> s" "s < 64" and v: "v = q * 4096 + r * 64 + s" "0x800 \<le> v" "\<not> (0xD800 \<le> v \<and> v \<le> 0xDFFF)"
  shows "uv__utf8_decode1 (b1 # b2 # b3 # rest) = Some (word_of_int v, rest)"
proof -
  let ?a = "ucast b1 :: u32"
  have a: "?a > 0xDF" "\<not> ?a > 0xEF" "\<not> ?a > 0xF7" "\<not> ?a < 128"
    using b1 by (simp_all add: word_less_def uint_wide)
  have m: "uint ?a mod 16 = q" unfolding uint_wide by (rule mod_known [where k = 14]) (use b1 in auto)
  have "uv__utf8_decode1_slow (b2 # b3 # rest) ?a = (word_of_int v, rest)"
    by (rule slow_known [OF switch3 [OF a(1,2)] a(3)])
       (use b1 b2 b3 m v in \<open>simp_all add: bit.conj_xor_distrib lead_bytes cont_top [OF cont_byte [OF b2]] cont_low [OF b2]
        cont_top [OF cont_byte [OF b3]] cont_low [OF b3]\<close>)
  with a show ?thesis by simp
qed

lemma utf8_dec4:
  assumes b1: "uint b1 = 0xF0 + q" "0 \<le> q" "q < 5" and b2: "uint b2 = 0x80 + r" "0 \<le> r" "r < 64"
   and b3: "uint b3 = 0x80 + s" "0 \<le> s" "s < 64" and b4: "uint b4 = 0x80 + t" "0 \<le> t" "t < 64"
    and v: "v = q * 262144 + r * 4096 + s * 64 + t" "0x10000 \<le> v" "v \<le> 0x10FFFF"
  shows "uv__utf8_decode1 (b1 # b2 # b3 # b4 # rest) = Some (word_of_int v, rest)"
proof -
  let ?a = "ucast b1 :: u32"
  have a: "?a > 0xEF" "\<not> ?a > 0xF7" "\<not> ?a < 128"
    using b1 by (simp_all add: word_less_def uint_wide)
  have m: "uint ?a mod 8 = q" unfolding uint_wide by (rule mod_known [where k = 30]) (use b1 in auto)
  have "uv__utf8_decode1_slow (b2 # b3 # b4 # rest) ?a = (word_of_int v, rest)"
    by (rule slow_known [OF switch4 [OF a(1)] a(2)])
       (use b1 b2 b3 b4 m v in \<open>simp_all add: bit.conj_xor_distrib lead_bytes cont_top [OF cont_byte [OF b2]] cont_low [OF b2]
        cont_top [OF cont_byte [OF b3]] cont_low [OF b3] cont_top [OF cont_byte [OF b4]] cont_low [OF b4]\<close>)
  with a show ?thesis by simp
qed

lemma wtf8_cases:
  assumes "0 \<le> c" "c \<le> (0x10FFFF :: int)"
  obtains "c < 0x80" "wtf8_bytes c = [word_of_int c]"
  | b1 b2 q r where "wtf8_bytes c = [b1, b2]" "0x80 \<le> c" "c < 0x800" "uint b1 = 0xC0 + q" "2 \<le> q" "q < 32"
     "uint b2 = 0x80 + r" "0 \<le> r" "r < 64" "c = q * 64 + r"
  | b1 b2 b3 q r s where "wtf8_bytes c = [b1, b2, b3]" "0x800 \<le> c" "c < 0x10000" "uint b1 = 0xE0 + q" "0 \<le> q" "q < 16"
     "uint b2 = 0x80 + r" "0 \<le> r" "r < 64" "uint b3 = 0x80 + s" "0 \<le> s" "s < 64" "c = q * 4096 + r * 64 + s"
  | b1 b2 b3 b4 q r s t where "wtf8_bytes c = [b1, b2, b3, b4]" "0x10000 \<le> c" "c \<le> 0x10FFFF" "uint b1 = 0xF0 + q" "0 \<le> q" "q < 5"
     "uint b2 = 0x80 + r" "0 \<le> r" "r < 64" "uint b3 = 0x80 + s" "0 \<le> s" "s < 64" "uint b4 = 0x80 + t" "0 \<le> t" "t < 64"
     "c = q * 262144 + r * 4096 + s * 64 + t"
proof -
  have d: "c = c div 64 * 64 + c mod 64" "c div 64 = c div 4096 * 64 + c div 64 mod 64"
    "c div 4096 = c div 262144 * 64 + c div 4096 mod 64"
    using div_mult_mod_eq [of c 64] div_mult_mod_eq [of "c div 64" 64] div_mult_mod_eq [of "c div 4096" 64]
    by (simp_all add: zdiv_zmult2_eq [symmetric])
  have m: "0 \<le> c mod 64" "c mod 64 < 64" "0 \<le> c div 64 mod 64" "c div 64 mod 64 < 64"
    "0 \<le> c div 4096 mod 64" "c div 4096 mod 64 < 64" by simp_all
  consider "c < 0x80" | "0x80 \<le> c" "c < 0x800" | "0x800 \<le> c" "c < 0x10000" | "0x10000 \<le> c" by linarith
  then show thesis
  proof cases
    case 1
    with assms that(1) show thesis by (simp add: wtf8_bytes_arith)
  next
    case 2
    have q: "2 \<le> c div 64" "c div 64 < 32" using 2 d(1) m by linarith+
    have u: "uint (word_of_int (0xC0 + c div 64) :: u8) = 0xC0 + c div 64"
      "uint (word_of_int (0x80 + c mod 64) :: u8) = 0x80 + c mod 64"
      by (rule uint_byte; use q m in linarith)+
    show thesis
      by (rule that(2) [OF _ 2 u(1) q u(2) m(1,2) d(1)]) (use 2 assms in \<open>simp only: wtf8_bytes_arith; simp\<close>)
  next
    case 3
    have q: "0 \<le> c div 4096" "c div 4096 < 16" using 3 d m by linarith+
    have u: "uint (word_of_int (0xE0 + c div 4096) :: u8) = 0xE0 + c div 4096"
      "uint (word_of_int (0x80 + c div 64 mod 64) :: u8) = 0x80 + c div 64 mod 64"
      "uint (word_of_int (0x80 + c mod 64) :: u8) = 0x80 + c mod 64"
      by (rule uint_byte; use q m in linarith)+
    have c: "c = c div 4096 * 4096 + c div 64 mod 64 * 64 + c mod 64" using d by linarith
    show thesis
      by (rule that(3) [OF _ 3 u(1) q u(2) m(3,4) u(3) m(1,2) c]) (use 3 assms in \<open>simp only: wtf8_bytes_arith; simp\<close>)
  next
    case 4
    have q: "0 \<le> c div 262144" "c div 262144 < 5" using 4 assms d m by linarith+
    have u: "uint (word_of_int (0xF0 + c div 262144) :: u8) = 0xF0 + c div 262144"
      "uint (word_of_int (0x80 + c div 4096 mod 64) :: u8) = 0x80 + c div 4096 mod 64"
      "uint (word_of_int (0x80 + c div 64 mod 64) :: u8) = 0x80 + c div 64 mod 64"
      "uint (word_of_int (0x80 + c mod 64) :: u8) = 0x80 + c mod 64"
      by (rule uint_byte; use q m in linarith)+
    have c: "c = c div 262144 * 262144 + c div 4096 mod 64 * 4096 + c div 64 mod 64 * 64 + c mod 64"
      using d by linarith
    show thesis
      by (rule that(4) [OF _ 4 assms(2) u(1) q u(2) m(5,6) u(3) m(3,4) u(4) m(1,2) c])
        (use 4 assms in \<open>simp only: wtf8_bytes_arith; simp\<close>)
  qed
qed

lemma utf8_decode_encode:
  assumes "0 \<le> c" "c \<le> 0x10FFFF" "\<not> (0xD800 \<le> c \<and> c \<le> 0xDFFF)"
  shows "uv__utf8_decode1 (wtf8_bytes c @ rest) = Some (word_of_int c, rest)"
proof (rule wtf8_cases [OF assms(1,2)])
  assume "c < 0x80" "wtf8_bytes c = [word_of_int c]"
  with assms(1) uint_byte [of c] show ?thesis
    by (auto simp: word_less_def uint_wide uint_word_of_int Let_def intro!: word_uint_eqI)
next
  fix b1 b2 q r
  assume "wtf8_bytes c = [b1, b2]" "uint b1 = 0xC0 + q" "2 \<le> q" "q < 32"
    "uint b2 = 0x80 + r" "0 \<le> r" "r < 64" "c = q * 64 + r"
  then show ?thesis using utf8_dec2 [of b1 q b2 r rest] by simp
next
  fix b1 b2 b3 q r s
  assume "wtf8_bytes c = [b1, b2, b3]" "0x800 \<le> c" "uint b1 = 0xE0 + q" "0 \<le> q" "q < 16"
    "uint b2 = 0x80 + r" "0 \<le> r" "r < 64" "uint b3 = 0x80 + s" "0 \<le> s" "s < 64" "c = q * 4096 + r * 64 + s"
  then show ?thesis using utf8_dec3 [of b1 q b2 r b3 s c rest] assms by simp
next
  fix b1 b2 b3 b4 q r s t
  assume "wtf8_bytes c = [b1, b2, b3, b4]" "0x10000 \<le> c" "uint b1 = 0xF0 + q" "0 \<le> q" "q < 5"
     "uint b2 = 0x80 + r" "0 \<le> r" "r < 64" "uint b3 = 0x80 + s" "0 \<le> s" "s < 64"
     "uint b4 = 0x80 + t" "0 \<le> t" "t < 64" "c = q * 262144 + r * 4096 + s * 64 + t"
  then show ?thesis using utf8_dec4 [of b1 q b2 r b3 s b4 t c rest] assms by simp
qed

lemma wtf8_decode_encode:
  assumes "0 \<le> c" "c \<le> 0x10FFFF"
  shows "uv__wtf8_decode1 (wtf8_bytes c @ rest) = Some (c, last (wtf8_bytes c) # rest)"
proof (rule wtf8_cases [OF assms])
  assume "c < 0x80" "wtf8_bytes c = [word_of_int c]"
  with assms(1) uint_byte [of c] show ?thesis by (simp add: uv__wtf8_decode1_def word_le_def)
next
  fix b1 b2 q r
  assume "wtf8_bytes c = [b1, b2]" "uint b1 = 0xC0 + q" "2 \<le> q" "q < 32"
    "uint b2 = 0x80 + r" "0 \<le> r" "r < 64" "c = q * 64 + r"
  then show ?thesis using wtf8_dec2 [of b1 q b2 r rest] by simp
next
  fix b1 b2 b3 q r s
  assume "wtf8_bytes c = [b1, b2, b3]" "0x800 \<le> c" "uint b1 = 0xE0 + q" "0 \<le> q" "q < 16"
    "uint b2 = 0x80 + r" "0 \<le> r" "r < 64" "uint b3 = 0x80 + s" "0 \<le> s" "s < 64" "c = q * 4096 + r * 64 + s"
  then show ?thesis using wtf8_dec3 [of b1 q b2 r b3 s rest] assms by simp
next
  fix b1 b2 b3 b4 q r s t
  assume "wtf8_bytes c = [b1, b2, b3, b4]" "0x10000 \<le> c" "uint b1 = 0xF0 + q" "0 \<le> q" "q < 5"
     "uint b2 = 0x80 + r" "0 \<le> r" "r < 64" "uint b3 = 0x80 + s" "0 \<le> s" "s < 64"
     "uint b4 = 0x80 + t" "0 \<le> t" "t < 64" "c = q * 262144 + r * 4096 + s * 64 + t"
  then show ?thesis using wtf8_dec4 [of b1 q b2 r b3 s b4 t rest] assms by simp
qed
section \<open>UTF-16 as code points\<close>

text \<open>
  The code points of a list of units: a surrogate pair is one, any other unit stands for
  itself. \<open>utf16_at w s\<close>: the units from the pointer on begin with \<open>w\<close>, and the length says
  that \<open>w\<close> is all there is, either by its value or by a zero unit after \<open>w\<close>.
\<close>

definition is_pair :: "u16 \<Rightarrow> u16 \<Rightarrow> bool" where
  "is_pair u v \<longleftrightarrow> 0xD800 \<le> u \<and> u \<le> 0xDBFF \<and> 0xDC00 \<le> v \<and> v \<le> 0xDFFF"

definition pair_code :: "u16 \<Rightarrow> u16 \<Rightarrow> int" where
  "pair_code u v = 0x10000 + (uint u - 0xD800) * 1024 + (uint v - 0xDC00)"

fun codes :: "u16 list \<Rightarrow> int list" where
  "codes [] = []"
| "codes [u] = [uint u]"
| "codes (u # v # w) =
     (if is_pair u v then pair_code u v # codes w else uint u # codes (v # w))"

definition wtf8 :: "u16 list \<Rightarrow> u8 list" where
  "wtf8 w = concat (map wtf8_bytes (codes w))"

definition utf16_at :: "u16 list \<Rightarrow> u16 list \<times> int \<Rightarrow> bool" where
  "utf16_at w s \<longleftrightarrow> (\<exists>r. fst s = w @ r \<and>
     (snd s = int (length w) \<or> snd s < 0 \<and> r \<noteq> [] \<and> hd r = 0 \<and> 0 \<notin> set w))"

lemma pair_range: "is_pair u v \<Longrightarrow> 0x10000 \<le> pair_code u v \<and> pair_code u v \<le> 0x10FFFF"
  by (auto simp: is_pair_def pair_code_def word_le_def)

lemma code_range: "c \<in> set (codes w) \<Longrightarrow> 0 \<le> c \<and> c \<le> 0x10FFFF"
proof (induction w rule: codes.induct)
  have u: "uint u < 0x10000" for u :: u16 using uint_bounded [of u] by simp
  case (3 u v w)
  then show ?case using pair_range [of u v] u [of u] by (auto split: if_splits)
next
  case (2 u)
  then show ?case using uint_bounded [of u] by simp
qed simp

lemma utf16_step:
  assumes "utf16_at w (src, len)" "w \<noteq> []"
  shows "\<exists>c w'. uv__get_surrogate_value src len = Some c \<and> codes w = c # codes w' \<and>
    utf16_at w' (past_code c (src, len)) \<and> len \<noteq> 0 \<and> (len < 0 \<longrightarrow> c \<noteq> 0) \<and> length w' < length w"
proof -
  obtain r where r: "src = w @ r"
    "len = int (length w) \<or> len < 0 \<and> r \<noteq> [] \<and> hd r = 0 \<and> 0 \<notin> set w"
    using assms(1) by (auto simp: utf16_at_def)
  have u16: "uint u < 0x10000" for u :: u16 using uint_bounded [of u] by simp
  obtain u w1 where w: "w = u # w1" using assms(2) by (cases w) auto
  have single: ?thesis if s: "uv__get_surrogate_value src len = Some (uint u)" "codes w = uint u # codes w1"
  proof -
    have "utf16_at w1 (past_code (uint u) (src, len))"
      using r u16 [of u] by (auto simp: utf16_at_def past_code_def less_one_def w)
    moreover have "len < 0 \<longrightarrow> uint u \<noteq> 0" using r(2) by (auto simp: w unsigned_eq_0_iff)
    ultimately show ?thesis using s r(2) by (auto simp: w)
  qed
  show ?thesis
  proof (cases w1)
    case Nil
    have "hd r = 0 \<Longrightarrow> \<not> 0xDC00 \<le> hd r" by simp
    then have "uv__get_surrogate_value src len = Some (uint u)"
      using r(2) by (cases r) (auto simp: uv__get_surrogate_value_def r(1) w Nil)
    then show ?thesis by (rule single) (simp add: w Nil)
  next
    case (Cons v w2)
    show ?thesis
    proof (cases "is_pair u v")
      case True
      note p = pair_range [OF True]
      have "len \<noteq> 1" using r(2) by (auto simp: w Cons)
      then have "uv__get_surrogate_value src len = Some (pair_code u v)"
        using True by (simp add: uv__get_surrogate_value_def r(1) w Cons is_pair_def pair_code_def push_bit_eq_mult)
      moreover have "utf16_at w2 (past_code (pair_code u v) (src, len))"
        using r p by (auto simp: utf16_at_def past_code_def less_one_def w Cons)
      moreover have "len \<noteq> 0" using r(2) by (auto simp: w)
      ultimately show ?thesis using True p by (intro exI [of _ "pair_code u v"] exI [of _ w2]) (auto simp: w Cons)
    next
      case False
      then have "uv__get_surrogate_value src len = Some (uint u)"
        by (auto simp: uv__get_surrogate_value_def r(1) w Cons is_pair_def)
      then show ?thesis by (rule single) (simp add: w Cons False)
    qed
  qed
qed

lemma utf16_end:
  "utf16_at [] (src, len) \<Longrightarrow> len = 0 \<or> len < 0 \<and> src \<noteq> [] \<and> hd src = 0 \<and> uv__get_surrogate_value src len = Some 0"
  by (auto simp: utf16_at_def uv__get_surrogate_value_def neq_Nil_conv)

section \<open>From UTF-16 to WTF-8\<close>

lemma wtf8_step: "codes w = c # codes w' \<Longrightarrow> wtf8 w = wtf8_bytes c @ wtf8 w'"
  by (simp add: wtf8_def)

lemma length_wtf8_bytes:
  "length (wtf8_bytes c) = (if c < 0x80 then 1 else if c < 0x800 then 2 else if c < 0x10000 then 3 else 4)"
  by (simp add: wtf8_bytes_def)

lemma utf16_length_at:
  "utf16_at w s \<Longrightarrow> utf16_length_from s n = Some (n + length (wtf8 w))"
proof (induction "length w" arbitrary: w s n rule: less_induct)
  case less
  obtain src len where s: "s = (src, len)" by fastforce
  show ?case
  proof (cases "w = []")
    case True
    with less.prems have "len = 0 \<or> len < 0 \<and> uv__get_surrogate_value src len = Some 0"
      using utf16_end by (auto simp: s)
    then show ?thesis by (subst utf16_length_from.simps) (auto simp: s True wtf8_def)
  next
    case False
    from utf16_step [OF less.prems [unfolded s] False] obtain c w' where
      c: "uv__get_surrogate_value src len = Some c" "codes w = c # codes w'"
      "utf16_at w' (past_code c (src, len))" "len \<noteq> 0" "len < 0 \<longrightarrow> c \<noteq> 0" "length w' < length w" by blast
    show ?thesis
      using less.hyps [OF c(6,3)] c wtf8_step [OF c(2)]
      by (subst utf16_length_from.simps) (simp add: s length_wtf8_bytes Let_def)
  qed
qed

lemma utf16_write_fits:
  "utf16_at w s \<Longrightarrow> length out + length (wtf8 w) \<le> e \<Longrightarrow>
   \<exists>s' k1. utf16_write s e k0 out = Some (s', k1, out @ wtf8 w) \<and>
     (snd s' = 0 \<or> length (out @ wtf8 w) = e \<and> snd s' < 0 \<and> fst s' \<noteq> [] \<and> hd (fst s') = 0)"
proof (induction "length w" arbitrary: w s k0 out rule: less_induct)
  case less
  obtain src len where s: "s = (src, len)" by fastforce
  show ?case
  proof (cases "w = []")
    case True
    with less.prems have "len = 0 \<or> len < 0 \<and> src \<noteq> [] \<and> hd src = 0 \<and> uv__get_surrogate_value src len = Some 0"
      using utf16_end by (auto simp: s)
    then show ?thesis by (subst utf16_write.simps) (auto simp: s True wtf8_def)
  next
    case False
    from utf16_step [OF less.prems(1) [unfolded s] False] obtain c w' where
      c: "uv__get_surrogate_value src len = Some c" "codes w = c # codes w'"
      "utf16_at w' (past_code c (src, len))" "len \<noteq> 0" "len < 0 \<longrightarrow> c \<noteq> 0" "length w' < length w" by blast
    have l: "length (wtf8_bytes c) \<ge> 1" by (simp add: length_wtf8_bytes)
    have "\<exists>s' k1. utf16_write (past_code c (src, len)) e (length (out @ wtf8_bytes c)) (out @ wtf8_bytes c)
        = Some (s', k1, (out @ wtf8_bytes c) @ wtf8 w') \<and>
      (snd s' = 0 \<or> length ((out @ wtf8_bytes c) @ wtf8 w') = e \<and> snd s' < 0 \<and> fst s' \<noteq> [] \<and> hd (fst s') = 0)"
      by (rule less.hyps [OF c(6,3)]) (use less.prems(2) in \<open>simp add: wtf8_step [OF c(2)]\<close>)
    then show ?thesis
      using c l less.prems(2) by (subst utf16_write.simps) (auto simp: s wtf8_step [OF c(2)] Let_def)
  qed
qed

lemma utf16_write_full:
  "utf16_at w s \<Longrightarrow> length out \<le> e \<Longrightarrow> e < length out + length (wtf8 w) \<Longrightarrow>
   \<exists>src' len' k1 w'. utf16_write s e k0 out = Some ((src', len'), k1, take e (out @ wtf8 w)) \<and>
     utf16_at w' (src', len') \<and> w' \<noteq> [] \<and>
     k1 = (if length out = e \<or> e < length out + length (wtf8_bytes (hd (codes w))) then k0
            else length (out @ wtf8 w) - length (wtf8 w')) \<and>
     (length out = e \<or> e < length out + length (wtf8_bytes (hd (codes w))) \<longrightarrow> w' = w) \<and>
     length (wtf8 w') \<le> length (wtf8 w)"
proof (induction "length w" arbitrary: w s k0 out rule: less_induct)
  case less
  obtain src len where s: "s = (src, len)" by fastforce
  have ne: "w \<noteq> []" using less.prems(2,3) by (auto simp: wtf8_def)
  from utf16_step [OF less.prems(1) [unfolded s] ne] obtain c w' where
    c: "uv__get_surrogate_value src len = Some c" "codes w = c # codes w'"
    "utf16_at w' (past_code c (src, len))" "len \<noteq> 0" "len < 0 \<longrightarrow> c \<noteq> 0" "length w' < length w" by blast
  note st = wtf8_step [OF c(2)]
  show ?case
  proof (cases "length out = e \<or> e < length out + length (wtf8_bytes c)")
    case True
    with c ne less.prems show ?thesis
      by (subst utf16_write.simps) (auto simp: s st Let_def intro!: exI [of _ w])
  next
    case False
    let ?o = "out @ wtf8_bytes c"
    have "length ?o \<le> e" "e < length ?o + length (wtf8 w')" using False less.prems(3) by (simp_all add: st)
    from less.hyps [OF c(6,3) this, of "length ?o"] obtain src' len' k1 w2 where
      h: "utf16_write (past_code c (src, len)) e (length ?o) ?o = Some ((src', len'), k1, take e (?o @ wtf8 w'))"
      "utf16_at w2 (src', len')" "w2 \<noteq> []"
      "k1 = (if length ?o = e \<or> e < length ?o + length (wtf8_bytes (hd (codes w'))) then length ?o
            else length (?o @ wtf8 w') - length (wtf8 w2))"
      "length ?o = e \<or> e < length ?o + length (wtf8_bytes (hd (codes w'))) \<longrightarrow> w2 = w'"
      "length (wtf8 w2) \<le> length (wtf8 w')" by blast
    have "k1 = length (out @ wtf8 w) - length (wtf8 w2)" using h(4,5) by (auto simp: st split: if_splits)
    moreover have "utf16_write s e k0 out = Some ((src', len'), k1, take e (out @ wtf8 w))"
      using h(1) c False by (subst utf16_write.simps) (auto simp: s st Let_def)
    ultimately show ?thesis using False h(2,3,6) by (auto simp: c(2) st)
  qed
qed

lemma utf16_to_buffer:
  assumes "utf16_at w (src, len)"
  shows "uv_utf16_to_wtf8 a src len Buffer_target (Some n) =
    (if length (wtf8 w) \<le> n then Some (None, Some (wtf8 w @ [0]), Some (length (wtf8 w)))
     else Some (Some UV_ENOBUFS, Some (take n (wtf8 w) @ [0]),
       Some (if 0 < n \<and> n < length (wtf8_bytes (hd (codes w))) then n + length (wtf8 w) else length (wtf8 w))))"
proof (cases "length (wtf8 w) \<le> n")
  case True
  then show ?thesis
    using utf16_write_fits [OF assms, of "[]" n n]
    by (auto simp: uv_utf16_to_wtf8_def utf16_finish_def Let_def)
next
  case False
  then have "\<exists>src' len' k1 w'.
    utf16_write (src, len) n n [] = Some ((src', len'), k1, take n (wtf8 w)) \<and> utf16_at w' (src', len') \<and> w' \<noteq> [] \<and>
    k1 = (if n = 0 \<or> n < length (wtf8_bytes (hd (codes w))) then n else length (wtf8 w) - length (wtf8 w')) \<and>
    (n = 0 \<or> n < length (wtf8_bytes (hd (codes w))) \<longrightarrow> w' = w) \<and> length (wtf8 w') \<le> length (wtf8 w)"
    using utf16_write_full [OF assms, of "[]" n n]
    by (simp only: eq_commute [of 0 n] append_Nil list.size add_0 not_le le0 simp_thms True_implies_equals)
  then obtain src' len' k1 w' where
    w: "utf16_write (src, len) n n [] = Some ((src', len'), k1, take n (wtf8 w))" "utf16_at w' (src', len')" "w' \<noteq> []"
    "k1 = (if n = 0 \<or> n < length (wtf8_bytes (hd (codes w))) then n else length (wtf8 w) - length (wtf8 w'))"
    "n = 0 \<or> n < length (wtf8_bytes (hd (codes w))) \<longrightarrow> w' = w" "length (wtf8 w') \<le> length (wtf8 w)"
    by blast
  have l: "uv_utf16_length_as_wtf8 src' len' = Some (length (wtf8 w'))"
    using utf16_length_at [OF w(2), of 0] by (simp add: uv_utf16_length_as_wtf8_def)
  have "len' \<noteq> 0" using utf16_step [OF w(2,3)] by blast
  moreover have "src' \<noteq> []" "len' < 0 \<longrightarrow> hd src' \<noteq> 0"
    using w(2,3) by (cases w'; force simp: utf16_at_def)+
  ultimately
  have "utf16_finish ((src', len'), k1, take n (wtf8 w)) n (Some n) =
    Some (Some UV_ENOBUFS, Some (take n (wtf8 w) @ [0]), Some (k1 + length (wtf8 w')))"
    using l False by (auto simp: utf16_finish_def Let_def)
  moreover have "k1 + length (wtf8 w') =
    (if 0 < n \<and> n < length (wtf8_bytes (hd (codes w))) then n + length (wtf8 w) else length (wtf8 w))"
    using w(4,5,6) by auto
  ultimately show ?thesis using False w(1) by (simp add: uv_utf16_to_wtf8_def)
qed

lemma utf16_to_new:
  assumes "utf16_at w (src, len)"
  shows "uv_utf16_to_wtf8 True src len Null_target lp = Some (None, Some (wtf8 w @ [0]), map_option (\<lambda>_. length (wtf8 w)) lp)"
  using utf16_write_fits [OF assms, of "[]" "length (wtf8 w)" "length (wtf8 w)"] utf16_length_at [OF assms, of 0]
  by (cases lp) (auto simp: uv_utf16_to_wtf8_def uv_utf16_length_as_wtf8_def utf16_finish_def Let_def)

section \<open>From WTF-8 to UTF-16\<close>

lemma last_byte:
  assumes "0 \<le> c" "c \<le> 0x10FFFF"
  shows "last (wtf8_bytes c) = 0 \<longleftrightarrow> c = 0"
proof -
  have z: "b = 0 \<longleftrightarrow> uint b = 0" for b :: u8 by (simp add: unsigned_eq_0_iff)
  show ?thesis
  proof (rule wtf8_cases [OF assms])
    assume "c < 0x80" "wtf8_bytes c = [word_of_int c]"
    then show ?thesis unfolding z using uint_byte [of c] assms(1) by simp
  qed (auto simp: z)
qed

lemma pair_units:
  assumes "is_pair u v" "c = pair_code u v"
  shows "word_of_int (drop_bit 10 (c - 0x10000) + 0xD800) = u"
    and "word_of_int (((c - 0x10000) AND 0x3FF) + 0xDC00) = v"
proof -
  have r: "0 \<le> uint u - 0xD800" "0 \<le> uint v - 0xDC00" "uint v - 0xDC00 < 1024"
    using assms(1) by (auto simp: is_pair_def word_le_def)
  have e: "c - 0x10000 = (uint u - 0xD800) * 2 ^ 10 + (uint v - 0xDC00)" using assms(2) by (simp add: pair_code_def)
  have "drop_bit 10 (c - 0x10000) = uint u - 0xD800"
    unfolding e drop_bit_eq_div using r by (subst div_mult_self3) auto
  moreover have "(c - 0x10000) AND 0x3FF = uint v - 0xDC00"
    unfolding e and_take_bit_int take_bit_eq_mod using r by (intro mod_known [where k = "uint u - 0xD800"]) auto
  ultimately
  show "word_of_int (drop_bit 10 (c - 0x10000) + 0xD800) = u"
    "word_of_int (((c - 0x10000) AND 0x3FF) + 0xDC00) = v"
    by (simp_all only: diff_add_cancel word_of_int_uint)
qed

text \<open>The code points that \<open>uv_wtf8_to_utf16\<close> gets wrong.\<close>

abbreviation mishandled :: "int \<Rightarrow> bool" where
  "mishandled c \<equiv> c = 0x10000 \<or> c = 0x10FFFF"

lemma wtf8_length_codes:
  assumes "\<And>c. c \<in> set cs \<Longrightarrow> 0 < c \<and> c \<le> 0x10FFFF"
  shows "wtf8_length_from (concat (map wtf8_bytes cs) @ 0 # rest) n =
    Some (int (n + (\<Sum>c\<leftarrow>cs. if 0xFFFF < c then 2 else 1) + 1))"
  using assms
proof (induction cs arbitrary: n)
  case Nil
  have "uv__wtf8_decode1 (0 # rest) = Some (0, 0 # rest)" by (simp add: uv__wtf8_decode1_def)
  then show ?case by (subst wtf8_length_from.simps) simp
next
  case (Cons c cs)
  then have c: "0 < c" "c \<le> 0x10FFFF" by auto
  have "last (wtf8_bytes c) \<noteq> 0" "\<not> c < 0" using last_byte [of c] c by simp_all
  moreover have "wtf8_length_from (concat (map wtf8_bytes cs) @ 0 # rest) m =
    Some (int (m + (\<Sum>c\<leftarrow>cs. if 0xFFFF < c then 2 else 1) + 1))" for m
    by (rule Cons.IH) (use Cons.prems in auto)
  ultimately show ?case
    using wtf8_decode_encode [of c "concat (map wtf8_bytes cs) @ 0 # rest"] c
    by (subst wtf8_length_from.simps) (simp add: Let_def)
qed

lemma codes_split:
  assumes "w \<noteq> []"
  obtains u w' where "w = u # w'" "codes w = uint u # codes w'"
  | u v w' where "w = u # v # w'" "is_pair u v" "codes w = pair_code u v # codes w'"
proof (cases w rule: codes.cases)
  case (3 u v w1)
  with that show thesis by (cases "is_pair u v") auto
qed (use assms that in auto)

lemma code_nonzero: "0 \<notin> set w \<Longrightarrow> c \<in> set (codes w) \<Longrightarrow> 0 < c"
proof (induction w rule: codes.induct)
  have u: "u \<noteq> 0 \<Longrightarrow> 0 < uint u" for u :: u16 by (simp add: less_le unsigned_eq_0_iff)
  case (3 u v w)
  then show ?case using pair_range [of u v] u [of u] by (auto split: if_splits)
next
  case (2 u)
  then show ?case by (auto simp: less_le unsigned_eq_0_iff)
qed simp

lemma wtf8_to_utf16_step:
  assumes "0 < c" "c \<le> 0x10FFFF"
  shows "wtf8_to_utf16_from (wtf8_bytes c @ r) cap n out =
    (case code_units c of Inl f \<Rightarrow> Inl f
     | Inr (us, k) \<Rightarrow>
       (case emit cap out us of Inl f \<Rightarrow> Inl f
        | Inr out' \<Rightarrow> wtf8_to_utf16_from r cap (n - k) out'))"
proof -
  have "last (wtf8_bytes c) \<noteq> 0" "\<not> c < 0" using last_byte [of c] assms by simp_all
  then show ?thesis
    using wtf8_decode_encode [of c r] assms
    by (subst wtf8_to_utf16_from.simps) (simp split: sum.splits)
qed

lemma wtf8_to_utf16_codes:
  assumes "0 \<notin> set w" "length out + length w + 1 \<le> cap" "extra + length w < 2 ^ 64"
  shows "wtf8_to_utf16_from (wtf8 w @ 0 # rest) cap (of_nat (extra + length w + 1)) out =
    (if extra = 0 \<and> list_all (\<lambda>c. \<not> mishandled c) (codes w) then Inr (out @ w @ [0]) else Inl Assertion)"
  using assms
proof (induction "length w" arbitrary: w out extra rule: less_induct)
  case less
  show ?case
  proof (cases "w = []")
    case True
    have "uv__wtf8_decode1 (0 # rest) = Some (0, 0 # rest)" by (simp add: uv__wtf8_decode1_def)
    moreover have "(of_nat extra :: u64) = 0 \<longleftrightarrow> extra = 0"
      using less.prems(3) dvd_imp_le [of "2 ^ 64" extra] by (auto simp: True word_of_nat_eq_0_iff)
    ultimately show ?thesis using less.prems(2)
      by (subst wtf8_to_utf16_from.simps) (simp add: True wtf8_def code_units_def emit_def)
  next
    case False
    then show ?thesis
    proof (cases rule: codes_split)
      case (1 u w')
      have c: "0 < uint u" "uint u < 0x10000"
        using code_nonzero [OF less.prems(1), of "uint u"] uint_bounded [of u] by (simp_all add: 1(2))
      have "wtf8_to_utf16_from (wtf8 w' @ 0 # rest) cap (of_nat (extra + length w' + 1)) (out @ [u]) =
        (if extra = 0 \<and> list_all (\<lambda>c. \<not> mishandled c) (codes w') then Inr ((out @ [u]) @ w' @ [0]) else Inl Assertion)"
        by (rule less.hyps) (use less.prems in \<open>simp_all add: 1\<close>)
      then show ?thesis using c less.prems(2) wtf8_to_utf16_step [of "uint u"]
        unfolding wtf8_step [OF 1(2)] 1(2) by (simp add: code_units_def emit_def 1(1) add.commute)
    next
      case (2 u v w')
      let ?c = "pair_code u v"
      note p = pair_range [OF 2(2)]
      show ?thesis
      proof (cases "mishandled ?c")
        case True
        have "wtf8_to_utf16_from (wtf8 w' @ 0 # rest) cap (of_nat ((extra + 1) + length w' + 1)) (out @ [65536]) = Inl Assertion"
          if "?c = 0x10000"
          using less.hyps [of w' "out @ [65536]" "extra + 1"] less.prems by (simp add: 2)
        then show ?thesis using True p less.prems(2) wtf8_to_utf16_step [of ?c]
          unfolding wtf8_step [OF 2(3)] 2(3) by (auto simp: code_units_def emit_def 2(1) add.commute)
      next
        case False
        have "wtf8_to_utf16_from (wtf8 w' @ 0 # rest) cap (of_nat (extra + length w' + 1)) (out @ [u, v]) =
          (if extra = 0 \<and> list_all (\<lambda>c. \<not> mishandled c) (codes w') then Inr ((out @ [u, v]) @ w' @ [0]) else Inl Assertion)"
          by (rule less.hyps) (use less.prems in \<open>simp_all add: 2\<close>)
        moreover have "code_units ?c = Inr ([u, v], 2)"
          using p False pair_units [OF 2(2) refl] by (simp add: code_units_def)
        ultimately show ?thesis using p False less.prems(2) wtf8_to_utf16_step [of ?c]
          unfolding wtf8_step [OF 2(3)] 2(3) by (simp add: emit_def 2(1) add.commute)
      qed
    qed
  qed
qed

lemma sum_codes: "(\<Sum>c\<leftarrow>codes w. if 0xFFFF < c then 2 else 1) = length w"
proof (induction w rule: codes.induct)
  have u: "uint u < 0x10000" for u :: u16 using uint_bounded [of u] by simp
  case (3 u v w)
  then show ?case using pair_range [of u v] u [of u] by auto
next
  case (2 u)
  then show ?case using uint_bounded [of u] by simp
qed simp

section \<open>Bounds on NUL-terminated strings\<close>

lemma is_cont_0 [simp]: "\<not> is_cont 0"
  by (simp add: is_cont_def)

lemma wtf8_decode1_total:
  assumes "0 \<in> set p"
  obtains c q where "uv__wtf8_decode1 p = Some (c, q)" "hd q \<noteq> 0 \<Longrightarrow> 0 \<in> set (tl q)"
proof -
  obtain b1 p1 where p: "p = b1 # p1" using assms by (cases p) auto
  have "\<exists>c q. uv__wtf8_decode1 p = Some (c, q) \<and> 0 \<in> set q"
    using assms by (auto simp: p uv__wtf8_decode1_def Let_def split: list.splits if_splits)
  then obtain c q where "uv__wtf8_decode1 p = Some (c, q)" "0 \<in> set q" by blast
  moreover from this(2) have "hd q \<noteq> 0 \<Longrightarrow> 0 \<in> set (tl q)" by (cases q) auto
  ultimately show thesis using that by blast
qed

lemma wtf8_length_total: "0 \<in> set p \<Longrightarrow> wtf8_length_from p n \<noteq> None"
proof (induction p n rule: wtf8_length_from.induct)
  case (1 p n)
  obtain c q where "uv__wtf8_decode1 p = Some (c, q)" "hd q \<noteq> 0 \<Longrightarrow> 0 \<in> set (tl q)"
    using wtf8_decode1_total [OF 1(2)] by blast
  with 1 show ?case by (subst wtf8_length_from.simps) (auto simp: Let_def split del: if_split split: if_split)
qed

lemma wtf8_length_unfold:
  assumes "wtf8_length_from p n = Some r" "0 \<le> r"
  obtains c q k where "uv__wtf8_decode1 p = Some (c, q)" "0 \<le> c" "k = (if c > 0xFFFF then 2 else 1)"
    "hd q = 0 \<and> r = int (n + k) \<or> hd q \<noteq> 0 \<and> wtf8_length_from (tl q) (n + k) = Some r"
proof -
  obtain c q where d: "uv__wtf8_decode1 p = Some (c, q)"
    using assms by (subst (asm) wtf8_length_from.simps) (auto split: option.splits)
  have "0 \<le> c" using assms d by (subst (asm) wtf8_length_from.simps) (auto split: if_splits)
  moreover have "hd q = 0 \<and> r = int (n + (if c > 0xFFFF then 2 else 1)) \<or>
    hd q \<noteq> 0 \<and> wtf8_length_from (tl q) (n + (if c > 0xFFFF then 2 else 1)) = Some r"
    using assms d \<open>0 \<le> c\<close> by (subst (asm) wtf8_length_from.simps) (auto simp: Let_def split: if_splits)
  ultimately show thesis using that d by blast
qed

lemma wtf8_length_grows: "wtf8_length_from p n = Some r \<Longrightarrow> 0 \<le> r \<Longrightarrow> int n < r"
proof (induction "length p" arbitrary: p n rule: less_induct)
  case less
  from less.prems show ?case
  proof (rule wtf8_length_unfold)
    fix c q and k :: nat
    assume d: "uv__wtf8_decode1 p = Some (c, q)" "k = (if c > 0xFFFF then 2 else 1)"
      "hd q = 0 \<and> r = int (n + k) \<or> hd q \<noteq> 0 \<and> wtf8_length_from (tl q) (n + k) = Some r"
    have "int (n + k) < r" if "wtf8_length_from (tl q) (n + k) = Some r"
      by (rule less.hyps [OF _ that less.prems(2)]) (use wtf8_decode1_tl [OF d(1)] in simp)
    with d(2,3) show ?thesis by (auto split: if_splits)
  qed
qed

lemma wtf8_to_utf16_in_bounds:
  "wtf8_length_from p k = Some r \<Longrightarrow> 0 \<le> r \<Longrightarrow> length out \<le> k \<Longrightarrow> nat r \<le> cap \<Longrightarrow>
   wtf8_to_utf16_from p cap n out \<noteq> Inl Overrun"
proof (induction "length p" arbitrary: p k n out rule: less_induct)
  case less
  from less.prems(1,2) show ?case
  proof (rule wtf8_length_unfold)
    fix c q and j :: nat
    assume d: "uv__wtf8_decode1 p = Some (c, q)" "0 \<le> c" "j = (if c > 0xFFFF then 2 else 1)"
      "hd q = 0 \<and> r = int (k + j) \<or> hd q \<noteq> 0 \<and> wtf8_length_from (tl q) (k + j) = Some r"
    have kj: "k + j \<le> cap" using d(4) less.prems(2,4) wtf8_length_grows [of "tl q" "k + j" r] by auto
    show ?thesis
    proof (cases "code_units c")
      case (Inl f)
      then show ?thesis using d(1,2)
        by (subst wtf8_to_utf16_from.simps) (auto simp: code_units_def split: if_splits)
    next
      case (Inr a)
      obtain us m where a: "a = (us, m)" by fastforce
      have "length us \<le> j" using Inr d(3) by (auto simp: a code_units_def split: if_splits)
      then have o: "length (out @ us) \<le> k + j" using less.prems(3) by simp
      have "wtf8_to_utf16_from (tl q) cap (n - m) (out @ us) \<noteq> Inl Overrun"
        if "wtf8_length_from (tl q) (k + j) = Some r"
        by (rule less.hyps [OF _ that less.prems(2) o less.prems(4)])
           (use wtf8_decode1_tl [OF d(1)] in simp)
      then show ?thesis using d(1,2,4) Inr o kj
        by (subst wtf8_to_utf16_from.simps) (auto simp: a emit_def)
    qed
  qed
qed

section \<open>Properties\<close>

text \<open>
  C30: both decoders read back what the encoder of the library writes for a code point: the
  WTF-8 decoder for every code point, surrogates included, the UTF-8 decoder for every scalar
  value; and they leave the pointer behind, and on, its last byte.
\<close>

theorem utf8_roundtrip:
  assumes "0 \<le> c" and "c \<le> 0x10FFFF"
  shows "uv__wtf8_decode1 (wtf8_bytes c @ rest) = Some (c, last (wtf8_bytes c) # rest) \<and>
    (\<not> (0xD800 \<le> c \<and> c \<le> 0xDFFF) \<longrightarrow>
      uv__utf8_decode1 (wtf8_bytes c @ rest) = Some (word_of_int c, rest))"
  using wtf8_decode_encode [OF assms] utf8_decode_encode [OF assms] by blast

theorem utf8_roundtrip_witness:
  "uv__wtf8_decode1 (wtf8_bytes 0x20AC @ [0]) = Some (0x20AC, last (wtf8_bytes 0x20AC) # [0]) \<and>
   uv__utf8_decode1 (wtf8_bytes 0x20AC @ [0]) = Some (word_of_int 0x20AC, [0])"
  using utf8_roundtrip [of "0x20AC" "[0]"] by simp

text \<open>
  C29: converting a zero-terminated UTF-16 string to WTF-8 succeeds with all of its characters,
  the length functions agree with the conversions, and converting back returns the string; but
  if it contains U+10000 or U+10FFFF, an assertion of \<open>uv_wtf8_to_utf16\<close> fails.
\<close>

theorem utf16_wtf8_roundtrip:
  assumes "0 \<notin> set w" and "length w < 2 ^ 63"
  shows "uv_utf16_length_as_wtf8 (w @ [0]) (-1) = Some (length (wtf8 w)) \<and>
    uv_utf16_to_wtf8 True (w @ [0]) (-1) Null_target None = Some (None, Some (wtf8 w @ [0]), None) \<and>
    uv_wtf8_length_as_utf16 (wtf8 w @ [0]) = Some (int (length w + 1)) \<and>
    uv_wtf8_to_utf16 (wtf8 w @ [0]) (length w + 1) (of_nat (length w + 1)) =
      (if list_all (\<lambda>c. c \<noteq> 0x10000 \<and> c \<noteq> 0x10FFFF) (codes w) then Inr (w @ [0]) else Inl Assertion)"
proof -
  have v: "utf16_at w (w @ [0], -1)" using assms(1) by (auto simp: utf16_at_def)
  have c: "\<And>c. c \<in> set (codes w) \<Longrightarrow> 0 < c \<and> c \<le> 0x10FFFF"
    using code_nonzero [OF assms(1)] code_range by blast
  have l: "uv_wtf8_length_as_utf16 (wtf8 w @ [0]) = Some (int (length w + 1))"
    using wtf8_length_codes [OF c, of "codes w" "[]" 0]
    by (simp add: uv_wtf8_length_as_utf16_def wtf8_def sum_codes)
  have "uv_wtf8_to_utf16 (wtf8 w @ [0]) (length w + 1) (of_nat (length w + 1)) =
      (if list_all (\<lambda>c. \<not> mishandled c) (codes w) then Inr (w @ [0]) else Inl Assertion)"
    using wtf8_to_utf16_codes [OF assms(1), of "[]" "length w + 1" 0 "[]"] assms(2)
    by (simp add: uv_wtf8_to_utf16_def)
  then show ?thesis
    using utf16_length_at [OF v, of 0] utf16_to_new [OF v, of None] l
    by (simp add: uv_utf16_length_as_wtf8_def)
qed

theorem utf16_wtf8_roundtrip_witness:
  "uv_wtf8_to_utf16 (wtf8 [0x61, 0xD800, 0xDC00] @ [0]) (length [0x61, 0xD800, 0xDC00 :: u16] + 1)
     (of_nat (length [0x61, 0xD800, 0xDC00 :: u16] + 1)) =
   (if list_all (\<lambda>c. c \<noteq> 0x10000 \<and> c \<noteq> 0x10FFFF) (codes [0x61, 0xD800, 0xDC00])
    then Inr ([0x61, 0xD800, 0xDC00] @ [0]) else Inl Assertion)"
  by (rule utf16_wtf8_roundtrip [THEN conjunct2, THEN conjunct2, THEN conjunct2]) simp_all

text \<open>
  C33: with a buffer of the caller, \<open>uv_utf16_to_wtf8\<close> never writes more than the buffer and its
  terminator: the whole text when it fits, and otherwise as many bytes of it as fit together
  with \<open>UV_ENOBUFS\<close> and the length needed - except that this length comes out too large, by
  the size of the buffer, when the buffer cuts the very first character.
\<close>

theorem utf16_to_buffer_exact:
  assumes "utf16_at w (src, len)"
  shows "uv_utf16_to_wtf8 a src len Buffer_target (Some n) =
    (if length (wtf8 w) \<le> n then Some (None, Some (wtf8 w @ [0]), Some (length (wtf8 w)))
     else Some (Some UV_ENOBUFS, Some (take n (wtf8 w) @ [0]),
       Some (if 0 < n \<and> n < length (wtf8_bytes (hd (codes w))) then n + length (wtf8 w)
             else length (wtf8 w))))"
  by (rule utf16_to_buffer [OF assms])

theorem utf16_to_buffer_exact_witness:
  "uv_utf16_to_wtf8 True [0xE9, 0x61] 2 Buffer_target (Some 1) =
    (if length (wtf8 [0xE9, 0x61]) \<le> 1
     then Some (None, Some (wtf8 [0xE9, 0x61] @ [0]), Some (length (wtf8 [0xE9, 0x61])))
     else Some (Some UV_ENOBUFS, Some (take 1 (wtf8 [0xE9, 0x61]) @ [0]),
       Some (if 0 < (1 :: nat) \<and> 1 < length (wtf8_bytes (hd (codes [0xE9, 0x61])))
             then 1 + length (wtf8 [0xE9, 0x61]) else length (wtf8 [0xE9, 0x61]))))"
  by (rule utf16_to_buffer_exact) (simp add: utf16_at_def)

text \<open>
  C32: on any NUL-terminated bytes, well formed or not, \<open>uv_wtf8_length_as_utf16\<close> returns
  without leaving the buffer; and if it does not report an error, \<open>uv_wtf8_to_utf16\<close> stays
  inside a target buffer of the length it has returned.
\<close>

theorem wtf8_to_utf16_safe:
  assumes "0 \<in> set s"
  shows "\<exists>r. uv_wtf8_length_as_utf16 s = Some r \<and>
    (r < 0 \<or> uv_wtf8_to_utf16 s (nat r) (of_int r) \<noteq> Inl Overrun)"
proof -
  obtain r where r: "wtf8_length_from s 0 = Some r" using wtf8_length_total [OF assms] by blast
  then show ?thesis
    using wtf8_to_utf16_in_bounds [OF r, of "[]" "nat r"]
    by (auto simp: uv_wtf8_length_as_utf16_def uv_wtf8_to_utf16_def)
qed

theorem wtf8_to_utf16_safe_witness:
  "\<exists>r. uv_wtf8_length_as_utf16 [0xE2, 0x82, 0xAC, 0xFF, 0] = Some r \<and>
    (r < 0 \<or> uv_wtf8_to_utf16 [0xE2, 0x82, 0xAC, 0xFF, 0] (nat r) (of_int r) \<noteq> Inl Overrun)"
  by (rule wtf8_to_utf16_safe) simp

text \<open>
  Two sequences that are no UTF-8 and that the decoder accepts: one cut off after the second
  byte, which the switch decodes in a shorter form, and one whose continuation bytes are ASCII,
  which the combined test of the top bits lets pass.
\<close>

lemma utf8_accepts_malformed:
  "uv__utf8_decode1 [0xE2, 0x80] = Some (0x80, [])"
  "uv__utf8_decode1 [0xE1, 0x41, 0x42] = Some (0x1042, [])"
  by code_simp+

end
