(* ===== verification/Idna.thy ===== *)
theory Idna
  imports Utf8
begin

unbundle bit_operations_syntax

text \<open>
  The host name encoder of \<^verbatim>\<open>idna.c\<close>: \<open>uv__idna_toascii\<close> splits a name at its dots and writes
  each label in Punycode. The output pointer \<open>d\<close> and its bound \<open>de\<close> are the bytes written so
  far and the capacity. The loops over a label decode it again each time; since they do not
  write to it, they are recursions over the list of the values that the calls of
  \<open>uv__utf8_decode1\<close> return. All arithmetic is on \<open>unsigned\<close>, that is on 32-bit words.
\<close>

section \<open>Reading a label\<close>

function decode_all :: "u8 list \<Rightarrow> u32 list" where
  "decode_all s =
     (case uv__utf8_decode1 s of None \<Rightarrow> [] | Some (c, p) \<Rightarrow> c # decode_all p)"
  by pat_completeness auto
termination
  by (relation "measure length") (auto dest: utf8_decode1_shorter)

declare decode_all.simps [simp del]

text \<open>The first loop: the numbers of ASCII and of other characters, or a decoding error.\<close>

fun count_label :: "u32 list \<Rightarrow> u32 \<Rightarrow> u32 \<Rightarrow> (u32 \<times> u32) option" where
  "count_label [] h todo = Some (h, todo)"
| "count_label (c # cs) h todo =
     (if c = UINT_MAX then None
      else if c < 128 then count_label cs (h + 1) todo
      else count_label cs h (todo + 1))"

section \<open>Writing\<close>

definition put :: "nat \<Rightarrow> u8 list \<Rightarrow> u8 \<Rightarrow> u8 list" where
  "put de d c = (if length d < de then d @ [c] else d)"

definition put_all :: "nat \<Rightarrow> u8 list \<Rightarrow> u8 list \<Rightarrow> u8 list" where
  "put_all de d cs = fold (\<lambda>c d. put de d c) cs d"

fun write_ascii :: "nat \<Rightarrow> u32 \<Rightarrow> u32 list \<Rightarrow> u32 \<Rightarrow> u8 list \<Rightarrow> u8 list" where
  "write_ascii de h [] x d = d"
| "write_ascii de h (c # cs) x d =
     (if c > 127 then write_ascii de h cs x d
      else
        let d = put de d (ucast c); x = x + 1
        in if x = h then d else write_ascii de h cs x d)"

text \<open>The digits of a delta, in the alphabet \<^verbatim>\<open>a..z0..9\<close>.\<close>

definition alphabet :: "u32 \<Rightarrow> u8" where
  "alphabet t = of_char (''abcdefghijklmnopqrstuvwxyz0123456789'' ! unat t)"

definition threshold :: "u32 \<Rightarrow> u32 \<Rightarrow> u32" where
  "threshold k bias =
     (let t = 1; t = (if k > bias then k - bias else t)
      in if t > 26 then 26 else t)"

lemma threshold_range: "1 \<le> unat (threshold k bias)" "unat (threshold k bias) \<le> 26"
  unfolding threshold_def Let_def
  by (auto simp: word_less_nat_alt unat_sub_if' not_less)

function write_delta :: "nat \<Rightarrow> u32 \<Rightarrow> u32 \<Rightarrow> u32 \<Rightarrow> u8 list \<Rightarrow> u8 list" where
  "write_delta de bias k q d =
     (let t = threshold k bias
      in if q < t then put de d (alphabet q)
         else
           let x = q - t; y = 36 - t; q = x div y; t = t + x mod y
           in write_delta de bias (k + 36) q (put de d (alphabet t)))"
  by pat_completeness auto
termination
proof (relation "measure (\<lambda>(de, bias, k, q, d). unat q)", goal_cases)
  case (2 de bias k q d t x y q' t')
  then have t: "unat t \<le> unat q" "1 \<le> unat t" "unat t \<le> 26"
    using threshold_range by (simp_all add: word_less_nat_alt not_less)
  then have "unat y = 36 - unat t" "unat x = unat q - unat t"
    using 2 by (simp_all add: unat_sub_if')
  moreover have "unat q' = unat x div unat y" using 2 by (simp add: unat_div)
  ultimately have "unat q' \<le> unat q - unat t" by (metis div_le_dividend)
  also have "\<dots> < unat q" using t by simp
  finally show ?case by simp
qed simp

declare write_delta.simps [simp del]

section \<open>Encoding a label\<close>

text \<open>The least code point not below \<open>n\<close>, from \<open>m = -1\<close>.\<close>

fun least_from :: "u32 \<Rightarrow> u32 list \<Rightarrow> u32 \<Rightarrow> u32" where
  "least_from n [] m = m"
| "least_from n (c # cs) m =
     (if c \<ge> n then (if c < m then least_from n cs c else least_from n cs m)
      else least_from n cs m)"

function shrink :: "u32 \<Rightarrow> u32 \<Rightarrow> u32 \<times> u32" where
  "shrink bias delta =
     (if delta > 35 * 26 div 2 then shrink (bias + 36) (delta div 35) else (bias, delta))"
  by pat_completeness auto
termination
  by (relation "measure (\<lambda>(bias, delta). unat delta)") (auto simp: word_less_nat_alt unat_div)

declare shrink.simps [simp del]

text \<open>What the loops over a label update: \<open>h\<close>, \<open>bias\<close>, \<open>delta\<close>, \<open>first\<close>, \<open>todo\<close> and \<open>d\<close>.\<close>

record enc =
  eh :: u32
  ebias :: u32
  edelta :: u32
  efirst :: bool
  etodo :: u32
  ed :: "u8 list"

text \<open>What happens at an occurrence of the current code point.\<close>

definition write_code :: "nat \<Rightarrow> enc \<Rightarrow> enc" where
  "write_code de e =
     (let d = write_delta de (ebias e) 36 (edelta e) (ed e);
          delta = edelta e div 2;
          delta = (if efirst e then delta div 350 else delta);
          h = eh e + 1;
          delta = delta + delta div h;
          (bias, delta) = shrink 0 delta;
          bias = bias + 36 * delta div (delta + 38)
      in \<lparr>eh = h, ebias = bias, edelta = 0, efirst = False, etodo = etodo e - 1, ed = d\<rparr>)"

fun encode_pass :: "nat \<Rightarrow> u32 \<Rightarrow> u32 list \<Rightarrow> enc \<Rightarrow> enc option" where
  "encode_pass de n [] e = Some e"
| "encode_pass de n (c # cs) e =
     (if c < n then
        if edelta e + 1 = 0 then None
        else encode_pass de n cs (e\<lparr>edelta := edelta e + 1\<rparr>)
      else if c \<noteq> n then encode_pass de n cs e
      else encode_pass de n cs (write_code de e))"

text \<open>
  The outer loop ends when \<open>todo\<close> has reached zero. The inner option is \<open>UV_E2BIG\<close>, the
  outer one a loop that never returns.
\<close>

partial_function (option) encode_loop :: "nat \<Rightarrow> u32 list \<Rightarrow> u32 \<Rightarrow> enc \<Rightarrow> enc option option" where
  "encode_loop de cs n e =
     (if \<not> etodo e > 0 then Some (Some e)
      else
        let m = least_from n cs (-1);
            x = m - n;
            y = eh e + 1
        in if x > NOT (edelta e) div y then Some None
           else
             let e = e\<lparr>edelta := edelta e + x * y\<rparr>; n = m
             in (case encode_pass de n cs e of
                   None \<Rightarrow> Some None
                 | Some e \<Rightarrow> encode_loop de cs (n + 1) (e\<lparr>edelta := edelta e + 1\<rparr>)))"

declare encode_loop.simps [code]

text \<open>
  \<open>uv__idna_toascii_label\<close>: an error or the result as an \<open>int\<close>, with the output; \<open>None\<close> if it
  does not return. The error \<open>UV_E2BIG\<close> also leaves what has been written.
\<close>

definition uv__idna_toascii_label :: "nat \<Rightarrow> u8 list \<Rightarrow> u8 list \<Rightarrow> (uv_errno + int \<times> u8 list) option" where
  "uv__idna_toascii_label de s d =
     (let cs = decode_all s
      in case count_label cs 0 0 of
           None \<Rightarrow> Some (Inl UV_EINVAL)
         | Some (h, todo) \<Rightarrow>
             let d = (if todo > 0 then put_all de d (map of_char ''xn--'') else d);
                 d = write_ascii de h cs 0 d
             in if todo = 0 then Some (Inr (sint h, d))
                else
                  let d = (if h > 0 then put de d (of_char CHR ''-'') else d)
                  in map_option (\<lambda>r. case r of None \<Rightarrow> Inl UV_E2BIG | Some e \<Rightarrow> Inr (0, ed e))
                       (encode_loop de cs 128
                         \<lparr>eh = h, ebias = 72, edelta = 0, efirst = True, etodo = todo, ed = d\<rparr>))"

section \<open>Encoding a name\<close>

definition is_dot :: "u32 \<Rightarrow> bool" where
  "is_dot c \<longleftrightarrow> c = of_char CHR ''.'' \<or> c = 0x3002 \<or> c = 0xFF0E \<or> c = 0xFF61"

text \<open>
  The loop of \<open>uv__idna_toascii\<close>: \<open>label\<close> are the bytes from \<open>s\<close> to \<open>si\<close>, \<open>si\<close> the bytes that
  are left. The result is the last label, still to be written, and the output.
\<close>

function toascii_loop :: "nat \<Rightarrow> u8 list \<Rightarrow> u8 list \<Rightarrow> u8 list \<Rightarrow> (uv_errno + int \<times> u8 list \<times> u8 list) option" where
  "toascii_loop de label si d =
     (case uv__utf8_decode1 si of
        None \<Rightarrow> Some (Inr (0, label, d))
      | Some (c, p) \<Rightarrow>
          if c = UINT_MAX then Some (Inl UV_EINVAL)
          else if \<not> is_dot c then toascii_loop de (label @ take (length si - length p) si) p d
          else
            (case uv__idna_toascii_label de label d of
               None \<Rightarrow> None
             | Some (Inl err) \<Rightarrow> Some (Inl err)
             | Some (Inr (rc, d)) \<Rightarrow>
                 if rc < 0 then Some (Inr (rc, [], d))
                 else toascii_loop de [] p (put de d (of_char CHR ''.''))))"
  by pat_completeness auto
termination
  by (relation "measure (\<lambda>(de, label, si, d). length si)") (auto dest: utf8_decode1_shorter)

declare toascii_loop.simps [simp del]

definition uv__idna_toascii :: "u8 list \<Rightarrow> nat \<Rightarrow> (uv_errno + int \<times> u8 list) option" where
  "uv__idna_toascii s de =
     (if s = [] then Some (Inl UV_EINVAL)
      else
        (case toascii_loop de [] s [] of
           None \<Rightarrow> None
         | Some (Inl err) \<Rightarrow> Some (Inl err)
         | Some (Inr (rc, label, d)) \<Rightarrow>
             if rc < 0 then Some (Inr (rc, d))
             else
               (case (if label \<noteq> [] then uv__idna_toascii_label de label d else Some (Inr (0, d))) of
                  None \<Rightarrow> None
                | Some (Inl err) \<Rightarrow> Some (Inl err)
                | Some (Inr (rc, d)) \<Rightarrow>
                    if rc < 0 then Some (Inr (rc, d))
                    else if length d \<ge> de then Some (Inl UV_EINVAL)
                    else let d = d @ [0] in Some (Inr (int (length d), d)))))"

section \<open>Room in the output\<close>

lemma put_room: "length d \<le> de \<Longrightarrow> length (put de d c) \<le> de"
  by (simp add: put_def)

lemma put_all_room: "length d \<le> de \<Longrightarrow> length (put_all de d cs) \<le> de"
  unfolding put_all_def by (induction cs arbitrary: d) (auto simp: put_room)

lemma write_ascii_room: "length d \<le> de \<Longrightarrow> length (write_ascii de h cs x d) \<le> de"
  by (induction cs arbitrary: x d) (auto simp: put_room Let_def)

lemma write_delta_room: "length d \<le> de \<Longrightarrow> length (write_delta de bias k q d) \<le> de"
proof (induction de bias k q d rule: write_delta.induct)
  case (1 de bias k q d)
  show ?case
  proof (cases "q < threshold k bias")
    case True
    then show ?thesis using 1(2) by (subst write_delta.simps) (simp add: Let_def put_room)
  next
    case False
    from 1(1) [OF refl False refl refl refl refl] 1(2) False show ?thesis
      by (subst write_delta.simps) (simp add: Let_def put_room)
  qed
qed

lemma write_code_effect:
  "etodo (write_code de e) = etodo e - 1"
  "length (ed e) \<le> de \<Longrightarrow> length (ed (write_code de e)) \<le> de"
  by (simp_all add: write_code_def Let_def case_prod_beta write_delta_room)

lemma encode_pass_effect:
  assumes "encode_pass de n cs e = Some e'"
  shows "etodo e' = etodo e - of_nat (count_list cs n)"
    and "length (ed e) \<le> de \<Longrightarrow> length (ed e') \<le> de"
  using assms
proof (induction cs arbitrary: e)
  case (Cons c cs)
  {
    case 1
    then show ?case using Cons.IH(1) [of "write_code de e"] Cons.IH(1) [of e]
        Cons.IH(1) [of "e\<lparr>edelta := edelta e + 1\<rparr>"]
      by (auto simp: write_code_effect split: if_splits)
  next
    case 2
    then show ?case using Cons.IH(2) [of "write_code de e"] Cons.IH(2) [of e]
        Cons.IH(2) [of "e\<lparr>edelta := edelta e + 1\<rparr>"]
      by (auto simp: write_code_effect split: if_splits)
  }
qed auto

section \<open>The encoder returns\<close>

lemma least_from_min:
  "least_from n cs m \<le> m" "c \<in> set cs \<Longrightarrow> n \<le> c \<Longrightarrow> least_from n cs m \<le> c"
  "least_from n cs m = m \<or> least_from n cs m \<in> set cs \<and> n \<le> least_from n cs m"
proof (induction cs arbitrary: m)
  case (Cons a cs)
  { case 1 then show ?case using Cons(1) [of m] Cons(1) [of a] by (auto intro: less_imp_le le_less_trans)
  next case 2 then show ?case using Cons(1) [of m] Cons(1) [of a] Cons(2) [of m] Cons(2) [of a] by (auto simp: not_less intro: order_trans)
  next case 3 then show ?case using Cons(3) [of m] Cons(3) [of a] by auto }
qed simp_all

definition above :: "u32 \<Rightarrow> u32 list \<Rightarrow> u32 list" where
  "above n cs = filter (\<lambda>c. n \<le> c) cs"

lemma encode_loop_returns:
  assumes "\<forall>c \<in> set cs. c \<le> 0x10FFFF"
  shows "etodo e = of_nat (length (above n cs)) \<Longrightarrow> length (ed e) \<le> de \<Longrightarrow>
    \<exists>r. encode_loop de cs n e = Some r \<and> (\<forall>e'. r = Some e' \<longrightarrow> length (ed e') \<le> de)"
proof (induction "length (above n cs)" arbitrary: n e rule: less_induct)
  case less
  show ?case
  proof (cases "etodo e > 0")
    case False
    then show ?thesis using less.prems by (subst encode_loop.simps) auto
  next
    case True
    then have "above n cs \<noteq> []" using less.prems(1) by auto
    then obtain c where c: "c \<in> set cs" "n \<le> c" by (auto simp: above_def filter_empty_conv)
    define m where "m = least_from n cs (-1)"
    have "m \<le> c" unfolding m_def by (rule least_from_min(2) [OF c])
    moreover have "c \<le> 0x10FFFF" using assms c(1) by blast
    ultimately have m_le: "m \<le> 0x10FFFF" by (rule order_trans)
    moreover have "\<not> (-1 :: u32) \<le> 0x10FFFF" by code_simp
    ultimately have "m \<noteq> -1" by blast
    then have m: "m \<in> set cs" "n \<le> m" using least_from_min(3) [of n cs "-1"] by (auto simp: m_def)
    have least: "m \<le> c" if "c \<in> set cs" "n \<le> c" for c
      unfolding m_def by (rule least_from_min(2) [OF that])
    have suc: "m + 1 \<le> c \<longleftrightarrow> m < c" for c
      using m_le by (auto simp: word_le_nat_alt word_less_nat_alt unat_word_ariths)
    have "length (above n cs) = count_list cs m + length (above (m + 1) cs)"
    proof -
      have "length (filter (\<lambda>c. n \<le> c) xs) = count_list xs m + length (filter (\<lambda>c. m + 1 \<le> c) xs)"
        if "set xs \<subseteq> set cs" for xs
        using that
      proof (induction xs)
        case (Cons x xs)
        then show ?case using least [of x] m(2) by (auto simp: suc)
      qed simp
      then show ?thesis by (simp add: above_def)
    qed
    moreover have "count_list cs m \<noteq> 0" using m(1) by (simp add: count_list_0_iff)
    ultimately have dec: "length (above (m + 1) cs) < length (above n cs)"
      "of_nat (length (above (m + 1) cs)) = (etodo e - of_nat (count_list cs m) :: u32)"
      using less.prems(1) by simp_all
    let ?e = "e\<lparr>edelta := edelta e + (m - n) * (eh e + 1)\<rparr>"
    show ?thesis
    proof (cases "m - n > NOT (edelta e) div (eh e + 1)")
      case True
      then show ?thesis using \<open>etodo e > 0\<close>
        by (subst encode_loop.simps) (simp add: m_def [symmetric] Let_def)
    next
      case no: False
      show ?thesis
      proof (cases "encode_pass de m cs ?e")
        case None
        then show ?thesis using \<open>etodo e > 0\<close> no
          by (subst encode_loop.simps) (simp add: m_def [symmetric] Let_def)
      next
        case (Some e1)
        note eff = encode_pass_effect [OF Some]
        have "\<exists>r. encode_loop de cs (m + 1) (e1\<lparr>edelta := edelta e1 + 1\<rparr>) = Some r \<and>
          (\<forall>e'. r = Some e' \<longrightarrow> length (ed e') \<le> de)"
          by (rule less.hyps) (use dec eff less.prems(2) in simp_all)
        then show ?thesis using \<open>etodo e > 0\<close> no Some
          by (subst encode_loop.simps) (simp add: m_def [symmetric] Let_def)
      qed
    qed
  qed
qed

lemma utf8_decode1_range:
  "uv__utf8_decode1 s = Some (c, p) \<Longrightarrow> c = UINT_MAX \<or> c \<le> 0x10FFFF"
  by (cases s)
     (auto simp: uv__utf8_decode1_slow_def Let_def not_less intro: less_imp_le [THEN order_trans]
       split: if_splits option.splits)

lemma decode_all_range: "\<forall>c \<in> set (decode_all s). c = UINT_MAX \<or> c \<le> 0x10FFFF"
proof (induction s rule: decode_all.induct)
  case (1 s)
  show ?case
  proof (cases "uv__utf8_decode1 s")
    case None
    then show ?thesis by (subst decode_all.simps) simp
  next
    case (Some a)
    obtain c p where a: "a = (c, p)" by fastforce
    with 1 Some show ?thesis using utf8_decode1_range [of s c p] by (subst decode_all.simps) simp
  qed
qed

lemma length_decode_all: "length (decode_all s) \<le> length s"
proof (induction s rule: decode_all.induct)
  case (1 s)
  show ?case
  proof (cases "uv__utf8_decode1 s")
    case None
    then show ?thesis by (subst decode_all.simps) simp
  next
    case (Some a)
    obtain c p where a: "a = (c, p)" by fastforce
    have "length (decode_all p) \<le> length p" using 1 Some a by blast
    then show ?thesis using utf8_decode1_shorter Some a by (subst decode_all.simps) fastforce
  qed
qed

lemma count_label_counts:
  "count_label cs h todo = Some (h', todo') \<Longrightarrow> \<forall>c \<in> set cs. c = UINT_MAX \<or> c \<le> 0x10FFFF \<Longrightarrow>
   todo' = todo + of_nat (length (above 128 cs)) \<and> h' = h + of_nat (length (filter (\<lambda>c. c < 128) cs)) \<and>
   (\<forall>c \<in> set cs. c \<le> 0x10FFFF)"
proof (induction cs arbitrary: h todo)
  case (Cons c cs)
  then show ?case using Cons.IH [of "h + 1" todo] Cons.IH [of h "todo + 1"]
    by (auto simp: above_def not_less add.assoc split: if_splits)
qed (simp add: above_def)

lemma label_returns:
  assumes "length s < 2 ^ 31" "length d \<le> de"
  obtains err where "uv__idna_toascii_label de s d = Some (Inl err)" "err \<in> {UV_EINVAL, UV_E2BIG}"
  | rc d' where "uv__idna_toascii_label de s d = Some (Inr (rc, d'))" "0 \<le> rc" "length d' \<le> de"
proof (cases "count_label (decode_all s) 0 0")
  case None
  then have "uv__idna_toascii_label de s d = Some (Inl UV_EINVAL)" by (simp add: uv__idna_toascii_label_def)
  then show thesis using that(1) by blast
next
  case (Some a)
  obtain h todo where a: "a = (h, todo)" by fastforce
  let ?cs = "decode_all s"
  have c: "todo = of_nat (length (above 128 ?cs))" "h = of_nat (length (filter (\<lambda>c. c < 128) ?cs))"
    "\<forall>c \<in> set ?cs. c \<le> 0x10FFFF"
    using count_label_counts [OF Some [unfolded a]] decode_all_range by auto
  have "length (filter (\<lambda>c. c < 128) ?cs) < 2 ^ 31"
    using length_filter_le [of "\<lambda>c. c < 128" ?cs] length_decode_all [of s] assms(1) by linarith
  then have h: "0 \<le> sint h" unfolding c(2)
    by (simp add: signed_of_nat signed_take_bit_int_eq_self)
  define d1 where "d1 = (if todo > 0 then put_all de d (map of_char ''xn--'') else d)"
  define d2 where "d2 = write_ascii de h ?cs 0 d1"
  define d3 where "d3 = (if h > 0 then put de d2 (of_char CHR ''-'') else d2)"
  have room: "length d2 \<le> de" "length d3 \<le> de"
    using assms(2) by (simp_all add: d3_def d2_def d1_def put_room put_all_room write_ascii_room)
  have eq: "uv__idna_toascii_label de s d =
    (if todo = 0 then Some (Inr (sint h, d2))
     else map_option (\<lambda>r. case r of None \<Rightarrow> Inl UV_E2BIG | Some e \<Rightarrow> Inr (0, ed e))
       (encode_loop de ?cs 128 \<lparr>eh = h, ebias = 72, edelta = 0, efirst = True, etodo = todo, ed = d3\<rparr>))"
    by (simp only: uv__idna_toascii_label_def Some a Let_def option.case prod.case d1_def [symmetric]
        d2_def [symmetric] d3_def [symmetric])
  show thesis
  proof (cases "todo = 0")
    case True
    with that(2) eq h room show thesis by simp
  next
    case False
    obtain r where r: "encode_loop de ?cs 128 \<lparr>eh = h, ebias = 72, edelta = 0, efirst = True, etodo = todo, ed = d3\<rparr> = Some r"
      "\<forall>e'. r = Some e' \<longrightarrow> length (ed e') \<le> de"
      using encode_loop_returns [OF c(3), of "\<lparr>eh = h, ebias = 72, edelta = 0, efirst = True, etodo = todo, ed = d3\<rparr>" 128 de] c(1) room
      by auto
    with that eq False show thesis by (cases r) auto
  qed
qed

lemma toascii_loop_returns:
  "length label + length si < 2 ^ 31 \<Longrightarrow> length d \<le> de \<Longrightarrow>
   (\<exists>err. toascii_loop de label si d = Some (Inl err) \<and> err \<in> {UV_EINVAL, UV_E2BIG}) \<or>
   (\<exists>l d'. toascii_loop de label si d = Some (Inr (0, l, d')) \<and> length l < 2 ^ 31 \<and> length d' \<le> de)"
proof (induction "length si" arbitrary: label si d rule: less_induct)
  case less
  show ?case
  proof (cases "uv__utf8_decode1 si")
    case None
    then show ?thesis using less.prems by (subst (1 2) toascii_loop.simps) auto
  next
    case (Some a)
    obtain c p where a: "a = (c, p)" by fastforce
    have p: "length p < length si" using utf8_decode1_shorter Some a by blast
    have 1: "toascii_loop de label si d =
      (if c = UINT_MAX then Some (Inl UV_EINVAL)
       else if \<not> is_dot c then toascii_loop de (label @ take (length si - length p) si) p d
       else
         (case uv__idna_toascii_label de label d of None \<Rightarrow> None | Some (Inl err) \<Rightarrow> Some (Inl err)
          | Some (Inr (rc, d)) \<Rightarrow> if rc < 0 then Some (Inr (rc, [], d))
              else toascii_loop de [] p (put de d (of_char CHR ''.''))))"
      by (subst toascii_loop.simps) (simp add: Some a)
    show ?thesis
    proof (cases "c = UINT_MAX \<or> \<not> is_dot c")
      case True
      have "length (label @ take (length si - length p) si) + length p < 2 ^ 31"
        using less.prems(1) p by simp
      from less.hyps [OF p this less.prems(2)] show ?thesis using True by (auto simp: 1)
    next
      case False
      have "length label < 2 ^ 31" using less.prems(1) by simp
      then show ?thesis using less.prems(2)
      proof (rule label_returns)
        fix rc d' assume l: "uv__idna_toascii_label de label d = Some (Inr (rc, d'))" "0 \<le> rc" "length d' \<le> de"
        have "length ([] :: u8 list) + length p < 2 ^ 31" using less.prems(1) p by simp
        from less.hyps [OF p this put_room [OF l(3), of "of_char CHR ''.''"]] show ?thesis
          using l False by (simp add: 1)
      qed (use False in \<open>auto simp: 1\<close>)
    qed
  qed
qed

section \<open>ASCII names\<close>

lemma decode_all_ascii: "\<forall>b \<in> set s. b < 128 \<Longrightarrow> decode_all s = map ucast s"
proof (induction s)
  case (Cons b s)
  have "(ucast b :: u32) < 128" using Cons.prems by (simp add: word_less_def uint_wide)
  with Cons show ?case by (subst decode_all.simps) (simp add: Let_def)
qed (simp add: decode_all.simps)

lemma ascii_wide: "b < 128 \<Longrightarrow> (ucast b :: u32) < 128 \<and> ucast b \<noteq> UINT_MAX" for b :: u8
  by (auto simp: word_less_def uint_wide dest: arg_cong [of _ _ uint])

lemma count_label_ascii:
  "\<forall>b \<in> set s. b < 128 \<Longrightarrow> count_label (map ucast s) h todo = Some (h + of_nat (length s), todo)"
  for s :: "u8 list"
  by (induction s arbitrary: h) (auto simp: ascii_wide)

lemma write_ascii_all:
  "\<forall>b \<in> set s. b < 128 \<Longrightarrow> i + length s < 2 ^ 32 \<Longrightarrow>
   write_ascii de (of_nat (i + length s)) (map ucast s) (of_nat i) d = put_all de d s"
  for s :: "u8 list"
proof (induction s arbitrary: i d)
  case (Cons b s)
  have b: "\<not> (ucast b :: u32) > 127" using Cons.prems(1) by (simp add: word_less_def uint_wide)
  have n: "(of_nat i + 1 :: u32) = of_nat (i + length (b # s)) \<longleftrightarrow> s = []"
  proof -
    have "(of_nat (i + 1) :: u32) = of_nat (i + length (b # s)) \<longleftrightarrow> i + 1 = i + length (b # s)"
      using Cons.prems(2) by (metis add_leD1 le_less_trans length_Cons less_imp_le add_less_cancel_left unat_of_nat_u32 nat_add_left_cancel_le One_nat_def le_add1 plus_1_eq_Suc add_le_cancel_left Suc_le_mono zero_le)
    then show ?thesis by simp
  qed
  have "ucast (ucast b :: u32) = b" by (rule bit_word_eqI) (simp add: bit_simps)
  then show ?case using b n Cons.IH [of "i + 1" "put de d b"] Cons.prems
    by (simp add: Let_def put_all_def add.commute)
qed (simp add: put_all_def)

lemma label_ascii:
  assumes "\<forall>b \<in> set s. b < 128" "length s < 2 ^ 31"
  shows "uv__idna_toascii_label de s d = Some (Inr (int (length s), put_all de d s))"
proof -
  have "sint (of_nat (length s) :: u32) = int (length s)"
    using assms(2) by (simp add: signed_of_nat signed_take_bit_int_eq_self)
  then show ?thesis
    using write_ascii_all [OF assms(1), of 0 de d] assms(2)
    by (simp add: uv__idna_toascii_label_def decode_all_ascii [OF assms(1)] count_label_ascii [OF assms(1)])
qed

lemma put_all_append: "put_all de d (xs @ ys) = put_all de (put_all de d xs) ys"
  by (simp add: put_all_def)

lemma put_all_take: "length d \<le> de \<Longrightarrow> put_all de d xs = take de (d @ xs)"
  by (induction xs arbitrary: d) (auto simp: put_all_def put_def take_Cons')

lemma is_dot_ascii: "b < 128 \<Longrightarrow> is_dot (ucast b) \<longleftrightarrow> b = of_char CHR ''.''" for b :: u8
proof -
  have "b < 128 \<longrightarrow> (is_dot (ucast b) \<longleftrightarrow> b = of_char CHR ''.'')" by (rule all_u8) code_simp
  then show "b < 128 \<Longrightarrow> is_dot (ucast b) \<longleftrightarrow> b = of_char CHR ''.''" by blast
qed

lemma toascii_loop_ascii:
  "\<forall>b \<in> set (label @ si). b < 128 \<Longrightarrow> length label + length si < 2 ^ 31 \<Longrightarrow>
   \<exists>l d'. toascii_loop de label si d = Some (Inr (0, l, d')) \<and> (\<forall>b \<in> set l. b < 128) \<and>
     length l < 2 ^ 31 \<and> put_all de d' l = put_all de d (label @ si)"
proof (induction si arbitrary: label d)
  case Nil
  then show ?case by (subst toascii_loop.simps) simp
next
  case (Cons b si)
  have b: "b < 128" using Cons.prems(1) by simp
  have 1: "uv__utf8_decode1 (b # si) = Some (ucast b, si)" using ascii_wide [OF b] by (simp add: Let_def)
  show ?case
  proof (cases "b = of_char CHR ''.''")
    case True
    have "uv__idna_toascii_label de label d = Some (Inr (int (length label), put_all de d label))"
      using Cons.prems by (intro label_ascii) auto
    then have "toascii_loop de label (b # si) d = toascii_loop de [] si (put de (put_all de d label) b)"
      using 1 ascii_wide [OF b] is_dot_ascii [OF b] True by (subst toascii_loop.simps) simp
    moreover have "put_all de (put de (put_all de d label) b) si = put_all de d (label @ b # si)"
      by (simp add: put_all_def)
    ultimately show ?thesis
      using Cons.IH [of "[]" "put de (put_all de d label) b"] Cons.prems by simp
  next
    case False
    then have "toascii_loop de label (b # si) d = toascii_loop de (label @ [b]) si d"
      using 1 ascii_wide [OF b] is_dot_ascii [OF b] by (subst toascii_loop.simps) simp
    then show ?thesis using Cons.IH [of "label @ [b]" d] Cons.prems by simp
  qed
qed

section \<open>Properties\<close>

text \<open>
  C31: for every input shorter than \<open>2 ^ 31\<close> bytes, well formed or not, and every capacity,
  \<open>uv__idna_toascii\<close> returns; it writes at most the capacity, and unless it reports
  \<open>UV_EINVAL\<close> or \<open>UV_E2BIG\<close> it returns the number of bytes written, the last of them the NUL.
\<close>

theorem toascii_returns:
  assumes "length s < 2 ^ 31"
  shows "\<exists>r. uv__idna_toascii s de = Some r \<and>
    (case r of Inl err \<Rightarrow> err \<in> {UV_EINVAL, UV_E2BIG}
     | Inr (n, d) \<Rightarrow> n = int (length d) \<and> 0 < n \<and> length d \<le> de \<and> last d = 0)"
proof (cases "s = []")
  case True
  then show ?thesis by (simp add: uv__idna_toascii_def)
next
  case False
  have "length ([] :: u8 list) + length s < 2 ^ 31" "length ([] :: u8 list) \<le> de" using assms by simp_all
  from toascii_loop_returns [OF this] show ?thesis
  proof (elim disjE exE conjE)
    fix l d assume t: "toascii_loop de [] s [] = Some (Inr (0, l, d))" "length l < 2 ^ 31" "length d \<le> de"
    from t(2,3) show ?thesis
    proof (rule label_returns)
      fix rc d' assume l: "uv__idna_toascii_label de l d = Some (Inr (rc, d'))" "0 \<le> rc" "length d' \<le> de"
      show ?thesis
      proof (cases "l = []")
        case True
        with t False show ?thesis by (simp add: uv__idna_toascii_def Let_def)
      next
        case ln: False
        with t l False show ?thesis by (simp add: uv__idna_toascii_def Let_def)
      qed
    qed (use t False in \<open>auto simp: uv__idna_toascii_def Let_def\<close>)
  qed (use False in \<open>simp add: uv__idna_toascii_def\<close>)
qed

theorem toascii_returns_witness:
  "\<exists>r. uv__idna_toascii [0xC3, 0xBC, 0x2E, 0xFF] 8 = Some r \<and>
    (case r of Inl err \<Rightarrow> err \<in> {UV_EINVAL, UV_E2BIG}
     | Inr (n, d) \<Rightarrow> n = int (length d) \<and> 0 < n \<and> length d \<le> 8 \<and> last d = 0)"
  by (rule toascii_returns) simp

text \<open>
  C39: a name of ASCII characters, dots included, is copied unchanged with its terminator if
  there is room for both, and \<open>UV_EINVAL\<close> is returned if there is not.
\<close>

theorem toascii_ascii:
  assumes "\<forall>b \<in> set s. b < 128" and "s \<noteq> []" and "length s < 2 ^ 31"
  shows "uv__idna_toascii s de =
    Some (if length s < de then Inr (int (length s) + 1, s @ [0]) else Inl UV_EINVAL)"
proof -
  obtain l d where l: "toascii_loop de [] s [] = Some (Inr (0, l, d))" "\<forall>b \<in> set l. b < 128"
    "length l < 2 ^ 31" "put_all de d l = put_all de [] s"
    using toascii_loop_ascii [of "[]" s de "[]"] assms by auto
  have p: "put_all de [] s = take de s" using put_all_take [of "[]" de s] by simp
  have e: "(if l \<noteq> [] then uv__idna_toascii_label de l d else Some (Inr (0, d))) =
    Some (Inr (int (length l), take de s))"
    using label_ascii [OF l(2,3), of de d] l(4) p by (cases "l = []") (simp_all add: put_all_def [of _ _ "[]"])
  show ?thesis
    unfolding uv__idna_toascii_def l(1) option.case sum.case prod.case e
    using assms(2) by simp
qed

theorem toascii_ascii_witness:
  "uv__idna_toascii (map of_char ''a.b'') 4 =
    Some (if length (map of_char ''a.b'' :: u8 list) < 4
      then Inr (int (length (map of_char ''a.b'' :: u8 list)) + 1, map of_char ''a.b'' @ [0])
      else Inl UV_EINVAL)"
  by (rule toascii_ascii) simp_all

text \<open>A label that is not ASCII: a single u umlaut.\<close>

lemma toascii_example:
  "uv__idna_toascii [0xC3, 0xBC] 9 = Some (Inr (8, map of_char ''xn--tda'' @ [0]))"
  by code_simp

end
