(* ===== verification/Inet.thy ===== *)
theory Inet
  imports Strings
begin

unbundle bit_operations_syntax

text \<open>
  \<^verbatim>\<open>inet.c\<close>, the conversions between IP addresses and their text, and their callers
  \<open>uv_ip4_addr\<close>, \<open>uv_ip6_addr\<close>, \<open>uv_ip4_name\<close>, \<open>uv_ip6_name\<close> and \<open>uv_ip_name\<close> of
  \<^verbatim>\<open>uv-common.c\<close>. An address is the list of its bytes in network order. A text that is only
  read is the list of the characters before its NUL; a destination is its buffer. Results are
  an error, \<open>None\<close> for 0, with the destination; the outer option is an access outside a buffer.
\<close>

datatype af = AF_INET | AF_INET6 | AF_unsupported int

section \<open>Printing\<close>

definition ip4_text :: "u8 list \<Rightarrow> string" where
  "ip4_text src =
     print_nat 10 (unat (src ! 0)) @ ''.'' @ print_nat 10 (unat (src ! 1)) @ ''.'' @
     print_nat 10 (unat (src ! 2)) @ ''.'' @ print_nat 10 (unat (src ! 3))"

definition inet_ntop4 ::
  "platform \<Rightarrow> u8 list \<Rightarrow> string \<Rightarrow> nat \<Rightarrow> (uv_errno option \<times> string) option" where
  "inet_ntop4 p src dst sz =
     Option.bind (snprintf (replicate 16 NUL) 16 (ip4_text src))
       (\<lambda>(tmp, l). if l = 0 \<or> l \<ge> sz then Some (Some UV_ENOSPC, dst)
                  else map_option (\<lambda>(d, _). (None, d)) (uv__strscpy p dst tmp sz))"

text \<open>The 16-bit words of an address, and the search for the longest run of zero words.\<close>

definition word_at :: "u8 list \<Rightarrow> nat \<Rightarrow> u32" where
  "word_at src k = push_bit 8 (ucast (src ! (2 * k))) OR ucast (src ! (2 * k + 1))"

definition words_of :: "u8 list \<Rightarrow> u32 list" where
  "words_of src = map (word_at src) [0..<8]"

record run =
  base :: int
  len :: int

fun scan_runs :: "u32 list \<Rightarrow> int \<Rightarrow> run \<times> run \<Rightarrow> run \<times> run" where
  "scan_runs [] i (best, cur) = (best, cur)"
| "scan_runs (w # ws) i (best, cur) =
     (if w = 0 then
        scan_runs ws (i + 1)
          (best, if base cur = -1 then \<lparr>base = i, len = 1\<rparr> else cur\<lparr>len := len cur + 1\<rparr>)
      else if base cur \<noteq> -1 then
        scan_runs ws (i + 1)
          (if base best = -1 \<or> len cur > len best then cur else best, cur\<lparr>base := -1\<rparr>)
      else scan_runs ws (i + 1) (best, cur))"

definition best_run :: "u32 list \<Rightarrow> run" where
  "best_run ws =
     (let (best, cur) = scan_runs ws 0 (\<lparr>base = -1, len = 0\<rparr>, \<lparr>base = -1, len = 0\<rparr>);
          best = (if base cur \<noteq> -1 then
                    if base best = -1 \<or> len cur > len best then cur else best
                  else best)
      in if base best \<noteq> -1 \<and> len best < 2 then best\<lparr>base := -1\<rparr> else best)"

definition in_run :: "run \<Rightarrow> int \<Rightarrow> bool" where
  "in_run best i \<longleftrightarrow> base best \<noteq> -1 \<and> i \<ge> base best \<and> i < base best + len best"

definition embeds_ip4 :: "run \<Rightarrow> u32 list \<Rightarrow> int \<Rightarrow> bool" where
  "embeds_ip4 best words i \<longleftrightarrow> i = 6 \<and> base best = 0 \<and>
     (len best = 6 \<or> len best = 7 \<and> words ! 7 \<noteq> 0x0001 \<or> len best = 5 \<and> words ! 5 = 0xffff)"

text \<open>
  The loop that formats; \<open>tp\<close> is the text written so far. An embedded IPv4 address is
  written by \<open>inet_ntop4\<close> into the rest of \<open>tmp\<close> and ends the loop.
\<close>

fun format6 ::
  "platform \<Rightarrow> run \<Rightarrow> u8 list \<Rightarrow> u32 list \<Rightarrow> u32 list \<Rightarrow> int \<Rightarrow> string \<Rightarrow> (uv_errno option \<times> string) option" where
  "format6 p best src words [] i tp = Some (None, tp)"
| "format6 p best src words (w # ws) i tp =
     (if in_run best i then
        format6 p best src words ws (i + 1) (if i = base best then tp @ '':'' else tp)
      else
        let tp = (if i \<noteq> 0 then tp @ '':'' else tp)
        in if embeds_ip4 best words i then
             map_option (\<lambda>(err, d). if err \<noteq> None then (err, tp) else (None, tp @ c_string d))
               (inet_ntop4 p (drop 12 src) (replicate (46 - length tp) NUL) (46 - length tp))
           else format6 p best src words ws (i + 1) (tp @ print_nat 16 (unat w)))"

definition ip6_text :: "platform \<Rightarrow> u8 list \<Rightarrow> (uv_errno option \<times> string) option" where
  "ip6_text p src =
     (let words = words_of src; best = best_run words
      in map_option
           (\<lambda>(err, tp). (err, if err = None \<and> base best \<noteq> -1 \<and> base best + len best = 8
                             then tp @ '':'' else tp))
           (format6 p best src words words 0 []))"

definition inet_ntop6 ::
  "platform \<Rightarrow> u8 list \<Rightarrow> string \<Rightarrow> nat \<Rightarrow> (uv_errno option \<times> string) option" where
  "inet_ntop6 p src dst sz =
     Option.bind (ip6_text p src)
       (\<lambda>(err, tp).
          if err \<noteq> None then Some (err, dst)
          else
            let tmp = tp @ [NUL]
            in if length tmp > sz then Some (Some UV_ENOSPC, dst)
               else map_option (\<lambda>(d, _). (None, d)) (uv__strscpy p dst tmp sz))"

definition uv_inet_ntop ::
  "platform \<Rightarrow> af \<Rightarrow> u8 list \<Rightarrow> string \<Rightarrow> nat \<Rightarrow> (uv_errno option \<times> string) option" where
  "uv_inet_ntop p af src dst sz =
     (case af of
        AF_INET \<Rightarrow> inet_ntop4 p src dst sz
      | AF_INET6 \<Rightarrow> inet_ntop6 p src dst sz
      | _ \<Rightarrow> Some (Some UV_EAFNOSUPPORT, dst))"

section \<open>Parsing\<close>

text \<open>\<open>strchr\<close> as an index into the string searched.\<close>

definition strchr :: "string \<Rightarrow> char \<Rightarrow> nat option" where
  "strchr s c = (let k = length (takeWhile (\<lambda>d. d \<noteq> c) s) in if k < length s then Some k else None)"

text \<open>
  The bytes \<open>tmp\<close> up to and including \<open>*tp\<close> are the list \<open>done\<close> followed by \<open>cur\<close>.
\<close>

fun pton4_loop :: "string \<Rightarrow> u8 list \<Rightarrow> u8 \<Rightarrow> bool \<Rightarrow> nat \<Rightarrow> uv_errno + u8 list" where
  "pton4_loop [] ds cur saw_digit octets =
     (if octets < 4 then Inl UV_EINVAL else Inr (ds @ [cur]))"
| "pton4_loop (ch # src) ds cur saw_digit octets =
     (case strchr ''0123456789'' ch of
        Some k \<Rightarrow>
          let nw = ucast cur * 10 + of_nat k :: u32
          in if saw_digit \<and> cur = 0 then Inl UV_EINVAL
             else if nw > 255 then Inl UV_EINVAL
             else if \<not> saw_digit then
               (if octets + 1 > 4 then Inl UV_EINVAL
                else pton4_loop src ds (ucast nw) True (octets + 1))
             else pton4_loop src ds (ucast nw) saw_digit octets
      | None \<Rightarrow>
          if ch = CHR ''.'' \<and> saw_digit then
            (if octets = 4 then Inl UV_EINVAL
             else pton4_loop src (ds @ [cur]) 0 False octets)
          else Inl UV_EINVAL)"

definition inet_pton4 :: "string \<Rightarrow> uv_errno + u8 list" where
  "inet_pton4 src = pton4_loop src [] 0 False 0"

definition xdigit :: "char \<Rightarrow> nat option" where
  "xdigit ch =
     (case strchr ''0123456789abcdef'' ch of
        None \<Rightarrow> strchr ''0123456789ABCDEF'' ch
      | Some k \<Rightarrow> Some k)"

definition word_bytes :: "u32 \<Rightarrow> u8 list" where
  "word_bytes val = [ucast (drop_bit 8 val AND 0xff), ucast (val AND 0xff)]"

text \<open>
  The main loop; \<open>tp\<close> are the bytes written, \<open>colonp\<close> the position of the double colon, and
  the result is the state after the loop: \<open>tp\<close>, \<open>colonp\<close>, \<open>seen_xdigits\<close>, \<open>val\<close>.
\<close>

type_synonym pton6_state = "u8 list \<times> nat option \<times> nat \<times> u32"

fun pton6_loop :: "string \<Rightarrow> string \<Rightarrow> pton6_state \<Rightarrow> uv_errno + pton6_state" where
  "pton6_loop [] curtok st = Inr st"
| "pton6_loop (ch # src) curtok (tp, colonp, seen, val) =
     (case xdigit ch of
        Some k \<Rightarrow>
          let val = push_bit 4 val OR of_nat k
          in if seen + 1 > 4 then Inl UV_EINVAL
             else pton6_loop src curtok (tp, colonp, seen + 1, val)
      | None \<Rightarrow>
          if ch = CHR '':'' then
            if seen = 0 then
              (if colonp \<noteq> None then Inl UV_EINVAL
               else pton6_loop src src (tp, Some (length tp), 0, val))
            else if src = [] then Inl UV_EINVAL
            else if length tp + 2 > 16 then Inl UV_EINVAL
            else pton6_loop src src (tp @ word_bytes val, colonp, 0, 0)
          else if ch = CHR ''.'' \<and> length tp + 4 \<le> 16 then
            (case inet_pton4 curtok of
               Inr bs \<Rightarrow> Inr (tp @ bs, colonp, 0, val)
             | Inl _ \<Rightarrow> Inl UV_EINVAL)
          else Inl UV_EINVAL)"

text \<open>
  The shift of the bytes after the double colon to the end of \<open>tmp\<close>, by hand: for each \<open>i\<close>
  the byte \<open>n - i\<close> after \<open>colonp\<close> goes to the place \<open>i\<close> before the end, and its place is cleared.
\<close>

definition shift_step :: "nat \<Rightarrow> nat \<Rightarrow> nat \<Rightarrow> u8 list \<Rightarrow> u8 list" where
  "shift_step colonp n i tmp =
     (let tmp = tmp[16 - i := tmp ! (colonp + (n - i))] in tmp[colonp + (n - i) := 0])"

definition pton6_finish :: "pton6_state \<Rightarrow> uv_errno + u8 list" where
  "pton6_finish st =
     (case st of (tp, colonp, seen, val) \<Rightarrow>
        if seen \<noteq> 0 \<and> length tp + 2 > 16 then Inl UV_EINVAL
        else
          let tp = (if seen \<noteq> 0 then tp @ word_bytes val else tp)
          in case colonp of
               Some c \<Rightarrow>
                 if length tp = 16 then Inl UV_EINVAL
                 else Inr (fold (shift_step c (length tp - c)) [1..<length tp - c + 1]
                             (tp @ replicate (16 - length tp) 0))
             | None \<Rightarrow> if length tp \<noteq> 16 then Inl UV_EINVAL else Inr tp)"

definition inet_pton6 :: "string \<Rightarrow> uv_errno + u8 list" where
  "inet_pton6 src =
     (if src \<noteq> [] \<and> hd src = CHR '':'' \<and> (tl src = [] \<or> hd (tl src) \<noteq> CHR '':'') then Inl UV_EINVAL
      else
        let src = (if src \<noteq> [] \<and> hd src = CHR '':'' then tl src else src)
        in case pton6_loop src src ([], None, 0, 0) of
             Inl err \<Rightarrow> Inl err
           | Inr st \<Rightarrow> pton6_finish st)"

definition uv_inet_pton :: "af \<Rightarrow> string \<Rightarrow> uv_errno + u8 list" where
  "uv_inet_pton af src =
     (case af of
        AF_INET \<Rightarrow> inet_pton4 src
      | AF_INET6 \<Rightarrow>
          (case strchr src CHR ''%'' of
             None \<Rightarrow> inet_pton6 src
           | Some l \<Rightarrow> if l > 46 - 1 then Inl UV_EINVAL else inet_pton6 (take l src))
      | _ \<Rightarrow> Inl UV_EAFNOSUPPORT)"

section \<open>Socket addresses\<close>

text \<open>
  A socket address by family. The port is the number that \<open>htons\<close> stores in network order.
  \<open>zone\<close> turns the name of a zone into its number: \<open>if_nametoindex\<close>, on Windows \<open>atoi\<close>.
\<close>

record sockaddr_in =
  sin_port :: u16
  sin_addr :: "u8 list"

record sockaddr_in6 =
  sin6_port :: u16
  sin6_scope_id :: u32
  sin6_addr :: "u8 list"

datatype sockaddr = Sockaddr_in sockaddr_in | Sockaddr_in6 sockaddr_in6 | Sockaddr_other int

definition uv_ip4_addr :: "string \<Rightarrow> int \<Rightarrow> uv_errno option \<times> sockaddr_in" where
  "uv_ip4_addr ip port =
     (let addr = \<lparr>sin_port = word_of_int port, sin_addr = replicate 4 0\<rparr>
      in case uv_inet_pton AF_INET ip of
           Inl err \<Rightarrow> (Some err, addr)
         | Inr bs \<Rightarrow> (None, addr\<lparr>sin_addr := bs\<rparr>))"

definition uv_ip6_addr ::
  "(string \<Rightarrow> u32) \<Rightarrow> string \<Rightarrow> int \<Rightarrow> uv_errno option \<times> sockaddr_in6" where
  "uv_ip6_addr zone ip port =
     (let addr = \<lparr>sin6_port = word_of_int port, sin6_scope_id = 0, sin6_addr = replicate 16 0\<rparr>;
          (ip, addr) =
            (case strchr ip CHR ''%'' of
               None \<Rightarrow> (ip, addr)
             | Some k \<Rightarrow>
                 let address_part_size = (if k \<ge> 40 then 40 - 1 else k)
                 in (take address_part_size ip, addr\<lparr>sin6_scope_id := zone (drop (k + 1) ip)\<rparr>))
      in case uv_inet_pton AF_INET6 ip of
           Inl err \<Rightarrow> (Some err, addr)
         | Inr bs \<Rightarrow> (None, addr\<lparr>sin6_addr := bs\<rparr>))"

definition uv_ip4_name ::
  "platform \<Rightarrow> sockaddr_in \<Rightarrow> string \<Rightarrow> nat \<Rightarrow> (uv_errno option \<times> string) option" where
  "uv_ip4_name p src dst sz = uv_inet_ntop p AF_INET (sin_addr src) dst sz"

definition uv_ip6_name ::
  "platform \<Rightarrow> sockaddr_in6 \<Rightarrow> string \<Rightarrow> nat \<Rightarrow> (uv_errno option \<times> string) option" where
  "uv_ip6_name p src dst sz = uv_inet_ntop p AF_INET6 (sin6_addr src) dst sz"

definition uv_ip_name ::
  "platform \<Rightarrow> sockaddr \<Rightarrow> string \<Rightarrow> nat \<Rightarrow> (uv_errno option \<times> string) option" where
  "uv_ip_name p src dst sz =
     (case src of
        Sockaddr_in a \<Rightarrow> uv_inet_ntop p AF_INET (sin_addr a) dst sz
      | Sockaddr_in6 a \<Rightarrow> uv_inet_ntop p AF_INET6 (sin6_addr a) dst sz
      | Sockaddr_other _ \<Rightarrow> Some (Some UV_EAFNOSUPPORT, dst))"

section \<open>Digits\<close>

lemma strchr_digit: "k < 10 \<Longrightarrow> strchr ''0123456789'' (digit_char k) = Some k"
proof -
  have "list_all (\<lambda>k. strchr ''0123456789'' (digit_char k) = Some k) [0..<10]" by code_simp
  then show "k < 10 \<Longrightarrow> strchr ''0123456789'' (digit_char k) = Some k" by (simp add: list_all_iff)
qed

lemma xdigit_digit: "k < 16 \<Longrightarrow> xdigit (digit_char k) = Some k"
proof -
  have "list_all (\<lambda>k. xdigit (digit_char k) = Some k) [0..<16]" by code_simp
  then show "k < 16 \<Longrightarrow> xdigit (digit_char k) = Some k" by (simp add: list_all_iff)
qed

lemma punctuation: "xdigit CHR '':'' = None" "xdigit CHR ''.'' = None" "strchr ''0123456789'' CHR ''.'' = None"
  by code_simp+

lemma pton4_digit:
  assumes "k < 10" "m * 10 + k < 256" "saw \<longrightarrow> m \<noteq> 0" "\<not> saw \<longrightarrow> m = 0" "\<not> saw \<longrightarrow> octets < 4"
  shows "pton4_loop (digit_char k # src) ds (of_nat m) saw octets =
    pton4_loop src ds (of_nat (m * 10 + k)) True (if saw then octets else octets + 1)"
proof -
  let ?nw = "ucast (of_nat m :: u8) * 10 + of_nat k :: u32"
  have m: "unat (of_nat m :: u8) = m" using assms(2) by (simp add: unat_of_nat take_bit_nat_eq_self)
  have u: "unat ?nw = m * 10 + k"
    using assms(2) by (simp add: unat_word_ariths unat_of_nat unsigned_ucast_eq m take_bit_nat_eq_self)
  then have "of_nat (unat ?nw) = (of_nat (m * 10 + k) :: u32)" by (rule arg_cong)
  then have nw: "?nw = of_nat (m * 10 + k)" by (simp only: of_nat_unat ucast_id)
  have "\<not> ?nw > 255" unfolding word_less_nat_alt u using assms(2) by simp
  moreover have "ucast ?nw = (of_nat (m * 10 + k) :: u8)"
    using arg_cong [OF u, of "of_nat :: nat \<Rightarrow> u8"] by (simp only: of_nat_unat)
  moreover have "(of_nat m :: u8) = 0 \<longleftrightarrow> m = 0" 
    using m by (metis unsigned_0 unsigned_eq_0_iff)
  ultimately show ?thesis using assms by (auto simp: strchr_digit Let_def)
qed

lemma pton4_number:
  "n < 256 \<Longrightarrow> octets < 4 \<Longrightarrow>
   pton4_loop (print_nat 10 n @ src) ds 0 False octets = pton4_loop src ds (of_nat n) True (octets + 1)"
proof (induction n arbitrary: src rule: less_induct)
  case (less n)
  show ?case
  proof (cases "n < 10")
    case True
    with less.prems show ?thesis using pton4_digit [of n 0 False octets src ds]
      by (subst print_nat.simps) simp
  next
    case False
    have "pton4_loop (print_nat 10 (n div 10) @ (digit_char (n mod 10) # src)) ds 0 False octets =
      pton4_loop (digit_char (n mod 10) # src) ds (of_nat (n div 10)) True (octets + 1)"
      by (rule less.IH) (use False less.prems in auto)
    also have "\<dots> = pton4_loop src ds (of_nat (n div 10 * 10 + n mod 10)) True (octets + 1)"
      using pton4_digit [of "n mod 10" "n div 10" True "octets + 1" src ds] False less.prems by simp
    finally show ?thesis using False by (subst print_nat.simps) simp
  qed
qed

lemma unat_u8: "unat b < 256" for b :: u8
  using unsigned_less [of b, where ?'a = nat] by simp

lemma pton4_text:
  assumes "length src = 4"
  shows "inet_pton4 (ip4_text src) = Inr src"
proof -
  obtain a b c d where src: "src = [a, b, c, d]"
    using assms by (auto simp: length_Suc_conv numeral_eq_Suc)
  have dot: "pton4_loop (CHR ''.'' # s) ds cur True k = (if k = 4 then Inl UV_EINVAL else pton4_loop s (ds @ [cur]) 0 False k)"
    for s ds cur k by (simp add: punctuation)
  have last: "pton4_loop (print_nat 10 (unat d)) ds 0 False (Suc (Suc (Suc 0))) = Inr (ds @ [d])" for ds
    using pton4_number [OF unat_u8 [of d], of "Suc (Suc (Suc 0))" "[]" ds] by simp
  show ?thesis
    by (simp add: inet_pton4_def ip4_text_def src pton4_number [OF unat_u8] dot last del: pton4_loop.simps(2))
qed

lemma length_print_16: "0 < k \<Longrightarrow> length (print_nat 16 n) \<le> k \<longleftrightarrow> n < 16 ^ k"
proof (induction k arbitrary: n)
  case (Suc k)
  have ne: "print_nat 16 n \<noteq> []" for n by (subst print_nat.simps) simp
  show ?case
  proof (cases "n < 16")
    case True
    then have "n < 16 ^ Suc k" by (rule less_le_trans) simp
    with True show ?thesis by (subst print_nat.simps) simp
  next
    case False
    then have "length (print_nat 16 n) = Suc (length (print_nat 16 (n div 16)))"
      by (subst print_nat.simps) simp
    with False ne [of "n div 16"] Suc.IH [of "n div 16"] show ?thesis
      by (cases "k = 0") (simp_all add: div_less_iff_less_mult mult.commute)
  qed
qed simp

lemma hex_value:
  assumes "k < 16"
  shows "push_bit 4 (of_nat m) OR of_nat k = (of_nat (m * 16 + k) :: u32)"
proof -
  have k: "of_nat k = take_bit 4 (of_nat k :: u32)"
    using assms by (simp add: take_bit_of_nat take_bit_nat_eq_self)
  have "push_bit 4 (of_nat m :: u32) AND take_bit 4 (of_nat k) = 0"
    by (rule bit_eqI) (auto simp: bit_simps)
  then have "push_bit 4 (of_nat m) OR take_bit 4 (of_nat k) = push_bit 4 (of_nat m) + (take_bit 4 (of_nat k) :: u32)"
    by (rule or_plus)
  then show ?thesis unfolding k [symmetric] by (simp add: push_bit_eq_mult)
qed

lemma pton6_hex:
  "length (print_nat 16 n) \<le> 4 \<Longrightarrow>
   pton6_loop (print_nat 16 n @ src) ct (tp, cp, 0, 0) =
   pton6_loop src ct (tp, cp, length (print_nat 16 n), of_nat n)"
proof (induction n arbitrary: src rule: less_induct)
  case (less n)
  show ?case
  proof (cases "n < 16")
    case True
    then show ?thesis by (subst (1 2) print_nat.simps) (simp add: xdigit_digit Let_def)
  next
    case False
    have p: "print_nat 16 n = print_nat 16 (n div 16) @ [digit_char (n mod 16)]"
      using False by (subst print_nat.simps) simp
    have "pton6_loop (print_nat 16 (n div 16) @ (digit_char (n mod 16) # src)) ct (tp, cp, 0, 0) =
      pton6_loop (digit_char (n mod 16) # src) ct (tp, cp, length (print_nat 16 (n div 16)), of_nat (n div 16))"
      by (rule less.IH) (use False less.prems p in auto)
    then show ?thesis using less.prems hex_value [of "n mod 16" "n div 16"]
      by (simp add: p xdigit_digit Let_def)
  qed
qed

lemma pton6_decimal:
  "seen + length (print_nat 10 n) \<le> 4 \<Longrightarrow>
   \<exists>v'. pton6_loop (print_nat 10 n @ src) ct (tp, cp, seen, v) =
     pton6_loop src ct (tp, cp, seen + length (print_nat 10 n), v')"
proof (induction n arbitrary: src rule: less_induct)
  case (less n)
  show ?case
  proof (cases "n < 10")
    case True
    with less.prems show ?thesis by (subst (1 2) print_nat.simps) (auto simp: print_nat.simps [of 10 n] xdigit_digit Let_def)
  next
    case False
    have p: "print_nat 10 n = print_nat 10 (n div 10) @ [digit_char (n mod 10)]"
      using False by (subst print_nat.simps) simp
    have "\<exists>v'. pton6_loop (print_nat 10 (n div 10) @ (digit_char (n mod 10) # src)) ct (tp, cp, seen, v) =
      pton6_loop (digit_char (n mod 10) # src) ct (tp, cp, seen + length (print_nat 10 (n div 10)), v')"
      by (rule less.IH) (use False less.prems p in auto)
    then show ?thesis using less.prems by (auto simp: p xdigit_digit Let_def)
  qed
qed

section \<open>The longest run\<close>

definition zeros :: "u32 list \<Rightarrow> run \<Rightarrow> int \<Rightarrow> bool" where
  "zeros ws r n \<longleftrightarrow> 0 \<le> base r \<and> 1 \<le> len r \<and> base r + len r \<le> n \<and>
     (\<forall>j. base r \<le> j \<and> j < base r + len r \<longrightarrow> ws ! nat j = 0)"

lemma scan_runs_zeros:
  "scan_runs ws (int (length pre)) (best, cur) = (best', cur') \<Longrightarrow>
   base best = -1 \<or> zeros (pre @ ws) best (int (length pre)) \<Longrightarrow>
   base cur = -1 \<or> zeros (pre @ ws) cur (int (length pre)) \<and> base cur + len cur = int (length pre) \<Longrightarrow>
   (base best' = -1 \<or> zeros (pre @ ws) best' (int (length (pre @ ws)))) \<and>
   (base cur' = -1 \<or> zeros (pre @ ws) cur' (int (length (pre @ ws))))"
proof (induction ws arbitrary: pre best cur)
  case (Cons w ws)
  let ?n = "int (length pre)"
  have up: "zeros xs r ?n \<Longrightarrow> zeros xs r (?n + 1)" for xs r by (auto simp: zeros_def)
  have IH: "scan_runs ws (?n + 1) (b, c) = (best', cur') \<Longrightarrow>
    base b = -1 \<or> zeros (pre @ w # ws) b (?n + 1) \<Longrightarrow>
    base c = -1 \<or> zeros (pre @ w # ws) c (?n + 1) \<and> base c + len c = ?n + 1 \<Longrightarrow> ?case" for b c
    using Cons.IH [of "pre @ [w]" b c] by (simp add: add.commute)
  show ?case
  proof (cases "w = 0")
    case True
    let ?c = "if base cur = -1 then \<lparr>base = ?n, len = 1\<rparr> else cur\<lparr>len := len cur + 1\<rparr>"
    have "zeros (pre @ w # ws) ?c (?n + 1) \<and> base ?c + len ?c = ?n + 1"
    proof (cases "base cur = -1")
      case True
      then show ?thesis using \<open>w = 0\<close> by (auto simp: zeros_def nth_append)
    next
      case False
      have z: "(pre @ w # ws) ! nat j = 0" if "base cur \<le> j" "j < ?n + 1" for j
      proof (cases "j = ?n")
        case True
        then show ?thesis using \<open>w = 0\<close> by (simp add: nth_append)
      next
        case False
        then show ?thesis using that \<open>base cur \<noteq> -1\<close> Cons.prems(3) by (auto simp: zeros_def)
      qed
      then show ?thesis using False Cons.prems(3) by (auto simp: zeros_def)
    qed
    then show ?thesis using Cons.prems(1,2) True up by (intro IH [of best ?c]) auto
  next
    case False
    show ?thesis
    proof (cases "base cur = -1")
      case True
      with Cons.prems False up show ?thesis by (intro IH [of best cur]) auto
    next
      case c: False
      let ?b = "if base best = -1 \<or> len cur > len best then cur else best"
      have "scan_runs ws (?n + 1) (?b, cur\<lparr>base := -1\<rparr>) = (best', cur')"
        using Cons.prems(1) False c by simp
      with Cons.prems(2,3) c up show ?thesis by (intro IH [of ?b "cur\<lparr>base := -1\<rparr>"]) auto
    qed
  qed
qed auto

lemma best_run_zeros:
  assumes "length ws = 8"
  shows "base (best_run ws) = -1 \<or> zeros ws (best_run ws) 8 \<and> 2 \<le> len (best_run ws)"
proof -
  obtain b c where s: "scan_runs ws 0 (\<lparr>base = -1, len = 0\<rparr>, \<lparr>base = -1, len = 0\<rparr>) = (b, c)" by fastforce
  then have "(base b = -1 \<or> zeros ws b 8) \<and> (base c = -1 \<or> zeros ws c 8)"
    using scan_runs_zeros [of ws "[]" "\<lparr>base = -1, len = 0\<rparr>" "\<lparr>base = -1, len = 0\<rparr>" b c] assms by simp
  then show ?thesis by (auto simp: best_run_def s Let_def)
qed

section \<open>The text of an address\<close>

definition colon_text :: "u32 list \<Rightarrow> string" where
  "colon_text ws = concat (map (\<lambda>w. CHR '':'' # print_nat 16 (unat w)) ws)"

lemma format6_plain:
  assumes "\<And>j. i \<le> j \<Longrightarrow> j < i + int (length ws) \<Longrightarrow> \<not> in_run r j \<and> \<not> embeds_ip4 r full j" "0 < i"
  shows "format6 p r src full ws i tp = Some (None, tp @ colon_text ws)"
  using assms
proof (induction ws arbitrary: i tp)
  case (Cons w ws)
  have "format6 p r src full ws (i + 1) t = Some (None, t @ colon_text ws)" for t
    by (rule Cons.IH) (use Cons.prems in auto)
  then show ?case using Cons.prems(1) [of i] Cons.prems(2) by (simp add: colon_text_def)
qed (simp add: colon_text_def)

lemma format6_append:
  assumes "\<And>j. i \<le> j \<Longrightarrow> j < i + int (length ws) \<Longrightarrow> \<not> in_run r j \<and> \<not> embeds_ip4 r full j" "0 \<le> i"
  shows "format6 p r src full (ws @ ws') i tp =
    format6 p r src full ws' (i + int (length ws)) (tp @ (if i = 0 then tl (colon_text ws) else colon_text ws))"
  using assms
proof (induction ws arbitrary: i tp)
  case (Cons w ws)
  have "format6 p r src full (ws @ ws') (i + 1) t = format6 p r src full ws' (i + 1 + int (length ws))
    (t @ (if i + 1 = 0 then tl (colon_text ws) else colon_text ws))" for t
    by (rule Cons.IH) (use Cons.prems in auto)
  then show ?case using Cons.prems(1) [of i] Cons.prems(2) by (simp add: colon_text_def add.assoc)
qed (simp add: colon_text_def)

lemma format6_run:
  assumes "base r \<noteq> -1" "base r \<le> i" "i + int (length ws) = base r + len r"
  shows "format6 p r src full (ws @ ws') i tp =
    format6 p r src full ws' (base r + len r) (if i = base r \<and> ws \<noteq> [] then tp @ '':'' else tp)"
  using assms
proof (induction ws arbitrary: i tp)
  case (Cons w ws)
  have "format6 p r src full (ws @ ws') (i + 1) t = format6 p r src full ws' (base r + len r)
    (if i + 1 = base r \<and> ws \<noteq> [] then t @ '':'' else t)" for t
    by (rule Cons.IH) (use Cons.prems in auto)
  moreover have "in_run r i" using Cons.prems by (simp add: in_run_def)
  ultimately show ?case using Cons.prems by auto
qed simp

section \<open>Parsing the text of an address\<close>

definition bytes_of :: "u32 list \<Rightarrow> u8 list" where
  "bytes_of ws = concat (map word_bytes ws)"

lemma bytes_of_simps [simp]:
  "bytes_of [] = []" "bytes_of (w # ws) = word_bytes w @ bytes_of ws"
  "bytes_of (ws @ vs) = bytes_of ws @ bytes_of vs"
  by (simp_all add: bytes_of_def)

lemma length_bytes_of [simp]: "length (bytes_of ws) = 2 * length ws"
  by (induction ws) (simp_all add: word_bytes_def)

lemma hex_length: "unat w < 65536 \<Longrightarrow> 1 \<le> length (print_nat 16 (unat w)) \<and> length (print_nat 16 (unat w)) \<le> 4"
proof -
  have "print_nat 16 n \<noteq> []" for n by (subst print_nat.simps) simp
  then have "1 \<le> length (print_nat 16 (unat w))" by (simp add: Suc_le_eq)
  then show "unat w < 65536 \<Longrightarrow> ?thesis" using length_print_16 [of 4 "unat w"] by simp
qed

lemma pton6_word:
  "unat w < 65536 \<Longrightarrow> \<exists>k. 1 \<le> k \<and>
   pton6_loop (print_nat 16 (unat w) @ s) ct (tp, cp, 0, 0) = pton6_loop s ct (tp, cp, k, w)"
  using pton6_hex [of "unat w" s ct tp cp] hex_length [of w] by auto

lemma pton6_colon:
  "s \<noteq> [] \<Longrightarrow> length tp + 2 \<le> 16 \<Longrightarrow> 1 \<le> k \<Longrightarrow>
   pton6_loop (CHR '':'' # s) ct (tp, cp, k, v) = pton6_loop s s (tp @ word_bytes v, cp, 0, 0)"
  by (simp add: punctuation)

lemma pton6_double:
  "pton6_loop (CHR '':'' # s) ct (tp, None, 0, v) = pton6_loop s s (tp, Some (length tp), 0, v)"
  by (simp add: punctuation)

declare pton6_loop.simps(2) [simp del]

lemma pton6_words:
  assumes "\<forall>w \<in> set (v # ws). unat w < 65536"
  shows "length tp + 2 * length ws \<le> 16 \<Longrightarrow> 1 \<le> k \<Longrightarrow>
   \<exists>k' ct'. 1 \<le> k' \<and> pton6_loop (colon_text ws @ s) ct (tp, cp, k, v) =
     pton6_loop s ct' (tp @ bytes_of (butlast (v # ws)), cp, k', last (v # ws))"
  using assms
proof (induction ws arbitrary: tp k v ct)
  case Nil
  then show ?case by (auto simp: colon_text_def)
next
  case (Cons w ws)
  have ne: "print_nat 16 (unat w) \<noteq> []" using hex_length [of w] Cons.prems(3) by auto
  let ?s = "print_nat 16 (unat w) @ colon_text ws @ s"
  obtain k1 where k1: "1 \<le> k1" "pton6_loop ?s ?s (tp @ word_bytes v, cp, 0, 0) =
    pton6_loop (colon_text ws @ s) ?s (tp @ word_bytes v, cp, k1, w)"
    using pton6_word [of w "colon_text ws @ s" ?s "tp @ word_bytes v" cp] Cons.prems(3) by auto
  have "\<exists>k' ct'. 1 \<le> k' \<and> pton6_loop (colon_text ws @ s) ?s (tp @ word_bytes v, cp, k1, w) =
     pton6_loop s ct' ((tp @ word_bytes v) @ bytes_of (butlast (w # ws)), cp, k', last (w # ws))"
    by (rule Cons.IH) (use Cons.prems k1 in \<open>auto simp: word_bytes_def\<close>)
  moreover have "colon_text (w # ws) @ s = CHR '':'' # ?s" by (simp add: colon_text_def)
  moreover have "pton6_loop (CHR '':'' # ?s) ct (tp, cp, k, v) = pton6_loop ?s ?s (tp @ word_bytes v, cp, 0, 0)"
    by (rule pton6_colon) (use Cons.prems ne in auto)
  ultimately show ?case using k1(2) by auto
qed

text \<open>A list of words separated by colons, from the start of a group.\<close>

lemma pton6_group:
  assumes "\<forall>w \<in> set ws. unat w < 65536" "ws \<noteq> []" "length tp + 2 * length ws \<le> 16"
  shows "\<exists>k' ct'. 1 \<le> k' \<and> pton6_loop (tl (colon_text ws) @ s) ct (tp, cp, 0, 0) =
     pton6_loop s ct' (tp @ bytes_of (butlast ws), cp, k', last ws)"
proof -
  obtain w ws' where ws: "ws = w # ws'" using assms(2) by (cases ws) auto
  obtain k where "1 \<le> k" "pton6_loop (tl (colon_text ws) @ s) ct (tp, cp, 0, 0) =
    pton6_loop (colon_text ws' @ s) ct (tp, cp, k, w)"
    using pton6_word [of w "colon_text ws' @ s" ct tp cp] assms(1) by (auto simp: ws colon_text_def)
  then show ?thesis using pton6_words [of w ws' tp k s ct cp] assms by (auto simp: ws)
qed

lemma shift_fold:
  assumes "length tp = c + n" "c + n < 16"
  shows "k \<le> n \<Longrightarrow> fold (shift_step c n) [1..<k + 1] (tp @ replicate (16 - (c + n)) 0) =
    take (c + n - k) tp @ replicate (16 - (c + n)) 0 @ drop (c + n - k) tp"
proof (induction k)
  case (Suc k)
  let ?m = "c + n - Suc k" and ?g = "16 - (c + n)"
  have k: "c + n - k = Suc ?m" "?m < length tp" using Suc.prems assms by auto
  let ?t = "take (Suc ?m) tp @ replicate ?g 0 @ drop (Suc ?m) tp"
  have IH: "fold (shift_step c n) [1..<k + 1] (tp @ replicate ?g 0) = ?t" using Suc k(1) by simp
  have idx: "c + (n - Suc k) = ?m" "16 - Suc k = Suc ?m + (?g - 1)" using Suc.prems assms by auto
  have rd: "?t ! ?m = tp ! ?m" using k(2) by (simp add: nth_append)
  have g: "replicate ?g (0 :: u8) = replicate (?g - 1) 0 @ [0]" using assms(2)
    by (metis Suc_diff_1 replicate_Suc replicate_append_same zero_less_diff)
  have "?t[Suc ?m + (?g - 1) := tp ! ?m] = take (Suc ?m) tp @ replicate (?g - 1) 0 @ tp ! ?m # drop (Suc ?m) tp"
    unfolding g using k(2) by (simp add: list_update_append)
  moreover have "(take (Suc ?m) tp @ replicate (?g - 1) 0 @ tp ! ?m # drop (Suc ?m) tp)[?m := 0] =
    take ?m tp @ 0 # replicate (?g - 1) 0 @ drop ?m tp"
    using k(2) by (simp add: take_Suc_conv_app_nth list_update_append Cons_nth_drop_Suc)
  moreover have "0 # replicate (?g - 1) (0 :: u8) = replicate ?g 0" using assms(2)
    by (metis Suc_diff_1 replicate_Suc zero_less_diff)
  ultimately have "shift_step c n (Suc k) ?t = take ?m tp @ replicate ?g 0 @ drop ?m tp"
    unfolding shift_step_def Let_def idx rd by (metis append_Cons)
  then show ?case using IH by simp
qed (use assms in simp)

lemma pton6_finish_double:
  assumes "length tp + (if k = 0 then 0 else 2) < 16" "c \<le> length tp"
  shows "pton6_finish (tp, Some c, k, v) =
    (let tp = (if k = 0 then tp else tp @ word_bytes v)
     in Inr (take c tp @ replicate (16 - length tp) 0 @ drop c tp))"
proof -
  let ?t = "if k = 0 then tp else tp @ word_bytes v"
  have l: "length ?t < 16" "length ?t = c + (length ?t - c)" using assms by (auto simp: word_bytes_def)
  have "fold (shift_step c (length ?t - c)) [1..<(length ?t - c) + 1] (?t @ replicate (16 - length ?t) 0) =
    take c ?t @ replicate (16 - length ?t) 0 @ drop c ?t"
    using shift_fold [OF l(2), of "length ?t - c"] l by simp
  moreover have "pton6_finish (tp, Some c, k, v) = Inr (fold (shift_step c (length ?t - c))
    [1..<(length ?t - c) + 1] (?t @ replicate (16 - length ?t) 0))"
    using assms(1) l(1) by (cases "k = 0") (simp_all add: pton6_finish_def Let_def)
  ultimately show ?thesis by (simp only: Let_def)
qed

section \<open>The round trip of IPv6 addresses\<close>

lemma word_at_bytes: "word_bytes (word_at src k) = [src ! (2 * k), src ! (2 * k + 1)]"
proof -
  have "ucast (drop_bit 8 (push_bit 8 (ucast a) OR ucast b) AND 0xff :: u32) = a"
    "ucast ((push_bit 8 (ucast a) OR ucast b) AND 0xff :: u32) = b" for a b :: u8
    unfolding and_take_bit by (rule bit_word_eqI; auto simp: bit_simps dest: bit_imp_le_length)+
  then show ?thesis by (simp add: word_bytes_def word_at_def)
qed

lemma word_at_small: "unat (word_at src k) < 65536"
proof -
  have "unat (push_bit 8 (ucast a) OR ucast b :: u32) < 65536" for a b :: u8
  proof -
    have "(push_bit 8 (ucast a) AND ucast b :: u32) = 0"
      by (rule bit_eqI) (auto simp: bit_simps dest: bit_imp_le_length)
    then have "(push_bit 8 (ucast a) OR ucast b :: u32) = ucast a * 256 + ucast b"
      by (simp add: or_plus push_bit_eq_mult)
    moreover have "unat (ucast a :: u32) = unat a" "unat (ucast b :: u32) = unat b"
      using unat_u8 [of a] unat_u8 [of b] by (simp_all add: unsigned_ucast_eq take_bit_nat_eq_self)
    ultimately show ?thesis using unat_u8 [of a] unat_u8 [of b] by (simp add: unat_word_ariths)
  qed
  then show ?thesis by (simp add: word_at_def)
qed

lemma words_of_facts:
  assumes "length src = 16"
  shows "length (words_of src) = 8" "bytes_of (words_of src) = src" "\<forall>w \<in> set (words_of src). unat w < 65536"
proof -
  show "length (words_of src) = 8" by (simp add: words_of_def)
  show "\<forall>w \<in> set (words_of src). unat w < 65536" by (auto simp: words_of_def word_at_small)
  have "bytes_of (words_of src) = concat (map (\<lambda>k. [src ! (2 * k), src ! (2 * k + 1)]) [0..<8])"
    by (simp add: bytes_of_def words_of_def word_at_bytes comp_def)
  also have "\<dots> = map ((!) src) [0..<16]"
  proof -
    have "[0..<8] = [0, 1, 2, 3, 4, 5, 6, 7 :: nat]"
      "[0..<16] = [0, 1, 2, 3, 4, 5, 6, 7, 8, 9, 10, 11, 12, 13, 14, 15 :: nat]" by code_simp+
    then show ?thesis by simp
  qed
  also have "\<dots> = src" using map_nth [of src] assms by simp
  finally show "bytes_of (words_of src) = src" .
qed

definition addr_chars :: "char set" where
  "addr_chars = set ''0123456789abcdef:.''"

lemma addr_chars: "NUL \<notin> addr_chars" "CHR ''%'' \<notin> addr_chars" "CHR '':'' \<in> addr_chars" "CHR ''.'' \<in> addr_chars"
  by (simp_all add: addr_chars_def)

lemma print_nat_chars: "2 \<le> b \<Longrightarrow> b \<le> 16 \<Longrightarrow> set (print_nat b n) \<subseteq> addr_chars"
  using print_nat_digits [of b n] by (rule order_trans) (auto simp: addr_chars_def)

lemma ip4_text_chars: "set (ip4_text src) \<subseteq> addr_chars"
proof -
  have "set (print_nat 10 n) \<subseteq> addr_chars" for n by (rule print_nat_chars) simp_all
  then show ?thesis unfolding ip4_text_def set_append using addr_chars(4) by simp
qed

lemma ip4_text_length: "1 \<le> length (ip4_text src)" "length (ip4_text src) \<le> 15"
proof -
  have "length (print_nat 10 (unat b)) \<le> 3" for b :: u8
    using length_print_nat [of 3 "unat b"] unat_u8 [of b] by simp
  from this [of "src ! 0"] this [of "src ! 1"] this [of "src ! 2"] this [of "src ! 3"]
  show "length (ip4_text src) \<le> 15" by (simp add: ip4_text_def)
  show "1 \<le> length (ip4_text src)" by (simp add: ip4_text_def)
qed

lemma ntop4_works:
  assumes "length (ip4_text src) < sz" "sz \<le> length dst"
  shows "\<exists>d. inet_ntop4 p src dst sz = Some (None, d) \<and> c_string d = ip4_text src"
proof -
  let ?t = "ip4_text src"
  have nul: "NUL \<notin> set ?t" using ip4_text_chars [of src] addr_chars(1) by blast
  have s: "snprintf (replicate 16 NUL) 16 ?t = Some (?t @ NUL # replicate (15 - length ?t) NUL, length ?t)"
    using ip4_text_length(2) [of src] by (simp add: snprintf_def Let_def)
  obtain r where "uv__strscpy p dst (?t @ NUL # replicate (15 - length ?t) NUL) sz = Some (?t @ NUL # drop (length ?t + 1) dst, r)"
    using strscpy_fits [OF nul assms] by blast
  moreover have "?t \<noteq> []" using ip4_text_length(1) [of src] by auto
  ultimately show ?thesis using s assms(1) by (simp add: inet_ntop4_def c_string_append [OF nul])
qed

lemma hd_hex: "hd (print_nat 16 n @ s) \<noteq> CHR '':''" "print_nat 16 n \<noteq> []"
proof -
  show ne: "print_nat 16 n \<noteq> []" by (subst print_nat.simps) simp
  then have "hd (print_nat 16 n @ s) \<in> set (print_nat 16 n)" by simp
  moreover have "set (print_nat 16 n) \<subseteq> set ''0123456789abcdef''" by (rule print_nat_digits) simp_all
  ultimately have "hd (print_nat 16 n @ s) \<in> set ''0123456789abcdef''" by blast
  then show "hd (print_nat 16 n @ s) \<noteq> CHR '':''" by auto
qed

lemma colon_text_cons: "ws \<noteq> [] \<Longrightarrow> colon_text ws = CHR '':'' # tl (colon_text ws)"
  by (cases ws) (simp_all add: colon_text_def)

lemma hd_colon_text: "ws \<noteq> [] \<Longrightarrow> tl (colon_text ws) \<noteq> [] \<and> hd (tl (colon_text ws) @ s) \<noteq> CHR '':''"
  using hd_hex by (cases ws) (auto simp: colon_text_def)

lemma colon_text_chars: "set (colon_text ws) \<subseteq> addr_chars"
  using print_nat_chars [of 16] addr_chars(3) by (auto simp: colon_text_def)

lemma colon_text_length: "\<forall>w \<in> set ws. unat w < 65536 \<Longrightarrow> length (colon_text ws) \<le> 5 * length ws"
  using hex_length by (induction ws) (force simp: colon_text_def)+

lemma tl_chars: "set xs \<subseteq> A \<Longrightarrow> set (tl xs) \<subseteq> A"
  by (cases xs) auto

lemma parse_tail:
  assumes "\<forall>w \<in> set post. unat w < 65536" "length tp + 2 * length post < 16"
  shows "(case pton6_loop (tl (colon_text post)) ct (tp, Some (length tp), 0, 0) of
      Inl e \<Rightarrow> Inl e | Inr st \<Rightarrow> pton6_finish st) =
    Inr (tp @ replicate (16 - (length tp + 2 * length post)) 0 @ bytes_of post)"
proof (cases "post = []")
  case True
  then show ?thesis using assms(2) by (simp add: colon_text_def pton6_finish_double Let_def)
next
  case False
  obtain k ct' where k: "1 \<le> k" "pton6_loop (tl (colon_text post)) ct (tp, Some (length tp), 0, 0) =
    Inr (tp @ bytes_of (butlast post), Some (length tp), k, last post)"
    using pton6_group [OF assms(1) False, of tp "[]" ct "Some (length tp)"] assms(2) by auto
  have b: "bytes_of post = bytes_of (butlast post) @ word_bytes (last post)"
    using False bytes_of_simps(3) [of "butlast post" "[last post]"] by simp
  then have l: "length (bytes_of (butlast post)) + 2 = 2 * length post"
    using length_bytes_of [of post] by (simp add: word_bytes_def del: length_bytes_of)
  show ?thesis using k assms(2) b l
    by (simp add: pton6_finish_double Let_def word_bytes_def)
qed

lemma parse_double:
  assumes small: "\<forall>w \<in> set (pre @ post). unat w < 65536" and len: "2 * length pre + 2 * length post < 16"
    and t: "t = tl (colon_text pre) @ CHR '':'' # CHR '':'' # tl (colon_text post)"
  shows "inet_pton6 t = Inr (bytes_of pre @ replicate (16 - 2 * length pre - 2 * length post) 0 @ bytes_of post)"
proof -
  let ?r = "tl (colon_text post)"
  let ?d = "CHR '':'' # CHR '':'' # ?r"
  let ?src = "if pre = [] then CHR '':'' # ?r else t"
  have "\<exists>ct. pton6_loop ?src ?src ([], None, 0, 0) = pton6_loop ?r ct (bytes_of pre, Some (2 * length pre), 0, 0)"
  proof (cases "pre = []")
    case True
    then show ?thesis using pton6_double by (auto simp: length_bytes_of [symmetric] simp del: length_bytes_of)
  next
    case False
    obtain k ct where k: "1 \<le> k" "pton6_loop t t ([], None, 0, 0) =
      pton6_loop ?d ct (bytes_of (butlast pre), None, k, last pre)"
      using pton6_group [of pre "[]" ?d t None] small len False by (auto simp: t)
    have b: "bytes_of pre = bytes_of (butlast pre) @ word_bytes (last pre)"
      using False bytes_of_simps(3) [of "butlast pre" "[last pre]"] by simp
    have "2 * length (butlast pre) + 2 \<le> 16" using len by simp
    then have "pton6_loop ?d ct (bytes_of (butlast pre), None, k, last pre) =
      pton6_loop (CHR '':'' # ?r) (CHR '':'' # ?r) (bytes_of pre, None, 0, 0)"
      using k(1) by (subst pton6_colon) (simp_all add: b)
    with k(2) False show ?thesis using pton6_double [of ?r "CHR '':'' # ?r" "bytes_of pre" 0] by auto
  qed
  moreover have "inet_pton6 t = (case pton6_loop ?src ?src ([], None, 0, 0) of Inl e \<Rightarrow> Inl e | Inr st \<Rightarrow> pton6_finish st)"
  proof (cases "pre = []")
    case True
    then show ?thesis by (simp add: inet_pton6_def t Let_def colon_text_def)
  next
    case False
    then have "t \<noteq> []" "hd t \<noteq> CHR '':''" using hd_colon_text [of pre ?d] hd_colon_text [of pre "[]"] by (simp_all add: t)
    then show ?thesis using False by (simp add: inet_pton6_def Let_def)
  qed
  ultimately show ?thesis
    using parse_tail [of post "bytes_of pre"] small len by (auto simp: diff_diff_left)
qed

lemma parse_ip4:
  assumes "length bs = 4" "length tp + 4 \<le> 16"
  shows "\<exists>v'. pton6_loop (ip4_text bs) (ip4_text bs) (tp, cp, 0, v) = Inr (tp @ bs, cp, 0, v')"
proof -
  define r where "r = print_nat 10 (unat (bs ! 1)) @ ''.'' @ print_nat 10 (unat (bs ! 2)) @ ''.'' @ print_nat 10 (unat (bs ! 3))"
  have t: "ip4_text bs = print_nat 10 (unat (bs ! 0)) @ CHR ''.'' # r" by (simp add: ip4_text_def r_def)
  have "length (print_nat 10 (unat (bs ! 0))) \<le> 3"
    using length_print_nat [of 3 "unat (bs ! 0)"] unat_u8 [of "bs ! 0"] by simp
  then obtain k v' where "pton6_loop (ip4_text bs) (ip4_text bs) (tp, cp, 0, v) =
    pton6_loop (CHR ''.'' # r) (ip4_text bs) (tp, cp, k, v')"
    using pton6_decimal [of 0 "unat (bs ! 0)" "CHR ''.'' # r" "ip4_text bs" tp cp v] unfolding t by auto
  then show ?thesis using pton4_text [OF assms(1)] assms(2) by (auto simp: pton6_loop.simps(2) punctuation)
qed

lemma parse_plain:
  assumes "\<forall>w \<in> set ws. unat w < 65536" "length ws = 8"
  shows "inet_pton6 (tl (colon_text ws)) = Inr (bytes_of ws)"
proof -
  let ?t = "tl (colon_text ws)"
  have ne: "ws \<noteq> []" using assms(2) by auto
  then have "?t \<noteq> []" "hd ?t \<noteq> CHR '':''" using hd_colon_text [of ws "[]"] by simp_all
  then have e: "inet_pton6 ?t = (case pton6_loop ?t ?t ([], None, 0, 0) of Inl e \<Rightarrow> Inl e | Inr st \<Rightarrow> pton6_finish st)"
    by (simp add: inet_pton6_def Let_def)
  obtain k ct where k: "1 \<le> k" "pton6_loop ?t ?t ([], None, 0, 0) = Inr (bytes_of (butlast ws), None, k, last ws)"
    using pton6_group [OF assms(1) ne, of "[]" "[]" ?t None] assms(2) by auto
  have b: "bytes_of ws = bytes_of (butlast ws) @ word_bytes (last ws)"
    using ne bytes_of_simps(3) [of "butlast ws" "[last ws]"] by simp
  show ?thesis unfolding e k(2) using k(1) assms(2) by (simp add: pton6_finish_def b word_bytes_def)
qed

lemma parse_embedded:
  assumes "length bs = 4" "\<forall>w \<in> set ws. unat w < 65536" "length ws \<le> 1"
  shows "inet_pton6 (CHR '':'' # colon_text ws @ CHR '':'' # ip4_text bs) =
    Inr (replicate (12 - 2 * length ws) 0 @ bytes_of ws @ bs)"
proof -
  let ?v = "ip4_text bs"
  have ne: "?v \<noteq> []" using ip4_text_length(1) [of bs] by auto
  let ?s = "colon_text ws @ CHR '':'' # ?v"
  have s: "?s \<noteq> [] \<and> hd ?s = CHR '':''" by (cases ws) (simp_all add: colon_text_def)
  then have e: "inet_pton6 (CHR '':'' # ?s) =
    (case pton6_loop ?s ?s ([], None, 0, 0) of Inl e \<Rightarrow> Inl e | Inr st \<Rightarrow> pton6_finish st)"
    by (simp add: inet_pton6_def Let_def)
  have "\<exists>v'. pton6_loop ?s ?s ([], None, 0, 0) = Inr (bytes_of ws @ bs, Some 0, 0, v')"
  proof (cases ws)
    case Nil
    then show ?thesis using pton6_double [of ?v ?s "[]" 0] parse_ip4 [OF assms(1), of "[]" "Some 0" 0]
      by (simp add: colon_text_def)
  next
    case (Cons w ws')
    then have ws: "ws = [w]" using assms(3) by simp
    let ?r = "print_nat 16 (unat w) @ CHR '':'' # ?v"
    obtain k where "1 \<le> k" "pton6_loop ?r ?r ([], Some 0, 0, 0) = pton6_loop (CHR '':'' # ?v) ?r ([], Some 0, k, w)"
      using pton6_word [of w "CHR '':'' # ?v" ?r "[]" "Some 0"] assms(2) ws by auto
    moreover have "pton6_loop (CHR '':'' # ?v) ?r ([], Some 0, k, w) = pton6_loop ?v ?v (word_bytes w, Some 0, 0, 0)"
      using pton6_colon [OF ne, of "[]" k ?r "Some 0" w] \<open>1 \<le> k\<close> by simp
    moreover have "pton6_loop ?s ?s ([], None, 0, 0) = pton6_loop ?r ?r ([], Some 0, 0, 0)"
      using pton6_double [of ?r ?s "[]" 0] by (simp add: ws colon_text_def)
    ultimately show ?thesis using parse_ip4 [OF assms(1), of "word_bytes w" "Some 0" 0]
      by (simp add: ws word_bytes_def)
  qed
  then obtain v' where "pton6_loop ?s ?s ([], None, 0, 0) = Inr (bytes_of ws @ bs, Some 0, 0, v')" by blast
  then show ?thesis unfolding e using assms(1,3)
    by (simp add: pton6_finish_double diff_diff_left)
qed

lemma embedded_text:
  assumes "embeds_ip4 r full 6" "\<not> in_run r 6" "length tp \<le> 20"
  shows "format6 p r src full [w, w'] 6 tp = Some (None, tp @ CHR '':'' # ip4_text (drop 12 src))"
proof -
  let ?b = "replicate (46 - length (tp @ '':'')) NUL"
  have "length (ip4_text (drop 12 src)) < 46 - length (tp @ '':'')"
    using ip4_text_length(2) [of "drop 12 src"] assms(3) by simp
  from ntop4_works [OF this, of ?b p] obtain d where d: "inet_ntop4 p (drop 12 src) ?b (46 - length (tp @ '':'')) = Some (None, d)"
    "c_string d = ip4_text (drop 12 src)"
    by auto
  then show ?thesis using assms(1,2) by simp
qed

lemma bytes_of_zeros: "bytes_of (replicate n 0) = replicate (2 * n) 0"
  by (induction n) (simp_all add: word_bytes_def)

text \<open>
  An address split at its longest run: the words before, the run of zeros, the words after.
\<close>

lemma run_split:
  assumes "length ws = 8" "zeros ws r 8" "2 \<le> len r"
  obtains pre post n where "ws = pre @ replicate n 0 @ post" "base r = int (length pre)" "len r = int n"
    "2 \<le> n" "length pre + n + length post = 8"
proof -
  define b n where "b = nat (base r)" and "n = nat (len r)"
  have bn: "base r = int b" "len r = int n" "2 \<le> n" "b + n \<le> 8"
    using assms(2,3) by (auto simp: zeros_def b_def n_def)
  have "take n (drop b ws) = replicate n 0"
  proof (rule nth_equalityI)
    show "length (take n (drop b ws)) = length (replicate n 0)" using assms(1) bn by simp
    fix i assume "i < length (take n (drop b ws))"
    then have i: "i < n" by simp
    have "\<forall>j. int b \<le> j \<and> j < int b + int n \<longrightarrow> ws ! nat j = 0" using assms(2) bn by (simp add: zeros_def)
    moreover have "int b \<le> int (b + i) \<and> int (b + i) < int b + int n" using i by simp
    ultimately have "ws ! nat (int (b + i)) = 0" by blast
    then have "ws ! (b + i) = 0" by (simp only: nat_int)
    then show "take n (drop b ws) ! i = replicate n 0 ! i" using i bn assms(1) by simp
  qed
  then have "ws = take b ws @ replicate n 0 @ drop (b + n) ws"
    by (metis append_take_drop_id drop_drop add.commute)
  then show thesis using that [of "take b ws" n "drop (b + n) ws"] bn assms(1) by simp
qed

lemma ip6_text_run:
  assumes src: "length src = 16" and ws: "words_of src = pre @ replicate n 0 @ post"
    and r: "best_run (words_of src) = r" "base r = int (length pre)" "len r = int n" "2 \<le> n"
      "length pre + n + length post = 8"
    and no4: "\<not> embeds_ip4 r (words_of src) 6 \<or> n = 7"
  shows "ip6_text p src = Some (None, tl (colon_text pre) @ CHR '':'' # CHR '':'' # tl (colon_text post))"
proof -
  let ?full = "words_of src"
  have emb: "\<not> embeds_ip4 r ?full j" if "in_run r j \<or> j < base r \<or> base r + len r \<le> j" "\<not> in_run r j" for j
    using no4 that r by (auto simp: embeds_ip4_def in_run_def)
  have "format6 p r src ?full (pre @ replicate n 0 @ post) 0 [] =
    format6 p r src ?full (replicate n 0 @ post) (int (length pre)) (tl (colon_text pre))"
    by (subst format6_append) (use r emb in \<open>auto simp: in_run_def\<close>)
  also have "\<dots> = format6 p r src ?full post (base r + len r) (tl (colon_text pre) @ '':'')"
    by (subst format6_run) (use r in auto)
  also have "\<dots> = Some (None, tl (colon_text pre) @ '':'' @ colon_text post)"
    by (subst format6_plain) (use r emb in \<open>auto simp: in_run_def\<close>)
  finally have f: "format6 p r src ?full ?full 0 [] = Some (None, tl (colon_text pre) @ '':'' @ colon_text post)"
    unfolding ws [symmetric] .
  show ?thesis
  proof (cases "post = []")
    case True
    then show ?thesis using f r by (simp add: ip6_text_def Let_def colon_text_def)
  next
    case False
    then have "length post > 0" by simp
    then have "base r + len r \<noteq> 8" using r(2-5) by linarith
    then show ?thesis using f colon_text_cons [OF False] by (simp add: ip6_text_def r(1) Let_def)
  qed
qed

lemma ip6_text_embedded:
  assumes src: "length src = 16" and ws: "words_of src = replicate n 0 @ post"
    and r: "best_run (words_of src) = r" "base r = 0" "len r = int n" "2 \<le> n" "n + length post = 8"
    and e: "embeds_ip4 r (words_of src) 6" "n \<noteq> 7"
  shows "ip6_text p src = Some (None, CHR '':'' # colon_text (take (6 - n) post) @ CHR '':'' # ip4_text (drop 12 src))"
    and "n = 5 \<or> n = 6"
proof -
  let ?full = "words_of src"
  show n: "n = 5 \<or> n = 6" using e r by (auto simp: embeds_ip4_def)
  let ?mid = "take (6 - n) post"
  have "length (drop (6 - n) post) = 2" using n r(5) by auto
  then obtain w w' where "drop (6 - n) post = [w, w']" by (metis (no_types) One_nat_def Suc_1 length_0_conv length_Suc_conv)
  then have post: "post = ?mid @ [w, w']" by (metis append_take_drop_id)
  have lm: "length ?mid = 6 - n" using n r(5) by auto
  have small: "\<forall>w \<in> set ?mid. unat w < 65536"
    using words_of_facts(3) [OF src] unfolding ws by (auto dest: in_set_takeD)
  have "format6 p r src ?full ?full 0 [] = format6 p r src ?full (replicate n 0 @ ?mid @ [w, w']) 0 []"
    using ws post by simp
  also have "\<dots> = format6 p r src ?full (?mid @ [w, w']) (int n) '':''"
    by (subst format6_run) (use r in auto)
  also have "\<dots> = format6 p r src ?full [w, w'] (int n + int (length ?mid)) ('':'' @ (if int n = 0 then tl (colon_text ?mid) else colon_text ?mid))"
    by (rule format6_append) (use r n lm in \<open>auto simp: in_run_def embeds_ip4_def\<close>)
  also have "\<dots> = format6 p r src ?full [w, w'] 6 ('':'' @ colon_text ?mid)"
  proof -
    have "int n + int (length ?mid) = 6" "int n \<noteq> 0" using lm n by auto
    then show ?thesis by (simp only: if_False)
  qed
  also have "\<dots> = Some (None, ('':'' @ colon_text ?mid) @ CHR '':'' # ip4_text (drop 12 src))"
    by (rule embedded_text [OF e(1)])
       (use r n lm colon_text_length [OF small] in \<open>auto simp: in_run_def\<close>)
  finally show "ip6_text p src = Some (None, CHR '':'' # colon_text ?mid @ CHR '':'' # ip4_text (drop 12 src))"
    using r n by (auto simp: ip6_text_def Let_def)
qed

lemma ip6_text_reads_back:
  assumes src: "length src = 16"
  shows "\<exists>t. ip6_text p src = Some (None, t) \<and> inet_pton6 t = Inr src \<and> length t \<le> 45 \<and> set t \<subseteq> addr_chars"
proof -
  note w = words_of_facts [OF src]
  let ?ws = "words_of src" and ?r = "best_run (words_of src)"
  show ?thesis
  proof (cases "base ?r = -1")
    case True
    have "format6 p ?r src ?ws (?ws @ []) 0 [] = Some (None, tl (colon_text ?ws))"
      by (subst format6_append) (use True in \<open>auto simp: in_run_def embeds_ip4_def\<close>)
    then have "ip6_text p src = Some (None, tl (colon_text ?ws))" using True by (simp add: ip6_text_def Let_def)
    then show ?thesis using parse_plain [OF w(3,1)] w(2) colon_text_length [OF w(3)] w(1)
        tl_chars [OF colon_text_chars [of ?ws]] by simp
  next
    case False
    then have z: "zeros ?ws ?r 8" "2 \<le> len ?r" using best_run_zeros [OF w(1)] by auto
    from run_split [OF w(1) z] obtain pre post n where
      s: "?ws = pre @ replicate n 0 @ post" "base ?r = int (length pre)" "len ?r = int n"
      "2 \<le> n" "length pre + n + length post = 8" by blast
    have small: "\<forall>x \<in> set (pre @ post). unat x < 65536" using w(3) unfolding s(1) by auto
    have b: "src = bytes_of pre @ replicate (2 * n) 0 @ bytes_of post"
      using w(2) unfolding s(1) by (simp add: bytes_of_zeros)
    show ?thesis
    proof (cases "\<not> embeds_ip4 ?r ?ws 6 \<or> n = 7")
      case True
      let ?t = "tl (colon_text pre) @ CHR '':'' # CHR '':'' # tl (colon_text post)"
      have "16 - 2 * length pre - 2 * length post = 2 * n" using s(4,5) by auto
      then have "inet_pton6 ?t = Inr src" using parse_double [OF small _ refl] s(4,5) b by simp
      moreover have "length ?t \<le> 45"
        using colon_text_length [of pre] colon_text_length [of post] small s(4,5) by auto
      ultimately show ?thesis using ip6_text_run [OF src s(1) refl s(2-5) True] addr_chars(3)
          tl_chars [OF colon_text_chars [of pre]] tl_chars [OF colon_text_chars [of post]] by simp
    next
      case False
      then have e: "embeds_ip4 ?r ?ws 6" "n \<noteq> 7" by auto
      then have pre: "pre = []" using s(2) by (auto simp: embeds_ip4_def)
      let ?mid = "take (6 - n) post" and ?v = "ip4_text (drop 12 src)"
      have t: "ip6_text p src = Some (None, CHR '':'' # colon_text ?mid @ CHR '':'' # ?v)" "n = 5 \<or> n = 6"
        using ip6_text_embedded [OF src _ refl _ s(3,4) _ e] s pre by simp_all
      have m: "\<forall>x \<in> set ?mid. unat x < 65536" "length ?mid = 6 - n" "length ?mid \<le> 1"
        using small t(2) s(5) pre by (auto dest: in_set_takeD)
      have "bytes_of post = bytes_of ?mid @ bytes_of (drop (6 - n) post)"
        using bytes_of_simps(3) [of ?mid "drop (6 - n) post"] by simp
      then have s': "src = (replicate (2 * n) 0 @ bytes_of ?mid) @ bytes_of (drop (6 - n) post)" using b pre by simp
      have n12: "2 * n = 12 - 2 * length ?mid" "length (replicate (2 * n) 0 @ bytes_of ?mid) = 12"
        using m(2) t(2) by (auto simp: length_bytes_of)
      have "drop 12 src = bytes_of (drop (6 - n) post)"
        by (subst s', subst n12(2) [symmetric]) simp
      with s' have "src = replicate (12 - 2 * length ?mid) 0 @ bytes_of ?mid @ drop 12 src"
        unfolding n12(1) by simp
      moreover have "length (drop 12 src) = 4" using src by simp
      ultimately have "inet_pton6 (CHR '':'' # colon_text ?mid @ CHR '':'' # ?v) = Inr src"
        using parse_embedded [OF _ m(1,3)] by metis
      moreover have "length (CHR '':'' # colon_text ?mid @ CHR '':'' # ?v) \<le> 45"
        using colon_text_length [OF m(1)] m(3) ip4_text_length(2) [of "drop 12 src"] by simp
      ultimately show ?thesis
        using t(1) colon_text_chars [of ?mid] ip4_text_chars [of "drop 12 src"] addr_chars(3) by simp
    qed
  qed
qed

section \<open>Bounds of the parsers\<close>

lemma pton4_loop_length:
  "pton4_loop s ds cur saw octets = Inr bs \<Longrightarrow> octets \<le> 4 \<Longrightarrow>
   length ds = (if saw then octets - 1 else octets) \<Longrightarrow> (saw \<longrightarrow> 1 \<le> octets) \<Longrightarrow>
   (\<not> saw \<longrightarrow> octets < 4) \<Longrightarrow> length bs = 4"
proof (induction s ds cur saw octets arbitrary: bs rule: pton4_loop.induct)
  case (2 ch src ds cur saw octets)
  show ?case
  proof (cases "strchr ''0123456789'' ch")
    case None
    then show ?thesis using 2 by (auto split: if_splits)
  next
    case (Some k)
    then show ?thesis using 2 by (auto simp: Let_def split: if_splits)
  qed
qed (auto split: if_splits)

lemma pton4_length: "inet_pton4 s = Inr bs \<Longrightarrow> length bs = 4"
  unfolding inet_pton4_def by (erule pton4_loop_length) simp_all

definition pton6_inv :: "pton6_state \<Rightarrow> bool" where
  "pton6_inv st = (case st of (tp, colonp, seen, val) \<Rightarrow>
     length tp \<le> 16 \<and> (\<forall>c. colonp = Some c \<longrightarrow> c \<le> length tp))"

lemma pton6_loop_inv: "pton6_loop s curtok st = Inr st' \<Longrightarrow> pton6_inv st \<Longrightarrow> pton6_inv st'"
proof (induction s curtok st arbitrary: st' rule: pton6_loop.induct)
  case (2 ch src curtok tp colonp seen val)
  show ?case
  proof (cases "xdigit ch")
    case None
    have "pton6_inv (tp, Some (length tp), 0, val)" for val :: u32
      using 2(5) by (auto simp: pton6_inv_def)
    moreover have "pton6_inv (tp @ word_bytes val, colonp, 0, 0)" if "length tp + 2 \<le> 16" for val :: u32
      using that 2(5) by (auto simp: pton6_inv_def word_bytes_def)
    moreover have "pton6_inv (tp @ bs, colonp, 0, val)" if "length tp + length bs \<le> 16" for bs :: "u8 list"
      using that 2(5) by (auto simp: pton6_inv_def)
    ultimately show ?thesis using 2(1,2) [OF None] 2(4) None
      by (auto simp: pton6_loop.simps dest!: pton4_length split: if_splits sum.splits)
  next
    case (Some k)
    then show ?thesis using 2 by (auto simp: pton6_loop.simps Let_def pton6_inv_def split: if_splits)
  qed
qed (simp add: pton6_loop.simps)

lemma shift_step_length: "length (shift_step c n i tmp) = length tmp"
  by (simp add: shift_step_def Let_def)

lemma shift_length: "length (fold (shift_step c n) is tmp) = length tmp"
  by (induction "is" arbitrary: tmp) (simp_all add: shift_step_length)

lemma pton6_finish_length: "pton6_finish st = Inr bs \<Longrightarrow> pton6_inv st \<Longrightarrow> length bs = 16"
  by (cases st) (auto simp: pton6_finish_def pton6_inv_def word_bytes_def shift_length Let_def
    split: if_splits option.splits simp del: upt_Suc)

lemma pton6_length: "inet_pton6 s = Inr bs \<Longrightarrow> length bs = 16"
  by (auto simp: inet_pton6_def Let_def pton6_inv_def split: if_splits sum.splits
    intro!: pton6_finish_length dest!: pton6_loop_inv)

lemma strchr_None: "c \<notin> set s \<Longrightarrow> strchr s c = None"
proof -
  assume "c \<notin> set s"
  then have "takeWhile (\<lambda>d. d \<noteq> c) s = s" by (auto simp: takeWhile_eq_all_conv)
  then show ?thesis by (simp only: strchr_def Let_def less_irrefl if_False)
qed

section \<open>Properties\<close>

text \<open>
  C28: every IPv4 and every IPv6 address has a text that \<open>uv_inet_pton\<close> reads back to exactly
  its bytes, of at most 15 and 45 characters; \<open>uv_inet_ntop\<close> stores that text with its NUL
  whenever the size given allows it and otherwise fails with \<open>UV_ENOSPC\<close> and stores nothing.
\<close>

theorem inet_roundtrip:
  assumes "af = AF_INET \<and> length src = 4 \<or> af = AF_INET6 \<and> length src = 16"
  shows "\<exists>t. uv_inet_pton af t = Inr src \<and> length t \<le> (if af = AF_INET then 15 else 45) \<and>
    (\<forall>dst sz. sz \<le> length dst \<longrightarrow> uv_inet_ntop p af src dst sz =
       (if length t < sz then Some (None, t @ NUL # drop (length t + 1) dst)
        else Some (Some UV_ENOSPC, dst)))"
  using assms
proof (elim disjE conjE)
  assume af: "af = AF_INET" and src: "length src = 4"
  let ?t = "ip4_text src"
  have s: "snprintf (replicate 16 NUL) 16 ?t = Some (?t @ NUL # replicate (15 - length ?t) NUL, length ?t)"
    using ip4_text_length(2) [of src] by (simp add: snprintf_def Let_def)
  have "NUL \<notin> set ?t" using ip4_text_chars [of src] addr_chars(1) by blast
  from strscpy_fits [OF this] s have "uv_inet_ntop p af src dst sz =
       (if length ?t < sz then Some (None, ?t @ NUL # drop (length ?t + 1) dst)
        else Some (Some UV_ENOSPC, dst))" if "sz \<le> length dst" for dst sz
    using that ip4_text_length(1) [of src]
    by (auto simp: uv_inet_ntop_def af inet_ntop4_def dest!: spec [where x = dst])
  then show ?thesis using pton4_text [OF src] ip4_text_length(2) [of src]
    by (intro exI [of _ ?t]) (simp add: af uv_inet_pton_def)
next
  assume af: "af = AF_INET6" and src: "length src = 16"
  from ip6_text_reads_back [OF src, of p] obtain t where
    t: "ip6_text p src = Some (None, t)" "inet_pton6 t = Inr src" "length t \<le> 45" "set t \<subseteq> addr_chars"
    by blast
  then have nul: "NUL \<notin> set t" and pc: "CHR ''%'' \<notin> set t" using addr_chars(1,2) by blast+
  have "uv_inet_ntop p af src dst sz =
       (if length t < sz then Some (None, t @ NUL # drop (length t + 1) dst)
        else Some (Some UV_ENOSPC, dst))" if "sz \<le> length dst" for dst sz
    using that strscpy_fits [OF nul, of sz dst p "[]"]
    by (auto simp: uv_inet_ntop_def af inet_ntop6_def t(1) Let_def)
  then show ?thesis using t pc
    by (intro exI [of _ t]) (simp add: af uv_inet_pton_def strchr_None)
qed

theorem inet_roundtrip_witness:
  "\<exists>t. uv_inet_pton AF_INET6 t = Inr (replicate 15 0 @ [1]) \<and>
    uv_inet_ntop \<lparr>os = Linux, edom = 33, sys_errno = [UV_ENOSPC \<mapsto> 28]\<rparr> AF_INET6 (replicate 15 0 @ [1]) (replicate 46 NUL) 46 =
      Some (None, t @ NUL # drop (length t + 1) (replicate 46 NUL))"
proof -
  obtain t where "uv_inet_pton AF_INET6 t = Inr (replicate 15 0 @ [1])" "length t \<le> 45"
    "\<forall>dst sz. sz \<le> length dst \<longrightarrow> uv_inet_ntop \<lparr>os = Linux, edom = 33, sys_errno = [UV_ENOSPC \<mapsto> 28]\<rparr> AF_INET6 (replicate 15 0 @ [1]) dst sz =
       (if length t < sz then Some (None, t @ NUL # drop (length t + 1) dst)
        else Some (Some UV_ENOSPC, dst))"
    using inet_roundtrip [of AF_INET6 "replicate 15 0 @ [1]" "\<lparr>os = Linux, edom = 33, sys_errno = [UV_ENOSPC \<mapsto> 28]\<rparr>"] by auto
  then show ?thesis by (intro exI [of _ t]) simp
qed

lemma pton4_loop_error: "pton4_loop s ds cur saw octets = Inl e \<Longrightarrow> e = UV_EINVAL"
  by (induction s ds cur saw octets rule: pton4_loop.induct) (auto simp: Let_def split: if_splits option.splits)

lemma pton6_loop_error: "pton6_loop s curtok st = Inl e \<Longrightarrow> e = UV_EINVAL"
  by (induction s curtok st rule: pton6_loop.induct) (auto simp: pton6_loop.simps Let_def split: if_splits option.splits sum.splits)

lemma pton6_error: "inet_pton6 s = Inl e \<Longrightarrow> e = UV_EINVAL"
  by (auto simp: inet_pton6_def pton6_finish_def Let_def pton6_loop_error
    split: if_splits option.splits sum.splits prod.splits)

text \<open>
  C37: whatever the text, \<open>uv_inet_pton\<close> writes exactly the 4 or 16 bytes of an address when
  it succeeds, and the only errors are \<open>UV_EINVAL\<close> and, for another family, \<open>UV_EAFNOSUPPORT\<close>.
\<close>

theorem inet_pton_bounds:
  "(case uv_inet_pton af s of
      Inr bs \<Rightarrow> af = AF_INET \<and> length bs = 4 \<or> af = AF_INET6 \<and> length bs = 16
    | Inl e \<Rightarrow> e = (case af of AF_unsupported _ \<Rightarrow> UV_EAFNOSUPPORT | _ \<Rightarrow> UV_EINVAL))"
  by (auto simp: uv_inet_pton_def inet_pton4_def pton4_length [unfolded inet_pton4_def] pton6_length
      pton4_loop_error pton6_error split: af.splits sum.splits option.splits if_splits)

text \<open>
  A text of 40 characters or more before the zone is cut to 39, so this address loses its
  last two digits and is accepted; without the zone, the whole text is read.
\<close>

lemma ip6_addr_truncates:
  "uv_ip6_addr (\<lambda>_. 1) ''1111:2222:3333:4444:5555:6666:1.1.100.100%eth0'' 80 =
     (None, \<lparr>sin6_port = 80, sin6_scope_id = 1,
       sin6_addr = [0x11, 0x11, 0x22, 0x22, 0x33, 0x33, 0x44, 0x44, 0x55, 0x55, 0x66, 0x66, 1, 1, 100, 1]\<rparr>)"
  by code_simp

end
