(* ===== verification/Handles.thy ===== *)
theory Handles
  imports Queue Heap Errors "HOL-Library.Sublist"
begin

unbundle bit_operations_syntax

text \<open>
  The state of an event loop, \<^verbatim>\<open>uv_loop_t\<close>, and the macros of \<^verbatim>\<open>uv-common.h\<close> that every
  handle goes through. Handles, the watchers embedded in them and callbacks are named by
  pointers; each kind of structure has its store. The lists linked through queue nodes are
  lists of names: \<^verbatim>\<open>Queue.thy\<close> shows that the operations on links act on them as the
  operations on lists do, and that unlinking a node linked to itself does nothing, as
  \<open>remove1\<close> does. The heap of the timers is the heap of \<^verbatim>\<open>Heap.thy\<close>.
\<close>

lemma of_nat_u32_eq_0: "n < 2 ^ 32 \<Longrightarrow> (of_nat n :: u32) = 0 \<longleftrightarrow> n = 0"
  using unat_of_nat_u32 [of n] unsigned_eq_0_iff [of "of_nat n :: u32"] by fastforce

section \<open>Flags\<close>

definition UV_HANDLE_CLOSING :: u32 where "UV_HANDLE_CLOSING = 0x1"
definition UV_HANDLE_CLOSED :: u32 where "UV_HANDLE_CLOSED = 0x2"
definition UV_HANDLE_ACTIVE :: u32 where "UV_HANDLE_ACTIVE = 0x4"
definition UV_HANDLE_REF :: u32 where "UV_HANDLE_REF = 0x8"
definition UV_HANDLE_INTERNAL :: u32 where "UV_HANDLE_INTERNAL = 0x10"

lemma power_of_flag:
  "UV_HANDLE_CLOSING = 2 ^ 0" "UV_HANDLE_CLOSED = 2 ^ 1" "UV_HANDLE_ACTIVE = 2 ^ 2"
  "UV_HANDLE_REF = 2 ^ 3" "UV_HANDLE_INTERNAL = 2 ^ 4"
  by (simp_all add: UV_HANDLE_CLOSING_def UV_HANDLE_CLOSED_def UV_HANDLE_ACTIVE_def
      UV_HANDLE_REF_def UV_HANDLE_INTERNAL_def)

lemma bit_power_u32: "bit (2 ^ k :: u32) n \<longleftrightarrow> n = k \<and> n < 32"
  by (auto simp: bit_exp_iff)

lemma and_power_u32: "w AND 2 ^ k = 0 \<longleftrightarrow> \<not> bit w k" for w :: u32
  by (rule and_exp_eq_0_iff_not_bit)

text \<open>Tests and updates of flags as single bits.\<close>

lemma flag_test:
  "w AND UV_HANDLE_CLOSING = 0 \<longleftrightarrow> \<not> bit w 0" "w AND UV_HANDLE_CLOSED = 0 \<longleftrightarrow> \<not> bit w 1"
  "w AND UV_HANDLE_ACTIVE = 0 \<longleftrightarrow> \<not> bit w 2" "w AND UV_HANDLE_REF = 0 \<longleftrightarrow> \<not> bit w 3"
  "w AND UV_HANDLE_INTERNAL = 0 \<longleftrightarrow> \<not> bit w 4"
  by (simp_all only: power_of_flag and_power_u32)

lemma flag_update:
  "bit (w OR UV_HANDLE_CLOSING) n \<longleftrightarrow> bit w n \<or> n = 0" "bit (w OR UV_HANDLE_CLOSED) n \<longleftrightarrow> bit w n \<or> n = 1"
  "bit (w OR UV_HANDLE_ACTIVE) n \<longleftrightarrow> bit w n \<or> n = 2" "bit (w OR UV_HANDLE_REF) n \<longleftrightarrow> bit w n \<or> n = 3"
  "bit (w OR UV_HANDLE_INTERNAL) n \<longleftrightarrow> bit w n \<or> n = 4"
  "bit (w AND NOT UV_HANDLE_ACTIVE) n \<longleftrightarrow> bit w n \<and> n \<noteq> 2"
  "bit (w AND NOT UV_HANDLE_REF) n \<longleftrightarrow> bit w n \<and> n \<noteq> 3"
  "bit UV_HANDLE_REF n \<longleftrightarrow> n = 3"
  for w :: u32
  unfolding power_of_flag bit_or_iff bit_and_iff bit_not_iff bit_power_u32
  by (auto dest: bit_imp_le_length)

section \<open>The state\<close>

datatype (plugins only: code) uv_handle_type =
  UV_UNKNOWN_HANDLE | UV_ASYNC | UV_CHECK | UV_FS_EVENT | UV_FS_POLL | UV_HANDLE | UV_IDLE
| UV_NAMED_PIPE | UV_POLL | UV_PREPARE | UV_PROCESS | UV_STREAM | UV_TCP | UV_TIMER | UV_TTY
| UV_UDP | UV_SIGNAL | UV_FILE

record uv_handle =
  htype :: uv_handle_type
  flags :: u32
  close_cb :: ptr

record uv_timer =
  timer_cb :: ptr
  timeout :: u64
  repeat_in :: u64
  start_id :: u64

text \<open>The three loop watchers that the macro of \<^verbatim>\<open>loop-watcher.c\<close> defines.\<close>

datatype loop_watcher = Prepare | Check | Idle

text \<open>An I/O watcher, with the callbacks that the library itself installs.\<close>

datatype io_cb = Uv__poll_io | Uv__async_io | Uv__signal_event | Uv__stream_io | Uv__server_io
  | Uv__udp_io | No_io_cb

record uv__io =
  io_cb :: io_cb
  pevents :: u32
  events :: u32
  fd :: int

record uv_async =
  async_cb :: ptr
  pending :: bool

record uv_signal =
  signal_cb :: ptr
  signum :: int
  caught_signals :: u32
  dispatched_signals :: u32

text \<open>An entry of the array that \<open>poll\<close> reads and writes.\<close>

record pollfd =
  pfd :: int
  pevents_in :: u32
  revents :: u32

text \<open>
  \<open>ready_queue\<close>, \<open>run_queue\<close>, \<open>pending_run\<close>, \<open>async_run\<close> and \<open>walk_queue\<close> are the queues on the
  stack of \<open>uv__run_timers\<close>, \<open>uv__run_prepare\<close>/\<open>check\<close>/\<open>idle\<close>, \<open>uv__run_pending\<close>,
  \<open>uv__async_io\<close> and \<open>uv_walk\<close>: they are part of the state because callbacks unlink nodes
  from them. \<open>closing_handles\<close> is the list linked by \<open>next_closing\<close>. The fields from
  \<open>lfields_flags\<close> to \<open>current_timeout\<close> are those of \<open>uv__loop_internal_fields_t\<close>, and the
  \<open>poll_fds\<close> fields those of the backend of \<^verbatim>\<open>posix-poll.c\<close>. The watchers embedded in the loop
  itself have the addresses \<open>async_io_watcher\<close> and \<open>signal_io_watcher\<close>. The clock is an
  input: the \<open>n\<close>-th reading of \<open>uv__hrtime\<close> is \<open>hrtime n\<close>; \<open>polls\<close> counts the calls of
  \<open>poll\<close>; \<open>called\<close> records the user callbacks in the order in which they ran.
\<close>

record uv_loop =
  active_handles :: u32
  handle_queue :: "ptr list"
  active_reqs :: u32
  stop_flag :: u32
  loop_flags :: u64
  pending_queue :: "ptr list"
  watcher_queue :: "ptr list"
  watchers :: "ptr list"
  nwatchers :: u32
  nfds :: u32
  closing_handles :: "ptr list"
  watcher_handles :: "loop_watcher \<Rightarrow> ptr list"
  async_handles :: "ptr list"
  async_io_watcher :: ptr
  timer_heap :: heap
  timer_counter :: u64
  time :: u64
  signal_io_watcher :: ptr
  signal_tree :: "ptr list"
  signal_pipe :: "(ptr \<times> int) list"
  ready_queue :: "ptr list"
  run_queue :: "loop_watcher \<Rightarrow> ptr list"
  pending_run :: "ptr list"
  async_run :: "ptr list"
  walk_queue :: "ptr list"
  handle :: "ptr \<Rightarrow> uv_handle"
  timer :: "ptr \<Rightarrow> uv_timer"
  watcher_cb :: "ptr \<Rightarrow> ptr"
  poll_cb :: "ptr \<Rightarrow> ptr"
  io :: "ptr \<Rightarrow> uv__io"
  async :: "ptr \<Rightarrow> uv_async"
  signal :: "ptr \<Rightarrow> uv_signal"
  lfields_flags :: u32
  loop_count :: u64
  events_count :: u64
  events_waiting :: u64
  provider_entry_time :: u64
  provider_idle_time :: u64
  current_timeout :: int
  poll_fds :: "pollfd list"
  poll_fds_used :: nat
  poll_fds_iterating :: bool
  hrtime :: "nat \<Rightarrow> u64"
  readings :: nat
  polls :: nat
  called :: "(ptr \<times> ptr) list"

definition set_flags :: "ptr \<Rightarrow> u32 \<Rightarrow> uv_loop \<Rightarrow> uv_loop" where
  "set_flags h w s = s\<lparr>handle := (handle s)(h := (handle s h)\<lparr>flags := w\<rparr>)\<rparr>"

definition set_timer :: "ptr \<Rightarrow> uv_timer \<Rightarrow> uv_loop \<Rightarrow> uv_loop" where
  "set_timer h t s = s\<lparr>timer := (timer s)(h := t)\<rparr>"

definition set_io :: "ptr \<Rightarrow> uv__io \<Rightarrow> uv_loop \<Rightarrow> uv_loop" where
  "set_io w x s = s\<lparr>io := (io s)(w := x)\<rparr>"

definition uv__update_time :: "uv_loop \<Rightarrow> uv_loop" where
  "uv__update_time s = s\<lparr>time := hrtime s (readings s) div 1000000, readings := readings s + 1\<rparr>"

text \<open>
  The fields as \<open>uv_loop_init\<close> sets them; the structures that the stores hold exist before
  their initialisation, with whatever content.
\<close>

definition init_fields :: "uv_loop \<Rightarrow> uv_loop" where
  "init_fields s = s\<lparr>active_handles := 0, handle_queue := [], active_reqs := 0, stop_flag := 0,
     loop_flags := 0, pending_queue := [], watcher_queue := [], watchers := [], nwatchers := 0, nfds := 0,
     closing_handles := [], watcher_handles := (\<lambda>_. []), async_handles := [], timer_heap := heap_init (timer_heap s),
     timer_counter := 0, io := (io s)(async_io_watcher s := (io s (async_io_watcher s))\<lparr>fd := -1\<rparr>),
     lfields_flags := 0, loop_count := 0, events_count := 0, events_waiting := 0, provider_entry_time := 0,
     provider_idle_time := 0, current_timeout := 0, poll_fds := [], poll_fds_used := 0, poll_fds_iterating := False\<rparr>"

definition new_loop :: "(nat \<Rightarrow> u64) \<Rightarrow> uv_loop" where
  "new_loop clk = \<lparr>active_handles = 0, handle_queue = [], active_reqs = 0, stop_flag = 0, loop_flags = 0,
     pending_queue = [], watcher_queue = [], watchers = [], nwatchers = 0, nfds = 0, closing_handles = [],
     watcher_handles = (\<lambda>_. []), async_handles = [], async_io_watcher = 1,
     timer_heap = \<lparr>hmin = 0, nelts = 0, hleft = (\<lambda>_. 0), hright = (\<lambda>_. 0), hparent = (\<lambda>_. 0)\<rparr>,
     timer_counter = 0, time = 0, signal_io_watcher = 2, signal_tree = [], signal_pipe = [],
     ready_queue = [], run_queue = (\<lambda>_. []), pending_run = [], async_run = [], walk_queue = [],
     handle = (\<lambda>_. \<lparr>htype = UV_UNKNOWN_HANDLE, flags = 0, close_cb = 0\<rparr>),
     timer = (\<lambda>_. \<lparr>timer_cb = 0, timeout = 0, repeat_in = 0, start_id = 0\<rparr>),
     watcher_cb = (\<lambda>_. 0), poll_cb = (\<lambda>_. 0),
     io = (\<lambda>_. \<lparr>io_cb = No_io_cb, pevents = 0, events = 0, fd = -1\<rparr>),
     async = (\<lambda>_. \<lparr>async_cb = 0, pending = False\<rparr>),
     signal = (\<lambda>_. \<lparr>signal_cb = 0, signum = 0, caught_signals = 0, dispatched_signals = 0\<rparr>),
     lfields_flags = 0, loop_count = 0, events_count = 0, events_waiting = 0, provider_entry_time = 0,
     provider_idle_time = 0, current_timeout = 0, poll_fds = [], poll_fds_used = 0, poll_fds_iterating = False,
     hrtime = clk, readings = 0, polls = 0, called = []\<rparr>"

section \<open>The macros\<close>

definition uv__has_active_reqs :: "uv_loop \<Rightarrow> bool" where
  "uv__has_active_reqs s \<longleftrightarrow> active_reqs s > 0"

definition uv__req_register :: "uv_loop \<Rightarrow> uv_loop" where
  "uv__req_register s = s\<lparr>active_reqs := active_reqs s + 1\<rparr>"

text \<open>A failing assertion is the result \<open>None\<close>.\<close>

definition uv__req_unregister :: "uv_loop \<Rightarrow> uv_loop option" where
  "uv__req_unregister s =
     (if uv__has_active_reqs s then Some (s\<lparr>active_reqs := active_reqs s - 1\<rparr>) else None)"

definition uv__has_active_handles :: "uv_loop \<Rightarrow> bool" where
  "uv__has_active_handles s \<longleftrightarrow> active_handles s > 0"

definition uv__active_handle_add :: "uv_loop \<Rightarrow> uv_loop" where
  "uv__active_handle_add s = s\<lparr>active_handles := active_handles s + 1\<rparr>"

definition uv__active_handle_rm :: "uv_loop \<Rightarrow> uv_loop" where
  "uv__active_handle_rm s = s\<lparr>active_handles := active_handles s - 1\<rparr>"

definition uv__is_active :: "ptr \<Rightarrow> uv_loop \<Rightarrow> bool" where
  "uv__is_active h s \<longleftrightarrow> flags (handle s h) AND UV_HANDLE_ACTIVE \<noteq> 0"

definition uv__is_closing :: "ptr \<Rightarrow> uv_loop \<Rightarrow> bool" where
  "uv__is_closing h s \<longleftrightarrow> flags (handle s h) AND (UV_HANDLE_CLOSING OR UV_HANDLE_CLOSED) \<noteq> 0"

definition uv__handle_start :: "ptr \<Rightarrow> uv_loop \<Rightarrow> uv_loop" where
  "uv__handle_start h s =
     (if flags (handle s h) AND UV_HANDLE_ACTIVE \<noteq> 0 then s
      else
        let s = set_flags h (flags (handle s h) OR UV_HANDLE_ACTIVE) s
        in if flags (handle s h) AND UV_HANDLE_REF \<noteq> 0 then uv__active_handle_add s else s)"

definition uv__handle_stop :: "ptr \<Rightarrow> uv_loop \<Rightarrow> uv_loop" where
  "uv__handle_stop h s =
     (if flags (handle s h) AND UV_HANDLE_ACTIVE = 0 then s
      else
        let s = set_flags h (flags (handle s h) AND NOT UV_HANDLE_ACTIVE) s
        in if flags (handle s h) AND UV_HANDLE_REF \<noteq> 0 then uv__active_handle_rm s else s)"

definition uv__handle_ref :: "ptr \<Rightarrow> uv_loop \<Rightarrow> uv_loop" where
  "uv__handle_ref h s =
     (if flags (handle s h) AND UV_HANDLE_REF \<noteq> 0 then s
      else
        let s = set_flags h (flags (handle s h) OR UV_HANDLE_REF) s
        in if flags (handle s h) AND UV_HANDLE_CLOSING \<noteq> 0 then s
           else if flags (handle s h) AND UV_HANDLE_ACTIVE \<noteq> 0 then uv__active_handle_add s else s)"

definition uv__handle_unref :: "ptr \<Rightarrow> uv_loop \<Rightarrow> uv_loop" where
  "uv__handle_unref h s =
     (if flags (handle s h) AND UV_HANDLE_REF = 0 then s
      else
        let s = set_flags h (flags (handle s h) AND NOT UV_HANDLE_REF) s
        in if flags (handle s h) AND UV_HANDLE_CLOSING \<noteq> 0 then s
           else if flags (handle s h) AND UV_HANDLE_ACTIVE \<noteq> 0 then uv__active_handle_rm s else s)"

definition uv__has_ref :: "ptr \<Rightarrow> uv_loop \<Rightarrow> bool" where
  "uv__has_ref h s \<longleftrightarrow> flags (handle s h) AND UV_HANDLE_REF \<noteq> 0"

text \<open>The list \<open>closing_handles\<close> stands for the \<open>next_closing\<close> fields, so clearing one is no write.\<close>

definition uv__handle_init :: "uv_handle_type \<Rightarrow> ptr \<Rightarrow> uv_loop \<Rightarrow> uv_loop" where
  "uv__handle_init ty h s =
     s\<lparr>handle := (handle s)(h := (handle s h)\<lparr>htype := ty, flags := UV_HANDLE_REF\<rparr>),
       handle_queue := handle_queue s @ [h]\<rparr>"

lemmas macro_defs = uv__has_active_reqs_def uv__has_active_handles_def uv__active_handle_add_def
  uv__active_handle_rm_def uv__is_active_def uv__is_closing_def uv__has_ref_def set_flags_def
  set_timer_def set_io_def uv__handle_start_def uv__handle_stop_def uv__handle_ref_def
  uv__handle_unref_def uv__handle_init_def uv__req_register_def uv__req_unregister_def Let_def

lemma is_bits:
  "uv__is_active h s \<longleftrightarrow> bit (flags (handle s h)) 2"
  "uv__is_closing h s \<longleftrightarrow> bit (flags (handle s h)) 0 \<or> bit (flags (handle s h)) 1"
  "uv__has_ref h s \<longleftrightarrow> bit (flags (handle s h)) 3"
  by (auto simp: uv__is_active_def uv__is_closing_def uv__has_ref_def flag_test bit.conj_disj_distrib or_eq_0_iff)

section \<open>What the macros change\<close>

abbreviation active :: "uv_loop \<Rightarrow> ptr \<Rightarrow> bool" where
  "active s h \<equiv> bit (flags (handle s h)) 2"

abbreviation refd :: "uv_loop \<Rightarrow> ptr \<Rightarrow> bool" where
  "refd s h \<equiv> bit (flags (handle s h)) 3"

abbreviation closing :: "uv_loop \<Rightarrow> ptr \<Rightarrow> bool" where
  "closing s h \<equiv> bit (flags (handle s h)) 0"

abbreviation closed :: "uv_loop \<Rightarrow> ptr \<Rightarrow> bool" where
  "closed s h \<equiv> bit (flags (handle s h)) 1"

abbreviation internal :: "uv_loop \<Rightarrow> ptr \<Rightarrow> bool" where
  "internal s h \<equiv> bit (flags (handle s h)) 4"

text \<open>
  The four macros that count set or clear one flag of one handle, whatever it was before, and
  change the count; everything else of the state is untouched.
\<close>

lemma or_same: "bit w n \<Longrightarrow> w OR 2 ^ n = w" for w :: u32
  by (auto intro!: bit_eqI simp: bit_or_iff bit_power_u32 simp del: push_bit_of_1)

lemma and_not_same: "\<not> bit w n \<Longrightarrow> w AND NOT (2 ^ n) = w" for w :: u32
  by (rule bit_eqI) (auto simp: bit_and_iff bit_not_iff bit_power_u32 simp del: push_bit_of_1 dest: bit_imp_le_length)

lemma flag_same:
  "w AND UV_HANDLE_ACTIVE \<noteq> 0 \<Longrightarrow> w OR UV_HANDLE_ACTIVE = w" "w AND UV_HANDLE_REF \<noteq> 0 \<Longrightarrow> w OR UV_HANDLE_REF = w"
  "w AND UV_HANDLE_ACTIVE = 0 \<Longrightarrow> w AND NOT UV_HANDLE_ACTIVE = w"
  "w AND UV_HANDLE_REF = 0 \<Longrightarrow> w AND NOT UV_HANDLE_REF = w" for w :: u32
  unfolding flag_test unfolding power_of_flag by (simp_all only: not_not not_False_eq_True or_same and_not_same)

lemma macro_handles:
  "handle (uv__handle_start h s) = (handle s)(h := (handle s h)\<lparr>flags := flags (handle s h) OR UV_HANDLE_ACTIVE\<rparr>)"
  "handle (uv__handle_stop h s) = (handle s)(h := (handle s h)\<lparr>flags := flags (handle s h) AND NOT UV_HANDLE_ACTIVE\<rparr>)"
  "handle (uv__handle_ref h s) = (handle s)(h := (handle s h)\<lparr>flags := flags (handle s h) OR UV_HANDLE_REF\<rparr>)"
  "handle (uv__handle_unref h s) = (handle s)(h := (handle s h)\<lparr>flags := flags (handle s h) AND NOT UV_HANDLE_REF\<rparr>)"
  unfolding macro_defs by (auto simp: flag_same fun_eq_iff)

lemma macro_fields [simp]:
  "handle_queue (uv__handle_start h s) = handle_queue s" "handle_queue (uv__handle_stop h s) = handle_queue s"
  "handle_queue (uv__handle_ref h s) = handle_queue s" "handle_queue (uv__handle_unref h s) = handle_queue s"
  "active_reqs (uv__handle_start h s) = active_reqs s" "active_reqs (uv__handle_stop h s) = active_reqs s"
  "active_reqs (uv__handle_ref h s) = active_reqs s" "active_reqs (uv__handle_unref h s) = active_reqs s"
  "stop_flag (uv__handle_start h s) = stop_flag s" "stop_flag (uv__handle_stop h s) = stop_flag s"
  "stop_flag (uv__handle_ref h s) = stop_flag s" "stop_flag (uv__handle_unref h s) = stop_flag s"
  "loop_flags (uv__handle_start h s) = loop_flags s" "loop_flags (uv__handle_stop h s) = loop_flags s"
  "loop_flags (uv__handle_ref h s) = loop_flags s" "loop_flags (uv__handle_unref h s) = loop_flags s"
  "pending_queue (uv__handle_start h s) = pending_queue s" "pending_queue (uv__handle_stop h s) = pending_queue s"
  "pending_queue (uv__handle_ref h s) = pending_queue s" "pending_queue (uv__handle_unref h s) = pending_queue s"
  "watcher_queue (uv__handle_start h s) = watcher_queue s" "watcher_queue (uv__handle_stop h s) = watcher_queue s"
  "watcher_queue (uv__handle_ref h s) = watcher_queue s" "watcher_queue (uv__handle_unref h s) = watcher_queue s"
  "watchers (uv__handle_start h s) = watchers s" "watchers (uv__handle_stop h s) = watchers s"
  "watchers (uv__handle_ref h s) = watchers s" "watchers (uv__handle_unref h s) = watchers s"
  "nwatchers (uv__handle_start h s) = nwatchers s" "nwatchers (uv__handle_stop h s) = nwatchers s"
  "nwatchers (uv__handle_ref h s) = nwatchers s" "nwatchers (uv__handle_unref h s) = nwatchers s"
  "nfds (uv__handle_start h s) = nfds s" "nfds (uv__handle_stop h s) = nfds s"
  "nfds (uv__handle_ref h s) = nfds s" "nfds (uv__handle_unref h s) = nfds s"
  "closing_handles (uv__handle_start h s) = closing_handles s" "closing_handles (uv__handle_stop h s) = closing_handles s"
  "closing_handles (uv__handle_ref h s) = closing_handles s" "closing_handles (uv__handle_unref h s) = closing_handles s"
  "watcher_handles (uv__handle_start h s) = watcher_handles s" "watcher_handles (uv__handle_stop h s) = watcher_handles s"
  "watcher_handles (uv__handle_ref h s) = watcher_handles s" "watcher_handles (uv__handle_unref h s) = watcher_handles s"
  "async_handles (uv__handle_start h s) = async_handles s" "async_handles (uv__handle_stop h s) = async_handles s"
  "async_handles (uv__handle_ref h s) = async_handles s" "async_handles (uv__handle_unref h s) = async_handles s"
  "async_io_watcher (uv__handle_start h s) = async_io_watcher s" "async_io_watcher (uv__handle_stop h s) = async_io_watcher s"
  "async_io_watcher (uv__handle_ref h s) = async_io_watcher s" "async_io_watcher (uv__handle_unref h s) = async_io_watcher s"
  "timer_heap (uv__handle_start h s) = timer_heap s" "timer_heap (uv__handle_stop h s) = timer_heap s"
  "timer_heap (uv__handle_ref h s) = timer_heap s" "timer_heap (uv__handle_unref h s) = timer_heap s"
  "timer_counter (uv__handle_start h s) = timer_counter s" "timer_counter (uv__handle_stop h s) = timer_counter s"
  "timer_counter (uv__handle_ref h s) = timer_counter s" "timer_counter (uv__handle_unref h s) = timer_counter s"
  "time (uv__handle_start h s) = time s" "time (uv__handle_stop h s) = time s"
  "time (uv__handle_ref h s) = time s" "time (uv__handle_unref h s) = time s"
  "signal_io_watcher (uv__handle_start h s) = signal_io_watcher s" "signal_io_watcher (uv__handle_stop h s) = signal_io_watcher s"
  "signal_io_watcher (uv__handle_ref h s) = signal_io_watcher s" "signal_io_watcher (uv__handle_unref h s) = signal_io_watcher s"
  "signal_tree (uv__handle_start h s) = signal_tree s" "signal_tree (uv__handle_stop h s) = signal_tree s"
  "signal_tree (uv__handle_ref h s) = signal_tree s" "signal_tree (uv__handle_unref h s) = signal_tree s"
  "signal_pipe (uv__handle_start h s) = signal_pipe s" "signal_pipe (uv__handle_stop h s) = signal_pipe s"
  "signal_pipe (uv__handle_ref h s) = signal_pipe s" "signal_pipe (uv__handle_unref h s) = signal_pipe s"
  "ready_queue (uv__handle_start h s) = ready_queue s" "ready_queue (uv__handle_stop h s) = ready_queue s"
  "ready_queue (uv__handle_ref h s) = ready_queue s" "ready_queue (uv__handle_unref h s) = ready_queue s"
  "run_queue (uv__handle_start h s) = run_queue s" "run_queue (uv__handle_stop h s) = run_queue s"
  "run_queue (uv__handle_ref h s) = run_queue s" "run_queue (uv__handle_unref h s) = run_queue s"
  "pending_run (uv__handle_start h s) = pending_run s" "pending_run (uv__handle_stop h s) = pending_run s"
  "pending_run (uv__handle_ref h s) = pending_run s" "pending_run (uv__handle_unref h s) = pending_run s"
  "async_run (uv__handle_start h s) = async_run s" "async_run (uv__handle_stop h s) = async_run s"
  "async_run (uv__handle_ref h s) = async_run s" "async_run (uv__handle_unref h s) = async_run s"
  "walk_queue (uv__handle_start h s) = walk_queue s" "walk_queue (uv__handle_stop h s) = walk_queue s"
  "walk_queue (uv__handle_ref h s) = walk_queue s" "walk_queue (uv__handle_unref h s) = walk_queue s"
  "timer (uv__handle_start h s) = timer s" "timer (uv__handle_stop h s) = timer s"
  "timer (uv__handle_ref h s) = timer s" "timer (uv__handle_unref h s) = timer s"
  "watcher_cb (uv__handle_start h s) = watcher_cb s" "watcher_cb (uv__handle_stop h s) = watcher_cb s"
  "watcher_cb (uv__handle_ref h s) = watcher_cb s" "watcher_cb (uv__handle_unref h s) = watcher_cb s"
  "poll_cb (uv__handle_start h s) = poll_cb s" "poll_cb (uv__handle_stop h s) = poll_cb s"
  "poll_cb (uv__handle_ref h s) = poll_cb s" "poll_cb (uv__handle_unref h s) = poll_cb s"
  "io (uv__handle_start h s) = io s" "io (uv__handle_stop h s) = io s"
  "io (uv__handle_ref h s) = io s" "io (uv__handle_unref h s) = io s"
  "async (uv__handle_start h s) = async s" "async (uv__handle_stop h s) = async s"
  "async (uv__handle_ref h s) = async s" "async (uv__handle_unref h s) = async s"
  "signal (uv__handle_start h s) = signal s" "signal (uv__handle_stop h s) = signal s"
  "signal (uv__handle_ref h s) = signal s" "signal (uv__handle_unref h s) = signal s"
  "lfields_flags (uv__handle_start h s) = lfields_flags s" "lfields_flags (uv__handle_stop h s) = lfields_flags s"
  "lfields_flags (uv__handle_ref h s) = lfields_flags s" "lfields_flags (uv__handle_unref h s) = lfields_flags s"
  "loop_count (uv__handle_start h s) = loop_count s" "loop_count (uv__handle_stop h s) = loop_count s"
  "loop_count (uv__handle_ref h s) = loop_count s" "loop_count (uv__handle_unref h s) = loop_count s"
  "events_count (uv__handle_start h s) = events_count s" "events_count (uv__handle_stop h s) = events_count s"
  "events_count (uv__handle_ref h s) = events_count s" "events_count (uv__handle_unref h s) = events_count s"
  "events_waiting (uv__handle_start h s) = events_waiting s" "events_waiting (uv__handle_stop h s) = events_waiting s"
  "events_waiting (uv__handle_ref h s) = events_waiting s" "events_waiting (uv__handle_unref h s) = events_waiting s"
  "provider_entry_time (uv__handle_start h s) = provider_entry_time s" "provider_entry_time (uv__handle_stop h s) = provider_entry_time s"
  "provider_entry_time (uv__handle_ref h s) = provider_entry_time s" "provider_entry_time (uv__handle_unref h s) = provider_entry_time s"
  "provider_idle_time (uv__handle_start h s) = provider_idle_time s" "provider_idle_time (uv__handle_stop h s) = provider_idle_time s"
  "provider_idle_time (uv__handle_ref h s) = provider_idle_time s" "provider_idle_time (uv__handle_unref h s) = provider_idle_time s"
  "current_timeout (uv__handle_start h s) = current_timeout s" "current_timeout (uv__handle_stop h s) = current_timeout s"
  "current_timeout (uv__handle_ref h s) = current_timeout s" "current_timeout (uv__handle_unref h s) = current_timeout s"
  "poll_fds (uv__handle_start h s) = poll_fds s" "poll_fds (uv__handle_stop h s) = poll_fds s"
  "poll_fds (uv__handle_ref h s) = poll_fds s" "poll_fds (uv__handle_unref h s) = poll_fds s"
  "poll_fds_used (uv__handle_start h s) = poll_fds_used s" "poll_fds_used (uv__handle_stop h s) = poll_fds_used s"
  "poll_fds_used (uv__handle_ref h s) = poll_fds_used s" "poll_fds_used (uv__handle_unref h s) = poll_fds_used s"
  "poll_fds_iterating (uv__handle_start h s) = poll_fds_iterating s" "poll_fds_iterating (uv__handle_stop h s) = poll_fds_iterating s"
  "poll_fds_iterating (uv__handle_ref h s) = poll_fds_iterating s" "poll_fds_iterating (uv__handle_unref h s) = poll_fds_iterating s"
  "hrtime (uv__handle_start h s) = hrtime s" "hrtime (uv__handle_stop h s) = hrtime s"
  "hrtime (uv__handle_ref h s) = hrtime s" "hrtime (uv__handle_unref h s) = hrtime s"
  "readings (uv__handle_start h s) = readings s" "readings (uv__handle_stop h s) = readings s"
  "readings (uv__handle_ref h s) = readings s" "readings (uv__handle_unref h s) = readings s"
  "polls (uv__handle_start h s) = polls s" "polls (uv__handle_stop h s) = polls s"
  "polls (uv__handle_ref h s) = polls s" "polls (uv__handle_unref h s) = polls s"
  "called (uv__handle_start h s) = called s" "called (uv__handle_stop h s) = called s"
  "called (uv__handle_ref h s) = called s" "called (uv__handle_unref h s) = called s"
  by (simp_all add: macro_defs)

lemma handle_init_fields [simp]:
  "handle_queue (uv__handle_init ty h s) = handle_queue s @ [h]"
  "handle (uv__handle_init ty h s) = (handle s)(h := (handle s h)\<lparr>htype := ty, flags := UV_HANDLE_REF\<rparr>)"
  "active_handles (uv__handle_init ty h s) = active_handles s"
  "active_reqs (uv__handle_init ty h s) = active_reqs s"
  "stop_flag (uv__handle_init ty h s) = stop_flag s"
  "loop_flags (uv__handle_init ty h s) = loop_flags s"
  "pending_queue (uv__handle_init ty h s) = pending_queue s"
  "watcher_queue (uv__handle_init ty h s) = watcher_queue s"
  "watchers (uv__handle_init ty h s) = watchers s"
  "nwatchers (uv__handle_init ty h s) = nwatchers s"
  "nfds (uv__handle_init ty h s) = nfds s"
  "closing_handles (uv__handle_init ty h s) = closing_handles s"
  "watcher_handles (uv__handle_init ty h s) = watcher_handles s"
  "async_handles (uv__handle_init ty h s) = async_handles s"
  "async_io_watcher (uv__handle_init ty h s) = async_io_watcher s"
  "timer_heap (uv__handle_init ty h s) = timer_heap s"
  "timer_counter (uv__handle_init ty h s) = timer_counter s"
  "time (uv__handle_init ty h s) = time s"
  "signal_io_watcher (uv__handle_init ty h s) = signal_io_watcher s"
  "signal_tree (uv__handle_init ty h s) = signal_tree s"
  "signal_pipe (uv__handle_init ty h s) = signal_pipe s"
  "ready_queue (uv__handle_init ty h s) = ready_queue s"
  "run_queue (uv__handle_init ty h s) = run_queue s"
  "pending_run (uv__handle_init ty h s) = pending_run s"
  "async_run (uv__handle_init ty h s) = async_run s"
  "walk_queue (uv__handle_init ty h s) = walk_queue s"
  "timer (uv__handle_init ty h s) = timer s"
  "watcher_cb (uv__handle_init ty h s) = watcher_cb s"
  "poll_cb (uv__handle_init ty h s) = poll_cb s"
  "io (uv__handle_init ty h s) = io s"
  "async (uv__handle_init ty h s) = async s"
  "signal (uv__handle_init ty h s) = signal s"
  "lfields_flags (uv__handle_init ty h s) = lfields_flags s"
  "loop_count (uv__handle_init ty h s) = loop_count s"
  "events_count (uv__handle_init ty h s) = events_count s"
  "events_waiting (uv__handle_init ty h s) = events_waiting s"
  "provider_entry_time (uv__handle_init ty h s) = provider_entry_time s"
  "provider_idle_time (uv__handle_init ty h s) = provider_idle_time s"
  "current_timeout (uv__handle_init ty h s) = current_timeout s"
  "poll_fds (uv__handle_init ty h s) = poll_fds s"
  "poll_fds_used (uv__handle_init ty h s) = poll_fds_used s"
  "poll_fds_iterating (uv__handle_init ty h s) = poll_fds_iterating s"
  "hrtime (uv__handle_init ty h s) = hrtime s"
  "readings (uv__handle_init ty h s) = readings s"
  "polls (uv__handle_init ty h s) = polls s"
  "called (uv__handle_init ty h s) = called s"
  by (simp_all add: uv__handle_init_def)

section \<open>Counting\<close>

text \<open>
  The invariant of the handle list and its count: \<open>active_handles\<close> is the number of handles
  that are active and referenced. The handles of a loop are those on its handle queue and,
  while \<open>uv_walk\<close> runs, those on the queue it walks.
\<close>

definition all_handles :: "uv_loop \<Rightarrow> ptr list" where
  "all_handles s = walk_queue s @ handle_queue s"

lemma all_handles [simp]:
  "all_handles (uv__handle_start h s) = all_handles s" "all_handles (uv__handle_stop h s) = all_handles s"
  "all_handles (uv__handle_ref h s) = all_handles s" "all_handles (uv__handle_unref h s) = all_handles s"
  "all_handles (uv__handle_init ty h s) = all_handles s @ [h]"
  by (simp_all add: all_handles_def)

lemma all_handles_update [simp]:
  "all_handles (active_handles_update g1 s) = all_handles s"
  "all_handles (handle_update g2 s) = all_handles s"
  "all_handles (active_reqs_update g3 s) = all_handles s"
  "all_handles (stop_flag_update g4 s) = all_handles s"
  "all_handles (loop_flags_update g5 s) = all_handles s"
  "all_handles (pending_queue_update g6 s) = all_handles s"
  "all_handles (watcher_queue_update g7 s) = all_handles s"
  "all_handles (watchers_update g8 s) = all_handles s"
  "all_handles (nwatchers_update g9 s) = all_handles s"
  "all_handles (nfds_update g10 s) = all_handles s"
  "all_handles (closing_handles_update g11 s) = all_handles s"
  "all_handles (watcher_handles_update g12 s) = all_handles s"
  "all_handles (async_handles_update g13 s) = all_handles s"
  "all_handles (async_io_watcher_update g14 s) = all_handles s"
  "all_handles (timer_heap_update g15 s) = all_handles s"
  "all_handles (timer_counter_update g16 s) = all_handles s"
  "all_handles (time_update g17 s) = all_handles s"
  "all_handles (signal_io_watcher_update g18 s) = all_handles s"
  "all_handles (signal_tree_update g19 s) = all_handles s"
  "all_handles (signal_pipe_update g20 s) = all_handles s"
  "all_handles (ready_queue_update g21 s) = all_handles s"
  "all_handles (run_queue_update g22 s) = all_handles s"
  "all_handles (pending_run_update g23 s) = all_handles s"
  "all_handles (async_run_update g24 s) = all_handles s"
  "all_handles (timer_update g25 s) = all_handles s"
  "all_handles (watcher_cb_update g26 s) = all_handles s"
  "all_handles (poll_cb_update g27 s) = all_handles s"
  "all_handles (io_update g28 s) = all_handles s"
  "all_handles (async_update g29 s) = all_handles s"
  "all_handles (signal_update g30 s) = all_handles s"
  "all_handles (lfields_flags_update g31 s) = all_handles s"
  "all_handles (loop_count_update g32 s) = all_handles s"
  "all_handles (events_count_update g33 s) = all_handles s"
  "all_handles (events_waiting_update g34 s) = all_handles s"
  "all_handles (provider_entry_time_update g35 s) = all_handles s"
  "all_handles (provider_idle_time_update g36 s) = all_handles s"
  "all_handles (current_timeout_update g37 s) = all_handles s"
  "all_handles (poll_fds_update g38 s) = all_handles s"
  "all_handles (poll_fds_used_update g39 s) = all_handles s"
  "all_handles (poll_fds_iterating_update g40 s) = all_handles s"
  "all_handles (hrtime_update g41 s) = all_handles s"
  "all_handles (readings_update g42 s) = all_handles s"
  "all_handles (polls_update g43 s) = all_handles s"
  "all_handles (called_update g44 s) = all_handles s"
  by (simp_all add: all_handles_def)

lemma new_loop_simps:
  "all_handles (new_loop clk) = []" "handle_queue (new_loop clk) = []" "active_handles (new_loop clk) = 0"
  "ready_queue (new_loop clk) = []" "hmin (timer_heap (new_loop clk)) = 0" "nelts (timer_heap (new_loop clk)) = 0"
  "time (new_loop clk) = 0" "called (new_loop clk) = []" "watcher_handles (new_loop clk) = (\<lambda>_. [])"
  "run_queue (new_loop clk) = (\<lambda>_. [])"
  by (simp_all add: new_loop_def all_handles_def)

lemma all_handles_cong: "walk_queue s' = walk_queue s \<Longrightarrow> handle_queue s' = handle_queue s \<Longrightarrow> all_handles s' = all_handles s"
  by (simp add: all_handles_def)

definition counted :: "uv_loop \<Rightarrow> ptr set" where
  "counted s = {h \<in> set (all_handles s). active s h \<and> refd s h}"

definition counts_ok :: "uv_loop \<Rightarrow> bool" where
  "counts_ok s \<longleftrightarrow> distinct (all_handles s) \<and> NULL \<notin> set (all_handles s) \<and>
     length (all_handles s) < 2 ^ 32 \<and> active_handles s = of_nat (card (counted s))"

lemma finite_counted [simp]: "finite (counted s)"
  by (simp add: counted_def)

lemma card_counted: "counts_ok s \<Longrightarrow> card (counted s) < 2 ^ 32"
proof -
  assume "counts_ok s"
  moreover have "card (counted s) \<le> card (set (all_handles s))" by (rule card_mono) (auto simp: counted_def)
  ultimately show ?thesis by (simp add: counts_ok_def distinct_card)
qed

lemma has_active_handles_iff: "counts_ok s \<Longrightarrow> uv__has_active_handles s \<longleftrightarrow> counted s \<noteq> {}"
proof -
  assume a: "counts_ok s"
  have "(of_nat (card (counted s)) :: u32) = 0 \<longleftrightarrow> counted s = {}"
    using of_nat_u32_eq_0 [OF card_counted [OF a]] by simp
  then show ?thesis using a by (simp add: uv__has_active_handles_def counts_ok_def word_gt_0)
qed

lemma counts_ok_cong:
  assumes "counts_ok s" "all_handles s' = all_handles s" "handle s' = handle s" "active_handles s' = active_handles s"
  shows "counts_ok s'"
  using assms by (simp add: counts_ok_def counted_def)

lemma counts_ok_insert:
  assumes "counts_ok s" "all_handles s' = all_handles s" "counted s' = insert h (counted s)"
    and "h \<notin> counted s" "active_handles s' = active_handles s + 1"
  shows "counts_ok s'"
  using assms by (simp add: counts_ok_def)

lemma counts_ok_delete:
  assumes "counts_ok s" "all_handles s' = all_handles s" "counted s' = counted s - {h}"
    and "h \<in> counted s" "active_handles s' = active_handles s - 1"
  shows "counts_ok s'"
proof -
  have "card (counted s) = Suc (card (counted s'))" unfolding assms(3) using assms(4) by (intro card.remove) simp_all
  then have "active_handles s' = of_nat (card (counted s'))" using assms(1,5) by (simp add: counts_ok_def)
  then show ?thesis using assms(1,2) by (simp add: counts_ok_def)
qed

lemma counts_ok_same:
  assumes "counts_ok s" "all_handles s' = all_handles s" "counted s' = counted s"
    and "active_handles s' = active_handles s"
  shows "counts_ok s'"
  using assms by (simp add: counts_ok_def)

lemma counts_ok_start:
  assumes "counts_ok s" "h \<in> set (all_handles s)"
  shows "counts_ok (uv__handle_start h s)"
proof -
  have "counted (uv__handle_start h s) = (if refd s h then insert h (counted s) else counted s)"
    using assms(2) by (auto simp: counted_def macro_handles flag_update)
  moreover have "active_handles (uv__handle_start h s) =
    (if \<not> active s h \<and> refd s h then active_handles s + 1 else active_handles s)"
    by (simp add: macro_defs flag_test flag_update)
  ultimately show ?thesis
    using counts_ok_insert [OF assms(1), of "uv__handle_start h s" h] counts_ok_same [OF assms(1), of "uv__handle_start h s"] assms(2)
    by (cases "active s h"; cases "refd s h") (auto simp: counted_def)
qed

lemma counts_ok_stop:
  assumes "counts_ok s" "h \<in> set (all_handles s)"
  shows "counts_ok (uv__handle_stop h s)"
proof -
  have "counted (uv__handle_stop h s) = counted s - {h}"
    by (auto simp: counted_def macro_handles flag_update)
  moreover have "active_handles (uv__handle_stop h s) =
    (if active s h \<and> refd s h then active_handles s - 1 else active_handles s)"
    by (simp add: macro_defs flag_test flag_update)
  ultimately show ?thesis
    using counts_ok_delete [OF assms(1), of "uv__handle_stop h s" h] counts_ok_same [OF assms(1), of "uv__handle_stop h s"] assms(2)
    by (cases "active s h"; cases "refd s h") (auto simp: counted_def)
qed

text \<open>A closing handle may only be referenced or dereferenced while it is not active.\<close>

lemma counts_ok_ref:
  assumes "counts_ok s" "h \<in> set (all_handles s)" "closing s h \<longrightarrow> \<not> active s h"
  shows "counts_ok (uv__handle_ref h s)" and "counts_ok (uv__handle_unref h s)"
proof -
  have "counted (uv__handle_ref h s) = (if active s h then insert h (counted s) else counted s)"
    using assms(2) by (auto simp: counted_def macro_handles flag_update)
  moreover have "active_handles (uv__handle_ref h s) =
    (if active s h \<and> \<not> refd s h then active_handles s + 1 else active_handles s)"
    using assms(3) by (auto simp: macro_defs flag_test flag_update)
  ultimately show "counts_ok (uv__handle_ref h s)"
    using counts_ok_insert [OF assms(1), of "uv__handle_ref h s" h] counts_ok_same [OF assms(1), of "uv__handle_ref h s"] assms(2)
    by (cases "active s h"; cases "refd s h") (auto simp: counted_def)
  have "counted (uv__handle_unref h s) = counted s - {h}"
    by (auto simp: counted_def macro_handles flag_update)
  moreover have "active_handles (uv__handle_unref h s) =
    (if active s h \<and> refd s h then active_handles s - 1 else active_handles s)"
    using assms(3) by (auto simp: macro_defs flag_test flag_update)
  ultimately show "counts_ok (uv__handle_unref h s)"
    using counts_ok_delete [OF assms(1), of "uv__handle_unref h s" h] counts_ok_same [OF assms(1), of "uv__handle_unref h s"] assms(2)
    by (cases "active s h"; cases "refd s h") (auto simp: counted_def)
qed

lemma counts_ok_init:
  assumes "counts_ok s" "h \<notin> set (all_handles s)" "h \<noteq> NULL" "length (all_handles s) + 1 < 2 ^ 32"
  shows "counts_ok (uv__handle_init ty h s)"
proof -
  have "counted (uv__handle_init ty h s) = counted s"
    using assms(2) by (auto simp: counted_def flag_update)
  then show ?thesis using assms by (auto simp: counts_ok_def)
qed

lemma counts_ok_empty: "all_handles s = [] \<Longrightarrow> active_handles s = 0 \<Longrightarrow> counts_ok s"
  by (simp add: counts_ok_def counted_def)

section \<open>Callbacks\<close>

text \<open>
  A user callback is a function of the client on the state of the loop; running one is
  recorded, and calling the null pointer is \<open>None\<close>. A callback cannot put a node on a queue
  of a function that is running, it can only unlink nodes from it.
\<close>

type_synonym client = "ptr \<Rightarrow> ptr \<Rightarrow> uv_loop \<Rightarrow> uv_loop option"

definition call :: "client \<Rightarrow> ptr \<Rightarrow> ptr \<Rightarrow> uv_loop \<Rightarrow> uv_loop option" where
  "call client cb h s =
     (if cb = NULL then None else client cb h (s\<lparr>called := called s @ [(cb, h)]\<rparr>))"

definition callback_frame :: "uv_loop \<Rightarrow> uv_loop \<Rightarrow> bool" where
  "callback_frame s s' \<longleftrightarrow> subseq (ready_queue s') (ready_queue s) \<and>
     (\<forall>k. subseq (run_queue s' k) (run_queue s k)) \<and> subseq (pending_run s') (pending_run s) \<and>
     subseq (async_run s') (async_run s) \<and> subseq (walk_queue s') (walk_queue s) \<and> called s' = called s"

lemma subseq_remove1: "subseq (remove1 x xs) xs"
  by (induction xs) auto

lemma callback_frame_refl: "callback_frame s s"
  by (simp add: callback_frame_def)

lemma callback_frame_trans: "callback_frame s s' \<Longrightarrow> callback_frame s' s'' \<Longrightarrow> callback_frame s s''"
  unfolding callback_frame_def by (auto intro: subseq_order.order_trans)

text \<open>
  What the functions that run callbacks need of a client: its callbacks return, and keep
  whatever the client promises to keep, \<open>ok\<close>.
\<close>

locale loop_client =
  fixes client :: client
    and ok :: "uv_loop \<Rightarrow> bool"
  assumes client_ok: "ok s \<Longrightarrow> cb \<noteq> NULL \<Longrightarrow> \<exists>s'. client cb h s = Some s' \<and> ok s' \<and> callback_frame s s'"
    and ok_called: "ok s \<Longrightarrow> ok (s\<lparr>called := c\<rparr>)"
begin

lemma call_ok:
  assumes "ok s" "cb \<noteq> NULL"
  shows "\<exists>s'. call client cb h s = Some s' \<and> ok s' \<and> subseq (ready_queue s') (ready_queue s) \<and>
    (\<forall>k. subseq (run_queue s' k) (run_queue s k)) \<and> subseq (pending_run s') (pending_run s) \<and>
    subseq (async_run s') (async_run s) \<and> subseq (walk_queue s') (walk_queue s) \<and> called s' = called s @ [(cb, h)]"
  using client_ok [OF ok_called [OF assms(1), of "called s @ [(cb, h)]"] assms(2), of h] assms(2)
  by (simp add: call_def callback_frame_def)

end

end
