(* ===== verification/Timer.thy ===== *)
theory Timer
  imports Handles
begin

text \<open>
  \<^verbatim>\<open>timer.c\<close>: timers kept in the heap of the loop, ordered by due time and, among equal due
  times, by the order in which they were started. An operation on the heap may, on a heap
  that is not well formed, not end; the results are therefore options, and the lemmas show
  that under the invariant \<open>timers_ok\<close> every operation ends. A returned error is
  \<open>Some err\<close>, the return value 0 is \<open>None\<close>.
\<close>

section \<open>The operations\<close>

definition timer_less_than :: "uv_loop \<Rightarrow> ptr \<Rightarrow> ptr \<Rightarrow> bool" where
  "timer_less_than s ha hb =
     (let a = timer s ha; b = timer s hb
      in if timeout a < timeout b then True
         else if timeout b < timeout a then False
         else start_id a < start_id b)"

text \<open>A timer that is in no queue is linked to itself: it is on no list of the model.\<close>

definition uv_timer_init :: "ptr \<Rightarrow> uv_loop \<Rightarrow> uv_loop" where
  "uv_timer_init h s =
     (let s = uv__handle_init UV_TIMER h s
      in set_timer h ((timer s h)\<lparr>timer_cb := NULL, timeout := 0, repeat_in := 0\<rparr>) s)"

definition uv_timer_stop :: "ptr \<Rightarrow> uv_loop \<Rightarrow> uv_loop option" where
  "uv_timer_stop h s =
     (if uv__is_active h s
      then map_option (\<lambda>hp. uv__handle_stop h (s\<lparr>timer_heap := hp\<rparr>))
             (heap_remove h (timer_less_than s) (timer_heap s))
      else Some (s\<lparr>ready_queue := remove1 h (ready_queue s)\<rparr>))"

definition clamped_timeout :: "u64 \<Rightarrow> u64 \<Rightarrow> u64" where
  "clamped_timeout now tmo = (let c = now + tmo in if c < tmo then - 1 else c)"

definition uv_timer_start ::
  "ptr \<Rightarrow> ptr \<Rightarrow> u64 \<Rightarrow> u64 \<Rightarrow> uv_loop \<Rightarrow> (uv_errno option \<times> uv_loop) option" where
  "uv_timer_start h cb tmo rep s =
     (if uv__is_closing h s \<or> cb = NULL then Some (Some UV_EINVAL, s)
      else
        Option.bind (uv_timer_stop h s) (\<lambda>s.
          let s = set_timer h \<lparr>timer_cb = cb, timeout = clamped_timeout (time s) tmo, repeat_in = rep,
                    start_id = timer_counter s\<rparr> s;
              s = s\<lparr>timer_counter := timer_counter s + 1\<rparr>
          in map_option (\<lambda>hp. (None, uv__handle_start h (s\<lparr>timer_heap := hp\<rparr>)))
               (heap_insert h (timer_less_than s) (timer_heap s))))"

definition uv_timer_again :: "ptr \<Rightarrow> uv_loop \<Rightarrow> (uv_errno option \<times> uv_loop) option" where
  "uv_timer_again h s =
     (if timer_cb (timer s h) = NULL then Some (Some UV_EINVAL, s)
      else if repeat_in (timer s h) \<noteq> 0 then
        Option.bind (uv_timer_stop h s) (\<lambda>s.
          map_option (\<lambda>(_, s). (None, s))
            (uv_timer_start h (timer_cb (timer s h)) (repeat_in (timer s h)) (repeat_in (timer s h)) s))
      else Some (None, s))"

definition uv_timer_set_repeat :: "ptr \<Rightarrow> u64 \<Rightarrow> uv_loop \<Rightarrow> uv_loop" where
  "uv_timer_set_repeat h rep s = set_timer h ((timer s h)\<lparr>repeat_in := rep\<rparr>) s"

definition uv_timer_get_repeat :: "ptr \<Rightarrow> uv_loop \<Rightarrow> u64" where
  "uv_timer_get_repeat h s = repeat_in (timer s h)"

definition uv_timer_get_due_in :: "ptr \<Rightarrow> uv_loop \<Rightarrow> u64" where
  "uv_timer_get_due_in h s =
     (if time s \<ge> timeout (timer s h) then 0 else timeout (timer s h) - time s)"

definition INT_MAX :: int where "INT_MAX = 2147483647"

definition uv__next_timeout :: "uv_loop \<Rightarrow> int" where
  "uv__next_timeout s =
     (let h = heap_min (timer_heap s)
      in if h = NULL then -1
         else if timeout (timer s h) \<le> time s then 0
         else
           let diff = timeout (timer s h) - time s;
               diff = (if diff > word_of_int INT_MAX then word_of_int INT_MAX else diff)
           in uint diff)"

text \<open>
  \<open>collect_due\<close> is the first loop of \<open>uv__run_timers\<close>, \<open>run_ready\<close> the second.
\<close>

partial_function (option) collect_due :: "uv_loop \<Rightarrow> uv_loop option" where
  "collect_due s =
     (let h = heap_min (timer_heap s)
      in if h = NULL then Some s
         else if timeout (timer s h) > time s then Some s
         else Option.bind (uv_timer_stop h s)
                (\<lambda>s. collect_due (s\<lparr>ready_queue := ready_queue s @ [h]\<rparr>)))"

partial_function (option) run_ready :: "client \<Rightarrow> uv_loop \<Rightarrow> uv_loop option" where
  "run_ready client s =
     (case ready_queue s of
        [] \<Rightarrow> Some s
      | h # q \<Rightarrow>
          Option.bind (uv_timer_again h (s\<lparr>ready_queue := q\<rparr>)) (\<lambda>(_, s).
            Option.bind (call client (timer_cb (timer s h)) h s) (run_ready client)))"

declare collect_due.simps [code] and run_ready.simps [code]

definition uv__run_timers :: "client \<Rightarrow> uv_loop \<Rightarrow> uv_loop option" where
  "uv__run_timers client s = Option.bind (collect_due (s\<lparr>ready_queue := []\<rparr>)) (run_ready client)"

definition uv__timer_close :: "ptr \<Rightarrow> uv_loop \<Rightarrow> uv_loop option" where
  "uv__timer_close h s = uv_timer_stop h s"

section \<open>The order of timers\<close>

lemma timer_less_key:
  "timer_less_than s a b \<longleftrightarrow>
     timeout (timer s a) < timeout (timer s b) \<or>
     timeout (timer s a) = timeout (timer s b) \<and> start_id (timer s a) < start_id (timer s b)"
  by (auto simp: timer_less_than_def Let_def)

interpretation timer_order: weak_order "timer_less_than s" for s
  by unfold_locales (auto simp: timer_less_key)

section \<open>The invariant\<close>

definition active_timers :: "uv_loop \<Rightarrow> ptr set" where
  "active_timers s = {h \<in> set (all_handles s). htype (handle s h) = UV_TIMER \<and> active s h}"

definition timers_ok :: "uv_loop \<Rightarrow> bool" where
  "timers_ok s \<longleftrightarrow>
     heap_pq (timer_less_than s) (timer_heap s) (active_timers s) \<and> distinct (ready_queue s) \<and>
     (\<forall>h \<in> set (ready_queue s). h \<in> set (all_handles s) \<and> htype (handle s h) = UV_TIMER \<and> \<not> active s h) \<and>
     (\<forall>h \<in> active_timers s \<union> set (ready_queue s). timer_cb (timer s h) \<noteq> NULL)"

lemma timers_ok_cong:
  assumes "timers_ok s" "timer_heap s' = timer_heap s" "timer s' = timer s" "ready_queue s' = ready_queue s"
    and "active_timers s' = active_timers s"
    and "\<And>h. h \<in> set (ready_queue s) \<Longrightarrow>
      h \<in> set (all_handles s') \<and> htype (handle s' h) = htype (handle s h) \<and> active s' h = active s h"
  shows "timers_ok s'"
proof -
  have "timer_less_than s' = timer_less_than s" by (simp add: fun_eq_iff timer_less_than_def assms(3))
  then show ?thesis using assms unfolding timers_ok_def by simp
qed

text \<open>
  What an operation on the timer \<open>h\<close> leaves alone: everything but the heap, the ready queue,
  the counts, the timer itself and the flag of \<open>h\<close> that says whether it is active.
\<close>

definition erase_timers :: "uv_loop \<Rightarrow> uv_loop" where
  "erase_timers s = (let z = new_loop (\<lambda>_. 0) in s\<lparr>active_handles := 0, handle := handle z, timer_heap := timer_heap z, timer_counter := timer_counter z, ready_queue := ready_queue z, timer := timer z\<rparr>)"

lemma erase_timersD:
  assumes "erase_timers s' = erase_timers s"
  shows "handle_queue s' = handle_queue s" "active_reqs s' = active_reqs s" 
    "stop_flag s' = stop_flag s" "loop_flags s' = loop_flags s" 
    "pending_queue s' = pending_queue s" "watcher_queue s' = watcher_queue s" 
    "watchers s' = watchers s" "nwatchers s' = nwatchers s" "nfds s' = nfds s" 
    "closing_handles s' = closing_handles s" "watcher_handles s' = watcher_handles s" 
    "async_handles s' = async_handles s" "async_io_watcher s' = async_io_watcher s" 
    "time s' = time s" "signal_io_watcher s' = signal_io_watcher s" 
    "signal_tree s' = signal_tree s" "signal_pipe s' = signal_pipe s" "run_queue s' = run_queue s" 
    "pending_run s' = pending_run s" "async_run s' = async_run s" "walk_queue s' = walk_queue s" 
    "watcher_cb s' = watcher_cb s" "poll_cb s' = poll_cb s" "io s' = io s" "async s' = async s" 
    "signal s' = signal s" "lfields_flags s' = lfields_flags s" "loop_count s' = loop_count s" 
    "events_count s' = events_count s" "events_waiting s' = events_waiting s" 
    "provider_entry_time s' = provider_entry_time s" "provider_idle_time s' = provider_idle_time s" 
    "current_timeout s' = current_timeout s" "poll_fds s' = poll_fds s" 
    "poll_fds_used s' = poll_fds_used s" "poll_fds_iterating s' = poll_fds_iterating s" 
    "hrtime s' = hrtime s" "readings s' = readings s" "polls s' = polls s" "called s' = called s" 
    "all_handles s' = all_handles s"
  using assms by (cases s; cases s'; simp add: erase_timers_def all_handles_def Let_def)+

lemma erase_timers_macros [simp]:
  "erase_timers (uv__handle_start h s) = erase_timers s"
  "erase_timers (uv__handle_stop h s) = erase_timers s"
  "erase_timers (uv__handle_ref h s) = erase_timers s"
  "erase_timers (uv__handle_unref h s) = erase_timers s"
  by (simp_all add: macro_defs erase_timers_def)

lemma erase_timers_update [simp]:
  "erase_timers (active_handles_update g1 s) = erase_timers s"
  "erase_timers (handle_update g2 s) = erase_timers s"
  "erase_timers (timer_heap_update g3 s) = erase_timers s"
  "erase_timers (timer_counter_update g4 s) = erase_timers s"
  "erase_timers (ready_queue_update g5 s) = erase_timers s"
  "erase_timers (timer_update g6 s) = erase_timers s"
  by (cases s; simp add: erase_timers_def Let_def)+

definition timer_frame :: "ptr \<Rightarrow> uv_loop \<Rightarrow> uv_loop \<Rightarrow> bool" where
  "timer_frame h s s' \<longleftrightarrow> erase_timers s' = erase_timers s \<and>
     (\<forall>g. g \<noteq> h \<longrightarrow> timer s' g = timer s g \<and> handle s' g = handle s g) \<and>
     (\<exists>w. handle s' h = (handle s h)\<lparr>flags := w\<rparr> \<and> (\<forall>n. n \<noteq> 2 \<longrightarrow> bit w n = bit (flags (handle s h)) n)) \<and>
     (closing s h \<and> active s' h \<longrightarrow> active s h)"

lemma timer_frame_refl: "timer_frame h s s"
  unfolding timer_frame_def by (auto intro!: exI [of _ "flags (handle s h)"])

lemma timer_frame_trans: "timer_frame h s s' \<Longrightarrow> timer_frame h s' s'' \<Longrightarrow> timer_frame h s s''"
  unfolding timer_frame_def by (auto intro: exI)

lemma timer_frameD:
  assumes "timer_frame h s s'"
  shows "all_handles s' = all_handles s" "erase_timers s' = erase_timers s" "timer_frame h s s'"
    "called s' = called s" "time s' = time s" "pending_run s' = pending_run s" "called s' = called s"
    "htype (handle s' g) = htype (handle s g)" "n \<noteq> 2 \<Longrightarrow> bit (flags (handle s' g)) n = bit (flags (handle s g)) n"
    "g \<noteq> h \<Longrightarrow> handle s' g = handle s g" "g \<noteq> h \<Longrightarrow> timer s' g = timer s g"
proof -
  have e: "erase_timers s' = erase_timers s" using assms by (simp add: timer_frame_def)
  show "all_handles s' = all_handles s" "erase_timers s' = erase_timers s" "timer_frame h s s'"
    "called s' = called s" "time s' = time s" "pending_run s' = pending_run s" "called s' = called s"
    using erase_timersD [OF e] e assms by simp_all
  show "htype (handle s' g) = htype (handle s g)" "n \<noteq> 2 \<Longrightarrow> bit (flags (handle s' g)) n = bit (flags (handle s g)) n"
    "g \<noteq> h \<Longrightarrow> handle s' g = handle s g" "g \<noteq> h \<Longrightarrow> timer s' g = timer s g"
    using assms unfolding timer_frame_def by (cases "g = h"; auto)+
qed

abbreviation a_timer :: "uv_loop \<Rightarrow> ptr \<Rightarrow> bool" where
  "a_timer s h \<equiv> h \<in> set (all_handles s) \<and> htype (handle s h) = UV_TIMER"

section \<open>Stopping and starting\<close>

lemma frame_start_stop:
  "timer_frame h s (uv__handle_stop h (s\<lparr>timer_heap := hp\<rparr>))"
  "\<not> closing s h \<Longrightarrow> timer_frame h s (uv__handle_start h (s\<lparr>timer_heap := hp\<rparr>))"
  unfolding timer_frame_def by (auto simp: macro_handles flag_update intro!: exI)

lemma timer_stop_ok:
  assumes "counts_ok s" "timers_ok s" "a_timer s h"
  shows "\<exists>s'. uv_timer_stop h s = Some s' \<and> counts_ok s' \<and> timers_ok s' \<and> timer_frame h s s' \<and>
    \<not> active s' h \<and> ready_queue s' = remove1 h (ready_queue s) \<and> timer s' = timer s \<and>
    active_timers s' = active_timers s - {h} \<and> timer_counter s' = timer_counter s"
proof (cases "active s h")
  case True
  let ?lt = "timer_less_than s"
  have h: "h \<in> active_timers s" "h \<notin> set (ready_queue s)"
    using assms True by (auto simp: active_timers_def timers_ok_def)
  obtain hp where hp: "heap_remove h ?lt (timer_heap s) = Some hp" "heap_pq ?lt hp (active_timers s - {h})"
    using timer_order.heap_queue.remove_pq h(1) assms(2) unfolding timers_ok_def by blast
  let ?s = "uv__handle_stop h (s\<lparr>timer_heap := hp\<rparr>)"
  have r: "uv_timer_stop h s = Some ?s" using True hp(1) by (simp add: uv_timer_stop_def is_bits)
  have c: "counts_ok (s\<lparr>timer_heap := hp\<rparr>)" by (rule counts_ok_cong [OF assms(1)]) simp_all
  have a: "active_timers ?s = active_timers s - {h}"
    by (auto simp: active_timers_def macro_handles flag_update)
  have "timer_less_than ?s = ?lt" by (simp add: fun_eq_iff timer_less_than_def)
  then have "timers_ok ?s"
    using assms(2) hp(2) h unfolding timers_ok_def a by (simp add: macro_handles flag_update ball_Un)
  then show ?thesis
    using r a h(2) frame_start_stop(1) [of h s hp] counts_ok_stop [OF c] assms(3)
    by (auto simp: macro_handles flag_update remove1_idem)
next
  case False
  let ?s = "s\<lparr>ready_queue := remove1 h (ready_queue s)\<rparr>"
  have a: "active_timers ?s = active_timers s" "h \<notin> active_timers s"
    using False by (simp_all add: active_timers_def)
  have "timer_less_than ?s = timer_less_than s" by (simp add: fun_eq_iff timer_less_than_def)
  then have "timers_ok ?s"
    using assms(2) unfolding timers_ok_def a by (auto simp: ball_Un dest!: set_remove1_subset [THEN subsetD])
  moreover have "timer_frame h s ?s" using timer_frame_refl [of h s] by (simp add: timer_frame_def)
  moreover have "counts_ok ?s" by (rule counts_ok_cong [OF assms(1)]) simp_all
  ultimately show ?thesis using False a by (auto simp: uv_timer_stop_def is_bits)
qed

lemma card_active_timers:
  assumes "counts_ok s" "h \<in> set (all_handles s)" "h \<notin> active_timers s"
  shows "card (active_timers s) + 1 < 2 ^ 32"
proof -
  have "insert h (active_timers s) \<subseteq> set (all_handles s)" using assms(2) by (auto simp: active_timers_def)
  then have "card (insert h (active_timers s)) \<le> card (set (all_handles s))" by (intro card_mono) simp_all
  moreover have "card (set (all_handles s)) < 2 ^ 32" using assms(1) by (simp add: counts_ok_def distinct_card)
  moreover have "card (insert h (active_timers s)) = card (active_timers s) + 1"
    using assms(3) by (simp add: active_timers_def)
  ultimately show ?thesis by linarith
qed

lemma timer_start_ok:
  assumes "counts_ok s" "timers_ok s" "a_timer s h" "\<not> uv__is_closing h s" "cb \<noteq> NULL"
  shows "\<exists>s'. uv_timer_start h cb tmo rep s = Some (None, s') \<and> counts_ok s' \<and> timers_ok s' \<and>
    timer_frame h s s' \<and> active s' h \<and> ready_queue s' = remove1 h (ready_queue s) \<and>
    timer s' h = \<lparr>timer_cb = cb, timeout = clamped_timeout (time s) tmo, repeat_in = rep, start_id = timer_counter s\<rparr> \<and>
    active_timers s' = insert h (active_timers s) \<and> timer_counter s' = timer_counter s + 1"
proof -
  obtain s1 where s1: "uv_timer_stop h s = Some s1" "counts_ok s1" "timers_ok s1" "timer_frame h s s1"
    "\<not> active s1 h" "ready_queue s1 = remove1 h (ready_queue s)" "timer s1 = timer s"
    "active_timers s1 = active_timers s - {h}" "timer_counter s1 = timer_counter s"
    using timer_stop_ok [OF assms(1-3)] by blast
  note f1 = timer_frameD [OF s1(4)]
  let ?t = "\<lparr>timer_cb = cb, timeout = clamped_timeout (time s) tmo, repeat_in = rep, start_id = timer_counter s\<rparr>"
  define s2 where "s2 = (set_timer h ?t s1)\<lparr>timer_counter := timer_counter s1 + 1\<rparr>"
  have s2: "handle s2 = handle s1" "timer s2 = (timer s1)(h := ?t)" "timer_heap s2 = timer_heap s1"
    "all_handles s2 = all_handles s1" "ready_queue s2 = ready_queue s1" "active_handles s2 = active_handles s1"
    by (simp_all add: s2_def set_timer_def)
  have h: "h \<notin> active_timers s1" "h \<noteq> NULL" "h \<in> set (all_handles s1)" "h \<notin> set (ready_queue s1)"
    using s1 f1 assms(2,3) by (auto simp: counts_ok_def timers_ok_def)
  have "heap_pq (timer_less_than s2) (timer_heap s2) (active_timers s1)"
    unfolding s2 by (rule heap_pq_cong [where lt = "timer_less_than s1"])
      (use s1(3) h(1) in \<open>auto simp: timers_ok_def timer_less_than_def s2\<close>)
  then obtain hp where hp: "heap_insert h (timer_less_than s2) (timer_heap s2) = Some hp"
    "heap_pq (timer_less_than s2) hp (insert h (active_timers s1))"
    using timer_order.heap_queue.insert_pq [OF _ h(1,2) card_active_timers [OF s1(2) h(3,1)]] by blast
  let ?s = "uv__handle_start h (s2\<lparr>timer_heap := hp\<rparr>)"
  have "uv_timer_start h cb tmo rep s = map_option (\<lambda>hp. (None, uv__handle_start h (s2\<lparr>timer_heap := hp\<rparr>)))
      (heap_insert h (timer_less_than s2) (timer_heap s2))"
    using assms(4,5) s1(1) f1(5) s1(9) by (simp add: uv_timer_start_def Let_def s2_def set_timer_def)
  then have r: "uv_timer_start h cb tmo rep s = Some (None, ?s)" using hp(1) by simp
  have c: "counts_ok ?s"
    by (rule counts_ok_start) (use counts_ok_cong [OF s1(2)] s2 h(3) in auto)
  have a: "active_timers ?s = insert h (active_timers s)"
    using assms(3) s1(8) f1(1,8) h(3) by (auto simp: active_timers_def macro_handles flag_update s2)
  have "timer_less_than ?s = timer_less_than s2" by (simp add: fun_eq_iff timer_less_than_def)
  then have t: "timers_ok ?s"
    using s1(3,8) hp(2) h(4) assms(5) unfolding timers_ok_def a
    by (auto simp: macro_handles flag_update s2)
  have fr: "timer_frame h s1 s2"
    using timer_frame_refl [of h s1] by (simp add: timer_frame_def s2_def set_timer_def)
  have "\<not> closing s2 h" using assms(4) f1(9) [of 0 h] s2(1) by (simp add: is_bits)
  then have "timer_frame h s2 ?s" by (rule frame_start_stop(2))
  with fr have "timer_frame h s ?s" by (rule timer_frame_trans [OF timer_frame_trans [OF s1(4)]])
  moreover have "active ?s h" by (simp add: macro_handles flag_update)
  moreover have "timer_counter ?s = timer_counter s + 1" using s1(9) by (simp add: s2_def)
  ultimately show ?thesis using r c t a s1(6) s2(2,5) by auto
qed

definition due_timers :: "uv_loop \<Rightarrow> ptr set" where
  "due_timers s = {h \<in> active_timers s. timeout (timer s h) \<le> time s}"

lemma unat_max_u64: "unat (- 1 :: u64) = 2 ^ 64 - 1"
  by (simp add: unsigned_minus_1_eq_mask mask_eq_exp_minus_1)

lemma clamped_timeout_unat:
  "unat (clamped_timeout now tmo) = min (unat now + unat tmo) (2 ^ 64 - 1)"
proof -
  have l: "unat now < 2 ^ 64" "unat tmo < 2 ^ 64" using unsigned_less [of now, where ?'a = nat] unsigned_less [of tmo, where ?'a = nat] by simp_all
  show ?thesis
  proof (cases "unat now + unat tmo < 2 ^ 64")
    case True
    then have "unat (now + tmo) = unat now + unat tmo" by (simp add: unat_word_ariths)
    then show ?thesis using True by (simp add: clamped_timeout_def Let_def word_less_nat_alt)
  next
    case False
    then have "unat (now + tmo) = unat now + unat tmo - 2 ^ 64"
      using l by (simp add: unat_word_ariths mod_if)
    then have "now + tmo < tmo" using l False by (simp add: word_less_nat_alt)
    then show ?thesis using False unat_max_u64 by (simp add: clamped_timeout_def)
  qed
qed

lemma clamped_timeout_later: "r \<noteq> 0 \<Longrightarrow> now \<noteq> - 1 \<Longrightarrow> now < clamped_timeout now r"
proof -
  assume a: "r \<noteq> 0" "now \<noteq> - 1"
  have "unat now \<noteq> 2 ^ 64 - 1" using a(2) unat_max_u64 unsigned_word_eqI by metis
  moreover have "unat now < 2 ^ 64" using unsigned_less [of now, where ?'a = nat] by simp
  moreover have "0 < unat r" using a(1) by (simp add: unat_gt_0)
  ultimately show ?thesis by (simp add: word_less_nat_alt clamped_timeout_unat)
qed

lemma timer_again_ok:
  assumes "counts_ok s" "timers_ok s" "a_timer s h" "timer_cb (timer s h) \<noteq> NULL" "h \<notin> set (ready_queue s)"
  shows "\<exists>s'. uv_timer_again h s = Some (None, s') \<and> counts_ok s' \<and> timers_ok s' \<and> timer_frame h s s' \<and>
    ready_queue s' = ready_queue s \<and> timer_cb (timer s' h) = timer_cb (timer s h) \<and>
    (time s \<noteq> - 1 \<longrightarrow> due_timers s' \<subseteq> due_timers s)"
proof (cases "repeat_in (timer s h) = 0")
  case True
  then show ?thesis using assms timer_frame_refl [of h s] by (simp add: uv_timer_again_def)
next
  case rep: False
  obtain s1 where s1: "uv_timer_stop h s = Some s1" "counts_ok s1" "timers_ok s1" "timer_frame h s s1"
    "ready_queue s1 = remove1 h (ready_queue s)" "timer s1 = timer s" "active_timers s1 = active_timers s - {h}"
    using timer_stop_ok [OF assms(1-3)] by blast
  have r1: "ready_queue s1 = ready_queue s" using s1(5) assms(5) by (simp add: remove1_idem)
  have h1: "a_timer s1 h" using assms(3) timer_frameD [OF s1(4)] by simp
  let ?start = "uv_timer_start h (timer_cb (timer s h)) (repeat_in (timer s h)) (repeat_in (timer s h)) s1"
  have again: "uv_timer_again h s = map_option (\<lambda>(_, s). (None, s)) ?start"
    using rep assms(4) s1(1,6) by (simp add: uv_timer_again_def)
  show ?thesis
  proof (cases "uv__is_closing h s1")
    case True
    then have "?start = Some (Some UV_EINVAL, s1)" by (simp add: uv_timer_start_def)
    moreover have "due_timers s1 \<subseteq> due_timers s"
      using s1(6,7) timer_frameD(5) [OF s1(4)] by (auto simp: due_timers_def)
    ultimately show ?thesis using again s1 r1 by simp
  next
    case False
    from timer_start_ok [OF s1(2,3) h1 False assms(4)] obtain s2 where
      s2: "?start = Some (None, s2)" "counts_ok s2" "timers_ok s2" "timer_frame h s1 s2"
        "ready_queue s2 = remove1 h (ready_queue s1)" "timer_cb (timer s2 h) = timer_cb (timer s h)"
        "timeout (timer s2 h) = clamped_timeout (time s1) (repeat_in (timer s h))"
        "active_timers s2 = insert h (active_timers s1)"
      by (metis uv_timer.select_convs(1,2))
    note f1 = timer_frameD [OF s1(4)] and f2 = timer_frameD [OF s2(4)]
    have "due_timers s2 \<subseteq> due_timers s" if "time s \<noteq> - 1"
    proof
      fix g assume g: "g \<in> due_timers s2"
      have "\<not> timeout (timer s2 h) \<le> time s"
        using clamped_timeout_later [OF rep that] s2(7) f1(5) by (simp add: not_le)
      then have "g \<noteq> h" using g f1(5) f2(5) by (auto simp: due_timers_def)
      then show "g \<in> due_timers s" using g s1(6,7) s2(8) f1(5) f2(5) f2(11) by (auto simp: due_timers_def)
    qed
    then show ?thesis using again r1 assms(5) timer_frame_trans [OF s1(4)] s2 by (simp add: remove1_idem)
  qed
qed

lemma timer_init_ok:
  assumes "counts_ok s" "timers_ok s" "h \<notin> set (all_handles s)" "h \<noteq> NULL" "length (all_handles s) + 1 < 2 ^ 32"
  shows "counts_ok (uv_timer_init h s)" and "timers_ok (uv_timer_init h s)"
proof -
  let ?s = "uv_timer_init h s"
  have f: "all_handles ?s = all_handles s @ [h]" "handle ?s = handle (uv__handle_init UV_TIMER h s)"
    "active_handles ?s = active_handles s" "timer_heap ?s = timer_heap s" "ready_queue ?s = ready_queue s"
    "\<And>g. g \<noteq> h \<Longrightarrow> timer ?s g = timer s g"
    by (simp_all add: uv_timer_init_def set_timer_def Let_def)
  show "counts_ok ?s"
    by (rule counts_ok_cong [OF counts_ok_init [OF assms(1,3-5)]]) (use f in simp_all)
  have a: "active_timers ?s = active_timers s"
    using assms(3) by (auto simp: active_timers_def f flag_update)
  have h: "h \<notin> active_timers s \<union> set (ready_queue s)"
    using assms(2,3) by (auto simp: active_timers_def timers_ok_def)
  have same: "timer ?s g = timer s g" if "g \<in> active_timers s \<union> set (ready_queue s)" for g
    by (rule f(6)) (use that h in auto)
  have "heap_pq (timer_less_than ?s) (timer_heap ?s) (active_timers ?s)"
    unfolding f a by (rule heap_pq_cong [where lt = "timer_less_than s"])
      (use assms(2) in \<open>simp_all add: timers_ok_def timer_less_key same\<close>)
  then show "timers_ok ?s" using assms(2) h unfolding timers_ok_def a f(5)
    by (auto simp: f(1,2) same)
qed

lemma timers_ok_ready:
  assumes "timers_ok s" "distinct q"
    and "\<And>h. h \<in> set q \<Longrightarrow> a_timer s h \<and> \<not> active s h \<and> timer_cb (timer s h) \<noteq> NULL"
  shows "timers_ok (s\<lparr>ready_queue := q\<rparr>)"
proof -
  have "timer_less_than (s\<lparr>ready_queue := q\<rparr>) = timer_less_than s" by (simp add: fun_eq_iff timer_less_than_def)
  moreover have "active_timers (s\<lparr>ready_queue := q\<rparr>) = active_timers s" by (simp add: active_timers_def)
  ultimately show ?thesis using assms by (simp add: timers_ok_def ball_Un)
qed

text \<open>
  Any number of operations on timers: what one of them leaves alone for its timer holds for
  all handles, and handles of another type are not touched.
\<close>

definition timers_frame :: "uv_loop \<Rightarrow> uv_loop \<Rightarrow> bool" where
  "timers_frame s s' \<longleftrightarrow> erase_timers s' = erase_timers s \<and>
     (\<forall>g. htype (handle s g) \<noteq> UV_TIMER \<longrightarrow> handle s' g = handle s g) \<and>
     (\<forall>g. htype (handle s' g) = htype (handle s g) \<and> close_cb (handle s' g) = close_cb (handle s g) \<and>
        (\<forall>n. n \<noteq> 2 \<longrightarrow> bit (flags (handle s' g)) n = bit (flags (handle s g)) n) \<and>
        (closing s g \<and> active s' g \<longrightarrow> active s g))"

lemma timers_frameD:
  assumes "timers_frame s s'"
  shows "all_handles s' = all_handles s" "time s' = time s" "called s' = called s"
  using assms erase_timersD [of s' s] by (simp_all add: timers_frame_def)

lemma timers_frame_refl: "timers_frame s s"
  by (simp add: timers_frame_def)

lemma timers_frame_trans: "timers_frame s s' \<Longrightarrow> timers_frame s' s'' \<Longrightarrow> timers_frame s s''"
  unfolding timers_frame_def by auto

lemma timers_frame_step:
  assumes "timer_frame h s s'" "htype (handle s h) = UV_TIMER"
  shows "timers_frame s s'"
proof -
  have "closing s g \<and> active s' g \<longrightarrow> active s g" for g
    using assms(1) timer_frameD(10) [OF assms(1), of g] by (cases "g = h") (auto simp: timer_frame_def)
  moreover have "handle s' g = handle s g" if "htype (handle s g) \<noteq> UV_TIMER" for g
    using timer_frameD(10) [OF assms(1), of g] assms(2) that by (cases "g = h") auto
  moreover have "close_cb (handle s' g) = close_cb (handle s g)" for g
    using assms(1) timer_frameD(10) [OF assms(1), of g] by (cases "g = h") (auto simp: timer_frame_def)
  ultimately show ?thesis
    using timer_frameD(8,9) [OF assms(1)] assms(1) unfolding timers_frame_def by (auto simp: timer_frame_def)
qed

lemma timers_frame_ready: "timers_frame s (s\<lparr>ready_queue := q\<rparr>)"
  by (simp add: timers_frame_def erase_timers_def)

section \<open>Running timers\<close>

lemma heap_least:
  assumes "timers_ok s"
  shows "heap_min (timer_heap s) = NULL \<longleftrightarrow> active_timers s = {}"
    and "active_timers s \<noteq> {} \<Longrightarrow> heap_min (timer_heap s) \<in> active_timers s"
    and "a \<in> active_timers s \<Longrightarrow> \<not> timer_less_than s a (heap_min (timer_heap s))"
  using assms timer_order.heap_pq_least [of s "timer_heap s" "active_timers s"] unfolding timers_ok_def by blast+

lemma not_less_timeout: "\<not> timer_less_than s a b \<Longrightarrow> timeout (timer s b) \<le> timeout (timer s a)"
  by (auto simp: timer_less_key not_less)

lemma collect_due_ok:
  "counts_ok s \<Longrightarrow> timers_ok s \<Longrightarrow>
   \<exists>s' ds. collect_due s = Some s' \<and> counts_ok s' \<and> timers_ok s' \<and> timers_frame s s' \<and>
     ready_queue s' = ready_queue s @ ds \<and> set ds = due_timers s \<and>
     sorted_wrt (\<lambda>a b. \<not> timer_less_than s b a) ds \<and> active_timers s' = active_timers s - due_timers s \<and>
     timer s' = timer s"
proof (induction "card (active_timers s)" arbitrary: s rule: less_induct)
  case less
  let ?h = "heap_min (timer_heap s)"
  note least = heap_least [OF less.prems(2)]
  show ?case
  proof (cases "?h = NULL \<or> timeout (timer s ?h) > time s")
    case True
    have "due_timers s = {}"
    proof -
      have "\<not> timeout (timer s a) \<le> time s" if "a \<in> active_timers s" for a
        using True least(1) that not_less_timeout [OF least(3) [OF that]] by (auto simp: not_le)
      then show ?thesis by (auto simp: due_timers_def)
    qed
    then show ?thesis using True less.prems timers_frame_refl
      by (subst collect_due.simps) (auto simp: Let_def intro!: exI [of _ "[]"])
  next
    case False
    then have h: "?h \<in> active_timers s" "timeout (timer s ?h) \<le> time s" using least by auto
    then have t: "a_timer s ?h" "?h \<notin> set (ready_queue s)" "timer_cb (timer s ?h) \<noteq> NULL"
      using less.prems(2) by (auto simp: active_timers_def timers_ok_def)
    from timer_stop_ok [OF less.prems t(1)] obtain s1 where
      s1: "uv_timer_stop ?h s = Some s1" "counts_ok s1" "timers_ok s1" "timer_frame ?h s s1" "\<not> active s1 ?h"
        "ready_queue s1 = ready_queue s" "timer s1 = timer s" "active_timers s1 = active_timers s - {?h}"
      using t(2) by (auto simp: remove1_idem)
    note f1 = timer_frameD [OF s1(4)]
    let ?s = "s1\<lparr>ready_queue := ready_queue s1 @ [?h]\<rparr>"
    have a: "active_timers ?s = active_timers s - {?h}" "timer_less_than ?s = timer_less_than s"
      using s1(7,8) by (simp_all add: active_timers_def fun_eq_iff timer_less_than_def)
    have "timers_ok ?s"
      by (rule timers_ok_ready [OF s1(3)])
        (use s1(3,5,6,7) t f1(1,8) in \<open>auto simp: timers_ok_def\<close>)
    then have ok: "counts_ok ?s" "timers_ok ?s"
      using counts_ok_cong [OF s1(2), of ?s] by simp_all
    have "card (active_timers ?s) < card (active_timers s)"
      unfolding a using h(1) by (intro card_Diff1_less) (simp_all add: active_timers_def)
    from less.hyps [OF this ok] obtain s' ds where
      s': "collect_due ?s = Some s'" "counts_ok s'" "timers_ok s'" "timers_frame ?s s'"
        "ready_queue s' = ready_queue ?s @ ds" "set ds = due_timers ?s"
        "sorted_wrt (\<lambda>a b. \<not> timer_less_than ?s b a) ds" "active_timers s' = active_timers ?s - due_timers ?s"
        "timer s' = timer ?s" by blast
    have d: "due_timers s = insert ?h (due_timers ?s)"
      using h s1(7) f1(5) unfolding due_timers_def a by auto
    have "collect_due s = Some s'" using False s1(1) s'(1) by (subst collect_due.simps) (simp add: Let_def)
    moreover have "timers_frame s s'"
      using timers_frame_step [OF s1(4)] timers_frame_ready s'(4) t(1) timers_frame_trans by blast
    moreover have "sorted_wrt (\<lambda>a b. \<not> timer_less_than s b a) (?h # ds)"
      using s'(6,7) least(3) a(2) by (auto simp: due_timers_def a(1))
    ultimately show ?thesis
      using s' d a s1(6,7) by (intro exI [of _ s'] exI [of _ "?h # ds"]) auto
  qed
qed

text \<open>The second loop takes a timer off the queue and restarts it before its callback runs.\<close>

lemma pop_ready:
  assumes "counts_ok s" "timers_ok s" "ready_queue s = h # q"
  shows "\<exists>s'. uv_timer_again h (s\<lparr>ready_queue := q\<rparr>) = Some (None, s') \<and> counts_ok s' \<and> timers_ok s' \<and>
    timers_frame s s' \<and> ready_queue s' = q \<and> timer_cb (timer s' h) = timer_cb (timer s h) \<and>
    timer_cb (timer s h) \<noteq> NULL \<and> (\<forall>g. g \<noteq> h \<longrightarrow> timer s' g = timer s g) \<and>
    (time s \<noteq> - 1 \<longrightarrow> due_timers s' \<subseteq> due_timers s)"
proof -
  let ?s = "s\<lparr>ready_queue := q\<rparr>"
  have h: "a_timer s h" "timer_cb (timer s h) \<noteq> NULL" "h \<notin> set q" "distinct q" "a_timer ?s h"
    using assms(2,3) by (auto simp: timers_ok_def)
  have "timers_ok ?s"
    by (rule timers_ok_ready [OF assms(2) h(4)]) (use assms(2,3) in \<open>auto simp: timers_ok_def\<close>)
  from timer_again_ok [OF counts_ok_cong [OF assms(1)] this h(5)] h(2,3) obtain s' where
    s': "uv_timer_again h ?s = Some (None, s')" "counts_ok s'" "timers_ok s'" "timer_frame h ?s s'" "ready_queue s' = q"
      "timer_cb (timer s' h) = timer_cb (timer s h)" "time s \<noteq> - 1 \<longrightarrow> due_timers s' \<subseteq> due_timers ?s" by auto
  have "timers_frame s s'"
    using timers_frame_trans [OF timers_frame_ready timers_frame_step [OF s'(4)]] h(1) by simp
  moreover have "due_timers ?s = due_timers s" by (simp add: due_timers_def active_timers_def)
  ultimately show ?thesis using s' h(2) timer_frameD(11) [OF s'(4)] by auto
qed

text \<open>
  For any client that keeps what it promises, where the promise covers the invariant of the
  timers and does not depend on what the operations on timers change.
\<close>

locale timer_client = loop_client client ok
  for client :: client and ok :: "uv_loop \<Rightarrow> bool" +
  assumes ok_timers: "ok s \<Longrightarrow> counts_ok s \<and> timers_ok s"
    and ok_frame: "ok s \<Longrightarrow> timers_frame s s' \<Longrightarrow> counts_ok s' \<Longrightarrow> timers_ok s' \<Longrightarrow> ok s'"
begin

lemma run_ready_ok:
  "ok s \<Longrightarrow> \<exists>s' hs. run_ready client s = Some s' \<and> ok s' \<and> ready_queue s' = [] \<and> called s' = called s @ hs \<and>
     subseq (map snd hs) (ready_queue s)"
proof (induction "length (ready_queue s)" arbitrary: s rule: less_induct)
  case less
  show ?case
  proof (cases "ready_queue s")
    case Nil
    then show ?thesis using less.prems by (subst run_ready.simps) (auto intro: exI [of _ "[]"])
  next
    case (Cons h q)
    from pop_ready [OF _ _ Cons] ok_timers [OF less.prems] obtain s1 where
      s1: "uv_timer_again h (s\<lparr>ready_queue := q\<rparr>) = Some (None, s1)" "counts_ok s1" "timers_ok s1"
        "timers_frame s s1" "ready_queue s1 = q" "timer_cb (timer s1 h) \<noteq> NULL" by metis
    obtain s2 where s2: "call client (timer_cb (timer s1 h)) h s1 = Some s2" "ok s2"
      "subseq (ready_queue s2) q" "called s2 = called s1 @ [(timer_cb (timer s1 h), h)]"
      using call_ok [OF ok_frame [OF less.prems s1(4,2,3)] s1(6), of h] s1(5) by auto
    have "length (ready_queue s2) < length (ready_queue s)"
      using list_emb_length [OF s2(3)] Cons by simp
    from less.hyps [OF this s2(2)] obtain s' hs where
      s': "run_ready client s2 = Some s'" "ok s'" "called s' = called s2 @ hs" "subseq (map snd hs) (ready_queue s2)"
        "ready_queue s' = []" by blast
    have "run_ready client s = Some s'" using Cons s1(1) s2(1) s'(1) by (subst run_ready.simps) simp
    moreover have "subseq (map snd ((timer_cb (timer s1 h), h) # hs)) (ready_queue s)"
      using s'(4) s2(3) Cons subseq_order.order_trans by fastforce
    moreover have "called s' = called s @ (timer_cb (timer s1 h), h) # hs"
      using s'(3) s2(4) timers_frameD(3) [OF s1(4)] by simp
    ultimately show ?thesis using s'(2,5) by blast
  qed
qed

lemma run_timers_ok:
  assumes "ok s"
  shows "\<exists>s' ds hs. uv__run_timers client s = Some s' \<and> ok s' \<and> ready_queue s' = [] \<and> called s' = called s @ hs \<and>
    subseq (map snd hs) ds \<and> set ds = due_timers s \<and> distinct ds \<and> sorted_wrt (\<lambda>a b. \<not> timer_less_than s b a) ds"
proof -
  let ?s = "s\<lparr>ready_queue := []\<rparr>"
  have i: "counts_ok s" "timers_ok s" using ok_timers [OF assms] by blast+
  have e: "counts_ok ?s" "timers_ok ?s"
    using counts_ok_cong [OF i(1), of ?s] timers_ok_ready [OF i(2), of "[]"] by simp_all
  have d: "due_timers ?s = due_timers s" "timer_less_than ?s = timer_less_than s"
    by (simp_all add: due_timers_def active_timers_def fun_eq_iff timer_less_than_def)
  from collect_due_ok [OF e] obtain s1 ds where
    s1: "collect_due ?s = Some s1" "counts_ok s1" "timers_ok s1" "timers_frame ?s s1" "ready_queue s1 = ds"
      "set ds = due_timers s" "sorted_wrt (\<lambda>a b. \<not> timer_less_than s b a) ds" by (auto simp: d)
  have f: "timers_frame s s1" using timers_frame_trans [OF timers_frame_ready s1(4)] .
  from run_ready_ok [OF ok_frame [OF assms f s1(2,3)]] obtain s' hs where
    "run_ready client s1 = Some s'" "ok s'" "ready_queue s' = []" "called s' = called s1 @ hs" "subseq (map snd hs) ds"
    unfolding s1(5) by blast
  moreover have "called s1 = called s" using timers_frameD(3) [OF f] .
  moreover have "distinct ds" using s1(3,5) by (auto simp: timers_ok_def)
  ultimately show ?thesis using s1(1,6,7) by (auto simp: uv__run_timers_def)
qed

end

section \<open>A loop with one timer\<close>

lemma timers_ok_empty: "all_handles s = [] \<Longrightarrow> ready_queue s = [] \<Longrightarrow> hmin (timer_heap s) = 0 \<Longrightarrow> nelts (timer_heap s) = 0 \<Longrightarrow> timers_ok s"
  by (auto simp: timers_ok_def active_timers_def heap_pq_def heap_repr_def heap_ordered_def at_def intro!: exI [of _ "[]"])

definition one_timer :: "(nat \<Rightarrow> u64) \<Rightarrow> uv_loop" where
  "one_timer clk = uv_timer_init 7 (new_loop clk)"

lemma one_timer:
  "counts_ok (one_timer clk)" "timers_ok (one_timer clk)" "all_handles (one_timer clk) = [7]"
  "htype (handle (one_timer clk) 7) = UV_TIMER" "\<not> uv__is_closing 7 (one_timer clk)" "time (one_timer clk) = 0"
  "active_timers (one_timer clk) = {}"
proof -
  have e: "counts_ok (new_loop clk)" "timers_ok (new_loop clk)"
    by (simp_all add: new_loop_simps counts_ok_empty timers_ok_empty)
  show "counts_ok (one_timer clk)" "timers_ok (one_timer clk)"
    using timer_init_ok [OF e, of 7] by (simp_all add: one_timer_def new_loop_simps)
  show "all_handles (one_timer clk) = [7]" "htype (handle (one_timer clk) 7) = UV_TIMER"
    "\<not> uv__is_closing 7 (one_timer clk)" "time (one_timer clk) = 0" "active_timers (one_timer clk) = {}"
    by (simp_all add: one_timer_def new_loop_simps uv_timer_init_def set_timer_def Let_def is_bits flag_update active_timers_def)
qed

lemma one_timer_started:
  "\<exists>s'. uv_timer_start 7 5 10 0 (one_timer clk) = Some (None, s') \<and> counts_ok s' \<and> timers_ok s' \<and>
     active_timers s' = {7} \<and> timeout (timer s' 7) = 10 \<and> time s' = 0"
proof -
  obtain s' where s': "uv_timer_start 7 5 10 0 (one_timer clk) = Some (None, s')" "counts_ok s'" "timers_ok s'"
    "timer_frame 7 (one_timer clk) s'" "active_timers s' = {7}"
    "timer s' 7 = \<lparr>timer_cb = 5, timeout = clamped_timeout 0 10, repeat_in = 0, start_id = timer_counter (one_timer clk)\<rparr>"
    using timer_start_ok [OF one_timer(1,2) _ one_timer(5), where cb = 5 and tmo = 10 and rep = 0] by (auto simp: one_timer)
  moreover have "clamped_timeout 0 10 = 10" by code_simp
  ultimately show ?thesis using timer_frameD(5) [OF s'(4)] one_timer(6) by simp
qed

section \<open>Properties\<close>

lemma Min_timeout:
  assumes "timers_ok s" "active_timers s \<noteq> {}"
  shows "timeout (timer s (heap_min (timer_heap s))) = Min ((\<lambda>h. timeout (timer s h)) ` active_timers s)"
  by (rule Min_eqI [symmetric])
    (use heap_least [OF assms(1)] assms(2) not_less_timeout in \<open>auto simp: active_timers_def\<close>)

text \<open>
  C11: the time the loop may sleep: -1 exactly when no timer is active, otherwise the distance
  to the earliest due time, 0 when that has passed and never more than \<open>INT_MAX\<close>.
\<close>

theorem next_timeout_spec:
  assumes "timers_ok s"
  shows "uv__next_timeout s =
    (if active_timers s = {} then -1
     else max 0 (min INT_MAX (uint (Min ((\<lambda>h. timeout (timer s h)) ` active_timers s)) - uint (time s))))"
proof (cases "active_timers s = {}")
  case True
  then show ?thesis using heap_least(1) [OF assms] by (simp add: uv__next_timeout_def)
next
  case False
  let ?m = "timeout (timer s (heap_min (timer_heap s)))"
  have n: "heap_min (timer_heap s) \<noteq> NULL" using False heap_least(1) [OF assms] by simp
  show ?thesis
  proof (cases "?m \<le> time s")
    case True
    then show ?thesis using n False by (simp add: uv__next_timeout_def Min_timeout [OF assms False, symmetric] word_le_def)
  next
    case later: False
    then have "uint (?m - time s) = uint ?m - uint (time s)"
      by (intro uint_sub_lem [THEN iffD1]) (simp add: word_le_def)
    moreover have "uint (word_of_int INT_MAX :: u64) = INT_MAX" by (simp add: INT_MAX_def)
    ultimately show ?thesis using n False later
      by (auto simp: uv__next_timeout_def Min_timeout [OF assms False, symmetric] Let_def word_less_def word_le_def INT_MAX_def)
  qed
qed

theorem next_timeout_spec_witness:
  "\<exists>s. uv_timer_start 7 5 10 0 (one_timer (\<lambda>_. 0)) = Some (None, s) \<and> uv__next_timeout s = 10"
proof -
  obtain s where s: "uv_timer_start 7 5 10 0 (one_timer (\<lambda>_. 0)) = Some (None, s)" "timers_ok s"
    "active_timers s = {7}" "timeout (timer s 7) = 10" "time s = 0"
    using one_timer_started by blast
  then show ?thesis using next_timeout_spec [OF s(2)] by (simp add: INT_MAX_def)
qed

text \<open>
  C10: starting a timer: a closing handle and a null callback are refused and change nothing;
  otherwise the timer is active, its due time is the sum of the loop time and the delay or, if
  that overflows, the largest time, its start number is new, and no other timer changes.
\<close>

theorem timer_start_spec:
  assumes "counts_ok s" and "timers_ok s" and "h \<in> set (all_handles s)" and "htype (handle s h) = UV_TIMER"
  shows "\<exists>r s'. uv_timer_start h cb tmo rep s = Some (r, s') \<and> counts_ok s' \<and> timers_ok s' \<and>
    (if uv__is_closing h s \<or> cb = NULL then r = Some UV_EINVAL \<and> s' = s
     else r = None \<and> active_timers s' = insert h (active_timers s) \<and>
       unat (timeout (timer s' h)) = min (unat (time s) + unat tmo) (2 ^ 64 - 1) \<and>
       timer_cb (timer s' h) = cb \<and> repeat_in (timer s' h) = rep \<and> start_id (timer s' h) = timer_counter s \<and>
       timer_counter s' = timer_counter s + 1 \<and> (\<forall>g. g \<noteq> h \<longrightarrow> timer s' g = timer s g \<and> handle s' g = handle s g))"
proof (cases "uv__is_closing h s \<or> cb = NULL")
  case True
  then show ?thesis using assms by (simp add: uv_timer_start_def)
next
  case False
  then obtain s' where "uv_timer_start h cb tmo rep s = Some (None, s')" "counts_ok s'" "timers_ok s'" "timer_frame h s s'"
    "timer s' h = \<lparr>timer_cb = cb, timeout = clamped_timeout (time s) tmo, repeat_in = rep, start_id = timer_counter s\<rparr>"
    "active_timers s' = insert h (active_timers s)" "timer_counter s' = timer_counter s + 1"
    using timer_start_ok [OF assms(1,2)] assms(3,4) by blast
  then show ?thesis using False timer_frameD(10,11) by (simp add: clamped_timeout_unat)
qed

theorem timer_start_spec_witness:
  "\<exists>r s'. uv_timer_start 7 5 (- 1) 0 (one_timer (\<lambda>_. 0)) = Some (r, s') \<and> r = None \<and>
     active_timers s' = {7} \<and> unat (timeout (timer s' 7)) = 2 ^ 64 - 1"
  using timer_start_spec [OF one_timer(1,2), of 7 "\<lambda>_. 0" 5 "- 1" 0]
  by (auto simp: one_timer unat_max_u64)

end
