(* ===== verification/Watchers.thy ===== *)
theory Watchers
  imports Handles
begin

text \<open>
  \<^verbatim>\<open>loop-watcher.c\<close>: the prepare, check and idle handles, which one macro defines; the
  operations here have the kind of watcher as their first argument. A pass takes the whole
  queue away, and puts each watcher back before its callback runs.
\<close>

section \<open>The operations\<close>

fun watcher_type :: "loop_watcher \<Rightarrow> uv_handle_type" where
  "watcher_type Prepare = UV_PREPARE"
| "watcher_type Check = UV_CHECK"
| "watcher_type Idle = UV_IDLE"

definition uv_watcher_init :: "loop_watcher \<Rightarrow> ptr \<Rightarrow> uv_loop \<Rightarrow> uv_loop" where
  "uv_watcher_init k h s =
     (let s = uv__handle_init (watcher_type k) h s
      in s\<lparr>watcher_cb := (watcher_cb s)(h := NULL)\<rparr>)"

definition uv_watcher_start ::
  "loop_watcher \<Rightarrow> ptr \<Rightarrow> ptr \<Rightarrow> uv_loop \<Rightarrow> uv_errno option \<times> uv_loop" where
  "uv_watcher_start k h cb s =
     (if uv__is_active h s then (None, s)
      else if cb = NULL then (Some UV_EINVAL, s)
      else
        let s = s\<lparr>watcher_handles := (watcher_handles s)(k := h # watcher_handles s k)\<rparr>;
            s = s\<lparr>watcher_cb := (watcher_cb s)(h := cb)\<rparr>
        in (None, uv__handle_start h s))"

definition uv_watcher_stop :: "loop_watcher \<Rightarrow> ptr \<Rightarrow> uv_loop \<Rightarrow> uv_loop" where
  "uv_watcher_stop k h s =
     (if \<not> uv__is_active h s then s
      else
        let s = s\<lparr>watcher_handles := (watcher_handles s)(k := remove1 h (watcher_handles s k)),
                  run_queue := (run_queue s)(k := remove1 h (run_queue s k))\<rparr>
        in uv__handle_stop h s)"

definition take_queue :: "loop_watcher \<Rightarrow> uv_loop \<Rightarrow> uv_loop" where
  "take_queue k s =
     s\<lparr>run_queue := (run_queue s)(k := watcher_handles s k), watcher_handles := (watcher_handles s)(k := [])\<rparr>"

definition put_back :: "loop_watcher \<Rightarrow> ptr \<Rightarrow> ptr list \<Rightarrow> uv_loop \<Rightarrow> uv_loop" where
  "put_back k h q s =
     s\<lparr>run_queue := (run_queue s)(k := q), watcher_handles := (watcher_handles s)(k := watcher_handles s k @ [h])\<rparr>"

partial_function (option) run_taken :: "client \<Rightarrow> loop_watcher \<Rightarrow> uv_loop \<Rightarrow> uv_loop option" where
  "run_taken client k s =
     (case run_queue s k of
        [] \<Rightarrow> Some s
      | h # q \<Rightarrow>
          let s = put_back k h q s
          in Option.bind (call client (watcher_cb s h) h s) (run_taken client k))"

declare run_taken.simps [code]

definition uv__run_watchers :: "client \<Rightarrow> loop_watcher \<Rightarrow> uv_loop \<Rightarrow> uv_loop option" where
  "uv__run_watchers client k s = run_taken client k (take_queue k s)"

definition uv__watcher_close :: "loop_watcher \<Rightarrow> ptr \<Rightarrow> uv_loop \<Rightarrow> uv_loop" where
  "uv__watcher_close k h s = uv_watcher_stop k h s"

section \<open>The invariant\<close>

text \<open>The two queues of a kind together hold its active handles, each once.\<close>

definition watching :: "loop_watcher \<Rightarrow> uv_loop \<Rightarrow> ptr list" where
  "watching k s = run_queue s k @ watcher_handles s k"

definition active_watchers :: "loop_watcher \<Rightarrow> uv_loop \<Rightarrow> ptr set" where
  "active_watchers k s = {h \<in> set (all_handles s). htype (handle s h) = watcher_type k \<and> active s h}"

definition watchers_ok :: "uv_loop \<Rightarrow> bool" where
  "watchers_ok s \<longleftrightarrow> (\<forall>k. distinct (watching k s) \<and> set (watching k s) = active_watchers k s \<and>
     (\<forall>h \<in> active_watchers k s. watcher_cb s h \<noteq> NULL))"

lemma watcher_type_inj: "watcher_type k = watcher_type j \<longleftrightarrow> k = j"
  by (cases k; cases j) simp_all

lemma watchers_ok_cong:
  assumes "watchers_ok s" "watcher_handles s' = watcher_handles s" "run_queue s' = run_queue s"
    and "\<And>k. active_watchers k s' = active_watchers k s" "watcher_cb s' = watcher_cb s"
  shows "watchers_ok s'"
  using assms by (simp add: watchers_ok_def watching_def)

text \<open>What an operation on a watcher leaves alone.\<close>

definition erase_watchers :: "uv_loop \<Rightarrow> uv_loop" where
  "erase_watchers s = (let z = new_loop (\<lambda>_. 0) in s\<lparr>active_handles := 0, handle := handle z, watcher_handles := watcher_handles z, run_queue := run_queue z, watcher_cb := watcher_cb z\<rparr>)"

lemma erase_watchersD:
  assumes "erase_watchers s' = erase_watchers s"
  shows "handle_queue s' = handle_queue s" "active_reqs s' = active_reqs s" 
    "stop_flag s' = stop_flag s" "loop_flags s' = loop_flags s" 
    "pending_queue s' = pending_queue s" "watcher_queue s' = watcher_queue s" 
    "watchers s' = watchers s" "nwatchers s' = nwatchers s" "nfds s' = nfds s" 
    "closing_handles s' = closing_handles s" "async_handles s' = async_handles s" 
    "async_io_watcher s' = async_io_watcher s" "timer_heap s' = timer_heap s" 
    "timer_counter s' = timer_counter s" "time s' = time s" 
    "signal_io_watcher s' = signal_io_watcher s" "signal_tree s' = signal_tree s" 
    "signal_pipe s' = signal_pipe s" "ready_queue s' = ready_queue s" 
    "pending_run s' = pending_run s" "async_run s' = async_run s" "walk_queue s' = walk_queue s" 
    "timer s' = timer s" "poll_cb s' = poll_cb s" "io s' = io s" "async s' = async s" 
    "signal s' = signal s" "lfields_flags s' = lfields_flags s" "loop_count s' = loop_count s" 
    "events_count s' = events_count s" "events_waiting s' = events_waiting s" 
    "provider_entry_time s' = provider_entry_time s" "provider_idle_time s' = provider_idle_time s" 
    "current_timeout s' = current_timeout s" "poll_fds s' = poll_fds s" 
    "poll_fds_used s' = poll_fds_used s" "poll_fds_iterating s' = poll_fds_iterating s" 
    "hrtime s' = hrtime s" "readings s' = readings s" "polls s' = polls s" "called s' = called s" 
    "all_handles s' = all_handles s"
  using assms by (cases s; cases s'; simp add: erase_watchers_def all_handles_def Let_def)+

lemma erase_watchers_macros [simp]:
  "erase_watchers (uv__handle_start h s) = erase_watchers s"
  "erase_watchers (uv__handle_stop h s) = erase_watchers s"
  "erase_watchers (uv__handle_ref h s) = erase_watchers s"
  "erase_watchers (uv__handle_unref h s) = erase_watchers s"
  by (simp_all add: macro_defs erase_watchers_def)

lemma erase_watchers_update [simp]:
  "erase_watchers (active_handles_update g1 s) = erase_watchers s"
  "erase_watchers (handle_update g2 s) = erase_watchers s"
  "erase_watchers (watcher_handles_update g3 s) = erase_watchers s"
  "erase_watchers (run_queue_update g4 s) = erase_watchers s"
  "erase_watchers (watcher_cb_update g5 s) = erase_watchers s"
  by (cases s; simp add: erase_watchers_def Let_def)+

definition watcher_frame :: "ptr \<Rightarrow> uv_loop \<Rightarrow> uv_loop \<Rightarrow> bool" where
  "watcher_frame h s s' \<longleftrightarrow> erase_watchers s' = erase_watchers s \<and>
     (\<forall>k. subseq (run_queue s' k) (run_queue s k)) \<and>
     (\<forall>g. g \<noteq> h \<longrightarrow> handle s' g = handle s g) \<and> htype (handle s' h) = htype (handle s h) \<and>
     close_cb (handle s' h) = close_cb (handle s h) \<and>
     (\<forall>n. n \<noteq> 2 \<longrightarrow> bit (flags (handle s' h)) n = bit (flags (handle s h)) n)"

lemma watcher_frame_refl: "watcher_frame h s s"
  by (simp add: watcher_frame_def)

lemma watcher_init_ok:
  assumes "counts_ok s" "watchers_ok s" "h \<notin> set (all_handles s)" "h \<noteq> NULL" "length (all_handles s) + 1 < 2 ^ 32"
  shows "counts_ok (uv_watcher_init k h s)" and "watchers_ok (uv_watcher_init k h s)"
proof -
  show "counts_ok (uv_watcher_init k h s)"
    by (rule counts_ok_cong [OF counts_ok_init [OF assms(1,3-5)]]) (simp_all add: uv_watcher_init_def)
  have "active_watchers j (uv_watcher_init k h s) = active_watchers j s" for j
    using assms(3) by (auto simp: active_watchers_def uv_watcher_init_def flag_update)
  moreover have "h \<notin> active_watchers j s" for j using assms(3) by (simp add: active_watchers_def)
  ultimately show "watchers_ok (uv_watcher_init k h s)"
    using assms(2) unfolding watchers_ok_def watching_def by (auto simp: uv_watcher_init_def)
qed

lemma watcher_start_ok:
  assumes "counts_ok s" "watchers_ok s" "h \<in> set (all_handles s)" "htype (handle s h) = watcher_type k"
  shows "\<exists>r s'. uv_watcher_start k h cb s = (r, s') \<and> counts_ok s' \<and> watchers_ok s' \<and> watcher_frame h s s' \<and>
    (r = None \<longrightarrow> active s' h) \<and> (r = None \<longleftrightarrow> active s h \<or> cb \<noteq> NULL)"
proof (cases "active s h \<or> cb = NULL")
  case True
  then show ?thesis using assms watcher_frame_refl by (auto simp: uv_watcher_start_def is_bits)
next
  case False
  let ?s = "s\<lparr>watcher_handles := (watcher_handles s)(k := h # watcher_handles s k), watcher_cb := (watcher_cb s)(h := cb)\<rparr>"
  let ?t = "uv__handle_start h ?s"
  have r: "uv_watcher_start k h cb s = (None, ?t)"
    using False by (simp add: uv_watcher_start_def is_bits Let_def)
  have "counts_ok ?t" by (rule counts_ok_start [OF counts_ok_cong [OF assms(1)]]) (use assms(3) in simp_all)
  moreover have w: "active_watchers j ?t = (if j = k then insert h (active_watchers k s) else active_watchers j s)" for j
    using assms(3,4) by (auto simp: active_watchers_def macro_handles flag_update watcher_type_inj)
  have "h \<notin> active_watchers j s" for j using False by (simp add: active_watchers_def)
  then have "watchers_ok ?t"
    using assms(2) False unfolding watchers_ok_def w watching_def by auto
  moreover have "watcher_frame h s ?t"
    unfolding watcher_frame_def by (auto simp: macro_handles flag_update)
  ultimately show ?thesis using r False by (simp add: macro_handles flag_update)
qed

lemma watcher_stop_ok:
  assumes "counts_ok s" "watchers_ok s" "h \<in> set (all_handles s)" "htype (handle s h) = watcher_type k"
  shows "counts_ok (uv_watcher_stop k h s)" "watchers_ok (uv_watcher_stop k h s)"
    "watcher_frame h s (uv_watcher_stop k h s)" "\<not> active (uv_watcher_stop k h s) h"
proof -
  let ?s = "s\<lparr>watcher_handles := (watcher_handles s)(k := remove1 h (watcher_handles s k)),
     run_queue := (run_queue s)(k := remove1 h (run_queue s k))\<rparr>"
  let ?t = "uv__handle_stop h ?s"
  have "counts_ok ?t" by (rule counts_ok_stop [OF counts_ok_cong [OF assms(1)]]) (use assms(3) in simp_all)
  moreover have "watchers_ok ?t"
  proof -
    have w: "active_watchers j ?t = (if j = k then active_watchers k s - {h} else active_watchers j s)" for j
      using assms(3,4) by (auto simp: active_watchers_def macro_handles flag_update watcher_type_inj)
    have d: "distinct (run_queue s k)" "distinct (watcher_handles s k)" "set (run_queue s k) \<inter> set (watcher_handles s k) = {}"
      "set (run_queue s k) \<union> set (watcher_handles s k) = active_watchers k s"
      using assms(2) unfolding watchers_ok_def watching_def by (metis distinct_append set_append)+
    have k: "set (watching k ?t) = active_watchers k s - {h}" "distinct (watching k ?t)"
      using d by (auto simp: watching_def)
    have j: "watching j ?t = watching j s" if "j \<noteq> k" for j using that by (simp add: watching_def)
    show ?thesis unfolding watchers_ok_def w
    proof
      fix j
      have "distinct (watching j s) \<and> set (watching j s) = active_watchers j s \<and> (\<forall>h \<in> active_watchers j s. watcher_cb s h \<noteq> NULL)"
        using assms(2) by (simp add: watchers_ok_def)
      then show "distinct (watching j ?t) \<and> set (watching j ?t) = (if j = k then active_watchers k s - {h} else active_watchers j s) \<and>
        (\<forall>h \<in> if j = k then active_watchers k s - {h} else active_watchers j s. watcher_cb ?t h \<noteq> NULL)"
        using k j by (cases "j = k") simp_all
    qed
  qed
  moreover have "watcher_frame h s ?t"
    unfolding watcher_frame_def by (auto simp: macro_handles flag_update intro: subseq_remove1)
  moreover have "\<not> active ?t h" by (simp add: macro_handles flag_update)
  moreover have "uv_watcher_stop k h s = (if active s h then ?t else s)"
    by (simp add: uv_watcher_stop_def is_bits Let_def)
  ultimately show "counts_ok (uv_watcher_stop k h s)" "watchers_ok (uv_watcher_stop k h s)"
    "watcher_frame h s (uv_watcher_stop k h s)" "\<not> active (uv_watcher_stop k h s) h"
    using assms watcher_frame_refl by auto
qed

section \<open>A pass over the watchers\<close>

lemma watchers_ok_queues:
  assumes "watchers_ok s" "watching k s' = watching k s \<or> distinct (watching k s') \<and> set (watching k s') = set (watching k s)"
    and "\<And>j. j \<noteq> k \<Longrightarrow> watching j s' = watching j s" "\<And>j. active_watchers j s' = active_watchers j s" "watcher_cb s' = watcher_cb s"
  shows "watchers_ok s'"
  unfolding watchers_ok_def
proof
  fix j
  show "distinct (watching j s') \<and> set (watching j s') = active_watchers j s' \<and> (\<forall>h \<in> active_watchers j s'. watcher_cb s' h \<noteq> NULL)"
    using assms by (cases "j = k") (auto simp: watchers_ok_def)
qed

lemma watchers_ok_take:
  assumes "watchers_ok s" "run_queue s k = []"
  shows "watchers_ok (take_queue k s)"
  by (rule watchers_ok_queues [OF assms(1), of k])
    (use assms(2) in \<open>auto simp: watching_def take_queue_def active_watchers_def\<close>)

lemma watchers_ok_put_back:
  assumes "watchers_ok s" "run_queue s k = h # q"
  shows "watchers_ok (put_back k h q s)"
proof (rule watchers_ok_queues [OF assms(1), of k])
  have "distinct (watching k s)" using assms(1) by (simp add: watchers_ok_def)
  then show "watching k (put_back k h q s) = watching k s \<or>
    distinct (watching k (put_back k h q s)) \<and> set (watching k (put_back k h q s)) = set (watching k s)"
    using assms(2) by (auto simp: watching_def put_back_def)
qed (auto simp: watching_def put_back_def active_watchers_def)

lemma first_watcher_cb: "watchers_ok s \<Longrightarrow> run_queue s k = h # q \<Longrightarrow> watcher_cb s h \<noteq> NULL"
  unfolding watchers_ok_def watching_def by (metis Un_iff append_Cons list.set_intros(1) set_append)

locale watcher_client = loop_client client ok
  for client :: client and ok :: "uv_loop \<Rightarrow> bool" +
  fixes k :: loop_watcher
  assumes ok_watchers: "ok s \<Longrightarrow> watchers_ok s"
    and ok_queues: "ok s \<Longrightarrow> watchers_ok s' \<Longrightarrow>
      s' = s\<lparr>run_queue := (run_queue s)(k := run_queue s' k), watcher_handles := watcher_handles s'\<rparr> \<Longrightarrow> ok s'"
begin

lemma run_taken_ok:
  "ok s \<Longrightarrow> \<exists>s' hs. run_taken client k s = Some s' \<and> ok s' \<and> run_queue s' k = [] \<and> called s' = called s @ hs \<and>
     subseq (map snd hs) (run_queue s k)"
proof (induction "length (run_queue s k)" arbitrary: s rule: less_induct)
  case less
  show ?case
  proof (cases "run_queue s k")
    case Nil
    then show ?thesis using less.prems by (subst run_taken.simps) (auto intro: exI [of _ "[]"])
  next
    case (Cons h q)
    let ?s = "put_back k h q s"
    have cb: "watcher_cb ?s h \<noteq> NULL"
      using first_watcher_cb [OF ok_watchers [OF less.prems] Cons] by (simp add: put_back_def)
    have "ok ?s"
      by (rule ok_queues [OF less.prems watchers_ok_put_back [OF ok_watchers [OF less.prems] Cons]])
        (simp add: put_back_def)
    from call_ok [OF this cb, of h] obtain s1 where
      s1: "call client (watcher_cb ?s h) h ?s = Some s1" "ok s1" "subseq (run_queue s1 k) q"
        "called s1 = called s @ [(watcher_cb ?s h, h)]"
      by (auto simp: put_back_def dest: spec [of _ k])
    have "length (run_queue s1 k) < length (run_queue s k)" using list_emb_length [OF s1(3)] Cons by simp
    from less.hyps [OF this s1(2)] obtain s' hs where
      s': "run_taken client k s1 = Some s'" "ok s'" "run_queue s' k = []" "called s' = called s1 @ hs"
        "subseq (map snd hs) (run_queue s1 k)" by blast
    have "run_taken client k s = Some s'" using Cons s1(1) s'(1) by (subst run_taken.simps) simp
    moreover have "subseq (map snd ((watcher_cb ?s h, h) # hs)) (run_queue s k)"
      using s'(5) s1(3) Cons subseq_order.order_trans by fastforce
    moreover have "called s' = called s @ (watcher_cb ?s h, h) # hs" using s'(4) s1(4) by simp
    ultimately show ?thesis using s'(2,3) by blast
  qed
qed

lemma run_watchers_ok:
  assumes "ok s" "run_queue s k = []"
  shows "\<exists>s' hs. uv__run_watchers client k s = Some s' \<and> ok s' \<and> run_queue s' k = [] \<and>
    called s' = called s @ hs \<and> subseq (map snd hs) (watcher_handles s k)"
proof -
  have "ok (take_queue k s)"
    by (rule ok_queues [OF assms(1) watchers_ok_take [OF ok_watchers [OF assms(1)] assms(2)]])
      (simp add: take_queue_def)
  from run_taken_ok [OF this] show ?thesis by (simp add: uv__run_watchers_def take_queue_def)
qed

end

end
