(* ===== verification/Iowatch.thy ===== *)
theory Iowatch
  imports Handles
begin

unbundle bit_operations_syntax

text \<open>
  The I/O watchers: \<open>uv__io_init\<close> to \<open>uv__fd_exists\<close> of \<^verbatim>\<open>unix/core.c\<close>, the metrics of
  \<^verbatim>\<open>uv-common.c\<close> and the backend of \<^verbatim>\<open>unix/posix-poll.c\<close>. The array \<open>watchers\<close> has two
  entries more than \<open>nwatchers\<close>, or is empty where the C pointer is null; allocations succeed,
  a failed one aborts the process. A failed assertion and an access outside an array are
  \<open>None\<close>. The system call \<open>poll\<close> is a parameter.
\<close>

section \<open>Events\<close>

text \<open>The values of the event bits are those of Linux and of the BSDs.\<close>

definition POLLIN :: u32 where "POLLIN = 0x1"
definition UV__POLLPRI :: u32 where "UV__POLLPRI = 0x2"
definition POLLOUT :: u32 where "POLLOUT = 0x4"
definition POLLERR :: u32 where "POLLERR = 0x8"
definition POLLHUP :: u32 where "POLLHUP = 0x10"
definition UV__POLLRDHUP :: u32 where "UV__POLLRDHUP = 0x2000"

definition all_events :: u32 where
  "all_events = POLLIN OR POLLOUT OR UV__POLLRDHUP OR UV__POLLPRI"

definition events_valid :: "u32 \<Rightarrow> bool" where
  "events_valid ev \<longleftrightarrow> ev AND NOT all_events = 0 \<and> ev \<noteq> 0"

section \<open>Watchers\<close>

definition next_power_of_two :: "u32 \<Rightarrow> u32" where
  "next_power_of_two val =
     (let val = val - 1;
          val = val OR drop_bit 1 val;
          val = val OR drop_bit 2 val;
          val = val OR drop_bit 4 val;
          val = val OR drop_bit 8 val;
          val = val OR drop_bit 16 val
      in val + 1)"

definition maybe_resize :: "u32 \<Rightarrow> uv_loop \<Rightarrow> uv_loop" where
  "maybe_resize len s =
     (if len \<le> nwatchers s then s
      else
        let n = unat (nwatchers s);
            fake = (if watchers s \<noteq> [] then [watchers s ! n, watchers s ! (n + 1)] else [NULL, NULL]);
            nw = next_power_of_two (len + 2) - 2
        in s\<lparr>watchers := take n (watchers s) @ replicate (unat nw - n) NULL @ fake, nwatchers := nw\<rparr>)"

definition uv__io_init :: "ptr \<Rightarrow> io_cb \<Rightarrow> int \<Rightarrow> uv_loop \<Rightarrow> uv_loop option" where
  "uv__io_init w cb fildes s =
     (if cb = No_io_cb \<or> fildes < -1 then None
      else Some (set_io w \<lparr>io_cb = cb, pevents = 0, events = 0, fd = fildes\<rparr> s))"

definition watcher_at :: "int \<Rightarrow> uv_loop \<Rightarrow> ptr" where
  "watcher_at fildes s = watchers s ! nat fildes"

definition uv__io_start :: "ptr \<Rightarrow> u32 \<Rightarrow> uv_loop \<Rightarrow> uv_loop option" where
  "uv__io_start w ev s =
     (if \<not> events_valid ev \<or> fd (io s w) < 0 \<or> fd (io s w) \<ge> 2147483647 then None
      else
        let s = set_io w ((io s w)\<lparr>pevents := pevents (io s w) OR ev\<rparr>) s;
            s = maybe_resize (word_of_int (fd (io s w) + 1)) s
        in if events (io s w) = pevents (io s w) then Some s
           else
             let s = (if w \<in> set (watcher_queue s) then s else s\<lparr>watcher_queue := watcher_queue s @ [w]\<rparr>);
                 i = nat (fd (io s w))
             in if i \<ge> length (watchers s) then None
                else if watchers s ! i = NULL
                  then Some (s\<lparr>watchers := (watchers s)[i := w], nfds := nfds s + 1\<rparr>)
                else Some s)"

definition uv__io_stop :: "ptr \<Rightarrow> u32 \<Rightarrow> uv_loop \<Rightarrow> uv_loop option" where
  "uv__io_stop w ev s =
     (if \<not> events_valid ev then None
      else if fd (io s w) = -1 then Some s
      else if fd (io s w) < 0 then None
      else if nat (fd (io s w)) \<ge> unat (nwatchers s) then Some s
      else
        let s = set_io w ((io s w)\<lparr>pevents := pevents (io s w) AND NOT ev\<rparr>) s
        in if pevents (io s w) = 0 then
             let s = s\<lparr>watcher_queue := remove1 w (watcher_queue s)\<rparr>;
                 s = set_io w ((io s w)\<lparr>events := 0\<rparr>) s;
                 i = nat (fd (io s w))
             in if w = watchers s ! i then
                  (if nfds s > 0 then Some (s\<lparr>watchers := (watchers s)[i := NULL], nfds := nfds s - 1\<rparr>)
                   else None)
                else Some s
           else if w \<in> set (watcher_queue s) then Some s
           else Some (s\<lparr>watcher_queue := watcher_queue s @ [w]\<rparr>))"

definition uv__io_feed :: "ptr \<Rightarrow> uv_loop \<Rightarrow> uv_loop" where
  "uv__io_feed w s =
     (if w \<in> set (pending_run s) \<union> set (pending_queue s) then s
      else s\<lparr>pending_queue := pending_queue s @ [w]\<rparr>)"

definition uv__io_active :: "ptr \<Rightarrow> u32 \<Rightarrow> uv_loop \<Rightarrow> bool option" where
  "uv__io_active w ev s =
     (if \<not> events_valid ev then None else Some (pevents (io s w) AND ev \<noteq> 0))"

definition uv__fd_exists :: "int \<Rightarrow> uv_loop \<Rightarrow> bool" where
  "uv__fd_exists fildes s \<longleftrightarrow>
     (word_of_int fildes :: u32) < nwatchers s \<and> watchers s ! unat (word_of_int fildes :: u32) \<noteq> NULL"

text \<open>
  An I/O callback of the library, \<open>w->cb(loop, w, events)\<close>, is an argument here:
  \<open>dispatch w events\<close>.
\<close>

type_synonym dispatch = "ptr \<Rightarrow> u32 \<Rightarrow> uv_loop \<Rightarrow> uv_loop option"

partial_function (option) run_pending_taken :: "dispatch \<Rightarrow> uv_loop \<Rightarrow> uv_loop option" where
  "run_pending_taken dispatch s =
     (case pending_run s of
        [] \<Rightarrow> Some s
      | w # q \<Rightarrow>
          Option.bind (dispatch w POLLOUT (s\<lparr>pending_run := q\<rparr>)) (run_pending_taken dispatch))"

declare run_pending_taken.simps [code]

definition uv__run_pending :: "dispatch \<Rightarrow> uv_loop \<Rightarrow> uv_loop option" where
  "uv__run_pending dispatch s =
     run_pending_taken dispatch (s\<lparr>pending_run := pending_queue s, pending_queue := []\<rparr>)"

section \<open>Metrics\<close>

definition UV_METRICS_IDLE_TIME :: u32 where "UV_METRICS_IDLE_TIME = 1"

definition uv_hrtime :: "uv_loop \<Rightarrow> u64 \<times> uv_loop" where
  "uv_hrtime s = (hrtime s (readings s), s\<lparr>readings := readings s + 1\<rparr>)"

definition uv__metrics_update_idle_time :: "uv_loop \<Rightarrow> uv_loop" where
  "uv__metrics_update_idle_time s =
     (if lfields_flags s AND UV_METRICS_IDLE_TIME = 0 then s
      else if provider_entry_time s = 0 then s
      else
        let (exit_time, s) = uv_hrtime s;
            entry_time = provider_entry_time s
        in s\<lparr>provider_entry_time := 0,
             provider_idle_time := provider_idle_time s + (exit_time - entry_time)\<rparr>)"

definition uv__metrics_set_provider_entry_time :: "uv_loop \<Rightarrow> uv_loop" where
  "uv__metrics_set_provider_entry_time s =
     (if lfields_flags s AND UV_METRICS_IDLE_TIME = 0 then s
      else let (now, s) = uv_hrtime s in s\<lparr>provider_entry_time := now\<rparr>)"

definition uv_metrics_idle_time :: "uv_loop \<Rightarrow> u64 \<times> uv_loop" where
  "uv_metrics_idle_time s =
     (let idle_time = provider_idle_time s; entry_time = provider_entry_time s
      in if entry_time > 0
         then let (now, s) = uv_hrtime s in (idle_time + (now - entry_time), s)
         else (idle_time, s))"

definition uv__metrics_inc_loop_count :: "uv_loop \<Rightarrow> uv_loop" where
  "uv__metrics_inc_loop_count s = s\<lparr>loop_count := loop_count s + 1\<rparr>"

definition uv__metrics_inc_events :: "u64 \<Rightarrow> uv_loop \<Rightarrow> uv_loop" where
  "uv__metrics_inc_events e s = s\<lparr>events_count := events_count s + e\<rparr>"

definition uv__metrics_inc_events_waiting :: "u64 \<Rightarrow> uv_loop \<Rightarrow> uv_loop" where
  "uv__metrics_inc_events_waiting e s = s\<lparr>events_waiting := events_waiting s + e\<rparr>"

section \<open>The array of poll\<close>

definition empty_pollfd :: pollfd where
  "empty_pollfd = \<lparr>pfd = -1, pevents_in = 0, revents = 0\<rparr>"

definition uv__pollfds_maybe_resize :: "uv_loop \<Rightarrow> uv_loop" where
  "uv__pollfds_maybe_resize s =
     (if poll_fds_used s < length (poll_fds s) then s
      else
        let n = (if length (poll_fds s) \<noteq> 0 then length (poll_fds s) * 2 else 64)
        in s\<lparr>poll_fds := poll_fds s @ replicate (n - length (poll_fds s)) empty_pollfd\<rparr>)"

definition uv__pollfds_swap :: "nat \<Rightarrow> nat \<Rightarrow> uv_loop \<Rightarrow> uv_loop" where
  "uv__pollfds_swap l r s =
     s\<lparr>poll_fds := (poll_fds s)[l := poll_fds s ! r, r := poll_fds s ! l]\<rparr>"

text \<open>The first entry in use with a descriptor, from an index on.\<close>

definition find_pollfd :: "int \<Rightarrow> uv_loop \<Rightarrow> nat option" where
  "find_pollfd fildes s = find (\<lambda>i. pfd (poll_fds s ! i) = fildes) [0..<poll_fds_used s]"

definition uv__pollfds_add :: "ptr \<Rightarrow> uv_loop \<Rightarrow> uv_loop option" where
  "uv__pollfds_add w s =
     (if poll_fds_iterating s then None
      else
        case find_pollfd (fd (io s w)) s of
          Some i \<Rightarrow> Some (s\<lparr>poll_fds := (poll_fds s)[i := (poll_fds s ! i)\<lparr>pevents_in := pevents (io s w)\<rparr>]\<rparr>)
        | None \<Rightarrow>
            let s = uv__pollfds_maybe_resize s;
                i = poll_fds_used s
            in Some (s\<lparr>poll_fds_used := i + 1,
                 poll_fds := (poll_fds s)[i := (poll_fds s ! i)\<lparr>pfd := fd (io s w), pevents_in := pevents (io s w)\<rparr>]\<rparr>))"

function del_loop :: "int \<Rightarrow> nat \<Rightarrow> uv_loop \<Rightarrow> uv_loop" where
  "del_loop fildes i s =
     (if i < poll_fds_used s then
        if pfd (poll_fds s ! i) = fildes then
          let s = s\<lparr>poll_fds_used := poll_fds_used s - 1\<rparr>;
              s = uv__pollfds_swap i (poll_fds_used s) s;
              s = s\<lparr>poll_fds := (poll_fds s)[poll_fds_used s := empty_pollfd]\<rparr>
          in if fildes \<noteq> -1 then s else del_loop fildes i s
        else del_loop fildes (i + 1) s
      else s)"
  by pat_completeness auto
termination
  by (relation "measure (\<lambda>(fildes, i, s). poll_fds_used s - i)") (auto simp: uv__pollfds_swap_def)

declare del_loop.simps [simp del]

definition uv__pollfds_del :: "int \<Rightarrow> uv_loop \<Rightarrow> uv_loop option" where
  "uv__pollfds_del fildes s = (if poll_fds_iterating s then None else Some (del_loop fildes 0 s))"

definition uv__platform_invalidate_fd :: "int \<Rightarrow> uv_loop \<Rightarrow> uv_loop option" where
  "uv__platform_invalidate_fd fildes s =
     (if fildes < 0 then None
      else if poll_fds_iterating s then
        Some (s\<lparr>poll_fds := map (\<lambda>p. if pfd p = fildes then empty_pollfd else p)
                 (take (poll_fds_used s) (poll_fds s)) @ drop (poll_fds_used s) (poll_fds s)\<rparr>)
      else uv__pollfds_del fildes s)"

definition uv__io_close :: "ptr \<Rightarrow> uv_loop \<Rightarrow> uv_loop option" where
  "uv__io_close w s =
     Option.bind (uv__io_stop w all_events s) (\<lambda>s.
       let s = s\<lparr>pending_queue := remove1 w (pending_queue s), pending_run := remove1 w (pending_run s)\<rparr>
       in if fd (io s w) \<noteq> -1 then uv__platform_invalidate_fd (fd (io s w)) s else Some s)"

section \<open>Polling\<close>

text \<open>
  The kernel: what the \<open>n\<close>-th call of \<open>poll\<close> answers for an array of descriptors and a
  timeout. \<open>SIGPROF\<close> being blocked during the call is not visible in the answer.
\<close>

datatype poll_result = Poll_failed | Interrupted | Revents "u32 list"

type_synonym kernel = "nat \<Rightarrow> (int \<times> u32) list \<Rightarrow> int \<Rightarrow> poll_result"

fun add_watchers :: "ptr list \<Rightarrow> uv_loop \<Rightarrow> uv_loop option" where
  "add_watchers [] s = Some s"
| "add_watchers (w # q) s =
     (if pevents (io s w) = 0 \<or> fd (io s w) < 0 \<or> \<not> fd (io s w) < sint (nwatchers s) then None
      else
        Option.bind (uv__pollfds_add w (s\<lparr>watcher_queue := q\<rparr>)) (\<lambda>s.
          add_watchers q (set_io w ((io s w)\<lparr>events := pevents (io s w)\<rparr>) s)))"

definition interest :: "uv_loop \<Rightarrow> (int \<times> u32) list" where
  "interest s = map (\<lambda>p. (pfd p, pevents_in p)) (take (poll_fds_used s) (poll_fds s))"

definition set_revents :: "u32 list \<Rightarrow> uv_loop \<Rightarrow> uv_loop" where
  "set_revents rs s =
     s\<lparr>poll_fds := map2 (\<lambda>p r. p\<lparr>revents := r\<rparr>) (take (poll_fds_used s) (poll_fds s)) rs @
         drop (poll_fds_used s) (poll_fds s)\<rparr>"

text \<open>One turn of the loop over the array: the state, \<open>nevents\<close> and \<open>have_signals\<close>.\<close>

definition scan_entry :: "dispatch \<Rightarrow> nat \<Rightarrow> uv_loop \<times> nat \<times> bool \<Rightarrow> (uv_loop \<times> nat \<times> bool) option" where
  "scan_entry dispatch i st =
     (case st of (s, nevents, have_signals) \<Rightarrow>
        let fildes = pfd (poll_fds s ! i)
        in if fildes = -1 then Some st
           else if fildes < 0 \<or> \<not> nat fildes < unat (nwatchers s) then None
           else
             let w = watchers s ! nat fildes
             in if w = NULL then
                  map_option (\<lambda>s. (s, nevents, have_signals)) (uv__platform_invalidate_fd fildes s)
                else
                  let re = revents (poll_fds s ! i) AND (pevents (io s w) OR POLLERR OR POLLHUP);
                      s = s\<lparr>poll_fds := (poll_fds s)[i := (poll_fds s ! i)\<lparr>revents := re\<rparr>]\<rparr>
                  in if re \<noteq> 0 then
                       if w = signal_io_watcher s then Some (s, nevents + 1, True)
                       else map_option (\<lambda>s. (s, nevents + 1, have_signals))
                              (dispatch w re (uv__metrics_update_idle_time s))
                     else Some (s, nevents, have_signals))"

fun scan_entries :: "dispatch \<Rightarrow> nat list \<Rightarrow> uv_loop \<times> nat \<times> bool \<Rightarrow> (uv_loop \<times> nat \<times> bool) option" where
  "scan_entries dispatch [] st = Some st"
| "scan_entries dispatch (i # is) st = Option.bind (scan_entry dispatch i st) (scan_entries dispatch is)"

text \<open>
  One call of \<open>poll\<close> with what follows it either ends the function or polls again, with the
  flag \<open>reset_timeout\<close> and the timeout to use.
\<close>

datatype poll_next = Return uv_loop | Again bool int uv_loop

definition update_timeout :: "u64 \<Rightarrow> int \<Rightarrow> uv_loop \<Rightarrow> poll_next option" where
  "update_timeout time_base tmo s =
     (if tmo \<le> 0 then None
      else
        let time_diff = time s - time_base
        in if time_diff \<ge> word_of_int tmo then Some (Return s)
           else Some (Again False (tmo - uint time_diff) s))"

definition after_events ::
  "dispatch \<Rightarrow> u64 \<Rightarrow> int \<Rightarrow> bool \<Rightarrow> int \<Rightarrow> uv_loop \<Rightarrow> poll_next option" where
  "after_events dispatch time_base user_timeout reset tmo s =
     Option.bind (scan_entries dispatch [0..<poll_fds_used s] (s\<lparr>poll_fds_iterating := True\<rparr>, 0, False))
       (\<lambda>(s, nevents, have_signals).
          let s = uv__metrics_inc_events (of_nat nevents) s;
              tmo = (if reset then user_timeout else tmo);
              s = (if reset then uv__metrics_inc_events_waiting (of_nat nevents) s else s)
          in Option.bind
               (if have_signals then dispatch (signal_io_watcher s) POLLIN (uv__metrics_update_idle_time s)
                else Some s)
               (\<lambda>s. Option.bind (uv__pollfds_del (-1) (s\<lparr>poll_fds_iterating := False\<rparr>)) (\<lambda>s.
                  if have_signals then Some (Return s)
                  else if nevents \<noteq> 0 then Some (Return s)
                  else if tmo = 0 then Some (Return s)
                  else if tmo = -1 then Some (Again False tmo s)
                  else update_timeout time_base tmo s)))"

definition poll_once ::
  "kernel \<Rightarrow> dispatch \<Rightarrow> u64 \<Rightarrow> int \<Rightarrow> bool \<Rightarrow> int \<Rightarrow> uv_loop \<Rightarrow> poll_next option" where
  "poll_once kern dispatch time_base user_timeout reset tmo s =
     (let s = (if tmo \<noteq> 0 then uv__metrics_set_provider_entry_time s else s);
          s = s\<lparr>current_timeout := tmo\<rparr>;
          r = kern (polls s) (interest s) tmo;
          s = uv__update_time (s\<lparr>polls := polls s + 1\<rparr>)
      in case r of
           Poll_failed \<Rightarrow> None
         | Interrupted \<Rightarrow>
             let tmo = (if reset then user_timeout else tmo)
             in if tmo = -1 then Some (Again False tmo s)
                else if tmo = 0 then Some (Return s)
                else update_timeout time_base tmo s
         | Revents rs \<Rightarrow>
             if length rs \<noteq> poll_fds_used s then None
             else if \<forall>x \<in> set rs. x = 0 then
               let s = set_revents rs s
               in if reset \<and> user_timeout = -1 then Some (Again False user_timeout s)
                  else if reset \<and> user_timeout > 0 then update_timeout time_base user_timeout s
                  else if (if reset then user_timeout else tmo) = -1 then None
                  else Some (Return s)
             else after_events dispatch time_base user_timeout reset tmo (set_revents rs s))"

partial_function (option) poll_loop ::
  "kernel \<Rightarrow> dispatch \<Rightarrow> u64 \<Rightarrow> int \<Rightarrow> bool \<Rightarrow> int \<Rightarrow> uv_loop \<Rightarrow> uv_loop option" where
  "poll_loop kern dispatch time_base user_timeout reset tmo s =
     (case poll_once kern dispatch time_base user_timeout reset tmo s of
        None \<Rightarrow> None
      | Some (Return s) \<Rightarrow> Some s
      | Some (Again reset tmo s) \<Rightarrow> poll_loop kern dispatch time_base user_timeout reset tmo s)"

declare poll_loop.simps [code]

definition uv__io_poll :: "kernel \<Rightarrow> dispatch \<Rightarrow> int \<Rightarrow> uv_loop \<Rightarrow> uv_loop option" where
  "uv__io_poll kern dispatch tmo s =
     (if nfds s = 0 then (if watcher_queue s = [] then Some s else None)
      else
        Option.bind (add_watchers (watcher_queue s) s) (\<lambda>s.
          if tmo < -1 then None
          else
            let time_base = time s
            in if lfields_flags s AND UV_METRICS_IDLE_TIME \<noteq> 0
               then poll_loop kern dispatch time_base tmo True 0 s
               else poll_loop kern dispatch time_base tmo False tmo s))"

section \<open>The size of the array of watchers\<close>

definition smear :: "nat \<Rightarrow> u32 \<Rightarrow> u32" where
  "smear k w = w OR drop_bit k w"

lemma bit_smear:
  assumes "\<And>n. bit w n \<longleftrightarrow> (\<exists>j<m. bit x (n + j))"
  shows "bit (smear m w) n \<longleftrightarrow> (\<exists>j<2 * m. bit x (n + j))"
proof -
  have "bit (smear m w) n \<longleftrightarrow> (\<exists>j<m. bit x (n + j)) \<or> (\<exists>j<m. bit x (n + (m + j)))"
    by (simp add: smear_def bit_or_iff bit_drop_bit_eq assms add.assoc add.left_commute)
  also have "\<dots> \<longleftrightarrow> (\<exists>j<2 * m. bit x (n + j))"
  proof
    assume "\<exists>j<2 * m. bit x (n + j)"
    then obtain j where j: "j < 2 * m" "bit x (n + j)" by blast
    show "(\<exists>j<m. bit x (n + j)) \<or> (\<exists>j<m. bit x (n + (m + j)))"
    proof (cases "j < m")
      case False
      then have "j - m < m" "bit x (n + (m + (j - m)))" using j by auto
      then show ?thesis by blast
    qed (use j in blast)
  next
    assume "(\<exists>j<m. bit x (n + j)) \<or> (\<exists>j<m. bit x (n + (m + j)))"
    then show "\<exists>j<2 * m. bit x (n + j)"
    proof (elim disjE exE conjE)
      fix j assume "j < m" "bit x (n + j)"
      then show ?thesis by (intro exI [of _ j]) simp
    next
      fix j assume "j < m" "bit x (n + (m + j))"
      then show ?thesis by (intro exI [of _ "m + j"]) simp
    qed
  qed
  finally show ?thesis .
qed

definition covers :: "nat \<Rightarrow> u32 \<Rightarrow> u32 \<Rightarrow> bool" where
  "covers m w x \<longleftrightarrow> (\<forall>n. bit w n \<longleftrightarrow> (\<exists>j<m. bit x (n + j)))"

lemma covers_smear: "covers m w x \<Longrightarrow> k = 2 * m \<Longrightarrow> covers k (smear m w) x"
  using bit_smear [of w m x] by (simp add: covers_def)

lemma next_power_of_two_smear:
  "next_power_of_two v = smear 16 (smear 8 (smear 4 (smear 2 (smear 1 (v - 1))))) + 1"
  by (simp add: next_power_of_two_def smear_def Let_def)

lemma power_bracket: obtains k :: nat where "u < 2 ^ k" "k = 0 \<or> 2 ^ (k - 1) \<le> (u :: nat)"
proof -
  define k where "k = (LEAST k. u < 2 ^ k)"
  have "u < 2 ^ u" by (rule less_exp)
  then have "u < 2 ^ k" unfolding k_def by (rule LeastI)
  moreover have "k = 0 \<or> 2 ^ (k - 1) \<le> u"
  proof (cases k)
    case (Suc j)
    then have "\<not> u < 2 ^ j" unfolding k_def using not_less_Least [of j "\<lambda>k. u < 2 ^ k"] by simp
    then show ?thesis using Suc by simp
  qed simp
  ultimately show thesis by (rule that)
qed

lemma bits_below: "unat x < 2 ^ k \<Longrightarrow> bit x n \<Longrightarrow> n < k" for x :: u32
proof -
  assume a: "unat x < 2 ^ k" "bit x n"
  show "n < k"
  proof (rule ccontr)
    assume "\<not> n < k"
    then have "(2 :: nat) ^ k \<le> 2 ^ n" by simp
    then have "unat x div 2 ^ n = 0" using a(1) by (intro div_less) linarith
    then have "\<not> bit (unat x) n" by (simp add: bit_iff_odd)
    moreover have "bit (unat x) n" using a(2) bit_imp_le_length [OF a(2)] by (simp add: bit_unsigned_iff)
    ultimately show False by blast
  qed
qed

lemma top_bit:
  assumes "unat x < 2 ^ Suc k" "2 ^ k \<le> unat x"
  shows "bit (x :: u32) k"
proof -
  have "unat x div 2 ^ k = 1"
    using assms by (intro div_nat_eqI) auto
  then have "bit (unat x) k" by (simp add: bit_iff_odd)
  then show ?thesis by (simp add: bit_unsigned_iff)
qed

lemma next_power_of_two_spec:
  assumes "1 \<le> unat v" "unat v \<le> 2 ^ 31"
  shows "\<exists>k \<le> 31. unat (next_power_of_two v) = 2 ^ k \<and> unat v \<le> 2 ^ k \<and> 2 ^ k < 2 * unat v"
proof -
  let ?x = "v - 1"
  have x: "unat ?x = unat v - 1" using assms(1) by (simp add: unat_sub_if_size)
  obtain k where k: "unat ?x < 2 ^ k" "k = 0 \<or> 2 ^ (k - 1) \<le> unat ?x" by (rule power_bracket)
  have k31: "k \<le> 31"
  proof (rule ccontr)
    assume "\<not> k \<le> 31"
    then have "(2 :: nat) ^ 31 \<le> 2 ^ (k - 1)" by (intro power_increasing) auto
    then show False using k(2) x assms \<open>\<not> k \<le> 31\<close> by auto
  qed
  let ?m = "smear 16 (smear 8 (smear 4 (smear 2 (smear 1 ?x))))"
  have "bit ?m n \<longleftrightarrow> (\<exists>j<32. bit ?x (n + j))" for n
  proof -
    have "covers 1 ?x ?x" by (simp add: covers_def)
    then have "covers 32 ?m ?x"
      by (rule covers_smear [THEN covers_smear, THEN covers_smear, THEN covers_smear, THEN covers_smear]) simp_all
    then show ?thesis by (simp add: covers_def)
  qed
  moreover have "(\<exists>j<32. bit ?x (n + j)) \<longleftrightarrow> n < k" for n
  proof
    assume "\<exists>j<32. bit ?x (n + j)"
    then obtain j where "bit ?x (n + j)" by blast
    then show "n < k" using bits_below [OF k(1)] by fastforce
  next
    assume n: "n < k"
    then have "bit ?x (k - 1)" using top_bit [of ?x "k - 1"] k by auto
    then show "\<exists>j<32. bit ?x (n + j)" using n k31 by (intro exI [of _ "k - 1 - n"]) auto
  qed
  ultimately have "?m = mask k" by (intro bit_eqI) (use k31 in \<open>auto simp: bit_mask_iff\<close>)
  then have r: "next_power_of_two v = 2 ^ k" by (simp add: next_power_of_two_smear mask_eq_exp_minus_1)
  have "(2 :: nat) ^ k \<le> 2 ^ 31" using k31 by (intro power_increasing) auto
  then have "unat (2 ^ k :: u32) = 2 ^ k" using unat_of_nat_u32 [of "2 ^ k"] by simp
  moreover have "unat v \<le> 2 ^ k" using k(1) x by simp
  moreover have "2 ^ k < 2 * unat v"
  proof (cases k)
    case 0
    then show ?thesis using assms(1) by simp
  next
    case (Suc j)
    then have "2 ^ j \<le> unat v - 1" using k(2) x by simp
    then show ?thesis using Suc assms(1) by simp
  qed
  ultimately show ?thesis using r k31 by auto
qed

text \<open>
  The only descriptor that the assertions of \<open>uv__io_start\<close> admit and that is too large for this
  computation: the number of watchers wraps around and the size of the allocation is 0.
\<close>

lemma largest_fd_overflows:
  "next_power_of_two (word_of_int (2147483646 + 1) + 2) - 2 + 2 = 0"
  by code_simp

section \<open>The invariant of the watchers\<close>

definition registered :: "uv_loop \<Rightarrow> ptr \<Rightarrow> bool" where
  "registered s w \<longleftrightarrow> w \<noteq> NULL \<and> 0 \<le> fd (io s w) \<and> nat (fd (io s w)) < unat (nwatchers s) \<and>
     watchers s ! nat (fd (io s w)) = w"

definition shape_ok :: "uv_loop \<Rightarrow> bool" where
  "shape_ok s \<longleftrightarrow> (if watchers s = [] then nwatchers s = 0 else length (watchers s) = unat (nwatchers s) + 2) \<and>
     unat (nwatchers s) < 2 ^ 31"

definition used_slots :: "uv_loop \<Rightarrow> nat set" where
  "used_slots s = {i. i < unat (nwatchers s) \<and> watchers s ! i \<noteq> NULL}"

definition io_ok :: "uv_loop \<Rightarrow> bool" where
  "io_ok s \<longleftrightarrow> shape_ok s \<and> nfds s = of_nat (card (used_slots s)) \<and>
     (\<forall>i \<in> used_slots s. fd (io s (watchers s ! i)) = int i \<and> pevents (io s (watchers s ! i)) \<noteq> 0) \<and>
     (\<forall>w. pevents (io s w) \<noteq> 0 \<longrightarrow> registered s w) \<and>
     (\<forall>w. pevents (io s w) AND NOT all_events = 0) \<and>
     (\<forall>w. events (io s w) \<noteq> 0 \<longrightarrow> pevents (io s w) \<noteq> 0) \<and>
     distinct (watcher_queue s) \<and> (\<forall>w \<in> set (watcher_queue s). pevents (io s w) \<noteq> 0) \<and>
     distinct (pending_run s @ pending_queue s)"

text \<open>
  The entries in use of the array of \<open>poll\<close> have different descriptors within the range of the
  watchers; while the array is scanned, some may be invalidated. Every watcher that wants
  events is queued for registration, or has an entry that asks for just its events.
\<close>

definition entries_ok :: "uv_loop \<Rightarrow> bool" where
  "entries_ok s \<longleftrightarrow> poll_fds_used s \<le> length (poll_fds s) \<and>
     (\<forall>(f, e) \<in> set (interest s). f = -1 \<and> poll_fds_iterating s \<or> 0 \<le> f \<and> nat f < unat (nwatchers s)) \<and>
     distinct (filter (\<lambda>f. f \<noteq> -1) (map fst (interest s)))"

definition synced :: "uv_loop \<Rightarrow> bool" where
  "synced s \<longleftrightarrow> (\<forall>w. pevents (io s w) \<noteq> 0 \<and> w \<notin> set (watcher_queue s) \<longrightarrow>
     events (io s w) = pevents (io s w) \<and> (fd (io s w), pevents (io s w)) \<in> set (interest s))"

definition polling_ok :: "uv_loop \<Rightarrow> bool" where
  "polling_ok s \<longleftrightarrow> io_ok s \<and> entries_ok s \<and> synced s"

lemma finite_used_slots [simp]: "finite (used_slots s)"
  by (simp add: used_slots_def)

lemma card_used_slots: "card (used_slots s) < 2 ^ 32"
proof -
  have "card (used_slots s) \<le> card {..<unat (nwatchers s)}" by (rule card_mono) (auto simp: used_slots_def)
  then show ?thesis using unsigned_less [of "nwatchers s", where ?'a = nat] by simp
qed

lemma nfds_zero: "io_ok s \<Longrightarrow> nfds s = 0 \<longleftrightarrow> used_slots s = {}"
proof -
  assume "io_ok s"
  then have "nfds s = 0 \<longleftrightarrow> card (used_slots s) = 0"
    unfolding io_ok_def using of_nat_u32_eq_0 [OF card_used_slots] by metis
  then show ?thesis by simp
qed

lemma registered_fd: "registered s w \<Longrightarrow> registered s v \<Longrightarrow> fd (io s w) = fd (io s v) \<Longrightarrow> w = v"
  by (simp add: registered_def)

lemma maybe_resize_ok:
  assumes "shape_ok s" "0 \<le> f" "f \<le> 2147483645"
    and s': "s' = maybe_resize (word_of_int (f + 1)) s"
  shows "shape_ok s'"
    and "nat f < unat (nwatchers s')" "unat (nwatchers s) \<le> unat (nwatchers s')"
    and "\<And>i. i < unat (nwatchers s) \<Longrightarrow> watchers s' ! i = watchers s ! i"
    and "\<And>i. unat (nwatchers s) \<le> i \<Longrightarrow> i < unat (nwatchers s') \<Longrightarrow> watchers s' ! i = NULL"
    and "length (watchers s') = unat (nwatchers s') + 2"
proof -
  let ?len = "word_of_int (f + 1) :: u32" and ?n = "unat (nwatchers s)"
  have "?len = of_nat (nat f + 1)" using assms(2) by simp
  moreover have "unat (of_nat (nat f + 1) :: u32) = nat f + 1"
    by (rule unat_of_nat_u32) (use assms(3) in simp)
  ultimately have len: "unat ?len = nat f + 1" by (simp only:)
  have "shape_ok s' \<and> nat f < unat (nwatchers s') \<and> ?n \<le> unat (nwatchers s') \<and>
    (\<forall>i < ?n. watchers s' ! i = watchers s ! i) \<and>
    (\<forall>i. ?n \<le> i \<and> i < unat (nwatchers s') \<longrightarrow> watchers s' ! i = NULL) \<and> length (watchers s') = unat (nwatchers s') + 2"
  proof (cases "?len \<le> nwatchers s")
    case True
    then have "nat f < ?n" using len by (simp add: word_le_nat_alt)
    moreover have "s' = s" using True by (simp add: s' maybe_resize_def)
    moreover have "watchers s \<noteq> []" using assms(1) calculation(1) by (auto simp: shape_ok_def)
    ultimately show ?thesis using assms(1) by (simp add: shape_ok_def)
  next
    case False
    then have n: "?n < nat f + 1" using len by (simp add: word_le_nat_alt)
    let ?nw = "next_power_of_two (?len + 2) - 2"
    have "?len + 2 = of_nat (nat f + 3)" using assms(2) by simp
    moreover have "unat (of_nat (nat f + 3) :: u32) = nat f + 3"
      by (rule unat_of_nat_u32) (use assms(3) in simp)
    ultimately have l2: "unat (?len + 2) = nat f + 3" by (simp only:)
    have "1 \<le> unat (?len + 2)" "unat (?len + 2) \<le> 2 ^ 31" using l2 assms(3) by simp_all
    from next_power_of_two_spec [OF this] obtain k where k: "k \<le> 31" "unat (next_power_of_two (?len + 2)) = 2 ^ k"
      "nat f + 3 \<le> 2 ^ k" unfolding l2 by blast
    have nw: "unat ?nw = 2 ^ k - 2" using k by (simp add: unat_sub_if_size)
    have "(2 :: nat) ^ k \<le> 2 ^ 31" using k(1) by (intro power_increasing) auto
    then have small: "unat ?nw < 2 ^ 31" "nat f < unat ?nw" using nw k(3) by auto
    have shape: "length (watchers s) = (if watchers s = [] then 0 else ?n + 2)" "watchers s = [] \<Longrightarrow> ?n = 0"
      using assms(1) by (auto simp: shape_ok_def)
    then show ?thesis using False n small
      by (auto simp: s' maybe_resize_def shape_ok_def Let_def nth_append)
  qed
  then show "shape_ok s'" "nat f < unat (nwatchers s')" "?n \<le> unat (nwatchers s')"
    "\<And>i. i < ?n \<Longrightarrow> watchers s' ! i = watchers s ! i"
    "\<And>i. ?n \<le> i \<Longrightarrow> i < unat (nwatchers s') \<Longrightarrow> watchers s' ! i = NULL"
    "length (watchers s') = unat (nwatchers s') + 2" by blast+
qed

lemma maybe_resize_fields [simp]:
  "io (maybe_resize l s) = io s" "watcher_queue (maybe_resize l s) = watcher_queue s"
  "nfds (maybe_resize l s) = nfds s" "pending_queue (maybe_resize l s) = pending_queue s"
  "pending_run (maybe_resize l s) = pending_run s" "poll_fds (maybe_resize l s) = poll_fds s"
  "poll_fds_used (maybe_resize l s) = poll_fds_used s" "poll_fds_iterating (maybe_resize l s) = poll_fds_iterating s"
  by (simp_all add: maybe_resize_def Let_def)

section \<open>Starting and stopping\<close>

text \<open>What the operations on watchers leave alone: all but the fields that this theory is about.\<close>

definition erase_io :: "uv_loop \<Rightarrow> uv_loop" where
  "erase_io s = (let z = new_loop (\<lambda>_. 0) in s\<lparr>watchers := watchers z, nwatchers := nwatchers z, nfds := nfds z, watcher_queue := watcher_queue z, pending_queue := pending_queue z, pending_run := pending_run z, io := io z, poll_fds := poll_fds z, poll_fds_used := poll_fds_used z\<rparr>)"

lemma erase_ioD:
  assumes "erase_io s' = erase_io s"
  shows "handle s' = handle s" "active_handles s' = active_handles s" "handle_queue s' = handle_queue s" "active_reqs s' = active_reqs s" 
    "stop_flag s' = stop_flag s" "loop_flags s' = loop_flags s" 
    "closing_handles s' = closing_handles s" "watcher_handles s' = watcher_handles s" 
    "async_handles s' = async_handles s" "async_io_watcher s' = async_io_watcher s" 
    "timer_heap s' = timer_heap s" "timer_counter s' = timer_counter s" "time s' = time s" 
    "signal_io_watcher s' = signal_io_watcher s" "signal_tree s' = signal_tree s" 
    "signal_pipe s' = signal_pipe s" "ready_queue s' = ready_queue s" "run_queue s' = run_queue s" 
    "async_run s' = async_run s" "walk_queue s' = walk_queue s" "timer s' = timer s" 
    "watcher_cb s' = watcher_cb s" "poll_cb s' = poll_cb s" "async s' = async s" 
    "signal s' = signal s" "lfields_flags s' = lfields_flags s" "loop_count s' = loop_count s" 
    "events_count s' = events_count s" "events_waiting s' = events_waiting s" 
    "provider_entry_time s' = provider_entry_time s" "provider_idle_time s' = provider_idle_time s" 
    "current_timeout s' = current_timeout s" "poll_fds_iterating s' = poll_fds_iterating s" 
    "hrtime s' = hrtime s" "readings s' = readings s" "polls s' = polls s" "called s' = called s" 
    "all_handles s' = all_handles s"
  using assms by (cases s; cases s'; simp add: erase_io_def all_handles_def Let_def)+

lemma erase_io_update [simp]:
  "erase_io (watchers_update g3 s) = erase_io s"
  "erase_io (nwatchers_update g4 s) = erase_io s"
  "erase_io (nfds_update g5 s) = erase_io s"
  "erase_io (watcher_queue_update g6 s) = erase_io s"
  "erase_io (pending_queue_update g7 s) = erase_io s"
  "erase_io (pending_run_update g8 s) = erase_io s"
  "erase_io (io_update g9 s) = erase_io s"
  "erase_io (poll_fds_update g10 s) = erase_io s"
  "erase_io (poll_fds_used_update g11 s) = erase_io s"
  by (cases s; simp add: erase_io_def Let_def)+

lemma erase_io_set [simp]: "erase_io (set_io w x s) = erase_io s" "erase_io (maybe_resize l s) = erase_io s"
  by (simp_all add: set_io_def maybe_resize_def Let_def)

lemma set_io_fields [simp]:
  "io (set_io w x s) = (io s)(w := x)" "watchers (set_io w x s) = watchers s" "nwatchers (set_io w x s) = nwatchers s"
  "nfds (set_io w x s) = nfds s" "watcher_queue (set_io w x s) = watcher_queue s"
  "pending_queue (set_io w x s) = pending_queue s" "pending_run (set_io w x s) = pending_run s"
  "poll_fds (set_io w x s) = poll_fds s" "poll_fds_used (set_io w x s) = poll_fds_used s"
  "poll_fds_iterating (set_io w x s) = poll_fds_iterating s"
  by (simp_all add: set_io_def)

lemma interest_cong: "poll_fds s' = poll_fds s \<Longrightarrow> poll_fds_used s' = poll_fds_used s \<Longrightarrow> interest s' = interest s"
  by (simp add: interest_def)

lemma entries_ok_cong:
  assumes "entries_ok s" "poll_fds s' = poll_fds s" "poll_fds_used s' = poll_fds_used s"
    "poll_fds_iterating s' = poll_fds_iterating s" "unat (nwatchers s) \<le> unat (nwatchers s')"
  shows "entries_ok s'"
  using assms unfolding entries_ok_def interest_cong [OF assms(2,3)] by fastforce

lemma resize_ok:
  assumes "polling_ok s" "0 \<le> f" "f \<le> 2147483645"
  shows "polling_ok (maybe_resize (word_of_int (f + 1)) s)"
proof -
  let ?s = "maybe_resize (word_of_int (f + 1)) s"
  have sh: "shape_ok s" using assms(1) by (simp add: polling_ok_def io_ok_def)
  note r = maybe_resize_ok [OF sh assms(2,3) refl]
  have u: "used_slots ?s = used_slots s"
  proof
    show "used_slots ?s \<subseteq> used_slots s"
    proof
      fix i assume i: "i \<in> used_slots ?s"
      then show "i \<in> used_slots s" using r(4,5) [of i] by (cases "i < unat (nwatchers s)") (simp_all add: used_slots_def)
    qed
    show "used_slots s \<subseteq> used_slots ?s" using r(3,4) by (auto simp: used_slots_def)
  qed
  have w: "watchers ?s ! i = watchers s ! i" if "i \<in> used_slots s" for i
    using that r(4) by (simp add: used_slots_def)
  have reg: "registered ?s v" if "registered s v" for v using that r(3,4) by (auto simp: registered_def)
  have i: "io_ok s" "entries_ok s" "synced s" using assms(1) by (simp_all add: polling_ok_def)
  have "io_ok ?s" using i(1) r(1) w reg unfolding io_ok_def u by simp
  moreover have "entries_ok ?s" by (rule entries_ok_cong [OF i(2)]) (use r(3) in simp_all)
  moreover have "synced ?s" using i(3) by (simp add: synced_def interest_def)
  ultimately show ?thesis by (simp add: polling_ok_def)
qed

definition enqueue_watcher :: "ptr \<Rightarrow> uv_loop \<Rightarrow> uv_loop" where
  "enqueue_watcher w s = (if w \<in> set (watcher_queue s) then s else s\<lparr>watcher_queue := watcher_queue s @ [w]\<rparr>)"

lemma enqueue_fields [simp]:
  "io (enqueue_watcher w s) = io s" "watchers (enqueue_watcher w s) = watchers s"
  "nwatchers (enqueue_watcher w s) = nwatchers s" "nfds (enqueue_watcher w s) = nfds s"
  "pending_run (enqueue_watcher w s) = pending_run s" "pending_queue (enqueue_watcher w s) = pending_queue s"
  "erase_io (enqueue_watcher w s) = erase_io s"
  by (simp_all add: enqueue_watcher_def)

lemma io_update_ok:
 assumes "polling_ok s" "pevents x AND NOT all_events = 0" "pevents x \<noteq> 0" "fd x = fd (io s w)" "events x = events (io s w)" "registered s w"
  shows "polling_ok (enqueue_watcher w (set_io w x s))"
proof -
  let ?s = "enqueue_watcher w (set_io w x s)"
  have f: "io ?s = (io s)(w := x)" "watchers ?s = watchers s" "nwatchers ?s = nwatchers s" "nfds ?s = nfds s"
    "set (watcher_queue ?s) = insert w (set (watcher_queue s))" "distinct (watcher_queue s) \<Longrightarrow> distinct (watcher_queue ?s)"
    "interest ?s = interest s" "pending_run ?s = pending_run s" "pending_queue ?s = pending_queue s"
    "poll_fds ?s = poll_fds s" "poll_fds_used ?s = poll_fds_used s" "poll_fds_iterating ?s = poll_fds_iterating s"
    by (auto simp: enqueue_watcher_def interest_def)
  have u: "used_slots ?s = used_slots s" "shape_ok ?s = shape_ok s" by (simp_all add: used_slots_def shape_ok_def f)
  have reg: "registered ?s v" if "registered s v" for v using that assms(4) by (auto simp: registered_def f)
  have i: "io_ok s" "entries_ok s" "synced s" using assms(1) by (simp_all add: polling_ok_def)
  have "io_ok ?s"
    using i(1) reg assms(2-6) f(6) unfolding io_ok_def u f by (auto simp: f)
  moreover have "entries_ok ?s" by (rule entries_ok_cong [OF i(2)]) (simp_all add: f)
  moreover have "synced ?s" using i(3) unfolding synced_def f by auto
  ultimately show ?thesis by (simp add: polling_ok_def)
qed

lemma io_register_ok:
 assumes "polling_ok s" "pevents x AND NOT all_events = 0" "pevents x \<noteq> 0" "fd x = fd (io s w)" "events x = 0" "w \<noteq> NULL" "0 \<le> fd x"
    "nat (fd x) < unat (nwatchers s)" "watchers s ! nat (fd x) = NULL" "pevents (io s w) = 0"
  shows "polling_ok ((enqueue_watcher w (set_io w x s))\<lparr>watchers := (watchers s)[nat (fd x) := w], nfds := nfds s + 1\<rparr>)"
    (is "polling_ok ?s")
proof -
  let ?i = "nat (fd x)"
  have i: "io_ok s" "entries_ok s" "synced s" using assms(1) by (simp_all add: polling_ok_def)
  have f: "io ?s = (io s)(w := x)" "watchers ?s = (watchers s)[?i := w]" "nwatchers ?s = nwatchers s" "nfds ?s = nfds s + 1"
    "set (watcher_queue ?s) = insert w (set (watcher_queue s))" "distinct (watcher_queue s) \<Longrightarrow> distinct (watcher_queue ?s)"
    "interest ?s = interest s" "pending_run ?s = pending_run s" "pending_queue ?s = pending_queue s"
    "poll_fds ?s = poll_fds s" "poll_fds_used ?s = poll_fds_used s" "poll_fds_iterating ?s = poll_fds_iterating s"
    by (auto simp: enqueue_watcher_def interest_def)
  have len: "?i < length (watchers s)" "watchers s \<noteq> []" using i(1) assms(8) by (auto simp: io_ok_def shape_ok_def split: if_splits)
  have u: "used_slots ?s = insert ?i (used_slots s)" using assms(6,8) len by (auto simp: used_slots_def f nth_list_update)
  have iu: "?i \<notin> used_slots s" using assms(9) by (simp add: used_slots_def)
  have c: "nfds ?s = of_nat (card (used_slots ?s))" using i(1) iu unfolding u f by (simp add: io_ok_def)
  have sh: "shape_ok ?s" using i(1) len by (auto simp: io_ok_def shape_ok_def f)
  have reg: "registered ?s v" if "registered s v" for v
  proof -
    have "nat (fd (io s v)) \<noteq> ?i" using that assms(9) by (auto simp: registered_def)
    then show ?thesis using that assms(4,6,9) by (auto simp: registered_def f)
  qed
  have regw: "registered ?s w" using assms(6-8) len by (simp add: registered_def f)
  have slot: "fd (io ?s (watchers ?s ! j)) = int j \<and> pevents (io ?s (watchers ?s ! j)) \<noteq> 0" if "j \<in> used_slots ?s" for j
  proof (cases "j = ?i")
    case True
    then show ?thesis using len assms(3,7) by (simp add: f)
  next
    case False
    then have j: "j \<in> used_slots s" "watchers ?s ! j = watchers s ! j" using that u by (simp_all add: f)
    then have "fd (io s (watchers s ! j)) = int j \<and> pevents (io s (watchers s ! j)) \<noteq> 0" using i(1) by (simp add: io_ok_def)
    then show ?thesis using j(2) assms(10) by (auto simp: f)
  qed
  have "io_ok ?s"
    using i(1) sh c slot reg regw assms(2,3,5) f(6) unfolding io_ok_def f(5) by (auto simp: f)
  moreover have "entries_ok ?s" by (rule entries_ok_cong [OF i(2)]) (simp_all add: f)
  moreover have "synced ?s" using i(3) unfolding synced_def f by auto
  ultimately show ?thesis by (simp add: polling_ok_def)
qed

text \<open>A watcher may be started when no other watcher is registered for its descriptor.\<close>

definition fd_free :: "uv_loop \<Rightarrow> ptr \<Rightarrow> bool" where
  "fd_free s w \<longleftrightarrow> w \<noteq> NULL \<and> 0 \<le> fd (io s w) \<and> fd (io s w) \<le> 2147483645 \<and>
     (nat (fd (io s w)) < unat (nwatchers s) \<longrightarrow> watchers s ! nat (fd (io s w)) \<in> {NULL, w})"

lemma or_nonzero: "ev \<noteq> 0 \<Longrightarrow> w OR ev \<noteq> 0" for w ev :: u32
  by (simp add: or_eq_0_iff)

lemma set_io_resize: "maybe_resize l (set_io w x s) = set_io w x (maybe_resize l s)"
  by (simp add: maybe_resize_def set_io_def Let_def)

lemma io_start_ok:
  assumes "polling_ok s" "events_valid ev" "fd_free s w"
  shows "\<exists>s'. uv__io_start w ev s = Some s' \<and> polling_ok s' \<and> erase_io s' = erase_io s \<and>
    io s' = (io s)(w := (io s w)\<lparr>pevents := pevents (io s w) OR ev\<rparr>) \<and> registered s' w \<and>
    pending_run s' = pending_run s \<and> pending_queue s' = pending_queue s"
proof -
  let ?f = "fd (io s w)"
  let ?r = "maybe_resize (word_of_int (?f + 1)) s"
  let ?x = "(io s w)\<lparr>pevents := pevents (io s w) OR ev\<rparr>"
  have ff: "w \<noteq> NULL" "0 \<le> ?f" "?f \<le> 2147483645" using assms(3) by (simp_all add: fd_free_def)
  have sh: "shape_ok s" using assms(1) by (simp add: polling_ok_def io_ok_def)
  note r = maybe_resize_ok [OF sh ff(2,3) refl]
  have ok: "polling_ok ?r" using resize_ok [OF assms(1) ff(2,3)] .
  have free: "watchers ?r ! nat ?f \<in> {NULL, w}"
    using assms(3) r(2,4,5) by (cases "nat ?f < unat (nwatchers s)") (auto simp: fd_free_def)
  have pa: "pevents ?x AND NOT all_events = 0"
  proof -
    have "pevents (io s w) AND NOT all_events = 0" "ev AND NOT all_events = 0"
      using assms(1,2) by (simp_all add: polling_ok_def io_ok_def events_valid_def)
    then show ?thesis by (simp add: bit.conj_disj_distrib2)
  qed
  have pe: "pevents ?x \<noteq> 0" using assms(2) or_nonzero by (simp add: events_valid_def)
  have start: "uv__io_start w ev s =
    (if events ?x = pevents ?x then Some (set_io w ?x ?r)
     else let t = enqueue_watcher w (set_io w ?x ?r)
      in if nat ?f \<ge> length (watchers t) then None
         else if watchers t ! nat ?f = NULL then Some (t\<lparr>watchers := (watchers t)[nat ?f := w], nfds := nfds t + 1\<rparr>)
         else Some t)"
    using assms(2) ff unfolding uv__io_start_def enqueue_watcher_def by (simp add: Let_def set_io_resize)
  have io: "io_ok ?r" "synced ?r" using ok by (simp_all add: polling_ok_def)
  have re: "registered ?r w" if "pevents (io s w) \<noteq> 0" using io(1) that by (simp add: io_ok_def)
  show ?thesis
  proof (cases "events ?x = pevents ?x")
    case True
    then have "events (io s w) \<noteq> 0" using pe by simp
    then have p: "pevents (io s w) \<noteq> 0" using io(1) by (simp add: io_ok_def)
    have "polling_ok (set_io w ?x ?r)"
    proof (cases "w \<in> set (watcher_queue s)")
      case q: True
      then show ?thesis using io_update_ok [OF ok pa pe _ _ re [OF p]] by (simp add: enqueue_watcher_def)
    next
      case False
      then have "events (io s w) = pevents (io s w)" using io(2) p by (simp add: synced_def)
      then have "?x = io ?r w" using True by simp
      then have "set_io w ?x ?r = ?r" by (simp add: set_io_def)
      then show ?thesis using ok by simp
    qed
    then show ?thesis using start True re [OF p] by (simp add: registered_def)
  next
    case ne: False
    let ?t = "enqueue_watcher w (set_io w ?x ?r)"
    have tf: "watchers ?t = watchers ?r" "nfds ?t = nfds ?r" "erase_io ?t = erase_io s" "io ?t = (io s)(w := ?x)"
      "nwatchers ?t = nwatchers ?r" "pending_run ?t = pending_run s" "pending_queue ?t = pending_queue s"
      by (simp_all add: enqueue_watcher_def)
    have len: "\<not> nat ?f \<ge> length (watchers ?t)" using r(2,6) by (simp add: tf)
    show ?thesis
    proof (cases "watchers ?r ! nat ?f = NULL")
      case True
      have p0: "pevents (io s w) = 0"
        using re True ff(1) by (auto simp: registered_def)
      moreover have "events (io s w) = 0" using io(1) p0 by (auto simp: io_ok_def)
      ultimately have "polling_ok (?t\<lparr>watchers := (watchers ?r)[nat ?f := w], nfds := nfds ?r + 1\<rparr>)"
        using io_register_ok [OF ok pa pe, of w] True ff r(2) by simp
      then show ?thesis using start ne len True r(2,6) ff by (simp add: tf registered_def Let_def)
    next
      case False
      then have "registered ?r w" using free ff r(2) by (simp add: registered_def)
      then have "polling_ok ?t" "registered ?t w" using io_update_ok [OF ok pa pe] by (simp_all add: registered_def tf)
      then show ?thesis using start ne len False by (simp add: tf Let_def)
    qed
  qed
qed

lemma io_unregister_ok:
  assumes "polling_ok s" "pevents x = 0" "fd x = fd (io s w)" "events x = 0" "w \<noteq> NULL" "0 \<le> fd x"
    "nat (fd x) < unat (nwatchers s)" "watchers s ! nat (fd x) = w"
  shows "polling_ok ((set_io w x (s\<lparr>watcher_queue := remove1 w (watcher_queue s)\<rparr>))
      \<lparr>watchers := (watchers s)[nat (fd x) := NULL], nfds := nfds s - 1\<rparr>)" (is "polling_ok ?s")
    and "nfds s > 0"
proof -
  let ?i = "nat (fd x)"
  have i: "io_ok s" "entries_ok s" "synced s" using assms(1) by (simp_all add: polling_ok_def)
  have dq: "distinct (watcher_queue s)" using i(1) by (simp add: io_ok_def)
  have f: "io ?s = (io s)(w := x)" "watchers ?s = (watchers s)[?i := NULL]" "nwatchers ?s = nwatchers s" "nfds ?s = nfds s - 1"
    "set (watcher_queue ?s) = set (watcher_queue s) - {w}" "distinct (watcher_queue ?s)"
    "interest ?s = interest s" "pending_run ?s = pending_run s" "pending_queue ?s = pending_queue s"
    "poll_fds ?s = poll_fds s" "poll_fds_used ?s = poll_fds_used s" "poll_fds_iterating ?s = poll_fds_iterating s"
    using dq by (simp_all add: interest_def)
  have len: "?i < length (watchers s)" "watchers s \<noteq> []"
    using i(1) assms(7) by (auto simp: io_ok_def shape_ok_def split: if_splits)
  have u: "used_slots ?s = used_slots s - {?i}" using len by (auto simp: used_slots_def f nth_list_update)
  have iu: "?i \<in> used_slots s" using assms(5,7,8) by (simp add: used_slots_def)
  have card: "card (used_slots s) = Suc (card (used_slots ?s))" unfolding u using iu by (intro card.remove) simp_all
  then show "nfds s > 0" using nfds_zero [OF i(1)] iu by (auto simp: word_gt_0)
  obtain n where n: "card (used_slots ?s) = n" by blast
  have "nfds s = of_nat (Suc n)" using i(1) card unfolding n by (simp add: io_ok_def)
  then have c: "nfds ?s = of_nat (card (used_slots ?s))" unfolding n f(4) by simp
  have sh: "shape_ok ?s" using i(1) len by (auto simp: io_ok_def shape_ok_def f)
  have reg: "registered ?s v" if "registered s v" "v \<noteq> w" for v
  proof -
    have "nat (fd (io s v)) \<noteq> ?i" using that assms(8) by (auto simp: registered_def)
    then show ?thesis using that by (auto simp: registered_def f)
  qed
  have slot: "fd (io ?s (watchers ?s ! j)) = int j \<and> pevents (io ?s (watchers ?s ! j)) \<noteq> 0" if "j \<in> used_slots ?s" for j
  proof -
    have j: "j \<in> used_slots s" "j \<noteq> ?i" "watchers ?s ! j = watchers s ! j" using that u by (simp_all add: f)
    then have "fd (io s (watchers s ! j)) = int j \<and> pevents (io s (watchers s ! j)) \<noteq> 0" using i(1) by (simp add: io_ok_def)
    moreover from this have "watchers s ! j \<noteq> w" using j(2) assms(3) by auto
    ultimately show ?thesis using j(3) by (simp add: f)
  qed
  have "io_ok ?s"
    using i(1) sh c slot reg assms(2,4) f(6) unfolding io_ok_def f(5) by (auto simp: f)
  moreover have "entries_ok ?s" by (rule entries_ok_cong [OF i(2)]) (simp_all add: f)
  moreover have "synced ?s" using i(3) assms(2) unfolding synced_def f by auto
  ultimately show "polling_ok ?s" by (simp add: polling_ok_def)
qed

lemma and_not_keeps: "w AND NOT e = 0 \<Longrightarrow> (w AND NOT ev) AND NOT e = 0" for w e ev :: u32
proof -
  assume "w AND NOT e = 0"
  moreover have "(w AND NOT ev) AND NOT e = (w AND NOT e) AND NOT ev" by (simp only: and.assoc and.commute and.left_commute)
  ultimately show ?thesis by simp
qed

lemma io_stop_ok:
  assumes "polling_ok s" "events_valid ev" "w \<noteq> NULL" "fd (io s w) \<ge> -1"
  shows "\<exists>s'. uv__io_stop w ev s = Some s' \<and> polling_ok s' \<and> erase_io s' = erase_io s \<and>
    (\<forall>v. v \<noteq> w \<longrightarrow> io s' v = io s v) \<and> fd (io s' w) = fd (io s w) \<and> io_cb (io s' w) = io_cb (io s w) \<and>
    pevents (io s' w) = pevents (io s w) AND NOT ev \<and> interest s' = interest s \<and>
    pending_run s' = pending_run s \<and> pending_queue s' = pending_queue s \<and> nwatchers s' = nwatchers s \<and>
    (pevents (io s' w) = 0 \<longrightarrow> (\<forall>v. pevents (io s' v) \<noteq> 0 \<longrightarrow> registered s v \<and> v \<noteq> w))"
proof -
  let ?f = "fd (io s w)" and ?p = "pevents (io s w) AND NOT ev"
  have i: "io_ok s" using assms(1) by (simp add: polling_ok_def)
  have reg: "registered s v" if "pevents (io s v) \<noteq> 0" for v using that i by (simp add: io_ok_def)
  consider "?f = -1 \<or> nat ?f \<ge> unat (nwatchers s)" "pevents (io s w) = 0"
    | "0 \<le> ?f" "nat ?f < unat (nwatchers s)" "?p = 0" "watchers s ! nat ?f = w"
    | "0 \<le> ?f" "nat ?f < unat (nwatchers s)" "pevents (io s w) = 0" "watchers s ! nat ?f \<noteq> w"
    | "0 \<le> ?f" "nat ?f < unat (nwatchers s)" "?p \<noteq> 0"
    using reg [of w] assms(4) by (fastforce simp: registered_def)
  then show ?thesis
  proof cases
    case 1
    then have "uv__io_stop w ev s = Some s" using assms(2,4) by (auto simp: uv__io_stop_def)
    then show ?thesis using assms(1) 1(2) reg by auto
  next
    case 2
    let ?x = "(io s w)\<lparr>pevents := 0, events := 0\<rparr>"
    let ?s = "(set_io w ?x (s\<lparr>watcher_queue := remove1 w (watcher_queue s)\<rparr>))
      \<lparr>watchers := (watchers s)[nat ?f := NULL], nfds := nfds s - 1\<rparr>"
    have ok: "polling_ok ?s" "nfds s > 0"
      using io_unregister_ok [OF assms(1), of ?x w] assms(3) 2 by simp_all
    have "uv__io_stop w ev s = Some ?s"
      using assms(2,4) 2 ok(2) by (simp add: uv__io_stop_def Let_def set_io_def)
    then show ?thesis using ok(1) 2(3) reg by (auto simp: interest_def)
  next
    case 3
    have e: "events (io s w) = 0" "w \<notin> set (watcher_queue s)" using i 3(3) unfolding io_ok_def by blast+
    have x: "(io s w)\<lparr>pevents := 0, events := 0\<rparr> = io s w" using e(1) 3(3) by (cases "io s w") simp
    have "uv__io_stop w ev s = Some (set_io w ((io s w)\<lparr>pevents := 0, events := 0\<rparr>) (s\<lparr>watcher_queue := remove1 w (watcher_queue s)\<rparr>))"
      using assms(2,4) 3 by (simp add: uv__io_stop_def Let_def set_io_def)
    then have "uv__io_stop w ev s = Some s" unfolding x by (simp add: set_io_def remove1_idem [OF e(2)])
    then show ?thesis using assms(1) 3(3) reg by auto
  next
    case 4
    let ?x = "(io s w)\<lparr>pevents := ?p\<rparr>"
    have p: "pevents (io s w) \<noteq> 0" using 4(3) by auto
    have "pevents (io s w) AND NOT all_events = 0" using i unfolding io_ok_def by blast
    then have "pevents ?x AND NOT all_events = 0" by (simp add: and_not_keeps)
    then have ok: "polling_ok (enqueue_watcher w (set_io w ?x s))"
      by (rule io_update_ok [OF assms(1)]) (use 4(3) reg [OF p] in simp_all)
    have "uv__io_stop w ev s = Some (enqueue_watcher w (set_io w ?x s))"
      using assms(2,4) 4 by (simp add: uv__io_stop_def Let_def enqueue_watcher_def)
    then show ?thesis using ok 4(3) by (simp add: interest_def enqueue_watcher_def)
  qed
qed

section \<open>The array of poll as a set of descriptors\<close>

lemma distinct_sub_mset:
  assumes "mset xs \<subseteq># mset ys" "distinct ys"
  shows "distinct xs"
  unfolding distinct_count_atmost_1
proof
  fix a
  have "count (mset xs) a \<le> count (mset ys) a" using assms(1) by (rule mset_subset_eq_count)
  also have "\<dots> \<le> 1" using assms(2) unfolding distinct_count_atmost_1 by (metis le_refl zero_le)
  finally have "count (mset xs) a \<le> 1" .
  moreover have "count (mset xs) a = 0 \<longleftrightarrow> a \<notin> set xs" by simp
  ultimately show "count (mset xs) a = (if a \<in> set xs then 1 else 0)" by (cases "count (mset xs) a") auto
qed

lemma entries_by_mset:
  assumes "entries_ok s" "mset (interest s') \<subseteq># mset (interest s)" "poll_fds_used s' \<le> length (poll_fds s')"
    "poll_fds_iterating s' = poll_fds_iterating s" "nwatchers s' = nwatchers s"
  shows "entries_ok s'"
proof -
  have sub: "set (interest s') \<subseteq> set (interest s)" using set_mset_mono [OF assms(2)] by simp
  let ?P = "\<lambda>f :: int. f \<noteq> -1"
  have "mset (filter ?P (map fst (interest s'))) \<subseteq># mset (filter ?P (map fst (interest s)))"
    using multiset_filter_mono [OF image_mset_subseteq_mono [OF assms(2)]] by simp
  moreover have "distinct (filter ?P (map fst (interest s)))" using assms(1) by (simp add: entries_ok_def)
  ultimately have "distinct (filter ?P (map fst (interest s')))"
    by (rule distinct_sub_mset)
  then show ?thesis using assms sub unfolding entries_ok_def by auto
qed

lemma mset_remove_swap:
  assumes "i < length xs"
  shows "mset (butlast (xs[i := last xs])) + {#xs ! i#} = mset xs"
proof -
  obtain ys z where xs: "xs = ys @ [z]" using assms by (cases xs rule: rev_cases) auto
  show ?thesis
  proof (cases "i < length ys")
    case True
    then have "mset (ys[i := z]) + {#ys ! i#} = mset ys + {#z#}"
      using nth_mem_mset [of i ys] by (simp add: mset_update)
    then show ?thesis using True by (simp add: xs list_update_append nth_append)
  next
    case False
    then have "i = length ys" using assms xs by simp
    then show ?thesis by (simp add: xs)
  qed
qed

definition remove_entry :: "nat \<Rightarrow> uv_loop \<Rightarrow> uv_loop" where
  "remove_entry i s =
     (let s = s\<lparr>poll_fds_used := poll_fds_used s - 1\<rparr>;
          s = uv__pollfds_swap i (poll_fds_used s) s
      in s\<lparr>poll_fds := (poll_fds s)[poll_fds_used s := empty_pollfd]\<rparr>)"

lemma remove_entry:
  assumes "i < poll_fds_used s" "poll_fds_used s \<le> length (poll_fds s)"
  shows "interest (remove_entry i s) = butlast ((interest s)[i := last (interest s)])"
    and "poll_fds_used (remove_entry i s) = poll_fds_used s - 1"
    and "length (poll_fds (remove_entry i s)) = length (poll_fds s)"
    and "\<And>j. j < i \<Longrightarrow> poll_fds (remove_entry i s) ! j = poll_fds s ! j"
    and "erase_io (remove_entry i s) = erase_io s" "io (remove_entry i s) = io s"
proof -
  let ?n = "poll_fds_used s - 1"
  have len: "length (interest s) = poll_fds_used s" using assms(2) by (simp add: interest_def)
  have r: "remove_entry i s = s\<lparr>poll_fds_used := ?n,
      poll_fds := (poll_fds s)[i := poll_fds s ! ?n, ?n := poll_fds s ! i, ?n := empty_pollfd]\<rparr>"
    by (simp add: remove_entry_def uv__pollfds_swap_def Let_def)
  show "poll_fds_used (remove_entry i s) = poll_fds_used s - 1"
    "length (poll_fds (remove_entry i s)) = length (poll_fds s)"
    "erase_io (remove_entry i s) = erase_io s" "io (remove_entry i s) = io s" by (simp_all add: r)
  show "\<And>j. j < i \<Longrightarrow> poll_fds (remove_entry i s) ! j = poll_fds s ! j" using assms by (simp add: r)
  show "interest (remove_entry i s) = butlast ((interest s)[i := last (interest s)])"
  proof (rule nth_equalityI)
    show "length (interest (remove_entry i s)) = length (butlast ((interest s)[i := last (interest s)]))"
      using assms by (simp add: r interest_def)
    fix j assume "j < length (interest (remove_entry i s))"
    then have j: "j < ?n" using assms by (simp add: r interest_def)
    have "last (interest s) = interest s ! ?n" using assms len by (subst last_conv_nth) auto
    then show "interest (remove_entry i s) ! j = butlast ((interest s)[i := last (interest s)]) ! j"
      using j assms by (simp add: r nth_butlast len) (auto simp: interest_def nth_list_update)
  qed
qed

lemma del_loop_step:
  "del_loop f i s =
     (if i < poll_fds_used s then
        if pfd (poll_fds s ! i) = f then if f \<noteq> -1 then remove_entry i s else del_loop f i (remove_entry i s)
        else del_loop f (i + 1) s
      else s)"
  by (subst del_loop.simps) (simp add: remove_entry_def Let_def)

lemma del_loop_frame:
  "poll_fds_used s \<le> length (poll_fds s) \<Longrightarrow>
   erase_io (del_loop f i s) = erase_io s \<and> io (del_loop f i s) = io s \<and> watchers (del_loop f i s) = watchers s \<and>
   nwatchers (del_loop f i s) = nwatchers s \<and> nfds (del_loop f i s) = nfds s \<and>
   watcher_queue (del_loop f i s) = watcher_queue s \<and> pending_queue (del_loop f i s) = pending_queue s \<and>
   pending_run (del_loop f i s) = pending_run s \<and>
   poll_fds_used (del_loop f i s) \<le> length (poll_fds (del_loop f i s)) \<and>
   mset (interest (del_loop f i s)) \<subseteq># mset (interest s) \<and>
   (\<forall>p \<in> set (interest s). fst p \<noteq> f \<longrightarrow> p \<in> set (interest (del_loop f i s)))"
proof (induction f i s rule: del_loop.induct)
  case (1 f i s)
  show ?case
  proof (cases "i < poll_fds_used s \<and> pfd (poll_fds s ! i) = f")
    case False
    then show ?thesis using 1 by (subst (1 2 3 4 5 6 7 8 9 10 11 12) del_loop_step) auto
  next
    case True
    let ?s = "remove_entry i s"
    note r = remove_entry [OF conjunct1 [OF True] "1.prems"]
    have len: "i < length (interest s)" using True "1.prems" by (simp add: interest_def)
    have f: "fst (interest s ! i) = f" using True "1.prems" by (simp add: interest_def)
    have m: "mset (interest ?s) + {#interest s ! i#} = mset (interest s)"
      unfolding r(1) by (rule mset_remove_swap [OF len])
    have sub: "mset (interest ?s) \<subseteq># mset (interest s)" using m by (metis mset_subset_eq_add_left)
    have keep: "p \<in> set (interest ?s)" if "p \<in> set (interest s)" "fst p \<noteq> f" for p
    proof -
      have "set (interest s) = insert (interest s ! i) (set (interest ?s))" using arg_cong [OF m, of set_mset] by simp
      then show ?thesis using that f by (metis insert_iff)
    qed
    have rest: "watchers ?s = watchers s" "nwatchers ?s = nwatchers s" "nfds ?s = nfds s" "watcher_queue ?s = watcher_queue s"
      "pending_queue ?s = pending_queue s" "pending_run ?s = pending_run s" "poll_fds_used ?s \<le> length (poll_fds ?s)"
      using r(2,3) "1.prems" by (simp_all add: remove_entry_def uv__pollfds_swap_def Let_def)
    show ?thesis
    proof (cases "f = -1")
      case False
      then have d: "del_loop f i s = ?s" using True by (subst del_loop_step) simp
      show ?thesis unfolding d using sub keep rest r(5,6) by blast
    next
      case m1: True
      then have d: "del_loop f i s = del_loop f i ?s" using True by (subst del_loop_step) simp
      have IH: "erase_io (del_loop f i ?s) = erase_io ?s \<and> io (del_loop f i ?s) = io ?s \<and> watchers (del_loop f i ?s) = watchers ?s \<and>
         nwatchers (del_loop f i ?s) = nwatchers ?s \<and> nfds (del_loop f i ?s) = nfds ?s \<and>
         watcher_queue (del_loop f i ?s) = watcher_queue ?s \<and> pending_queue (del_loop f i ?s) = pending_queue ?s \<and>
         pending_run (del_loop f i ?s) = pending_run ?s \<and>
         poll_fds_used (del_loop f i ?s) \<le> length (poll_fds (del_loop f i ?s)) \<and>
         mset (interest (del_loop f i ?s)) \<subseteq># mset (interest ?s) \<and>
         (\<forall>p \<in> set (interest ?s). fst p \<noteq> f \<longrightarrow> p \<in> set (interest (del_loop f i ?s)))"
        using "1.IH"(1) [OF _ _ refl refl refl] True m1 rest(7) by (simp add: remove_entry_def Let_def)
      have "mset (interest (del_loop f i ?s)) \<subseteq># mset (interest s)"
        using IH sub by (blast intro: subset_mset.order_trans)
      moreover have "\<forall>p \<in> set (interest s). fst p \<noteq> f \<longrightarrow> p \<in> set (interest (del_loop f i ?s))"
        using IH keep by blast
      ultimately show ?thesis unfolding d using IH rest(1-6) r(5,6) by simp
    qed
  qed
qed

text \<open>Which descriptors are left: all but the one deleted, and with -1 all but the invalid ones.\<close>

lemma del_loop_gone:
  "poll_fds_used s \<le> length (poll_fds s) \<Longrightarrow> (f = -1 \<or> distinct (filter (\<lambda>g. g \<noteq> -1) (map fst (interest s)))) \<Longrightarrow>
   (\<forall>j < i. pfd (poll_fds s ! j) \<noteq> f) \<Longrightarrow> f \<notin> fst ` set (interest (del_loop f i s))"
proof (induction f i s rule: del_loop.induct)
  case (1 f i s)
  show ?case
  proof (cases "i < poll_fds_used s")
    case False
    then have "del_loop f i s = s" by (subst del_loop_step) simp
    moreover have "\<forall>j < poll_fds_used s. pfd (poll_fds s ! j) \<noteq> f" using False "1.prems"(3) by auto
    then have "f \<notin> fst ` set (interest s)" using "1.prems"(1) by (clarsimp simp: interest_def in_set_conv_nth) blast
    ultimately show ?thesis by simp
  next
    case True
    note r = remove_entry [OF True "1.prems"(1)]
    show ?thesis
    proof (cases "pfd (poll_fds s ! i) = f")
      case False
      then have d: "del_loop f i s = del_loop f (i + 1) s" using True by (subst del_loop_step) simp
      have "\<forall>j < i + 1. pfd (poll_fds s ! j) \<noteq> f" using False "1.prems"(3) less_Suc_eq by auto
      then show ?thesis unfolding d using "1.IH"(2) [OF True False "1.prems"(1,2)] by simp
    next
      case pf: True
      show ?thesis
      proof (cases "f = -1")
        case m1: True
        then have d: "del_loop f i s = del_loop f i (remove_entry i s)" using True pf by (subst del_loop_step) simp
        have "\<forall>j < i. pfd (poll_fds (remove_entry i s) ! j) \<noteq> f" using r(4) "1.prems"(3) by simp
        moreover have "poll_fds_used (remove_entry i s) \<le> length (poll_fds (remove_entry i s))"
          using r(2,3) "1.prems"(1) by simp
        ultimately show ?thesis unfolding d
          using "1.IH"(1) [OF True pf refl refl refl] m1 by (simp add: remove_entry_def Let_def)
      next
        case ne: False
        then have d: "del_loop f i s = remove_entry i s" using True pf by (subst del_loop_step) simp
        have len: "i < length (interest s)" using True "1.prems"(1) by (simp add: interest_def)
        have m: "mset (interest (remove_entry i s)) + {#interest s ! i#} = mset (interest s)"
          unfolding r(1) by (rule mset_remove_swap [OF len])
        let ?fs = "\<lambda>s. filter (\<lambda>g. g \<noteq> -1) (map fst (interest s))"
        have "mset (?fs s) = filter_mset (\<lambda>g. g \<noteq> -1) (image_mset fst (mset (interest (remove_entry i s)) + {#interest s ! i#}))"
          unfolding m by simp
        moreover have "fst (interest s ! i) = f" using pf True "1.prems"(1) by (simp add: interest_def)
        ultimately have "mset (?fs s) = mset (f # ?fs (remove_entry i s))" using ne by simp
        then have "distinct (f # ?fs (remove_entry i s))" using "1.prems"(2) ne by (metis mset_eq_imp_distinct_iff)
        then show ?thesis unfolding d using ne by auto
      qed
    qed
  qed
qed

text \<open>Deleting and invalidating entries that no watcher wants keeps the invariant.\<close>

lemma polling_ok_entries:
  assumes "polling_ok s" "io s' = io s" "watchers s' = watchers s" "nwatchers s' = nwatchers s" "nfds s' = nfds s"
    "watcher_queue s' = watcher_queue s" "pending_queue s' = pending_queue s" "pending_run s' = pending_run s"
    and "entries_ok s'"
    and "\<And>v. pevents (io s v) \<noteq> 0 \<Longrightarrow> (fd (io s v), pevents (io s v)) \<in> set (interest s) \<Longrightarrow>
      (fd (io s v), pevents (io s v)) \<in> set (interest s')"
  shows "polling_ok s'"
proof -
  have "used_slots s' = used_slots s" "shape_ok s' = shape_ok s" "registered s' = registered s"
    using assms(2-4) by (simp_all add: used_slots_def shape_ok_def registered_def fun_eq_iff)
  then have "io_ok s'" using assms(1-8) by (simp add: polling_ok_def io_ok_def)
  moreover have "synced s'" using assms(1,2,6,10) by (auto simp: polling_ok_def synced_def)
  ultimately show ?thesis using assms(9) by (simp add: polling_ok_def)
qed

lemma del_ok:
  assumes "polling_ok s" "\<And>v. pevents (io s v) \<noteq> 0 \<Longrightarrow> fd (io s v) \<noteq> f"
  shows "polling_ok (del_loop f 0 s)" and "f \<notin> fst ` set (interest (del_loop f 0 s))"
proof -
  have e: "entries_ok s" using assms(1) by (simp add: polling_ok_def)
  then have u: "poll_fds_used s \<le> length (poll_fds s)" by (simp add: entries_ok_def)
  note d = del_loop_frame [OF u, of f 0]
  have it: "poll_fds_iterating (del_loop f 0 s) = poll_fds_iterating s"
    using d erase_ioD [of "del_loop f 0 s" s] by simp
  have e': "entries_ok (del_loop f 0 s)"
    by (rule entries_by_mset [OF e]) (use d it in simp_all)
  show "polling_ok (del_loop f 0 s)"
    by (rule polling_ok_entries [OF assms(1)]) (use d e' assms(2) in auto)
  show "f \<notin> fst ` set (interest (del_loop f 0 s))"
    by (rule del_loop_gone [OF u]) (use e in \<open>simp_all add: entries_ok_def\<close>)
qed

lemma interest_mark:
  assumes "poll_fds_used s \<le> length (poll_fds s)"
  shows "interest (s\<lparr>poll_fds := map g (take (poll_fds_used s) (poll_fds s)) @ drop (poll_fds_used s) (poll_fds s)\<rparr>) =
    map (\<lambda>p. (pfd p, pevents_in p)) (map g (take (poll_fds_used s) (poll_fds s)))"
  using assms by (simp add: interest_def)

lemma subseq_filter_mark:
  "(\<And>x. x \<in> set xs \<Longrightarrow> h' x = h x \<or> \<not> P (h' x)) \<Longrightarrow>
   subseq (filter P (map h' xs)) (filter P (map h xs))"
proof (induction xs)
  case (Cons x xs)
  then have "subseq (filter P (map h' xs)) (filter P (map h xs))" by simp
  then show ?case using Cons.prems [of x] by (auto simp: list_emb_Cons)
qed simp

lemma distinct_subseq: "subseq xs ys \<Longrightarrow> distinct ys \<Longrightarrow> distinct xs"
  by (induction rule: list_emb.induct) (auto dest: list_emb_set)

lemma distinct_filter_mark:
  "distinct (filter P (map h xs)) \<Longrightarrow> (\<And>x. x \<in> set xs \<Longrightarrow> h' x = h x \<or> \<not> P (h' x)) \<Longrightarrow>
   distinct (filter P (map h' xs))"
  using subseq_filter_mark [of xs h' h P] distinct_subseq by blast

lemma invalidate_ok:
  assumes "polling_ok s" "0 \<le> f" "\<And>v. pevents (io s v) \<noteq> 0 \<Longrightarrow> fd (io s v) \<noteq> f"
  shows "\<exists>s'. uv__platform_invalidate_fd f s = Some s' \<and> polling_ok s' \<and> erase_io s' = erase_io s \<and> io s' = io s \<and>
    watchers s' = watchers s \<and> nwatchers s' = nwatchers s \<and> pending_queue s' = pending_queue s \<and>
    pending_run s' = pending_run s \<and> f \<notin> fst ` set (interest s') \<and>
    (poll_fds_iterating s \<longrightarrow> poll_fds_used s' = poll_fds_used s)"
proof (cases "poll_fds_iterating s")
  case False
  have u: "poll_fds_used s \<le> length (poll_fds s)" using assms(1) by (simp add: polling_ok_def entries_ok_def)
  show ?thesis
    using False assms(2) del_ok [OF assms(1,3)] del_loop_frame [OF u, of f 0]
    by (simp add: uv__platform_invalidate_fd_def uv__pollfds_del_def)
next
  case True
  let ?g = "\<lambda>p. if pfd p = f then empty_pollfd else p"
  let ?es = "take (poll_fds_used s) (poll_fds s)"
  let ?s = "s\<lparr>poll_fds := map ?g ?es @ drop (poll_fds_used s) (poll_fds s)\<rparr>"
  have e: "entries_ok s" using assms(1) by (simp add: polling_ok_def)
  then have u: "poll_fds_used s \<le> length (poll_fds s)" by (simp add: entries_ok_def)
  have i: "interest s = map (\<lambda>p. (pfd p, pevents_in p)) ?es" by (simp add: interest_def)
  have i': "interest ?s = map (\<lambda>p. (pfd (?g p), pevents_in (?g p))) ?es"
    using interest_mark [OF u, of ?g] by simp
  have set': "set (interest ?s) \<subseteq> insert (-1, 0) (set (interest s))"
    unfolding i i' by (auto simp: empty_pollfd_def)
  have "distinct (filter (\<lambda>f. f \<noteq> -1) (map (\<lambda>p. pfd p) ?es))" using e by (simp add: entries_ok_def i o_def)
  then have "distinct (filter (\<lambda>f. f \<noteq> -1) (map (\<lambda>p. pfd (?g p)) ?es))"
    by (rule distinct_filter_mark) (auto simp: empty_pollfd_def)
  then have "distinct (filter (\<lambda>f. f \<noteq> -1) (map fst (interest ?s)))" unfolding i' by (simp add: o_def)
  then have e': "entries_ok ?s" using e u set' True unfolding entries_ok_def by auto
  have "f \<notin> fst ` set (interest ?s)" unfolding i' using assms(2) by (auto simp: empty_pollfd_def split: if_splits)
  moreover have "polling_ok ?s"
  proof (rule polling_ok_entries [OF assms(1) _ _ _ _ _ _ _ e'])
    fix v assume "pevents (io s v) \<noteq> 0" "(fd (io s v), pevents (io s v)) \<in> set (interest s)"
    then show "(fd (io s v), pevents (io s v)) \<in> set (interest ?s)"
      using assms(3) [of v] unfolding i i' by force
  qed simp_all
  ultimately show ?thesis using True assms(2) by (simp add: uv__platform_invalidate_fd_def)
qed

lemma all_events_valid: "events_valid all_events"
  by (simp add: events_valid_def all_events_def POLLIN_def POLLOUT_def UV__POLLRDHUP_def UV__POLLPRI_def)

lemma polling_ok_pending:
  assumes "polling_ok s" "distinct (p @ q)"
  shows "polling_ok (s\<lparr>pending_queue := q, pending_run := p\<rparr>)"
proof -
  let ?s = "s\<lparr>pending_queue := q, pending_run := p\<rparr>"
  have "used_slots ?s = used_slots s" "shape_ok ?s = shape_ok s" "registered ?s = registered s" "interest ?s = interest s"
    by (simp_all add: used_slots_def shape_ok_def registered_def fun_eq_iff interest_def)
  then show ?thesis using assms by (auto simp: polling_ok_def io_ok_def entries_ok_def synced_def)
qed

lemma io_close_ok:
  assumes "polling_ok s" "w \<noteq> NULL" "-1 \<le> fd (io s w)"
    and "0 \<le> fd (io s w) \<longrightarrow> nat (fd (io s w)) < unat (nwatchers s) \<longrightarrow> watchers s ! nat (fd (io s w)) \<in> {NULL, w}"
  shows "\<exists>s'. uv__io_close w s = Some s' \<and> polling_ok s' \<and> erase_io s' = erase_io s \<and>
    (\<forall>v. v \<noteq> w \<longrightarrow> io s' v = io s v) \<and> fd (io s' w) = fd (io s w) \<and> pevents (io s' w) = 0 \<and>
    w \<notin> set (pending_run s' @ pending_queue s') \<and> subseq (pending_run s') (pending_run s) \<and>
    (0 \<le> fd (io s w) \<longrightarrow> fd (io s w) \<notin> fst ` set (interest s'))"
proof -
  have io: "io_ok s" using assms(1) by (simp add: polling_ok_def)
  have pe: "pevents (io s w) AND NOT all_events = 0" using io unfolding io_ok_def by blast
  from io_stop_ok [OF assms(1) all_events_valid assms(2,3)] obtain s1 where
    s1: "uv__io_stop w all_events s = Some s1" "polling_ok s1" "erase_io s1 = erase_io s"
      "\<forall>v. v \<noteq> w \<longrightarrow> io s1 v = io s v" "fd (io s1 w) = fd (io s w)" "pevents (io s1 w) = 0"
      "pending_run s1 = pending_run s" "pending_queue s1 = pending_queue s" "nwatchers s1 = nwatchers s"
      "\<forall>v. pevents (io s1 v) \<noteq> 0 \<longrightarrow> registered s v \<and> v \<noteq> w" using pe by auto
  let ?s = "s1\<lparr>pending_queue := remove1 w (pending_queue s1), pending_run := remove1 w (pending_run s1)\<rparr>"
  have dp: "distinct (pending_run s @ pending_queue s)" using io by (simp add: io_ok_def)
  then have dp': "distinct (remove1 w (pending_run s1) @ remove1 w (pending_queue s1))"
    unfolding s1(7,8) by (auto dest: set_remove1_subset [THEN subsetD])
  have ok: "polling_ok ?s" using polling_ok_pending [OF s1(2) dp'] by simp
  have gone: "fd (io ?s v) \<noteq> fd (io s w)" if "pevents (io ?s v) \<noteq> 0" "0 \<le> fd (io s w)" for v
  proof
    assume a: "fd (io ?s v) = fd (io s w)"
    have v: "registered s v" "v \<noteq> w" using that s1(10) by auto
    then have "fd (io s v) = fd (io s w)" using a s1(4) by auto
    then show False using v assms(2,4) that(2) by (auto simp: registered_def)
  qed
  have w: "w \<notin> set (pending_run ?s @ pending_queue ?s)" using dp unfolding s1(7,8) by auto
  show ?thesis
  proof (cases "fd (io s w) = -1")
    case True
    then have "uv__io_close w s = Some ?s" using s1(1,5) by (simp add: uv__io_close_def Let_def)
    then show ?thesis using ok s1 w True by (auto simp: subseq_remove1)
  next
    case False
    then have f: "0 \<le> fd (io s w)" using assms(3) by simp
    from invalidate_ok [OF ok f] gone [OF _ f] obtain s2 where
      "uv__platform_invalidate_fd (fd (io s w)) ?s = Some s2" "polling_ok s2" "erase_io s2 = erase_io ?s" "io s2 = io ?s"
      "pending_queue s2 = pending_queue ?s" "pending_run s2 = pending_run ?s" "fd (io s w) \<notin> fst ` set (interest s2)" by blast
    then show ?thesis using s1 w False by (auto simp: uv__io_close_def Let_def subseq_remove1)
  qed
qed

lemma io_init_ok:
  assumes "polling_ok s" "pevents (io s w) = 0" "cb \<noteq> No_io_cb" "-1 \<le> f"
  shows "\<exists>s'. uv__io_init w cb f s = Some s' \<and> polling_ok s' \<and>
    s' = s\<lparr>io := (io s)(w := \<lparr>io_cb = cb, pevents = 0, events = 0, fd = f\<rparr>)\<rparr>"
proof -
  let ?x = "\<lparr>io_cb = cb, pevents = 0, events = 0, fd = f\<rparr>"
  let ?s = "set_io w ?x s"
  have i: "io_ok s" "entries_ok s" "synced s" using assms(1) by (simp_all add: polling_ok_def)
  have u: "used_slots ?s = used_slots s" "shape_ok ?s = shape_ok s" by (simp_all add: used_slots_def shape_ok_def)
  have reg: "registered ?s v" if "registered s v" "v \<noteq> w" for v using that by (simp add: registered_def)
  have slot: "watchers s ! j \<noteq> w" if "j \<in> used_slots s" for j using that i(1) assms(2) by (auto simp: io_ok_def)
  have "io_ok ?s" using i(1) reg slot assms(2) unfolding io_ok_def u by auto
  moreover have "entries_ok ?s" by (rule entries_ok_cong [OF i(2)]) simp_all
  moreover have "synced ?s" using i(3) by (auto simp: synced_def interest_def)
  ultimately have "polling_ok ?s" by (simp add: polling_ok_def)
  then show ?thesis using assms(3,4) by (simp add: uv__io_init_def set_io_def)
qed

lemma io_feed_ok: "polling_ok s \<Longrightarrow> polling_ok (uv__io_feed w s)"
  using polling_ok_pending [of s "pending_run s" "pending_queue s @ [w]"]
  by (auto simp: uv__io_feed_def polling_ok_def io_ok_def)

section \<open>Registering interest\<close>

lemma find_pollfd_Some:
  "find_pollfd f s = Some i \<Longrightarrow> i < poll_fds_used s \<and> pfd (poll_fds s ! i) = f"
  by (auto simp: find_pollfd_def find_Some_iff)

lemma find_pollfd_None:
  "find_pollfd f s = None \<Longrightarrow> i < poll_fds_used s \<Longrightarrow> pfd (poll_fds s ! i) \<noteq> f"
  by (auto simp: find_pollfd_def find_None_iff)

lemma pollfds_add:
  assumes "\<not> poll_fds_iterating s" "poll_fds_used s \<le> length (poll_fds s)"
  shows "\<exists>s'. uv__pollfds_add w s = Some s' \<and> erase_io s' = erase_io s \<and> io s' = io s \<and> watchers s' = watchers s \<and>
    nwatchers s' = nwatchers s \<and> nfds s' = nfds s \<and> watcher_queue s' = watcher_queue s \<and>
    pending_queue s' = pending_queue s \<and> pending_run s' = pending_run s \<and>
    poll_fds_used s' \<le> length (poll_fds s') \<and>
    ((\<exists>i < length (interest s). fst (interest s ! i) = fd (io s w) \<and>
        interest s' = (interest s)[i := (fd (io s w), pevents (io s w))]) \<or>
     fd (io s w) \<notin> fst ` set (interest s) \<and> interest s' = interest s @ [(fd (io s w), pevents (io s w))])"
proof (cases "find_pollfd (fd (io s w)) s")
  case (Some i)
  note i = find_pollfd_Some [OF Some]
  let ?s = "s\<lparr>poll_fds := (poll_fds s)[i := (poll_fds s ! i)\<lparr>pevents_in := pevents (io s w)\<rparr>]\<rparr>"
  have "interest ?s = (interest s)[i := (fd (io s w), pevents (io s w))]"
    using i assms(2) by (simp add: interest_def take_update_swap map_update)
  then show ?thesis using Some i assms by (auto simp: uv__pollfds_add_def interest_def intro!: exI [of _ i])
next
  case None
  let ?r = "uv__pollfds_maybe_resize s"
  have r: "poll_fds_used ?r = poll_fds_used s" "poll_fds_used s < length (poll_fds ?r)"
    "take (poll_fds_used s) (poll_fds ?r) = take (poll_fds_used s) (poll_fds s)" "erase_io ?r = erase_io s" "io ?r = io s"
    "watchers ?r = watchers s" "nwatchers ?r = nwatchers s" "nfds ?r = nfds s" "watcher_queue ?r = watcher_queue s"
    "pending_queue ?r = pending_queue s" "pending_run ?r = pending_run s"
    using assms(2) by (auto simp: uv__pollfds_maybe_resize_def Let_def)
  let ?n = "poll_fds_used s"
  let ?s = "?r\<lparr>poll_fds_used := ?n + 1,
     poll_fds := (poll_fds ?r)[?n := (poll_fds ?r ! ?n)\<lparr>pfd := fd (io s w), pevents_in := pevents (io s w)\<rparr>]\<rparr>"
  have "uv__pollfds_add w s = Some ?s" using None assms(1) by (simp add: uv__pollfds_add_def Let_def r)
  moreover have "interest ?s = interest s @ [(fd (io s w), pevents (io s w))]"
    using r(2,3) by (simp add: interest_def take_Suc_conv_app_nth)
  moreover have "fd (io s w) \<notin> fst ` set (interest s)"
    using find_pollfd_None [OF None] assms(2) by (fastforce simp: interest_def in_set_conv_nth)
  ultimately show ?thesis using r by auto
qed

lemma interest_set_io [simp]: "interest (set_io w x s) = interest s"
  by (simp add: interest_def)

lemma map_fst_update: "i < length xs \<Longrightarrow> fst (xs ! i) = y \<Longrightarrow> (map fst xs)[i := y] = map fst xs"
  by (simp add: list_update_same_conv)

lemma add_watcher_ok:
  assumes "polling_ok s" "watcher_queue s = w # q" "\<not> poll_fds_iterating s"
  shows "\<exists>s1. uv__pollfds_add w (s\<lparr>watcher_queue := q\<rparr>) = Some s1 \<and>
    polling_ok (set_io w ((io s1 w)\<lparr>events := pevents (io s1 w)\<rparr>) s1) \<and> watcher_queue s1 = q \<and> io s1 = io s \<and>
    erase_io s1 = erase_io s \<and> watchers s1 = watchers s \<and> nwatchers s1 = nwatchers s \<and> nfds s1 = nfds s \<and>
    pending_queue s1 = pending_queue s \<and> pending_run s1 = pending_run s"
proof -
  let ?q = "s\<lparr>watcher_queue := q\<rparr>"
  have i: "io_ok s" "entries_ok s" "synced s" using assms(1) by (simp_all add: polling_ok_def)
  have u: "poll_fds_used ?q \<le> length (poll_fds ?q)" using i(2) by (simp add: entries_ok_def)
  have iq: "interest ?q = interest s" by (simp add: interest_def)
  from pollfds_add [of ?q w] assms(3) u obtain s1 where s1: "uv__pollfds_add w ?q = Some s1" "erase_io s1 = erase_io s"
    "io s1 = io s" "watchers s1 = watchers s" "nwatchers s1 = nwatchers s" "nfds s1 = nfds s" "watcher_queue s1 = q"
    "pending_queue s1 = pending_queue s" "pending_run s1 = pending_run s" "poll_fds_used s1 \<le> length (poll_fds s1)"
    "(\<exists>i < length (interest s). fst (interest s ! i) = fd (io s w) \<and>
        interest s1 = (interest s)[i := (fd (io s w), pevents (io s w))]) \<or>
     fd (io s w) \<notin> fst ` set (interest s) \<and> interest s1 = interest s @ [(fd (io s w), pevents (io s w))]"
    unfolding iq by auto
  have it: "poll_fds_iterating s1 = poll_fds_iterating s" using erase_ioD [OF s1(2)] by simp
  let ?s = "set_io w ((io s1 w)\<lparr>events := pevents (io s1 w)\<rparr>) s1"
  have reg: "registered s v" if "pevents (io s v) \<noteq> 0" for v using that i(1) by (simp add: io_ok_def)
  have w: "pevents (io s w) \<noteq> 0" "registered s w" using i(1) assms(2) reg by (simp_all add: io_ok_def)
  have int_eq: "interest ?s = interest s1" by (simp add: interest_def)
  have us: "used_slots ?s = used_slots s" "shape_ok ?s = shape_ok s" "\<And>v. registered ?s v = registered s v"
    using s1 by (auto simp: used_slots_def shape_ok_def registered_def)
  have pe: "pevents (io ?s v) = pevents (io s v)" "fd (io ?s v) = fd (io s v)" for v using s1(3) by simp_all
  have dq: "distinct (watcher_queue ?s)" "set (watcher_queue ?s) \<subseteq> set (watcher_queue s)"
    using i(1) assms(2) s1(7) by (auto simp: io_ok_def)
  have ev: "events (io ?s v) \<noteq> 0 \<longrightarrow> pevents (io s v) \<noteq> 0" for v
    using i(1) s1(3) by (auto simp: io_ok_def)
  have io': "io_ok ?s"
    using i(1) s1(4,6,8,9) dq ev unfolding io_ok_def us pe by auto
  have new: "(fd (io s w), pevents (io s w)) \<in> set (interest s1)"
    using s1(11) by (auto intro: set_update_memI)
  have old: "p \<in> set (interest s1)" if p: "p \<in> set (interest s)" "fst p \<noteq> fd (io s w)" for p
    using s1(11)
  proof (elim disjE exE conjE)
    fix k assume k: "k < length (interest s)" "fst (interest s ! k) = fd (io s w)"
      "interest s1 = (interest s)[k := (fd (io s w), pevents (io s w))]"
    obtain j where j: "j < length (interest s)" "interest s ! j = p" using p(1) by (auto simp: in_set_conv_nth)
    then have "j \<noteq> k" using k(2) p(2) by auto
    then have "interest s1 ! j = p" "j < length (interest s1)" using j k by simp_all
    then show ?thesis by (auto simp: in_set_conv_nth)
  qed (use p in simp)
  have "entries_ok ?s"
  proof -
    have "map fst (interest s1) = map fst (interest s) \<or>
      map fst (interest s1) = map fst (interest s) @ [fd (io s w)] \<and> fd (io s w) \<notin> fst ` set (interest s)"
      using s1(11) by (auto simp: map_update map_fst_update)
    moreover have "distinct (filter (\<lambda>f. f \<noteq> -1) (map fst (interest s)))" using i(2) by (simp add: entries_ok_def)
    ultimately have d: "distinct (filter (\<lambda>f. f \<noteq> -1) (map fst (interest s1)))" by auto
    have "set (interest s1) \<subseteq> insert (fd (io s w), pevents (io s w)) (set (interest s))"
      using s1(11) set_update_subset_insert by fastforce
    then show ?thesis using d s1(5,10) it i(2) w(2) unfolding entries_ok_def int_eq by (auto simp: registered_def)
  qed
  moreover have "synced ?s"
    unfolding synced_def
  proof (intro allI impI)
    fix v assume v: "pevents (io ?s v) \<noteq> 0 \<and> v \<notin> set (watcher_queue ?s)"
    show "events (io ?s v) = pevents (io ?s v) \<and> (fd (io ?s v), pevents (io ?s v)) \<in> set (interest ?s)"
    proof (cases "v = w")
      case True
      then show ?thesis using new s1(3) by (simp add: int_eq)
    next
      case False
      then have "pevents (io s v) \<noteq> 0" "v \<notin> set (watcher_queue s)" using v s1(3,7) assms(2) by simp_all
      then have e: "events (io s v) = pevents (io s v)" "(fd (io s v), pevents (io s v)) \<in> set (interest s)" "registered s v"
        using i(3) reg by (simp_all add: synced_def)
      then have "fd (io s v) \<noteq> fd (io s w)" using registered_fd w(2) False by blast
      then show ?thesis using old [OF e(2)] e(1) False s1(3) by (simp add: int_eq)
    qed
  qed
  ultimately show ?thesis using s1 io' by (auto simp: polling_ok_def)
qed

lemma sint_unat_small: "unat (w :: u32) < 2 ^ 31 \<Longrightarrow> sint w = int (unat w)"
proof -
  assume a: "unat w < 2 ^ 31"
  have "signed_take_bit 31 (int (unat w)) = int (unat w)"
  proof (rule signed_take_bit_int_eq_self)
    show "- (2 ^ 31) \<le> int (unat w)" by (rule order_trans [of _ 0]) simp_all
    have "unat w < 2147483648" using a by simp
    then have "int (unat w) < 2147483648" by linarith
    moreover have "(2::int) ^ 31 = 2147483648" by simp
    ultimately show "int (unat w) < 2 ^ 31" by linarith
  qed
  then show ?thesis unfolding sint_uint by simp
qed

lemma add_watchers_ok:
  "polling_ok s \<Longrightarrow> watcher_queue s = q \<Longrightarrow> \<not> poll_fds_iterating s \<Longrightarrow>
   \<exists>s'. add_watchers q s = Some s' \<and> polling_ok s' \<and> watcher_queue s' = [] \<and> erase_io s' = erase_io s \<and>
     (\<forall>v. pevents (io s' v) = pevents (io s v) \<and> fd (io s' v) = fd (io s v) \<and> io_cb (io s' v) = io_cb (io s v)) \<and>
     watchers s' = watchers s \<and> nwatchers s' = nwatchers s \<and> nfds s' = nfds s \<and>
     pending_queue s' = pending_queue s \<and> pending_run s' = pending_run s"
proof (induction q arbitrary: s)
  case (Cons w q)
  have io: "io_ok s" using Cons.prems(1) by (simp add: polling_ok_def)
  have w: "pevents (io s w) \<noteq> 0" "registered s w" "unat (nwatchers s) < 2 ^ 31"
    using io Cons.prems(2) by (auto simp: io_ok_def shape_ok_def)
  have "sint (nwatchers s) = int (unat (nwatchers s))" using w(3) by (rule sint_unat_small)
  then have a: "fd (io s w) \<ge> 0" "fd (io s w) < sint (nwatchers s)" using w(2) by (simp_all only: registered_def) linarith+
  from add_watcher_ok [OF Cons.prems] obtain s1 where s1: "uv__pollfds_add w (s\<lparr>watcher_queue := q\<rparr>) = Some s1"
    "polling_ok (set_io w ((io s1 w)\<lparr>events := pevents (io s1 w)\<rparr>) s1)" "watcher_queue s1 = q" "io s1 = io s"
    "erase_io s1 = erase_io s" "watchers s1 = watchers s" "nwatchers s1 = nwatchers s"
    "nfds s1 = nfds s" "pending_queue s1 = pending_queue s" "pending_run s1 = pending_run s" by blast
  let ?s = "set_io w ((io s1 w)\<lparr>events := pevents (io s1 w)\<rparr>) s1"
  have it: "\<not> poll_fds_iterating ?s" using erase_ioD [OF s1(5)] Cons.prems(3) by simp
  from Cons.IH [OF s1(2) _ it] s1(3) obtain s' where s': "add_watchers q ?s = Some s'" "polling_ok s'" "watcher_queue s' = []"
    "erase_io s' = erase_io ?s"
    "\<forall>v. pevents (io s' v) = pevents (io ?s v) \<and> fd (io s' v) = fd (io ?s v) \<and> io_cb (io s' v) = io_cb (io ?s v)"
    "watchers s' = watchers s1" "nwatchers s' = nwatchers s1" "nfds s' = nfds s1"
    "pending_queue s' = pending_queue s1" "pending_run s' = pending_run s1" by auto
  have "add_watchers (w # q) s = Some s'" using w(1) a s1(1) s'(1) by simp
  then show ?case using s' s1(4-10) by auto
qed simp

text \<open>What polling leaves alone, callbacks aside.\<close>

definition erase_poll :: "uv_loop \<Rightarrow> uv_loop" where
  "erase_poll s = (let z = new_loop (\<lambda>_. 0) in s\<lparr>watchers := watchers z, nwatchers := nwatchers z, nfds := nfds z, watcher_queue := watcher_queue z, pending_queue := pending_queue z, pending_run := pending_run z, io := io z, poll_fds := poll_fds z, poll_fds_used := poll_fds_used z, poll_fds_iterating := poll_fds_iterating z, readings := readings z, time := time z, polls := polls z, current_timeout := current_timeout z, events_count := events_count z, events_waiting := events_waiting z, provider_entry_time := provider_entry_time z, provider_idle_time := provider_idle_time z\<rparr>)"

lemma erase_pollD:
  assumes "erase_poll s' = erase_poll s"
  shows "handle s' = handle s" "active_handles s' = active_handles s" "handle_queue s' = handle_queue s" "active_reqs s' = active_reqs s" 
    "stop_flag s' = stop_flag s" "loop_flags s' = loop_flags s" 
    "closing_handles s' = closing_handles s" "watcher_handles s' = watcher_handles s" 
    "async_handles s' = async_handles s" "async_io_watcher s' = async_io_watcher s" 
    "timer_heap s' = timer_heap s" "timer_counter s' = timer_counter s" 
    "signal_io_watcher s' = signal_io_watcher s" "signal_tree s' = signal_tree s" 
    "signal_pipe s' = signal_pipe s" "ready_queue s' = ready_queue s" "run_queue s' = run_queue s" 
    "async_run s' = async_run s" "walk_queue s' = walk_queue s" "timer s' = timer s" 
    "watcher_cb s' = watcher_cb s" "poll_cb s' = poll_cb s" "async s' = async s" 
    "signal s' = signal s" "lfields_flags s' = lfields_flags s" "loop_count s' = loop_count s" 
    "hrtime s' = hrtime s" "called s' = called s" "all_handles s' = all_handles s"
  using assms by (cases s; cases s'; simp add: erase_poll_def all_handles_def Let_def)+

lemma erase_poll_update [simp]:
  "erase_poll (watchers_update g3 s) = erase_poll s"
  "erase_poll (nwatchers_update g4 s) = erase_poll s"
  "erase_poll (nfds_update g5 s) = erase_poll s"
  "erase_poll (watcher_queue_update g6 s) = erase_poll s"
  "erase_poll (pending_queue_update g7 s) = erase_poll s"
  "erase_poll (pending_run_update g8 s) = erase_poll s"
  "erase_poll (io_update g9 s) = erase_poll s"
  "erase_poll (poll_fds_update g10 s) = erase_poll s"
  "erase_poll (poll_fds_used_update g11 s) = erase_poll s"
  "erase_poll (poll_fds_iterating_update g12 s) = erase_poll s"
  "erase_poll (readings_update g13 s) = erase_poll s"
  "erase_poll (time_update g14 s) = erase_poll s"
  "erase_poll (polls_update g15 s) = erase_poll s"
  "erase_poll (current_timeout_update g16 s) = erase_poll s"
  "erase_poll (events_count_update g17 s) = erase_poll s"
  "erase_poll (events_waiting_update g18 s) = erase_poll s"
  "erase_poll (provider_entry_time_update g19 s) = erase_poll s"
  "erase_poll (provider_idle_time_update g20 s) = erase_poll s"
  by (cases s; simp add: erase_poll_def Let_def)+

end
