(* ===== verification/Polling.thy ===== *)
theory Polling
  imports Iowatch
begin

unbundle bit_operations_syntax

text \<open>
  \<open>uv__io_poll\<close> under the invariant of the watchers: it returns whenever the kernel answers
  as documented and does not interrupt it for ever, and it keeps what the callbacks keep.
\<close>

section \<open>The kernel\<close>

text \<open>
  What POSIX says of \<open>poll\<close>: one answer for each entry, nothing for entries with the
  descriptor -1, only events asked for, \<open>POLLERR\<close> or \<open>POLLHUP\<close> (\<open>POLLNVAL\<close> is for descriptors
  that are not open), and with the timeout -1 it does not return without an event. The last
  conjunct says that it is not interrupted by signals for ever.
\<close>

definition answer_ok :: "(int \<times> u32) list \<Rightarrow> int \<Rightarrow> u32 list \<Rightarrow> bool" where
  "answer_ok fds tmo rs \<longleftrightarrow> length rs = length fds \<and>
     (\<forall>i < length fds. (fst (fds ! i) = -1 \<longrightarrow> rs ! i = 0) \<and>
        rs ! i AND NOT (snd (fds ! i) OR POLLERR OR POLLHUP) = 0) \<and>
     (tmo = -1 \<and> (\<exists>p \<in> set fds. fst p \<noteq> -1) \<longrightarrow> (\<exists>r \<in> set rs. r \<noteq> 0))"

definition kernel_ok :: "kernel \<Rightarrow> bool" where
  "kernel_ok kern \<longleftrightarrow>
     (\<forall>n fds tmo. case kern n fds tmo of
        Poll_failed \<Rightarrow> False | Interrupted \<Rightarrow> True | Revents rs \<Rightarrow> answer_ok fds tmo rs) \<and>
     (\<forall>n. \<exists>m \<ge> n. \<forall>fds tmo. kern m fds tmo \<noteq> Interrupted)"

lemma kernel_answer:
  assumes "kernel_ok kern"
  shows "kern n fds tmo \<noteq> Poll_failed" and "kern n fds tmo = Revents rs \<Longrightarrow> answer_ok fds tmo rs"
proof -
  have "case kern n fds tmo of Poll_failed \<Rightarrow> False | Interrupted \<Rightarrow> True | Revents rs \<Rightarrow> answer_ok fds tmo rs"
    using assms unfolding kernel_ok_def by blast
  then show "kern n fds tmo \<noteq> Poll_failed" and "kern n fds tmo = Revents rs \<Longrightarrow> answer_ok fds tmo rs"
    by (auto split: poll_result.splits)
qed

text \<open>How many calls are interrupted before one is not.\<close>

definition interruptions :: "kernel \<Rightarrow> nat \<Rightarrow> nat" where
  "interruptions kern n = (LEAST m. \<forall>fds tmo. kern (n + m) fds tmo \<noteq> Interrupted)"

lemma interruptions_step:
  assumes "kernel_ok kern" "kern n fds tmo = Interrupted"
  shows "interruptions kern (Suc n) < interruptions kern n"
proof -
  let ?P = "\<lambda>n m. \<forall>fds tmo. kern (n + m) fds tmo \<noteq> Interrupted"
  obtain k where "k \<ge> n" "\<forall>fds tmo. kern k fds tmo \<noteq> Interrupted"
    using assms(1) unfolding kernel_ok_def by blast
  then have "?P n (k - n)" by simp
  then have l: "?P n (interruptions kern n)" unfolding interruptions_def by (rule LeastI)
  then have "interruptions kern n \<noteq> 0" using assms(2) by (metis add_0_right)
  then obtain m where m: "interruptions kern n = Suc m" using not0_implies_Suc by blast
  then have "?P (Suc n) m" using l by simp
  then have "interruptions kern (Suc n) \<le> m" unfolding interruptions_def by (rule Least_le)
  then show ?thesis using m by simp
qed

text \<open>A kernel that reports every event asked for.\<close>

definition eager :: kernel where
  "eager n fds tmo = Revents (map (\<lambda>(f, e). if f = -1 then 0 else e OR POLLERR) fds)"

lemma eager_ok: "kernel_ok eager"
proof -
  have "(e OR POLLERR) AND NOT (e OR POLLERR OR POLLHUP) = 0" for e
    by (rule bit_eqI) (auto simp: bit_and_iff bit_or_iff bit_not_iff)
  moreover have "e OR POLLERR \<noteq> 0" for e :: u32
    by (simp add: or_eq_0_iff POLLERR_def)
  ultimately have "answer_ok fds tmo (map (\<lambda>(f, e). if f = -1 then 0 else e OR POLLERR) fds)" for fds tmo
    unfolding answer_ok_def by (auto simp: case_prod_beta intro!: bexI)
  then show ?thesis by (auto simp: kernel_ok_def eager_def)
qed

section \<open>What polling leaves alone\<close>

text \<open>Between callbacks: the watchers keep what they want, and the queues of fed watchers.\<close>

definition poll_frame :: "uv_loop \<Rightarrow> uv_loop \<Rightarrow> bool" where
  "poll_frame s s' \<longleftrightarrow> erase_poll s' = erase_poll s \<and>
     (\<forall>v. pevents (io s' v) = pevents (io s v) \<and> fd (io s' v) = fd (io s v) \<and> io_cb (io s' v) = io_cb (io s v)) \<and>
     watchers s' = watchers s \<and> nwatchers s' = nwatchers s \<and>
     pending_queue s' = pending_queue s \<and> pending_run s' = pending_run s"

lemma poll_frame_refl: "poll_frame s s"
  by (simp add: poll_frame_def)

lemma poll_frame_trans: "poll_frame s s' \<Longrightarrow> poll_frame s' s'' \<Longrightarrow> poll_frame s s''"
  by (simp add: poll_frame_def)

lemma erase_poll_io: "erase_io s' = erase_io s \<Longrightarrow> erase_poll s' = erase_poll s"
proof -
  assume a: "erase_io s' = erase_io s"
  have "erase_poll (erase_io t) = erase_poll t" for t by (simp add: erase_io_def Let_def)
  then show ?thesis using a by metis
qed

text \<open>Fields of which the invariant says nothing.\<close>

lemma polling_ok_cong:
  assumes "polling_ok s" "io s' = io s" "watchers s' = watchers s" "nwatchers s' = nwatchers s" "nfds s' = nfds s"
    "watcher_queue s' = watcher_queue s" "pending_queue s' = pending_queue s" "pending_run s' = pending_run s"
    "interest s' = interest s" "poll_fds_used s' \<le> length (poll_fds s')"
    "poll_fds_iterating s \<longrightarrow> poll_fds_iterating s'"
  shows "polling_ok s'"
proof -
  have "used_slots s' = used_slots s" "shape_ok s' = shape_ok s" "\<And>w. registered s' w = registered s w"
    using assms by (simp_all add: used_slots_def shape_ok_def registered_def)
  then show ?thesis using assms unfolding polling_ok_def io_ok_def entries_ok_def synced_def by auto
qed

lemmas metrics_defs = uv__metrics_update_idle_time_def uv__metrics_set_provider_entry_time_def
  uv__metrics_inc_events_def uv__metrics_inc_events_waiting_def uv_hrtime_def uv__update_time_def Let_def

lemma metrics_fields [simp]:
  "io (uv__metrics_update_idle_time s) = io s" "watchers (uv__metrics_update_idle_time s) = watchers s"
  "nwatchers (uv__metrics_update_idle_time s) = nwatchers s" "nfds (uv__metrics_update_idle_time s) = nfds s"
  "watcher_queue (uv__metrics_update_idle_time s) = watcher_queue s"
  "pending_queue (uv__metrics_update_idle_time s) = pending_queue s"
  "pending_run (uv__metrics_update_idle_time s) = pending_run s"
  "poll_fds (uv__metrics_update_idle_time s) = poll_fds s" "poll_fds_used (uv__metrics_update_idle_time s) = poll_fds_used s"
  "poll_fds_iterating (uv__metrics_update_idle_time s) = poll_fds_iterating s"
  "erase_poll (uv__metrics_update_idle_time s) = erase_poll s" "polls (uv__metrics_update_idle_time s) = polls s"
  "interest (uv__metrics_update_idle_time s) = interest s"
  by (auto simp: metrics_defs interest_def)

section \<open>One pass over the array\<close>

definition open_entries :: "uv_loop \<Rightarrow> nat" where
  "open_entries s = length (filter (\<lambda>p. fst p \<noteq> -1) (interest s))"

text \<open>
  A pass is quiet as long as it found no event: nothing is queued, and every answer left in
  the array is for an event that its entry asks for.
\<close>

definition answers_fit :: "uv_loop \<Rightarrow> bool" where
  "answers_fit s \<longleftrightarrow> watcher_queue s = [] \<and>
     (\<forall>j < poll_fds_used s. pfd (poll_fds s ! j) \<noteq> -1 \<longrightarrow>
        revents (poll_fds s ! j) AND NOT (pevents_in (poll_fds s ! j) OR POLLERR OR POLLHUP) = 0)"

lemma interest_nth: "polling_ok s \<Longrightarrow> j < poll_fds_used s \<Longrightarrow>
    j < length (interest s) \<and> interest s ! j = (pfd (poll_fds s ! j), pevents_in (poll_fds s ! j))"
  by (simp add: interest_def polling_ok_def entries_ok_def)

lemma entry_range:
  assumes "polling_ok s" "j < poll_fds_used s" "pfd (poll_fds s ! j) \<noteq> -1"
  shows "0 \<le> pfd (poll_fds s ! j)" "nat (pfd (poll_fds s ! j)) < unat (nwatchers s)"
proof -
  have "(pfd (poll_fds s ! j), pevents_in (poll_fds s ! j)) \<in> set (interest s)"
    using interest_nth [OF assms(1,2)] by (metis nth_mem)
  then show "0 \<le> pfd (poll_fds s ! j)" "nat (pfd (poll_fds s ! j)) < unat (nwatchers s)"
    using assms(1,3) by (auto simp: polling_ok_def entries_ok_def)
qed

lemma same_entry:
  "distinct (filter (\<lambda>f. f \<noteq> -1) (map fst xs)) \<Longrightarrow> (f, e) \<in> set xs \<Longrightarrow> (f, e') \<in> set xs \<Longrightarrow> f \<noteq> -1 \<Longrightarrow> e = e'"
  by (induction xs) (auto simp: image_iff split: if_splits)

lemma slot_watcher:
  assumes "polling_ok s" "0 \<le> f" "nat f < unat (nwatchers s)" "watchers s ! nat f \<noteq> NULL"
  shows "registered s (watchers s ! nat f)" "fd (io s (watchers s ! nat f)) = f" "pevents (io s (watchers s ! nat f)) \<noteq> 0"
proof -
  have "nat f \<in> used_slots s" using assms by (simp add: used_slots_def)
  then have "fd (io s (watchers s ! nat f)) = f \<and> pevents (io s (watchers s ! nat f)) \<noteq> 0"
    using assms(1,2) by (simp add: polling_ok_def io_ok_def)
  then show "registered s (watchers s ! nat f)" "fd (io s (watchers s ! nat f)) = f" "pevents (io s (watchers s ! nat f)) \<noteq> 0"
    using assms by (simp_all add: registered_def)
qed

text \<open>In a quiet pass the entry of a watcher asks for what the watcher wants.\<close>

lemma entry_events:
  assumes "polling_ok s" "watcher_queue s = []" "j < poll_fds_used s" "pfd (poll_fds s ! j) \<noteq> -1"
    and "w = watchers s ! nat (pfd (poll_fds s ! j))" "w \<noteq> NULL"
  shows "pevents_in (poll_fds s ! j) = pevents (io s w)"
proof -
  note r = entry_range [OF assms(1,3,4)]
  note w = slot_watcher [OF assms(1) r assms(6) [unfolded assms(5)]]
  have "(pfd (poll_fds s ! j), pevents_in (poll_fds s ! j)) \<in> set (interest s)"
    using interest_nth [OF assms(1,3)] by (metis nth_mem)
  moreover have "(pfd (poll_fds s ! j), pevents (io s w)) \<in> set (interest s)"
    using assms(1,2) w unfolding assms(5) by (metis polling_ok_def synced_def list.set(1) empty_iff)
  ultimately show ?thesis using same_entry assms(1,4) by (auto simp: polling_ok_def entries_ok_def)
qed

lemma and_masked: "r AND NOT (m OR k) = 0 \<Longrightarrow> r AND (m OR k) = r" for r m k :: u32
  by (rule bit_eqI) (auto simp: bit_eq_iff bit_and_iff bit_or_iff bit_not_iff)

lemma marked_fewer:
  fixes xs :: "(int \<times> u32) list"
  assumes "f \<in> fst ` set xs" "f \<noteq> -1"
  shows "length (filter (\<lambda>p. fst p \<noteq> -1) (map (\<lambda>p. if fst p = f then (-1, 0) else p) xs)) <
    length (filter (\<lambda>p. fst p \<noteq> -1) xs)"
proof -
  have le: "length (filter (\<lambda>p. fst p \<noteq> -1) (map (\<lambda>p. if fst p = f then (-1, 0) else p) ys)) \<le>
      length (filter (\<lambda>p. fst p \<noteq> -1) ys)" for ys :: "(int \<times> u32) list"
    by (induction ys) auto
  show ?thesis using assms
  proof (induction xs)
    case (Cons p xs)
    then show ?case using le [of xs] by (cases "f \<in> fst ` set xs") auto
  qed simp
qed

lemma del_loop_iterating:
  "del_loop f i (s\<lparr>poll_fds_iterating := b\<rparr>) = (del_loop f i s)\<lparr>poll_fds_iterating := b\<rparr>"
proof (induction "poll_fds_used s - i" arbitrary: i s rule: less_induct)
  case less
  have c: "remove_entry i (s\<lparr>poll_fds_iterating := b\<rparr>) = (remove_entry i s)\<lparr>poll_fds_iterating := b\<rparr>"
    by (simp add: remove_entry_def uv__pollfds_swap_def)
  have u: "poll_fds_used (remove_entry i s) = poll_fds_used s - 1"
    by (simp add: remove_entry_def uv__pollfds_swap_def)
  show ?case
    using less [of "remove_entry i s" i] less [of s "i + 1"] u
    by (subst (1 2) del_loop_step) (auto simp: c)
qed

lemma io_synced_iterating:
  "io_ok (s\<lparr>poll_fds_iterating := b\<rparr>) = io_ok s" "synced (s\<lparr>poll_fds_iterating := b\<rparr>) = synced s"
  by (simp_all add: io_ok_def synced_def interest_def used_slots_def shape_ok_def registered_def)

definition quiet_scan :: "nat set \<Rightarrow> uv_loop \<Rightarrow> uv_loop \<Rightarrow> bool" where
  "quiet_scan I s s' \<longleftrightarrow> poll_frame s s' \<and> answers_fit s' \<and> nfds s' = nfds s \<and> polls s' = polls s \<and>
     open_entries s' \<le> open_entries s \<and>
     (open_entries s' = open_entries s \<longrightarrow>
        (\<forall>j < poll_fds_used s. pfd (poll_fds s' ! j) = pfd (poll_fds s ! j)) \<and>
        (\<forall>i \<in> I. pfd (poll_fds s ! i) \<noteq> -1 \<longrightarrow> revents (poll_fds s ! i) = 0))"

lemma set_revents_entries:
  assumes "polling_ok s" "length rs = poll_fds_used s"
  shows "interest (set_revents rs s) = interest s" "poll_fds_used (set_revents rs s) = poll_fds_used s"
    "length (poll_fds (set_revents rs s)) = length (poll_fds s)"
    "\<And>j. j < poll_fds_used s \<Longrightarrow> poll_fds (set_revents rs s) ! j = (poll_fds s ! j)\<lparr>revents := rs ! j\<rparr>"
proof -
  have u: "poll_fds_used s \<le> length (poll_fds s)" using assms(1) by (simp add: polling_ok_def entries_ok_def)
  show "poll_fds_used (set_revents rs s) = poll_fds_used s"
    "length (poll_fds (set_revents rs s)) = length (poll_fds s)"
    using u assms(2) by (simp_all add: set_revents_def)
  show n: "poll_fds (set_revents rs s) ! j = (poll_fds s ! j)\<lparr>revents := rs ! j\<rparr>" if "j < poll_fds_used s" for j
    using that u assms(2) by (simp add: set_revents_def nth_append)
  show "interest (set_revents rs s) = interest s"
    using u assms(2) n by (auto simp: interest_def set_revents_def intro!: nth_equalityI)
qed

locale io_client =
  fixes dispatch :: dispatch
    and ok :: "uv_loop \<Rightarrow> bool"
  assumes ok_polling: "ok s \<Longrightarrow> polling_ok s \<and> \<not> registered s (signal_io_watcher s)"
    and ok_poll_frame: "ok s \<Longrightarrow> poll_frame s s' \<Longrightarrow> polling_ok s' \<Longrightarrow> ok s'"
    and dispatch_ok: "ok s \<Longrightarrow> registered s w \<Longrightarrow> pevents (io s w) \<noteq> 0 \<Longrightarrow>
      \<exists>s'. dispatch w ev s = Some s' \<and> ok s' \<and> poll_fds_iterating s' = poll_fds_iterating s \<and>
        (poll_fds_iterating s \<longrightarrow> poll_fds_used s' = poll_fds_used s)"
begin

lemma idle_ok: "ok s \<Longrightarrow> ok (uv__metrics_update_idle_time s)"
proof -
  assume ok: "ok s"
  then have p: "polling_ok s" using ok_polling by blast
  then have "poll_fds_used s \<le> length (poll_fds s)" by (simp add: polling_ok_def entries_ok_def)
  then have "polling_ok (uv__metrics_update_idle_time s)" by (intro polling_ok_cong [OF p]) simp_all
  then show ?thesis by (rule ok_poll_frame [OF ok, rotated]) (simp add: poll_frame_def)
qed

lemma mark_revents_ok:
  assumes "ok s" "i < poll_fds_used s"
  shows "ok (s\<lparr>poll_fds := (poll_fds s)[i := (poll_fds s ! i)\<lparr>revents := r\<rparr>]\<rparr>)"
proof -
  let ?s = "s\<lparr>poll_fds := (poll_fds s)[i := (poll_fds s ! i)\<lparr>revents := r\<rparr>]\<rparr>"
  have p: "polling_ok s" using ok_polling [OF assms(1)] by simp
  have l: "poll_fds_used s \<le> length (poll_fds s)" using p by (simp add: polling_ok_def entries_ok_def)
  moreover have "interest ?s = interest s"
    using assms(2) l by (simp add: interest_def take_update_swap map_update list_update_same_conv)
  ultimately have "polling_ok ?s" by (intro polling_ok_cong [OF p]) simp_all
  then show ?thesis by (rule ok_poll_frame [OF assms(1), rotated]) (simp add: poll_frame_def)
qed

lemma scan_entry_ok:
  assumes "ok s" "poll_fds_iterating s" "i < poll_fds_used s"
  shows "\<exists>s' n'. scan_entry dispatch i (s, n, False) = Some (s', n', False) \<and> ok s' \<and> poll_fds_iterating s' \<and>
    poll_fds_used s' = poll_fds_used s \<and> n \<le> n' \<and>
    (n' = n \<and> answers_fit s \<longrightarrow> poll_frame s s' \<and> answers_fit s' \<and> nfds s' = nfds s \<and> open_entries s' \<le> open_entries s \<and> polls s' = polls s \<and>
       (\<forall>j < poll_fds_used s. j \<noteq> i \<and> pfd (poll_fds s' ! j) \<noteq> -1 \<longrightarrow> poll_fds s' ! j = poll_fds s ! j) \<and>
       (open_entries s' = open_entries s \<longrightarrow> (\<forall>j < poll_fds_used s. pfd (poll_fds s' ! j) = pfd (poll_fds s ! j)) \<and>
          (pfd (poll_fds s ! i) \<noteq> -1 \<longrightarrow> revents (poll_fds s ! i) = 0)))"
proof -
  have p: "polling_ok s" and ns: "\<not> registered s (signal_io_watcher s)" using ok_polling [OF assms(1)] by simp_all
  let ?f = "pfd (poll_fds s ! i)"
  show ?thesis
  proof (cases "?f = -1")
    case True
    then show ?thesis using assms by (simp add: scan_entry_def Let_def poll_frame_refl)
  next
    case False
    note r = entry_range [OF p assms(3) False]
    let ?w = "watchers s ! nat ?f"
    show ?thesis
    proof (cases "?w = NULL")
      case True
      have nf: "fd (io s v) \<noteq> ?f" if "pevents (io s v) \<noteq> 0" for v
      proof
        assume "fd (io s v) = ?f"
        moreover have "registered s v" using p that by (simp add: polling_ok_def io_ok_def)
        ultimately show False using True by (auto simp: registered_def)
      qed
      let ?mark = "\<lambda>p. if pfd p = ?f then empty_pollfd else p"
      let ?s = "s\<lparr>poll_fds := map ?mark (take (poll_fds_used s) (poll_fds s)) @ drop (poll_fds_used s) (poll_fds s)\<rparr>"
      have inv: "uv__platform_invalidate_fd ?f s = Some ?s" using r(1) assms(2) by (simp add: uv__platform_invalidate_fd_def)
      have s1: "polling_ok ?s" using invalidate_ok [OF p r(1) nf] inv by auto
      have fr: "poll_frame s ?s" by (simp add: poll_frame_def)
      have used: "poll_fds_used s \<le> length (poll_fds s)" using p by (simp add: polling_ok_def entries_ok_def)
      have nth: "poll_fds ?s ! j = ?mark (poll_fds s ! j)" if "j < poll_fds_used s" for j
        using that used by (simp add: nth_append)
      have fit: "answers_fit s \<Longrightarrow> answers_fit ?s" using nth by (auto simp: answers_fit_def empty_pollfd_def)
      have int: "interest ?s = map (\<lambda>p. if fst p = ?f then (-1, 0) else p) (interest s)"
        using used by (auto simp: interest_def empty_pollfd_def min_def)
      have le: "open_entries ?s < open_entries s"
      proof -
        have "?f \<in> fst ` set (interest s)" using interest_nth [OF p assms(3)] by (metis fst_conv image_eqI nth_mem)
        then show ?thesis unfolding open_entries_def int using False by (intro marked_fewer)
      qed
      show ?thesis using inv True r assms ok_poll_frame [OF assms(1) fr s1] fr fit le nth
        by (auto simp: scan_entry_def Let_def empty_pollfd_def)
    next
      case w: False
      note sl = slot_watcher [OF p r w]
      let ?re = "revents (poll_fds s ! i) AND (pevents (io s ?w) OR POLLERR OR POLLHUP)"
      let ?s = "s\<lparr>poll_fds := (poll_fds s)[i := (poll_fds s ! i)\<lparr>revents := ?re\<rparr>]\<rparr>"
      have ok: "ok ?s" using mark_revents_ok [OF assms(1,3)] .
      have reg: "registered ?s ?w" "pevents (io ?s ?w) \<noteq> 0" using sl by (simp_all add: registered_def)
      show ?thesis
      proof (cases "?re = 0")
        case True
        have used: "poll_fds_used s \<le> length (poll_fds s)" using p by (simp add: polling_ok_def entries_ok_def)
        have fr: "poll_frame s ?s" by (simp add: poll_frame_def)
        have int: "interest ?s = interest s"
          using assms(3) used by (simp add: interest_def take_update_swap map_update list_update_same_conv)
        have "answers_fit s \<Longrightarrow> revents (poll_fds s ! i) = 0"
        proof -
          assume a: "answers_fit s"
          then have "pevents_in (poll_fds s ! i) = pevents (io s ?w)"
            using entry_events [OF p _ assms(3) False refl w] by (simp add: answers_fit_def)
          then show ?thesis using a False assms(3) True and_masked unfolding answers_fit_def by metis
        qed
        moreover have "answers_fit s \<Longrightarrow> answers_fit ?s"
          using True used assms(3) by (auto simp: answers_fit_def nth_list_update)
        moreover have "open_entries ?s = open_entries s" by (simp add: open_entries_def int)
        ultimately show ?thesis using True w r False assms ok fr used
          by (auto simp: scan_entry_def Let_def nth_list_update)
      next
        case re: False
        from dispatch_ok [OF idle_ok [OF ok], of ?w ?re] reg assms(2) obtain s' where
          "dispatch ?w ?re (uv__metrics_update_idle_time ?s) = Some s'" "ok s'" "poll_fds_iterating s'" "poll_fds_used s' = poll_fds_used s"
          by (auto simp: registered_def)
        moreover have "?w \<noteq> signal_io_watcher s" using ns sl(1) by auto
        ultimately show ?thesis using re w r False by (auto simp: scan_entry_def Let_def)
      qed
    qed
  qed
qed

lemma scan_entries_ok:
  "ok s \<Longrightarrow> poll_fds_iterating s \<Longrightarrow> \<forall>i \<in> set is. i < poll_fds_used s \<Longrightarrow> distinct is \<Longrightarrow>
   \<exists>s' n'. scan_entries dispatch is (s, n, False) = Some (s', n', False) \<and> ok s' \<and> poll_fds_iterating s' \<and>
     poll_fds_used s' = poll_fds_used s \<and> n \<le> n' \<and> (n' = n \<and> answers_fit s \<longrightarrow> quiet_scan (set is) s s')"
proof (induction "is" arbitrary: s n)
  case Nil
  then show ?case by (simp add: quiet_scan_def poll_frame_refl)
next
  case (Cons i js)
  from scan_entry_ok [OF Cons.prems(1,2), of i n] Cons.prems(3) obtain s1 n1 where
    s1: "scan_entry dispatch i (s, n, False) = Some (s1, n1, False)" "ok s1" "poll_fds_iterating s1"
      "poll_fds_used s1 = poll_fds_used s" "n \<le> n1"
    and q1: "n1 = n \<and> answers_fit s \<longrightarrow> poll_frame s s1 \<and> answers_fit s1 \<and> nfds s1 = nfds s \<and> open_entries s1 \<le> open_entries s \<and>
       polls s1 = polls s \<and>
       (\<forall>j < poll_fds_used s. j \<noteq> i \<and> pfd (poll_fds s1 ! j) \<noteq> -1 \<longrightarrow> poll_fds s1 ! j = poll_fds s ! j) \<and>
       (open_entries s1 = open_entries s \<longrightarrow> (\<forall>j < poll_fds_used s. pfd (poll_fds s1 ! j) = pfd (poll_fds s ! j)) \<and>
          (pfd (poll_fds s ! i) \<noteq> -1 \<longrightarrow> revents (poll_fds s ! i) = 0))" by auto
  from Cons.IH [OF s1(2,3), of n1] Cons.prems(3,4) s1(4) obtain s' n' where
    s': "scan_entries dispatch js (s1, n1, False) = Some (s', n', False)" "ok s'" "poll_fds_iterating s'"
      "poll_fds_used s' = poll_fds_used s1" "n1 \<le> n'"
    and q': "n' = n1 \<and> answers_fit s1 \<longrightarrow> quiet_scan (set js) s1 s'" by auto
  have "quiet_scan (set (i # js)) s s'" if q: "n' = n" "answers_fit s"
  proof -
    have e: "n1 = n" "n' = n1" using q s1(5) s'(5) by simp_all
    note a = q1 [rule_format, OF conjI [OF e(1) q(2)]]
    have b: "quiet_scan (set js) s1 s'" using q' e(2) a by simp
    show ?thesis
      unfolding quiet_scan_def
    proof (intro conjI impI allI ballI)
      show "poll_frame s s'" using a b poll_frame_trans by (auto simp: quiet_scan_def)
      show "answers_fit s'" "nfds s' = nfds s" "polls s' = polls s" "open_entries s' \<le> open_entries s"
        using a b by (auto simp: quiet_scan_def)
    next
      assume eq: "open_entries s' = open_entries s"
      then have o: "open_entries s1 = open_entries s" "open_entries s' = open_entries s1" using a b by (auto simp: quiet_scan_def)
      have a1: "\<forall>j < poll_fds_used s. pfd (poll_fds s1 ! j) = pfd (poll_fds s ! j)" using a o(1) by blast
      have b1: "\<forall>j < poll_fds_used s. pfd (poll_fds s' ! j) = pfd (poll_fds s1 ! j)"
        "\<forall>k \<in> set js. pfd (poll_fds s1 ! k) \<noteq> -1 \<longrightarrow> revents (poll_fds s1 ! k) = 0"
        using b o(2) s1(4) unfolding quiet_scan_def by auto
      show "pfd (poll_fds s' ! j) = pfd (poll_fds s ! j)" if "j < poll_fds_used s" for j
        using a1 b1(1) that by metis
      show "revents (poll_fds s ! k) = 0" if k: "k \<in> set (i # js)" "pfd (poll_fds s ! k) \<noteq> -1" for k
      proof (cases "k = i")
        case True
        then show ?thesis using a o(1) k(2) by blast
      next
        case False
        then have kj: "k \<in> set js" "k < poll_fds_used s" using k(1) Cons.prems(3) by auto
        then have "pfd (poll_fds s1 ! k) \<noteq> -1" using a1 k(2) by metis
        moreover from this have "poll_fds s1 ! k = poll_fds s ! k" using a kj(2) False by blast
        ultimately show ?thesis using b1(2) kj(1) by metis
      qed
    qed
  qed
  moreover have "scan_entries dispatch (i # js) (s, n, False) = Some (s', n', False)" using s1(1) s'(1) by simp
  moreover have "n \<le> n'" "poll_fds_used s' = poll_fds_used s" using s'(4,5) s1(4,5) by simp_all
  ultimately show ?case using s'(2,3) by (intro exI [of _ s'] exI [of _ n']) blast
qed

lemma ok_cong:
  assumes "ok s" "erase_poll s' = erase_poll s" "io s' = io s" "watchers s' = watchers s" "nwatchers s' = nwatchers s"
    "nfds s' = nfds s" "watcher_queue s' = watcher_queue s" "pending_queue s' = pending_queue s"
    "pending_run s' = pending_run s" "interest s' = interest s" "poll_fds_used s' \<le> length (poll_fds s')"
    "poll_fds_iterating s \<longrightarrow> poll_fds_iterating s'"
  shows "ok s'"
proof -
  have "polling_ok s'" using ok_polling [OF assms(1)] by (intro polling_ok_cong [OF _ assms(3-12)]) simp
  then show ?thesis by (rule ok_poll_frame [OF assms(1), rotated]) (use assms in \<open>simp add: poll_frame_def\<close>)
qed

lemma purge_ok:
  assumes "ok s"
  shows "\<exists>s'. uv__pollfds_del (-1) (s\<lparr>poll_fds_iterating := False\<rparr>) = Some s' \<and> ok s' \<and> \<not> poll_fds_iterating s' \<and>
    poll_frame s s' \<and> nfds s' = nfds s \<and> polls s' = polls s \<and> open_entries s' \<le> open_entries s \<and>
    watcher_queue s' = watcher_queue s"
proof -
  have p: "polling_ok s" using ok_polling [OF assms] by simp
  have u: "poll_fds_used s \<le> length (poll_fds s)" using p by (simp add: polling_ok_def entries_ok_def)
  let ?d = "del_loop (-1) 0 s" and ?s = "(del_loop (-1) 0 s)\<lparr>poll_fds_iterating := False\<rparr>"
  have "fd (io s v) \<noteq> -1" if "pevents (io s v) \<noteq> 0" for v
    using p that by (auto simp: polling_ok_def io_ok_def registered_def)
  note d = del_ok [OF p this] and f = del_loop_frame [OF u, of "-1" 0]
  have r: "uv__pollfds_del (-1) (s\<lparr>poll_fds_iterating := False\<rparr>) = Some ?s"
    by (simp add: uv__pollfds_del_def del_loop_iterating)
  have int: "interest ?s = interest ?d" by (simp add: interest_def)
  have e: "poll_fds_used ?d \<le> length (poll_fds ?d)" "distinct (filter (\<lambda>f. f \<noteq> -1) (map fst (interest ?d)))"
    "\<forall>(f, e) \<in> set (interest ?d). f = -1 \<and> poll_fds_iterating ?d \<or> 0 \<le> f \<and> nat f < unat (nwatchers ?d)"
    using d(1) unfolding polling_ok_def entries_ok_def by blast+
  have "0 \<le> fst q \<and> nat (fst q) < unat (nwatchers ?d)" if "q \<in> set (interest ?d)" for q
    using bspec [OF e(3) that] d(2) that by (cases q) force
  then have "entries_ok ?s" using e(1,2) unfolding entries_ok_def int by auto
  moreover have "io_ok ?s" "synced ?s"
    using d(1) by (simp_all add: polling_ok_def io_synced_iterating)
  ultimately have ps: "polling_ok ?s" by (simp add: polling_ok_def)
  have e: "erase_poll ?d = erase_poll s" using f erase_poll_io by blast
  have fr: "poll_frame s ?s" using f e by (simp add: poll_frame_def)
  have "open_entries ?s \<le> open_entries s"
  proof -
    have "mset (filter (\<lambda>p. fst p \<noteq> -1) (interest ?d)) \<subseteq># mset (filter (\<lambda>p. fst p \<noteq> -1) (interest s))"
      using f multiset_filter_mono [of "mset (interest ?d)" "mset (interest s)" "\<lambda>p. fst p \<noteq> -1"] by simp
    then show ?thesis unfolding open_entries_def int by (metis size_mset size_mset_mono)
  qed
  moreover have "polls ?d = polls s" by (simp add: erase_ioD [OF conjunct1 [OF f]])
  ultimately show ?thesis using r ok_poll_frame [OF assms fr ps] fr f by auto
qed

text \<open>What holds before each call of \<open>poll\<close>.\<close>

definition polling :: "int \<Rightarrow> bool \<Rightarrow> int \<Rightarrow> uv_loop \<Rightarrow> bool" where
  "polling user reset tmo s \<longleftrightarrow> ok s \<and> \<not> poll_fds_iterating s \<and> watcher_queue s = [] \<and> nfds s \<noteq> 0 \<and>
     -1 \<le> user \<and> -1 \<le> tmo \<and> (reset \<longrightarrow> tmo = 0)"

lemma polling_interest:
  assumes "polling user reset tmo s"
  shows "\<exists>p \<in> set (interest s). fst p \<noteq> -1" and "\<forall>p \<in> set (interest s). fst p \<noteq> -1"
    and "length (interest s) = poll_fds_used s"
proof -
  have p: "polling_ok s" "\<not> poll_fds_iterating s" "watcher_queue s = []" "nfds s \<noteq> 0"
    using assms ok_polling by (auto simp: polling_def)
  show "\<forall>p \<in> set (interest s). fst p \<noteq> -1" "length (interest s) = poll_fds_used s"
    using p(1,2) by (auto simp: polling_ok_def entries_ok_def interest_def)
  obtain i where i: "i \<in> used_slots s" using nfds_zero p(1,4) by (auto simp: polling_ok_def)
  let ?w = "watchers s ! i"
  have w: "fd (io s ?w) = int i" "pevents (io s ?w) \<noteq> 0" using p(1) i by (simp_all add: polling_ok_def io_ok_def)
  then have "(int i, pevents (io s ?w)) \<in> set (interest s)"
    using p(1,3) by (metis polling_ok_def synced_def list.set(1) empty_iff)
  then show "\<exists>p \<in> set (interest s). fst p \<noteq> -1" by force
qed

lemma update_timeout_ok:
  assumes "polling user reset t s" "tmo > 0"
  shows "\<exists>r. update_timeout base tmo s = Some r \<and>
    (case r of Return s' \<Rightarrow> s' = s | Again reset' tmo' s' \<Rightarrow> s' = s \<and> \<not> reset' \<and> polling user False tmo' s)"
proof -
  let ?d = "time s - base"
  have "uint ?d < tmo" if "\<not> word_of_int tmo \<le> ?d"
  proof -
    have "uint ?d < uint (word_of_int tmo :: u64)" using that by (simp add: word_le_def)
    also have "\<dots> \<le> tmo" using assms(2) by (simp add: uint_word_of_int zmod_le_nonneg_dividend)
    finally show ?thesis .
  qed
  then show ?thesis using assms by (auto simp: update_timeout_def Let_def polling_def)
qed

lemma after_events_ok:
  assumes "polling user reset tmo s" "answer_ok (interest s) t rs" "\<exists>r \<in> set rs. r \<noteq> 0"
    and r_def: "r = after_events dispatch base user reset tmo (set_revents rs s)"
  shows "\<exists>s1. r = Some (Return s1) \<and> ok s1 \<and> \<not> poll_fds_iterating s1 \<or>
    (\<exists>tmo'. r = Some (Again False tmo' s1) \<and> polling user False tmo' s1 \<and> polls s1 = polls s \<and>
       open_entries s1 < open_entries s)"
proof -
  have p: "ok s" "polling_ok s" "\<not> poll_fds_iterating s" "watcher_queue s = []" "nfds s \<noteq> 0"
    using assms(1) ok_polling by (auto simp: polling_def)
  note pi = polling_interest [OF assms(1)]
  have len: "length rs = poll_fds_used s" using assms(2) pi(3) by (simp add: answer_ok_def)
  note sr = set_revents_entries [OF p(2) len]
  let ?a = "(set_revents rs s)\<lparr>poll_fds_iterating := True\<rparr>"
  have srf: "erase_poll (set_revents rs s) = erase_poll s" "io (set_revents rs s) = io s" "watchers (set_revents rs s) = watchers s"
    "nwatchers (set_revents rs s) = nwatchers s" "nfds (set_revents rs s) = nfds s" "watcher_queue (set_revents rs s) = watcher_queue s"
    "pending_queue (set_revents rs s) = pending_queue s" "pending_run (set_revents rs s) = pending_run s" "polls (set_revents rs s) = polls s"
    by (simp_all add: set_revents_def)
  have u: "poll_fds_used s \<le> length (poll_fds s)" using p(2) by (simp add: polling_ok_def entries_ok_def)
  have ia: "interest ?a = interest s" using sr(1) by (simp add: interest_def)
  have oka: "ok ?a" by (rule ok_cong [OF p(1)]) (use sr srf u ia in simp_all)
  have fit: "answers_fit ?a"
    unfolding answers_fit_def
  proof (intro conjI allI impI)
    show "watcher_queue ?a = []" using srf p(4) by simp
    fix j assume j: "j < poll_fds_used ?a" "pfd (poll_fds ?a ! j) \<noteq> -1"
    then have j': "j < poll_fds_used s" using sr(2) by simp
    then have "rs ! j AND NOT (snd (interest s ! j) OR POLLERR OR POLLHUP) = 0"
      using assms(2) pi(3) by (simp add: answer_ok_def)
    then show "revents (poll_fds ?a ! j) AND NOT (pevents_in (poll_fds ?a ! j) OR POLLERR OR POLLHUP) = 0"
      using sr(4) [OF j'] interest_nth [OF p(2) j'] by simp
  qed
  obtain s1 n1 where s1: "scan_entries dispatch [0..<poll_fds_used ?a] (?a, 0, False) = Some (s1, n1, False)"
    "ok s1" "poll_fds_iterating s1" "n1 = 0 \<longrightarrow> quiet_scan (set [0..<poll_fds_used ?a]) ?a s1"
    using scan_entries_ok [OF oka, of "[0..<poll_fds_used ?a]" 0] fit by auto
  let ?b = "uv__metrics_inc_events (of_nat n1) s1"
  let ?c = "if reset then uv__metrics_inc_events_waiting (of_nat n1) ?b else ?b"
  have p1: "poll_fds_used s1 \<le> length (poll_fds s1)" using ok_polling [OF s1(2)] by (simp add: polling_ok_def entries_ok_def)
  have fc: "erase_poll ?c = erase_poll s1" "io ?c = io s1" "watchers ?c = watchers s1" "nwatchers ?c = nwatchers s1" "nfds ?c = nfds s1"
    "watcher_queue ?c = watcher_queue s1" "pending_queue ?c = pending_queue s1" "pending_run ?c = pending_run s1"
    "interest ?c = interest s1" "poll_fds_used ?c \<le> length (poll_fds ?c)" "poll_fds_iterating ?c = poll_fds_iterating s1"
    "polls ?c = polls s1"
    using p1 by (auto simp: metrics_defs interest_def)
  have okc: "ok ?c" by (rule ok_cong [OF s1(2)]) (use fc in simp_all)
  obtain d where d: "uv__pollfds_del (-1) (?c\<lparr>poll_fds_iterating := False\<rparr>) = Some d" "ok d" "\<not> poll_fds_iterating d"
    "poll_frame ?c d" "nfds d = nfds ?c" "polls d = polls ?c" "open_entries d \<le> open_entries ?c" "watcher_queue d = watcher_queue ?c"
    using purge_ok [OF okc] by blast
  let ?t = "if reset then user else tmo"
  have r: "r = (if n1 \<noteq> 0 then Some (Return d) else if ?t = 0 then Some (Return d)
      else if ?t = -1 then Some (Again False ?t d) else update_timeout base ?t d)"
    using s1(1) d(1) unfolding r_def after_events_def by (simp add: Let_def)
  show ?thesis
  proof (cases "n1 = 0 \<and> ?t \<noteq> 0")
    case False
    then show ?thesis using r d by auto
  next
    case True
    then have q: "quiet_scan {0..<poll_fds_used s} ?a s1" using s1(4) sr(2) by simp
    have "open_entries s1 \<noteq> open_entries ?a"
    proof
      assume e: "open_entries s1 = open_entries ?a"
      obtain k where k: "k < length rs" "rs ! k \<noteq> 0" using assms(3) by (auto simp: in_set_conv_nth)
      then have k': "k < poll_fds_used s" using len by simp
      have "pfd (poll_fds ?a ! k) \<noteq> -1" using pi(2) interest_nth [OF p(2) k'] sr(4) [OF k'] pi(3) k' nth_mem [of k "interest s"] by auto
      then have "revents (poll_fds ?a ! k) = 0" using q e k' by (simp add: quiet_scan_def)
      then show False using k(2) sr(4) [OF k'] by simp
    qed
    then have lt: "open_entries d < open_entries s" using q d(7) fc(9) ia by (simp add: quiet_scan_def open_entries_def)
    have "watcher_queue s1 = []" "nfds s1 = nfds s" "polls s1 = polls s" using q srf by (simp_all add: quiet_scan_def answers_fit_def)
    then have pd: "watcher_queue d = []" "nfds d \<noteq> 0" "polls d = polls s" using d fc p(5) by simp_all
    have "-1 \<le> user" "-1 \<le> ?t" using assms(1) by (auto simp: polling_def)
    then have po: "polling user False ?t d" using d pd by (simp add: polling_def)
    show ?thesis
    proof (cases "?t = -1")
      case t: True
      then show ?thesis using r True po lt pd by auto
    next
      case f: False
      then have "?t > 0" using \<open>-1 \<le> ?t\<close> True by (auto split: if_splits)
      from update_timeout_ok [OF po this, of base] obtain r1 where "update_timeout base ?t d = Some r1"
        "case r1 of Return s' \<Rightarrow> s' = d | Again reset' tmo' s' \<Rightarrow> s' = d \<and> \<not> reset' \<and> polling user False tmo' d" by blast
      then show ?thesis using r True f d(2,3) lt pd by (cases r1) auto
    qed
  qed
qed

text \<open>
  One call of \<open>poll\<close> ends the function, or the next call is closer to the end: an entry was
  purged, the first call that does not sleep is over, or the call was interrupted.
\<close>

lemma poll_once_ok:
  assumes "polling user reset tmo s" "kernel_ok kern"
  shows "\<exists>s1. poll_once kern dispatch base user reset tmo s = Some (Return s1) \<and> ok s1 \<and> \<not> poll_fds_iterating s1 \<or>
    (\<exists>tmo'. poll_once kern dispatch base user reset tmo s = Some (Again False tmo' s1) \<and> polling user False tmo' s1 \<and>
       polls s1 = Suc (polls s) \<and> open_entries s1 \<le> open_entries s \<and>
       (open_entries s1 < open_entries s \<or> reset \<or> kern (polls s) (interest s) tmo = Interrupted))"
proof -
  let ?m = "(if tmo \<noteq> 0 then uv__metrics_set_provider_entry_time s else s)\<lparr>current_timeout := tmo\<rparr>"
  define s0 where "s0 = uv__update_time (?m\<lparr>polls := polls ?m + 1\<rparr>)"
  have m: "polls ?m = polls s" "interest ?m = interest s" by (auto simp: metrics_defs interest_def)
  have fs: "erase_poll s0 = erase_poll s" "io s0 = io s" "watchers s0 = watchers s" "nwatchers s0 = nwatchers s" "nfds s0 = nfds s"
    "watcher_queue s0 = watcher_queue s" "pending_queue s0 = pending_queue s" "pending_run s0 = pending_run s"
    "interest s0 = interest s" "poll_fds_used s0 = poll_fds_used s" "poll_fds s0 = poll_fds s"
    "poll_fds_iterating s0 = poll_fds_iterating s" "polls s0 = Suc (polls s)" "open_entries s0 = open_entries s"
    by (auto simp: s0_def metrics_defs interest_def open_entries_def)
  have s: "ok s" "\<not> poll_fds_iterating s" "watcher_queue s = []" "nfds s \<noteq> 0" "-1 \<le> user" "-1 \<le> tmo" "reset \<longrightarrow> tmo = 0"
    using assms(1) by (simp_all add: polling_def)
  have u: "poll_fds_used s \<le> length (poll_fds s)" using ok_polling [OF s(1)] by (simp add: polling_ok_def entries_ok_def)
  have oks: "ok s0" by (rule ok_cong [OF s(1)]) (use fs u in simp_all)
  let ?t = "if reset then user else tmo"
  have po: "polling user False t s0" if "-1 \<le> t" for t using oks s fs that by (simp add: polling_def)
  have t: "-1 \<le> ?t" using s by simp
  have wait: "\<exists>s1. (if ?t = -1 then Some (Again False ?t s0) else if ?t = 0 then Some (Return s0) else update_timeout base ?t s0) =
      Some (Return s1) \<and> ok s1 \<and> \<not> poll_fds_iterating s1 \<or>
    (\<exists>tmo'. (if ?t = -1 then Some (Again False ?t s0) else if ?t = 0 then Some (Return s0) else update_timeout base ?t s0) =
      Some (Again False tmo' s1) \<and> polling user False tmo' s1 \<and> s1 = s0)"
  proof (cases "?t > 0")
    case True
    from update_timeout_ok [OF po [OF t] True, of base] obtain r1 where "update_timeout base ?t s0 = Some r1"
      "case r1 of Return s' \<Rightarrow> s' = s0 | Again reset' tmo' s' \<Rightarrow> s' = s0 \<and> \<not> reset' \<and> polling user False tmo' s0" by blast
    then show ?thesis using True oks fs s(2) by (cases r1) auto
  next
    case False
    then have "?t = 0 \<or> ?t = -1" using t by linarith
    then show ?thesis using po oks fs s(2) by auto
  qed
  define ans where "ans = kern (polls s) (interest s) tmo"
  have once: "poll_once kern dispatch base user reset tmo s = (case ans of
      Poll_failed \<Rightarrow> None
    | Interrupted \<Rightarrow> if ?t = -1 then Some (Again False ?t s0) else if ?t = 0 then Some (Return s0) else update_timeout base ?t s0
    | Revents rs \<Rightarrow>
        if length rs \<noteq> poll_fds_used s0 then None
        else if \<forall>x \<in> set rs. x = 0 then
          let s = set_revents rs s0
          in if reset \<and> user = -1 then Some (Again False user s)
             else if reset \<and> user > 0 then update_timeout base user s
             else if ?t = -1 then None
             else Some (Return s)
        else after_events dispatch base user reset tmo (set_revents rs s0))"
    unfolding poll_once_def ans_def Let_def m s0_def ..
  show ?thesis
  proof (cases ans)
    case Poll_failed
    then show ?thesis using kernel_answer [OF assms(2)] by (simp add: ans_def)
  next
    case Interrupted
    then show ?thesis using wait fs unfolding once by (auto simp: ans_def)
  next
    case (Revents rs)
    have "answer_ok (interest s) tmo rs"
      using kernel_answer [OF assms(2)] Revents unfolding ans_def by blast
    then have a: "answer_ok (interest s0) tmo rs" using fs by simp
    note pi = polling_interest [OF po [OF order_refl]]
    have len: "length rs = poll_fds_used s0" using a pi(3) by (simp add: answer_ok_def)
    show ?thesis
    proof (cases "\<exists>r \<in> set rs. r \<noteq> 0")
      case True
      have "polling user reset tmo s0" using oks s fs by (simp add: polling_def)
      from after_events_ok [OF this a True refl, of base] show ?thesis
        unfolding once using Revents True len fs by auto
    next
      case False
      then have nt: "tmo \<noteq> -1" using a pi(1) by (auto simp: answer_ok_def)
      have pos: "polling_ok s0" using ok_polling [OF oks] by simp
      note sr = set_revents_entries [OF pos len]
      let ?r = "set_revents rs s0"
      have fr: "erase_poll ?r = erase_poll s0" "io ?r = io s0" "watchers ?r = watchers s0" "nwatchers ?r = nwatchers s0" "nfds ?r = nfds s0"
        "watcher_queue ?r = watcher_queue s0" "pending_queue ?r = pending_queue s0" "pending_run ?r = pending_run s0"
        "poll_fds_iterating ?r = poll_fds_iterating s0" "polls ?r = polls s0"
        by (simp_all add: set_revents_def)
      have okr: "ok ?r" by (rule ok_cong [OF oks]) (use fr sr u fs in simp_all)
      have por: "polling user False t ?r" if "-1 \<le> t" for t using okr s fs fr that by (simp add: polling_def)
      have op: "open_entries ?r = open_entries s0" using sr(1) by (simp add: open_entries_def)
      show ?thesis
      proof (cases "reset \<and> user > 0")
        case True
        from update_timeout_ok [OF por [OF s(5)] conjunct2 [OF True], of base] obtain r1 where "update_timeout base user ?r = Some r1"
          "case r1 of Return s' \<Rightarrow> s' = ?r | Again reset' tmo' s' \<Rightarrow> s' = ?r \<and> \<not> reset' \<and> polling user False tmo' ?r" by blast
        then show ?thesis unfolding once using Revents False len fs fr op True okr s(2) by (cases r1) auto
      next
        case nr: False
        then have "reset \<longrightarrow> user = -1 \<or> user = 0" using s(5) by linarith
        then show ?thesis unfolding once using Revents False len fs(12,13,14) fr(9,10) op okr s(2,6,7) nt por [of "-1"]
          by (cases reset) auto
      qed
    qed
  qed
qed

lemma poll_loop_ok:
  "kernel_ok kern \<Longrightarrow> polling user reset tmo s \<Longrightarrow>
   \<exists>s'. poll_loop kern dispatch base user reset tmo s = Some s' \<and> ok s' \<and> \<not> poll_fds_iterating s'"
proof (induction "(open_entries s, if reset then 1 else 0 :: nat, interruptions kern (polls s))"
    arbitrary: reset tmo s rule: wf_induct_rule [OF wf_lex_prod [OF wf_less_than wf_lex_prod [OF wf_less_than wf_less_than]]])
  case (1 reset s tmo)
  consider (return) s1 where "poll_once kern dispatch base user reset tmo s = Some (Return s1)" "ok s1" "\<not> poll_fds_iterating s1"
    | (again) s1 tmo' where "poll_once kern dispatch base user reset tmo s = Some (Again False tmo' s1)" "polling user False tmo' s1"
      "polls s1 = Suc (polls s)" "open_entries s1 \<le> open_entries s"
      "open_entries s1 < open_entries s \<or> reset \<or> kern (polls s) (interest s) tmo = Interrupted"
    using poll_once_ok [OF 1(3,2), of base] by blast
  then show ?case
  proof cases
    case return
    then show ?thesis by (subst poll_loop.simps) simp
  next
    case again
    then have "((open_entries s1, if False then 1 else 0 :: nat, interruptions kern (polls s1)),
        (open_entries s, if reset then 1 else 0, interruptions kern (polls s))) \<in> less_than <*lex*> less_than <*lex*> less_than"
      using interruptions_step [OF 1(2), of "polls s" "interest s" tmo] by auto
    from 1(1) [OF this 1(2) again(2)] show ?thesis using again(1) by (subst poll_loop.simps) simp
  qed
qed

text \<open>
  \<open>uv__io_poll\<close> returns: with a kernel as above, whatever the clock does.
\<close>

lemma io_poll_ok:
  assumes "kernel_ok kern" "ok s" "\<not> poll_fds_iterating s" "-1 \<le> tmo"
  shows "\<exists>s'. uv__io_poll kern dispatch tmo s = Some s' \<and> ok s' \<and> \<not> poll_fds_iterating s'"
proof (cases "nfds s = 0")
  case True
  have "watcher_queue s = []"
  proof (rule ccontr)
    assume "watcher_queue s \<noteq> []"
    then obtain w where "w \<in> set (watcher_queue s)" by (cases "watcher_queue s") auto
    then have "registered s w" using ok_polling [OF assms(2)] by (auto simp: polling_ok_def io_ok_def)
    then have "nat (fd (io s w)) \<in> used_slots s" by (auto simp: registered_def used_slots_def)
    then show False using nfds_zero True ok_polling [OF assms(2)] by (auto simp: polling_ok_def)
  qed
  then show ?thesis using True assms by (simp add: uv__io_poll_def)
next
  case False
  from add_watchers_ok [OF _ refl assms(3)] ok_polling [OF assms(2)] obtain s1 where
    s1: "add_watchers (watcher_queue s) s = Some s1" "polling_ok s1" "watcher_queue s1 = []" "erase_io s1 = erase_io s"
      "\<forall>v. pevents (io s1 v) = pevents (io s v) \<and> fd (io s1 v) = fd (io s v) \<and> io_cb (io s1 v) = io_cb (io s v)"
      "watchers s1 = watchers s" "nwatchers s1 = nwatchers s" "nfds s1 = nfds s"
      "pending_queue s1 = pending_queue s" "pending_run s1 = pending_run s" by blast
  have "poll_frame s s1" unfolding poll_frame_def using s1(5-7,9,10) erase_poll_io [OF s1(4)] by blast
  then have ok1: "ok s1" by (rule ok_poll_frame [OF assms(2) _ s1(2)])
  have it: "\<not> poll_fds_iterating s1" using assms(3) erase_ioD [OF s1(4)] by simp
  have po: "polling tmo False tmo s1" "polling tmo True 0 s1"
    using ok1 it s1(3,8) False assms(4) by (simp_all add: polling_def)
  show ?thesis
    using poll_loop_ok [OF assms(1) po(1), of "time s1"] poll_loop_ok [OF assms(1) po(2), of "time s1"] False s1(1) assms(4)
    by (simp add: uv__io_poll_def Let_def)
qed

end

end
