(* ===== verification/Syscalls.thy ===== *)
theory Syscalls
  imports Errors
begin

unbundle bit_operations_syntax

text \<open>
  System calls. The answers of the system to the calls of one function, in their order, are
  a parameter: the \<open>n\<close>-th call yields an error, \<open>errno\<close> named by the error of the library, or
  a value. A call that was interrupted is made again.
\<close>

type_synonym 'a answers = "nat \<Rightarrow> uv_errno + 'a"

text \<open>
  The loop \<open>do r = f(...); while (r == -1 && errno == EINTR)\<close>, with the errors that make it
  try again: the first answer that is none of them, and the number of the call after it.
\<close>

partial_function (option) retry :: "uv_errno list \<Rightarrow> 'a answers \<Rightarrow> nat \<Rightarrow> ((uv_errno + 'a) \<times> nat) option" where
  "retry es sys n =
     (case sys n of
        Inl e \<Rightarrow> if e \<in> set es then retry es sys (n + 1) else Some (Inl e, n + 1)
      | Inr r \<Rightarrow> Some (Inr r, n + 1))"

declare retry.simps [code]

text \<open>It returns exactly when some answer is none of the errors, and returns the first such.\<close>

definition settled :: "uv_errno list \<Rightarrow> uv_errno + 'a \<Rightarrow> bool" where
  "settled es r \<longleftrightarrow> (case r of Inl e \<Rightarrow> e \<notin> set es | Inr _ \<Rightarrow> True)"

lemma retry_returns:
  assumes "settled es (sys (n + k))" "\<And>j. j < k \<Longrightarrow> \<not> settled es (sys (n + j))"
  shows "retry es sys n = Some (sys (n + k), n + k + 1)"
  using assms
proof (induction k arbitrary: n)
  case 0
  then show ?case by (subst retry.simps) (auto simp: settled_def split: sum.splits)
next
  case (Suc k)
  have "\<not> settled es (sys (n + 0))" using Suc.prems(2) by blast
  then obtain e where e: "sys n = Inl e" "e \<in> set es" by (auto simp: settled_def split: sum.splits)
  have "retry es sys (n + 1) = Some (sys (n + 1 + k), n + 1 + k + 1)"
    by (rule Suc.IH) (use Suc.prems(1) Suc.prems(2) [of "Suc _"] in simp_all)
  then show ?case using e by (subst retry.simps) simp
qed

lemma retry_settled:
  assumes "retry es sys n = Some y"
  shows "case y of (r, m) \<Rightarrow> settled es r \<and> n < m \<and> r = sys (m - 1)"
proof (rule retry.raw_induct [where P = "\<lambda>es sys n y. case y of (r, m) \<Rightarrow> settled es r \<and> n < m \<and> r = sys (m - 1)", OF _ assms])
  fix f es and sys :: "'a answers" and n y
  assume ih: "\<And>es sys n y. f es sys n = Some y \<Longrightarrow> case y of (r, m) \<Rightarrow> settled es r \<and> n < m \<and> r = sys (m - 1)"
    and y: "(case sys n of Inl e \<Rightarrow> if e \<in> set es then f es sys (n + 1) else Some (Inl e, n + 1)
      | Inr r \<Rightarrow> Some (Inr r, n + 1)) = Some y"
  show "case y of (r, m) \<Rightarrow> settled es r \<and> n < m \<and> r = sys (m - 1)"
    using y ih [of es sys "n + 1" y] by (fastforce simp: settled_def split: sum.splits if_splits)
qed

section \<open>Descriptors\<close>

text \<open>
  The system calls on descriptors. \<open>In_progress\<close> is the error \<open>EINPROGRESS\<close> of \<open>close\<close>. A
  platform has either the flags that create a descriptor in its final mode (\<open>SOCK_CLOEXEC\<close>,
  \<open>accept4\<close>, \<open>O_CLOEXEC\<close>, \<open>dup3\<close>) or the plain calls only.
\<close>

datatype close_result = Close_done | In_progress | Close_failed uv_errno

record fd_calls =
  get_flags :: "int \<Rightarrow> u32 answers"
  set_flags_fd :: "int \<Rightarrow> u32 \<Rightarrow> unit answers"
  fionbio :: "int \<Rightarrow> unit answers"
  set_cloexec :: "int \<Rightarrow> unit answers"
  close_fd :: "int \<Rightarrow> close_result"
  poll_one :: "int \<Rightarrow> u32 answers"
  socket_flags :: "uv_errno + int"
  socket_plain :: "uv_errno + int"
  accept_flags :: "int answers"
  accept_plain :: "int answers"
  open_flags :: "uv_errno + int"
  open_plain :: "uv_errno + int"
  dup_flags :: "uv_errno + int"
  dup_plain :: "uv_errno + int"
  nonblock_by_ioctl :: bool
  has_flags :: bool

definition O_NONBLOCK :: u32 where "O_NONBLOCK = 0x800"
definition POLLNVAL :: u32 where "POLLNVAL = 0x20"

definition error_of :: "uv_errno + 'a \<Rightarrow> uv_errno option" where
  "error_of r = (case r of Inl e \<Rightarrow> Some e | Inr _ \<Rightarrow> None)"

lemma error_of [simp]: "error_of r = Some e \<longleftrightarrow> r = Inl e" "error_of r = None \<longleftrightarrow> (\<exists>x. r = Inr x)"
  by (auto simp: error_of_def split: sum.splits)

text \<open>\<open>None\<close>: the function does not return; \<open>Some None\<close>: it returns 0.\<close>

definition uv__io_check_fd :: "fd_calls \<Rightarrow> int \<Rightarrow> uv_errno option option" where
  "uv__io_check_fd c fd =
     map_option (\<lambda>(rv, _). case rv of
         Inl e \<Rightarrow> Some e
       | Inr revents \<Rightarrow> if revents AND POLLNVAL \<noteq> 0 then Some UV_EINVAL else None)
       (retry [UV_EINTR, UV_EAGAIN] (poll_one c fd) 0)"

definition uv__nonblock_ioctl :: "fd_calls \<Rightarrow> int \<Rightarrow> uv_errno option option" where
  "uv__nonblock_ioctl c fd = map_option (\<lambda>(r, _). error_of r) (retry [UV_EINTR] (fionbio c fd) 0)"

definition uv__nonblock_fcntl :: "fd_calls \<Rightarrow> int \<Rightarrow> bool \<Rightarrow> uv_errno option option" where
  "uv__nonblock_fcntl c fd on =
     Option.bind (retry [UV_EINTR] (get_flags c fd) 0) (\<lambda>(r, _).
       case r of
         Inl e \<Rightarrow> Some (Some e)
       | Inr r \<Rightarrow>
           if (r AND O_NONBLOCK \<noteq> 0) = on then Some None
           else
             let flags = (if on then r OR O_NONBLOCK else r AND NOT O_NONBLOCK)
             in map_option (\<lambda>(r, _). error_of r) (retry [UV_EINTR] (set_flags_fd c fd flags) 0))"

definition uv__nonblock :: "fd_calls \<Rightarrow> int \<Rightarrow> bool \<Rightarrow> uv_errno option option" where
  "uv__nonblock c fd on =
     (if nonblock_by_ioctl c then uv__nonblock_ioctl c fd else uv__nonblock_fcntl c fd on)"

definition uv__cloexec :: "fd_calls \<Rightarrow> int \<Rightarrow> uv_errno option option" where
  "uv__cloexec c fd = map_option (\<lambda>(r, _). error_of r) (retry [UV_EINTR] (set_cloexec c fd) 0)"

text \<open>The errors that mean that a descriptor is being closed are no errors; a failed assertion is \<open>None\<close>.\<close>

definition uv__close_nocheckstdio :: "fd_calls \<Rightarrow> int \<Rightarrow> uv_errno option option" where
  "uv__close_nocheckstdio c fd =
     (if fd \<le> -1 then None
      else Some (case close_fd c fd of
          Close_done \<Rightarrow> None
        | In_progress \<Rightarrow> None
        | Close_failed e \<Rightarrow> if e = UV_EINTR then None else Some e))"

definition uv__close :: "fd_calls \<Rightarrow> int \<Rightarrow> uv_errno option option" where
  "uv__close c fd = (if fd \<le> 2 then None else uv__close_nocheckstdio c fd)"

text \<open>
  The functions that open a descriptor return it or an error, with what they opened and
  closed, in order.
\<close>

datatype fd_event = Opened int | Closed int

text \<open>The end of all of them: a descriptor that could not be set up is closed.\<close>

definition keep_or_close :: "fd_calls \<Rightarrow> int \<Rightarrow> int \<Rightarrow> uv_errno option \<Rightarrow> ((uv_errno + int) \<times> fd_event list) option" where
  "keep_or_close c fd r err =
     (case err of
        Some e \<Rightarrow> map_option (\<lambda>_. (Inl e, [Opened fd, Closed fd])) (uv__close c fd)
      | None \<Rightarrow> Some (Inr r, [Opened fd]))"

definition uv__socket :: "fd_calls \<Rightarrow> ((uv_errno + int) \<times> fd_event list) option" where
  "uv__socket c =
     (let plain =
        (case socket_plain c of
           Inl e \<Rightarrow> Some (Inl e, [])
         | Inr fd \<Rightarrow>
             Option.bind (uv__nonblock c fd True) (\<lambda>err.
               Option.bind (if err = None then uv__cloexec c fd else Some err) (\<lambda>err.
                 keep_or_close c fd fd err)))
      in if has_flags c then
           case socket_flags c of
             Inr fd \<Rightarrow> Some (Inr fd, [Opened fd])
           | Inl e \<Rightarrow> if e \<noteq> UV_EINVAL then Some (Inl e, []) else plain
         else plain)"

definition uv__accept :: "fd_calls \<Rightarrow> int \<Rightarrow> ((uv_errno + int) \<times> fd_event list) option" where
  "uv__accept c sockfd =
     (if sockfd < 0 then None
      else
        Option.bind (retry [UV_EINTR] (if has_flags c then accept_flags c else accept_plain c) 0) (\<lambda>(r, _).
          case r of
            Inl e \<Rightarrow> Some (Inl e, [])
          | Inr peerfd \<Rightarrow>
              if has_flags c then Some (Inr peerfd, [Opened peerfd])
              else
                Option.bind (uv__cloexec c peerfd) (\<lambda>err.
                  Option.bind (if err = None then uv__nonblock c peerfd True else Some err) (\<lambda>err.
                    keep_or_close c peerfd peerfd err))))"

definition uv__open_cloexec :: "fd_calls \<Rightarrow> ((uv_errno + int) \<times> fd_event list) option" where
  "uv__open_cloexec c =
     (if has_flags c then
        Some (open_flags c, case open_flags c of Inl _ \<Rightarrow> [] | Inr fd \<Rightarrow> [Opened fd])
      else
        case open_plain c of
          Inl e \<Rightarrow> Some (Inl e, [])
        | Inr fd \<Rightarrow>
            Option.bind (uv__cloexec c fd) (\<lambda>err.
              keep_or_close c fd fd err))"

definition uv__dup2_cloexec :: "fd_calls \<Rightarrow> int \<Rightarrow> ((uv_errno + int) \<times> fd_event list) option" where
  "uv__dup2_cloexec c newfd =
     (if has_flags c then
        Some (dup_flags c, case dup_flags c of Inl _ \<Rightarrow> [] | Inr _ \<Rightarrow> [Opened newfd])
      else
        case dup_plain c of
          Inl e \<Rightarrow> Some (Inl e, [])
        | Inr r \<Rightarrow>
            Option.bind (uv__cloexec c newfd) (\<lambda>err.
              keep_or_close c newfd r err))"

text \<open>
  \<open>uv__slurp\<close>: the bytes that one \<open>read\<close> into a buffer of \<open>len\<close> bytes gives, with the
  terminating 0. A \<open>close\<close> that fails aborts.
\<close>

definition uv__slurp ::
  "fd_calls \<Rightarrow> (nat \<Rightarrow> u8 list answers) \<Rightarrow> nat \<Rightarrow> ((uv_errno + u8 list) \<times> fd_event list) option" where
  "uv__slurp c read len =
     (if len = 0 then None
      else
        Option.bind (uv__open_cloexec c) (\<lambda>(r, events).
          case r of
            Inl e \<Rightarrow> Some (Inl e, events)
          | Inr fd \<Rightarrow>
              Option.bind (retry [UV_EINTR] (read (len - 1)) 0) (\<lambda>(n, _).
                Option.bind (uv__close_nocheckstdio c fd) (\<lambda>err.
                  if err \<noteq> None then None
                  else case n of
                    Inl e \<Rightarrow> Some (Inl e, events @ [Closed fd])
                  | Inr bytes \<Rightarrow> Some (Inr (bytes @ [0]), events @ [Closed fd])))))"

text \<open>
  \<open>uv_disable_stdio_inheritance\<close>: the descriptors 0 to 16, and then up to the first one that
  is not open. The result is the number of descriptors that were tried.
\<close>

partial_function (option) disable_from :: "fd_calls \<Rightarrow> nat \<Rightarrow> nat option" where
  "disable_from c fd =
     Option.bind (uv__cloexec c (int fd)) (\<lambda>err.
       if err \<noteq> None \<and> fd > 15 then Some (fd + 1) else disable_from c (fd + 1))"

definition uv_disable_stdio_inheritance :: "fd_calls \<Rightarrow> nat option" where
  "uv_disable_stdio_inheritance c = disable_from c 0"

section \<open>Leaks\<close>

lemma close_no_EINTR: "uv__close_nocheckstdio c fd = Some (Some e) \<Longrightarrow> e \<noteq> UV_EINTR"
  by (auto simp: uv__close_nocheckstdio_def split: if_splits close_result.splits)

text \<open>The descriptors that are open after some events.\<close>

fun open_after :: "fd_event list \<Rightarrow> int set" where
  "open_after [] = {}"
| "open_after (e # es) =
     (case e of Opened f \<Rightarrow> (if Closed f \<in> set es then open_after es else insert f (open_after es)) | Closed f \<Rightarrow> open_after es)"

definition fds_of :: "uv_errno + int \<Rightarrow> int set" where
  "fds_of r = (case r of Inl _ \<Rightarrow> {} | Inr fd \<Rightarrow> {fd})"

lemma fds_of [simp]: "fds_of (Inl e) = {}" "fds_of (Inr fd) = {fd}"
  by (simp_all add: fds_of_def)

lemma fds_of_eq: "Inl e = x \<Longrightarrow> fds_of x = {}" "Inr fd = x \<Longrightarrow> fds_of x = {fd}"
  by auto

lemma keep_or_close_events:
  "keep_or_close c fd r err = Some (x, es) \<Longrightarrow> open_after es = (case x of Inl _ \<Rightarrow> {} | Inr _ \<Rightarrow> {fd}) \<and> (case x of Inl _ \<Rightarrow> True | Inr y \<Rightarrow> y = r)"
  by (auto simp: keep_or_close_def split: option.splits)

lemma kept_or_closed: "keep_or_close c fd fd err = Some (r, es) \<Longrightarrow> open_after es = fds_of r"
  using keep_or_close_events [of c fd fd err r es] by (auto simp: fds_of_def split: sum.splits)

lemma socket_events: "uv__socket c = Some (r, es) \<Longrightarrow> open_after es = fds_of r"
proof -
  have "(case socket_plain c of Inl e \<Rightarrow> Some (Inl e, []) | Inr fd \<Rightarrow> Option.bind (uv__nonblock c fd True) (\<lambda>err.
      Option.bind (if err = None then uv__cloexec c fd else Some err) (keep_or_close c fd fd))) = Some (r, es) \<Longrightarrow>
    open_after es = fds_of r"
    using kept_or_closed by (cases "socket_plain c") (auto simp: bind_eq_Some_conv dest!: sym [of "Inl _" "socket_plain c"])
  then show "uv__socket c = Some (r, es) \<Longrightarrow> open_after es = fds_of r"
    unfolding uv__socket_def Let_def by (cases "socket_flags c") (auto split: if_splits dest: fds_of_eq)
qed

lemma accept_events: "uv__accept c fd = Some (r, es) \<Longrightarrow> open_after es = fds_of r"
proof -
  assume a: "uv__accept c fd = Some (r, es)"
  then obtain x m where x: "retry [UV_EINTR] (if has_flags c then accept_flags c else accept_plain c) 0 = Some (x, m)"
    by (auto simp: uv__accept_def bind_eq_Some_conv split: if_splits)
  then show ?thesis using a kept_or_closed
    by (cases x; cases "has_flags c") (auto simp: uv__accept_def bind_eq_Some_conv split: if_splits)
qed

lemma open_events: "uv__open_cloexec c = Some (r, es) \<Longrightarrow> open_after es = fds_of r"
proof -
  assume a: "uv__open_cloexec c = Some (r, es)"
  show ?thesis
  proof (cases "has_flags c")
    case True
    then show ?thesis using a by (cases "open_flags c") (auto simp: uv__open_cloexec_def dest: fds_of_eq)
  next
    case False
    then show ?thesis using a kept_or_closed
      by (cases "open_plain c") (auto simp: uv__open_cloexec_def bind_eq_Some_conv dest: fds_of_eq)
  qed
qed

lemma dup2_events: "uv__dup2_cloexec c fd = Some (r, es) \<Longrightarrow> open_after es = (case r of Inl _ \<Rightarrow> {} | Inr _ \<Rightarrow> {fd})"
  using keep_or_close_events [of c fd] by (auto simp: uv__dup2_cloexec_def bind_eq_Some_conv split: if_splits sum.splits)

lemma open_after_closed: "open_after (es @ [Closed f]) = open_after es - {f}"
  by (induction es) (auto split: fd_event.splits)

lemma slurp_events:
  assumes "uv__slurp c rd n = Some (r, es)"
  shows "open_after es = {}"
proof -
  obtain x ev where x: "uv__open_cloexec c = Some (x, ev)"
    using assms by (auto simp: uv__slurp_def bind_eq_Some_conv split: if_splits)
  note o = open_events [OF x]
  show ?thesis
  proof (cases x)
    case (Inl e)
    then show ?thesis using assms x o by (auto simp: uv__slurp_def split: if_splits)
  next
    case (Inr fd)
    then obtain y m where y: "retry [UV_EINTR] (rd (n - 1)) 0 = Some (y, m)"
      using assms x by (auto simp: uv__slurp_def bind_eq_Some_conv split: if_splits)
    then have "es = ev @ [Closed fd]"
      using assms x Inr by (cases y) (auto simp: uv__slurp_def bind_eq_Some_conv split: if_splits)
    then show ?thesis using o Inr by (simp add: open_after_closed)
  qed
qed

section \<open>Interrupted calls are made again\<close>

text \<open>
  A system that interrupts each call a number of times before it answers, and the same
  system for all the calls of a platform: \<open>k\<close> gives the number for each call and descriptor.
\<close>

datatype restartable = F_getfl | F_setfl | Fionbio | F_setfd | Poll_one | Accept4 | Accept

definition interrupted :: "nat \<Rightarrow> 'a answers \<Rightarrow> 'a answers" where
  "interrupted k sys n = (if n < k then Inl UV_EINTR else sys (n - k))"

definition interrupt :: "(restartable \<Rightarrow> int \<Rightarrow> nat) \<Rightarrow> fd_calls \<Rightarrow> fd_calls" where
  "interrupt k c = c\<lparr>
     get_flags := \<lambda>fd. interrupted (k F_getfl fd) (get_flags c fd),
     set_flags_fd := \<lambda>fd flags. interrupted (k F_setfl fd) (set_flags_fd c fd flags),
     fionbio := \<lambda>fd. interrupted (k Fionbio fd) (fionbio c fd),
     set_cloexec := \<lambda>fd. interrupted (k F_setfd fd) (set_cloexec c fd),
     poll_one := \<lambda>fd. interrupted (k Poll_one fd) (poll_one c fd),
     accept_flags := interrupted (k Accept4 0) (accept_flags c),
     accept_plain := interrupted (k Accept 0) (accept_plain c)\<rparr>"

lemma retry_never:
  assumes "\<And>j. \<not> settled es (sys (n + j))"
  shows "retry es sys n = None"
proof (rule ccontr)
  assume "retry es sys n \<noteq> None"
  then obtain r m where r: "retry es sys n = Some (r, m)" by auto
  then have "settled es (sys (m - 1))" "n < m" using retry_settled [OF r] by auto
  then show False using assms [of "m - 1 - n"] by simp
qed

lemma retry_interrupted:
  assumes "UV_EINTR \<in> set es"
  shows "retry es (interrupted k sys) 0 = map_option (\<lambda>(r, m). (r, m + k)) (retry es sys 0)"
proof (cases "\<exists>j. settled es (sys j)")
  case True
  define j where "j = (LEAST j. settled es (sys j))"
  have j: "settled es (sys j)" unfolding j_def using True by (rule LeastI_ex)
  have least: "\<not> settled es (sys i)" if "i < j" for i
    using that not_less_Least unfolding j_def by blast
  have "retry es sys 0 = Some (sys j, j + 1)"
    using retry_returns [of es sys 0 j] j least by simp
  moreover have "retry es (interrupted k sys) 0 = Some (interrupted k sys (0 + (k + j)), 0 + (k + j) + 1)"
  proof (rule retry_returns)
    show "settled es (interrupted k sys (0 + (k + j)))" using j by (simp add: interrupted_def)
    show "\<not> settled es (interrupted k sys (0 + i))" if "i < k + j" for i
      using that least [of "i - k"] assms by (auto simp: interrupted_def settled_def)
  qed
  ultimately show ?thesis by (simp add: interrupted_def)
next
  case False
  have "\<not> settled es (interrupted k sys (0 + j))" for j
    using False assms by (auto simp: interrupted_def settled_def)
  then have "retry es (interrupted k sys) 0 = None" by (rule retry_never)
  moreover have "retry es sys 0 = None" using False by (intro retry_never) auto
  ultimately show ?thesis by simp
qed

text \<open>What a caller makes of the answer does not depend on the number of calls.\<close>

lemma retry_interrupted_map:
  assumes "UV_EINTR \<in> set es"
  shows "map_option (\<lambda>(r, _). f r) (retry es (interrupted k sys) 0) = map_option (\<lambda>(r, _). f r) (retry es sys 0)"
  by (cases "retry es sys 0") (simp_all add: retry_interrupted [OF assms] case_prod_beta)

lemma retry_interrupted_bind:
  assumes "UV_EINTR \<in> set es"
  shows "Option.bind (retry es (interrupted k sys) 0) (\<lambda>(r, _). f r) = Option.bind (retry es sys 0) (\<lambda>(r, _). f r)"
  by (cases "retry es sys 0") (simp_all add: retry_interrupted [OF assms] case_prod_beta)

lemmas restarts = retry_interrupted_map retry_interrupted_bind

lemma interrupt_fields:
  "get_flags (interrupt k c) fd = interrupted (k F_getfl fd) (get_flags c fd)"
  "set_flags_fd (interrupt k c) fd flags = interrupted (k F_setfl fd) (set_flags_fd c fd flags)"
  "fionbio (interrupt k c) fd = interrupted (k Fionbio fd) (fionbio c fd)"
  "set_cloexec (interrupt k c) fd = interrupted (k F_setfd fd) (set_cloexec c fd)"
  "poll_one (interrupt k c) fd = interrupted (k Poll_one fd) (poll_one c fd)"
  "accept_flags (interrupt k c) = interrupted (k Accept4 0) (accept_flags c)"
  "accept_plain (interrupt k c) = interrupted (k Accept 0) (accept_plain c)"
  "close_fd (interrupt k c) = close_fd c" "socket_flags (interrupt k c) = socket_flags c"
  "socket_plain (interrupt k c) = socket_plain c" "open_flags (interrupt k c) = open_flags c"
  "open_plain (interrupt k c) = open_plain c" "dup_flags (interrupt k c) = dup_flags c"
  "dup_plain (interrupt k c) = dup_plain c" "nonblock_by_ioctl (interrupt k c) = nonblock_by_ioctl c"
  "has_flags (interrupt k c) = has_flags c"
  by (simp_all add: interrupt_def)

lemma check_fd_interrupt: "uv__io_check_fd (interrupt k c) fd = uv__io_check_fd c fd"
  by (simp add: uv__io_check_fd_def interrupt_fields restarts)

lemma cloexec_interrupt: "uv__cloexec (interrupt k c) fd = uv__cloexec c fd"
  by (simp add: uv__cloexec_def interrupt_fields restarts)

lemma nonblock_interrupt: "uv__nonblock (interrupt k c) fd on = uv__nonblock c fd on"
  by (simp only: uv__nonblock_def uv__nonblock_ioctl_def uv__nonblock_fcntl_def interrupt_fields restarts list.set insertI1)

lemma close_nocheck_interrupt: "uv__close_nocheckstdio (interrupt k c) fd = uv__close_nocheckstdio c fd"
  by (simp add: uv__close_nocheckstdio_def interrupt_fields)

lemma close_interrupt: "uv__close (interrupt k c) fd = uv__close c fd"
  by (simp add: uv__close_def close_nocheck_interrupt)

lemma keep_or_close_interrupt: "keep_or_close (interrupt k c) = keep_or_close c"
  by (intro ext) (simp only: keep_or_close_def close_interrupt)

lemmas interrupts = interrupt_fields cloexec_interrupt nonblock_interrupt close_nocheck_interrupt
  close_interrupt keep_or_close_interrupt

lemma socket_interrupt: "uv__socket (interrupt k c) = uv__socket c"
  by (simp only: uv__socket_def interrupts)

lemma accept_interrupt: "uv__accept (interrupt k c) fd = uv__accept c fd"
  by (cases "has_flags c") (simp_all only: uv__accept_def interrupts if_True if_False restarts list.set insertI1)

lemma open_interrupt: "uv__open_cloexec (interrupt k c) = uv__open_cloexec c"
  by (simp only: uv__open_cloexec_def interrupts)

lemma dup2_interrupt: "uv__dup2_cloexec (interrupt k c) fd = uv__dup2_cloexec c fd"
  by (simp only: uv__dup2_cloexec_def interrupts)

lemma slurp_interrupt: "uv__slurp (interrupt k c) (\<lambda>n. interrupted m (rd n)) len = uv__slurp c rd len"
  by (simp only: uv__slurp_def open_interrupt close_nocheck_interrupt restarts list.set insertI1)

section \<open>The mode of the descriptors\<close>

text \<open>
  How a function makes its descriptor close on \<open>exec\<close> and, for a socket, not block: with the
  flags of the call that created it, or by setting both.
\<close>

lemma socket_mode:
  assumes "uv__socket c = Some (Inr f, es)"
  shows "has_flags c \<and> socket_flags c = Inr f \<or>
    socket_plain c = Inr f \<and> uv__nonblock c f True = Some None \<and> uv__cloexec c f = Some None"
proof -
  have p: "f = g \<and> uv__nonblock c g True = Some None \<and> uv__cloexec c g = Some None"
    if "Option.bind (uv__nonblock c g True) (\<lambda>err.
      Option.bind (if err = None then uv__cloexec c g else Some err) (keep_or_close c g g)) = Some (Inr f, es)" for g
    using that by (auto simp: bind_eq_Some_conv keep_or_close_def split: if_splits option.splits)
  show ?thesis
    using assms p unfolding uv__socket_def Let_def
    by (cases "has_flags c"; cases "socket_flags c"; cases "socket_plain c") (auto split: if_splits)
qed

lemma accept_mode:
  assumes "uv__accept c fd = Some (Inr f, es)"
  shows "has_flags c \<or> uv__cloexec c f = Some None \<and> uv__nonblock c f True = Some None"
proof (cases "has_flags c")
  case False
  then obtain x m where x: "retry [UV_EINTR] (accept_plain c) 0 = Some (x, m)"
    using assms by (auto simp: uv__accept_def bind_eq_Some_conv split: if_splits)
  then obtain g where "x = Inr g" using False assms by (cases x) (auto simp: uv__accept_def split: if_splits)
  then show ?thesis using False assms x
    by (auto simp: uv__accept_def bind_eq_Some_conv keep_or_close_def split: if_splits option.splits)
qed simp

lemma open_mode: "uv__open_cloexec c = Some (Inr f, es) \<Longrightarrow> has_flags c \<or> uv__cloexec c f = Some None"
  by (auto simp: uv__open_cloexec_def bind_eq_Some_conv keep_or_close_def split: if_splits sum.splits option.splits)

lemma dup2_mode: "uv__dup2_cloexec c fd = Some (Inr f, es) \<Longrightarrow> has_flags c \<or> uv__cloexec c fd = Some None"
  by (auto simp: uv__dup2_cloexec_def bind_eq_Some_conv keep_or_close_def split: if_splits sum.splits option.splits)

section \<open>Properties\<close>


definition plain_system :: fd_calls where
  "plain_system = \<lparr>get_flags = (\<lambda>_ _. Inr 0), set_flags_fd = (\<lambda>_ _ _. Inr ()), fionbio = (\<lambda>_ _. Inr ()),
     set_cloexec = (\<lambda>_ n. if n = 0 then Inl UV_EINTR else Inl UV_EBADF), close_fd = (\<lambda>_. Close_done),
     poll_one = (\<lambda>_ _. Inr 0), socket_flags = Inl UV_EINVAL, socket_plain = Inr 7, accept_flags = (\<lambda>_. Inr 8),
     accept_plain = (\<lambda>_. Inr 8), open_flags = Inr 9, open_plain = Inr 9, dup_flags = Inr 9, dup_plain = Inr 9,
     nonblock_by_ioctl = False, has_flags = True\<rparr>"


text \<open>
  C27: interruptions are not visible. However often the system interrupts each of the calls
  that set a descriptor's mode, test it, accept a connection or read a file, every function
  does what it does on the system that never interrupts them: it makes the call again, and
  returns the same result with the same descriptors opened and closed.
\<close>

theorem interruptions_hidden:
  "uv__cloexec (interrupt k c) fd = uv__cloexec c fd \<and>
   uv__nonblock (interrupt k c) fd on = uv__nonblock c fd on \<and>
   uv__io_check_fd (interrupt k c) fd = uv__io_check_fd c fd \<and>
   uv__close (interrupt k c) fd = uv__close c fd \<and>
   uv__socket (interrupt k c) = uv__socket c \<and>
   uv__accept (interrupt k c) fd = uv__accept c fd \<and>
   uv__open_cloexec (interrupt k c) = uv__open_cloexec c \<and>
   uv__dup2_cloexec (interrupt k c) fd = uv__dup2_cloexec c fd \<and>
   uv__slurp (interrupt k c) (\<lambda>n. interrupted m (rd n)) len = uv__slurp c rd len \<and>
   uv__close_nocheckstdio c fd \<noteq> Some (Some UV_EINTR)"
  by (simp only: cloexec_interrupt nonblock_interrupt check_fd_interrupt close_interrupt socket_interrupt accept_interrupt
    open_interrupt dup2_interrupt slurp_interrupt) (auto dest: close_no_EINTR)

end
