(* ===== verification/Poll.thy ===== *)
theory Poll
  imports Polling Syscalls
begin

unbundle bit_operations_syntax

text \<open>
  \<^verbatim>\<open>unix/poll.c\<close>: handles that report events on a descriptor of the user. The I/O watcher
  embedded in a handle has the name of the handle. The callback gets a status and the events:
  a client of poll handles is a client for each status and set of events.
\<close>

section \<open>The operations\<close>

definition UV_READABLE :: u32 where "UV_READABLE = 1"
definition UV_WRITABLE :: u32 where "UV_WRITABLE = 2"
definition UV_DISCONNECT :: u32 where "UV_DISCONNECT = 4"
definition UV_PRIORITIZED :: u32 where "UV_PRIORITIZED = 8"

type_synonym poll_client = "uv_errno option \<Rightarrow> u32 \<Rightarrow> client"

definition reported :: "u32 \<Rightarrow> u32" where
  "reported ev =
     (let pev = (if ev AND POLLIN \<noteq> 0 then UV_READABLE else 0);
          pev = (if ev AND UV__POLLPRI \<noteq> 0 then pev OR UV_PRIORITIZED else pev);
          pev = (if ev AND POLLOUT \<noteq> 0 then pev OR UV_WRITABLE else pev)
      in if ev AND UV__POLLRDHUP \<noteq> 0 then pev OR UV_DISCONNECT else pev)"

definition requested :: "u32 \<Rightarrow> u32" where
  "requested pev =
     (let ev = (if pev AND UV_READABLE \<noteq> 0 then POLLIN else 0);
          ev = (if pev AND UV_PRIORITIZED \<noteq> 0 then ev OR UV__POLLPRI else ev);
          ev = (if pev AND UV_WRITABLE \<noteq> 0 then ev OR POLLOUT else ev)
      in if pev AND UV_DISCONNECT \<noteq> 0 then ev OR UV__POLLRDHUP else ev)"

definition uv__poll_io :: "poll_client \<Rightarrow> ptr \<Rightarrow> u32 \<Rightarrow> uv_loop \<Rightarrow> uv_loop option" where
  "uv__poll_io client h ev s =
     (if ev AND POLLERR \<noteq> 0 \<and> ev AND UV__POLLPRI = 0 then
        Option.bind (uv__io_stop h all_events s) (\<lambda>s.
          let s = uv__handle_stop h s
          in call (client (Some UV_EBADF) 0) (poll_cb s h) h s)
      else call (client None (reported ev)) (poll_cb s h) h s)"

definition uv_poll_init :: "fd_calls \<Rightarrow> ptr \<Rightarrow> int \<Rightarrow> uv_loop \<Rightarrow> (uv_errno option \<times> uv_loop) option" where
  "uv_poll_init c h fildes s =
     (if uv__fd_exists fildes s then Some (Some UV_EEXIST, s)
      else
        Option.bind (uv__io_check_fd c fildes) (\<lambda>err.
          if err \<noteq> None then Some (err, s)
          else
            Option.bind (uv__nonblock c fildes True) (\<lambda>err.
              Option.bind (if nonblock_by_ioctl c \<and> err = Some UV_ENOTTY then uv__nonblock_fcntl c fildes True
                           else Some err) (\<lambda>err.
                if err \<noteq> None then Some (err, s)
                else
                  let s = uv__handle_init UV_POLL h s
                  in map_option (\<lambda>s. (None, s\<lparr>poll_cb := (poll_cb s)(h := NULL)\<rparr>))
                       (uv__io_init h Uv__poll_io fildes s)))))"

definition uv__poll_stop :: "ptr \<Rightarrow> uv_loop \<Rightarrow> uv_loop option" where
  "uv__poll_stop h s =
     Option.bind (uv__io_stop h all_events s) (\<lambda>s.
       let s = uv__handle_stop h s
       in uv__platform_invalidate_fd (fd (io s h)) s)"

definition uv_poll_stop :: "ptr \<Rightarrow> uv_loop \<Rightarrow> uv_loop option" where
  "uv_poll_stop h s = (if uv__is_closing h s then None else uv__poll_stop h s)"

definition uv_poll_start :: "ptr \<Rightarrow> u32 \<Rightarrow> ptr \<Rightarrow> uv_loop \<Rightarrow> (uv_errno option \<times> uv_loop) option" where
  "uv_poll_start h pev cb s =
     (if pev AND NOT (UV_READABLE OR UV_WRITABLE OR UV_DISCONNECT OR UV_PRIORITIZED) \<noteq> 0 \<or> uv__is_closing h s then None
      else if uv__fd_exists (fd (io s h)) s \<and> watcher_at (fd (io s h)) s \<noteq> h then Some (Some UV_EEXIST, s)
      else
        Option.bind (uv__poll_stop h s) (\<lambda>s.
          if pev = 0 then Some (None, s)
          else
            map_option (\<lambda>s.
              let s = uv__handle_start h s
              in (None, s\<lparr>poll_cb := (poll_cb s)(h := cb)\<rparr>))
              (uv__io_start h (requested pev) s)))"

definition uv__poll_close :: "ptr \<Rightarrow> uv_loop \<Rightarrow> uv_loop option" where
  "uv__poll_close h s = uv__poll_stop h s"

section \<open>The bits\<close>

lemmas poll_bits = UV_READABLE_def UV_WRITABLE_def UV_DISCONNECT_def UV_PRIORITIZED_def POLLIN_def UV__POLLPRI_def
  POLLOUT_def UV__POLLRDHUP_def POLLERR_def POLLHUP_def

lemma power_of_event:
  "POLLIN = 2 ^ 0" "UV__POLLPRI = 2 ^ 1" "POLLOUT = 2 ^ 2" "POLLERR = 2 ^ 3" "POLLHUP = 2 ^ 4" "UV__POLLRDHUP = 2 ^ 13"
  "UV_READABLE = 2 ^ 0" "UV_WRITABLE = 2 ^ 1" "UV_DISCONNECT = 2 ^ 2" "UV_PRIORITIZED = 2 ^ 3"
  by (simp_all add: poll_bits)

lemma event_test:
  "w AND POLLIN = 0 \<longleftrightarrow> \<not> bit w 0" "w AND UV__POLLPRI = 0 \<longleftrightarrow> \<not> bit w 1" "w AND POLLOUT = 0 \<longleftrightarrow> \<not> bit w 2"
  "w AND POLLERR = 0 \<longleftrightarrow> \<not> bit w 3" "w AND POLLHUP = 0 \<longleftrightarrow> \<not> bit w 4" "w AND UV__POLLRDHUP = 0 \<longleftrightarrow> \<not> bit w 13"
  "w AND UV_READABLE = 0 \<longleftrightarrow> \<not> bit w 0" "w AND UV_WRITABLE = 0 \<longleftrightarrow> \<not> bit w 1"
  "w AND UV_DISCONNECT = 0 \<longleftrightarrow> \<not> bit w 2" "w AND UV_PRIORITIZED = 0 \<longleftrightarrow> \<not> bit w 3"
  by (simp_all only: power_of_event and_power_u32)

lemma bit_event:
  "bit POLLIN n \<longleftrightarrow> n = 0" "bit UV__POLLPRI n \<longleftrightarrow> n = 1" "bit POLLOUT n \<longleftrightarrow> n = 2" "bit POLLERR n \<longleftrightarrow> n = 3"
  "bit POLLHUP n \<longleftrightarrow> n = 4" "bit UV__POLLRDHUP n \<longleftrightarrow> n = 13" "bit UV_READABLE n \<longleftrightarrow> n = 0" "bit UV_WRITABLE n \<longleftrightarrow> n = 1"
  "bit UV_DISCONNECT n \<longleftrightarrow> n = 2" "bit UV_PRIORITIZED n \<longleftrightarrow> n = 3"
  by (auto simp only: power_of_event bit_power_u32)

lemma bit_reported: "bit (reported ev) n \<longleftrightarrow>
    n = 0 \<and> bit ev 0 \<or> n = 3 \<and> bit ev 1 \<or> n = 1 \<and> bit ev 2 \<or> n = 2 \<and> bit ev 13"
  by (auto simp: reported_def Let_def event_test bit_or_iff bit_event)

lemma bit_requested: "bit (requested pev) n \<longleftrightarrow>
    n = 0 \<and> bit pev 0 \<or> n = 1 \<and> bit pev 3 \<or> n = 2 \<and> bit pev 1 \<or> n = 13 \<and> bit pev 2"
  by (auto simp: requested_def Let_def event_test bit_or_iff bit_event)

definition user_events :: "u32 \<Rightarrow> bool" where
  "user_events pev \<longleftrightarrow> pev AND NOT (UV_READABLE OR UV_WRITABLE OR UV_DISCONNECT OR UV_PRIORITIZED) = 0"

lemma user_events_bits: "user_events pev \<longleftrightarrow> (\<forall>n. bit pev n \<longrightarrow> n \<le> 3)"
proof
  assume "user_events pev"
  then have "\<not> bit (pev AND NOT (UV_READABLE OR UV_WRITABLE OR UV_DISCONNECT OR UV_PRIORITIZED)) n" for n
    by (simp add: user_events_def)
  then show "\<forall>n. bit pev n \<longrightarrow> n \<le> 3"
    using bit_imp_le_length [of pev] by (fastforce simp: bit_and_iff bit_not_iff bit_or_iff bit_event)
next
  assume "\<forall>n. bit pev n \<longrightarrow> n \<le> 3"
  then have "n \<in> {0, 1, 2, 3}" if "bit pev n" for n using that by force
  then show "user_events pev" unfolding user_events_def
    by (intro bit_eqI) (auto simp: bit_and_iff bit_not_iff bit_or_iff bit_event)
qed

lemma requested_valid: "user_events pev \<Longrightarrow> pev \<noteq> 0 \<Longrightarrow> events_valid (requested pev)"
proof -
  assume u: "user_events pev" and z: "pev \<noteq> 0"
  obtain n where n: "bit pev n" using z by (metis bit_eqI bit_0_eq bot_apply bot_bool_def)
  then have "n \<in> {0, 1, 2, 3}" using u by (force simp: user_events_bits)
  then have "\<exists>m. bit (requested pev) m" using n by (auto simp: bit_requested)
  then have "requested pev \<noteq> 0" by auto
  moreover have "requested pev AND NOT all_events = 0"
    by (rule bit_eqI) (auto simp: bit_and_iff bit_not_iff all_events_def bit_or_iff bit_event bit_requested)
  ultimately show ?thesis by (simp add: events_valid_def)
qed

text \<open>Events asked for in the terms of the user come back in the same terms.\<close>

lemma reported_requested: "user_events pev \<Longrightarrow> reported (requested pev) = pev"
proof (rule bit_eqI)
  fix n assume "user_events pev"
  then have "bit pev n \<Longrightarrow> n \<in> {0, 1, 2, 3}" by (force simp: user_events_bits)
  then show "bit (reported (requested pev)) n = bit pev n" by (auto simp: bit_reported bit_requested)
qed

section \<open>The invariant\<close>

text \<open>
  A poll handle is active just when its watcher wants events; besides poll handles only the
  watcher of the async handles wants any.
\<close>

definition polls_ok :: "uv_loop \<Rightarrow> bool" where
  "polls_ok s \<longleftrightarrow>
     (\<forall>h \<in> set (all_handles s). htype (handle s h) = UV_POLL \<longrightarrow>
        io_cb (io s h) = Uv__poll_io \<and> 0 \<le> fd (io s h) \<and> fd (io s h) \<le> 2147483645 \<and>
        (active s h \<longleftrightarrow> pevents (io s h) \<noteq> 0) \<and> (active s h \<longrightarrow> poll_cb s h \<noteq> NULL)) \<and>
     (\<forall>w. pevents (io s w) \<noteq> 0 \<longrightarrow>
        w = async_io_watcher s \<and> io_cb (io s w) = Uv__async_io \<or> w \<in> set (all_handles s) \<and> htype (handle s w) = UV_POLL) \<and>
     async_io_watcher s \<notin> set (all_handles s) \<and> signal_io_watcher s \<notin> set (all_handles s) \<and>
     signal_io_watcher s \<noteq> async_io_watcher s"

abbreviation a_poll :: "uv_loop \<Rightarrow> ptr \<Rightarrow> bool" where
  "a_poll s h \<equiv> h \<in> set (all_handles s) \<and> htype (handle s h) = UV_POLL"

text \<open>What an operation on the poll handle \<open>h\<close> leaves alone.\<close>

definition erase_polls :: "uv_loop \<Rightarrow> uv_loop" where
  "erase_polls s = (let z = new_loop (\<lambda>_. 0) in s\<lparr>active_handles := 0, handle := handle z, watchers := watchers z, nwatchers := nwatchers z, nfds := nfds z, watcher_queue := watcher_queue z, io := io z, poll_fds := poll_fds z, poll_fds_used := poll_fds_used z, poll_cb := poll_cb z\<rparr>)"

lemma erase_pollsD:
  assumes "erase_polls s' = erase_polls s"
  shows "handle_queue s' = handle_queue s" "active_reqs s' = active_reqs s" 
    "stop_flag s' = stop_flag s" "loop_flags s' = loop_flags s" 
    "pending_queue s' = pending_queue s" "closing_handles s' = closing_handles s" 
    "watcher_handles s' = watcher_handles s" "async_handles s' = async_handles s" 
    "async_io_watcher s' = async_io_watcher s" "timer_heap s' = timer_heap s" 
    "timer_counter s' = timer_counter s" "time s' = time s" 
    "signal_io_watcher s' = signal_io_watcher s" "signal_tree s' = signal_tree s" 
    "signal_pipe s' = signal_pipe s" "ready_queue s' = ready_queue s" "run_queue s' = run_queue s" 
    "pending_run s' = pending_run s" "async_run s' = async_run s" "walk_queue s' = walk_queue s" 
    "timer s' = timer s" "watcher_cb s' = watcher_cb s" "async s' = async s" "signal s' = signal s" 
    "lfields_flags s' = lfields_flags s" "loop_count s' = loop_count s" 
    "events_count s' = events_count s" "events_waiting s' = events_waiting s" 
    "provider_entry_time s' = provider_entry_time s" "provider_idle_time s' = provider_idle_time s" 
    "current_timeout s' = current_timeout s" "poll_fds_iterating s' = poll_fds_iterating s" 
    "hrtime s' = hrtime s" "readings s' = readings s" "polls s' = polls s" "called s' = called s" 
    "all_handles s' = all_handles s"
  using assms by (cases s; cases s'; simp add: erase_polls_def all_handles_def Let_def)+

lemma erase_polls_macros [simp]:
  "erase_polls (uv__handle_start h s) = erase_polls s"
  "erase_polls (uv__handle_stop h s) = erase_polls s"
  "erase_polls (uv__handle_ref h s) = erase_polls s"
  "erase_polls (uv__handle_unref h s) = erase_polls s"
  by (simp_all add: macro_defs erase_polls_def)

lemma erase_polls_update [simp]:
  "erase_polls (active_handles_update g1 s) = erase_polls s"
  "erase_polls (handle_update g2 s) = erase_polls s"
  "erase_polls (watchers_update g3 s) = erase_polls s"
  "erase_polls (nwatchers_update g4 s) = erase_polls s"
  "erase_polls (nfds_update g5 s) = erase_polls s"
  "erase_polls (watcher_queue_update g6 s) = erase_polls s"
  "erase_polls (io_update g7 s) = erase_polls s"
  "erase_polls (poll_fds_update g8 s) = erase_polls s"
  "erase_polls (poll_fds_used_update g9 s) = erase_polls s"
  "erase_polls (poll_cb_update g10 s) = erase_polls s"
  by (cases s; simp add: erase_polls_def Let_def)+

lemma erase_polls_io:
  "erase_io s' = erase_io s \<Longrightarrow> pending_queue s' = pending_queue s \<Longrightarrow> pending_run s' = pending_run s \<Longrightarrow>
   erase_polls s' = erase_polls s"
  by (cases s; cases s'; simp add: erase_polls_def erase_io_def Let_def)

definition poll_handle_frame :: "ptr \<Rightarrow> uv_loop \<Rightarrow> uv_loop \<Rightarrow> bool" where
  "poll_handle_frame h s s' \<longleftrightarrow> erase_polls s' = erase_polls s \<and>
     (\<forall>g. g \<noteq> h \<longrightarrow> handle s' g = handle s g) \<and> htype (handle s' h) = htype (handle s h) \<and>
     close_cb (handle s' h) = close_cb (handle s h) \<and>
     (\<forall>n. n \<noteq> 2 \<longrightarrow> bit (flags (handle s' h)) n = bit (flags (handle s h)) n) \<and>
     (\<forall>v. fd (io s' v) = fd (io s v)) \<and>
     (poll_fds_iterating s \<longrightarrow> poll_fds_used s' = poll_fds_used s)"

lemma poll_handle_frame_refl: "poll_handle_frame h s s"
  by (simp add: poll_handle_frame_def)

lemma poll_handle_frame_trans:
  "poll_handle_frame h s s' \<Longrightarrow> poll_handle_frame h s' s'' \<Longrightarrow> poll_handle_frame h s s''"
proof -
  assume a: "poll_handle_frame h s s'" "poll_handle_frame h s' s''"
  then have "poll_fds_iterating s' = poll_fds_iterating s" using erase_pollsD [of s' s] by (simp add: poll_handle_frame_def)
  then show ?thesis using a by (auto simp: poll_handle_frame_def)
qed

section \<open>The operations keep the invariant\<close>

lemma polling_ok_macros:
  assumes "polling_ok s"
  shows "polling_ok (uv__handle_start h s)" "polling_ok (uv__handle_stop h s)"
proof -
  have "poll_fds_used s \<le> length (poll_fds s)" using assms by (simp add: polling_ok_def entries_ok_def)
  then show "polling_ok (uv__handle_start h s)" "polling_ok (uv__handle_stop h s)"
    by (auto intro!: polling_ok_cong [OF assms] simp: interest_def)
qed

lemma io_stop_used: "uv__io_stop w ev s = Some s' \<Longrightarrow> poll_fds_used s' = poll_fds_used s"
  by (auto simp: uv__io_stop_def Let_def split: if_splits)

lemma io_start_used: "uv__io_start w ev s = Some s' \<Longrightarrow> poll_fds_used s' = poll_fds_used s"
  by (auto simp: uv__io_start_def Let_def split: if_splits)

lemma watcher_event_bits: "polling_ok s \<Longrightarrow> pevents (io s w) AND NOT all_events = 0"
  by (simp add: polling_ok_def io_ok_def)

lemma polling_registered: "polling_ok s \<Longrightarrow> pevents (io s w) \<noteq> 0 \<Longrightarrow> registered s w"
  by (simp add: polling_ok_def io_ok_def)

lemma io_stop_watchers:
  "uv__io_stop w ev s = Some s' \<Longrightarrow> watchers s' ! i = watchers s ! i \<or> watchers s' ! i = NULL"
  by (cases "i = nat (fd (io s w))"; cases "i < length (watchers s)")
    (auto simp: uv__io_stop_def Let_def list_update_beyond split: if_splits)

lemma polls_ok_step:
  assumes "polls_ok s" "a_poll s h" "all_handles s' = all_handles s"
    and "async_io_watcher s' = async_io_watcher s" "signal_io_watcher s' = signal_io_watcher s"
    and "\<And>g. htype (handle s' g) = htype (handle s g)" "\<And>g. fd (io s' g) = fd (io s g)" "\<And>g. io_cb (io s' g) = io_cb (io s g)"
    and "\<And>g. g \<noteq> h \<Longrightarrow> active s' g = active s g" "\<And>g. g \<noteq> h \<Longrightarrow> pevents (io s' g) = pevents (io s g)"
    and "\<And>g. g \<noteq> h \<Longrightarrow> poll_cb s' g = poll_cb s g"
    and "active s' h \<longleftrightarrow> pevents (io s' h) \<noteq> 0" "active s' h \<Longrightarrow> poll_cb s' h \<noteq> NULL"
  shows "polls_ok s'"
  unfolding polls_ok_def
proof (intro conjI ballI allI impI)
  fix g assume "g \<in> set (all_handles s')" "htype (handle s' g) = UV_POLL"
  then have g: "a_poll s g" using assms(3,6) by simp
  then have "io_cb (io s g) = Uv__poll_io \<and> 0 \<le> fd (io s g) \<and> fd (io s g) \<le> 2147483645 \<and>
      (active s g \<longleftrightarrow> pevents (io s g) \<noteq> 0) \<and> (active s g \<longrightarrow> poll_cb s g \<noteq> NULL)"
    using assms(1) by (simp add: polls_ok_def)
  then show "io_cb (io s' g) = Uv__poll_io" "0 \<le> fd (io s' g)" "fd (io s' g) \<le> 2147483645"
    "active s' g = (pevents (io s' g) \<noteq> 0)" "active s' g \<Longrightarrow> poll_cb s' g \<noteq> NULL"
    using assms(7-13) by (cases "g = h"; simp)+
next
  fix w assume w: "pevents (io s' w) \<noteq> 0"
  have "pevents (io s w) \<noteq> 0 \<Longrightarrow> w = async_io_watcher s \<and> io_cb (io s w) = Uv__async_io \<or> a_poll s w"
    using assms(1) by (simp add: polls_ok_def)
  then show "w = async_io_watcher s' \<and> io_cb (io s' w) = Uv__async_io \<or> w \<in> set (all_handles s') \<and> htype (handle s' w) = UV_POLL"
    using assms(2-6,8,10) w by (cases "w = h") auto
next
  show "async_io_watcher s' \<notin> set (all_handles s')" "signal_io_watcher s' \<notin> set (all_handles s')"
    "signal_io_watcher s' \<noteq> async_io_watcher s'" using assms(1,3-5) by (simp_all add: polls_ok_def)
qed

text \<open>Stopping the watcher and the handle, which an error event does as well.\<close>

lemma poll_unwatch_ok:
  assumes "counts_ok s" "polling_ok s" "polls_ok s" "a_poll s h"
  shows "\<exists>s1. uv__io_stop h all_events s = Some s1 \<and> counts_ok (uv__handle_stop h s1) \<and> polling_ok (uv__handle_stop h s1) \<and>
    polls_ok (uv__handle_stop h s1) \<and> poll_handle_frame h s (uv__handle_stop h s1) \<and> \<not> active (uv__handle_stop h s1) h \<and>
    poll_cb s1 = poll_cb s \<and> (\<forall>v. v \<noteq> h \<longrightarrow> io s1 v = io s v) \<and> pevents (io s1 h) = 0 \<and> fd (io s1 h) = fd (io s h) \<and>
    nwatchers s1 = nwatchers s \<and> pending_queue s1 = pending_queue s \<and> pending_run s1 = pending_run s"
proof -
  have h: "h \<noteq> NULL" "-1 \<le> fd (io s h)" using assms(1,3,4) by (auto simp: counts_ok_def polls_ok_def)
  from io_stop_ok [OF assms(2) all_events_valid h] obtain s1 where
    s1: "uv__io_stop h all_events s = Some s1" "polling_ok s1" "erase_io s1 = erase_io s"
      "\<forall>v. v \<noteq> h \<longrightarrow> io s1 v = io s v" "fd (io s1 h) = fd (io s h)" "io_cb (io s1 h) = io_cb (io s h)"
      "pevents (io s1 h) = pevents (io s h) AND NOT all_events"
      "pending_run s1 = pending_run s" "pending_queue s1 = pending_queue s" "nwatchers s1 = nwatchers s" by blast
  note e1 = erase_ioD [OF s1(3)]
  have z: "pevents (io s1 h) = 0" using s1(7) watcher_event_bits [OF assms(2)] by simp
  let ?s = "uv__handle_stop h s1"
  have c: "counts_ok ?s"
    by (rule counts_ok_stop [OF counts_ok_cong [OF assms(1)]]) (use e1 assms(4) in simp_all)
  have io1: "fd (io ?s v) = fd (io s v)" "io_cb (io ?s v) = io_cb (io s v)" "v \<noteq> h \<Longrightarrow> pevents (io ?s v) = pevents (io s v)"
    for v using s1(4-6) by (cases "v = h"; simp)+
  have f: "handle ?s = (handle s)(h := (handle s h)\<lparr>flags := flags (handle s h) AND NOT UV_HANDLE_ACTIVE\<rparr>)"
    "all_handles ?s = all_handles s" "poll_cb ?s = poll_cb s" "async_io_watcher ?s = async_io_watcher s"
    "signal_io_watcher ?s = signal_io_watcher s" using e1 by (simp_all add: macro_handles)
  have na: "\<not> active ?s h" by (simp add: f flag_update)
  have po: "polls_ok ?s"
    by (rule polls_ok_step [OF assms(3,4) f(2,4,5) _ io1(1,2) _ io1(3)]) (use na z f in auto)
  have fr: "poll_handle_frame h s ?s"
    using erase_polls_io [OF s1(3,9,8)] f(1) io1(1) io_stop_used [OF s1(1)]
    unfolding poll_handle_frame_def by (simp add: flag_update)
  show ?thesis using s1(1,4,5,8-10) z c polling_ok_macros(2) [OF s1(2)] po fr na e1 by blast
qed

lemma poll_stop_ok:
  assumes "counts_ok s" "polling_ok s" "polls_ok s" "a_poll s h" "fd_free s h"
  shows "\<exists>s'. uv__poll_stop h s = Some s' \<and> counts_ok s' \<and> polling_ok s' \<and> polls_ok s' \<and> poll_handle_frame h s s' \<and>
    \<not> active s' h \<and> poll_cb s' = poll_cb s \<and> fd (io s' h) = fd (io s h) \<and> fd_free s' h"
proof -
  have h: "0 \<le> fd (io s h)" using assms(5) by (simp add: fd_free_def)
  from poll_unwatch_ok [OF assms(1-4)] obtain s1 where
    s1: "uv__io_stop h all_events s = Some s1" "counts_ok (uv__handle_stop h s1)" "polling_ok (uv__handle_stop h s1)"
      "polls_ok (uv__handle_stop h s1)" "poll_handle_frame h s (uv__handle_stop h s1)" "\<not> active (uv__handle_stop h s1) h"
      "poll_cb s1 = poll_cb s" "\<forall>v. v \<noteq> h \<longrightarrow> io s1 v = io s v" "pevents (io s1 h) = 0" "fd (io s1 h) = fd (io s h)"
      "nwatchers s1 = nwatchers s" by blast
  let ?s = "uv__handle_stop h s1"
  have other: "fd (io ?s v) \<noteq> fd (io s h)" if "pevents (io ?s v) \<noteq> 0" for v
  proof
    assume eq: "fd (io ?s v) = fd (io s h)"
    have v: "v \<noteq> h" using that s1(9) by auto
    then have "registered s v" using polling_registered [OF assms(2), of v] that s1(8) by simp
    moreover have "fd (io s v) = fd (io s h)" using eq v s1(8) by simp
    ultimately show False using assms(5) v by (auto simp: registered_def fd_free_def)
  qed
  from invalidate_ok [OF s1(3) h other] obtain s2 where
    s2: "uv__platform_invalidate_fd (fd (io s h)) ?s = Some s2" "polling_ok s2" "erase_io s2 = erase_io ?s" "io s2 = io ?s"
      "watchers s2 = watchers ?s" "nwatchers s2 = nwatchers ?s" "pending_queue s2 = pending_queue ?s" "pending_run s2 = pending_run ?s"
      "poll_fds_iterating ?s \<longrightarrow> poll_fds_used s2 = poll_fds_used ?s" by blast
  note e2 = erase_ioD [OF s2(3)]
  have "uv__poll_stop h s = Some s2" using s1(1,10) s2(1) by (simp add: uv__poll_stop_def Let_def)
  moreover have "counts_ok s2" by (rule counts_ok_cong [OF s1(2)]) (use e2 in simp_all)
  moreover have "poll_handle_frame h ?s s2"
    using erase_polls_io [OF s2(3,7,8)] e2 s2(4,9) unfolding poll_handle_frame_def by simp
  then have "poll_handle_frame h s s2" using poll_handle_frame_trans [OF s1(5)] by blast
  moreover have "polls_ok s2" using s1(4) unfolding polls_ok_def e2 s2(4) .
  moreover have "watchers s2 ! i = watchers s ! i \<or> watchers s2 ! i = NULL" for i
    using io_stop_watchers [OF s1(1), of i] s2(5) by simp
  from this [of "nat (fd (io s h))"] have "fd_free s2 h" using assms(5) s2(4,6) s1(10,11) by (auto simp: fd_free_def)
  ultimately show ?thesis using s1(6,7,10) s2(2,4) e2 by auto
qed

lemma unat_fd: "0 \<le> f \<Longrightarrow> f \<le> 2147483645 \<Longrightarrow> unat (word_of_int f :: u32) = nat f"
proof -
  assume f: "0 \<le> f" "f \<le> 2147483645"
  then have "unat (of_nat (nat f) :: u32) = nat f" by (intro unat_of_nat_u32) simp
  then show ?thesis using f(1) by simp
qed

text \<open>Starting: every branch, and the invariants.\<close>

lemma poll_start_ok:
  assumes "counts_ok s" "polling_ok s" "polls_ok s" "a_poll s h" "\<not> uv__is_closing h s" "user_events pev"
    and "pev \<noteq> 0 \<longrightarrow> cb \<noteq> NULL"
  shows "\<exists>r s'. uv_poll_start h pev cb s = Some (r, s') \<and> counts_ok s' \<and> polling_ok s' \<and> polls_ok s' \<and>
    poll_handle_frame h s s' \<and> (r = None \<longleftrightarrow> fd_free s h) \<and> (r \<noteq> None \<longrightarrow> r = Some UV_EEXIST \<and> s' = s) \<and>
    (r = None \<longrightarrow> (active s' h \<longleftrightarrow> pev \<noteq> 0) \<and> pevents (io s' h) = requested pev)"
proof -
  have h: "h \<noteq> NULL" "0 \<le> fd (io s h)" "fd (io s h) \<le> 2147483645"
    using assms(1,3,4) by (auto simp: counts_ok_def polls_ok_def)
  have "unat (word_of_int (fd (io s h)) :: u32) = nat (fd (io s h))"
    using h(2,3) by (rule unat_fd)
  then have busy: "uv__fd_exists (fd (io s h)) s \<and> watcher_at (fd (io s h)) s \<noteq> h \<longleftrightarrow> \<not> fd_free s h"
    using h by (auto simp: uv__fd_exists_def watcher_at_def fd_free_def word_less_nat_alt)
  show ?thesis
  proof (cases "fd_free s h")
    case False
    then show ?thesis using assms busy poll_handle_frame_refl by (simp add: uv_poll_start_def user_events_def)
  next
    case True
    from poll_stop_ok [OF assms(1-4) True] obtain s1 where
      s1: "uv__poll_stop h s = Some s1" "counts_ok s1" "polling_ok s1" "polls_ok s1" "poll_handle_frame h s s1"
        "\<not> active s1 h" "poll_cb s1 = poll_cb s" "fd (io s1 h) = fd (io s h)" "fd_free s1 h" by blast
    have e1: "all_handles s1 = all_handles s" "htype (handle s1 h) = htype (handle s h)"
      using s1(5) erase_pollsD [of s1 s] by (simp_all add: poll_handle_frame_def)
    then have a1: "a_poll s1 h" using assms(4) by simp
    then have p1: "pevents (io s1 h) = 0" using s1(4,6) by (auto simp: polls_ok_def)
    show ?thesis
    proof (cases "pev = 0")
      case p0: True
      then show ?thesis using assms(5,6) busy True s1 p1
        by (auto simp: uv_poll_start_def user_events_def requested_def poll_bits)
    next
      case False
      from io_start_ok [OF s1(3) requested_valid [OF assms(6) False] s1(9)] obtain s2 where
        s2: "uv__io_start h (requested pev) s1 = Some s2" "polling_ok s2" "erase_io s2 = erase_io s1"
          "io s2 = (io s1)(h := (io s1 h)\<lparr>pevents := pevents (io s1 h) OR requested pev\<rparr>)"
          "pending_run s2 = pending_run s1" "pending_queue s2 = pending_queue s1" by blast
      note e2 = erase_ioD [OF s2(3)]
      let ?s = "(uv__handle_start h s2)\<lparr>poll_cb := (poll_cb s2)(h := cb)\<rparr>"
      have run: "uv_poll_start h pev cb s = Some (None, ?s)"
        using assms(5,6) busy True False s1(1) s2(1) by (simp add: uv_poll_start_def user_events_def Let_def)
      have c: "counts_ok ?s"
        by (rule counts_ok_cong [OF counts_ok_start [OF counts_ok_cong [OF s1(2), of s2], of h]]) (use e1 e2 assms(4) in simp_all)
      have "poll_fds_used s2 \<le> length (poll_fds s2)" using s2(2) by (simp add: polling_ok_def entries_ok_def)
      then have p: "polling_ok ?s"
        by (intro polling_ok_cong [OF polling_ok_macros(1) [OF s2(2)]]) (simp_all add: interest_def)
      have pe: "pevents (io ?s h) = requested pev" using s2(4) p1 by simp
      have nz: "requested pev \<noteq> 0" using requested_valid [OF assms(6) False] by (simp add: events_valid_def)
      have ac: "active ?s h" by (simp add: macro_handles flag_update)
      have po: "polls_ok ?s"
        by (rule polls_ok_step [OF s1(4) a1])
          (use e2 s2(4) pe nz ac assms(7) False in \<open>simp_all add: macro_handles\<close>)
      have "erase_polls s2 = erase_polls s1" using erase_polls_io [OF s2(3)] s2(5,6) by simp
      then have "poll_handle_frame h s1 ?s"
        using e2 io_start_used [OF s2(1)] s2(4) unfolding poll_handle_frame_def by (simp add: macro_handles flag_update)
      then have "poll_handle_frame h s ?s" using poll_handle_frame_trans s1(5) by blast
      then show ?thesis using run c p po True False ac pe by blast
    qed
  qed
qed

lemma poll_init_ok:
  assumes "counts_ok s" "polling_ok s" "polls_ok s" "h \<notin> set (all_handles s)" "h \<noteq> NULL" "length (all_handles s) + 1 < 2 ^ 32"
    and "h \<noteq> async_io_watcher s" "h \<noteq> signal_io_watcher s" "0 \<le> f" "f \<le> 2147483645"
    and "uv_poll_init c h f s = Some (r, s')"
  shows "counts_ok s' \<and> polling_ok s' \<and> polls_ok s' \<and> (r \<noteq> None \<longrightarrow> s' = s) \<and>
    (r = None \<longrightarrow> s' = (uv__handle_init UV_POLL h s)\<lparr>
       io := (io s)(h := \<lparr>io_cb = Uv__poll_io, pevents = 0, events = 0, fd = f\<rparr>), poll_cb := (poll_cb s)(h := NULL)\<rparr>)"
proof (cases r)
  case (Some e)
  then have "s' = s" using assms(11) by (auto simp: uv_poll_init_def bind_eq_Some_conv Let_def split: if_splits)
  then show ?thesis using assms Some by simp
next
  case None
  let ?i = "uv__handle_init UV_POLL h s"
  have pi: "polling_ok ?i"
    using assms(2) by (intro polling_ok_cong [OF assms(2)]) (auto simp: interest_def polling_ok_def entries_ok_def)
  have z: "pevents (io ?i h) = 0" using assms(3,4,7) by (auto simp: polls_ok_def)
  from io_init_ok [OF pi z, of Uv__poll_io f] assms(9) obtain s1 where
    s1: "uv__io_init h Uv__poll_io f ?i = Some s1" "polling_ok s1"
      "s1 = ?i\<lparr>io := (io ?i)(h := \<lparr>io_cb = Uv__poll_io, pevents = 0, events = 0, fd = f\<rparr>)\<rparr>" by auto
  have s': "s' = s1\<lparr>poll_cb := (poll_cb s1)(h := NULL)\<rparr>"
    using assms(11) s1(1) None by (auto simp: uv_poll_init_def bind_eq_Some_conv Let_def split: if_splits)
  have "counts_ok s'"
    by (rule counts_ok_cong [OF counts_ok_init [OF assms(1,4-6), of UV_POLL]]) (simp_all add: s' s1(3))
  moreover have "polling_ok s'"
    using s1(2) by (intro polling_ok_cong [OF s1(2)]) (auto simp: s' interest_def polling_ok_def entries_ok_def)
  moreover have "polls_ok s'"
    using assms(3,4,7-10) by (auto simp: polls_ok_def s' s1(3) flag_update)
  ultimately show ?thesis using None by (simp add: s' s1(3))
qed

definition open_system :: fd_calls where
  "open_system = plain_system\<lparr>set_cloexec := (\<lambda>_ _. Inr ())\<rparr>"

section \<open>Properties\<close>

lemma new_loop_polling: "polling_ok (new_loop clk)" "polls_ok (new_loop clk)"
  by (simp_all add: polling_ok_def io_ok_def entries_ok_def synced_def shape_ok_def used_slots_def registered_def
      new_loop_def interest_def polls_ok_def all_handles_def)

lemma one_poll:
  "\<exists>s. uv_poll_init open_system 7 5 (new_loop (\<lambda>_. 0)) = Some (None, s) \<and> counts_ok s \<and> polling_ok s \<and> polls_ok s \<and> a_poll s 7 \<and>
     \<not> uv__is_closing 7 s \<and> fd_free s 7"
proof -
  have e: "counts_ok (new_loop (\<lambda>_. 0))" by (rule counts_ok_empty) (simp_all add: new_loop_simps)
  have "map_option fst (uv_poll_init open_system 7 5 (new_loop (\<lambda>_. 0))) = Some None" by code_simp
  then obtain s where s: "uv_poll_init open_system 7 5 (new_loop (\<lambda>_. 0)) = Some (None, s)" by auto
  let ?n = "new_loop (\<lambda>_. 0)"
  have n: "7 \<notin> set (all_handles ?n)" "length (all_handles ?n) + 1 < 2 ^ 32" "7 \<noteq> async_io_watcher ?n" "7 \<noteq> signal_io_watcher ?n"
    by (simp_all add: new_loop_def all_handles_def)
  have "(7::ptr) \<noteq> NULL" "(0::int) \<le> 5" "(5::int) \<le> 2147483645" by simp_all
  from poll_init_ok [OF e new_loop_polling n(1) this(1) n(2-4) this(2,3) s]
  have "counts_ok s" "polling_ok s" "polls_ok s"
    "s = (uv__handle_init UV_POLL 7 ?n)\<lparr>io := (io ?n)(7 := \<lparr>io_cb = Uv__poll_io, pevents = 0, events = 0, fd = 5\<rparr>),
       poll_cb := (poll_cb ?n)(7 := NULL)\<rparr>" by blast+
  then show ?thesis using s by (simp add: is_bits flag_update fd_free_def new_loop_def all_handles_def uv__handle_init_def)
qed

text \<open>
  C12: \<open>uv_poll_start\<close> on a handle that is not closing, for any set of user events: it fails
  with \<open>UV_EEXIST\<close> and changes nothing exactly when another watcher is registered for the
  descriptor; otherwise the watcher asks the kernel for just the events requested, the handle
  is active exactly when there are any, and every invariant of the loop's watchers is kept.
\<close>

theorem poll_start_spec:
  assumes "counts_ok s" "polling_ok s" "polls_ok s" "a_poll s h" "\<not> uv__is_closing h s" "user_events pev"
    and "pev \<noteq> 0 \<longrightarrow> cb \<noteq> NULL"
  shows "\<exists>r s'. uv_poll_start h pev cb s = Some (r, s') \<and> counts_ok s' \<and> polling_ok s' \<and> polls_ok s' \<and>
    (r = None \<longleftrightarrow> fd_free s h) \<and> (r \<noteq> None \<longrightarrow> r = Some UV_EEXIST \<and> s' = s) \<and>
    (r = None \<longrightarrow> (uv__is_active h s' \<longleftrightarrow> pev \<noteq> 0) \<and> reported (pevents (io s' h)) = pev)"
  using poll_start_ok [OF assms] reported_requested [OF assms(6)] unfolding is_bits by fastforce

theorem poll_start_spec_witness:
  "\<exists>s s'. uv_poll_init open_system 7 5 (new_loop (\<lambda>_. 0)) = Some (None, s) \<and> uv_poll_start 7 UV_WRITABLE 3 s = Some (None, s') \<and>
     reported (pevents (io s' 7)) = UV_WRITABLE"
proof -
  obtain s where s: "uv_poll_init open_system 7 5 (new_loop (\<lambda>_. 0)) = Some (None, s)" "counts_ok s" "polling_ok s" "polls_ok s"
    "a_poll s 7" "\<not> uv__is_closing 7 s" "fd_free s 7" using one_poll by blast
  have "user_events UV_WRITABLE" by code_simp
  from poll_start_spec [OF s(2-6) this, of 3] s(1,7) show ?thesis by fastforce
qed

end
