(* ===== verification/Async.thy ===== *)
theory Async
  imports Polling
begin

unbundle bit_operations_syntax

text \<open>
  \<^verbatim>\<open>unix/async.c\<close> as the thread of the loop runs it, on Linux: the wakeup descriptor is an
  \<open>eventfd\<close>, whose creation is a parameter. The flag \<open>pending\<close> of a handle may be set by other
  threads at any time; the protocol between the threads is the subject of \<^verbatim>\<open>Wakeup.thy\<close>.
\<close>

section \<open>The operations\<close>

definition uv__async_start :: "uv_errno + int \<Rightarrow> uv_loop \<Rightarrow> (uv_errno option \<times> uv_loop) option" where
  "uv__async_start eventfd s =
     (let w = async_io_watcher s
      in if fd (io s w) \<noteq> -1 then Some (None, s)
         else case eventfd of
             Inl e \<Rightarrow> Some (Some e, s)
           | Inr f \<Rightarrow>
               Option.bind (uv__io_init w Uv__async_io f s) (\<lambda>s. map_option (Pair None) (uv__io_start w POLLIN s)))"

definition uv_async_init ::
  "uv_errno + int \<Rightarrow> ptr \<Rightarrow> ptr \<Rightarrow> uv_loop \<Rightarrow> (uv_errno option \<times> uv_loop) option" where
  "uv_async_init eventfd h cb s =
     Option.bind (uv__async_start eventfd s) (\<lambda>(err, s).
       if err \<noteq> None then Some (err, s)
       else
         let s = uv__handle_init UV_ASYNC h s;
             s = s\<lparr>async := (async s)(h := \<lparr>async_cb = cb, pending = False\<rparr>)\<rparr>;
             s = s\<lparr>async_handles := async_handles s @ [h]\<rparr>
         in Some (None, uv__handle_start h s))"

definition set_pending :: "ptr \<Rightarrow> bool \<Rightarrow> uv_loop \<Rightarrow> uv_loop" where
  "set_pending h b s = s\<lparr>async := (async s)(h := (async s h)\<lparr>pending := b\<rparr>)\<rparr>"

text \<open>Writing to the wakeup descriptor is not visible in the state of the loop.\<close>

definition uv_async_send :: "ptr \<Rightarrow> uv_loop \<Rightarrow> uv_loop" where
  "uv_async_send h s = (if pending (async s h) then s else set_pending h True s)"

definition uv__async_close :: "ptr \<Rightarrow> uv_loop \<Rightarrow> uv_loop" where
  "uv__async_close h s =
     (let s = set_pending h True s;
          s = s\<lparr>async_handles := remove1 h (async_handles s), async_run := remove1 h (async_run s)\<rparr>
      in uv__handle_stop h s)"

partial_function (option) run_async :: "client \<Rightarrow> uv_loop \<Rightarrow> uv_loop option" where
  "run_async client s =
     (case async_run s of
        [] \<Rightarrow> Some s
      | h # q \<Rightarrow>
          let s = s\<lparr>async_run := q, async_handles := async_handles s @ [h]\<rparr>
          in if \<not> pending (async s h) then run_async client s
             else
               let s = set_pending h False s
               in if async_cb (async s h) = NULL then run_async client s
                  else Option.bind (call client (async_cb (async s h)) h s) (run_async client))"

declare run_async.simps [code]

definition uv__async_io :: "client \<Rightarrow> ptr \<Rightarrow> uv_loop \<Rightarrow> uv_loop option" where
  "uv__async_io client w s =
     (if w \<noteq> async_io_watcher s then None
      else run_async client (s\<lparr>async_run := async_handles s, async_handles := []\<rparr>))"

section \<open>The invariant\<close>

definition asyncs :: "uv_loop \<Rightarrow> ptr list" where
  "asyncs s = async_run s @ async_handles s"

definition active_asyncs :: "uv_loop \<Rightarrow> ptr set" where
  "active_asyncs s = {h \<in> set (all_handles s). htype (handle s h) = UV_ASYNC \<and> active s h}"

definition asyncs_ok :: "uv_loop \<Rightarrow> bool" where
  "asyncs_ok s \<longleftrightarrow> distinct (asyncs s) \<and> set (asyncs s) = active_asyncs s"

lemma asyncs_ok_cong:
  "asyncs_ok s \<Longrightarrow> async_run s' = async_run s \<Longrightarrow> async_handles s' = async_handles s \<Longrightarrow>
   active_asyncs s' = active_asyncs s \<Longrightarrow> asyncs_ok s'"
  by (simp add: asyncs_ok_def asyncs_def)

text \<open>What an operation on an async handle leaves alone.\<close>

definition erase_asyncs :: "uv_loop \<Rightarrow> uv_loop" where
  "erase_asyncs s = (let z = new_loop (\<lambda>_. 0) in s\<lparr>active_handles := 0, handle := handle z, async_handles := async_handles z, async_run := async_run z, async := async z\<rparr>)"

lemma erase_asyncsD:
  assumes "erase_asyncs s' = erase_asyncs s"
  shows "handle_queue s' = handle_queue s" "active_reqs s' = active_reqs s" 
    "stop_flag s' = stop_flag s" "loop_flags s' = loop_flags s" 
    "pending_queue s' = pending_queue s" "watcher_queue s' = watcher_queue s" 
    "watchers s' = watchers s" "nwatchers s' = nwatchers s" "nfds s' = nfds s" 
    "closing_handles s' = closing_handles s" "watcher_handles s' = watcher_handles s" 
    "async_io_watcher s' = async_io_watcher s" "timer_heap s' = timer_heap s" 
    "timer_counter s' = timer_counter s" "time s' = time s" 
    "signal_io_watcher s' = signal_io_watcher s" "signal_tree s' = signal_tree s" 
    "signal_pipe s' = signal_pipe s" "ready_queue s' = ready_queue s" "run_queue s' = run_queue s" 
    "pending_run s' = pending_run s" "walk_queue s' = walk_queue s" "timer s' = timer s" 
    "watcher_cb s' = watcher_cb s" "poll_cb s' = poll_cb s" "io s' = io s" "signal s' = signal s" 
    "lfields_flags s' = lfields_flags s" "loop_count s' = loop_count s" 
    "events_count s' = events_count s" "events_waiting s' = events_waiting s" 
    "provider_entry_time s' = provider_entry_time s" "provider_idle_time s' = provider_idle_time s" 
    "current_timeout s' = current_timeout s" "poll_fds s' = poll_fds s" 
    "poll_fds_used s' = poll_fds_used s" "poll_fds_iterating s' = poll_fds_iterating s" 
    "hrtime s' = hrtime s" "readings s' = readings s" "polls s' = polls s" "called s' = called s" 
    "all_handles s' = all_handles s"
  using assms by (cases s; cases s'; simp add: erase_asyncs_def all_handles_def Let_def)+

lemma erase_asyncs_macros [simp]:
  "erase_asyncs (uv__handle_start h s) = erase_asyncs s"
  "erase_asyncs (uv__handle_stop h s) = erase_asyncs s"
  "erase_asyncs (uv__handle_ref h s) = erase_asyncs s"
  "erase_asyncs (uv__handle_unref h s) = erase_asyncs s"
  by (simp_all add: macro_defs erase_asyncs_def)

lemma erase_asyncs_update [simp]:
  "erase_asyncs (active_handles_update g1 s) = erase_asyncs s"
  "erase_asyncs (handle_update g2 s) = erase_asyncs s"
  "erase_asyncs (async_handles_update g3 s) = erase_asyncs s"
  "erase_asyncs (async_run_update g4 s) = erase_asyncs s"
  "erase_asyncs (async_update g5 s) = erase_asyncs s"
  by (cases s; simp add: erase_asyncs_def Let_def)+

lemma erase_asyncs_called:
  "erase_asyncs (s\<lparr>called := c\<rparr>) = erase_asyncs s\<lparr>called := c\<rparr>"
  "s\<lparr>called := c, called := c'\<rparr> = s\<lparr>called := c'\<rparr>"
  by (cases s; simp add: erase_asyncs_def Let_def)+

definition async_frame :: "ptr \<Rightarrow> uv_loop \<Rightarrow> uv_loop \<Rightarrow> bool" where
  "async_frame h s s' \<longleftrightarrow> erase_asyncs s' = erase_asyncs s \<and> subseq (async_run s') (async_run s) \<and>
     (\<forall>g. g \<noteq> h \<longrightarrow> handle s' g = handle s g) \<and> htype (handle s' h) = htype (handle s h) \<and>
     close_cb (handle s' h) = close_cb (handle s h) \<and>
     (\<forall>n. n \<noteq> 2 \<longrightarrow> bit (flags (handle s' h)) n = bit (flags (handle s h)) n)"

lemma async_frame_refl: "async_frame h s s"
  by (simp add: async_frame_def)

lemma set_pending_fields [simp]:
  "handle (set_pending h b s) = handle s" "all_handles (set_pending h b s) = all_handles s"
  "active_handles (set_pending h b s) = active_handles s" "async_run (set_pending h b s) = async_run s"
  "async_handles (set_pending h b s) = async_handles s" "erase_asyncs (set_pending h b s) = erase_asyncs s"
  "called (set_pending h b s) = called s" "async_cb (async (set_pending h b s) g) = async_cb (async s g)"
  by (simp_all add: set_pending_def)

lemma async_send_ok:
  assumes "counts_ok s" "asyncs_ok s"
  shows "counts_ok (uv_async_send h s)" "asyncs_ok (uv_async_send h s)" "async_frame h s (uv_async_send h s)"
    "pending (async (uv_async_send h s) h)" "handle (uv_async_send h s) = handle s"
proof -
  have f: "handle (uv_async_send h s) = handle s" "all_handles (uv_async_send h s) = all_handles s"
    "active_handles (uv_async_send h s) = active_handles s" "async_run (uv_async_send h s) = async_run s"
    "async_handles (uv_async_send h s) = async_handles s" "erase_asyncs (uv_async_send h s) = erase_asyncs s"
    by (simp_all add: uv_async_send_def set_pending_def)
  show "counts_ok (uv_async_send h s)" by (rule counts_ok_cong [OF assms(1)]) (simp_all add: f)
  show "asyncs_ok (uv_async_send h s)" by (rule asyncs_ok_cong [OF assms(2)]) (simp_all add: f active_asyncs_def)
  show "async_frame h s (uv_async_send h s)" "handle (uv_async_send h s) = handle s" by (simp_all add: async_frame_def f)
  show "pending (async (uv_async_send h s) h)" by (simp add: uv_async_send_def set_pending_def)
qed

lemma async_close_ok:
  assumes "counts_ok s" "asyncs_ok s" "h \<in> set (all_handles s)" "htype (handle s h) = UV_ASYNC"
  shows "counts_ok (uv__async_close h s)" "asyncs_ok (uv__async_close h s)" "async_frame h s (uv__async_close h s)"
    "\<not> active (uv__async_close h s) h"
proof -
  let ?s = "(set_pending h True s)\<lparr>async_handles := remove1 h (async_handles s), async_run := remove1 h (async_run s)\<rparr>"
  have c: "uv__async_close h s = uv__handle_stop h ?s" by (simp add: uv__async_close_def set_pending_def)
  have f: "handle ?s = handle s" "all_handles ?s = all_handles s" "active_handles ?s = active_handles s"
    "erase_asyncs ?s = erase_asyncs s" by simp_all
  show "counts_ok (uv__async_close h s)"
    unfolding c by (rule counts_ok_stop [OF counts_ok_cong [OF assms(1)]]) (use f assms(3) in simp_all)
  have "active_asyncs (uv__async_close h s) = active_asyncs s - {h}"
    unfolding c by (auto simp: active_asyncs_def macro_handles flag_update f)
  moreover have "set (asyncs (uv__async_close h s)) = set (asyncs s) - {h}" "distinct (asyncs (uv__async_close h s))"
    using assms(2) unfolding c by (auto simp: asyncs_ok_def asyncs_def)
  ultimately show "asyncs_ok (uv__async_close h s)" using assms(2) by (simp add: asyncs_ok_def)
  show "async_frame h s (uv__async_close h s)" "\<not> active (uv__async_close h s) h"
    unfolding c by (auto simp: async_frame_def f macro_handles flag_update intro: subseq_remove1)
qed

lemma async_init_ok:
  assumes "counts_ok s" "asyncs_ok s" "h \<notin> set (all_handles s)" "h \<noteq> NULL" "length (all_handles s) + 1 < 2 ^ 32"
    and "fd (io s (async_io_watcher s)) \<noteq> -1"
  shows "\<exists>s'. uv_async_init ev h cb s = Some (None, s') \<and> counts_ok s' \<and> asyncs_ok s' \<and> active s' h \<and>
    s' = uv__handle_start h ((uv__handle_init UV_ASYNC h s)\<lparr>async := (async s)(h := \<lparr>async_cb = cb, pending = False\<rparr>),
           async_handles := async_handles s @ [h]\<rparr>)"
proof -
  let ?i = "(uv__handle_init UV_ASYNC h s)\<lparr>async := (async s)(h := \<lparr>async_cb = cb, pending = False\<rparr>),
           async_handles := async_handles s @ [h]\<rparr>"
  have ih: "handle ?i = (handle s)(h := (handle s h)\<lparr>htype := UV_ASYNC, flags := UV_HANDLE_REF\<rparr>)"
    "all_handles ?i = all_handles s @ [h]" "async_run ?i = async_run s" by simp_all
  have "uv_async_init ev h cb s = Some (None, uv__handle_start h ?i)"
    using assms(6) by (simp add: uv_async_init_def uv__async_start_def Let_def)
  moreover have "counts_ok (uv__handle_start h ?i)"
    by (rule counts_ok_start [OF counts_ok_cong [OF counts_ok_init [OF assms(1,3-5), of UV_ASYNC]]]) simp_all
  moreover have "active_asyncs (uv__handle_start h ?i) = insert h (active_asyncs s)"
    using assms(3) by (auto simp: active_asyncs_def macro_handles flag_update)
  moreover have "h \<notin> set (asyncs s)" using assms(2,3) by (auto simp: asyncs_ok_def active_asyncs_def)
  ultimately show ?thesis using assms(2) by (auto simp: asyncs_ok_def asyncs_def macro_handles flag_update)
qed

section \<open>Running the callbacks\<close>

lemma asyncs_ok_put_back:
  "asyncs_ok s \<Longrightarrow> async_run s = h # q \<Longrightarrow> asyncs_ok (s\<lparr>async_run := q, async_handles := async_handles s @ [h]\<rparr>)"
  by (auto simp: asyncs_ok_def asyncs_def active_asyncs_def)

lemma asyncs_ok_pending: "asyncs_ok s \<Longrightarrow> asyncs_ok (set_pending h b s)"
  by (simp add: asyncs_ok_def asyncs_def active_asyncs_def)

locale async_client = loop_client client ok
  for client :: client and ok :: "uv_loop \<Rightarrow> bool" +
  assumes ok_asyncs: "ok s \<Longrightarrow> asyncs_ok s"
    and ok_async_frame: "ok s \<Longrightarrow> asyncs_ok s' \<Longrightarrow> erase_asyncs s' = erase_asyncs s \<Longrightarrow> handle s' = handle s \<Longrightarrow>
      active_handles s' = active_handles s \<Longrightarrow> ok s'"
begin

lemma run_async_ok:
  "ok s \<Longrightarrow> \<exists>s' hs. run_async client s = Some s' \<and> ok s' \<and> async_run s' = [] \<and> called s' = called s @ hs \<and>
     subseq (map snd hs) (async_run s)"
proof (induction "length (async_run s)" arbitrary: s rule: less_induct)
  case less
  show ?case
  proof (cases "async_run s")
    case Nil
    then show ?thesis using less.prems by (subst run_async.simps) (auto intro: exI [of _ "[]"])
  next
    case (Cons h q)
    let ?s = "s\<lparr>async_run := q, async_handles := async_handles s @ [h]\<rparr>"
    let ?t = "set_pending h False ?s"
    have ok: "ok ?s" "ok ?t"
      using ok_async_frame [OF less.prems asyncs_ok_put_back [OF ok_asyncs [OF less.prems] Cons]]
        ok_async_frame [OF less.prems asyncs_ok_pending [OF asyncs_ok_put_back [OF ok_asyncs [OF less.prems] Cons]]]
      by simp_all
    have skip: ?thesis if "run_async client s = run_async client u" "ok u" "async_run u = q" "called u = called s" for u
      using less.hyps [OF _ that(2)] that Cons by (fastforce intro: subseq_order.order_trans)
    show ?thesis
    proof (cases "pending (async ?s h) \<and> async_cb (async ?t h) \<noteq> NULL")
      case False
      then have "run_async client s = run_async client ?s \<or> run_async client s = run_async client ?t"
        using Cons by (subst (1 3) run_async.simps) (auto simp: Let_def)
      then show ?thesis using skip [OF _ ok(1)] skip [OF _ ok(2)] by auto
    next
      case True
      from call_ok [OF ok(2), of "async_cb (async ?t h)" h] True obtain s1 where
        s1: "call client (async_cb (async ?t h)) h ?t = Some s1" "ok s1" "subseq (async_run s1) q"
          "called s1 = called s @ [(async_cb (async ?t h), h)]" by auto
      have "length (async_run s1) < length (async_run s)" using list_emb_length [OF s1(3)] Cons by simp
      from less.hyps [OF this s1(2)] obtain s' hs where
        s': "run_async client s1 = Some s'" "ok s'" "async_run s' = []" "called s' = called s1 @ hs"
          "subseq (map snd hs) (async_run s1)" by blast
      have "run_async client s = Some s'" using Cons s1(1) s'(1) True by (subst run_async.simps) (simp add: Let_def)
      moreover have "subseq (map snd ((async_cb (async ?t h), h) # hs)) (async_run s)"
        using s'(5) s1(3) Cons subseq_order.order_trans by fastforce
      moreover have "called s' = called s @ (async_cb (async ?t h), h) # hs" using s'(4) s1(4) by simp
      ultimately show ?thesis using s'(2,3) by blast
    qed
  qed
qed

lemma async_io_ok:
  assumes "ok s" "async_run s = []"
  shows "\<exists>s' hs. uv__async_io client (async_io_watcher s) s = Some s' \<and> ok s' \<and> async_run s' = [] \<and>
    called s' = called s @ hs \<and> subseq (map snd hs) (async_handles s)"
proof -
  let ?s = "s\<lparr>async_run := async_handles s, async_handles := []\<rparr>"
  have "asyncs_ok ?s" using ok_asyncs [OF assms(1)] assms(2) by (simp add: asyncs_ok_def asyncs_def active_asyncs_def)
  then have "ok ?s" by (rule ok_async_frame [OF assms(1)]) simp_all
  from run_async_ok [OF this] show ?thesis by (simp add: uv__async_io_def)
qed

end

end
