(* ===== verification/Loop.thy ===== *)
theory Loop
  imports Timer Watchers Poll Async
begin

unbundle bit_operations_syntax

text \<open>
  The loop itself: closing handles, \<open>uv_run\<close> and what decides how long it polls
  (\<^verbatim>\<open>unix/core.c\<close>), walking and the operations on any handle (\<^verbatim>\<open>uv-common.c\<close>), and
  configuring, forking and closing a loop (\<^verbatim>\<open>unix/loop.c\<close>). Handles are timers, prepare,
  check and idle watchers, poll handles and async handles; closing one of another kind is
  \<open>None\<close>, as are failed assertions.
\<close>

section \<open>Closing handles\<close>

definition uv__make_close_pending :: "ptr \<Rightarrow> uv_loop \<Rightarrow> uv_loop option" where
  "uv__make_close_pending h s =
     (if flags (handle s h) AND UV_HANDLE_CLOSING = 0 \<or> flags (handle s h) AND UV_HANDLE_CLOSED \<noteq> 0 then None
      else Some (s\<lparr>closing_handles := h # closing_handles s\<rparr>))"

definition close_kind :: "ptr \<Rightarrow> uv_loop \<Rightarrow> uv_loop option" where
  "close_kind h s =
     (case htype (handle s h) of
        UV_PREPARE \<Rightarrow> Some (uv__watcher_close Prepare h s)
      | UV_CHECK \<Rightarrow> Some (uv__watcher_close Check h s)
      | UV_IDLE \<Rightarrow> Some (uv__watcher_close Idle h s)
      | UV_ASYNC \<Rightarrow> Some (uv__async_close h s)
      | UV_TIMER \<Rightarrow> uv__timer_close h s
      | UV_POLL \<Rightarrow> uv__poll_close h s
      | _ \<Rightarrow> None)"

definition uv_close :: "ptr \<Rightarrow> ptr \<Rightarrow> uv_loop \<Rightarrow> uv_loop option" where
  "uv_close h cb s =
     (if uv__is_closing h s then None
      else
        let s = s\<lparr>handle := (handle s)(h := (handle s h)\<lparr>flags := flags (handle s h) OR UV_HANDLE_CLOSING, close_cb := cb\<rparr>)\<rparr>
        in Option.bind (close_kind h s) (uv__make_close_pending h))"

definition finish :: "client \<Rightarrow> ptr \<Rightarrow> uv_loop \<Rightarrow> uv_loop option" where
  "finish client h s =
     (let s = uv__handle_unref h s;
          s = s\<lparr>handle_queue := remove1 h (handle_queue s), walk_queue := remove1 h (walk_queue s)\<rparr>
      in if close_cb (handle s h) \<noteq> NULL then call client (close_cb (handle s h)) h s else Some s)"

definition uv__finish_close :: "client \<Rightarrow> ptr \<Rightarrow> uv_loop \<Rightarrow> uv_loop option" where
  "uv__finish_close client h s =
     (if flags (handle s h) AND UV_HANDLE_CLOSING = 0 \<or> flags (handle s h) AND UV_HANDLE_CLOSED \<noteq> 0 then None
      else
        let s = set_flags h (flags (handle s h) OR UV_HANDLE_CLOSED) s
        in case htype (handle s h) of
             UV_PREPARE \<Rightarrow> finish client h s
           | UV_CHECK \<Rightarrow> finish client h s
           | UV_IDLE \<Rightarrow> finish client h s
           | UV_ASYNC \<Rightarrow> finish client h s
           | UV_TIMER \<Rightarrow> finish client h s
           | UV_PROCESS \<Rightarrow> finish client h s
           | UV_FS_EVENT \<Rightarrow> finish client h s
           | UV_FS_POLL \<Rightarrow> finish client h s
           | UV_POLL \<Rightarrow> finish client h s
           | UV_SIGNAL \<Rightarrow>
               if caught_signals (signal s h) > dispatched_signals (signal s h)
               then uv__make_close_pending h (set_flags h (flags (handle s h) XOR UV_HANDLE_CLOSED) s)
               else finish client h s
           | _ \<Rightarrow> None)"

text \<open>The next handle is read before a handle is finished, so callbacks do not change the list.\<close>

fun finish_all :: "client \<Rightarrow> ptr list \<Rightarrow> uv_loop \<Rightarrow> uv_loop option" where
  "finish_all client [] s = Some s"
| "finish_all client (p # q) s = Option.bind (uv__finish_close client p s) (finish_all client q)"

definition uv__run_closing_handles :: "client \<Rightarrow> uv_loop \<Rightarrow> uv_loop option" where
  "uv__run_closing_handles client s = finish_all client (closing_handles s) (s\<lparr>closing_handles := []\<rparr>)"

section \<open>Running the loop\<close>

definition uv__loop_alive :: "uv_loop \<Rightarrow> bool" where
  "uv__loop_alive s \<longleftrightarrow>
     uv__has_active_handles s \<or> uv__has_active_reqs s \<or> pending_queue s \<noteq> [] \<or> closing_handles s \<noteq> []"

definition UV_LOOP_BLOCK_SIGPROF :: u64 where "UV_LOOP_BLOCK_SIGPROF = 0x1"
definition UV_LOOP_REAP_CHILDREN :: u64 where "UV_LOOP_REAP_CHILDREN = 0x2"
definition UV_LOOP_ENABLE_IO_URING_SQPOLL :: u64 where "UV_LOOP_ENABLE_IO_URING_SQPOLL = 0x4"

definition uv__backend_timeout :: "uv_loop \<Rightarrow> int" where
  "uv__backend_timeout s =
     (if stop_flag s = 0 \<and> (uv__has_active_handles s \<or> uv__has_active_reqs s) \<and> pending_queue s = [] \<and>
         watcher_handles s Idle = [] \<and> loop_flags s AND UV_LOOP_REAP_CHILDREN = 0 \<and> closing_handles s = []
      then uv__next_timeout s else 0)"

definition uv_backend_timeout :: "uv_loop \<Rightarrow> int" where
  "uv_backend_timeout s = (if watcher_queue s = [] then uv__backend_timeout s else 0)"

text \<open>
  What a loop runs with: the kernel, the callbacks of the user and those of poll handles.
\<close>

record world =
  kern :: kernel
  callbacks :: client
  poll_callbacks :: poll_client

text \<open>The call \<open>w->cb(loop, w, events)\<close> of an I/O watcher.\<close>

definition dispatch_io :: "world \<Rightarrow> dispatch" where
  "dispatch_io W w ev s =
     (case io_cb (io s w) of
        Uv__poll_io \<Rightarrow> uv__poll_io (poll_callbacks W) w ev s
      | Uv__async_io \<Rightarrow> uv__async_io (callbacks W) w s
      | _ \<Rightarrow> None)"

fun run_pending_times :: "dispatch \<Rightarrow> nat \<Rightarrow> uv_loop \<Rightarrow> uv_loop option" where
  "run_pending_times d 0 s = Some s"
| "run_pending_times d (Suc n) s =
     (if pending_queue s = [] then Some s else Option.bind (uv__run_pending d s) (run_pending_times d n))"

datatype uv_run_mode = UV_RUN_DEFAULT | UV_RUN_ONCE | UV_RUN_NOWAIT

text \<open>One turn of the loop of \<open>uv_run\<close>, up to \<open>uv__run_timers\<close>.\<close>

definition loop_turn :: "world \<Rightarrow> uv_run_mode \<Rightarrow> uv_loop \<Rightarrow> uv_loop option" where
  "loop_turn W mode s =
     (let can_sleep = (pending_queue s = [] \<and> watcher_handles s Idle = [])
      in Option.bind (uv__run_pending (dispatch_io W) s) (\<lambda>s.
         Option.bind (uv__run_watchers (callbacks W) Idle s) (\<lambda>s.
         Option.bind (uv__run_watchers (callbacks W) Prepare s) (\<lambda>s.
           let tmo = (if mode = UV_RUN_ONCE \<and> can_sleep \<or> mode = UV_RUN_DEFAULT then uv__backend_timeout s else 0);
               s = uv__metrics_inc_loop_count s
           in Option.bind (uv__io_poll (kern W) (dispatch_io W) tmo s) (\<lambda>s.
              Option.bind (run_pending_times (dispatch_io W) 8 s) (\<lambda>s.
                let s = uv__metrics_update_idle_time s
                in Option.bind (uv__run_watchers (callbacks W) Check s) (\<lambda>s.
                   Option.bind (uv__run_closing_handles (callbacks W) s) (\<lambda>s.
                     uv__run_timers (callbacks W) (uv__update_time s)))))))))"

partial_function (option) run_turns :: "world \<Rightarrow> uv_run_mode \<Rightarrow> bool \<Rightarrow> uv_loop \<Rightarrow> (bool \<times> uv_loop) option" where
  "run_turns W mode r s =
     (if r \<and> stop_flag s = 0 then
        Option.bind (loop_turn W mode s) (\<lambda>s.
          let r = uv__loop_alive s
          in if mode = UV_RUN_ONCE \<or> mode = UV_RUN_NOWAIT then Some (r, s) else run_turns W mode r s)
      else Some (r, s))"

declare run_turns.simps [code]

definition uv_run :: "world \<Rightarrow> uv_run_mode \<Rightarrow> uv_loop \<Rightarrow> (bool \<times> uv_loop) option" where
  "uv_run W mode s =
     (let r = uv__loop_alive s;
          s = (if r then s else uv__update_time s)
      in Option.bind
           (if mode = UV_RUN_DEFAULT \<and> r \<and> stop_flag s = 0 then uv__run_timers (callbacks W) (uv__update_time s)
            else Some s)
           (\<lambda>s. map_option (\<lambda>(r, s). (r, if stop_flag s \<noteq> 0 then s\<lparr>stop_flag := 0\<rparr> else s)) (run_turns W mode r s)))"

section \<open>Walking\<close>

partial_function (option) walk_taken :: "client \<Rightarrow> ptr \<Rightarrow> uv_loop \<Rightarrow> uv_loop option" where
  "walk_taken client walk_cb s =
     (case walk_queue s of
        [] \<Rightarrow> Some s
      | h # q \<Rightarrow>
          let s = s\<lparr>walk_queue := q, handle_queue := handle_queue s @ [h]\<rparr>
          in if flags (handle s h) AND UV_HANDLE_INTERNAL \<noteq> 0 then walk_taken client walk_cb s
             else Option.bind (call client walk_cb h s) (walk_taken client walk_cb))"

declare walk_taken.simps [code]

definition uv_walk :: "client \<Rightarrow> ptr \<Rightarrow> uv_loop \<Rightarrow> uv_loop option" where
  "uv_walk client walk_cb s = walk_taken client walk_cb (s\<lparr>walk_queue := handle_queue s, handle_queue := []\<rparr>)"

section \<open>Operations on any handle\<close>

definition uv_ref :: "ptr \<Rightarrow> uv_loop \<Rightarrow> uv_loop" where "uv_ref = uv__handle_ref"
definition uv_unref :: "ptr \<Rightarrow> uv_loop \<Rightarrow> uv_loop" where "uv_unref = uv__handle_unref"
definition uv_has_ref :: "ptr \<Rightarrow> uv_loop \<Rightarrow> bool" where "uv_has_ref = uv__has_ref"
definition uv_is_active :: "ptr \<Rightarrow> uv_loop \<Rightarrow> bool" where "uv_is_active = uv__is_active"
definition uv_is_closing :: "ptr \<Rightarrow> uv_loop \<Rightarrow> bool" where "uv_is_closing = uv__is_closing"
definition uv_stop :: "uv_loop \<Rightarrow> uv_loop" where "uv_stop s = s\<lparr>stop_flag := 1\<rparr>"
definition uv_now :: "uv_loop \<Rightarrow> u64" where "uv_now s = time s"
definition uv_update_time :: "uv_loop \<Rightarrow> uv_loop" where "uv_update_time = uv__update_time"
definition uv_loop_alive :: "uv_loop \<Rightarrow> bool" where "uv_loop_alive = uv__loop_alive"

section \<open>Configuring and closing\<close>

datatype uv_loop_option = UV_LOOP_BLOCK_SIGNAL int | UV_LOOP_METRICS_IDLE_TIME | UV_LOOP_USE_IO_URING_SQPOLL

text \<open>On Linux; the argument is the number of \<open>SIGPROF\<close> there.\<close>

definition uv__loop_configure :: "int \<Rightarrow> uv_loop_option \<Rightarrow> uv_loop \<Rightarrow> uv_errno option \<times> uv_loop" where
  "uv__loop_configure sigprof opt s =
     (case opt of
        UV_LOOP_METRICS_IDLE_TIME \<Rightarrow> (None, s\<lparr>lfields_flags := lfields_flags s OR UV_METRICS_IDLE_TIME\<rparr>)
      | UV_LOOP_USE_IO_URING_SQPOLL \<Rightarrow> (None, s\<lparr>loop_flags := loop_flags s OR UV_LOOP_ENABLE_IO_URING_SQPOLL\<rparr>)
      | UV_LOOP_BLOCK_SIGNAL sig \<Rightarrow>
          if sig \<noteq> sigprof then (Some UV_EINVAL, s)
          else (None, s\<lparr>loop_flags := loop_flags s OR UV_LOOP_BLOCK_SIGPROF\<rparr>))"

text \<open>Whether \<open>uv_loop_close\<close> may close the loop.\<close>

definition loop_busy :: "uv_loop \<Rightarrow> bool" where
  "loop_busy s \<longleftrightarrow> uv__has_active_reqs s \<or> (\<exists>h \<in> set (handle_queue s). flags (handle s h) AND UV_HANDLE_INTERNAL = 0)"

end
