(* ===== verification/Client.thy ===== *)
theory Client
  imports Loop
begin

unbundle bit_operations_syntax

text \<open>
  The invariant of a whole loop and the calls that programs make on it: every legal call
  returns and keeps the invariant, so programs made of legal calls are clients in the sense of
  the locales of the components, and each locale is interpreted on them.
\<close>

section \<open>The invariant\<close>

definition kinds :: "uv_handle_type set" where
  "kinds = {UV_TIMER, UV_PREPARE, UV_CHECK, UV_IDLE, UV_POLL, UV_ASYNC}"

text \<open>
  The closing handles of a loop are those on the list \<open>closing_handles\<close> and, while
  \<open>uv__run_closing_handles\<close> runs, those it still has to finish, \<open>L\<close>, here with the callback that
  waits for each of them. A closing handle is never active.
\<close>

definition closing_ok :: "(ptr \<times> ptr) list \<Rightarrow> uv_loop \<Rightarrow> bool" where
  "closing_ok L s \<longleftrightarrow> distinct (map fst L @ closing_handles s) \<and>
     set (map fst L @ closing_handles s) = {h \<in> set (all_handles s). closing s h} \<and>
     (\<forall>(h, cb) \<in> set L. close_cb (handle s h) = cb) \<and>
     (\<forall>h \<in> set (all_handles s). htype (handle s h) \<in> kinds \<and> \<not> closed s h \<and> (closing s h \<longrightarrow> \<not> active s h))"

definition core_ok :: "uv_loop \<Rightarrow> bool" where
  "core_ok s \<longleftrightarrow> counts_ok s \<and> timers_ok s \<and> watchers_ok s \<and> polling_ok s \<and> polls_ok s \<and> asyncs_ok s \<and>
     pending_queue s = [] \<and> pending_run s = [] \<and> fd (io s (async_io_watcher s)) \<noteq> -1"

definition loop_ok :: "(ptr \<times> ptr) list \<Rightarrow> uv_loop \<Rightarrow> bool" where
  "loop_ok L s \<longleftrightarrow> core_ok s \<and> closing_ok L s"

lemma loop_okD:
  assumes "loop_ok L s"
  shows "counts_ok s" "timers_ok s" "watchers_ok s" "polling_ok s" "polls_ok s" "asyncs_ok s"
    "pending_queue s = []" "pending_run s = []" "fd (io s (async_io_watcher s)) \<noteq> -1" "core_ok s" "closing_ok L s"
  using assms by (simp_all add: loop_ok_def core_ok_def)

lemma core_okD:
  assumes "core_ok s"
  shows "counts_ok s" "timers_ok s" "watchers_ok s" "polling_ok s" "polls_ok s" "asyncs_ok s"
    "pending_queue s = []" "pending_run s = []" "fd (io s (async_io_watcher s)) \<noteq> -1"
  using assms by (simp_all add: core_ok_def)

text \<open>What every call leaves alone of the functions that are running.\<close>

definition api_frame :: "uv_loop \<Rightarrow> uv_loop \<Rightarrow> bool" where
  "api_frame s s' \<longleftrightarrow> callback_frame s s' \<and> poll_fds_iterating s' = poll_fds_iterating s \<and>
     (poll_fds_iterating s \<longrightarrow> poll_fds_used s' = poll_fds_used s) \<and> walk_queue s' = walk_queue s \<and>
     (\<forall>h \<in> set (all_handles s). h \<in> set (all_handles s') \<and> internal s' h = internal s h)"

lemma api_frame_refl: "api_frame s s"
  by (simp add: api_frame_def callback_frame_refl)

lemma api_frame_trans: "api_frame s s' \<Longrightarrow> api_frame s' s'' \<Longrightarrow> api_frame s s''"
  unfolding api_frame_def using callback_frame_trans [of s s' s''] by simp

section \<open>One component at a time\<close>

text \<open>No handle of type \<open>T\<close> is started, stopped, added or removed.\<close>

definition quiet_for :: "uv_handle_type \<Rightarrow> uv_loop \<Rightarrow> uv_loop \<Rightarrow> bool" where
  "quiet_for T s s' \<longleftrightarrow> all_handles s' = all_handles s \<and>
     (\<forall>g. htype (handle s' g) = htype (handle s g) \<and> (htype (handle s g) = T \<longrightarrow> active s' g = active s g))"

definition one_handle :: "ptr \<Rightarrow> uv_loop \<Rightarrow> uv_loop \<Rightarrow> bool" where
  "one_handle h s s' \<longleftrightarrow> all_handles s' = all_handles s \<and> (\<forall>g. g \<noteq> h \<longrightarrow> handle s' g = handle s g) \<and>
     htype (handle s' h) = htype (handle s h) \<and> close_cb (handle s' h) = close_cb (handle s h) \<and>
     (\<forall>n. n \<noteq> 2 \<longrightarrow> bit (flags (handle s' h)) n = bit (flags (handle s h)) n)"

lemma one_handle_quiet:
  assumes "one_handle h s s'" "htype (handle s h) \<noteq> T"
  shows "quiet_for T s s'"
proof -
  have "htype (handle s' g) = htype (handle s g) \<and> (htype (handle s g) = T \<longrightarrow> active s' g = active s g)" for g
    using assms by (cases "g = h") (auto simp: one_handle_def)
  then show ?thesis using assms(1) by (simp add: quiet_for_def one_handle_def)
qed

lemma one_handle_frames:
  "timer_frame h s s' \<Longrightarrow> one_handle h s s'" "watcher_frame h s s' \<Longrightarrow> one_handle h s s'"
  "poll_handle_frame h s s' \<Longrightarrow> one_handle h s s'" "async_frame h s s' \<Longrightarrow> one_handle h s s'"
proof -
  assume f: "timer_frame h s s'"
  then have "close_cb (handle s' h) = close_cb (handle s h)" by (auto simp: timer_frame_def)
  then show "one_handle h s s'" using timer_frameD [OF f] by (simp add: one_handle_def)
next
  assume f: "watcher_frame h s s'"
  then have "erase_watchers s' = erase_watchers s" by (simp add: watcher_frame_def)
  from erase_watchersD [OF this] f show "one_handle h s s'" by (simp add: one_handle_def watcher_frame_def)
next
  assume f: "poll_handle_frame h s s'"
  then have "erase_polls s' = erase_polls s" by (simp add: poll_handle_frame_def)
  from erase_pollsD [OF this] f show "one_handle h s s'" by (simp add: one_handle_def poll_handle_frame_def)
next
  assume f: "async_frame h s s'"
  then have "erase_asyncs s' = erase_asyncs s" by (simp add: async_frame_def)
  from erase_asyncsD [OF this] f show "one_handle h s s'" by (simp add: one_handle_def async_frame_def)
qed

lemma timers_keep:
  assumes "timers_ok s" "quiet_for UV_TIMER s s'" "timer_heap s' = timer_heap s" "timer s' = timer s" "ready_queue s' = ready_queue s"
  shows "timers_ok s'"
proof (rule timers_ok_cong [OF assms(1,3-5)])
  show "active_timers s' = active_timers s" using assms(2) by (auto simp: active_timers_def quiet_for_def)
  fix h assume "h \<in> set (ready_queue s)"
  then have "a_timer s h" using assms(1) by (simp add: timers_ok_def)
  then show "h \<in> set (all_handles s') \<and> htype (handle s' h) = htype (handle s h) \<and> active s' h = active s h"
    using assms(2) by (simp add: quiet_for_def)
qed

lemma watchers_keep:
  assumes "watchers_ok s" "\<And>k. quiet_for (watcher_type k) s s'" "watcher_handles s' = watcher_handles s"
    "run_queue s' = run_queue s" "watcher_cb s' = watcher_cb s"
  shows "watchers_ok s'"
proof (rule watchers_ok_cong [OF assms(1,3,4) _ assms(5)])
  show "active_watchers k s' = active_watchers k s" for k
    using assms(2) [of k] by (auto simp: active_watchers_def quiet_for_def)
qed

lemma asyncs_keep:
  assumes "asyncs_ok s" "quiet_for UV_ASYNC s s'" "async_run s' = async_run s" "async_handles s' = async_handles s"
  shows "asyncs_ok s'"
proof (rule asyncs_ok_cong [OF assms(1,3,4)])
  show "active_asyncs s' = active_asyncs s" using assms(2) by (auto simp: active_asyncs_def quiet_for_def)
qed

lemma polls_keep:
  assumes "polls_ok s" "quiet_for UV_POLL s s'" "io s' = io s" "poll_cb s' = poll_cb s"
    "async_io_watcher s' = async_io_watcher s" "signal_io_watcher s' = signal_io_watcher s"
  shows "polls_ok s'"
  using assms(1,2) unfolding polls_ok_def quiet_for_def assms(3-6) by auto

lemma polling_keep:
  assumes "polling_ok s" "erase_polls s' = erase_polls s" "io s' = io s" "watchers s' = watchers s" "nwatchers s' = nwatchers s"
    "nfds s' = nfds s" "watcher_queue s' = watcher_queue s" "poll_fds s' = poll_fds s" "poll_fds_used s' = poll_fds_used s"
  shows "polling_ok s'"
proof (rule polling_ok_cong [OF assms(1,3-7)])
  show "pending_queue s' = pending_queue s" "pending_run s' = pending_run s"
    "poll_fds_iterating s \<longrightarrow> poll_fds_iterating s'" using erase_pollsD [OF assms(2)] by simp_all
  show "interest s' = interest s" "poll_fds_used s' \<le> length (poll_fds s')"
    using assms(1) by (simp_all add: interest_def assms(8,9) polling_ok_def entries_ok_def)
qed

lemma closing_step:
  assumes "closing_ok L s" "one_handle h s s'" "closing_handles s' = closing_handles s"
    and "closing s h \<Longrightarrow> active s' h \<Longrightarrow> active s h"
  shows "closing_ok L s'"
proof -
  have g: "htype (handle s' g) = htype (handle s g)" "close_cb (handle s' g) = close_cb (handle s g)"
    "closing s' g = closing s g" "closed s' g = closed s g" "closing s g \<Longrightarrow> active s' g \<Longrightarrow> active s g" for g
    using assms(2,4) by (cases "g = h"; simp add: one_handle_def)+
  have "all_handles s' = all_handles s" using assms(2) by (simp add: one_handle_def)
  then show ?thesis using assms(1,3) g(5) unfolding closing_ok_def by (auto simp: g(1-4) simp del: One_nat_def)
qed

section \<open>The core invariant, component by component\<close>

lemma core_timers:
  assumes "core_ok s" "erase_timers s' = erase_timers s" "\<And>T. T \<noteq> UV_TIMER \<Longrightarrow> quiet_for T s s'" "counts_ok s'" "timers_ok s'"
  shows "core_ok s'"
proof -
  note c = core_okD [OF assms(1)] and e = erase_timersD [OF assms(2)] and q = assms(3)
  have w: "watcher_type k \<noteq> UV_TIMER" for k by (cases k) simp_all
  have "watchers_ok s'" by (rule watchers_keep [OF c(3) q [OF w]]) (simp_all add: e)
  moreover have "polling_ok s'" using c(4)
    by (intro polling_ok_cong [OF c(4)]) (auto simp: e interest_def polling_ok_def entries_ok_def)
  moreover have "polls_ok s'" by (rule polls_keep [OF c(5) q]) (simp_all add: e)
  moreover have "asyncs_ok s'" by (rule asyncs_keep [OF c(6) q]) (simp_all add: e)
  ultimately show ?thesis using assms(4,5) c(7-9) by (simp add: core_ok_def e)
qed

lemma core_timer:
  assumes "core_ok s" "a_timer s h" "timer_frame h s s'" "counts_ok s'" "timers_ok s'"
  shows "core_ok s'"
proof (rule core_timers [OF assms(1) timer_frameD(2) [OF assms(3)] _ assms(4,5)])
  show "quiet_for T s s'" if "T \<noteq> UV_TIMER" for T
    by (rule one_handle_quiet [OF one_handle_frames(1) [OF assms(3)]]) (use assms(2) that in auto)
qed

lemma core_watcher:
  assumes "core_ok s" "htype (handle s h) = watcher_type k" "watcher_frame h s s'" "counts_ok s'" "watchers_ok s'"
  shows "core_ok s'"
proof -
  have "erase_watchers s' = erase_watchers s" using assms(3) by (simp add: watcher_frame_def)
  note c = core_okD [OF assms(1)] and e = erase_watchersD [OF this]
  have q: "quiet_for T s s'" if "T \<noteq> watcher_type k" for T
    by (rule one_handle_quiet [OF one_handle_frames(2) [OF assms(3)]]) (use assms(2) that in auto)
  have w: "UV_TIMER \<noteq> watcher_type k" "UV_POLL \<noteq> watcher_type k" "UV_ASYNC \<noteq> watcher_type k" by (cases k; simp)+
  have "timers_ok s'" by (rule timers_keep [OF c(2) q [OF w(1)]]) (simp_all add: e)
  moreover have "polling_ok s'" using c(4)
    by (intro polling_ok_cong [OF c(4)]) (auto simp: e interest_def polling_ok_def entries_ok_def)
  moreover have "polls_ok s'" by (rule polls_keep [OF c(5) q [OF w(2)]]) (simp_all add: e)
  moreover have "asyncs_ok s'" by (rule asyncs_keep [OF c(6) q [OF w(3)]]) (simp_all add: e)
  ultimately show ?thesis using assms(4,5) c(7-9) by (simp add: core_ok_def e)
qed

lemma core_poll:
  assumes "core_ok s" "htype (handle s h) = UV_POLL" "poll_handle_frame h s s'" "counts_ok s'" "polling_ok s'" "polls_ok s'"
  shows "core_ok s'"
proof -
  have f: "erase_polls s' = erase_polls s" "\<And>v. fd (io s' v) = fd (io s v)"
    using assms(3) by (simp_all add: poll_handle_frame_def)
  note c = core_okD [OF assms(1)] and e = erase_pollsD [OF f(1)]
  have q: "quiet_for T s s'" if "T \<noteq> UV_POLL" for T
    by (rule one_handle_quiet [OF one_handle_frames(3) [OF assms(3)]]) (use assms(2) that in auto)
  have w: "watcher_type k \<noteq> UV_POLL" for k by (cases k) simp_all
  have "timers_ok s'" by (rule timers_keep [OF c(2) q]) (simp_all add: e)
  moreover have "watchers_ok s'" by (rule watchers_keep [OF c(3) q [OF w]]) (simp_all add: e)
  moreover have "asyncs_ok s'" by (rule asyncs_keep [OF c(6) q]) (simp_all add: e)
  ultimately show ?thesis using assms(4-6) c(7-9) f(2) by (simp add: core_ok_def e)
qed

lemma core_async:
  assumes "core_ok s" "htype (handle s h) = UV_ASYNC" "async_frame h s s'" "counts_ok s'" "asyncs_ok s'"
  shows "core_ok s'"
proof -
  have "erase_asyncs s' = erase_asyncs s" using assms(3) by (simp add: async_frame_def)
  note c = core_okD [OF assms(1)] and e = erase_asyncsD [OF this]
  have q: "quiet_for T s s'" if "T \<noteq> UV_ASYNC" for T
    by (rule one_handle_quiet [OF one_handle_frames(4) [OF assms(3)]]) (use assms(2) that in auto)
  have w: "watcher_type k \<noteq> UV_ASYNC" for k by (cases k) simp_all
  have "timers_ok s'" by (rule timers_keep [OF c(2) q]) (simp_all add: e)
  moreover have "watchers_ok s'" by (rule watchers_keep [OF c(3) q [OF w]]) (simp_all add: e)
  moreover have "polling_ok s'" using c(4)
    by (intro polling_ok_cong [OF c(4)]) (auto simp: e interest_def polling_ok_def entries_ok_def)
  moreover have "polls_ok s'" by (rule polls_keep [OF c(5) q]) (simp_all add: e)
  ultimately show ?thesis using assms(4,5) c(7-9) by (simp add: core_ok_def e)
qed

text \<open>Changes of other flags, and of fields that no invariant mentions.\<close>

lemma core_flags:
  assumes "core_ok s" "counts_ok s'" "\<And>T. quiet_for T s s'"
    and "s' = s\<lparr>handle := handle s', active_handles := active_handles s', stop_flag := stop_flag s',
      closing_handles := closing_handles s', time := time s', readings := readings s', called := called s', loop_count := loop_count s'\<rparr>"
  shows "core_ok s'"
proof -
  note c = core_okD [OF assms(1)]
  have e: "timer_heap s' = timer_heap s" "timer s' = timer s" "ready_queue s' = ready_queue s" "watcher_handles s' = watcher_handles s"
    "run_queue s' = run_queue s" "watcher_cb s' = watcher_cb s" "async_run s' = async_run s" "async_handles s' = async_handles s"
    "io s' = io s" "poll_cb s' = poll_cb s" "async_io_watcher s' = async_io_watcher s" "signal_io_watcher s' = signal_io_watcher s"
    "watchers s' = watchers s" "nwatchers s' = nwatchers s" "nfds s' = nfds s" "watcher_queue s' = watcher_queue s"
    "pending_queue s' = pending_queue s" "pending_run s' = pending_run s" "poll_fds s' = poll_fds s"
    "poll_fds_used s' = poll_fds_used s" "poll_fds_iterating s' = poll_fds_iterating s"
    by (subst assms(4), simp)+
  have "timers_ok s'" by (rule timers_keep [OF c(2) assms(3)]) (simp_all add: e)
  moreover have "watchers_ok s'" by (rule watchers_keep [OF c(3) assms(3)]) (simp_all add: e)
  moreover have "polling_ok s'" using c(4)
    by (intro polling_ok_cong [OF c(4)]) (auto simp: e interest_def polling_ok_def entries_ok_def)
  moreover have "polls_ok s'" by (rule polls_keep [OF c(5) assms(3)]) (simp_all add: e)
  moreover have "asyncs_ok s'" by (rule asyncs_keep [OF c(6) assms(3)]) (simp_all add: e)
  ultimately show ?thesis using assms(2) c(7-9) by (simp add: core_ok_def e)
qed

lemma one_handle_internal: "one_handle h s s' \<Longrightarrow> \<forall>g \<in> set (all_handles s). g \<in> set (all_handles s') \<and> internal s' g = internal s g"
proof
  fix g assume "one_handle h s s'" "g \<in> set (all_handles s)"
  then show "g \<in> set (all_handles s') \<and> internal s' g = internal s g" by (cases "g = h") (simp_all add: one_handle_def)
qed

lemma api_frames:
  "timer_frame h s s' \<Longrightarrow> subseq (ready_queue s') (ready_queue s) \<Longrightarrow> api_frame s s'"
  "watcher_frame h s s' \<Longrightarrow> api_frame s s'" "poll_handle_frame h s s' \<Longrightarrow> api_frame s s'"
  "async_frame h s s' \<Longrightarrow> api_frame s s'"
proof -
  note i = one_handle_internal [OF one_handle_frames(1)] one_handle_internal [OF one_handle_frames(2)]
    one_handle_internal [OF one_handle_frames(3)] one_handle_internal [OF one_handle_frames(4)]
  { assume f: "timer_frame h s s'" "subseq (ready_queue s') (ready_queue s)"
    from erase_timersD [OF timer_frameD(2) [OF f(1)]] f(2) i(1) [OF f(1)] show "api_frame s s'"
      by (simp add: api_frame_def callback_frame_def) }
  { assume f: "watcher_frame h s s'"
    then have "erase_watchers s' = erase_watchers s" by (simp add: watcher_frame_def)
    from erase_watchersD [OF this] f i(2) [OF f] show "api_frame s s'" by (simp add: api_frame_def callback_frame_def watcher_frame_def) }
  { assume f: "poll_handle_frame h s s'"
    then have "erase_polls s' = erase_polls s" by (simp add: poll_handle_frame_def)
    from erase_pollsD [OF this] f i(3) [OF f] show "api_frame s s'" by (simp add: api_frame_def callback_frame_def poll_handle_frame_def) }
  { assume f: "async_frame h s s'"
    then have "erase_asyncs s' = erase_asyncs s" by (simp add: async_frame_def)
    from erase_asyncsD [OF this] f i(4) [OF f] show "api_frame s s'" by (simp add: api_frame_def callback_frame_def async_frame_def) }
qed

section \<open>New handles\<close>

definition fresh :: "ptr \<Rightarrow> uv_loop \<Rightarrow> bool" where
  "fresh h s \<longleftrightarrow> h \<noteq> NULL \<and> h \<notin> set (all_handles s) \<and> length (all_handles s) + 1 < 2 ^ 32 \<and>
     h \<noteq> async_io_watcher s \<and> h \<noteq> signal_io_watcher s"

lemma fresh_code [code]:
  "fresh h s \<longleftrightarrow> h \<noteq> NULL \<and> h \<notin> set (all_handles s) \<and> int (length (all_handles s)) + 1 < 4294967296 \<and>
     h \<noteq> async_io_watcher s \<and> h \<noteq> signal_io_watcher s"
  unfolding fresh_def by auto

lemma init_actives:
  assumes "h \<notin> set (all_handles s)"
  shows "active_timers (uv__handle_init T h s) = active_timers s"
    "active_watchers k (uv__handle_init T h s) = active_watchers k s"
    "active_asyncs (uv__handle_init T h s) = active_asyncs s"
  using assms by (auto simp: active_timers_def active_watchers_def active_asyncs_def flag_update)

lemma core_init_parts:
  assumes "core_ok s" "fresh h s"
  shows "counts_ok (uv__handle_init T h s)" "timers_ok (uv__handle_init T h s)" "watchers_ok (uv__handle_init T h s)"
    "polling_ok (uv__handle_init T h s)" "asyncs_ok (uv__handle_init T h s)"
proof -
  let ?s = "uv__handle_init T h s"
  note c = core_okD [OF assms(1)]
  have f: "h \<notin> set (all_handles s)" "h \<noteq> NULL" "length (all_handles s) + 1 < 2 ^ 32" using assms(2) by (simp_all add: fresh_def)
  note a = init_actives [OF f(1)]
  show "counts_ok ?s" using counts_ok_init [OF c(1) f] .
  show "timers_ok ?s"
  proof (rule timers_ok_cong [OF c(2)])
    show "active_timers ?s = active_timers s" by (rule a)
    fix g assume "g \<in> set (ready_queue s)"
    then have "a_timer s g" using c(2) by (simp add: timers_ok_def)
    then show "g \<in> set (all_handles ?s) \<and> htype (handle ?s g) = htype (handle s g) \<and> active ?s g = active s g"
      using f(1) by auto
  qed simp_all
  show "watchers_ok ?s" by (rule watchers_ok_cong [OF c(3)]) (simp_all add: a)
  show "polling_ok ?s" using c(4)
    by (intro polling_ok_cong [OF c(4)]) (auto simp: interest_def polling_ok_def entries_ok_def)
  show "asyncs_ok ?s" by (rule asyncs_ok_cong [OF c(6)]) (simp_all add: a)
qed

lemma core_init:
  assumes "core_ok s" "fresh h s" "T \<noteq> UV_POLL"
  shows "core_ok (uv__handle_init T h s)"
proof -
  note c = core_okD [OF assms(1)] and p = core_init_parts [OF assms(1,2), of T]
  have "polls_ok (uv__handle_init T h s)" using c(5) assms(2,3) by (auto simp: polls_ok_def fresh_def flag_update)
  then show ?thesis using p c(7-9) by (simp add: core_ok_def)
qed

lemma closing_init:
  assumes "closing_ok L s" "h \<notin> set (all_handles s)" "T \<in> kinds"
  shows "closing_ok L (uv__handle_init T h s)"
proof -
  have "fst ` set L \<subseteq> set (all_handles s)" using assms(1) by (auto simp: closing_ok_def)
  then show ?thesis using assms by (auto simp: closing_ok_def flag_update simp del: One_nat_def)
qed

lemma api_init: "h \<notin> set (all_handles s) \<Longrightarrow> api_frame s (uv__handle_init T h s)"
  by (auto simp: api_frame_def callback_frame_def)

lemma init_kinds: "UV_TIMER \<in> kinds" "watcher_type k \<in> kinds" "UV_POLL \<in> kinds" "UV_ASYNC \<in> kinds"
  by (simp_all add: kinds_def) (cases k; simp)

lemma timer_init_loop:
  assumes "loop_ok L s" "fresh h s"
  shows "loop_ok L (uv_timer_init h s)" "api_frame s (uv_timer_init h s)"
proof -
  let ?i = "uv__handle_init UV_TIMER h s" and ?s = "uv_timer_init h s"
  note l = loop_okD [OF assms(1)]
  have f: "h \<notin> set (all_handles s)" "h \<noteq> NULL" "length (all_handles s) + 1 < 2 ^ 32" using assms(2) by (simp_all add: fresh_def)
  have fr: "timer_frame h ?i ?s" using timer_frame_refl [of h ?i] by (simp add: timer_frame_def uv_timer_init_def set_timer_def Let_def)
  have r: "subseq (ready_queue ?s) (ready_queue ?i)" by (simp add: uv_timer_init_def set_timer_def Let_def)
  have "core_ok ?s"
    by (rule core_timer [OF core_init [OF l(10) assms(2), of UV_TIMER] _ fr timer_init_ok [OF l(1,2) f]]) simp_all
  moreover have "closing_ok L ?s"
    by (rule closing_step [OF closing_init [OF l(11) f(1) init_kinds(1)] one_handle_frames(1) [OF fr]])
      (simp_all add: uv_timer_init_def set_timer_def Let_def)
  ultimately show "loop_ok L ?s" by (simp add: loop_ok_def)
  show "api_frame s ?s" using api_frame_trans [OF api_init [OF f(1)] api_frames(1) [OF fr r]] .
qed

lemma watcher_init_loop:
  assumes "loop_ok L s" "fresh h s"
  shows "loop_ok L (uv_watcher_init k h s)" "api_frame s (uv_watcher_init k h s)"
proof -
  let ?i = "uv__handle_init (watcher_type k) h s" and ?s = "uv_watcher_init k h s"
  note l = loop_okD [OF assms(1)]
  have f: "h \<notin> set (all_handles s)" "h \<noteq> NULL" "length (all_handles s) + 1 < 2 ^ 32" using assms(2) by (simp_all add: fresh_def)
  have fr: "watcher_frame h ?i ?s" by (simp add: watcher_frame_def uv_watcher_init_def Let_def)
  have w: "watcher_type k \<noteq> UV_POLL" by (cases k) simp_all
  have "core_ok ?s"
    by (rule core_watcher [OF core_init [OF l(10) assms(2) w] _ fr watcher_init_ok [OF l(1,3) f]]) simp
  moreover have "closing_ok L ?s"
    by (rule closing_step [OF closing_init [OF l(11) f(1) init_kinds(2)] one_handle_frames(2) [OF fr]])
      (simp_all add: uv_watcher_init_def Let_def)
  ultimately show "loop_ok L ?s" by (simp add: loop_ok_def)
  show "api_frame s ?s" using api_frame_trans [OF api_init [OF f(1)] api_frames(2) [OF fr]] .
qed

lemma async_init_loop:
  assumes "loop_ok L s" "fresh h s"
  shows "\<exists>s'. uv_async_init ev h cb s = Some (None, s') \<and> loop_ok L s' \<and> api_frame s s'"
proof -
  let ?i = "uv__handle_init UV_ASYNC h s"
  note l = loop_okD [OF assms(1)]
  have f: "h \<notin> set (all_handles s)" "h \<noteq> NULL" "length (all_handles s) + 1 < 2 ^ 32" using assms(2) by (simp_all add: fresh_def)
  from async_init_ok [OF l(1,6) f l(9), of ev cb] obtain s' where
    s': "uv_async_init ev h cb s = Some (None, s')" "counts_ok s'" "asyncs_ok s'"
      "s' = uv__handle_start h (?i\<lparr>async := (async s)(h := \<lparr>async_cb = cb, pending = False\<rparr>), async_handles := async_handles s @ [h]\<rparr>)" by blast
  have fr: "async_frame h ?i s'" unfolding async_frame_def s'(4) by (simp add: macro_handles flag_update)
  have "core_ok s'" by (rule core_async [OF core_init [OF l(10) assms(2)] _ fr s'(2,3)]) simp_all
  moreover have "closing_ok L s'"
    by (rule closing_step [OF closing_init [OF l(11) f(1) init_kinds(4)] one_handle_frames(4) [OF fr]])
      (simp_all add: s'(4) flag_update)
  ultimately show ?thesis using s'(1) api_frame_trans [OF api_init [OF f(1)] api_frames(4) [OF fr]] by (simp add: loop_ok_def)
qed

lemma poll_init_loop:
  assumes "loop_ok L s" "fresh h s" "0 \<le> f" "f \<le> 2147483645" "uv_poll_init c h f s = Some (r, s')"
  shows "loop_ok L s'" "api_frame s s'"
proof -
  note l = loop_okD [OF assms(1)]
  have fr: "h \<notin> set (all_handles s)" "h \<noteq> NULL" "length (all_handles s) + 1 < 2 ^ 32" "h \<noteq> async_io_watcher s" "h \<noteq> signal_io_watcher s"
    using assms(2) by (simp_all add: fresh_def)
  note p = poll_init_ok [OF l(1,4,5) fr assms(3-5)]
  have "loop_ok L s' \<and> api_frame s s'"
  proof (cases r)
    case None
    let ?i = "uv__handle_init UV_POLL h s"
    note i = core_init_parts [OF l(10) assms(2), of UV_POLL]
    have s': "s' = ?i\<lparr>io := (io s)(h := \<lparr>io_cb = Uv__poll_io, pevents = 0, events = 0, fd = f\<rparr>), poll_cb := (poll_cb s)(h := NULL)\<rparr>"
      using p None by blast
    have q: "quiet_for T ?i s'" for T by (simp add: quiet_for_def s')
    have "timers_ok s'" by (rule timers_keep [OF i(2) q]) (simp_all add: s')
    moreover have "watchers_ok s'" by (rule watchers_keep [OF i(3) q]) (simp_all add: s')
    moreover have "asyncs_ok s'" by (rule asyncs_keep [OF i(5) q]) (simp_all add: s')
    ultimately have "core_ok s'" using p l(7-9) fr(4) by (simp add: core_ok_def s')
    moreover have "closing_ok L s'"
      by (rule closing_step [OF closing_init [OF l(11) fr(1) init_kinds(3)], of h]) (simp_all add: s' one_handle_def)
    moreover have "api_frame ?i s'" by (simp add: api_frame_def callback_frame_def s')
    ultimately show ?thesis using api_frame_trans [OF api_init [OF fr(1)]] by (simp add: loop_ok_def)
  next
    case (Some e)
    then show ?thesis using p assms(1) api_frame_refl by simp
  qed
  then show "loop_ok L s'" "api_frame s s'" by blast+
qed

section \<open>Operations on one handle\<close>

lemma timer_op_loop:
  assumes "loop_ok L s" "a_timer s h" "timer_frame h s s'" "counts_ok s'" "timers_ok s'" "subseq (ready_queue s') (ready_queue s)"
  shows "loop_ok L s'" "api_frame s s'"
proof -
  note l = loop_okD [OF assms(1)] and e = erase_timersD [OF timer_frameD(2) [OF assms(3)]]
  have "closing_ok L s'"
    by (rule closing_step [OF l(11) one_handle_frames(1) [OF assms(3)]]) (use assms(3) e in \<open>auto simp: timer_frame_def\<close>)
  then show "loop_ok L s'" using core_timer [OF l(10) assms(2-5)] by (simp add: loop_ok_def)
  show "api_frame s s'" by (rule api_frames(1) [OF assms(3,6)])
qed

lemma timer_stop_loop:
  assumes "loop_ok L s" "a_timer s h"
  shows "\<exists>s'. uv_timer_stop h s = Some s' \<and> loop_ok L s' \<and> api_frame s s'"
proof -
  note l = loop_okD [OF assms(1)]
  from timer_stop_ok [OF l(1,2) assms(2)] obtain s' where
    "uv_timer_stop h s = Some s'" "counts_ok s'" "timers_ok s'" "timer_frame h s s'" "ready_queue s' = remove1 h (ready_queue s)" by blast
  then show ?thesis using timer_op_loop [OF assms(1,2), of s'] subseq_remove1 by metis
qed

lemma timer_start_loop:
  assumes "loop_ok L s" "a_timer s h"
  shows "\<exists>r s'. uv_timer_start h cb tmo rep s = Some (r, s') \<and> loop_ok L s' \<and> api_frame s s'"
proof (cases "uv__is_closing h s \<or> cb = NULL")
  case True
  then have "uv_timer_start h cb tmo rep s = Some (Some UV_EINVAL, s)" by (simp add: uv_timer_start_def)
  then show ?thesis using assms(1) api_frame_refl by blast
next
  case False
  note l = loop_okD [OF assms(1)]
  from timer_start_ok [OF l(1,2) assms(2), of cb tmo rep] False obtain s' where
    "uv_timer_start h cb tmo rep s = Some (None, s')" "counts_ok s'" "timers_ok s'" "timer_frame h s s'"
    "ready_queue s' = remove1 h (ready_queue s)" by blast
  then show ?thesis using timer_op_loop [OF assms(1,2), of s'] subseq_remove1 by metis
qed

lemma timer_again_loop:
  assumes "loop_ok L s" "a_timer s h"
  shows "\<exists>r s'. uv_timer_again h s = Some (r, s') \<and> loop_ok L s' \<and> api_frame s s'"
proof -
  consider "timer_cb (timer s h) = NULL \<or> repeat_in (timer s h) = 0"
    | "timer_cb (timer s h) \<noteq> NULL" "repeat_in (timer s h) \<noteq> 0" by blast
  then show ?thesis
  proof cases
    case 1
    then have "\<exists>r. uv_timer_again h s = Some (r, s)" by (auto simp: uv_timer_again_def)
    then show ?thesis using assms(1) api_frame_refl by blast
  next
    case 2
    from timer_stop_loop [OF assms] obtain s1 where s1: "uv_timer_stop h s = Some s1" "loop_ok L s1" "api_frame s s1" by blast
    have "timer s1 = timer s" "all_handles s1 = all_handles s" "htype (handle s1 h) = htype (handle s h)"
      using timer_stop_ok [OF loop_okD(1,2) [OF assms(1)] assms(2)] s1(1) timer_frameD [of h s s1] by auto
    then have "a_timer s1 h" "timer s1 = timer s" using assms(2) by simp_all
    moreover obtain r s2 where "uv_timer_start h (timer_cb (timer s h)) (repeat_in (timer s h)) (repeat_in (timer s h)) s1 = Some (r, s2)"
      "loop_ok L s2" "api_frame s1 s2" using timer_start_loop [OF s1(2) calculation(1)] by blast
    ultimately show ?thesis using 2 s1 api_frame_trans by (auto simp: uv_timer_again_def)
  qed
qed

lemma timer_set_repeat_loop:
  assumes "loop_ok L s" "a_timer s h"
  shows "loop_ok L (uv_timer_set_repeat h r s)" "api_frame s (uv_timer_set_repeat h r s)"
proof -
  let ?s = "uv_timer_set_repeat h r s"
  note l = loop_okD [OF assms(1)]
  have f: "timer_frame h s ?s" using timer_frame_refl [of h s] by (simp add: timer_frame_def uv_timer_set_repeat_def set_timer_def)
  have e: "all_handles ?s = all_handles s" "handle ?s = handle s" "active_handles ?s = active_handles s"
    "timer_heap ?s = timer_heap s" "ready_queue ?s = ready_queue s"
    "\<And>g. timeout (timer ?s g) = timeout (timer s g)" "\<And>g. start_id (timer ?s g) = start_id (timer s g)"
    "\<And>g. timer_cb (timer ?s g) = timer_cb (timer s g)"
    by (simp_all add: uv_timer_set_repeat_def set_timer_def)
  have a: "active_timers ?s = active_timers s" "timer_less_than ?s = timer_less_than s"
    by (simp_all add: active_timers_def e timer_less_than_def fun_eq_iff Let_def)
  have "timers_ok ?s" using l(2) unfolding timers_ok_def a by (simp add: e)
  moreover have "counts_ok ?s" by (rule counts_ok_cong [OF l(1) e(1-3)])
  ultimately show "loop_ok L ?s" "api_frame s ?s" using timer_op_loop [OF assms f] e(5) by simp_all
qed

lemma watcher_op_loop:
  assumes "loop_ok L s" "htype (handle s h) = watcher_type k" "watcher_frame h s s'" "counts_ok s'" "watchers_ok s'"
    and "closing s h \<Longrightarrow> active s' h \<Longrightarrow> active s h"
  shows "loop_ok L s'" "api_frame s s'"
proof -
  have "erase_watchers s' = erase_watchers s" using assms(3) by (simp add: watcher_frame_def)
  note l = loop_okD [OF assms(1)] and e = erase_watchersD [OF this]
  have "closing_ok L s'"
    by (rule closing_step [OF l(11) one_handle_frames(2) [OF assms(3)]]) (use assms(6) e in auto)
  then show "loop_ok L s'" using core_watcher [OF l(10) assms(2-5)] by (simp add: loop_ok_def)
  show "api_frame s s'" by (rule api_frames(2) [OF assms(3)])
qed

lemma poll_op_loop:
  assumes "loop_ok L s" "htype (handle s h) = UV_POLL" "poll_handle_frame h s s'" "counts_ok s'" "polling_ok s'" "polls_ok s'"
    and "closing s h \<Longrightarrow> active s' h \<Longrightarrow> active s h"
  shows "loop_ok L s'" "api_frame s s'"
proof -
  have "erase_polls s' = erase_polls s" using assms(3) by (simp add: poll_handle_frame_def)
  note l = loop_okD [OF assms(1)] and e = erase_pollsD [OF this]
  have "closing_ok L s'"
    by (rule closing_step [OF l(11) one_handle_frames(3) [OF assms(3)]]) (use assms(7) e in auto)
  then show "loop_ok L s'" using core_poll [OF l(10) assms(2-6)] by (simp add: loop_ok_def)
  show "api_frame s s'" by (rule api_frames(3) [OF assms(3)])
qed

lemma async_send_loop:
  assumes "loop_ok L s" "h \<in> set (all_handles s)" "htype (handle s h) = UV_ASYNC"
  shows "loop_ok L (uv_async_send h s)" "api_frame s (uv_async_send h s)"
proof -
  note l = loop_okD [OF assms(1)] and a = async_send_ok [OF loop_okD(1,6) [OF assms(1)], of h]
  have "erase_asyncs (uv_async_send h s) = erase_asyncs s" using a(3) by (simp add: async_frame_def)
  then have "closing_handles (uv_async_send h s) = closing_handles s" by (rule erase_asyncsD)
  then have "closing_ok L (uv_async_send h s)"
    by (rule closing_step [OF l(11) one_handle_frames(4) [OF a(3)]]) (simp add: a(5))
  then show "loop_ok L (uv_async_send h s)" using core_async [OF l(10) assms(3) a(3,1,2)] by (simp add: loop_ok_def)
  show "api_frame s (uv_async_send h s)" by (rule api_frames(4) [OF a(3)])
qed

text \<open>References, the stop flag and the clock.\<close>

lemma ref_loop:
  assumes "loop_ok L s" "h \<in> set (all_handles s)"
  shows "loop_ok L (uv_ref h s)" "api_frame s (uv_ref h s)" "loop_ok L (uv_unref h s)" "api_frame s (uv_unref h s)"
proof -
  note l = loop_okD [OF assms(1)]
  have "closing s h \<longrightarrow> \<not> active s h" using l(11) assms(2) by (simp add: closing_ok_def)
  note c = counts_ok_ref [OF l(1) assms(2) this]
  have b: "bit (flags (handle (uv_ref h s) g)) n = bit (flags (handle s g)) n"
    "bit (flags (handle (uv_unref h s) g)) n = bit (flags (handle s g)) n" if "n \<noteq> 3" for g n
    using that by (simp_all add: uv_ref_def uv_unref_def macro_handles flag_update)
  have t: "htype (handle (uv_ref h s) g) = htype (handle s g)" "htype (handle (uv_unref h s) g) = htype (handle s g)"
    "close_cb (handle (uv_ref h s) g) = close_cb (handle s g)" "close_cb (handle (uv_unref h s) g) = close_cb (handle s g)" for g
    by (simp_all add: uv_ref_def uv_unref_def macro_handles)
  have a: "all_handles (uv_ref h s) = all_handles s" "all_handles (uv_unref h s) = all_handles s"
    "closing_handles (uv_ref h s) = closing_handles s" "closing_handles (uv_unref h s) = closing_handles s"
    by (simp_all add: uv_ref_def uv_unref_def)
  have q: "quiet_for T s (uv_ref h s)" "quiet_for T s (uv_unref h s)" for T
    by (simp_all add: quiet_for_def a t b)
  have "core_ok (uv_ref h s)" by (rule core_flags [OF l(10) c(1) [folded uv_ref_def] q(1)]) (simp add: uv_ref_def macro_defs)
  moreover have "core_ok (uv_unref h s)" by (rule core_flags [OF l(10) c(2) [folded uv_unref_def] q(2)]) (simp add: uv_unref_def macro_defs)
  moreover have "closing_ok L (uv_ref h s)" "closing_ok L (uv_unref h s)"
    using l(11) by (simp_all add: closing_ok_def a t b)
  ultimately show "loop_ok L (uv_ref h s)" "loop_ok L (uv_unref h s)" by (simp_all add: loop_ok_def)
  show "api_frame s (uv_ref h s)" "api_frame s (uv_unref h s)"
    by (simp_all add: api_frame_def callback_frame_def a b) (simp_all add: uv_ref_def uv_unref_def)
qed

lemma plain_loop:
  assumes "loop_ok L s"
    and "s' = s\<lparr>stop_flag := stop_flag s', time := time s', readings := readings s', called := called s', loop_count := loop_count s'\<rparr>"
  shows "loop_ok L s'"
proof -
  note l = loop_okD [OF assms(1)]
  have e: "all_handles s' = all_handles s" "handle s' = handle s" "active_handles s' = active_handles s" "closing_handles s' = closing_handles s"
    by (subst assms(2), simp)+
  have "core_ok s'"
    by (rule core_flags [OF l(10) counts_ok_cong [OF l(1) e(1-3)]]) (simp add: quiet_for_def e, subst assms(2), simp add: e)
  then show ?thesis using l(11) by (simp add: loop_ok_def closing_ok_def e)
qed

section \<open>Closing\<close>

lemma close_kind_core:
  assumes "core_ok s" "h \<in> set (all_handles s)" "htype (handle s h) \<in> kinds" "htype (handle s h) = UV_POLL \<longrightarrow> fd_free s h"
  shows "\<exists>s'. close_kind h s = Some s' \<and> core_ok s' \<and> one_handle h s s' \<and> \<not> active s' h \<and>
    closing_handles s' = closing_handles s \<and> api_frame s s'"
proof -
  note c = core_okD [OF assms(1)]
  have watcher: ?thesis if k: "htype (handle s h) = watcher_type k" "close_kind h s = Some (uv__watcher_close k h s)" for k
  proof -
    note w = watcher_stop_ok [OF c(1,3) assms(2) k(1)]
    have "erase_watchers (uv_watcher_stop k h s) = erase_watchers s" using w(3) by (simp add: watcher_frame_def)
    note e = erase_watchersD [OF this]
    show ?thesis using k(2) core_watcher [OF assms(1) k(1) w(3,1,2)] one_handle_frames(2) [OF w(3)] w(4) api_frames(2) [OF w(3)] e
      by (simp add: uv__watcher_close_def)
  qed
  consider "htype (handle s h) = UV_TIMER" | "htype (handle s h) = UV_PREPARE" | "htype (handle s h) = UV_CHECK"
    | "htype (handle s h) = UV_IDLE" | "htype (handle s h) = UV_POLL" | "htype (handle s h) = UV_ASYNC"
    using assms(3) by (auto simp: kinds_def)
  then show ?thesis
  proof cases
    case 1
    from timer_stop_ok [OF c(1,2), of h] assms(2) 1 obtain s' where
      s': "uv_timer_stop h s = Some s'" "counts_ok s'" "timers_ok s'" "timer_frame h s s'" "\<not> active s' h"
        "ready_queue s' = remove1 h (ready_queue s)" by blast
    note e = erase_timersD [OF timer_frameD(2) [OF s'(4)]]
    have "api_frame s s'" by (rule api_frames(1) [OF s'(4)]) (simp add: s'(6) subseq_remove1)
    moreover have "core_ok s'" using core_timer [OF assms(1) _ s'(4,2,3)] assms(2) 1 by simp
    moreover have "close_kind h s = Some s'" using 1 s'(1) by (simp add: close_kind_def uv__timer_close_def)
    ultimately show ?thesis using one_handle_frames(1) [OF s'(4)] s'(5) e(10) by blast
  next
    case 2
    then show ?thesis using watcher [of Prepare] by (simp add: close_kind_def)
  next
    case 3
    then show ?thesis using watcher [of Check] by (simp add: close_kind_def)
  next
    case 4
    then show ?thesis using watcher [of Idle] by (simp add: close_kind_def)
  next
    case 5
    then have "fd_free s h" using assms(4) by simp
    from poll_stop_ok [OF c(1,4,5) conjI [OF assms(2) 5] this] obtain s' where
      s': "uv__poll_stop h s = Some s'" "counts_ok s'" "polling_ok s'" "polls_ok s'" "poll_handle_frame h s s'" "\<not> active s' h" by blast
    have "erase_polls s' = erase_polls s" using s'(5) by (simp add: poll_handle_frame_def)
    note e = erase_pollsD [OF this]
    show ?thesis using 5 s' core_poll [OF assms(1) 5 s'(5,2-4)] one_handle_frames(3) [OF s'(5)] e api_frames(3) [OF s'(5)]
      by (simp add: close_kind_def uv__poll_close_def)
  next
    case 6
    note a = async_close_ok [OF c(1,6) assms(2) 6]
    have "erase_asyncs (uv__async_close h s) = erase_asyncs s" using a(3) by (simp add: async_frame_def)
    note e = erase_asyncsD [OF this]
    show ?thesis using 6 core_async [OF assms(1) 6 a(3,1,2)] one_handle_frames(4) [OF a(3)] a(4) e api_frames(4) [OF a(3)]
      by (simp add: close_kind_def)
  qed
qed

lemma close_loop:
  assumes "loop_ok L s" "h \<in> set (all_handles s)" "\<not> uv__is_closing h s" "htype (handle s h) = UV_POLL \<longrightarrow> fd_free s h"
  shows "\<exists>s'. uv_close h cb s = Some s' \<and> loop_ok L s' \<and> api_frame s s' \<and> closing_handles s' = h # closing_handles s \<and>
    close_cb (handle s' h) = cb \<and> \<not> active s' h \<and> all_handles s' = all_handles s"
proof -
  note l = loop_okD [OF assms(1)]
  define s1 where "s1 = s\<lparr>handle := (handle s)(h := (handle s h)\<lparr>flags := flags (handle s h) OR UV_HANDLE_CLOSING, close_cb := cb\<rparr>)\<rparr>"
  have h1: "bit (flags (handle s1 g)) n \<longleftrightarrow> bit (flags (handle s g)) n \<or> g = h \<and> n = 0" "htype (handle s1 g) = htype (handle s g)"
    "close_cb (handle s1 g) = (if g = h then cb else close_cb (handle s g))" for g n
    by (simp_all add: s1_def flag_update)
  have e1: "all_handles s1 = all_handles s" "closing_handles s1 = closing_handles s" "active_handles s1 = active_handles s"
    by (simp_all add: s1_def)
  have "counted s1 = counted s" by (auto simp: counted_def e1 h1)
  from counts_ok_same [OF l(1) e1(1) this e1(3)] have "core_ok s1"
    by (rule core_flags [OF l(10)]) (simp add: quiet_for_def e1 h1, simp add: s1_def)
  moreover have "fd_free s1 h = fd_free s h" by (simp add: fd_free_def s1_def)
  ultimately obtain s2 where
    s2: "close_kind h s1 = Some s2" "core_ok s2" "one_handle h s1 s2" "\<not> active s2 h" "closing_handles s2 = closing_handles s1"
      "api_frame s1 s2"
    using close_kind_core [of s1 h] assms(2,4) l(11) by (auto simp: e1 h1(2) closing_ok_def)
  let ?s = "s2\<lparr>closing_handles := h # closing_handles s2\<rparr>"
  have f: "all_handles s2 = all_handles s" "htype (handle s2 g) = htype (handle s g)"
    "close_cb (handle s2 g) = (if g = h then cb else close_cb (handle s g))"
    "closing s2 g \<longleftrightarrow> closing s g \<or> g = h" "closed s2 g = closed s g" "g \<noteq> h \<Longrightarrow> active s2 g = active s g" for g
    using s2(3) h1 e1(1) by (cases "g = h"; simp add: one_handle_def del: One_nat_def)+
  have nc: "\<not> closing s h" "\<not> closed s h" using assms(3) by (simp_all add: is_bits)
  have "set (map fst L @ closing_handles s) = {g \<in> set (all_handles s). closing s g}" using l(11) by (simp add: closing_ok_def)
  then have "h \<notin> set (map fst L @ closing_handles s)" using nc(1) by blast
  then have nl: "h \<notin> fst ` set L" "h \<notin> set (closing_handles s)" by simp_all
  have distinct: "distinct (map fst L @ closing_handles s)" using l(11) by (simp add: closing_ok_def)
  have "close_cb (handle s2 g) = b" if "(g, b) \<in> set L" for g b
  proof -
    have "g \<noteq> h" using nl that by force
    moreover have "close_cb (handle s g) = b" using l(11) that by (auto simp: closing_ok_def)
    ultimately show ?thesis by (simp add: f(3))
  qed
  then have "\<forall>(g, b) \<in> set L. close_cb (handle s2 g) = b" by blast
  moreover have "htype (handle s2 g) \<in> kinds \<and> \<not> closed s2 g \<and> (closing s2 g \<longrightarrow> \<not> active s2 g)" if "g \<in> set (all_handles s)" for g
    using l(11) that s2(4) unfolding closing_ok_def by (cases "g = h") (simp_all add: f del: One_nat_def)
  moreover have "set (map fst L @ h # closing_handles s) = {g \<in> set (all_handles s). closing s2 g}"
    using l(11) assms(2) unfolding closing_ok_def by (auto simp: f)
  ultimately have "closing_ok L ?s"
    using distinct nl s2(5) e1(2) by (simp add: closing_ok_def f(1) del: One_nat_def)
  moreover have "core_ok ?s"
    by (rule core_flags [OF s2(2) counts_ok_cong [OF core_okD(1) [OF s2(2)]]]) (simp_all add: quiet_for_def)
  moreover have "uv_close h cb s = Some ?s"
    using assms(3) s2(1) f(4,5) [of h] nc
    by (simp add: uv_close_def s1_def [symmetric] uv__make_close_pending_def flag_test del: One_nat_def)
  moreover have "api_frame s ?s"
  proof (rule api_frame_trans [OF api_frame_trans [OF _ s2(6)]])
    show "api_frame s s1" by (simp add: api_frame_def callback_frame_def e1 h1(1)) (simp add: s1_def)
    show "api_frame s2 ?s" by (simp add: api_frame_def callback_frame_def)
  qed
  moreover have "closing_handles ?s = h # closing_handles s" "close_cb (handle ?s h) = cb" "\<not> active ?s h" "all_handles ?s = all_handles s"
    using s2(4,5) e1(2) f(1,3) by simp_all
  ultimately show ?thesis unfolding loop_ok_def by blast
qed

section \<open>Programs\<close>

datatype (plugins only: code) api_call =
  Timer_init ptr | Timer_start ptr ptr u64 u64 | Timer_stop ptr | Timer_again ptr | Timer_set_repeat ptr u64
| Watcher_init loop_watcher ptr | Watcher_start loop_watcher ptr ptr | Watcher_stop loop_watcher ptr
| Poll_init ptr int | Poll_start ptr u32 ptr | Poll_stop ptr
| Async_init ptr ptr | Async_send ptr
| Ref ptr | Unref ptr | Close ptr ptr | Stop | Update_time

fun exec :: "fd_calls \<Rightarrow> api_call \<Rightarrow> uv_loop \<Rightarrow> uv_loop option" where
  "exec c (Timer_init h) s = Some (uv_timer_init h s)"
| "exec c (Timer_start h cb tmo rep) s = map_option snd (uv_timer_start h cb tmo rep s)"
| "exec c (Timer_stop h) s = uv_timer_stop h s"
| "exec c (Timer_again h) s = map_option snd (uv_timer_again h s)"
| "exec c (Timer_set_repeat h r) s = Some (uv_timer_set_repeat h r s)"
| "exec c (Watcher_init k h) s = Some (uv_watcher_init k h s)"
| "exec c (Watcher_start k h cb) s = Some (snd (uv_watcher_start k h cb s))"
| "exec c (Watcher_stop k h) s = Some (uv_watcher_stop k h s)"
| "exec c (Poll_init h f) s = map_option snd (uv_poll_init c h f s)"
| "exec c (Poll_start h ev cb) s = map_option snd (uv_poll_start h ev cb s)"
| "exec c (Poll_stop h) s = uv_poll_stop h s"
| "exec c (Async_init h cb) s = map_option snd (uv_async_init (Inl UV_ENOSYS) h cb s)"
| "exec c (Async_send h) s = Some (uv_async_send h s)"
| "exec c (Ref h) s = Some (uv_ref h s)"
| "exec c (Unref h) s = Some (uv_unref h s)"
| "exec c (Close h cb) s = uv_close h cb s"
| "exec c Stop s = Some (uv_stop s)"
| "exec c Update_time s = Some (uv_update_time s)"

text \<open>
  What the documentation asks of a program: memory of an initialised handle is not initialised
  again, handles are used with the functions of their type, closing handles are not started or
  closed again, and no poll handle is stopped or closed while another watcher is registered for
  its descriptor. \<open>uv_poll_init\<close> may call the system, which has to return.
\<close>

fun legal :: "fd_calls \<Rightarrow> api_call \<Rightarrow> uv_loop \<Rightarrow> bool" where
  "legal c (Timer_init h) s = fresh h s"
| "legal c (Timer_start h cb tmo rep) s = a_timer s h"
| "legal c (Timer_stop h) s = a_timer s h"
| "legal c (Timer_again h) s = a_timer s h"
| "legal c (Timer_set_repeat h r) s = a_timer s h"
| "legal c (Watcher_init k h) s = fresh h s"
| "legal c (Watcher_start k h cb) s =
     (h \<in> set (all_handles s) \<and> htype (handle s h) = watcher_type k \<and> \<not> uv__is_closing h s)"
| "legal c (Watcher_stop k h) s = (h \<in> set (all_handles s) \<and> htype (handle s h) = watcher_type k)"
| "legal c (Poll_init h f) s = (fresh h s \<and> 0 \<le> f \<and> f \<le> 2147483645 \<and> uv_poll_init c h f s \<noteq> None)"
| "legal c (Poll_start h ev cb) s = (a_poll s h \<and> \<not> uv__is_closing h s \<and> user_events ev \<and> (ev \<noteq> 0 \<longrightarrow> cb \<noteq> NULL))"
| "legal c (Poll_stop h) s = (a_poll s h \<and> \<not> uv__is_closing h s \<and> fd_free s h)"
| "legal c (Async_init h cb) s = fresh h s"
| "legal c (Async_send h) s = (h \<in> set (all_handles s) \<and> htype (handle s h) = UV_ASYNC)"
| "legal c (Ref h) s = (h \<in> set (all_handles s))"
| "legal c (Unref h) s = (h \<in> set (all_handles s))"
| "legal c (Close h cb) s =
     (h \<in> set (all_handles s) \<and> \<not> uv__is_closing h s \<and> (htype (handle s h) = UV_POLL \<longrightarrow> fd_free s h))"
| "legal c Stop s = True"
| "legal c Update_time s = True"

lemma active_not_closing: "loop_ok L s \<Longrightarrow> h \<in> set (all_handles s) \<Longrightarrow> closing s h \<Longrightarrow> \<not> active s h"
  by (simp add: loop_ok_def closing_ok_def)

lemma exec_ok:
  assumes "loop_ok L s" "legal c a s"
  shows "\<exists>s'. exec c a s = Some s' \<and> loop_ok L s' \<and> api_frame s s'"
proof -
  note l = loop_okD [OF assms(1)]
  show ?thesis
  proof (cases a)
    case (Watcher_start k h cb)
    then have h: "h \<in> set (all_handles s)" "htype (handle s h) = watcher_type k" "\<not> closing s h"
      using assms(2) by (simp_all add: is_bits)
    from watcher_start_ok [OF l(1,3) h(1,2), of cb] obtain r s' where
      s': "uv_watcher_start k h cb s = (r, s')" "counts_ok s'" "watchers_ok s'" "watcher_frame h s s'" by blast
    from watcher_op_loop [OF assms(1) h(2) s'(4,2,3)] h(3) show ?thesis using Watcher_start s'(1) by simp
  next
    case (Watcher_stop k h)
    then have h: "h \<in> set (all_handles s)" "htype (handle s h) = watcher_type k" using assms(2) by simp_all
    note w = watcher_stop_ok [OF l(1,3) h]
    from watcher_op_loop [OF assms(1) h(2) w(3,1,2)] w(4) show ?thesis using Watcher_stop by simp
  next
    case (Poll_init h f)
    then show ?thesis using assms poll_init_loop [OF assms(1)] by fastforce
  next
    case (Poll_start h ev cb)
    then have h: "a_poll s h" "\<not> uv__is_closing h s" "user_events ev" "ev \<noteq> 0 \<longrightarrow> cb \<noteq> NULL" using assms(2) by simp_all
    from poll_start_ok [OF l(1,4,5) h] obtain r s' where
      s': "uv_poll_start h ev cb s = Some (r, s')" "counts_ok s'" "polling_ok s'" "polls_ok s'" "poll_handle_frame h s s'" by blast
    have "htype (handle s h) = UV_POLL" "\<not> closing s h" using h(1,2) by (simp_all add: is_bits)
    from poll_op_loop [OF assms(1) this(1) s'(5,2-4)] this(2) show ?thesis using Poll_start s'(1) by simp
  next
    case (Poll_stop h)
    then have h: "a_poll s h" "\<not> uv__is_closing h s" "fd_free s h" using assms(2) by simp_all
    from poll_stop_ok [OF l(1,4,5) h(1,3)] obtain s' where
      s': "uv__poll_stop h s = Some s'" "counts_ok s'" "polling_ok s'" "polls_ok s'" "poll_handle_frame h s s'" "\<not> active s' h" by blast
    have "htype (handle s h) = UV_POLL" using h(1) by simp
    from poll_op_loop [OF assms(1) this s'(5,2-4)] s'(6) show ?thesis using Poll_stop s'(1) h(2) by (simp add: uv_poll_stop_def)
  next
    case (Close h cb)
    then show ?thesis using close_loop [OF assms(1), of h cb] assms(2) by auto
  next
    case Stop
    have "loop_ok L (uv_stop s)" by (rule plain_loop [OF assms(1)]) (simp add: uv_stop_def)
    then show ?thesis using Stop by (simp add: api_frame_def callback_frame_def uv_stop_def)
  next
    case Update_time
    have "loop_ok L (uv_update_time s)" by (rule plain_loop [OF assms(1)]) (simp add: uv_update_time_def uv__update_time_def)
    then show ?thesis using Update_time by (simp add: api_frame_def callback_frame_def uv_update_time_def uv__update_time_def)
  next
    case (Timer_init h)
    then show ?thesis using timer_init_loop [OF assms(1), of h] assms(2) by simp
  next
    case (Timer_start h cb tmo rep)
    then show ?thesis using timer_start_loop [OF assms(1), of h cb tmo rep] assms(2) by auto
  next
    case (Timer_stop h)
    then show ?thesis using timer_stop_loop [OF assms(1), of h] assms(2) by simp
  next
    case (Timer_again h)
    then show ?thesis using timer_again_loop [OF assms(1), of h] assms(2) by auto
  next
    case (Timer_set_repeat h r)
    then show ?thesis using timer_set_repeat_loop [OF assms(1), of h] assms(2) by simp
  next
    case (Watcher_init k h)
    then show ?thesis using watcher_init_loop [OF assms(1), of h] assms(2) by simp
  next
    case (Async_init h cb)
    then show ?thesis using async_init_loop [OF assms(1), of h "Inl UV_ENOSYS" cb] assms(2) by auto
  next
    case (Async_send h)
    then show ?thesis using async_send_loop [OF assms(1), of h] assms(2) by simp
  next
    case (Ref h)
    then show ?thesis using ref_loop(1,2) [OF assms(1), of h] assms(2) by simp
  next
    case (Unref h)
    then show ?thesis using ref_loop(3,4) [OF assms(1), of h] assms(2) by simp
  qed
qed

text \<open>
  A program says which calls each callback makes, each call depending on the state before it;
  calls that are not legal are not made.
\<close>

type_synonym program = "ptr \<Rightarrow> ptr \<Rightarrow> (uv_loop \<Rightarrow> api_call) list"

fun exec_calls :: "fd_calls \<Rightarrow> (uv_loop \<Rightarrow> api_call) list \<Rightarrow> uv_loop \<Rightarrow> uv_loop option" where
  "exec_calls c [] s = Some s"
| "exec_calls c (a # as) s =
     (if legal c (a s) s then Option.bind (exec c (a s) s) (exec_calls c as) else exec_calls c as s)"

definition run_program :: "fd_calls \<Rightarrow> program \<Rightarrow> client" where
  "run_program c prog cb h = exec_calls c (prog cb h)"

lemma exec_calls_ok:
  "loop_ok L s \<Longrightarrow> \<exists>s'. exec_calls c as s = Some s' \<and> loop_ok L s' \<and> api_frame s s'"
proof (induction as arbitrary: s)
  case Nil
  then show ?case using api_frame_refl by simp
next
  case (Cons a as)
  show ?case
  proof (cases "legal c (a s) s")
    case True
    from exec_ok [OF Cons.prems True] obtain s1 where s1: "exec c (a s) s = Some s1" "loop_ok L s1" "api_frame s s1" by blast
    from Cons.IH [OF s1(2)] obtain s' where "exec_calls c as s1 = Some s'" "loop_ok L s'" "api_frame s1 s'" by blast
    then show ?thesis using True s1(1) api_frame_trans [OF s1(3)] by simp
  next
    case False
    then show ?thesis using Cons by simp
  qed
qed

lemma run_program_ok:
  "loop_ok L s \<Longrightarrow> \<exists>s'. run_program c prog cb h s = Some s' \<and> loop_ok L s' \<and> api_frame s s'"
  unfolding run_program_def by (rule exec_calls_ok)

end
