(* ===== verification/Run.thy ===== *)
theory Run
  imports Client
begin

unbundle bit_operations_syntax

text \<open>
  Programs as clients: the locales of the components are interpreted on them, and from their
  facts \<open>uv_run\<close>, \<open>uv_walk\<close> and the closing of handles keep the invariant and return.
\<close>

section \<open>Where a loop is\<close>

text \<open>
  While a function runs callbacks from a queue of its own, the queues of the other functions
  are empty.
\<close>

datatype (plugins only: code) phase = Between | Timers | Watching loop_watcher | Asyncs | Walking

definition idle_in :: "phase \<Rightarrow> uv_loop \<Rightarrow> bool" where
  "idle_in ph s \<longleftrightarrow> (ph \<noteq> Timers \<longrightarrow> ready_queue s = []) \<and> (\<forall>k. ph \<noteq> Watching k \<longrightarrow> run_queue s k = []) \<and>
     (ph \<noteq> Asyncs \<longrightarrow> async_run s = []) \<and> (ph \<noteq> Walking \<longrightarrow> walk_queue s = [])"

text \<open>Whether the array of \<open>poll\<close> is being scanned, and if so how long it stays.\<close>

definition scanning :: "(bool \<times> nat) option \<Rightarrow> uv_loop \<Rightarrow> bool" where
  "scanning I s \<longleftrightarrow> (case I of None \<Rightarrow> True
     | Some (b, n) \<Rightarrow> poll_fds_iterating s = b \<and> (b \<longrightarrow> poll_fds_used s = n))"

definition inside :: "(ptr \<times> ptr) list \<Rightarrow> phase \<Rightarrow> (bool \<times> nat) option \<Rightarrow> uv_loop \<Rightarrow> bool" where
  "inside L ph I s \<longleftrightarrow> loop_ok L s \<and> idle_in ph s \<and> scanning I s"

lemma insideD: "inside L ph I s \<Longrightarrow> loop_ok L s" "inside L ph I s \<Longrightarrow> idle_in ph s" "inside L ph I s \<Longrightarrow> scanning I s"
  by (simp_all add: inside_def)

lemma scanning_cong:
  "scanning I s \<Longrightarrow> poll_fds_iterating s' = poll_fds_iterating s \<Longrightarrow>
   (poll_fds_iterating s \<longrightarrow> poll_fds_used s' = poll_fds_used s) \<Longrightarrow> scanning I s'"
  by (cases I) (auto simp: scanning_def)

lemma idle_in_api: "idle_in ph s \<Longrightarrow> api_frame s s' \<Longrightarrow> idle_in ph s'"
proof -
  assume i: "idle_in ph s" and f: "api_frame s s'"
  have "subseq xs ys \<Longrightarrow> ys = [] \<Longrightarrow> xs = []" for xs ys :: "ptr list" by simp
  then have "ready_queue s = [] \<Longrightarrow> ready_queue s' = []" "run_queue s k = [] \<Longrightarrow> run_queue s' k = []"
    "async_run s = [] \<Longrightarrow> async_run s' = []" "walk_queue s = [] \<Longrightarrow> walk_queue s' = []" for k
    using f unfolding api_frame_def callback_frame_def by blast+
  then show "idle_in ph s'" using i by (simp add: idle_in_def)
qed

lemma inside_api: "inside L ph I s \<Longrightarrow> loop_ok L s' \<Longrightarrow> api_frame s s' \<Longrightarrow> inside L ph I s'"
  unfolding inside_def using idle_in_api scanning_cong api_frame_def by blast

lemma inside_plain:
  assumes "inside L ph I s"
    and "s' = s\<lparr>stop_flag := stop_flag s', time := time s', readings := readings s', called := called s', loop_count := loop_count s'\<rparr>"
  shows "inside L ph I s'"
proof -
  have e: "ready_queue s' = ready_queue s" "run_queue s' = run_queue s" "async_run s' = async_run s" "walk_queue s' = walk_queue s"
    "poll_fds_iterating s' = poll_fds_iterating s" "poll_fds_used s' = poll_fds_used s"
    by (subst assms(2), simp)+
  have "scanning I s'" by (rule scanning_cong [OF insideD(3) [OF assms(1)]]) (simp_all add: e)
  then show ?thesis using assms(1) plain_loop [OF _ assms(2)] by (simp add: inside_def idle_in_def e)
qed

lemma inside_enter: "inside L Between I s \<Longrightarrow> inside L ph I s"
  by (cases ph) (auto simp: inside_def idle_in_def)

lemma inside_leave:
  "inside L Timers I s \<Longrightarrow> ready_queue s = [] \<Longrightarrow> inside L Between I s"
  "inside L (Watching k) I s \<Longrightarrow> run_queue s k = [] \<Longrightarrow> inside L Between I s"
  "inside L Asyncs I s \<Longrightarrow> async_run s = [] \<Longrightarrow> inside L Between I s"
  "inside L Walking I s \<Longrightarrow> walk_queue s = [] \<Longrightarrow> inside L Between I s"
  by (auto simp: inside_def idle_in_def)

section \<open>Programs as clients\<close>

interpretation prog: loop_client "run_program c P" "inside L ph I" for c P L ph I
proof
  fix s cb h
  assume s: "inside L ph I s"
  show "\<exists>s'. run_program c P cb h s = Some s' \<and> inside L ph I s' \<and> callback_frame s s'"
    using run_program_ok [OF insideD(1) [OF s], of c P cb h] inside_api [OF s] by (auto simp: api_frame_def)
  show "inside L ph I (s\<lparr>called := c'\<rparr>)" for c' by (rule inside_plain [OF s]) simp
qed

lemma timers_others:
  assumes "timers_frame s s'" "T \<noteq> UV_TIMER"
  shows "quiet_for T s s'"
  using assms timers_frameD(1) [OF assms(1)] by (auto simp: quiet_for_def timers_frame_def)

interpretation prog_timers: timer_client "run_program c P" "inside L Timers I" for c P L I
proof
  fix s s'
  assume s: "inside L Timers I s"
  note l = loop_okD [OF insideD(1) [OF s]]
  show "counts_ok s \<and> timers_ok s" using l by blast
  assume f: "timers_frame s s'" and ok: "counts_ok s'" "timers_ok s'"
  have "erase_timers s' = erase_timers s" using f by (simp add: timers_frame_def)
  note e = erase_timersD [OF this]
  have "core_ok s'" by (rule core_timers [OF l(10) _ timers_others [OF f] ok]) (use f in \<open>simp add: timers_frame_def\<close>)
  moreover have "closing_ok L s'"
    using l(11) f unfolding closing_ok_def timers_frame_def e(10,41) by (auto simp del: One_nat_def)
  moreover have "scanning I s'" by (rule scanning_cong [OF insideD(3) [OF s]]) (simp_all add: e)
  ultimately show "inside L Timers I s'"
    using insideD(2) [OF s] by (simp add: inside_def loop_ok_def idle_in_def e)
qed

interpretation prog_watchers: watcher_client "run_program c P" "inside L (Watching k) I" k for c P L I k
proof
  fix s s'
  assume s: "inside L (Watching k) I s"
  note l = loop_okD [OF insideD(1) [OF s]]
  show "watchers_ok s" using l by blast
  assume ok: "watchers_ok s'" and f: "s' = s\<lparr>run_queue := (run_queue s)(k := run_queue s' k), watcher_handles := watcher_handles s'\<rparr>"
  have e: "erase_watchers s' = erase_watchers s" "handle s' = handle s" "active_handles s' = active_handles s"
    by (subst f, simp)+
  have r: "run_queue s' j = run_queue s j" if "j \<noteq> k" for j by (subst f) (simp add: that)
  note d = erase_watchersD [OF e(1)]
  have q: "quiet_for T s s'" for T by (simp add: quiet_for_def d e)
  have "timers_ok s'" by (rule timers_keep [OF l(2) q]) (simp_all add: d)
  moreover have "polling_ok s'" using l(4)
    by (intro polling_ok_cong [OF l(4)]) (auto simp: d interest_def polling_ok_def entries_ok_def)
  moreover have "polls_ok s'" by (rule polls_keep [OF l(5) q]) (simp_all add: d)
  moreover have "asyncs_ok s'" by (rule asyncs_keep [OF l(6) q]) (simp_all add: d)
  moreover have "counts_ok s'" by (rule counts_ok_cong [OF l(1)]) (simp_all add: d e)
  ultimately have "core_ok s'" using ok l(7-9) by (simp add: core_ok_def d)
  moreover have "closing_ok L s'" using l(11) by (simp add: closing_ok_def d e)
  moreover have "scanning I s'" by (rule scanning_cong [OF insideD(3) [OF s]]) (simp_all add: d)
  ultimately show "inside L (Watching k) I s'"
    using insideD(2) [OF s] r by (simp add: inside_def loop_ok_def idle_in_def d)
qed

interpretation prog_asyncs: async_client "run_program c P" "inside L Asyncs I" for c P L I
proof
  fix s s'
  assume s: "inside L Asyncs I s"
  note l = loop_okD [OF insideD(1) [OF s]]
  show "asyncs_ok s" using l by blast
  assume ok: "asyncs_ok s'" and f: "erase_asyncs s' = erase_asyncs s" "handle s' = handle s" "active_handles s' = active_handles s"
  note d = erase_asyncsD [OF f(1)]
  have q: "quiet_for T s s'" for T by (simp add: quiet_for_def d f)
  have "timers_ok s'" by (rule timers_keep [OF l(2) q]) (simp_all add: d)
  moreover have "watchers_ok s'" by (rule watchers_keep [OF l(3) q]) (simp_all add: d)
  moreover have "polling_ok s'" using l(4)
    by (intro polling_ok_cong [OF l(4)]) (auto simp: d interest_def polling_ok_def entries_ok_def)
  moreover have "polls_ok s'" by (rule polls_keep [OF l(5) q]) (simp_all add: d)
  moreover have "counts_ok s'" by (rule counts_ok_cong [OF l(1)]) (simp_all add: d f)
  ultimately have "core_ok s'" using ok l(7-9) by (simp add: core_ok_def d)
  moreover have "closing_ok L s'" using l(11) by (simp add: closing_ok_def d f)
  moreover have "scanning I s'" by (rule scanning_cong [OF insideD(3) [OF s]]) (simp_all add: d)
  ultimately show "inside L Asyncs I s'"
    using insideD(2) [OF s] by (simp add: inside_def loop_ok_def idle_in_def d)
qed

section \<open>I/O callbacks\<close>

text \<open>The world of programs: one for poll handles, for each status and set of events, one for the rest.\<close>

definition programs :: "kernel \<Rightarrow> fd_calls \<Rightarrow> program \<Rightarrow> (uv_errno option \<Rightarrow> u32 \<Rightarrow> program) \<Rightarrow> world" where
  "programs K c P Q = \<lparr>kern = K, callbacks = run_program c P, poll_callbacks = (\<lambda>st ev. run_program c (Q st ev))\<rparr>"

lemma poll_io_inside:
  assumes s: "inside L Between I s" and h: "a_poll s h" "active s h"
  shows "\<exists>s'. uv__poll_io (\<lambda>st ev. run_program c (Q st ev)) h ev s = Some s' \<and> inside L Between I s'"
proof -
  note l = loop_okD [OF insideD(1) [OF s]]
  have cb: "poll_cb s h \<noteq> NULL" using l(5) h by (simp add: polls_ok_def)
  show ?thesis
  proof (cases "ev AND POLLERR \<noteq> 0 \<and> ev AND UV__POLLPRI = 0")
    case True
    from poll_unwatch_ok [OF l(1,4,5) h(1)] obtain s1 where
      s1: "uv__io_stop h all_events s = Some s1" "counts_ok (uv__handle_stop h s1)" "polling_ok (uv__handle_stop h s1)"
        "polls_ok (uv__handle_stop h s1)" "poll_handle_frame h s (uv__handle_stop h s1)" "\<not> active (uv__handle_stop h s1) h"
        "poll_cb s1 = poll_cb s" by blast
    have "htype (handle s h) = UV_POLL" using h(1) by simp
    from poll_op_loop [OF insideD(1) [OF s] this s1(5,2-4)] s1(6) have "inside L Between I (uv__handle_stop h s1)"
      using inside_api [OF s] by blast
    from prog.call_ok [OF this, of "poll_cb s h"] cb show ?thesis
      using True s1(1,7) by (fastforce simp: uv__poll_io_def Let_def)
  next
    case False
    then show ?thesis using prog.call_ok [OF s cb] by (fastforce simp: uv__poll_io_def)
  qed
qed

lemma async_io_inside:
  assumes "inside L Between I s"
  shows "\<exists>s'. uv__async_io (run_program c P) (async_io_watcher s) s = Some s' \<and> inside L Between I s'"
proof -
  have "async_run s = []" using insideD(2) [OF assms] by (simp add: idle_in_def)
  from prog_asyncs.async_io_ok [OF inside_enter [OF assms] this] show ?thesis using inside_leave(3) by blast
qed

lemma dispatch_inside:
  assumes s: "inside L Between I s" and w: "pevents (io s w) \<noteq> 0"
  shows "\<exists>s'. dispatch_io (programs K c P Q) w ev s = Some s' \<and> inside L Between I s'"
proof -
  note l = loop_okD [OF insideD(1) [OF s]]
  consider "w = async_io_watcher s" "io_cb (io s w) = Uv__async_io" | "a_poll s w" using l(5) w unfolding polls_ok_def by blast
  then show ?thesis
  proof cases
    case 1
    then show ?thesis using async_io_inside [OF s, of c P] by (simp add: dispatch_io_def programs_def)
  next
    case 2
    then have "active s w" "io_cb (io s w) = Uv__poll_io" using l(5) w by (auto simp: polls_ok_def)
    then show ?thesis using poll_io_inside [OF s 2, of c Q ev] by (simp add: dispatch_io_def programs_def)
  qed
qed

interpretation prog_io: io_client "dispatch_io (programs K c P Q)" "inside L Between None" for K c P Q L
proof
  fix s
  assume s: "inside L Between None s"
  note l = loop_okD [OF insideD(1) [OF s]]
  have "\<not> registered s (signal_io_watcher s)"
  proof
    assume r: "registered s (signal_io_watcher s)"
    then have "nat (fd (io s (signal_io_watcher s))) \<in> used_slots s" by (auto simp: registered_def used_slots_def)
    then have "pevents (io s (signal_io_watcher s)) \<noteq> 0" using l(4) r by (auto simp: polling_ok_def io_ok_def registered_def)
    then show False using l(5) by (auto simp: polls_ok_def)
  qed
  then show "polling_ok s \<and> \<not> registered s (signal_io_watcher s)" using l by blast
  show "\<exists>s'. dispatch_io (programs K c P Q) w ev s = Some s' \<and> inside L Between None s' \<and>
      poll_fds_iterating s' = poll_fds_iterating s \<and> (poll_fds_iterating s \<longrightarrow> poll_fds_used s' = poll_fds_used s)"
    if "pevents (io s w) \<noteq> 0" for w ev
  proof -
    have "inside L Between (Some (poll_fds_iterating s, poll_fds_used s)) s" using s by (simp add: inside_def scanning_def)
    from dispatch_inside [OF this that] show ?thesis by (fastforce simp: inside_def scanning_def)
  qed
  fix s'
  assume f: "poll_frame s s'" and p: "polling_ok s'"
  have "erase_poll s' = erase_poll s" and v: "pevents (io s' v) = pevents (io s v)" "fd (io s' v) = fd (io s v)"
    "io_cb (io s' v) = io_cb (io s v)" "pending_queue s' = pending_queue s" "pending_run s' = pending_run s" for v
    using f by (simp_all add: poll_frame_def)
  note d = erase_pollD [OF this(1)]
  have q: "quiet_for T s s'" for T by (simp add: quiet_for_def d)
  have "timers_ok s'" by (rule timers_keep [OF l(2) q]) (simp_all add: d)
  moreover have "watchers_ok s'" by (rule watchers_keep [OF l(3) q]) (simp_all add: d)
  moreover have "asyncs_ok s'" by (rule asyncs_keep [OF l(6) q]) (simp_all add: d)
  moreover have "polls_ok s'" using l(5) by (simp add: polls_ok_def d v)
  moreover have "counts_ok s'" by (rule counts_ok_cong [OF l(1)]) (simp_all add: d)
  ultimately have "core_ok s'" using p l(7-9) by (simp add: core_ok_def d v)
  moreover have "closing_ok L s'" using l(11) by (simp add: closing_ok_def d)
  ultimately show "inside L Between None s'"
    using insideD(2) [OF s] by (simp add: inside_def loop_ok_def idle_in_def scanning_def d)
qed

section \<open>Finishing closing handles\<close>

definition unlinked :: "ptr \<Rightarrow> uv_loop \<Rightarrow> uv_loop" where
  "unlinked h s = (let s = uv__handle_unref h (set_flags h (flags (handle s h) OR UV_HANDLE_CLOSED) s)
     in s\<lparr>handle_queue := remove1 h (handle_queue s), walk_queue := remove1 h (walk_queue s)\<rparr>)"

lemma unlinked_fields:
  assumes "closing s h"
  shows "unlinked h s = s\<lparr>handle := (handle s)(h := (handle s h)\<lparr>flags := flags (handle (unlinked h s) h)\<rparr>),
      handle_queue := remove1 h (handle_queue s), walk_queue := remove1 h (walk_queue s)\<rparr>"
    and "bit (flags (handle (unlinked h s) h)) 0" "bit (flags (handle (unlinked h s) h)) 1" "\<not> refd (unlinked h s) h"
  using assms by (simp_all add: unlinked_def macro_defs flag_test flag_update del: One_nat_def)

lemma unlinked_ok:
  assumes "inside ((h, cb) # L) Between I s"
  shows "inside L Between I (unlinked h s)"
proof -
  note l = loop_okD [OF insideD(1) [OF assms]] and idle = insideD(2) [OF assms]
  let ?s = "unlinked h s"
  have "h \<in> set (map fst ((h, cb) # L) @ closing_handles s)" by simp
  then have h: "h \<in> set (all_handles s)" "closing s h" using l(11) unfolding closing_ok_def by blast+
  then have na: "\<not> active s h" using l(11) by (simp add: closing_ok_def)
  note u = unlinked_fields [OF h(2)]
  have f: "handle ?s = (handle s)(h := (handle s h)\<lparr>flags := flags (handle ?s h)\<rparr>)" "handle_queue ?s = remove1 h (handle_queue s)"
    "walk_queue ?s = remove1 h (walk_queue s)" "active_handles ?s = active_handles s" "closing_handles ?s = closing_handles s"
    "timer_heap ?s = timer_heap s" "timer ?s = timer s" "ready_queue ?s = ready_queue s" "watcher_handles ?s = watcher_handles s"
    "run_queue ?s = run_queue s" "watcher_cb ?s = watcher_cb s" "async_run ?s = async_run s" "async_handles ?s = async_handles s"
    "io ?s = io s" "poll_cb ?s = poll_cb s" "async_io_watcher ?s = async_io_watcher s" "signal_io_watcher ?s = signal_io_watcher s"
    "watchers ?s = watchers s" "nwatchers ?s = nwatchers s" "nfds ?s = nfds s" "watcher_queue ?s = watcher_queue s"
    "pending_queue ?s = pending_queue s" "pending_run ?s = pending_run s" "poll_fds ?s = poll_fds s"
    "poll_fds_used ?s = poll_fds_used s" "poll_fds_iterating ?s = poll_fds_iterating s"
    by (subst u(1), simp)+
  have d: "distinct (all_handles s)" using l(1) by (simp add: counts_ok_def)
  have w: "walk_queue s = []" using idle by (simp add: idle_in_def)
  then have a: "all_handles ?s = remove1 h (all_handles s)" by (simp add: all_handles_def f(2,3))
  then have sa: "set (all_handles ?s) = set (all_handles s) - {h}" using d by simp
  have o: "handle ?s g = handle s g" if "g \<noteq> h" for g using that by (subst f(1)) simp
  have sets: "{g \<in> set (all_handles ?s). htype (handle ?s g) = T \<and> active ?s g} = {g \<in> set (all_handles s). htype (handle s g) = T \<and> active s g}" for T
  proof (rule Collect_cong)
    show "(g \<in> set (all_handles ?s) \<and> htype (handle ?s g) = T \<and> active ?s g) =
      (g \<in> set (all_handles s) \<and> htype (handle s g) = T \<and> active s g)" for g
      using na o by (cases "g = h") (simp_all add: sa)
  qed
  have "g \<in> counted ?s \<longleftrightarrow> g \<in> counted s" for g using na o by (cases "g = h") (simp_all add: counted_def sa)
  then have cs: "counted ?s = counted s" by blast
  have "length (all_handles ?s) < 2 ^ 32" 
    using l(1) list_emb_length [OF subseq_remove1 [of h "all_handles s"]] unfolding a counts_ok_def by linarith
  then have "counts_ok ?s" using l(1) d cs f(4) by (auto simp: counts_ok_def a dest: set_remove1_subset [THEN subsetD])
  moreover have "timers_ok ?s"
    by (rule timers_ok_cong [OF l(2)]) (use idle in \<open>simp_all add: f(2-26) sets active_timers_def idle_in_def\<close>)
  moreover have "watchers_ok ?s" by (rule watchers_ok_cong [OF l(3)]) (simp_all add: f(2-26) sets active_watchers_def)
  moreover have "asyncs_ok ?s" by (rule asyncs_ok_cong [OF l(6)]) (simp_all add: f(2-26) sets active_asyncs_def)
  moreover have "polling_ok ?s" using l(4)
    by (intro polling_ok_cong [OF l(4)]) (simp_all add: f(2-26) interest_def polling_ok_def entries_ok_def)
  moreover have "polls_ok ?s"
  proof -
    have z: "w \<noteq> h" if "pevents (io s w) \<noteq> 0" for w using l(5) na h(1) that unfolding polls_ok_def by blast
    have ht: "htype (handle ?s g) = htype (handle s g)" for g by (subst f(1)) simp
    show ?thesis using l(5) o z unfolding polls_ok_def f(14-17) sa ht by simp
  qed
  moreover have "closing_ok L ?s"
  proof -
    have d': "h \<notin> set (map fst L @ closing_handles s)" "distinct (map fst L @ closing_handles s)"
      using l(11) by (simp_all add: closing_ok_def)
    have "set (map fst L @ closing_handles s) = {g \<in> set (all_handles s). closing s g} - {h}"
      using l(11) d'(1) unfolding closing_ok_def by auto
    also have "\<dots> = {g \<in> set (all_handles ?s). closing ?s g}" using o by (auto simp: sa)
    finally have "set (map fst L @ closing_handles ?s) = {g \<in> set (all_handles ?s). closing ?s g}" by (simp add: f(5))
    moreover have "close_cb (handle ?s g) = b" if "(g, b) \<in> set L" for g b
    proof -
      have "g \<noteq> h" using d'(1) that by force
      moreover have "close_cb (handle s g) = b" using l(11) that by (auto simp: closing_ok_def)
      ultimately show ?thesis by (simp add: o)
    qed
    moreover have "htype (handle ?s g) \<in> kinds \<and> \<not> closed ?s g \<and> (closing ?s g \<longrightarrow> \<not> active ?s g)" if "g \<in> set (all_handles ?s)" for g
      using l(11) that o by (simp add: sa closing_ok_def del: One_nat_def)
    ultimately show ?thesis using d'(2) unfolding closing_ok_def f(5) by blast
  qed
  ultimately have "loop_ok L ?s" using l(7-9) by (simp add: loop_ok_def core_ok_def f(2-26))
  moreover have "idle_in Between ?s" using idle by (simp add: idle_in_def f(2-26))
  moreover have "scanning I ?s" by (rule scanning_cong [OF insideD(3) [OF assms]]) (simp_all add: f(2-26))
  ultimately show ?thesis by (simp add: inside_def)
qed

lemma finish_close_inside:
  assumes s: "inside ((h, cb) # L) Between I s"
  shows "\<exists>s'. uv__finish_close (run_program c P) h s = Some s' \<and> inside L Between I s' \<and>
    called s' = called s @ (if cb \<noteq> NULL then [(cb, h)] else [])"
proof -
  note l = loop_okD [OF insideD(1) [OF s]]
  have "h \<in> set (map fst ((h, cb) # L) @ closing_handles s)" by simp
  then have h: "h \<in> set (all_handles s)" "closing s h" using l(11) unfolding closing_ok_def by blast+
  have k: "\<not> closed s h" "htype (handle s h) \<in> kinds" "close_cb (handle s h) = cb"
    using l(11) h(1) by (auto simp: closing_ok_def)
  have cb: "close_cb (handle (unlinked h s) h) = cb" "called (unlinked h s) = called s"
    using k(3) by (subst unlinked_fields(1) [OF h(2)], simp)+
  have "uv__finish_close (run_program c P) h s = finish (run_program c P) h (set_flags h (flags (handle s h) OR UV_HANDLE_CLOSED) s)"
    using h(2) k by (auto simp: uv__finish_close_def flag_test set_flags_def kinds_def Let_def simp del: One_nat_def)
  also have "\<dots> = (if cb \<noteq> NULL then call (run_program c P) cb h (unlinked h s) else Some (unlinked h s))"
    using cb(1) by (simp add: finish_def unlinked_def Let_def)
  finally show ?thesis using prog.call_ok [OF unlinked_ok [OF s], where c = c and P = P and cb = cb and h = h] unlinked_ok [OF s] cb(2) by (auto split: if_splits)
qed

lemma finish_all_inside:
  "inside L Between I s \<Longrightarrow> \<exists>s'. finish_all (run_program c P) (map fst L) s = Some s' \<and> inside [] Between I s' \<and>
     called s' = called s @ map (\<lambda>(h, cb). (cb, h)) (filter (\<lambda>(h, cb). cb \<noteq> NULL) L)"
proof (induction L arbitrary: s)
  case (Cons p L)
  obtain h cb where p: "p = (h, cb)" by (cases p)
  from finish_close_inside [of h cb L I s c P] Cons.prems obtain s1 where
    s1: "uv__finish_close (run_program c P) h s = Some s1" "inside L Between I s1"
      "called s1 = called s @ (if cb \<noteq> NULL then [(cb, h)] else [])" unfolding p by blast
  from Cons.IH [OF s1(2)] s1(1,3) show ?case by (auto simp: p)
qed simp

lemma run_closing_inside:
  assumes "inside [] Between I s"
  shows "\<exists>s'. uv__run_closing_handles (run_program c P) s = Some s' \<and> inside [] Between I s' \<and>
    called s' = called s @ map (\<lambda>h. (close_cb (handle s h), h)) (filter (\<lambda>h. close_cb (handle s h) \<noteq> NULL) (closing_handles s))"
proof -
  let ?s = "s\<lparr>closing_handles := []\<rparr>" and ?L = "map (\<lambda>h. (h, close_cb (handle s h))) (closing_handles s)"
  note l = loop_okD [OF insideD(1) [OF assms]]
  have "core_ok ?s" by (rule core_flags [OF l(10) counts_ok_cong [OF l(1)]]) (simp_all add: quiet_for_def)
  moreover have "closing_ok ?L ?s" using l(11) by (auto simp: closing_ok_def comp_def simp del: One_nat_def)
  moreover have "scanning I ?s" by (rule scanning_cong [OF insideD(3) [OF assms]]) simp_all
  ultimately have "inside ?L Between I ?s" using insideD(2) [OF assms] by (simp add: inside_def loop_ok_def idle_in_def)
  from finish_all_inside [OF this, of c P] show ?thesis
    by (simp add: uv__run_closing_handles_def comp_def filter_map)
qed

section \<open>One turn of the loop\<close>

text \<open>A loop between the calls of the user: no function is running.\<close>

definition at_rest :: "uv_loop \<Rightarrow> bool" where
  "at_rest s \<longleftrightarrow> inside [] Between (Some (False, 0)) s"

lemma next_timeout_range: "-1 \<le> uv__next_timeout s"
  by (auto simp: uv__next_timeout_def INT_MAX_def Let_def intro: order_trans [OF _ uint_ge_0])

lemma backend_timeout_range: "-1 \<le> uv__backend_timeout s"
  using next_timeout_range by (simp add: uv__backend_timeout_def)

lemma run_pending_nothing:
  assumes "pending_queue s = []" "pending_run s = []"
  shows "uv__run_pending d s = Some s" "run_pending_times d n s = Some s"
proof -
  have "s\<lparr>pending_run := [], pending_queue := []\<rparr> = s" using assms by (cases s) simp
  then show "uv__run_pending d s = Some s" using assms by (simp add: uv__run_pending_def run_pending_taken.simps)
  show "run_pending_times d n s = Some s" using assms by (cases n) simp_all
qed

lemma run_watchers_rest:
  assumes "at_rest s"
  shows "\<exists>s'. uv__run_watchers (run_program c P) k s = Some s' \<and> at_rest s'"
proof -
  have "run_queue s k = []" using insideD(2) [OF assms [unfolded at_rest_def]] by (simp add: idle_in_def)
  from prog_watchers.run_watchers_ok [OF inside_enter [OF assms [unfolded at_rest_def]] this] show ?thesis
    using inside_leave(2) unfolding at_rest_def by blast
qed

lemma run_timers_rest:
  assumes "at_rest s"
  shows "\<exists>s'. uv__run_timers (run_program c P) s = Some s' \<and> at_rest s'"
  using prog_timers.run_timers_ok [OF inside_enter [OF assms [unfolded at_rest_def]]] inside_leave(1)
  unfolding at_rest_def by blast

lemma io_poll_rest:
  assumes "kernel_ok K" "at_rest s" "-1 \<le> tmo"
  shows "\<exists>s'. uv__io_poll K (dispatch_io (programs K c P Q)) tmo s = Some s' \<and> at_rest s'"
proof -
  have "inside [] Between None s" "\<not> poll_fds_iterating s" using assms(2) by (auto simp: at_rest_def inside_def scanning_def)
  from prog_io.io_poll_ok [OF assms(1) this assms(3)] show ?thesis by (fastforce simp: at_rest_def inside_def scanning_def)
qed

lemma plain_rest:
  assumes "at_rest s"
    and "s' = s\<lparr>stop_flag := stop_flag s', time := time s', readings := readings s', called := called s', loop_count := loop_count s'\<rparr>"
  shows "at_rest s'"
  using inside_plain [OF _ assms(2)] assms(1) unfolding at_rest_def by blast

lemma idle_time_rest: "at_rest s \<Longrightarrow> at_rest (uv__metrics_update_idle_time s)"
proof -
  assume a: "at_rest s"
  then have "inside [] Between None s" by (simp add: at_rest_def inside_def scanning_def)
  from prog_io.idle_ok [OF this] a show ?thesis by (simp add: at_rest_def inside_def scanning_def)
qed

lemma rest_pending: "at_rest s \<Longrightarrow> pending_queue s = []" "at_rest s \<Longrightarrow> pending_run s = []"
  by (simp_all add: at_rest_def inside_def loop_ok_def core_ok_def)

lemma loop_turn_rest:
  assumes "kernel_ok K" "at_rest s"
  shows "\<exists>s'. loop_turn (programs K c P Q) mode s = Some s' \<and> at_rest s'"
proof -
  let ?W = "programs K c P Q"
  have W: "callbacks ?W = run_program c P" "kern ?W = K" by (simp_all add: programs_def)
  obtain s1 where s1: "uv__run_watchers (run_program c P) Idle s = Some s1" "at_rest s1" using run_watchers_rest [OF assms(2)] by blast
  obtain s2 where s2: "uv__run_watchers (run_program c P) Prepare s1 = Some s2" "at_rest s2" using run_watchers_rest [OF s1(2)] by blast
  define tmo where "tmo = (if mode = UV_RUN_ONCE \<and> (pending_queue s = [] \<and> watcher_handles s Idle = []) \<or> mode = UV_RUN_DEFAULT
    then uv__backend_timeout s2 else 0)"
  have "-1 \<le> tmo" using backend_timeout_range by (simp add: tmo_def)
  moreover have "at_rest (uv__metrics_inc_loop_count s2)"
    by (rule plain_rest [OF s2(2)]) (simp add: uv__metrics_inc_loop_count_def)
  ultimately obtain s3 where s3: "uv__io_poll K (dispatch_io ?W) tmo (uv__metrics_inc_loop_count s2) = Some s3" "at_rest s3"
    using io_poll_rest [OF assms(1)] by blast
  obtain s4 where s4: "uv__run_watchers (run_program c P) Check (uv__metrics_update_idle_time s3) = Some s4" "at_rest s4"
    using run_watchers_rest [OF idle_time_rest [OF s3(2)]] by blast
  obtain s5 where s5: "uv__run_closing_handles (run_program c P) s4 = Some s5" "at_rest s5"
    using run_closing_inside [OF s4(2) [unfolded at_rest_def]] unfolding at_rest_def by blast
  have "at_rest (uv__update_time s5)" by (rule plain_rest [OF s5(2)]) (simp add: uv__update_time_def)
  then obtain s6 where s6: "uv__run_timers (run_program c P) (uv__update_time s5) = Some s6" "at_rest s6"
    using run_timers_rest by blast
  have "uv__run_pending (dispatch_io ?W) s = Some s" "run_pending_times (dispatch_io ?W) 8 s3 = Some s3"
    using run_pending_nothing rest_pending assms(2) s3(2) by blast+
  then have "loop_turn ?W mode s = Some s6"
    unfolding loop_turn_def Let_def W using s1(1) s2(1) s3(1) s4(1) s5(1) s6(1) by (simp only: bind.bind_lunit tmo_def [symmetric])
  then show ?thesis using s6(2) by blast
qed

section \<open>Walking\<close>

lemma inside_permute:
  assumes "inside L Walking I s" "s' = s\<lparr>walk_queue := walk_queue s', handle_queue := handle_queue s'\<rparr>"
    and "mset (all_handles s') = mset (all_handles s)"
  shows "inside L Walking I s'"
proof -
  note l = loop_okD [OF insideD(1) [OF assms(1)]]
  have f: "handle s' = handle s" "active_handles s' = active_handles s" "closing_handles s' = closing_handles s"
    "timer_heap s' = timer_heap s" "timer s' = timer s" "ready_queue s' = ready_queue s" "watcher_handles s' = watcher_handles s"
    "run_queue s' = run_queue s" "watcher_cb s' = watcher_cb s" "async_run s' = async_run s" "async_handles s' = async_handles s"
    "io s' = io s" "poll_cb s' = poll_cb s" "async_io_watcher s' = async_io_watcher s" "signal_io_watcher s' = signal_io_watcher s"
    "watchers s' = watchers s" "nwatchers s' = nwatchers s" "nfds s' = nfds s" "watcher_queue s' = watcher_queue s"
    "pending_queue s' = pending_queue s" "pending_run s' = pending_run s" "poll_fds s' = poll_fds s"
    "poll_fds_used s' = poll_fds_used s" "poll_fds_iterating s' = poll_fds_iterating s"
    by (subst assms(2), simp)+
  have a: "set (all_handles s') = set (all_handles s)" "distinct (all_handles s') = distinct (all_handles s)"
    "length (all_handles s') = length (all_handles s)"
    using mset_eq_setD [OF assms(3)] mset_eq_imp_distinct_iff [OF assms(3)] mset_eq_length [OF assms(3)] by simp_all
  have "counts_ok s'" using l(1) by (simp add: counts_ok_def counted_def a f)
  moreover have "timers_ok s'"
    by (rule timers_ok_cong [OF l(2)]) (use l(2) in \<open>simp_all add: f a active_timers_def timers_ok_def\<close>)
  moreover have "watchers_ok s'" by (rule watchers_ok_cong [OF l(3)]) (simp_all add: f a active_watchers_def)
  moreover have "asyncs_ok s'" by (rule asyncs_ok_cong [OF l(6)]) (simp_all add: f a active_asyncs_def)
  moreover have "polling_ok s'" using l(4)
    by (intro polling_ok_cong [OF l(4)]) (simp_all add: f interest_def polling_ok_def entries_ok_def)
  moreover have "polls_ok s'" using l(5) unfolding polls_ok_def f a .
  moreover have "closing_ok L s'" using l(11) unfolding closing_ok_def f a .
  moreover have "scanning I s'" by (rule scanning_cong [OF insideD(3) [OF assms(1)]]) (simp_all add: f)
  ultimately show ?thesis using insideD(2) [OF assms(1)] l(7-9) by (simp add: inside_def loop_ok_def core_ok_def idle_in_def f)
qed

lemma call_program_inside:
  assumes "inside L ph I s" "cb \<noteq> NULL"
  shows "\<exists>s'. call (run_program c P) cb h s = Some s' \<and> inside L ph I s' \<and> walk_queue s' = walk_queue s \<and>
    called s' = called s @ [(cb, h)] \<and> (\<forall>h \<in> set (all_handles s). h \<in> set (all_handles s') \<and> internal s' h = internal s h)"
proof -
  let ?s = "s\<lparr>called := called s @ [(cb, h)]\<rparr>"
  have i: "inside L ph I ?s" by (rule inside_plain [OF assms(1)]) simp
  from run_program_ok [OF insideD(1) [OF i], of c P cb h] obtain s' where
    s': "run_program c P cb h ?s = Some s'" "loop_ok L s'" "api_frame ?s s'" by blast
  then show ?thesis using inside_api [OF i s'(2,3)] assms(2) by (simp add: call_def api_frame_def callback_frame_def)
qed

lemma walk_taken_inside:
  assumes cb: "cb \<noteq> NULL"
  shows "inside [] Walking I s \<Longrightarrow> \<exists>s'. walk_taken (run_program c P) cb s = Some s' \<and> inside [] Between I s' \<and>
    called s' = called s @ map (Pair cb) (filter (\<lambda>h. \<not> internal s h) (walk_queue s))"
proof (induction "walk_queue s" arbitrary: s)
  case Nil
  then show ?case using inside_leave(4) by (subst walk_taken.simps) (simp split: list.split)
next
  case (Cons h q)
  let ?s = "s\<lparr>walk_queue := q, handle_queue := handle_queue s @ [h]\<rparr>"
  have i: "inside [] Walking I ?s"
    by (rule inside_permute [OF Cons.prems]) (simp_all add: all_handles_def Cons.hyps(2) [symmetric])
  have all: "set q \<subseteq> set (all_handles ?s)" by (auto simp: all_handles_def)
  have w: "walk_taken (run_program c P) cb s = (if internal s h then walk_taken (run_program c P) cb ?s
      else Option.bind (call (run_program c P) cb h ?s) (walk_taken (run_program c P) cb))"
    by (subst walk_taken.simps) (simp add: Cons.hyps(2) [symmetric] flag_test)
  show ?case
  proof (cases "internal s h")
    case True
    then show ?thesis using Cons.hyps(1) [of ?s] i w by (simp add: Cons.hyps(2) [symmetric])
  next
    case False
    from call_program_inside [OF i cb, of c P h] obtain s1 where
      s1: "call (run_program c P) cb h ?s = Some s1" "inside [] Walking I s1" "walk_queue s1 = q"
        "called s1 = called s @ [(cb, h)]" "\<forall>h \<in> set (all_handles ?s). internal s1 h = internal s h" by auto
    have "filter (\<lambda>h. \<not> internal s1 h) q = filter (\<lambda>h. \<not> internal s h) q"
      using s1(5) all by (intro filter_cong) auto
    then show ?thesis using Cons.hyps(1) [of s1] s1(1-4) w False by (auto simp: Cons.hyps(2) [symmetric])
  qed
qed

lemma walk_rest:
  assumes "at_rest s" "cb \<noteq> NULL"
  shows "\<exists>s'. uv_walk (run_program c P) cb s = Some s' \<and> at_rest s' \<and>
    called s' = called s @ map (Pair cb) (filter (\<lambda>h. \<not> internal s h) (handle_queue s))"
proof -
  have "walk_queue s = []" using insideD(2) [OF assms(1) [unfolded at_rest_def]] by (simp add: idle_in_def)
  then have "inside [] Walking (Some (False, 0)) (s\<lparr>walk_queue := handle_queue s, handle_queue := []\<rparr>)"
    by (intro inside_permute [OF inside_enter [OF assms(1) [unfolded at_rest_def]]]) (simp_all add: all_handles_def)
  from walk_taken_inside [OF assms(2) this, of c P] show ?thesis by (simp add: uv_walk_def at_rest_def)
qed

section \<open>Running\<close>

lemma alive_update [simp]:
  "uv__loop_alive (uv__update_time s) = uv__loop_alive s" "uv__loop_alive (s\<lparr>stop_flag := x\<rparr>) = uv__loop_alive s"
  by (simp_all add: uv__loop_alive_def uv__update_time_def uv__has_active_handles_def uv__has_active_reqs_def)

lemma update_time_rest: "at_rest s \<Longrightarrow> at_rest (uv__update_time s)"
  using plain_rest [of s "uv__update_time s"] by (simp add: uv__update_time_def)

lemma clear_stop_rest: "at_rest s \<Longrightarrow> at_rest (if stop_flag s \<noteq> 0 then s\<lparr>stop_flag := 0\<rparr> else s)"
  using plain_rest [of s "s\<lparr>stop_flag := 0\<rparr>"] by simp

text \<open>What \<open>uv_run\<close> does before its loop.\<close>

lemma run_prologue:
  assumes "at_rest s"
  shows "\<exists>s1. uv_run (programs K c P Q) mode s =
      map_option (\<lambda>(r, s). (r, if stop_flag s \<noteq> 0 then s\<lparr>stop_flag := 0\<rparr> else s)) (run_turns (programs K c P Q) mode (uv__loop_alive s) s1) \<and>
    at_rest s1 \<and> (mode \<noteq> UV_RUN_DEFAULT \<or> \<not> uv__loop_alive s \<or> stop_flag s \<noteq> 0 \<longrightarrow> uv__loop_alive s1 = uv__loop_alive s)"
proof -
  let ?s = "if uv__loop_alive s then s else uv__update_time s"
  have r: "at_rest ?s" using assms update_time_rest by simp
  have f: "stop_flag ?s = stop_flag s" by (simp add: uv__update_time_def)
  have W: "callbacks (programs K c P Q) = run_program c P" by (simp add: programs_def)
  show ?thesis
  proof (cases "mode = UV_RUN_DEFAULT \<and> uv__loop_alive s \<and> stop_flag s = 0")
    case True
    from run_timers_rest [OF update_time_rest [OF r], of c P] obtain s1 where
      "uv__run_timers (run_program c P) (uv__update_time ?s) = Some s1" "at_rest s1" by blast
    then show ?thesis using True by (intro exI [of _ s1]) (simp add: uv_run_def W Let_def)
  next
    case False
    then have "\<not> (mode = UV_RUN_DEFAULT \<and> uv__loop_alive s \<and> stop_flag ?s = 0)" using f by simp
    then have "uv_run (programs K c P Q) mode s = map_option (\<lambda>(r, s). (r, if stop_flag s \<noteq> 0 then s\<lparr>stop_flag := 0\<rparr> else s))
        (run_turns (programs K c P Q) mode (uv__loop_alive s) ?s)"
      unfolding uv_run_def Let_def by (simp only: if_not_P bind.bind_lunit if_False)
    then show ?thesis using r by (intro exI [of _ ?s]) simp
  qed
qed

lemma run_turns_once:
  assumes "kernel_ok K" "at_rest s" "mode \<noteq> UV_RUN_DEFAULT" "r = uv__loop_alive s"
  shows "\<exists>s'. run_turns (programs K c P Q) mode r s = Some (uv__loop_alive s', s') \<and> at_rest s'"
proof -
  have m: "mode = UV_RUN_ONCE \<or> mode = UV_RUN_NOWAIT" using assms(3) by (cases mode) simp_all
  from loop_turn_rest [OF assms(1,2), of c P Q mode] obtain s1 where
    s1: "loop_turn (programs K c P Q) mode s = Some s1" "at_rest s1" by blast
  show ?thesis
  proof (cases "r \<and> stop_flag s = 0")
    case True
    then have "run_turns (programs K c P Q) mode r s = Some (uv__loop_alive s1, s1)"
      using m s1(1) by (subst run_turns.simps) (simp add: Let_def)
    then show ?thesis using s1(2) by blast
  next
    case False
    then have "run_turns (programs K c P Q) mode r s = Some (r, s)" by (subst run_turns.simps) (rule if_not_P)
    then show ?thesis using assms(2,4) by blast
  qed
qed

lemma run_turns_default:
  "run_turns W mode r s = Some y \<Longrightarrow> W = programs K c P Q \<Longrightarrow> mode = UV_RUN_DEFAULT \<Longrightarrow> kernel_ok K \<Longrightarrow> at_rest s \<Longrightarrow>
   (\<not> r \<longrightarrow> \<not> uv__loop_alive s) \<Longrightarrow>
   at_rest (snd y) \<and> (fst y \<longrightarrow> stop_flag (snd y) \<noteq> 0) \<and> (\<not> fst y \<longrightarrow> \<not> uv__loop_alive (snd y))"
proof (induction W mode r s y rule: run_turns.raw_induct [rotated 1, consumes 1])
  case (1 f W mode r s y)
  show ?case
  proof (cases "r \<and> stop_flag s = 0")
    case True
    obtain s1 where s1: "loop_turn W mode s = Some s1" "at_rest s1"
      using loop_turn_rest [OF 1(5,6), of c P Q mode] 1(3) by blast
    have "f W mode (uv__loop_alive s1) s1 = Some y" using 1(2,4) True s1(1) by (simp add: Let_def)
    from 1(1) [OF this 1(3,4,5) s1(2)] show ?thesis by blast
  next
    case False
    then have "y = (r, s)" using 1(2) by (auto split: if_splits)
    then show ?thesis using 1(6,7) False by auto
  qed
qed

section \<open>A new loop\<close>

text \<open>
  \<open>uv_loop_init\<close> for the parts of a loop modelled here, on memory filled with zeros: the
  locks, the signal pipe and the handle that watches children are left out.
\<close>

definition init_loop :: "uv_errno + int \<Rightarrow> ptr \<Rightarrow> ptr \<Rightarrow> uv_loop \<Rightarrow> (uv_errno option \<times> uv_loop) option" where
  "init_loop eventfd wq_async work_done s =
     Option.bind (uv_async_init eventfd wq_async work_done (uv__update_time (init_fields s))) (\<lambda>(err, s).
       if err \<noteq> None then Some (err, s)
       else
         let s = uv__handle_unref wq_async s
         in Some (None, set_flags wq_async (flags (handle s wq_async) OR UV_HANDLE_INTERNAL) s))"

lemma init_new: "init_fields (new_loop clk) = new_loop clk"
  by (simp add: init_fields_def new_loop_def heap_init_def fun_eq_iff)

lemma async_start_new:
  assumes "0 \<le> f" "f \<le> 2147483645"
  shows "\<exists>s. uv__async_start (Inr f) (uv__update_time (new_loop clk)) = Some (None, s) \<and> at_rest s \<and> all_handles s = [] \<and>
    active_reqs s = 0 \<and> closing_handles s = [] \<and> async_io_watcher s = 1 \<and> signal_io_watcher s = 2 \<and> stop_flag s = 0"
proof -
  let ?n = "uv__update_time (new_loop clk)"
  have n: "all_handles ?n = []" "active_handles ?n = 0" "ready_queue ?n = []" "hmin (timer_heap ?n) = 0" "nelts (timer_heap ?n) = 0"
    "watcher_handles ?n = (\<lambda>_. [])" "run_queue ?n = (\<lambda>_. [])" "async_run ?n = []" "async_handles ?n = []" "closing_handles ?n = []"
    "pending_queue ?n = []" "pending_run ?n = []" "walk_queue ?n = []" "poll_fds_iterating ?n = False" "async_io_watcher ?n = 1"
    "signal_io_watcher ?n = 2" "active_reqs ?n = 0" "nwatchers ?n = 0" "stop_flag ?n = 0"
    "io ?n = (\<lambda>_. \<lparr>io_cb = No_io_cb, pevents = 0, events = 0, fd = -1\<rparr>)"
    by (simp_all add: uv__update_time_def new_loop_def all_handles_def)
  have p: "polling_ok ?n" using new_loop_polling(1) [of clk]
    by (intro polling_ok_cong [OF new_loop_polling(1) [of clk]])
      (simp_all add: uv__update_time_def interest_def polling_ok_def entries_ok_def)
  let ?i = "?n\<lparr>io := (io ?n)(1 := \<lparr>io_cb = Uv__async_io, pevents = 0, events = 0, fd = f\<rparr>)\<rparr>"
  have i: "uv__io_init 1 Uv__async_io f ?n = Some ?i" "polling_ok ?i"
    using io_init_ok [OF p, of 1 Uv__async_io f] assms(1) by (simp_all add: n)
  have fr: "fd_free ?i 1" using assms by (simp add: fd_free_def n)
  have ev: "events_valid POLLIN" by (simp add: events_valid_def all_events_def POLLIN_def POLLOUT_def UV__POLLRDHUP_def UV__POLLPRI_def)
  from io_start_ok [OF i(2) ev fr] obtain s where
    s: "uv__io_start 1 POLLIN ?i = Some s" "polling_ok s" "erase_io s = erase_io ?i"
      "io s = (io ?i)(1 := (io ?i 1)\<lparr>pevents := pevents (io ?i 1) OR POLLIN\<rparr>)" "pending_run s = pending_run ?i"
      "pending_queue s = pending_queue ?i" by blast
  note e = erase_ioD [OF s(3)]
  have a: "active_handles s = 0" "all_handles s = []" "ready_queue s = []" "hmin (timer_heap s) = 0" "nelts (timer_heap s) = 0"
    "watcher_handles s = (\<lambda>_. [])" "run_queue s = (\<lambda>_. [])" "async_run s = []" "async_handles s = []" "closing_handles s = []"
    "async_io_watcher s = 1" "signal_io_watcher s = 2" "walk_queue s = []" "poll_fds_iterating s = False"
    "active_reqs s = 0" "pending_run s = []" "pending_queue s = []" "stop_flag s = 0"
    using s(5,6) by (simp_all add: e n)
  have "core_ok s"
    unfolding core_ok_def
  proof (intro conjI)
    show "counts_ok s" by (rule counts_ok_empty [OF a(2,1)])
    show "timers_ok s" by (rule timers_ok_empty [OF a(2,3-5)])
    show "watchers_ok s" by (simp add: watchers_ok_def watching_def active_watchers_def a)
    show "asyncs_ok s" by (simp add: asyncs_ok_def asyncs_def active_asyncs_def a)
    show "polls_ok s" by (simp add: polls_ok_def a s(4) n)
    show "fd (io s (async_io_watcher s)) \<noteq> -1" using assms(1) by (simp add: a s(4))
  qed (simp_all add: s(2) a)
  then have "at_rest s"
    by (simp add: at_rest_def inside_def loop_ok_def closing_ok_def idle_in_def scanning_def a)
  moreover have "uv__async_start (Inr f) ?n = Some (None, s)"
    using i(1) s(1) by (simp add: uv__async_start_def Let_def n)
  ultimately show ?thesis using a by blast
qed

lemma init_loop_rest:
  assumes "0 \<le> f" "f \<le> 2147483645" "w \<notin> {0, 1, 2}"
  shows "\<exists>s. init_loop (Inr f) w cb (new_loop clk) = Some (None, s) \<and> at_rest s \<and> handle_queue s = [w] \<and> internal s w \<and>
    \<not> uv__loop_alive s \<and> stop_flag s = 0"
proof -
  from async_start_new [OF assms(1,2), of clk] obtain s where
    s: "uv__async_start (Inr f) (uv__update_time (new_loop clk)) = Some (None, s)" "at_rest s" "all_handles s = []"
      "active_reqs s = 0" "closing_handles s = []" "async_io_watcher s = 1" "signal_io_watcher s = 2" "stop_flag s = 0" by blast
  have fr: "fresh w s" using assms(3) s(3,6,7) by (simp add: fresh_def)
  note i = insideD(1) [OF s(2) [unfolded at_rest_def]] note l = loop_okD [OF i]
  have "w \<notin> set (all_handles s)" "w \<noteq> NULL" "length (all_handles s) + 1 < 2 ^ 32" using fr by (simp_all add: fresh_def)
  from async_init_ok [OF l(1,6) this l(9), of "Inr f" cb] async_init_loop [OF i fr, of "Inr f" cb] obtain s1 where
    s1: "uv_async_init (Inr f) w cb s = Some (None, s1)" "loop_ok [] s1" "api_frame s s1"
      "s1 = uv__handle_start w ((uv__handle_init UV_ASYNC w s)\<lparr>async := (async s)(w := \<lparr>async_cb = cb, pending = False\<rparr>),
           async_handles := async_handles s @ [w]\<rparr>)" by auto
  have r1: "at_rest s1" using inside_api [OF _ s1(2,3)] s(2) unfolding at_rest_def by blast
  have q: "handle_queue s1 = [w]" "closing_handles s1 = []" "active_reqs s1 = 0" "stop_flag s1 = 0"
    using s(3-5,8) by (simp_all add: s1(4) all_handles_def)
  have a: "all_handles s1 = [w]" using s(3) by (simp add: s1(4))
  let ?u = "uv_unref w s1"
  let ?s = "set_flags w (flags (handle ?u w) OR UV_HANDLE_INTERNAL) ?u"
  from ref_loop(3,4) [OF s1(2), of w] a have u: "loop_ok [] ?u" "api_frame s1 ?u" by simp_all
  then have ru: "at_rest ?u" using inside_api [OF _ u] r1 unfolding at_rest_def by blast
  have au: "all_handles ?u = [w]" "handle_queue ?u = [w]" "closing_handles ?u = []" "active_reqs ?u = 0" "stop_flag ?u = 0"
    using q a by (simp_all add: uv_unref_def)
  have b: "bit (flags (handle ?s g)) n \<longleftrightarrow> bit (flags (handle ?u g)) n \<or> g = w \<and> n = 4" "htype (handle ?s g) = htype (handle ?u g)"
    "close_cb (handle ?s g) = close_cb (handle ?u g)" for g n by (simp_all add: set_flags_def flag_update)
  note lu = loop_okD [OF u(1)]
  have f: "all_handles ?s = all_handles ?u" "active_handles ?s = active_handles ?u" "closing_handles ?s = closing_handles ?u"
    by (simp_all add: set_flags_def)
  have "counted ?s = counted ?u" by (auto simp: counted_def f b)
  from counts_ok_same [OF lu(1) f(1) this f(2)] have "core_ok ?s"
    by (rule core_flags [OF lu(10)]) (simp add: quiet_for_def f b, simp add: set_flags_def)
  moreover have "closing_ok [] ?s" using lu(11) by (simp add: closing_ok_def f b)
  ultimately have "at_rest ?s" using ru by (simp add: at_rest_def inside_def loop_ok_def idle_in_def scanning_def set_flags_def)
  moreover have "counted ?s = {}"
  proof -
    have "\<not> refd ?u w" by (simp add: uv_unref_def macro_handles flag_update)
    then have "\<not> refd ?s w" using b(1) [of w 3] by simp
    then show ?thesis by (simp add: counted_def f au)
  qed
  then have "\<not> uv__loop_alive ?s"
    using has_active_handles_iff [OF core_okD(1) [OF \<open>core_ok ?s\<close>]] core_okD(7) [OF \<open>core_ok ?s\<close>] au
    by (simp add: uv__loop_alive_def uv__has_active_reqs_def set_flags_def f)
  moreover have "init_loop (Inr f) w cb (new_loop clk) = Some (None, ?s)"
  proof -
    have "uv_async_init (Inr f) w cb (uv__update_time (new_loop clk)) = uv_async_init (Inr f) w cb s"
      using s(1) l(9) by (simp add: uv_async_init_def) (simp add: uv__async_start_def Let_def)
    then show ?thesis using s1(1) by (simp add: init_loop_def init_new uv_unref_def Let_def)
  qed
  moreover have "handle_queue ?s = [w]" "internal ?s w" "stop_flag ?s = 0" using au by (simp_all add: b) (simp_all add: set_flags_def)
  ultimately show ?thesis by blast
qed

section \<open>Reachable loops\<close>

text \<open>
  What a program may do with a loop: initialise it, make legal calls, run it in any mode and
  walk over its handles, with callbacks that are programs as well.
\<close>

inductive reachable :: "kernel \<Rightarrow> fd_calls \<Rightarrow> program \<Rightarrow> (uv_errno option \<Rightarrow> u32 \<Rightarrow> program) \<Rightarrow> uv_loop \<Rightarrow> bool"
  for K c P Q where
  init: "0 \<le> f \<Longrightarrow> f \<le> 2147483645 \<Longrightarrow> w \<notin> {0, 1, 2} \<Longrightarrow> init_loop (Inr f) w cb (new_loop clk) = Some (None, s) \<Longrightarrow>
    reachable K c P Q s"
| call: "reachable K c P Q s \<Longrightarrow> legal c a s \<Longrightarrow> exec c a s = Some s' \<Longrightarrow> reachable K c P Q s'"
| run: "reachable K c P Q s \<Longrightarrow> uv_run (programs K c P Q) mode s = Some (r, s') \<Longrightarrow> reachable K c P Q s'"
| walk: "reachable K c P Q s \<Longrightarrow> cb \<noteq> NULL \<Longrightarrow> uv_walk (run_program c P) cb s = Some s' \<Longrightarrow> reachable K c P Q s'"

lemma exec_rest: "at_rest s \<Longrightarrow> legal c a s \<Longrightarrow> \<exists>s'. exec c a s = Some s' \<and> at_rest s'"
  unfolding at_rest_def using exec_ok insideD(1) inside_api by blast

lemma run_rest:
  assumes "kernel_ok K" "at_rest s" "uv_run (programs K c P Q) mode s = Some (r, s')"
  shows "at_rest s' \<and> stop_flag s' = 0 \<and> (\<not> r \<longrightarrow> \<not> uv__loop_alive s')"
proof -
  from run_prologue [OF assms(2), of K c P Q mode] obtain s1 where
    s1: "uv_run (programs K c P Q) mode s = map_option (\<lambda>(r, s). (r, if stop_flag s \<noteq> 0 then s\<lparr>stop_flag := 0\<rparr> else s))
        (run_turns (programs K c P Q) mode (uv__loop_alive s) s1)" "at_rest s1"
      "mode \<noteq> UV_RUN_DEFAULT \<or> \<not> uv__loop_alive s \<or> stop_flag s \<noteq> 0 \<longrightarrow> uv__loop_alive s1 = uv__loop_alive s" by blast
  obtain y where y: "run_turns (programs K c P Q) mode (uv__loop_alive s) s1 = Some y"
    "r = fst y" "s' = (if stop_flag (snd y) \<noteq> 0 then (snd y)\<lparr>stop_flag := 0\<rparr> else snd y)"
    using assms(3) unfolding s1(1) by (auto simp: case_prod_beta)
  have "at_rest (snd y) \<and> (\<not> fst y \<longrightarrow> \<not> uv__loop_alive (snd y))"
  proof (cases "mode = UV_RUN_DEFAULT")
    case True
    then show ?thesis using run_turns_default [OF y(1) refl True assms(1) s1(2)] s1(3) by blast
  next
    case False
    then show ?thesis using run_turns_once [OF assms(1) s1(2) False, of "uv__loop_alive s" c P Q] s1(3) y(1) by auto
  qed
  then show ?thesis using clear_stop_rest [of "snd y"] y(2,3) by simp
qed

lemma reachable_rest: "reachable K c P Q s \<Longrightarrow> kernel_ok K \<Longrightarrow> at_rest s"
proof (induction rule: reachable.induct)
  case (init f w cb clk s)
  then show ?case using init_loop_rest [of f w cb clk] by auto
next
  case (call s a s')
  then show ?case using exec_rest by fastforce
next
  case (run s mode r s')
  then show ?case using run_rest by blast
next
  case (walk s cb s')
  then show ?case using walk_rest [of s cb c P] by auto
qed

lemma reachable_calls: "reachable K c P Q s \<Longrightarrow> exec_calls c as s = Some s' \<Longrightarrow> reachable K c P Q s'"
proof (induction as arbitrary: s)
  case (Cons a as)
  then show ?case using reachable.call [OF Cons.prems(1), of "a s"] by (auto simp: bind_eq_Some_conv split: if_splits)
qed simp

lemmas reachable_loop_ok = reachable_rest [unfolded at_rest_def, THEN insideD(1), THEN loop_okD(11)]
  reachable_rest [unfolded at_rest_def, THEN insideD(1), THEN loop_okD(1)]

text \<open>
  A loop for examples: its clock goes by a millisecond at each reading; a timer is started, a
  prepare watcher is started and then closed, and an async handle is sent to.
\<close>

definition millisecond_clock :: "nat \<Rightarrow> u64" where "millisecond_clock n = of_nat n * 1000000"

definition idle_program :: program where "idle_program cb h = []"

definition sample_calls :: "(uv_loop \<Rightarrow> api_call) list" where
  "sample_calls = [\<lambda>_. Timer_init 20, \<lambda>_. Timer_start 20 5 0 0, \<lambda>_. Watcher_init Prepare 21, \<lambda>_. Watcher_start Prepare 21 6,
     \<lambda>_. Close 21 7, \<lambda>_. Async_init 22 8, \<lambda>_. Async_send 22]"

definition sample_loop :: "uv_loop option" where
  "sample_loop = Option.bind (init_loop (Inr 9) 3 4 (new_loop millisecond_clock)) (\<lambda>(_, s). exec_calls open_system sample_calls s)"

lemma sample_reachable:
  "\<exists>s. sample_loop = Some s \<and> reachable eager open_system idle_program (\<lambda>_ _. idle_program) s"
proof -
  have w: "(3 :: ptr) \<notin> {0, 1, 2}" and f: "(0 :: int) \<le> 9" "(9 :: int) \<le> 2147483645" by simp_all
  from init_loop_rest [OF f w, of 4 millisecond_clock] obtain s where
    s: "init_loop (Inr 9) 3 4 (new_loop millisecond_clock) = Some (None, s)" "at_rest s" by blast
  from reachable.init [OF f w s(1)] have r: "reachable eager open_system idle_program (\<lambda>_ _. idle_program) s" .
  from exec_calls_ok [OF insideD(1) [OF s(2) [unfolded at_rest_def]]] obtain s' where
    "exec_calls open_system sample_calls s = Some s'" by blast
  then show ?thesis using reachable_calls [OF r] s(1) by (simp add: sample_loop_def)
qed

section \<open>Properties\<close>

lemma run_once_some:
  assumes "kernel_ok K" "reachable K c P Q s" "mode \<noteq> UV_RUN_DEFAULT"
  shows "\<exists>r s'. uv_run (programs K c P Q) mode s = Some (r, s') \<and> (r \<longleftrightarrow> uv__loop_alive s')"
proof -
  have rest: "at_rest s" using reachable_rest assms by blast
  from run_prologue [OF rest, of K c P Q mode] assms(3) obtain s1 where
    s1: "uv_run (programs K c P Q) mode s = map_option (\<lambda>(r, s). (r, if stop_flag s \<noteq> 0 then s\<lparr>stop_flag := 0\<rparr> else s))
        (run_turns (programs K c P Q) mode (uv__loop_alive s) s1)" "at_rest s1" "uv__loop_alive s1 = uv__loop_alive s" by blast
  from run_turns_once [OF assms(1) s1(2) assms(3) s1(3) [symmetric], of c P Q] obtain s2 where
    "run_turns (programs K c P Q) mode (uv__loop_alive s) s1 = Some (uv__loop_alive s2, s2)" by blast
  then show ?thesis by (simp add: s1(1))
qed

text \<open>
  C1: The invariant of a loop, in every state that a program can reach with legal calls, by
  running the loop in any mode and by walking over it, with callbacks that make any legal
  calls: \<open>active_handles\<close> counts the active and referenced handles; the timer heap, the queues of
  watchers and the queue of async handles hold exactly the active handles of their types; what
  the kernel is asked for agrees with the watchers; no closing handle is active; the list of
  closing handles holds each of them once; and no function's own queue is left over.
\<close>

theorem reachable_invariant:
  assumes "kernel_ok K" "reachable K c P Q s"
  shows "active_handles s = of_nat (card {h \<in> set (handle_queue s). uv_is_active h s \<and> uv_has_ref h s}) \<and> distinct (handle_queue s) \<and>
    heap_pq (timer_less_than s) (timer_heap s) {h \<in> set (handle_queue s). htype (handle s h) = UV_TIMER \<and> uv_is_active h s} \<and>
    (\<forall>k. distinct (watcher_handles s k) \<and>
       set (watcher_handles s k) = {h \<in> set (handle_queue s). htype (handle s h) = watcher_type k \<and> uv_is_active h s}) \<and>
    distinct (async_handles s) \<and> set (async_handles s) = {h \<in> set (handle_queue s). htype (handle s h) = UV_ASYNC \<and> uv_is_active h s} \<and>
    polling_ok s \<and> \<not> poll_fds_iterating s \<and>
    distinct (closing_handles s) \<and> set (closing_handles s) = {h \<in> set (handle_queue s). uv_is_closing h s} \<and>
    (\<forall>h \<in> set (closing_handles s). \<not> uv_is_active h s)"
proof -
  have r: "at_rest s" using reachable_rest assms by blast
  note l = loop_okD [OF insideD(1) [OF r [unfolded at_rest_def]]]
  have i: "walk_queue s = []" "async_run s = []" "\<And>k. run_queue s k = []"
    using insideD(2) [OF r [unfolded at_rest_def]] by (simp_all add: idle_in_def)
  have a: "all_handles s = handle_queue s" using i(1) by (simp add: all_handles_def)
  have closing: "uv__is_closing h s \<longleftrightarrow> closing s h" if "h \<in> set (handle_queue s)" for h
    using l(11) that by (auto simp: is_bits closing_ok_def a simp del: One_nat_def)
  have "set (closing_handles s) = {h \<in> set (handle_queue s). uv_is_closing h s}"
    using l(11) closing by (auto simp: closing_ok_def a uv_is_closing_def)
  moreover have "\<forall>h \<in> set (closing_handles s). \<not> uv_is_active h s"
    using l(11) by (auto simp: closing_ok_def a uv_is_active_def is_bits simp del: One_nat_def)
  moreover have "distinct (closing_handles s)" using l(11) by (simp add: closing_ok_def)
  moreover have "\<not> poll_fds_iterating s" using r by (simp add: at_rest_def inside_def scanning_def)
  moreover have "counted s = {h \<in> set (handle_queue s). uv_is_active h s \<and> uv_has_ref h s}"
    by (simp add: counted_def a uv_is_active_def uv_has_ref_def is_bits)
  moreover have "active_timers s = {h \<in> set (handle_queue s). htype (handle s h) = UV_TIMER \<and> uv_is_active h s}"
    "active_asyncs s = {h \<in> set (handle_queue s). htype (handle s h) = UV_ASYNC \<and> uv_is_active h s}"
    "\<And>k. active_watchers k s = {h \<in> set (handle_queue s). htype (handle s h) = watcher_type k \<and> uv_is_active h s}"
    by (simp_all add: active_timers_def active_asyncs_def active_watchers_def a uv_is_active_def is_bits)
  ultimately show ?thesis
    using l(1-6) by (simp add: counts_ok_def timers_ok_def watchers_ok_def asyncs_ok_def asyncs_def watching_def a i)
qed

theorem reachable_invariant_witness:
  "\<exists>s. sample_loop = Some s \<and> active_handles s = of_nat (card {h \<in> set (handle_queue s). uv_is_active h s \<and> uv_has_ref h s}) \<and>
     set (closing_handles s) = {h \<in> set (handle_queue s). uv_is_closing h s}"
proof -
  obtain s where s: "sample_loop = Some s" "reachable eager open_system idle_program (\<lambda>_ _. idle_program) s"
    using sample_reachable by blast
  from reachable_invariant [OF eager_ok s(2)] s(1) show ?thesis by blast
qed

text \<open>
  C2: In every reachable state \<open>uv_run\<close> in the modes \<open>UV_RUN_ONCE\<close> and \<open>UV_RUN_NOWAIT\<close> returns,
  with any kernel that answers as documented and callbacks that make any legal calls: no
  assertion fails, no array is read out of bounds and polling ends. It returns whether the loop
  is still alive, and the request to stop is gone.
\<close>

theorem run_once_returns:
  assumes "kernel_ok K" "reachable K c P Q s" "mode \<noteq> UV_RUN_DEFAULT"
  shows "\<exists>r s'. uv_run (programs K c P Q) mode s = Some (r, s') \<and> (r \<longleftrightarrow> uv_loop_alive s') \<and> stop_flag s' = 0"
  using run_once_some [OF assms] run_rest [OF assms(1) reachable_rest [OF assms(2,1)]] by (fastforce simp: uv_loop_alive_def)

theorem run_once_returns_witness:
  "\<exists>s r s'. sample_loop = Some s \<and> uv_run (programs eager open_system idle_program (\<lambda>_ _. idle_program)) UV_RUN_ONCE s = Some (r, s') \<and>
     (r \<longleftrightarrow> uv_loop_alive s')"
proof -
  obtain s where s: "sample_loop = Some s" "reachable eager open_system idle_program (\<lambda>_ _. idle_program) s"
    using sample_reachable by blast
  have "UV_RUN_ONCE \<noteq> UV_RUN_DEFAULT" by simp
  from run_once_returns [OF eager_ok s(2) this] s(1) show ?thesis by blast
qed

text \<open>
  C6: When \<open>uv_run\<close> returns zero, in any mode, nothing keeps the loop alive, and in every mode
  the loop can be used again: it is in a reachable state and the request to stop is gone.
\<close>

theorem run_result:
  assumes "kernel_ok K" "reachable K c P Q s" "uv_run (programs K c P Q) mode s = Some (r, s')"
  shows "(\<not> r \<longrightarrow> \<not> uv_loop_alive s') \<and> stop_flag s' = 0 \<and> reachable K c P Q s'"
  using run_rest [OF assms(1) reachable_rest [OF assms(2,1)] assms(3)] reachable.run [OF assms(2,3)]
  by (simp add: uv_loop_alive_def)

theorem run_result_witness:
  "\<exists>s r s'. sample_loop = Some s \<and> uv_run (programs eager open_system idle_program (\<lambda>_ _. idle_program)) UV_RUN_NOWAIT s = Some (r, s') \<and>
     stop_flag s' = 0"
proof -
  obtain s where s: "sample_loop = Some s" "reachable eager open_system idle_program (\<lambda>_ _. idle_program) s"
    using sample_reachable by blast
  have "UV_RUN_NOWAIT \<noteq> UV_RUN_DEFAULT" by simp
  from run_once_some [OF eager_ok s(2) this] obtain r s' where
    "uv_run (programs eager open_system idle_program (\<lambda>_ _. idle_program)) UV_RUN_NOWAIT s = Some (r, s')" by blast
  with run_result [OF eager_ok s(2) this] s(1) show ?thesis by blast
qed

text \<open>
  C5: A loop is alive exactly when some handle is active and referenced, some handle is closing
  or some request is active.
\<close>

theorem alive_spec:
  assumes "kernel_ok K" "reachable K c P Q s"
  shows "uv_loop_alive s \<longleftrightarrow>
    (\<exists>h \<in> set (handle_queue s). uv_is_active h s \<and> uv_has_ref h s \<or> uv_is_closing h s) \<or> active_reqs s \<noteq> 0"
proof -
  have r: "at_rest s" using reachable_rest assms by blast
  note l = loop_okD [OF insideD(1) [OF r [unfolded at_rest_def]]]
  have i: "walk_queue s = []" using insideD(2) [OF r [unfolded at_rest_def]] by (simp add: idle_in_def)
  have a: "all_handles s = handle_queue s" using i by (simp add: all_handles_def)
  have c: "closing_handles s \<noteq> [] \<longleftrightarrow> (\<exists>h \<in> set (handle_queue s). uv_is_closing h s)"
  proof -
    have "closing_handles s \<noteq> [] \<longleftrightarrow> {h \<in> set (handle_queue s). closing s h} \<noteq> {}"
      using l(11) by (simp add: closing_ok_def a flip: set_empty)
    also have "\<dots> \<longleftrightarrow> (\<exists>h \<in> set (handle_queue s). uv_is_closing h s)"
      using l(11) by (auto simp: uv_is_closing_def is_bits closing_ok_def a simp del: One_nat_def)
    finally show ?thesis .
  qed
  have "uv__has_active_handles s \<longleftrightarrow> (\<exists>h \<in> set (handle_queue s). uv_is_active h s \<and> uv_has_ref h s)"
    using has_active_handles_iff [OF l(1)] by (auto simp: counted_def a uv_is_active_def uv_has_ref_def is_bits)
  then show ?thesis using c l(7) by (auto simp: uv_loop_alive_def uv__loop_alive_def uv__has_active_reqs_def word_gt_0)
qed

theorem alive_spec_witness:
  "\<exists>s. sample_loop = Some s \<and> (uv_loop_alive s \<longleftrightarrow>
     (\<exists>h \<in> set (handle_queue s). uv_is_active h s \<and> uv_has_ref h s \<or> uv_is_closing h s) \<or> active_reqs s \<noteq> 0)"
proof -
  obtain s where s: "sample_loop = Some s" "reachable eager open_system idle_program (\<lambda>_ _. idle_program) s"
    using sample_reachable by blast
  from alive_spec [OF eager_ok s(2)] s(1) show ?thesis by blast
qed

text \<open>
  C3: Finishing the closing handles of a reachable loop returns; the close callback of every
  handle on the list that has one runs exactly once, the handle closed last first, whatever the
  callbacks do, and the invariant of the loop holds again afterwards.
\<close>

theorem closing_callbacks_once:
  assumes "kernel_ok K" "reachable K c P Q s"
  shows "\<exists>s'. uv__run_closing_handles (run_program c P) s = Some s' \<and>
    called s' = called s @ map (\<lambda>h. (close_cb (handle s h), h)) (filter (\<lambda>h. close_cb (handle s h) \<noteq> NULL) (closing_handles s)) \<and>
    counts_ok s' \<and> polling_ok s' \<and> set (closing_handles s') = {h \<in> set (handle_queue s'). uv_is_closing h s'}"
proof -
  from run_closing_inside [OF reachable_rest [OF assms(2,1), unfolded at_rest_def], of c P] obtain s' where
    s': "uv__run_closing_handles (run_program c P) s = Some s'" "inside [] Between (Some (False, 0)) s'"
      "called s' = called s @ map (\<lambda>h. (close_cb (handle s h), h)) (filter (\<lambda>h. close_cb (handle s h) \<noteq> NULL) (closing_handles s))" by blast
  note l = loop_okD [OF insideD(1) [OF s'(2)]]
  have "walk_queue s' = []" using insideD(2) [OF s'(2)] by (simp add: idle_in_def)
  then have a: "all_handles s' = handle_queue s'" by (simp add: all_handles_def)
  have "set (closing_handles s') = {h \<in> set (handle_queue s'). uv_is_closing h s'}"
    using l(11) by (auto simp: closing_ok_def a uv_is_closing_def is_bits simp del: One_nat_def)
  then show ?thesis using s' l(1,4) by blast
qed

theorem closing_callbacks_once_witness:
  "\<exists>s s'. sample_loop = Some s \<and> closing_handles s = [21] \<and>
     uv__run_closing_handles (run_program open_system idle_program) s = Some s' \<and> called s' = called s @ [(7, 21)]"
proof -
  obtain s where s: "sample_loop = Some s" "reachable eager open_system idle_program (\<lambda>_ _. idle_program) s"
    using sample_reachable by blast
  have "map_option (\<lambda>s. (closing_handles s, close_cb (handle s 21))) sample_loop = Some ([21], 7)" by code_simp
  then have "closing_handles s = [21]" "close_cb (handle s 21) = 7" unfolding s(1) by simp_all
  with closing_callbacks_once [OF eager_ok s(2)] s(1) show ?thesis by auto
qed

text \<open>
  C4: \<open>uv_walk\<close> over a reachable loop returns and calls back for every handle that is not
  internal exactly once, in the order in which the handles were initialised, even when the
  callbacks close handles or initialise new ones.
\<close>

theorem walk_spec:
  assumes "kernel_ok K" "reachable K c P Q s" "cb \<noteq> NULL"
  shows "\<exists>s'. uv_walk (run_program c P) cb s = Some s' \<and>
    called s' = called s @ map (Pair cb) (filter (\<lambda>h. flags (handle s h) AND UV_HANDLE_INTERNAL = 0) (handle_queue s))"
  using walk_rest [OF reachable_rest [OF assms(2,1)] assms(3), of c P] by (auto simp: flag_test)

theorem walk_spec_witness:
  "\<exists>s s'. sample_loop = Some s \<and> uv_walk (run_program open_system idle_program) 9 s = Some s' \<and>
     called s' = called s @ [(9, 20), (9, 21), (9, 22)]"
proof -
  obtain s where s: "sample_loop = Some s" "reachable eager open_system idle_program (\<lambda>_ _. idle_program) s"
    using sample_reachable by blast
  have "map_option (\<lambda>s. filter (\<lambda>h. flags (handle s h) AND UV_HANDLE_INTERNAL = 0) (handle_queue s)) sample_loop = Some [20, 21, 22]"
    by code_simp
  then have "filter (\<lambda>h. flags (handle s h) AND UV_HANDLE_INTERNAL = 0) (handle_queue s) = [20, 21, 22]" unfolding s(1) by simp
  with walk_spec [OF eager_ok s(2), of 9] s(1) show ?thesis by auto
qed

end
