(* ===== verification/Passes.thy ===== *)
theory Passes
  imports Run
begin

unbundle bit_operations_syntax

text \<open>
  What one pass over a queue of the loop calls when the callbacks interfere: programs may stop,
  start, send to and close the very handles that still wait for their turn. Each pass calls the
  callbacks of handles of its queue, in their order and with the callback they had at the
  start, and leaves out only handles that a callback which ran may have taken away.
\<close>

section \<open>Calls about other handles\<close>

text \<open>The handle whose state a call may change; references and the clock are no such state.\<close>

fun subject :: "api_call \<Rightarrow> ptr option" where
  "subject (Timer_init h) = Some h"
| "subject (Timer_start h _ _ _) = Some h"
| "subject (Timer_stop h) = Some h"
| "subject (Timer_again h) = Some h"
| "subject (Timer_set_repeat h _) = Some h"
| "subject (Watcher_init _ h) = Some h"
| "subject (Watcher_start _ h _) = Some h"
| "subject (Watcher_stop _ h) = Some h"
| "subject (Poll_init h _) = Some h"
| "subject (Poll_start h _ _) = Some h"
| "subject (Poll_stop h) = Some h"
| "subject (Async_init h _) = Some h"
| "subject (Async_send h) = Some h"
| "subject (Ref _) = None"
| "subject (Unref _) = None"
| "subject (Close h _) = Some h"
| "subject Stop = None"
| "subject Update_time = None"

definition same_handle :: "ptr \<Rightarrow> uv_loop \<Rightarrow> uv_loop \<Rightarrow> bool" where
  "same_handle h s s' \<longleftrightarrow> h \<in> set (all_handles s') \<and> htype (handle s' h) = htype (handle s h) \<and>
     active s' h = active s h \<and> closing s' h = closing s h \<and> closed s' h = closed s h \<and>
     timer s' h = timer s h \<and> watcher_cb s' h = watcher_cb s h \<and> async s' h = async s h \<and>
     (h \<in> set (ready_queue s) \<longrightarrow> h \<in> set (ready_queue s')) \<and>
     (\<forall>k. h \<in> set (run_queue s k) \<longrightarrow> h \<in> set (run_queue s' k)) \<and>
     (h \<in> set (async_run s) \<longrightarrow> h \<in> set (async_run s'))"

lemma same_handle_refl: "h \<in> set (all_handles s) \<Longrightarrow> same_handle h s s"
  by (simp add: same_handle_def)

lemma same_handle_trans: "same_handle h s t \<Longrightarrow> same_handle h t u \<Longrightarrow> same_handle h s u"
  by (simp add: same_handle_def)

lemma same_timer:
  assumes "timer_frame g s s'" "g \<noteq> h" "h \<in> set (all_handles s)" "ready_queue s' = remove1 g (ready_queue s)"
  shows "same_handle h s s'"
  using assms timer_frameD(10,11) [OF assms(1), of h] erase_timersD [OF timer_frameD(2) [OF assms(1)]]
  by (simp add: same_handle_def)

lemma same_poll:
  assumes "poll_handle_frame g s s'" "g \<noteq> h" "h \<in> set (all_handles s)"
  shows "same_handle h s s'"
proof -
  have "erase_polls s' = erase_polls s" using assms(1) by (simp add: poll_handle_frame_def)
  from erase_pollsD [OF this] show ?thesis using assms by (simp add: same_handle_def poll_handle_frame_def)
qed

lemma timer_stop_same:
  assumes "counts_ok s" "timers_ok s" "a_timer s g" "uv_timer_stop g s = Some s'" "g \<noteq> h" "h \<in> set (all_handles s)"
  shows "same_handle h s s'"
  using timer_stop_ok [OF assms(1-3)] same_timer [OF _ assms(5,6)] assms(4) by auto

lemma timer_start_same:
  assumes "counts_ok s" "timers_ok s" "a_timer s g" "uv_timer_start g cb tmo rep s = Some (r, s')" "g \<noteq> h" "h \<in> set (all_handles s)"
  shows "same_handle h s s'"
proof (cases "uv__is_closing g s \<or> cb = NULL")
  case True
  then have "s' = s" using assms(4) by (auto simp: uv_timer_start_def)
  then show ?thesis using same_handle_refl assms(6) by simp
next
  case False
  then show ?thesis using timer_start_ok [OF assms(1-3), of cb tmo rep] same_timer [OF _ assms(5,6)] assms(4) by auto
qed

lemma timer_again_same:
  assumes "counts_ok s" "timers_ok s" "a_timer s g" "uv_timer_again g s = Some (r, s')" "g \<noteq> h" "h \<in> set (all_handles s)"
  shows "same_handle h s s'"
proof (cases "timer_cb (timer s g) = NULL \<or> repeat_in (timer s g) = 0")
  case True
  then have "s' = s" using assms(4) by (auto simp: uv_timer_again_def split: if_splits)
  then show ?thesis using same_handle_refl assms(6) by simp
next
  case False
  from timer_stop_ok [OF assms(1-3)] obtain s1 where
    s1: "uv_timer_stop g s = Some s1" "counts_ok s1" "timers_ok s1" "timer_frame g s s1" by blast
  have a1: "a_timer s1 g" using assms(3) timer_frameD(1,8) [OF s1(4)] by simp
  obtain r2 where r2: "uv_timer_start g (timer_cb (timer s1 g)) (repeat_in (timer s1 g)) (repeat_in (timer s1 g)) s1 = Some (r2, s')"
    using False assms(4) s1(1) by (auto simp: uv_timer_again_def)
  have "same_handle h s s1" by (rule timer_stop_same [OF assms(1-3) s1(1) assms(5,6)])
  moreover from this have "h \<in> set (all_handles s1)" by (simp add: same_handle_def)
  from timer_start_same [OF s1(2,3) a1 r2 assms(5) this] have "same_handle h s1 s'" .
  ultimately show ?thesis by (rule same_handle_trans)
qed

lemma watcher_stop_same:
  "g \<noteq> h \<Longrightarrow> h \<in> set (all_handles s) \<Longrightarrow> same_handle h s (uv_watcher_stop k g s)"
  by (simp add: same_handle_def uv_watcher_stop_def Let_def macro_handles)

lemma watcher_start_same:
  "g \<noteq> h \<Longrightarrow> h \<in> set (all_handles s) \<Longrightarrow> same_handle h s (snd (uv_watcher_start k g cb s))"
  by (simp add: same_handle_def uv_watcher_start_def Let_def macro_handles)

lemma async_close_same:
  "g \<noteq> h \<Longrightarrow> h \<in> set (all_handles s) \<Longrightarrow> same_handle h s (uv__async_close g s)"
  by (simp add: same_handle_def uv__async_close_def set_pending_def Let_def macro_handles)

lemma close_kind_same:
  assumes "core_ok s" "g \<in> set (all_handles s)" "htype (handle s g) = UV_POLL \<longrightarrow> fd_free s g"
    and "close_kind g s = Some s'" "g \<noteq> h" "h \<in> set (all_handles s)"
  shows "same_handle h s s'"
proof -
  note c = core_okD [OF assms(1)]
  consider "htype (handle s g) = UV_TIMER" "uv_timer_stop g s = Some s'" | k where "s' = uv_watcher_stop k g s"
    | "htype (handle s g) = UV_POLL" "uv__poll_stop g s = Some s'" | "s' = uv__async_close g s"
    using assms(4) by (auto simp: close_kind_def uv__watcher_close_def uv__timer_close_def uv__poll_close_def split: uv_handle_type.splits)
  then show ?thesis
  proof cases
    case 1
    then show ?thesis using timer_stop_same [OF c(1,2) _ _ assms(5,6)] assms(2) by simp
  next
    case 2
    then show ?thesis using watcher_stop_same [OF assms(5,6)] by simp
  next
    case 3
    then have "fd_free s g" using assms(3) by simp
    from poll_stop_ok [OF c(1,4,5) conjI [OF assms(2) 3(1)] this] show ?thesis
      using 3 same_poll [OF _ assms(5,6)] by auto
  next
    case 4
    then show ?thesis using async_close_same [OF assms(5,6)] by simp
  qed
qed

text \<open>Closing \<open>h\<close>: the operation of its kind on the state in which \<open>h\<close> is marked.\<close>

definition marked :: "ptr \<Rightarrow> ptr \<Rightarrow> uv_loop \<Rightarrow> uv_loop" where
  "marked h cb s = s\<lparr>handle := (handle s)(h := (handle s h)\<lparr>flags := flags (handle s h) OR UV_HANDLE_CLOSING, close_cb := cb\<rparr>)\<rparr>"

lemma marked_fields [simp]:
  "ready_queue (marked h cb s) = ready_queue s" "run_queue (marked h cb s) = run_queue s" "async_run (marked h cb s) = async_run s"
  "timer (marked h cb s) = timer s" "watcher_cb (marked h cb s) = watcher_cb s" "async (marked h cb s) = async s"
  "all_handles (marked h cb s) = all_handles s" "htype (handle (marked h cb s) g) = htype (handle s g)"
  "active (marked h cb s) g = active s g"
  by (simp_all add: marked_def flag_update)

lemma close_parts:
  assumes "uv_close h cb s = Some s'"
  obtains s2 where "close_kind h (marked h cb s) = Some s2" "s' = s2\<lparr>closing_handles := h # closing_handles s2\<rparr>"
  using assms by (auto simp: uv_close_def uv__make_close_pending_def marked_def Let_def bind_eq_Some_conv split: if_splits)

lemma close_same:
  assumes "loop_ok L s" "legal c (Close g cb) s" "uv_close g cb s = Some s'" "g \<noteq> h" "h \<in> set (all_handles s)"
  shows "same_handle h s s'"
proof -
  let ?s = "marked g cb s"
  note l = loop_okD [OF assms(1)]
  have g: "g \<in> set (all_handles s)" "htype (handle s g) = UV_POLL \<longrightarrow> fd_free s g" using assms(2) by simp_all
  have "counted ?s = counted s" by (auto simp: counted_def marked_def flag_update)
  from counts_ok_same [OF l(1) _ this] have "core_ok ?s"
    by (rule core_flags [OF l(10)]) (simp_all add: quiet_for_def marked_def flag_update)
  moreover have "htype (handle ?s g) = UV_POLL \<longrightarrow> fd_free ?s g" using g(2) by (simp add: fd_free_def marked_def)
  moreover obtain s2 where s2: "close_kind g ?s = Some s2" "s' = s2\<lparr>closing_handles := g # closing_handles s2\<rparr>"
    by (rule close_parts [OF assms(3)])
  ultimately have "same_handle h ?s s2"
    using close_kind_same [of ?s g s2 h] g(1) assms(4,5) by simp
  moreover have "same_handle h s ?s" using assms(4,5) by (simp add: same_handle_def marked_def)
  moreover have "h \<in> set (all_handles s2)" using calculation(1) by (simp add: same_handle_def)
  then have "same_handle h s2 s'" by (simp add: same_handle_def s2(2))
  ultimately show ?thesis using same_handle_trans by blast
qed

lemma exec_same:
  assumes "loop_ok L s" "legal c a s" "exec c a s = Some s'" "h \<in> set (all_handles s)" "subject a \<noteq> Some h"
  shows "same_handle h s s'"
proof -
  note l = loop_okD [OF assms(1)]
  show ?thesis
  proof (cases a)
    case (Timer_start g cb tmo rep)
    then obtain r where "uv_timer_start g cb tmo rep s = Some (r, s')" using assms(3) by auto
    then show ?thesis using timer_start_same [OF l(1,2)] Timer_start assms(2,4,5) by auto
  next
    case (Timer_stop g)
    then show ?thesis using timer_stop_same [OF l(1,2)] assms(2-5) by auto
  next
    case (Timer_again g)
    then obtain r where "uv_timer_again g s = Some (r, s')" using assms(3) by auto
    then show ?thesis using timer_again_same [OF l(1,2)] Timer_again assms(2,4,5) by auto
  next
    case (Poll_init g f)
    then obtain r where r: "uv_poll_init c g f s = Some (r, s')" using assms(3) by auto
    have f: "fresh g s" "0 \<le> f" "f \<le> 2147483645" using Poll_init assms(2) by simp_all
    from poll_init_ok [OF l(1,4,5) _ _ _ _ _ f(2,3) r] f(1) have
      "s' = s \<or> s' = (uv__handle_init UV_POLL g s)\<lparr>
         io := (io s)(g := \<lparr>io_cb = Uv__poll_io, pevents = 0, events = 0, fd = f\<rparr>), poll_cb := (poll_cb s)(g := NULL)\<rparr>"
      by (cases r) (auto simp: fresh_def)
    then show ?thesis using assms(4,5) Poll_init same_handle_refl by (auto simp: same_handle_def)
  next
    case (Poll_start g ev cb)
    then have h: "a_poll s g" "\<not> uv__is_closing g s" "user_events ev" "ev \<noteq> 0 \<longrightarrow> cb \<noteq> NULL" using assms(2) by simp_all
    from poll_start_ok [OF l(1,4,5) h] Poll_start assms(3) have "poll_handle_frame g s s'" by auto
    then show ?thesis using same_poll Poll_start assms(4,5) by simp
  next
    case (Poll_stop g)
    then have h: "a_poll s g" "\<not> uv__is_closing g s" "fd_free s g" using assms(2) by simp_all
    from poll_stop_ok [OF l(1,4,5) h(1,3)] Poll_stop assms(3) h(2) have "poll_handle_frame g s s'"
      by (auto simp: uv_poll_stop_def)
    then show ?thesis using same_poll Poll_stop assms(4,5) by simp
  next
    case (Async_init g cb)
    then have f: "g \<notin> set (all_handles s)" "g \<noteq> NULL" "length (all_handles s) + 1 < 2 ^ 32" using assms(2) by (simp_all add: fresh_def)
    from async_init_ok [OF l(1,6) f l(9), of "Inl UV_ENOSYS" cb] Async_init assms(3) have
      "s' = uv__handle_start g ((uv__handle_init UV_ASYNC g s)\<lparr>async := (async s)(g := \<lparr>async_cb = cb, pending = False\<rparr>),
           async_handles := async_handles s @ [g]\<rparr>)" by auto
    then show ?thesis using f(1) assms(4) by (auto simp: same_handle_def macro_handles)
  next
    case (Close g cb)
    then show ?thesis using close_same [OF assms(1)] assms(2-5) by auto
  next
    case (Watcher_stop k g)
    then show ?thesis using watcher_stop_same assms(3-5) by auto
  next
    case (Watcher_start k g cb)
    then show ?thesis using watcher_start_same assms(3-5) by auto
  next
    case (Timer_init g)
    then show ?thesis using assms(3-5) by (auto simp: same_handle_def uv_timer_init_def set_timer_def Let_def)
  next
    case (Watcher_init k g)
    then show ?thesis using assms(3-5) by (auto simp: same_handle_def uv_watcher_init_def Let_def)
  next
    case (Timer_set_repeat g r)
    then show ?thesis using assms(3-5) by (auto simp: same_handle_def uv_timer_set_repeat_def set_timer_def)
  next
    case (Async_send g)
    then have "s' = uv_async_send g s" "g \<noteq> h" using assms(3,5) by simp_all
    then show ?thesis using assms(4) by (simp add: same_handle_def uv_async_send_def set_pending_def)
  next
    case (Ref g)
    then have s': "s' = uv_ref g s" using assms(3) by simp
    show ?thesis unfolding s' using assms(4) by (cases "h = g") (simp_all add: same_handle_def uv_ref_def macro_handles flag_update)
  next
    case (Unref g)
    then have s': "s' = uv_unref g s" using assms(3) by simp
    show ?thesis unfolding s' using assms(4) by (cases "h = g") (simp_all add: same_handle_def uv_unref_def macro_handles flag_update)
  next
    case Stop
    then show ?thesis using assms(3,4) by (auto simp: same_handle_def uv_stop_def)
  next
    case Update_time
    then show ?thesis using assms(3,4) by (auto simp: same_handle_def uv_update_time_def uv__update_time_def)
  qed
qed

section \<open>Calls about a waiting handle\<close>

lemma stop_leaves_ready:
  assumes "distinct (ready_queue s)" "\<not> active s h" "uv_timer_stop h s = Some s'"
  shows "h \<notin> set (ready_queue s')"
  using assms by (auto simp: uv_timer_stop_def is_bits)

lemma start_leaves_ready:
  assumes "distinct (ready_queue s)" "\<not> active s h" "uv_timer_start h cb tmo rep s = Some (r, s')"
  shows "s' = s \<or> h \<notin> set (ready_queue s')"
proof (cases "uv__is_closing h s \<or> cb = NULL")
  case True
  then show ?thesis using assms(3) by (auto simp: uv_timer_start_def)
next
  case False
  then show ?thesis using assms by (auto simp: uv_timer_start_def uv_timer_stop_def is_bits Let_def set_timer_def)
qed

lemma again_leaves_ready:
  assumes "distinct (ready_queue s)" "\<not> active s h" "uv_timer_again h s = Some (r, s')"
  shows "s' = s \<or> h \<notin> set (ready_queue s')"
proof (cases "timer_cb (timer s h) = NULL \<or> repeat_in (timer s h) = 0")
  case True
  then show ?thesis using assms(3) by (auto simp: uv_timer_again_def split: if_splits)
next
  case False
  let ?s = "s\<lparr>ready_queue := remove1 h (ready_queue s)\<rparr>"
  obtain r2 where "uv_timer_start h (timer_cb (timer s h)) (repeat_in (timer s h)) (repeat_in (timer s h)) ?s = Some (r2, s')"
    using False assms(2,3) by (auto simp: uv_timer_again_def uv_timer_stop_def is_bits)
  from start_leaves_ready [OF _ _ this] show ?thesis using assms(1,2) by auto
qed

lemma exec_ready:
  assumes "loop_ok L s" "legal c a s" "exec c a s = Some s'" "h \<in> set (ready_queue s')"
  shows "h \<in> set (ready_queue s)" "timer_cb (timer s' h) = timer_cb (timer s h)"
proof -
  note l = loop_okD [OF assms(1)]
  from exec_ok [OF assms(1,2)] assms(3) have "subseq (ready_queue s') (ready_queue s)"
    by (simp add: api_frame_def callback_frame_def)
  then show w: "h \<in> set (ready_queue s)" using assms(4) by (auto dest: list_emb_set)
  then have h: "h \<in> set (all_handles s)" "htype (handle s h) = UV_TIMER" "\<not> active s h" "distinct (ready_queue s)"
    using l(2) by (auto simp: timers_ok_def)
  have t: "watcher_type k \<noteq> UV_TIMER" for k by (cases k) simp_all
  show "timer_cb (timer s' h) = timer_cb (timer s h)"
  proof (cases "subject a = Some h")
    case False
    then show ?thesis using exec_same [OF assms(1-3) h(1)] by (simp add: same_handle_def)
  next
    case True
    note no = stop_leaves_ready [OF h(4,3)] start_leaves_ready [OF h(4,3)] again_leaves_ready [OF h(4,3)]
    show ?thesis
    proof (cases a)
      case (Close g cb)
      then have "uv_close h cb s = Some s'" using assms(3) True by simp
      then obtain s2 where s2: "close_kind h (marked h cb s) = Some s2" "s' = s2\<lparr>closing_handles := h # closing_handles s2\<rparr>"
        by (rule close_parts)
      then have "uv_timer_stop h (marked h cb s) = Some s2" using h(2) by (simp add: close_kind_def uv__timer_close_def)
      from stop_leaves_ready [OF _ _ this] h(3,4) have "h \<notin> set (ready_queue s2)" by simp
      then show ?thesis using s2(2) assms(4) by simp
    qed (use True assms(2-4) h no t [symmetric] in
        \<open>fastforce simp: fresh_def uv_timer_set_repeat_def set_timer_def\<close>)+
  qed
qed

fun stops_watcher :: "loop_watcher \<Rightarrow> ptr \<Rightarrow> api_call \<Rightarrow> bool" where
  "stops_watcher k h (Watcher_stop j g) \<longleftrightarrow> j = k \<and> g = h"
| "stops_watcher k h (Close g _) \<longleftrightarrow> g = h"
| "stops_watcher k h _ \<longleftrightarrow> False"

fun closes :: "ptr \<Rightarrow> api_call \<Rightarrow> bool" where
  "closes h (Close g _) \<longleftrightarrow> g = h"
| "closes h _ \<longleftrightarrow> False"

fun sends :: "ptr \<Rightarrow> api_call \<Rightarrow> bool" where
  "sends h (Async_send g) \<longleftrightarrow> g = h"
| "sends h _ \<longleftrightarrow> False"

lemma watcher_types:
  "watcher_type k \<noteq> UV_TIMER" "watcher_type k \<noteq> UV_ASYNC" "watcher_type k \<noteq> UV_POLL"
  by (cases k; simp)+

lemma stop_watcher_cb: "watcher_cb (uv_watcher_stop k h s) = watcher_cb s"
  by (simp add: uv_watcher_stop_def Let_def)

lemma exec_run_queue:
  assumes "loop_ok L s" "legal c a s" "exec c a s = Some s'" "h \<in> set (run_queue s k)"
  shows "watcher_cb s' h = watcher_cb s h" "\<not> stops_watcher k h a \<Longrightarrow> h \<in> set (run_queue s' k)"
proof -
  note l = loop_okD [OF assms(1)]
  have "h \<in> active_watchers k s" using l(3) assms(4) unfolding watchers_ok_def watching_def by (metis Un_iff set_append)
  then have h: "h \<in> set (all_handles s)" "htype (handle s h) = watcher_type k" "active s h" by (simp_all add: active_watchers_def)
  have "watcher_cb s' h = watcher_cb s h \<and> (\<not> stops_watcher k h a \<longrightarrow> h \<in> set (run_queue s' k))"
  proof (cases "subject a = Some h")
    case False
    then show ?thesis using exec_same [OF assms(1-3) h(1)] assms(4) by (simp add: same_handle_def)
  next
    case True
    show ?thesis
    proof (cases a)
      case (Close g cb)
      then have "uv_close h cb s = Some s'" using assms(3) True by simp
      then obtain s2 where s2: "close_kind h (marked h cb s) = Some s2" "s' = s2\<lparr>closing_handles := h # closing_handles s2\<rparr>"
        by (rule close_parts)
      then have "s2 = uv_watcher_stop k h (marked h cb s)"
        using h(2) by (cases k) (simp_all add: close_kind_def uv__watcher_close_def)
      then show ?thesis using Close True s2(2) by (simp add: stop_watcher_cb)
    next
      case (Watcher_stop j g)
      then have "g = h" "j = k" using True assms(2) h(2) by (simp_all add: watcher_type_inj)
      then show ?thesis using Watcher_stop assms(3) stop_watcher_cb by auto
    next
      case (Watcher_start j g cb)
      then have "s' = s" using True assms(3) h(3) by (simp add: uv_watcher_start_def is_bits)
      then show ?thesis using assms(4) by simp
    qed (use True assms(2) h watcher_types [of k] in \<open>simp_all add: fresh_def\<close>)
  qed
  then show "watcher_cb s' h = watcher_cb s h" "\<not> stops_watcher k h a \<Longrightarrow> h \<in> set (run_queue s' k)" by blast+
qed

lemma async_fields:
  "async_cb (async (uv_async_send h s) g) = async_cb (async s g)" "async_run (uv_async_send h s) = async_run s"
  "async_cb (async (uv__async_close h s) g) = async_cb (async s g)" "async_run (uv__async_close h s) = remove1 h (async_run s)"
  by (simp_all add: uv_async_send_def uv__async_close_def set_pending_def Let_def)

lemma exec_pending:
  assumes "loop_ok L s" "legal c a s" "exec c a s = Some s'" "h \<in> set (all_handles s)" "htype (handle s h) = UV_ASYNC"
  shows "async_cb (async s' h) = async_cb (async s h)"
    "pending (async s' h) \<Longrightarrow> pending (async s h) \<or> sends h a \<or> closes h a"
    "closes h a \<Longrightarrow> h \<notin> set (async_run s')"
    "\<not> closes h a \<Longrightarrow> h \<in> set (async_run s) \<Longrightarrow> h \<in> set (async_run s')"
    "\<not> closes h a \<Longrightarrow> pending (async s h) \<Longrightarrow> pending (async s' h)"
    "h \<in> set (all_handles s') \<and> htype (handle s' h) = UV_ASYNC"
proof -
  note l = loop_okD [OF assms(1)]
  have d: "distinct (async_run s)" using l(6) by (simp add: asyncs_ok_def asyncs_def)
  have "async_cb (async s' h) = async_cb (async s h) \<and>
    (pending (async s' h) \<longrightarrow> pending (async s h) \<or> sends h a \<or> closes h a) \<and>
    (closes h a \<longrightarrow> h \<notin> set (async_run s')) \<and>
    (\<not> closes h a \<and> h \<in> set (async_run s) \<longrightarrow> h \<in> set (async_run s')) \<and>
    (\<not> closes h a \<and> pending (async s h) \<longrightarrow> pending (async s' h)) \<and>
    h \<in> set (all_handles s') \<and> htype (handle s' h) = UV_ASYNC"
  proof (cases "subject a = Some h")
    case False
    then have "\<not> closes h a" by (cases a) simp_all
    then show ?thesis using exec_same [OF assms(1-4) False] assms(5) by (simp add: same_handle_def)
  next
    case True
    show ?thesis
    proof (cases a)
      case (Close g cb)
      then have "uv_close h cb s = Some s'" using assms(3) True by simp
      then obtain s2 where s2: "close_kind h (marked h cb s) = Some s2" "s' = s2\<lparr>closing_handles := h # closing_handles s2\<rparr>"
        by (rule close_parts)
      then have "s2 = uv__async_close h (marked h cb s)" using assms(5) by (simp add: close_kind_def)
      moreover have "htype (handle (uv__async_close h t) g) = htype (handle t g)" "all_handles (uv__async_close h t) = all_handles t" for t g
        by (simp_all add: uv__async_close_def set_pending_def macro_handles)
      ultimately show ?thesis using Close True s2(2) d assms(4,5) by (simp add: async_fields)
    next
      case (Async_send g)
      then have s': "s' = uv_async_send h s" using True assms(3) by simp
      have "pending (async s' h)" "handle s' = handle s" "all_handles s' = all_handles s"
        unfolding s' by (simp_all add: uv_async_send_def set_pending_def)
      then show ?thesis using Async_send True assms(4,5) s' by (simp add: async_fields)
    qed (use True assms(2,4,5) watcher_types(2) [symmetric] in \<open>auto simp: fresh_def\<close>)
  qed
  then show "async_cb (async s' h) = async_cb (async s h)"
    "pending (async s' h) \<Longrightarrow> pending (async s h) \<or> sends h a \<or> closes h a"
    "closes h a \<Longrightarrow> h \<notin> set (async_run s')"
    "\<not> closes h a \<Longrightarrow> h \<in> set (async_run s) \<Longrightarrow> h \<in> set (async_run s')"
    "\<not> closes h a \<Longrightarrow> pending (async s h) \<Longrightarrow> pending (async s' h)"
    "h \<in> set (all_handles s') \<and> htype (handle s' h) = UV_ASYNC" by blast+
qed

section \<open>From calls to callbacks\<close>

text \<open>A callback may make a call of the kind \<open>D\<close>: in some state one of its calls is legal and such.\<close>

definition may_make :: "fd_calls \<Rightarrow> program \<Rightarrow> (api_call \<Rightarrow> bool) \<Rightarrow> ptr \<times> ptr \<Rightarrow> bool" where
  "may_make c P D p \<longleftrightarrow> (\<exists>f \<in> set (P (fst p) (snd p)). \<exists>t. legal c (f t) t \<and> D (f t))"

lemma exec_calls_rel:
  assumes "reflp R" "transp R" "\<forall>s a s'. loop_ok L s \<and> legal c a s \<and> exec c a s = Some s' \<and> \<not> D a \<longrightarrow> R s s'"
  shows "loop_ok L s \<Longrightarrow> exec_calls c as s = Some s' \<Longrightarrow> \<forall>f \<in> set as. \<forall>t. legal c (f t) t \<longrightarrow> \<not> D (f t) \<Longrightarrow> R s s'"
proof (induction as arbitrary: s)
  case Nil
  then show ?case using assms(1) by (simp add: reflpD)
next
  case (Cons a as)
  show ?case
  proof (cases "legal c (a s) s")
    case True
    from exec_ok [OF Cons.prems(1) True] obtain s1 where s1: "exec c (a s) s = Some s1" "loop_ok L s1" by blast
    have "R s s1" using assms(3) Cons.prems(1,3) True s1(1) by auto
    moreover have "R s1 s'" by (rule Cons.IH [OF s1(2)]) (use Cons.prems(2,3) True s1(1) in auto)
    ultimately show ?thesis using transpD [OF assms(2)] by blast
  next
    case False
    then show ?thesis using Cons by simp
  qed
qed

lemma call_rel:
  assumes "reflp R" "transp R" "\<forall>s a s'. loop_ok L s \<and> legal c a s \<and> exec c a s = Some s' \<and> \<not> D a \<longrightarrow> R s s'"
    and "inside L ph I s" "call (run_program c P) cb h s = Some s'" "\<not> may_make c P D (cb, h)"
  shows "R (s\<lparr>called := called s @ [(cb, h)]\<rparr>) s'"
proof -
  have "loop_ok L (s\<lparr>called := called s @ [(cb, h)]\<rparr>)"
    using insideD(1) [OF prog.ok_called [OF assms(4), of "called s @ [(cb, h)]"]] .
  moreover have "exec_calls c (P cb h) (s\<lparr>called := called s @ [(cb, h)]\<rparr>) = Some s'"
    using assms(5) by (simp add: call_def run_program_def split: if_splits)
  moreover have "\<forall>f \<in> set (P cb h). \<forall>t. legal c (f t) t \<longrightarrow> \<not> D (f t)" using assms(6) by (auto simp: may_make_def)
  ultimately show ?thesis using exec_calls_rel [of R L c D, OF assms(1-3)] by blast
qed

section \<open>Timers\<close>

text \<open>What restarting a timer that is not active makes of it.\<close>

lemma again_active:
  assumes "\<not> active s h" "timer_cb (timer s h) \<noteq> NULL" "uv_timer_again h s = Some (r, s')"
  shows "active s' h \<longleftrightarrow> repeat_in (timer s h) \<noteq> 0 \<and> \<not> uv__is_closing h s"
proof (cases "repeat_in (timer s h) = 0 \<or> uv__is_closing h s")
  case True
  then show ?thesis using assms
    by (auto simp: uv_timer_again_def uv_timer_stop_def uv_timer_start_def is_bits split: if_splits)
next
  case False
  then show ?thesis using assms
    by (auto simp: uv_timer_again_def uv_timer_stop_def uv_timer_start_def is_bits Let_def set_timer_def macro_handles flag_update)
qed

text \<open>
  A client of the timers, with the callbacks that may touch a timer: all others leave it as it
  is, and waiting if it waits; and no callback changes that of a timer that goes on waiting.
\<close>

locale timer_pass = timer_client client ok
  for client :: client and ok :: "uv_loop \<Rightarrow> bool" +
  fixes touched :: "ptr \<Rightarrow> ptr \<times> ptr \<Rightarrow> bool"
  assumes ready_kept: "ok t \<Longrightarrow> call client cb g t = Some t' \<Longrightarrow> h \<in> set (ready_queue t') \<Longrightarrow>
      timer_cb (timer t' h) = timer_cb (timer t h)"
    and untouched: "ok t \<Longrightarrow> call client cb g t = Some t' \<Longrightarrow> \<not> touched h (cb, g) \<Longrightarrow> a_timer t h \<Longrightarrow> same_handle h t t'"
begin

lemma run_ready_pass:
  "ok s \<Longrightarrow> \<exists>s' xs. run_ready client s = Some s' \<and> ok s' \<and> ready_queue s' = [] \<and> subseq xs (ready_queue s) \<and>
     called s' = called s @ map (\<lambda>h. (timer_cb (timer s h), h)) xs \<and>
     (\<forall>h. a_timer s h \<and> (\<forall>g \<in> set xs. \<not> touched h (timer_cb (timer s g), g)) \<longrightarrow>
        (if h \<in> set (ready_queue s) then h \<in> set xs \<and> (active s' h \<longleftrightarrow> repeat_in (timer s h) \<noteq> 0 \<and> \<not> uv__is_closing h s)
         else active s' h = active s h))"
proof (induction "length (ready_queue s)" arbitrary: s rule: less_induct)
  case less
  show ?case
  proof (cases "ready_queue s")
    case Nil
    then show ?thesis using less.prems by (subst run_ready.simps) (auto intro: exI [of _ "[]"])
  next
    case (Cons k q)
    note t = ok_timers [OF less.prems]
    from pop_ready [OF _ _ Cons] t obtain s1 where
      s1: "uv_timer_again k (s\<lparr>ready_queue := q\<rparr>) = Some (None, s1)" "counts_ok s1" "timers_ok s1"
        "timers_frame s s1" "ready_queue s1 = q" "timer_cb (timer s1 k) = timer_cb (timer s k)" "timer_cb (timer s k) \<noteq> NULL" by blast
    have ok1: "ok s1" by (rule ok_frame [OF less.prems s1(4,2,3)])
    have k: "a_timer s k" "\<not> active s k" "distinct (k # q)" using t Cons by (auto simp: timers_ok_def)
    have "timers_ok (s\<lparr>ready_queue := q\<rparr>)" by (rule timers_ok_ready) (use t Cons in \<open>auto simp: timers_ok_def\<close>)
    moreover have "counts_ok (s\<lparr>ready_queue := q\<rparr>)" using counts_ok_cong [of s "s\<lparr>ready_queue := q\<rparr>"] t by simp
    ultimately have others: "same_handle h (s\<lparr>ready_queue := q\<rparr>) s1" if "h \<in> set (all_handles s)" "h \<noteq> k" for h
      using timer_again_same [OF _ _ _ s1(1)] k(1) that by simp
    have a1: "active s1 k \<longleftrightarrow> repeat_in (timer s k) \<noteq> 0 \<and> \<not> uv__is_closing k s"
      using again_active [OF _ _ s1(1)] k(2) s1(7) by (simp add: is_bits)
    let ?p = "(timer_cb (timer s k), k)"
    obtain s2 where s2: "call client (timer_cb (timer s k)) k s1 = Some s2" "ok s2" "subseq (ready_queue s2) q" "called s2 = called s1 @ [?p]"
      using call_ok [OF ok1 s1(7), of k] s1(5) by auto
    have "length (ready_queue s2) < length (ready_queue s)" using list_emb_length [OF s2(3)] Cons by simp
    from less.hyps [OF this s2(2)] obtain s' xs where
      s': "run_ready client s2 = Some s'" "ok s'" "ready_queue s' = []" "subseq xs (ready_queue s2)"
        "called s' = called s2 @ map (\<lambda>h. (timer_cb (timer s2 h), h)) xs"
        "\<And>h. a_timer s2 h \<Longrightarrow> \<forall>g \<in> set xs. \<not> touched h (timer_cb (timer s2 g), g) \<Longrightarrow>
          (if h \<in> set (ready_queue s2) then h \<in> set xs \<and> (active s' h \<longleftrightarrow> repeat_in (timer s2 h) \<noteq> 0 \<and> \<not> uv__is_closing h s2)
           else active s' h = active s2 h)" by blast
    have xs: "set xs \<subseteq> set (ready_queue s2)" "set (ready_queue s2) \<subseteq> set q"
      using s'(4) s2(3) by (auto dest: list_emb_set)
    have cb: "timer_cb (timer s2 g) = timer_cb (timer s g)" if "g \<in> set xs" for g
    proof -
      have "timer_cb (timer s2 g) = timer_cb (timer s1 g)" by (rule ready_kept [OF ok1 s2(1)]) (use that xs in blast)
      moreover have "g \<noteq> k" "g \<in> set q" using that xs k(3) by auto
      moreover from this have "g \<in> set (all_handles s)" using t Cons by (auto simp: timers_ok_def)
      ultimately show ?thesis using others by (simp add: same_handle_def)
    qed
    have "if h \<in> set (ready_queue s) then h \<in> set (k # xs) \<and> (active s' h \<longleftrightarrow> repeat_in (timer s h) \<noteq> 0 \<and> \<not> uv__is_closing h s)
         else active s' h = active s h"
      if h: "a_timer s h" "\<forall>g \<in> set (k # xs). \<not> touched h (timer_cb (timer s g), g)" for h
    proof -
      have f1: "a_timer s1 h" using h(1) timers_frameD(1) [OF s1(4)] s1(4) by (simp add: timers_frame_def)
      have sm: "same_handle h s1 s2" using untouched [OF ok1 s2(1) _ f1] h(2) by simp
      then have "a_timer s2 h" using f1 by (simp add: same_handle_def)
      moreover have "\<forall>g \<in> set xs. \<not> touched h (timer_cb (timer s2 g), g)" using h(2) cb by auto
      ultimately have ih: "if h \<in> set (ready_queue s2) then h \<in> set xs \<and> (active s' h \<longleftrightarrow> repeat_in (timer s2 h) \<noteq> 0 \<and> \<not> uv__is_closing h s2)
           else active s' h = active s2 h" by (rule s'(6))
      have sm': "active s2 h = active s1 h" "uv__is_closing h s2 = uv__is_closing h s1" "timer s2 h = timer s1 h"
        "h \<in> set q \<longrightarrow> h \<in> set (ready_queue s2)" using sm s1(5) by (simp_all add: same_handle_def is_bits)
      show ?thesis
      proof (cases "h = k")
        case True
        then have "h \<notin> set (ready_queue s2)" using xs(2) k(3) by auto
        then show ?thesis using True ih a1 sm'(1) Cons by simp
      next
        case False
        then have "timer s1 h = timer s h" "active s1 h = active s h" "uv__is_closing h s1 = uv__is_closing h s"
          using others [of h] h(1) by (simp_all add: same_handle_def is_bits)
        then show ?thesis using False ih sm' xs(2) Cons by (auto split: if_splits)
      qed
    qed
    moreover have "run_ready client s = Some s'" using Cons s1(1,6) s2(1) s'(1) by (subst run_ready.simps) simp
    moreover have "subseq (k # xs) (ready_queue s)" using subseq_order.order_trans [OF s'(4) s2(3)] Cons by simp
    moreover have "called s' = called s @ map (\<lambda>h. (timer_cb (timer s h), h)) (k # xs)"
      using s'(5) s2(4) timers_frameD(3) [OF s1(4)] cb by simp
    ultimately show ?thesis using s'(2,3) by blast
  qed
qed

lemma run_timers_pass:
  assumes "ok s"
  shows "\<exists>s' ds xs. uv__run_timers client s = Some s' \<and> ok s' \<and> ready_queue s' = [] \<and>
    set ds = due_timers s \<and> distinct ds \<and> sorted_wrt (\<lambda>a b. \<not> timer_less_than s b a) ds \<and> subseq xs ds \<and>
    called s' = called s @ map (\<lambda>h. (timer_cb (timer s h), h)) xs \<and>
    (\<forall>h \<in> due_timers s. (\<forall>g \<in> set xs. \<not> touched h (timer_cb (timer s g), g)) \<longrightarrow>
       h \<in> set xs \<and> (active s' h \<longleftrightarrow> repeat_in (timer s h) \<noteq> 0 \<and> \<not> uv__is_closing h s))"
proof -
  let ?s = "s\<lparr>ready_queue := []\<rparr>"
  have i: "counts_ok s" "timers_ok s" using ok_timers [OF assms] by blast+
  have e: "counts_ok ?s" "timers_ok ?s"
    using counts_ok_cong [OF i(1), of ?s] timers_ok_ready [OF i(2), of "[]"] by simp_all
  have d: "due_timers ?s = due_timers s" "timer_less_than ?s = timer_less_than s"
    by (simp_all add: due_timers_def active_timers_def fun_eq_iff timer_less_than_def)
  from collect_due_ok [OF e] obtain s1 ds where
    s1: "collect_due ?s = Some s1" "counts_ok s1" "timers_ok s1" "timers_frame ?s s1" "ready_queue s1 = ds"
      "set ds = due_timers s" "sorted_wrt (\<lambda>a b. \<not> timer_less_than s b a) ds" "timer s1 = timer s" by (auto simp: d)
  have f: "timers_frame s s1" using timers_frame_trans [OF timers_frame_ready s1(4)] .
  have ok1: "ok s1" by (rule ok_frame [OF assms f s1(2,3)])
  have due: "a_timer s1 h" "uv__is_closing h s1 = uv__is_closing h s" if "h \<in> due_timers s" for h
    using that f timers_frameD(1) [OF f] by (auto simp: due_timers_def active_timers_def timers_frame_def is_bits)
  from run_ready_pass [OF ok1] obtain s' xs where
    s': "run_ready client s1 = Some s'" "ok s'" "ready_queue s' = []" "subseq xs ds"
      "called s' = called s1 @ map (\<lambda>h. (timer_cb (timer s h), h)) xs"
      "\<And>h. a_timer s1 h \<Longrightarrow> \<forall>g \<in> set xs. \<not> touched h (timer_cb (timer s g), g) \<Longrightarrow> h \<in> set ds \<Longrightarrow>
        h \<in> set xs \<and> (active s' h \<longleftrightarrow> repeat_in (timer s h) \<noteq> 0 \<and> \<not> uv__is_closing h s1)"
    unfolding s1(5,8) by (metis (lifting))
  have "\<forall>h \<in> due_timers s. (\<forall>g \<in> set xs. \<not> touched h (timer_cb (timer s g), g)) \<longrightarrow>
       h \<in> set xs \<and> (active s' h \<longleftrightarrow> repeat_in (timer s h) \<noteq> 0 \<and> \<not> uv__is_closing h s)"
    using s'(6) [OF due(1)] due(2) s1(6) by simp
  moreover have "called s1 = called s" using timers_frameD(3) [OF f] .
  moreover have "distinct ds" using s1(3,5) by (auto simp: timers_ok_def)
  moreover have "uv__run_timers client s = Some s'" using s1(1) s'(1) by (simp add: uv__run_timers_def)
  ultimately show ?thesis using s1(6,7) s'(2-5) by auto
qed

end

section \<open>Prepare, check and idle handles\<close>

text \<open>
  A client of the watchers, with the callbacks that may stop a watcher: only those take it off
  the queue, and none changes the callback of a watcher that waits.
\<close>

locale watcher_pass = watcher_client client ok k
  for client :: client and ok :: "uv_loop \<Rightarrow> bool" and k :: loop_watcher +
  fixes stopped :: "ptr \<Rightarrow> ptr \<times> ptr \<Rightarrow> bool"
  assumes watcher_kept: "ok t \<Longrightarrow> call client cb g t = Some t' \<Longrightarrow> h \<in> set (run_queue t' k) \<Longrightarrow> watcher_cb t' h = watcher_cb t h"
    and not_stopped: "ok t \<Longrightarrow> call client cb g t = Some t' \<Longrightarrow> h \<in> set (run_queue t k) \<Longrightarrow> \<not> stopped h (cb, g) \<Longrightarrow>
      h \<in> set (run_queue t' k)"
begin

lemma run_taken_pass:
  "ok s \<Longrightarrow> \<exists>s' xs. run_taken client k s = Some s' \<and> ok s' \<and> run_queue s' k = [] \<and> subseq xs (run_queue s k) \<and>
     called s' = called s @ map (\<lambda>h. (watcher_cb s h, h)) xs \<and>
     (\<forall>h \<in> set (run_queue s k). h \<in> set xs \<or> (\<exists>g \<in> set xs. stopped h (watcher_cb s g, g)))"
proof (induction "length (run_queue s k)" arbitrary: s rule: less_induct)
  case less
  show ?case
  proof (cases "run_queue s k")
    case Nil
    then show ?thesis using less.prems by (subst run_taken.simps) (auto intro: exI [of _ "[]"])
  next
    case (Cons h q)
    let ?s = "put_back k h q s"
    have f: "run_queue ?s k = q" "watcher_cb ?s = watcher_cb s" "called ?s = called s" by (simp_all add: put_back_def)
    have cb: "watcher_cb s h \<noteq> NULL" by (rule first_watcher_cb [OF ok_watchers [OF less.prems] Cons])
    have ok: "ok ?s"
      by (rule ok_queues [OF less.prems watchers_ok_put_back [OF ok_watchers [OF less.prems] Cons]]) (simp add: put_back_def)
    obtain s1 where s1: "call client (watcher_cb s h) h ?s = Some s1" "ok s1" "subseq (run_queue s1 k) q"
        "called s1 = called s @ [(watcher_cb s h, h)]"
      using call_ok [OF ok cb, of h] f by metis
    have "length (run_queue s1 k) < length (run_queue s k)" using list_emb_length [OF s1(3)] Cons by simp
    from less.hyps [OF this s1(2)] obtain s' xs where
      s': "run_taken client k s1 = Some s'" "ok s'" "run_queue s' k = []" "subseq xs (run_queue s1 k)"
        "called s' = called s1 @ map (\<lambda>h. (watcher_cb s1 h, h)) xs"
        "\<forall>h \<in> set (run_queue s1 k). h \<in> set xs \<or> (\<exists>g \<in> set xs. stopped h (watcher_cb s1 g, g))" by blast
    have xs: "subseq xs q" using subseq_order.order_trans [OF s'(4) s1(3)] .
    have "set xs \<subseteq> set (run_queue s1 k)" using s'(4) by (auto dest: list_emb_set)
    then have cbs: "watcher_cb s1 g = watcher_cb s g" if "g \<in> set xs" for g
      using watcher_kept [OF ok s1(1), of g] that f(2) by auto
    have "j \<in> set (h # xs) \<or> (\<exists>g \<in> set (h # xs). stopped j (watcher_cb s g, g))" if "j \<in> set q" for j
    proof (cases "stopped j (watcher_cb s h, h)")
      case False
      then have "j \<in> set (run_queue s1 k)" using not_stopped [OF ok s1(1), of j] that f by simp
      then show ?thesis using s'(6) cbs by (metis list.set_intros(2))
    qed simp
    then have "\<forall>j \<in> set (run_queue s k). j \<in> set (h # xs) \<or> (\<exists>g \<in> set (h # xs). stopped j (watcher_cb s g, g))"
      using Cons by auto
    moreover have "run_taken client k s = Some s'" using Cons s1(1) s'(1) f(2) by (subst run_taken.simps) simp
    moreover have "subseq (h # xs) (run_queue s k)" using xs Cons by simp
    moreover have "called s' = called s @ map (\<lambda>h. (watcher_cb s h, h)) (h # xs)" using s'(5) s1(4) cbs by simp
    ultimately show ?thesis using s'(2,3) by blast
  qed
qed

lemma run_watchers_pass:
  assumes "ok s" "run_queue s k = []"
  shows "\<exists>s' xs. uv__run_watchers client k s = Some s' \<and> ok s' \<and> run_queue s' k = [] \<and> subseq xs (watcher_handles s k) \<and>
    called s' = called s @ map (\<lambda>h. (watcher_cb s h, h)) xs \<and>
    (\<forall>h \<in> set (watcher_handles s k). h \<in> set xs \<or> (\<exists>g \<in> set xs. stopped h (watcher_cb s g, g)))"
proof -
  have "ok (take_queue k s)"
    by (rule ok_queues [OF assms(1) watchers_ok_take [OF ok_watchers [OF assms(1)] assms(2)]]) (simp add: take_queue_def)
  from run_taken_pass [OF this] show ?thesis by (simp add: uv__run_watchers_def take_queue_def)
qed

end

section \<open>Async handles\<close>

abbreviation an_async :: "uv_loop \<Rightarrow> ptr \<Rightarrow> bool" where
  "an_async s h \<equiv> h \<in> set (all_handles s) \<and> htype (handle s h) = UV_ASYNC"

text \<open>
  A client of the async handles, with the callbacks that may send to a handle and those that
  may close it: only those make its flag pending, and only the latter take it off the queue.
\<close>

locale async_pass = async_client client ok
  for client :: client and ok :: "uv_loop \<Rightarrow> bool" +
  fixes roused closed_by :: "ptr \<Rightarrow> ptr \<times> ptr \<Rightarrow> bool"
  assumes async_kept: "ok t \<Longrightarrow> call client cb g t = Some t' \<Longrightarrow> h \<in> set (asyncs t) \<Longrightarrow> async_cb (async t' h) = async_cb (async t h)"
    and roused: "ok t \<Longrightarrow> call client cb g t = Some t' \<Longrightarrow> h \<in> set (async_run t') \<Longrightarrow> pending (async t' h) \<Longrightarrow>
      pending (async t h) \<or> roused h (cb, g)"
    and not_closed: "ok t \<Longrightarrow> call client cb g t = Some t' \<Longrightarrow> h \<in> set (async_run t) \<Longrightarrow> \<not> closed_by h (cb, g) \<Longrightarrow>
      h \<in> set (async_run t') \<and> (pending (async t h) \<longrightarrow> pending (async t' h))"
    and cleared: "ok t \<Longrightarrow> call client cb g t = Some t' \<Longrightarrow> an_async t h \<Longrightarrow> an_async t' h \<and>
      (pending (async t' h) \<longrightarrow> pending (async t h) \<or> roused h (cb, g) \<or> closed_by h (cb, g))"
begin

text \<open>The handles called, each with what roused it before its turn: nothing it needed, or a callback before it.\<close>

lemma run_async_pass:
  "ok s \<Longrightarrow> \<exists>s' xs. run_async client s = Some s' \<and> ok s' \<and> async_run s' = [] \<and> subseq xs (async_run s) \<and>
     called s' = called s @ map (\<lambda>h. (async_cb (async s h), h)) xs \<and>
     (\<forall>us h vs. xs = us @ h # vs \<longrightarrow> pending (async s h) \<or> (\<exists>g \<in> set us. roused h (async_cb (async s g), g))) \<and>
     (\<forall>h \<in> set (async_run s). pending (async s h) \<and> async_cb (async s h) \<noteq> NULL \<longrightarrow>
        h \<in> set xs \<or> (\<exists>g \<in> set xs. closed_by h (async_cb (async s g), g))) \<and>
     (\<forall>h. an_async s h \<and> pending (async s' h) \<longrightarrow> h \<notin> set (async_run s) \<and> pending (async s h) \<or>
        (\<exists>g \<in> set xs. roused h (async_cb (async s g), g) \<or> closed_by h (async_cb (async s g), g)))"
proof (induction "length (async_run s)" arbitrary: s rule: less_induct)
  case less
  show ?case
  proof (cases "async_run s")
    case Nil
    then show ?thesis using less.prems by (subst run_async.simps) (auto intro: exI [of _ "[]"])
  next
    case (Cons k q)
    let ?s = "s\<lparr>async_run := q, async_handles := async_handles s @ [k]\<rparr>"
    let ?t = "set_pending k False ?s"
    have ok: "ok ?s" "ok ?t"
      using ok_async_frame [OF less.prems asyncs_ok_put_back [OF ok_asyncs [OF less.prems] Cons]]
        ok_async_frame [OF less.prems asyncs_ok_pending [OF asyncs_ok_put_back [OF ok_asyncs [OF less.prems] Cons]]]
      by simp_all
    have d: "k \<notin> set q" "set q \<subseteq> set (asyncs ?t)" using ok_asyncs [OF less.prems] Cons by (auto simp: asyncs_ok_def asyncs_def)
    have t: "async_cb (async ?t g) = async_cb (async s g)" "g \<noteq> k \<Longrightarrow> async ?t g = async s g" for g
      by (simp_all add: set_pending_def)
    show ?thesis
    proof (cases "pending (async s k) \<and> async_cb (async s k) \<noteq> NULL")
      case False
      let ?u = "if pending (async s k) then ?t else ?s"
      have run: "run_async client s = run_async client ?u"
        using False Cons by (subst run_async.simps) (auto simp: Let_def set_pending_def)
      have u: "ok ?u" "async_run ?u = q" "called ?u = called s" "async_cb (async ?u g) = async_cb (async s g)" for g
        using ok by (simp_all add: set_pending_def)
      have p: "pending (async ?u g) = pending (async s g)" if "g \<in> set q" for g
      proof -
        have "g \<noteq> k" using that d(1) by auto
        then show ?thesis using t(2) [of g] by (cases "pending (async s k)") simp_all
      qed
      have "length (async_run ?u) < length (async_run s)" using u(2) Cons by simp
      from less.hyps [OF this u(1)] obtain s' xs where
        s': "run_async client ?u = Some s'" "ok s'" "async_run s' = []" "subseq xs q"
          "called s' = called s @ map (\<lambda>h. (async_cb (async s h), h)) xs"
          "\<forall>us h vs. xs = us @ h # vs \<longrightarrow> pending (async ?u h) \<or> (\<exists>g \<in> set us. roused h (async_cb (async s g), g))"
          "\<forall>h \<in> set q. pending (async ?u h) \<and> async_cb (async s h) \<noteq> NULL \<longrightarrow>
             h \<in> set xs \<or> (\<exists>g \<in> set xs. closed_by h (async_cb (async s g), g))"
          "\<forall>h. an_async ?u h \<and> pending (async s' h) \<longrightarrow> h \<notin> set q \<and> pending (async ?u h) \<or>
             (\<exists>g \<in> set xs. roused h (async_cb (async s g), g) \<or> closed_by h (async_cb (async s g), g))"
        unfolding u(2-4) by blast
      have "an_async ?u h = an_async s h" "pending (async ?u h) \<Longrightarrow> pending (async s h) \<and> h \<noteq> k" for h
        using t(2) [of h] by (auto simp: set_pending_def split: if_splits)
      then have c: "\<forall>h. an_async s h \<and> pending (async s' h) \<longrightarrow> h \<notin> set (async_run s) \<and> pending (async s h) \<or>
             (\<exists>g \<in> set xs. roused h (async_cb (async s g), g) \<or> closed_by h (async_cb (async s g), g))"
        using s'(8) Cons by (metis set_ConsD)
      have "set xs \<subseteq> set q" using s'(4) by (auto dest: list_emb_set)
      then have "\<forall>us h vs. xs = us @ h # vs \<longrightarrow> pending (async s h) \<or> (\<exists>g \<in> set us. roused h (async_cb (async s g), g))"
        using s'(6) p by fastforce
      moreover have "\<forall>h \<in> set (async_run s). pending (async s h) \<and> async_cb (async s h) \<noteq> NULL \<longrightarrow>
             h \<in> set xs \<or> (\<exists>g \<in> set xs. closed_by h (async_cb (async s g), g))"
        using s'(7) p False Cons by auto
      moreover have "subseq xs (async_run s)" using s'(4) Cons by auto
      ultimately show ?thesis using run s'(1-3,5) c by (intro exI [of _ s'] exI [of _ xs]) simp
    next
      case True
      let ?p = "(async_cb (async s k), k)"
      obtain s1 where s1: "call client (async_cb (async s k)) k ?t = Some s1" "ok s1" "subseq (async_run s1) q"
          "called s1 = called s @ [?p]"
        using call_ok [OF ok(2), of "async_cb (async s k)" k] True by auto
      have "length (async_run s1) < length (async_run s)" using list_emb_length [OF s1(3)] Cons by simp
      from less.hyps [OF this s1(2)] obtain s' xs where
        s': "run_async client s1 = Some s'" "ok s'" "async_run s' = []" "subseq xs (async_run s1)"
          "called s' = called s1 @ map (\<lambda>h. (async_cb (async s1 h), h)) xs"
          "\<And>us h vs. xs = us @ h # vs \<Longrightarrow> pending (async s1 h) \<or> (\<exists>g \<in> set us. roused h (async_cb (async s1 g), g))"
          "\<And>h. h \<in> set (async_run s1) \<Longrightarrow> pending (async s1 h) \<Longrightarrow> async_cb (async s1 h) \<noteq> NULL \<Longrightarrow>
             h \<in> set xs \<or> (\<exists>g \<in> set xs. closed_by h (async_cb (async s1 g), g))"
          "\<And>h. an_async s1 h \<Longrightarrow> pending (async s' h) \<Longrightarrow> h \<notin> set (async_run s1) \<and> pending (async s1 h) \<or>
             (\<exists>g \<in> set xs. roused h (async_cb (async s1 g), g) \<or> closed_by h (async_cb (async s1 g), g))" by blast
      have xs: "subseq xs q" using subseq_order.order_trans [OF s'(4) s1(3)] .
      have sub: "set xs \<subseteq> set (async_run s1)" "set (async_run s1) \<subseteq> set q" using s'(4) s1(3) by (auto dest: list_emb_set)
      have cb: "async_cb (async s1 g) = async_cb (async s g)" if "g \<in> set q" for g
        using async_kept [OF ok(2) s1(1), of g] that d(2) t(1) by auto
      have same: "async ?t g = async s g" if "g \<in> set q" for g
        by (rule t(2)) (use that d(1) in auto)
      have "pending (async s h) \<or> (\<exists>g \<in> set us. roused h (async_cb (async s g), g))" if x: "k # xs = us @ h # vs" for us h vs
      proof (cases us)
        case Nil
        then show ?thesis using x True by simp
      next
        case us: (Cons a us')
        then have a: "a = k" "xs = us' @ h # vs" using x by simp_all
        then have h: "h \<in> set (async_run s1)" "h \<in> set q" "set us' \<subseteq> set q" using sub by auto
        from s'(6) [OF a(2)] consider "pending (async s1 h)" | g where "g \<in> set us'" "roused h (async_cb (async s1 g), g)" by blast
        then show ?thesis
        proof cases
          case 1
          then show ?thesis using roused [OF ok(2) s1(1) h(1)] same [OF h(2)] us a(1) by auto
        next
          case 2
          then show ?thesis using cb [of g] h(3) us by auto
        qed
      qed
      moreover have "h \<in> set (k # xs) \<or> (\<exists>g \<in> set (k # xs). closed_by h (async_cb (async s g), g))"
        if h: "h \<in> set q" "pending (async s h)" "async_cb (async s h) \<noteq> NULL" for h
      proof (cases "closed_by h ?p")
        case False
        then have "h \<in> set (async_run s1)" "pending (async s1 h)"
          using not_closed [OF ok(2) s1(1), of h] h(1,2) same [OF h(1)] by simp_all
        then have "h \<in> set xs \<or> (\<exists>g \<in> set xs. closed_by h (async_cb (async s1 g), g))" using s'(7) cb [OF h(1)] h(3) by simp
        then show ?thesis using cb sub by (metis list.set_intros(2) subsetD)
      qed simp
      then have "\<forall>h \<in> set (async_run s). pending (async s h) \<and> async_cb (async s h) \<noteq> NULL \<longrightarrow>
          h \<in> set (k # xs) \<or> (\<exists>g \<in> set (k # xs). closed_by h (async_cb (async s g), g))"
        using Cons by auto
      moreover have "h \<notin> set (async_run s) \<and> pending (async s h) \<or>
          (\<exists>g \<in> set (k # xs). roused h (async_cb (async s g), g) \<or> closed_by h (async_cb (async s g), g))"
        if h: "an_async s h" "pending (async s' h)" for h
      proof -
        have "an_async ?t h" using h(1) by simp
        then have p: "an_async s1 h" "pending (async s1 h) \<longrightarrow> pending (async ?t h) \<or> roused h ?p \<or> closed_by h ?p"
          using cleared [OF ok(2) s1(1)] by blast+
        from s'(8) [OF p(1) h(2)] consider "h \<notin> set (async_run s1)" "pending (async s1 h)"
          | g where "g \<in> set xs" "roused h (async_cb (async s1 g), g) \<or> closed_by h (async_cb (async s1 g), g)" by blast
        then show ?thesis
        proof cases
          case 1
          consider "roused h ?p \<or> closed_by h ?p" | "pending (async ?t h)" "\<not> closed_by h ?p" using p(2) 1(2) by blast
          then show ?thesis
          proof cases
            case 2
            then have "h \<noteq> k" by (auto simp: set_pending_def)
            moreover have "h \<notin> set q" using not_closed [OF ok(2) s1(1), of h] 1(1) 2(2) by auto
            ultimately show ?thesis using 2(1) t(2) [of h] Cons by simp
          qed simp
        next
          case 2
          then show ?thesis using cb [of g] sub by auto
        qed
      qed
      moreover have "run_async client s = Some s'" using Cons s1(1) s'(1) True t(1) by (subst run_async.simps) (simp add: Let_def)
      moreover have "called s' = called s @ map (\<lambda>h. (async_cb (async s h), h)) (k # xs)"
        using s'(5) s1(4) cb sub by (auto intro!: map_cong)
      moreover have "subseq (k # xs) (async_run s)" using xs Cons by simp
      ultimately show ?thesis using s'(2,3) by blast
    qed
  qed
qed

lemma async_io_pass:
  assumes "ok s" "async_run s = []"
  shows "\<exists>s' xs. uv__async_io client (async_io_watcher s) s = Some s' \<and> ok s' \<and> async_run s' = [] \<and> subseq xs (async_handles s) \<and>
    called s' = called s @ map (\<lambda>h. (async_cb (async s h), h)) xs \<and>
    (\<forall>us h vs. xs = us @ h # vs \<longrightarrow> pending (async s h) \<or> (\<exists>g \<in> set us. roused h (async_cb (async s g), g))) \<and>
    (\<forall>h \<in> set (async_handles s). pending (async s h) \<and> async_cb (async s h) \<noteq> NULL \<longrightarrow>
       h \<in> set xs \<or> (\<exists>g \<in> set xs. closed_by h (async_cb (async s g), g))) \<and>
    (\<forall>h \<in> set (async_handles s). pending (async s' h) \<longrightarrow>
       (\<exists>g \<in> set xs. roused h (async_cb (async s g), g) \<or> closed_by h (async_cb (async s g), g)))"
proof -
  let ?s = "s\<lparr>async_run := async_handles s, async_handles := []\<rparr>"
  have "asyncs_ok ?s" using ok_asyncs [OF assms(1)] assms(2) by (simp add: asyncs_ok_def asyncs_def active_asyncs_def)
  then have "ok ?s" by (rule ok_async_frame [OF assms(1)]) simp_all
  from run_async_pass [OF this] obtain s' xs where
    s': "run_async client ?s = Some s'" "ok s'" "async_run s' = []" "subseq xs (async_handles s)"
      "called s' = called s @ map (\<lambda>h. (async_cb (async s h), h)) xs"
      "\<forall>us h vs. xs = us @ h # vs \<longrightarrow> pending (async s h) \<or> (\<exists>g \<in> set us. roused h (async_cb (async s g), g))"
      "\<forall>h \<in> set (async_handles s). pending (async s h) \<and> async_cb (async s h) \<noteq> NULL \<longrightarrow>
         h \<in> set xs \<or> (\<exists>g \<in> set xs. closed_by h (async_cb (async s g), g))"
      "\<And>h. an_async ?s h \<Longrightarrow> pending (async s' h) \<Longrightarrow> h \<notin> set (async_handles s) \<and> pending (async s h) \<or>
         (\<exists>g \<in> set xs. roused h (async_cb (async s g), g) \<or> closed_by h (async_cb (async s g), g))" by auto
  have "an_async ?s h" if "h \<in> set (async_handles s)" for h
    using that ok_asyncs [OF assms(1)] by (auto simp: asyncs_ok_def asyncs_def active_asyncs_def)
  then have "\<forall>h \<in> set (async_handles s). pending (async s' h) \<longrightarrow>
      (\<exists>g \<in> set xs. roused h (async_cb (async s g), g) \<or> closed_by h (async_cb (async s g), g))"
    using s'(8) by blast
  moreover have "uv__async_io client (async_io_watcher s) s = Some s'" using s'(1) by (simp add: uv__async_io_def)
  ultimately show ?thesis using s'(2-7) by (intro exI [of _ s'] exI [of _ xs]) simp
qed

end

section \<open>Programs as clients of the passes\<close>

text \<open>The calls a callback makes are related by what one call does, from the state with the callback recorded.\<close>

lemma call_handles:
  assumes "inside L ph I s" "call (run_program c P) cb g s = Some s'" "\<not> may_make c P (\<lambda>a. subject a = Some h) (cb, g)"
    and "h \<in> set (all_handles s)"
  shows "same_handle h s s'"
proof -
  let ?R = "\<lambda>s s'. h \<in> set (all_handles s) \<longrightarrow> same_handle h s s'"
  have "reflp ?R" "transp ?R"
    by (auto simp: reflp_def transp_def same_handle_refl intro: same_handle_trans) (auto simp: same_handle_def)
  moreover have "\<forall>s a s'. loop_ok L s \<and> legal c a s \<and> exec c a s = Some s' \<and> \<not> subject a = Some h \<longrightarrow> ?R s s'"
    using exec_same by blast
  ultimately have "?R (s\<lparr>called := called s @ [(cb, g)]\<rparr>) s'" by (rule call_rel [OF _ _ _ assms(1-3)])
  then show ?thesis using assms(4) by (simp add: same_handle_def)
qed

lemma no_calls: "\<not> may_make c P (\<lambda>_. False) p"
  by (simp add: may_make_def)

interpretation prog_timer_pass: timer_pass "run_program c P" "inside L Timers I"
  "\<lambda>h. may_make c P (\<lambda>a. subject a = Some h)" for c P L I
proof
  fix s s' cb g h
  assume s: "inside L Timers I s" "call (run_program c P) cb g s = Some s'"
  show "same_handle h s s'" if "\<not> may_make c P (\<lambda>a. subject a = Some h) (cb, g)" "a_timer s h"
    using call_handles [OF s that(1)] that(2) by blast
  let ?R = "\<lambda>s s'. h \<in> set (ready_queue s') \<longrightarrow> h \<in> set (ready_queue s) \<and> timer_cb (timer s' h) = timer_cb (timer s h)"
  have "reflp ?R" "transp ?R" by (auto simp: reflp_def transp_def)
  moreover have "\<forall>s a s'. loop_ok L s \<and> legal c a s \<and> exec c a s = Some s' \<and> \<not> False \<longrightarrow> ?R s s'"
    using exec_ready by blast
  ultimately have "?R (s\<lparr>called := called s @ [(cb, g)]\<rparr>) s'" by (rule call_rel [OF _ _ _ s no_calls])
  then show "h \<in> set (ready_queue s') \<Longrightarrow> timer_cb (timer s' h) = timer_cb (timer s h)" by simp
qed

lemma exec_run_subset:
  assumes "loop_ok L s" "legal c a s" "exec c a s = Some s'"
  shows "set (run_queue s' k) \<subseteq> set (run_queue s k)" "set (async_run s') \<subseteq> set (async_run s)"
  using exec_ok [OF assms(1,2)] assms(3) by (auto simp: api_frame_def callback_frame_def dest: list_emb_set)

interpretation prog_watcher_pass: watcher_pass "run_program c P" "inside L (Watching k) I" k
  "\<lambda>h. may_make c P (stops_watcher k h)" for c P L I k
proof
  fix s s' cb g h
  assume s: "inside L (Watching k) I s" "call (run_program c P) cb g s = Some s'"
  let ?R = "\<lambda>s s'. h \<in> set (run_queue s' k) \<longrightarrow> h \<in> set (run_queue s k) \<and> watcher_cb s' h = watcher_cb s h"
  have "reflp ?R" "transp ?R" by (auto simp: reflp_def transp_def)
  moreover have "\<forall>s a s'. loop_ok L s \<and> legal c a s \<and> exec c a s = Some s' \<and> \<not> False \<longrightarrow> ?R s s'"
    using exec_run_queue(1) exec_run_subset(1) by blast
  ultimately have "?R (s\<lparr>called := called s @ [(cb, g)]\<rparr>) s'" by (rule call_rel [OF _ _ _ s no_calls])
  then show "h \<in> set (run_queue s' k) \<Longrightarrow> watcher_cb s' h = watcher_cb s h" by simp
  let ?Q = "\<lambda>s s'. h \<in> set (run_queue s k) \<longrightarrow> h \<in> set (run_queue s' k)"
  assume n: "h \<in> set (run_queue s k)" "\<not> may_make c P (stops_watcher k h) (cb, g)"
  have "reflp ?Q" "transp ?Q" by (auto simp: reflp_def transp_def)
  moreover have "\<forall>s a s'. loop_ok L s \<and> legal c a s \<and> exec c a s = Some s' \<and> \<not> stops_watcher k h a \<longrightarrow> ?Q s s'"
    using exec_run_queue(2) by blast
  ultimately have "?Q (s\<lparr>called := called s @ [(cb, g)]\<rparr>) s'" by (rule call_rel [OF _ _ _ s n(2)])
  then show "h \<in> set (run_queue s' k)" using n(1) by simp
qed

lemma call_async:
  assumes "inside L ph I s" "call (run_program c P) cb g s = Some s'" "an_async s h"
  shows "an_async s' h" "async_cb (async s' h) = async_cb (async s h)"
    "pending (async s' h) \<Longrightarrow> pending (async s h) \<or> may_make c P (sends h) (cb, g) \<or> may_make c P (closes h) (cb, g)"
    "pending (async s' h) \<Longrightarrow> h \<in> set (async_run s') \<Longrightarrow> pending (async s h) \<or> may_make c P (sends h) (cb, g)"
    "\<not> may_make c P (closes h) (cb, g) \<Longrightarrow> h \<in> set (async_run s) \<Longrightarrow> h \<in> set (async_run s')"
    "\<not> may_make c P (closes h) (cb, g) \<Longrightarrow> pending (async s h) \<Longrightarrow> pending (async s' h)"
proof -
  let ?t = "s\<lparr>called := called s @ [(cb, g)]\<rparr>"
  have t: "an_async ?t h" "async ?t = async s" "async_run ?t = async_run s" using assms(3) by simp_all
  let ?R = "\<lambda>s s'. an_async s h \<longrightarrow> an_async s' h \<and> async_cb (async s' h) = async_cb (async s h)"
  have "reflp ?R" "transp ?R" by (auto simp: reflp_def transp_def)
  moreover have "\<forall>s a s'. loop_ok L s \<and> legal c a s \<and> exec c a s = Some s' \<and> \<not> False \<longrightarrow> ?R s s'"
    using exec_pending(1,6) by blast
  ultimately have "?R ?t s'" by (rule call_rel [OF _ _ _ assms(1,2) no_calls])
  then show "an_async s' h" "async_cb (async s' h) = async_cb (async s h)" using t by simp_all
  let ?S = "\<lambda>s s'. an_async s h \<longrightarrow> an_async s' h \<and> (pending (async s' h) \<longrightarrow> pending (async s h))"
  have "reflp ?S" "transp ?S" by (auto simp: reflp_def transp_def)
  moreover have "\<forall>s a s'. loop_ok L s \<and> legal c a s \<and> exec c a s = Some s' \<and> \<not> (sends h a \<or> closes h a) \<longrightarrow> ?S s s'"
    using exec_pending(2,6) by blast
  ultimately have "\<not> may_make c P (\<lambda>a. sends h a \<or> closes h a) (cb, g) \<Longrightarrow> ?S ?t s'"
    by (rule call_rel [OF _ _ _ assms(1,2)])
  then show "pending (async s' h) \<Longrightarrow> pending (async s h) \<or> may_make c P (sends h) (cb, g) \<or> may_make c P (closes h) (cb, g)"
    using t by (auto simp: may_make_def)
  let ?T = "\<lambda>s s'. an_async s h \<longrightarrow> an_async s' h \<and> (h \<in> set (async_run s') \<longrightarrow> h \<in> set (async_run s) \<and> (pending (async s' h) \<longrightarrow> pending (async s h)))"
  have "reflp ?T" "transp ?T" by (auto simp: reflp_def transp_def)
  moreover have "\<forall>s a s'. loop_ok L s \<and> legal c a s \<and> exec c a s = Some s' \<and> \<not> sends h a \<longrightarrow> ?T s s'"
  proof (intro allI impI conjI; (elim conjE)?)
    fix s a s'
    assume a: "loop_ok L s" "legal c a s" "exec c a s = Some s'" "\<not> sends h a" "h \<in> set (all_handles s)" "htype (handle s h) = UV_ASYNC"
    note e = exec_pending [OF a(1-3,5,6)]
    show "h \<in> set (all_handles s')" "htype (handle s' h) = UV_ASYNC" using e(6) by blast+
    assume r: "h \<in> set (async_run s')"
    show "h \<in> set (async_run s)" using r exec_run_subset(2) [OF a(1-3)] by blast
    show "pending (async s' h) \<Longrightarrow> pending (async s h)" using e(2,3) a(4) r by blast
  qed
  ultimately have "\<not> may_make c P (sends h) (cb, g) \<Longrightarrow> ?T ?t s'" by (rule call_rel [OF _ _ _ assms(1,2)])
  then show "pending (async s' h) \<Longrightarrow> h \<in> set (async_run s') \<Longrightarrow> pending (async s h) \<or> may_make c P (sends h) (cb, g)"
    using t by auto
  let ?U = "\<lambda>s s'. an_async s h \<longrightarrow> an_async s' h \<and> (h \<in> set (async_run s) \<longrightarrow> h \<in> set (async_run s')) \<and>
    (pending (async s h) \<longrightarrow> pending (async s' h))"
  have "reflp ?U" "transp ?U" by (auto simp: reflp_def transp_def)
  moreover have "\<forall>s a s'. loop_ok L s \<and> legal c a s \<and> exec c a s = Some s' \<and> \<not> closes h a \<longrightarrow> ?U s s'"
    using exec_pending(4-6) by blast
  ultimately have "\<not> may_make c P (closes h) (cb, g) \<Longrightarrow> ?U ?t s'" by (rule call_rel [OF _ _ _ assms(1,2)])
  then show "\<not> may_make c P (closes h) (cb, g) \<Longrightarrow> h \<in> set (async_run s) \<Longrightarrow> h \<in> set (async_run s')"
    "\<not> may_make c P (closes h) (cb, g) \<Longrightarrow> pending (async s h) \<Longrightarrow> pending (async s' h)"
    using t by simp_all
qed

lemma queued_async: "asyncs_ok s \<Longrightarrow> h \<in> set (asyncs s) \<Longrightarrow> an_async s h"
  by (auto simp: asyncs_ok_def active_asyncs_def)

interpretation prog_async_pass: async_pass "run_program c P" "inside L Asyncs I"
  "\<lambda>h. may_make c P (sends h)" "\<lambda>h. may_make c P (closes h)" for c P L I
proof
  fix s s' cb g h
  assume s: "inside L Asyncs I s" "call (run_program c P) cb g s = Some s'"
  note a = queued_async [OF loop_okD(6) [OF insideD(1) [OF s(1)]]]
  have run: "h \<in> set (async_run s) \<Longrightarrow> an_async s h" by (rule a) (simp add: asyncs_def)
  show "h \<in> set (asyncs s) \<Longrightarrow> async_cb (async s' h) = async_cb (async s h)" using call_async(2) [OF s a] .
  show "an_async s h \<Longrightarrow> an_async s' h \<and>
      (pending (async s' h) \<longrightarrow> pending (async s h) \<or> may_make c P (sends h) (cb, g) \<or> may_make c P (closes h) (cb, g))"
    using call_async(1,3) [OF s] by blast
  show "h \<in> set (async_run s) \<Longrightarrow> \<not> may_make c P (closes h) (cb, g) \<Longrightarrow>
      h \<in> set (async_run s') \<and> (pending (async s h) \<longrightarrow> pending (async s' h))"
    using call_async(5,6) [OF s run] by blast
  assume h: "h \<in> set (async_run s')" "pending (async s' h)"
  have "set (async_run s') \<subseteq> set (async_run s)"
    using prog.call_ok [OF s(1), of cb c P g] s(2) by (auto simp: call_def dest: list_emb_set split: if_splits)
  then show "pending (async s h) \<or> may_make c P (sends h) (cb, g)" using call_async(4) [OF s run h(2,1)] h(1) by blast
qed

section \<open>Properties\<close>

text \<open>
  A loop for examples, with two timers that are due, two prepare handles and two async handles
  that were sent to, and a program whose callbacks on the first of each take the second away.
\<close>

definition paired_calls :: "(uv_loop \<Rightarrow> api_call) list" where
  "paired_calls = [\<lambda>_. Timer_init 20, \<lambda>_. Timer_init 21, \<lambda>_. Timer_start 20 5 0 10, \<lambda>_. Timer_start 21 6 0 10,
     \<lambda>_. Watcher_init Prepare 22, \<lambda>_. Watcher_init Prepare 23, \<lambda>_. Watcher_start Prepare 22 6, \<lambda>_. Watcher_start Prepare 23 7,
     \<lambda>_. Async_init 24 8, \<lambda>_. Async_init 25 6, \<lambda>_. Async_send 24, \<lambda>_. Async_send 25]"

definition paired_loop :: "uv_loop option" where
  "paired_loop = Option.bind (init_loop (Inr 9) 3 4 (new_loop millisecond_clock)) (\<lambda>(_, s). exec_calls open_system paired_calls s)"

definition pairing_program :: program where
  "pairing_program cb h = (if cb = 5 then [\<lambda>_. Timer_stop 21] else if cb = 7 then [\<lambda>_. Watcher_stop Prepare 22]
     else if cb = 8 then [\<lambda>_. Close 25 0] else [])"

lemma paired_inside: "\<exists>s. paired_loop = Some s \<and> inside [] Between (Some (False, 0)) s"
proof -
  have w: "(3 :: ptr) \<notin> {0, 1, 2}" and f: "(0 :: int) \<le> 9" "(9 :: int) \<le> 2147483645" by simp_all
  from init_loop_rest [OF f w, of 4 millisecond_clock] obtain s where
    s: "init_loop (Inr 9) 3 4 (new_loop millisecond_clock) = Some (None, s)" "at_rest s" by blast
  from exec_calls_ok [OF insideD(1) [OF s(2) [unfolded at_rest_def]]] obtain s' where
    "exec_calls open_system paired_calls s = Some s'" "loop_ok [] s'" "api_frame s s'" by blast
  then show ?thesis using inside_api [OF s(2) [unfolded at_rest_def]] s(1) by (simp add: paired_loop_def)
qed

text \<open>
  C9: In a loop in which no function runs callbacks, with callbacks that make any legal calls,
  \<open>uv__run_timers\<close> returns. It calls only timers that were due, each at most once, with the
  callback it had, in the order of their due times and, among equal due times, of their starts.
  Every due timer that no callback which ran makes a call about is called, and is active
  afterwards exactly when it repeats.
\<close>

theorem run_timers_order:
  assumes "inside L Between I s"
  shows "\<exists>s' ds xs. uv__run_timers (run_program c P) s = Some s' \<and> inside L Between I s' \<and>
    set ds = due_timers s \<and> distinct ds \<and>
    sorted_wrt (\<lambda>a b. timeout (timer s a) < timeout (timer s b) \<or>
      timeout (timer s a) = timeout (timer s b) \<and> start_id (timer s a) \<le> start_id (timer s b)) ds \<and>
    subseq xs ds \<and> called s' = called s @ map (\<lambda>h. (timer_cb (timer s h), h)) xs \<and>
    (\<forall>h \<in> due_timers s. (\<forall>g \<in> set xs. \<not> may_make c P (\<lambda>a. subject a = Some h) (timer_cb (timer s g), g)) \<longrightarrow>
       h \<in> set xs \<and> (uv__is_active h s' \<longleftrightarrow> repeat_in (timer s h) \<noteq> 0))"
proof -
  from prog_timer_pass.run_timers_pass [OF inside_enter [OF assms], of c P] obtain s' ds xs where
    s': "uv__run_timers (run_program c P) s = Some s'" "inside L Timers I s'" "ready_queue s' = []"
      "set ds = due_timers s" "distinct ds" "sorted_wrt (\<lambda>a b. \<not> timer_less_than s b a) ds" "subseq xs ds"
      "called s' = called s @ map (\<lambda>h. (timer_cb (timer s h), h)) xs"
      "\<forall>h \<in> due_timers s. (\<forall>g \<in> set xs. \<not> may_make c P (\<lambda>a. subject a = Some h) (timer_cb (timer s g), g)) \<longrightarrow>
         h \<in> set xs \<and> (active s' h \<longleftrightarrow> repeat_in (timer s h) \<noteq> 0 \<and> \<not> uv__is_closing h s)" by blast
  have "sorted_wrt (\<lambda>a b. timeout (timer s a) < timeout (timer s b) \<or>
      timeout (timer s a) = timeout (timer s b) \<and> start_id (timer s a) \<le> start_id (timer s b)) ds"
    using s'(6) by (rule sorted_wrt_mono_rel [rotated]) (auto simp: timer_less_key)
  moreover have "\<not> uv__is_closing h s" if "h \<in> due_timers s" for h
    using that loop_okD(11) [OF insideD(1) [OF assms]] by (auto simp: due_timers_def active_timers_def closing_ok_def is_bits)
  ultimately show ?thesis using s' inside_leave(1) [OF s'(2,3)] by (fastforce simp: is_bits)
qed

theorem run_timers_order_witness:
  "\<exists>s s'. paired_loop = Some s \<and> uv__run_timers (run_program open_system pairing_program) s = Some s' \<and>
     (5, 20) \<in> set (called s') \<and> uv__is_active 20 s'"
proof -
  obtain s where s: "paired_loop = Some s" "inside [] Between (Some (False, 0)) s" using paired_inside by blast
  have "map_option (\<lambda>s. 20 \<in> set (handle_queue s) \<and> htype (handle s 20) = UV_TIMER \<and> uv__is_active 20 s \<and>
      timeout (timer s 20) \<le> time s \<and> timer_cb (timer s 20) = 5 \<and> repeat_in (timer s 20) = 10) paired_loop = Some True" by code_simp
  then have v: "20 \<in> set (handle_queue s)" "htype (handle s 20) = UV_TIMER" "uv__is_active 20 s" "timeout (timer s 20) \<le> time s"
    "timer_cb (timer s 20) = 5" "repeat_in (timer s 20) = 10" unfolding s(1) by simp_all
  then have "20 \<in> due_timers s" by (simp add: due_timers_def active_timers_def all_handles_def is_bits)
  moreover have "\<not> may_make open_system pairing_program (\<lambda>a. subject a = Some 20) p" for p
    by (auto simp: may_make_def pairing_program_def)
  ultimately obtain s' xs where "uv__run_timers (run_program open_system pairing_program) s = Some s'"
    "called s' = called s @ map (\<lambda>h. (timer_cb (timer s h), h)) xs" "20 \<in> set xs" "uv__is_active 20 s'"
    using run_timers_order [OF s(2), of open_system pairing_program] v(6) by fastforce
  then show ?thesis using s(1) v(5) by force
qed

text \<open>
  C35: In a loop in which no function runs callbacks, with callbacks that make any legal calls,
  a pass over the prepare, check or idle handles returns. It calls active handles of the kind,
  each at most once, in the order of their queue and with the callback they had, and leaves out
  only handles that a callback which ran may have stopped or closed. Handles started during the
  pass are not called in it.
\<close>

theorem run_watchers_once:
  assumes "inside L Between I s"
  shows "\<exists>s' xs. uv__run_watchers (run_program c P) k s = Some s' \<and> inside L Between I s' \<and>
    subseq xs (watcher_handles s k) \<and> distinct (watcher_handles s k) \<and> set (watcher_handles s k) = active_watchers k s \<and>
    called s' = called s @ map (\<lambda>h. (watcher_cb s h, h)) xs \<and>
    (\<forall>h \<in> active_watchers k s. h \<in> set xs \<or> (\<exists>g \<in> set xs. may_make c P (stops_watcher k h) (watcher_cb s g, g)))"
proof -
  have r: "run_queue s k = []" using insideD(2) [OF assms] by (simp add: idle_in_def)
  have w: "distinct (watcher_handles s k)" "set (watcher_handles s k) = active_watchers k s"
    using loop_okD(3) [OF insideD(1) [OF assms]] r by (auto simp: watchers_ok_def watching_def dest: spec [of _ k])
  from prog_watcher_pass.run_watchers_pass [OF inside_enter [OF assms] r] inside_leave(2) show ?thesis
    unfolding w(2) [symmetric] using w(1) by blast
qed

theorem run_watchers_once_witness:
  "\<exists>s s'. paired_loop = Some s \<and> uv__run_watchers (run_program open_system pairing_program) Prepare s = Some s' \<and>
     (7, 23) \<in> set (called s')"
proof -
  obtain s where s: "paired_loop = Some s" "inside [] Between (Some (False, 0)) s" using paired_inside by blast
  have "map_option (\<lambda>s. (watcher_handles s Prepare, watcher_cb s 23)) paired_loop = Some ([23, 22], 7)" by code_simp
  then have v: "watcher_handles s Prepare = [23, 22]" "watcher_cb s 23 = 7" unfolding s(1) by simp_all
  have "\<not> may_make open_system pairing_program (stops_watcher Prepare 23) p" for p
    by (auto simp: may_make_def pairing_program_def)
  then obtain s' xs where "uv__run_watchers (run_program open_system pairing_program) Prepare s = Some s'"
    "called s' = called s @ map (\<lambda>h. (watcher_cb s h, h)) xs" "23 \<in> set xs"
    using run_watchers_once [OF s(2), of open_system pairing_program Prepare] v(1) by fastforce
  then show ?thesis using s(1) v(2) by force
qed

text \<open>
  C20: When the wakeup descriptor is readable, in a loop in which no function runs callbacks and
  with callbacks that make any legal calls, \<open>uv__async_io\<close> returns. It calls async handles, each
  at most once, in the order of their queue and with the callback they have; each of them was sent
  to before the wakeup or by a callback that ran before it. A handle that was sent to before is
  left out only if a callback that ran may have closed it: any number of sends amounts to one
  call. Afterwards a handle is pending only if a callback that ran may have sent to it or closed it.
\<close>

theorem async_io_spec:
  assumes "inside L Between I s"
  shows "\<exists>s' xs. uv__async_io (run_program c P) (async_io_watcher s) s = Some s' \<and> inside L Between I s' \<and>
    subseq xs (async_handles s) \<and> distinct (async_handles s) \<and>
    called s' = called s @ map (\<lambda>h. (async_cb (async s h), h)) xs \<and>
    (\<forall>us h vs. xs = us @ h # vs \<longrightarrow> pending (async s h) \<or> (\<exists>g \<in> set us. may_make c P (sends h) (async_cb (async s g), g))) \<and>
    (\<forall>h \<in> set (async_handles s). pending (async s h) \<and> async_cb (async s h) \<noteq> NULL \<longrightarrow>
       h \<in> set xs \<or> (\<exists>g \<in> set xs. may_make c P (closes h) (async_cb (async s g), g))) \<and>
    (\<forall>h \<in> set (async_handles s). pending (async s' h) \<longrightarrow>
       (\<exists>g \<in> set xs. may_make c P (sends h) (async_cb (async s g), g) \<or> may_make c P (closes h) (async_cb (async s g), g)))"
proof -
  have r: "async_run s = []" using insideD(2) [OF assms] by (simp add: idle_in_def)
  have "distinct (async_handles s)"
    using loop_okD(6) [OF insideD(1) [OF assms]] by (simp add: asyncs_ok_def asyncs_def)
  with prog_async_pass.async_io_pass [OF inside_enter [OF assms] r, of c P] inside_leave(3) show ?thesis by blast
qed

theorem async_io_spec_witness:
  "\<exists>s s'. paired_loop = Some s \<and> uv__async_io (run_program open_system pairing_program) (async_io_watcher s) s = Some s' \<and>
     (8, 24) \<in> set (called s') \<and> \<not> pending (async s' 24)"
proof -
  obtain s where s: "paired_loop = Some s" "inside [] Between (Some (False, 0)) s" using paired_inside by blast
  have "map_option (\<lambda>s. (async_handles s, async_cb (async s 24), pending (async s 24))) paired_loop = Some ([3, 24, 25], 8, True)"
    by code_simp
  then have v: "24 \<in> set (async_handles s)" "async_cb (async s 24) = 8" "pending (async s 24)" unfolding s(1) by simp_all
  have n: "\<not> may_make open_system pairing_program (closes 24) p" "\<not> may_make open_system pairing_program (sends 24) p" for p
    by (auto simp: may_make_def pairing_program_def)
  obtain s' xs where s': "uv__async_io (run_program open_system pairing_program) (async_io_watcher s) s = Some s'"
    "called s' = called s @ map (\<lambda>h. (async_cb (async s h), h)) xs"
    "\<forall>h \<in> set (async_handles s). pending (async s h) \<and> async_cb (async s h) \<noteq> NULL \<longrightarrow>
       h \<in> set xs \<or> (\<exists>g \<in> set xs. may_make open_system pairing_program (closes h) (async_cb (async s g), g))"
    "\<forall>h \<in> set (async_handles s). pending (async s' h) \<longrightarrow>
       (\<exists>g \<in> set xs. may_make open_system pairing_program (sends h) (async_cb (async s g), g) \<or>
          may_make open_system pairing_program (closes h) (async_cb (async s g), g))"
    using async_io_spec [OF s(2), of open_system pairing_program] by blast
  have "24 \<in> set xs" "\<not> pending (async s' 24)" using s'(3,4) v n by auto
  then show ?thesis using s(1) s'(1,2) v(2) by force
qed

end
