(* ===== verification/Wakeup.thy ===== *)
theory Wakeup
  imports Async
begin

text \<open>
  The protocol of \<^verbatim>\<open>unix/async.c\<close> between the threads that send to an async handle and the
  thread of the loop: \<open>pending\<close> and \<open>busy\<close> are atomic, so a step is one atomic operation or one
  system call. \<open>wakeups\<close> is the counter of the \<open>eventfd\<close>. The senders are numbered; the loop is
  the thread that runs \<open>uv__async_io\<close> and, at most once, \<open>uv__async_close\<close>.
\<close>

text \<open>
  Where a sender is: outside \<open>uv_async_send\<close>; after the cheap read of \<open>pending\<close>; after the
  increment of \<open>busy\<close>; about to write to the descriptor; about to decrement \<open>busy\<close>.
\<close>

datatype sender = Outside | Entered | Counted | Waking | Leaving

text \<open>
  Where the loop is: outside these functions; in \<open>uv__async_io\<close>, before it exchanges \<open>pending\<close>;
  in \<open>uv__async_spin\<close>; after it, when the handle may be freed.
\<close>

datatype looper = Polling | Handling | Spinning | Gone

record wakeup =
  pending_flag :: bool
  busy :: nat
  wakeups :: nat
  sender :: "nat \<Rightarrow> sender"
  looper :: looper
  runs :: nat

definition quiescent :: wakeup where
  "quiescent = \<lparr>pending_flag = False, busy = 0, wakeups = 0, sender = (\<lambda>_. Outside), looper = Polling, runs = 0\<rparr>"

inductive wakeup_step :: "wakeup \<Rightarrow> wakeup \<Rightarrow> bool" where
  read_pending: "sender w t = Outside \<Longrightarrow> \<not> pending_flag w \<Longrightarrow> wakeup_step w (w\<lparr>sender := (sender w)(t := Entered)\<rparr>)"
| add_busy: "sender w t = Entered \<Longrightarrow> wakeup_step w (w\<lparr>busy := busy w + 1, sender := (sender w)(t := Counted)\<rparr>)"
| exchange_pending: "sender w t = Counted \<Longrightarrow>
    wakeup_step w (w\<lparr>pending_flag := True, sender := (sender w)(t := if pending_flag w then Leaving else Waking)\<rparr>)"
| write_fd: "sender w t = Waking \<Longrightarrow> wakeup_step w (w\<lparr>wakeups := wakeups w + 1, sender := (sender w)(t := Leaving)\<rparr>)"
| sub_busy: "sender w t = Leaving \<Longrightarrow> wakeup_step w (w\<lparr>busy := busy w - 1, sender := (sender w)(t := Outside)\<rparr>)"
| woken: "looper w = Polling \<Longrightarrow> wakeups w > 0 \<Longrightarrow> wakeup_step w (w\<lparr>wakeups := 0, looper := Handling\<rparr>)"
| handle_pending: "looper w = Handling \<Longrightarrow>
    wakeup_step w (w\<lparr>pending_flag := False, looper := Polling, runs := runs w + (if pending_flag w then 1 else 0)\<rparr>)"
| spin: "looper w = Polling \<Longrightarrow> wakeup_step w (w\<lparr>pending_flag := True, looper := Spinning\<rparr>)"
| not_busy: "looper w = Spinning \<Longrightarrow> busy w = 0 \<Longrightarrow> wakeup_step w (w\<lparr>looper := Gone\<rparr>)"

inductive wakeup_reachable :: "wakeup \<Rightarrow> bool" where
  start: "wakeup_reachable quiescent"
| step: "wakeup_reachable w \<Longrightarrow> wakeup_step w w' \<Longrightarrow> wakeup_reachable w'"

section \<open>The invariant\<close>

definition inside_send :: "(nat \<Rightarrow> sender) \<Rightarrow> nat set" where
  "inside_send f = {t. f t \<in> {Counted, Waking, Leaving}}"

definition wakers :: "(nat \<Rightarrow> sender) \<Rightarrow> nat set" where
  "wakers f = {t. f t = Waking}"

definition wakeup_ok :: "wakeup \<Rightarrow> bool" where
  "wakeup_ok w \<longleftrightarrow> finite (inside_send (sender w)) \<and> busy w = card (inside_send (sender w)) \<and>
     (pending_flag w \<and> looper w = Polling \<longrightarrow> wakeups w > 0 \<or> wakers (sender w) \<noteq> {}) \<and>
     (looper w \<in> {Spinning, Gone} \<longrightarrow> pending_flag w) \<and> (looper w = Gone \<longrightarrow> wakers (sender w) = {})"

lemma inside_send_update:
  "inside_send (f(t := p)) = (if p \<in> {Counted, Waking, Leaving} then insert t (inside_send f) else inside_send f - {t})"
  "wakers (f(t := p)) = (if p = Waking then insert t (wakers f) else if f t = Waking then wakers f - {t} else wakers f)"
  by (auto simp: inside_send_def wakers_def)

lemma inside_send_card:
  assumes "finite (inside_send (sender w))" "busy w = card (inside_send (sender w))"
  shows "sender w t \<in> {Outside, Entered} \<Longrightarrow> busy w + 1 = card (insert t (inside_send (sender w)))"
    and "sender w t = Leaving \<Longrightarrow> busy w - 1 = card (inside_send (sender w) - {t})"
    and "sender w t \<in> {Counted, Waking, Leaving} \<Longrightarrow> insert t (inside_send (sender w)) = inside_send (sender w)"
  using assms by (auto simp: inside_send_def card_insert_if)

lemma wakeup_step_ok:
  assumes "wakeup_step w w'" "wakeup_ok w"
  shows "wakeup_ok w'"
proof -
  have f: "finite (inside_send (sender w))" "busy w = card (inside_send (sender w))" using assms(2) by (simp_all add: wakeup_ok_def)
  note c = inside_send_card [OF f]
  from assms(1) show ?thesis
  proof (cases rule: wakeup_step.cases)
    case (read_pending t)
    have "inside_send (sender w) - {t} = inside_send (sender w)" using read_pending by (auto simp: inside_send_def)
    then show ?thesis using assms(2) read_pending by (auto simp: wakeup_ok_def inside_send_update)
  next
    case (add_busy t)
    then show ?thesis using assms(2) c(1) [of t] by (auto simp: wakeup_ok_def inside_send_update)
  next
    case (exchange_pending t)
    then have "insert t (inside_send (sender w)) = inside_send (sender w)" using c(3) [of t] by simp
    then show ?thesis using assms(2) exchange_pending
      by (auto simp: wakeup_ok_def inside_send_update)
  next
    case (write_fd t)
    then have "insert t (inside_send (sender w)) = inside_send (sender w)" using c(3) [of t] by simp
    then show ?thesis using assms(2) write_fd by (auto simp: wakeup_ok_def inside_send_update)
  next
    case (sub_busy t)
    then show ?thesis using assms(2) c(2) [of t]
      by (auto simp: wakeup_ok_def inside_send_update)
  next
    case not_busy
    then have "inside_send (sender w) = {}" using f by simp
    then have "wakers (sender w) = {}" by (auto simp: inside_send_def wakers_def)
    then show ?thesis using assms(2) not_busy by (auto simp: wakeup_ok_def inside_send_update)
  qed (use assms(2) in \<open>auto simp: wakeup_ok_def inside_send_update\<close>)
qed

lemma wakeup_reachable_ok: "wakeup_reachable w \<Longrightarrow> wakeup_ok w"
proof (induction rule: wakeup_reachable.induct)
  case start
  have "inside_send (sender quiescent) = {}" by (auto simp: inside_send_def quiescent_def)
  then show ?case by (simp add: wakeup_ok_def) (simp add: quiescent_def)
next
  case (step w w')
  then show ?case using wakeup_step_ok by blast
qed

section \<open>Properties\<close>

lemma steps_reachable:
  "wakeup_reachable w \<Longrightarrow> wakeup_step w w1 \<Longrightarrow> wakeup_step w1 w2 \<Longrightarrow> wakeup_reachable w2"
  by (blast intro: wakeup_reachable.step)

text \<open>
  C21: No send is lost, with any number of threads and any interleaving: while \<open>pending\<close> is set
  and the loop is outside its callback, the descriptor is readable or some thread is about to
  make it so. \<open>busy\<close> counts the threads inside the critical section. Once \<open>uv__async_close\<close> has
  returned, \<open>pending\<close> stays set and no thread will wake the loop for the handle any more.
\<close>

theorem wakeup_safety:
  assumes "wakeup_reachable w"
  shows "(looper w = Polling \<and> pending_flag w \<longrightarrow> wakeups w > 0 \<or> (\<exists>t. sender w t = Waking)) \<and>
    busy w = card {t. sender w t \<in> {Counted, Waking, Leaving}} \<and>
    (looper w = Gone \<longrightarrow> pending_flag w \<and> (\<forall>t. sender w t \<noteq> Waking))"
  using wakeup_reachable_ok [OF assms] by (auto simp: wakeup_ok_def wakers_def inside_send_def)

text \<open>The run in which thread 0 sends, up to the exchange.\<close>

definition sent :: wakeup where
  "sent = quiescent\<lparr>pending_flag := True, busy := 1, sender := (sender quiescent)(0 := Waking)\<rparr>"

lemma sent_reachable: "wakeup_reachable sent"
proof -
  have "wakeup_step quiescent (quiescent\<lparr>sender := (sender quiescent)(0 := Entered)\<rparr>)" (is "wakeup_step _ ?a")
    by (rule wakeup_step.read_pending) (simp_all add: quiescent_def)
  moreover have "wakeup_step ?a (?a\<lparr>busy := busy ?a + 1, sender := (sender ?a)(0 := Counted)\<rparr>)" (is "wakeup_step _ ?b")
    by (rule wakeup_step.add_busy) simp
  ultimately have "wakeup_reachable ?b" by (rule steps_reachable [OF wakeup_reachable.start])
  moreover have "wakeup_step ?b (?b\<lparr>pending_flag := True, sender := (sender ?b)(0 := if pending_flag ?b then Leaving else Waking)\<rparr>)"
    by (rule wakeup_step.exchange_pending) simp
  moreover have "?b\<lparr>pending_flag := True, sender := (sender ?b)(0 := if pending_flag ?b then Leaving else Waking)\<rparr> = sent"
    by (simp add: sent_def quiescent_def)
  ultimately show ?thesis using wakeup_reachable.step by metis
qed

theorem wakeup_safety_witness:
  "wakeup_reachable sent \<and> looper sent = Polling \<and> pending_flag sent \<and> wakeups sent = 0 \<and> busy sent = 1 \<and>
   card {t. sender sent t \<in> {Counted, Waking, Leaving}} = 1"
  using wakeup_safety [OF sent_reachable] sent_reachable by (simp add: sent_def quiescent_def)

end
