(* ===== verification/Streams.thy ===== *)
theory Streams
  imports Poll
begin

unbundle bit_operations_syntax

text \<open>
  The write side of \<^verbatim>\<open>unix/stream.c\<close>: requests to write are queued on a stream, written in
  order as far as the kernel takes them, moved to a second queue when they are done and called
  back from there. The I/O watcher embedded in a stream has the name of the stream.
\<close>

section \<open>The state\<close>

definition UV_HANDLE_SHUT :: u32 where "UV_HANDLE_SHUT = 0x200"
definition UV_HANDLE_READ_PARTIAL :: u32 where "UV_HANDLE_READ_PARTIAL = 0x400"
definition UV_HANDLE_READ_EOF :: u32 where "UV_HANDLE_READ_EOF = 0x800"
definition UV_HANDLE_READING :: u32 where "UV_HANDLE_READING = 0x1000"
definition UV_HANDLE_BOUND :: u32 where "UV_HANDLE_BOUND = 0x2000"
definition UV_HANDLE_READABLE :: u32 where "UV_HANDLE_READABLE = 0x4000"
definition UV_HANDLE_WRITABLE :: u32 where "UV_HANDLE_WRITABLE = 0x8000"
definition UV_HANDLE_BLOCKING_WRITES :: u32 where "UV_HANDLE_BLOCKING_WRITES = 0x100000"

text \<open>A buffer is an address and a length in the memory of the program.\<close>

record uv_buf =
  buf_base :: ptr
  buf_len :: nat

record uv_write =
  req_handle :: ptr
  write_cb :: ptr
  req_error :: "uv_errno option"
  send_handle :: ptr
  bufs :: "uv_buf list option"
  nbufs :: nat
  write_index :: nat

text \<open>Descriptors received and not yet accepted; \<open>offset\<close> is the length of the list.\<close>

record uv__stream_queued_fds =
  queued_size :: nat
  queued :: "int list"

record uv_stream =
  write_queue_size :: u64
  write_queue :: "ptr list"
  write_completed_queue :: "ptr list"
  connect_req :: ptr
  shutdown_req :: ptr
  delayed_error :: "uv_errno option"
  accepted_fd :: int
  queued_fds :: "uv__stream_queued_fds option"
  alloc_cb :: ptr
  read_cb :: ptr
  connection_cb :: ptr
  ipc :: bool

text \<open>The calls of user code, with their arguments.\<close>

datatype read_status = Read_bytes nat | Read_error uv_errno

datatype stream_call =
  Write_cb ptr "uv_errno option"
| Shutdown_cb ptr "uv_errno option"
| Connect_cb ptr "uv_errno option"
| Read_cb ptr read_status uv_buf
| Connection_cb ptr

text \<open>
  The state: the loop, the streams, the requests and the memory; \<open>req_cb\<close> holds the callbacks
  of the requests to connect and to shut down. \<open>wire\<close> is what the kernel has taken from each
  stream, \<open>syscalls\<close> counts the system calls, \<open>fd_events\<close> records what was opened and closed and
  \<open>stream_calls\<close> the callbacks, in their order. \<open>emfile_fd\<close> is a field of the loop that only
  streams use.
\<close>

record streams =
  the_loop :: uv_loop
  emfile_fd :: int
  stream_of :: "ptr \<Rightarrow> uv_stream"
  write_of :: "ptr \<Rightarrow> uv_write"
  req_cb :: "ptr \<Rightarrow> ptr"
  memory :: "ptr \<Rightarrow> u8"
  wire :: "ptr \<Rightarrow> u8 list"
  syscalls :: nat
  fd_events :: "fd_event list"
  stream_calls :: "stream_call list"

text \<open>
  The system: its answers to \<open>write\<close>, \<open>writev\<close> and \<open>sendmsg\<close> (how many of the bytes offered on
  a descriptor it takes), to \<open>read\<close> and \<open>recvmsg\<close> (bytes, and the descriptors sent along, one
  list for each control message, \<open>None\<close> for a message of another type), to \<open>shutdown\<close> and to
  \<open>getsockopt\<close> for the error of a socket and to \<open>listen\<close>, the limit of \<open>writev\<close>, the errors of
  the socket options of a connection that a flag asks for and of a datagram socket, whether that
  has a peer, whether an allocation of so many elements succeeds, and the calls of \<open>Syscalls\<close>
  that a function gets that starts after \<open>n\<close> others. \<open>So_in_progress\<close> is \<open>EINPROGRESS\<close>.
\<close>

datatype so_result = So_ok | So_in_progress | So_error uv_errno

record stream_system =
  sys_write :: "int \<Rightarrow> u8 list \<Rightarrow> int \<Rightarrow> nat answers"
  sys_read :: "int \<Rightarrow> nat \<Rightarrow> (u8 list \<times> int list option list) answers"
  sys_shutdown :: "int \<Rightarrow> unit answers"
  so_error :: "int \<Rightarrow> nat \<Rightarrow> so_result"
  sys_listen :: "int \<Rightarrow> int \<Rightarrow> uv_errno option"
  iov_max :: nat
  tcp_options :: "int \<Rightarrow> u32 \<Rightarrow> uv_errno option"
  udp_reuse :: "int \<Rightarrow> uv_errno option"
  udp_connected :: "int \<Rightarrow> bool"
  malloc_ok :: "nat \<Rightarrow> bool"
  descriptors :: "nat \<Rightarrow> fd_calls"

text \<open>The program: what its callbacks do, and the buffer that its allocator gives.\<close>

record stream_client =
  on_call :: "stream_call \<Rightarrow> streams \<Rightarrow> streams option"
  on_alloc :: "ptr \<Rightarrow> nat \<Rightarrow> streams \<Rightarrow> (uv_buf \<times> streams) option"

definition set_stream :: "ptr \<Rightarrow> uv_stream \<Rightarrow> streams \<Rightarrow> streams" where
  "set_stream h x st = st\<lparr>stream_of := (stream_of st)(h := x)\<rparr>"

definition set_write :: "ptr \<Rightarrow> uv_write \<Rightarrow> streams \<Rightarrow> streams" where
  "set_write r x st = st\<lparr>write_of := (write_of st)(r := x)\<rparr>"

text \<open>An operation on the loop, and a callback of the program.\<close>

definition on_loop :: "(uv_loop \<Rightarrow> uv_loop option) \<Rightarrow> streams \<Rightarrow> streams option" where
  "on_loop f st = map_option (\<lambda>s. st\<lparr>the_loop := s\<rparr>) (f (the_loop st))"

definition notify :: "stream_client \<Rightarrow> stream_call \<Rightarrow> streams \<Rightarrow> streams option" where
  "notify client c st = on_call client c (st\<lparr>stream_calls := stream_calls st @ [c]\<rparr>)"

definition stream_flags :: "ptr \<Rightarrow> streams \<Rightarrow> u32" where
  "stream_flags h st = flags (handle (the_loop st) h)"

definition set_stream_flags :: "ptr \<Rightarrow> u32 \<Rightarrow> streams \<Rightarrow> streams" where
  "set_stream_flags h w st = st\<lparr>the_loop := set_flags h w (the_loop st)\<rparr>"

definition stream_fd :: "ptr \<Rightarrow> streams \<Rightarrow> int" where
  "stream_fd h st = fd (io (the_loop st) h)"

definition uv__is_stream_shutting :: "ptr \<Rightarrow> streams \<Rightarrow> bool" where
  "uv__is_stream_shutting h st \<longleftrightarrow> shutdown_req (stream_of st h) \<noteq> NULL"

section \<open>Writing\<close>

definition uv__count_bufs :: "uv_buf list \<Rightarrow> u64" where
  "uv__count_bufs bs = fold (\<lambda>b n. n + of_nat (buf_len b)) bs 0"

definition uv__write_req_size :: "ptr \<Rightarrow> streams \<Rightarrow> u64 option" where
  "uv__write_req_size r st =
     Option.bind (bufs (write_of st r)) (\<lambda>bs.
       let size = uv__count_bufs (drop (write_index (write_of st r)) bs)
       in if write_queue_size (stream_of st (req_handle (write_of st r))) \<ge> size then Some size else None)"

text \<open>The walk over the buffers: the buffers and the index of the first that is not done.\<close>

function advance :: "nat \<Rightarrow> uv_buf list \<Rightarrow> nat \<Rightarrow> (uv_buf list \<times> nat) option" where
  "advance n bs i =
     (if i < length bs then
        let b = bs ! i;
            len = (if n < buf_len b then n else buf_len b);
            b' = b\<lparr>buf_base := if buf_len b \<noteq> 0 then buf_base b + len else buf_base b, buf_len := buf_len b - len\<rparr>;
            bs' = bs[i := b'];
            i' = (if buf_len b' = 0 then i + 1 else i)
        in if n - len > 0 then advance (n - len) bs' i' else Some (bs', i')
      else None)"
  by pat_completeness auto
termination by (relation "measure (\<lambda>(n, bs, i). length bs - i)") (auto split: if_splits)

declare advance.simps [simp del]

definition uv__write_req_update :: "ptr \<Rightarrow> ptr \<Rightarrow> nat \<Rightarrow> streams \<Rightarrow> (bool \<times> streams) option" where
  "uv__write_req_update h r n st =
     (let x = stream_of st h; q = write_of st r
      in if n > unat (write_queue_size x) then None
         else
           Option.bind (bufs q) (\<lambda>bs.
             map_option (\<lambda>(bs', i).
               (i = nbufs q,
                set_write r (q\<lparr>bufs := Some bs', write_index := i\<rparr>)
                  (set_stream h (x\<lparr>write_queue_size := write_queue_size x - of_nat n\<rparr>) st)))
               (advance n bs (write_index q))))"

definition uv__write_req_finish :: "ptr \<Rightarrow> streams \<Rightarrow> streams" where
  "uv__write_req_finish r st =
     (let q = write_of st r;
          h = req_handle q;
          x = stream_of st h;
          st = set_stream h (x\<lparr>write_queue := remove1 r (write_queue x)\<rparr>) st;
          st = (if req_error q = None then set_write r (q\<lparr>bufs := None\<rparr>) st else st);
          x = stream_of st h;
          st = set_stream h (x\<lparr>write_completed_queue := write_completed_queue x @ [r]\<rparr>) st
      in st\<lparr>the_loop := uv__io_feed h (the_loop st)\<rparr>)"

definition uv__handle_fd :: "ptr \<Rightarrow> streams \<Rightarrow> int" where
  "uv__handle_fd h st =
     (if htype (handle (the_loop st) h) \<in> {UV_NAMED_PIPE, UV_TCP, UV_UDP} then stream_fd h st else -1)"

definition buf_bytes :: "streams \<Rightarrow> uv_buf \<Rightarrow> u8 list" where
  "buf_bytes st b = map (memory st) [buf_base b..<buf_base b + buf_len b]"

text \<open>
  The bytes that the kernel takes are those of the vector, from its start; on Linux \<open>EWOULDBLOCK\<close>
  is \<open>EAGAIN\<close>, and a call takes less than \<open>2 ^ 31\<close> bytes, so that the cast to \<open>int\<close> keeps the count.
\<close>

definition uv__try_write ::
  "stream_system \<Rightarrow> ptr \<Rightarrow> uv_buf list \<Rightarrow> ptr \<Rightarrow> streams \<Rightarrow> ((uv_errno + nat) \<times> streams) option" where
  "uv__try_write k h bs send st =
     (let iov = take (iov_max k) bs;
          data = concat (map (buf_bytes st) iov);
          fd_to_send = (if send \<noteq> NULL then uv__handle_fd send st else -1)
      in if send \<noteq> NULL \<and> uv__is_closing send (the_loop st) then Some (Inl UV_EBADF, st)
         else if send \<noteq> NULL \<and> fd_to_send < 0 then None
         else
           map_option (\<lambda>(r, n).
             let st = st\<lparr>syscalls := n\<rparr>
             in case r of
                  Inr m \<Rightarrow> (Inr m, st\<lparr>wire := (wire st)(h := wire st h @ take m data)\<rparr>)
                | Inl e \<Rightarrow> (Inl (if e = UV_EAGAIN \<or> e = UV_ENOBUFS then UV_EAGAIN else e), st))
             (retry [UV_EINTR] (sys_write k (stream_fd h st) data fd_to_send) (syscalls st)))"

text \<open>
  The end of \<open>uv__write\<close> on an error, and one round of its loop: whether it goes on, with the
  requests that may still be finished. With writes that block it may go on for ever.
\<close>

definition write_failed :: "ptr \<Rightarrow> ptr \<Rightarrow> uv_errno \<Rightarrow> streams \<Rightarrow> streams option" where
  "write_failed h r e st =
     (let st = set_write r ((write_of st r)\<lparr>req_error := Some e\<rparr>) st
      in on_loop (uv__io_stop h POLLOUT) (uv__write_req_finish r st))"

definition write_later :: "ptr \<Rightarrow> nat \<Rightarrow> streams \<Rightarrow> (nat option \<times> streams) option" where
  "write_later h rounds st =
     (if stream_flags h st AND UV_HANDLE_BLOCKING_WRITES \<noteq> 0 then Some (Some rounds, st)
      else map_option (Pair None) (on_loop (uv__io_start h POLLOUT) st))"

definition write_round :: "stream_system \<Rightarrow> ptr \<Rightarrow> nat \<Rightarrow> streams \<Rightarrow> (nat option \<times> streams) option" where
  "write_round k h rounds st =
     (case write_queue (stream_of st h) of
        [] \<Rightarrow> Some (None, st)
      | r # _ \<Rightarrow>
          let q = write_of st r
          in if req_handle q \<noteq> h then None
             else
               Option.bind (bufs q) (\<lambda>bs.
               Option.bind (uv__try_write k h (drop (write_index q) bs) (send_handle q) st) (\<lambda>(res, st).
                 case res of
                   Inr n \<Rightarrow>
                     Option.bind (uv__write_req_update h r n (set_write r ((write_of st r)\<lparr>send_handle := NULL\<rparr>) st)) (\<lambda>(done, st).
                       if done then
                         let st = uv__write_req_finish r st
                         in Some (if rounds > 0 then Some (rounds - 1) else None, st)
                       else write_later h rounds st)
                 | Inl e \<Rightarrow>
                     if e = UV_EAGAIN then write_later h rounds st
                     else map_option (Pair None) (write_failed h r e st))))"

partial_function (option) write_loop :: "stream_system \<Rightarrow> ptr \<Rightarrow> nat \<Rightarrow> streams \<Rightarrow> streams option" where
  "write_loop k h rounds st =
     Option.bind (write_round k h rounds st) (\<lambda>(again, st).
       case again of None \<Rightarrow> Some st | Some rounds \<Rightarrow> write_loop k h rounds st)"

declare write_loop.simps [code]

definition uv__write :: "stream_system \<Rightarrow> ptr \<Rightarrow> streams \<Rightarrow> streams option" where
  "uv__write k h st = (if stream_fd h st < 0 then None else write_loop k h 32 st)"

text \<open>
  The callbacks of the requests that were done when the queue was moved away; the queue on the
  stack is the list that is walked.
\<close>

definition release_bufs :: "ptr \<Rightarrow> ptr \<Rightarrow> streams \<Rightarrow> streams option" where
  "release_bufs h r st =
     (if bufs (write_of st r) = None then Some st
      else
        map_option (\<lambda>size.
          let x = stream_of st h
          in set_write r ((write_of st r)\<lparr>bufs := None\<rparr>)
               (set_stream h (x\<lparr>write_queue_size := write_queue_size x - size\<rparr>) st))
          (uv__write_req_size r st))"

fun run_write_callbacks :: "stream_client \<Rightarrow> ptr \<Rightarrow> ptr list \<Rightarrow> streams \<Rightarrow> streams option" where
  "run_write_callbacks client h [] st = Some st"
| "run_write_callbacks client h (r # rs) st =
     Option.bind (on_loop uv__req_unregister st) (\<lambda>st.
     Option.bind (release_bufs h r st) (\<lambda>st.
     Option.bind (if write_cb (write_of st r) \<noteq> NULL
                  then notify client (Write_cb r (req_error (write_of st r))) st
                  else Some st)
       (run_write_callbacks client h rs)))"

definition uv__write_callbacks :: "stream_client \<Rightarrow> ptr \<Rightarrow> streams \<Rightarrow> streams option" where
  "uv__write_callbacks client h st =
     (let x = stream_of st h
      in run_write_callbacks client h (write_completed_queue x)
           (set_stream h (x\<lparr>write_completed_queue := []\<rparr>) st))"

fun flush_taken :: "uv_errno \<Rightarrow> ptr list \<Rightarrow> streams \<Rightarrow> streams" where
  "flush_taken e [] st = st"
| "flush_taken e (r # rs) st = flush_taken e rs (set_write r ((write_of st r)\<lparr>req_error := Some e\<rparr>) st)"

definition uv__stream_flush_write_queue :: "ptr \<Rightarrow> uv_errno \<Rightarrow> streams \<Rightarrow> streams" where
  "uv__stream_flush_write_queue h e st =
     (let x = stream_of st h
      in flush_taken e (write_queue x)
           (set_stream h (x\<lparr>write_queue := [], write_completed_queue := write_completed_queue x @ write_queue x\<rparr>) st))"

definition uv__drain :: "stream_system \<Rightarrow> stream_client \<Rightarrow> ptr \<Rightarrow> streams \<Rightarrow> streams option" where
  "uv__drain k client h st =
     (if write_queue (stream_of st h) \<noteq> [] then None
      else
        Option.bind (if stream_flags h st AND UV_HANDLE_CLOSING = 0 then on_loop (uv__io_stop h POLLOUT) st else Some st) (\<lambda>st.
          if \<not> uv__is_stream_shutting h st then Some st
          else if stream_flags h st AND UV_HANDLE_CLOSING \<noteq> 0 \<or> stream_flags h st AND UV_HANDLE_SHUT = 0 then
            let r = shutdown_req (stream_of st h);
                st = set_stream h ((stream_of st h)\<lparr>shutdown_req := NULL\<rparr>) st
            in Option.bind (on_loop uv__req_unregister st) (\<lambda>st.
                 let (err, st) =
                   (if stream_flags h st AND UV_HANDLE_CLOSING \<noteq> 0 then (Some UV_ECANCELED, st)
                    else
                      let st' = st\<lparr>syscalls := syscalls st + 1\<rparr>
                      in case sys_shutdown k (stream_fd h st) (syscalls st) of
                           Inl e \<Rightarrow> (Some e, st')
                         | Inr _ \<Rightarrow> (None, set_stream_flags h (stream_flags h st' OR UV_HANDLE_SHUT) st'))
                 in if req_cb st r \<noteq> NULL then notify client (Shutdown_cb r err) st else Some st)
          else Some st))"

definition uv__stream_destroy :: "stream_system \<Rightarrow> stream_client \<Rightarrow> ptr \<Rightarrow> streams \<Rightarrow> streams option" where
  "uv__stream_destroy k client h st =
     (if uv__io_active h (POLLIN OR POLLOUT) (the_loop st) \<noteq> Some False \<or> stream_flags h st AND UV_HANDLE_CLOSED = 0 then None
      else
        Option.bind
          (if connect_req (stream_of st h) \<noteq> NULL then
             Option.bind (on_loop uv__req_unregister st) (\<lambda>st.
             map_option (\<lambda>st. set_stream h ((stream_of st h)\<lparr>connect_req := NULL\<rparr>) st)
               (notify client (Connect_cb (connect_req (stream_of st h)) (Some UV_ECANCELED)) st))
           else Some st) (\<lambda>st.
        Option.bind (uv__write_callbacks client h (uv__stream_flush_write_queue h UV_ECANCELED st)) (\<lambda>st.
        Option.bind (uv__drain k client h st) (\<lambda>st.
          if write_queue_size (stream_of st h) = 0 then Some st else None))))"

definition uv__check_before_write :: "ptr \<Rightarrow> nat \<Rightarrow> ptr \<Rightarrow> streams \<Rightarrow> uv_errno option option" where
  "uv__check_before_write h n send st =
     (if n = 0 \<or> htype (handle (the_loop st) h) \<notin> {UV_TCP, UV_NAMED_PIPE, UV_TTY} then None
      else Some
        (if stream_fd h st < 0 then Some UV_EBADF
         else if stream_flags h st AND UV_HANDLE_WRITABLE = 0 then Some UV_EPIPE
         else if send \<noteq> NULL \<and> (htype (handle (the_loop st) h) \<noteq> UV_NAMED_PIPE \<or> \<not> ipc (stream_of st h)) then Some UV_EINVAL
         else if send \<noteq> NULL \<and> uv__handle_fd send st < 0 then Some UV_EBADF
         else None))"

text \<open>The request gets the buffers inside it when there are at most four, else allocated ones.\<close>

definition uv_write2 ::
  "stream_system \<Rightarrow> ptr \<Rightarrow> ptr \<Rightarrow> uv_buf list \<Rightarrow> ptr \<Rightarrow> ptr \<Rightarrow> streams \<Rightarrow> (uv_errno option \<times> streams) option" where
  "uv_write2 k r h bs send cb st =
     Option.bind (uv__check_before_write h (length bs) send st) (\<lambda>err.
       if err \<noteq> None then Some (err, st)
       else
         let empty_queue = (write_queue_size (stream_of st h) = 0);
             st = st\<lparr>the_loop := uv__req_register (the_loop st)\<rparr>;
             q = (write_of st r)\<lparr>write_cb := cb, req_handle := h, req_error := None, send_handle := send\<rparr>
         in if length bs > 4 \<and> \<not> malloc_ok k (length bs)
            then Some (Some UV_ENOMEM, set_write r (q\<lparr>bufs := None\<rparr>) st)
            else
              let st = set_write r (q\<lparr>bufs := Some bs, nbufs := length bs, write_index := 0\<rparr>) st;
                  x = stream_of st h;
                  st = set_stream h (x\<lparr>write_queue_size := write_queue_size x + uv__count_bufs bs,
                         write_queue := write_queue x @ [r]\<rparr>) st
              in map_option (Pair None)
                   (if connect_req (stream_of st h) \<noteq> NULL then Some st
                    else if empty_queue then uv__write k h st
                    else if stream_flags h st AND UV_HANDLE_BLOCKING_WRITES \<noteq> 0 then None
                    else on_loop (uv__io_start h POLLOUT) st))"

definition uv_write_to :: "stream_system \<Rightarrow> ptr \<Rightarrow> ptr \<Rightarrow> uv_buf list \<Rightarrow> ptr \<Rightarrow> streams \<Rightarrow> (uv_errno option \<times> streams) option" where
  "uv_write_to k r h bs cb st = uv_write2 k r h bs NULL cb st"

definition uv_try_write2 ::
  "stream_system \<Rightarrow> ptr \<Rightarrow> uv_buf list \<Rightarrow> ptr \<Rightarrow> streams \<Rightarrow> ((uv_errno + nat) \<times> streams) option" where
  "uv_try_write2 k h bs send st =
     (if connect_req (stream_of st h) \<noteq> NULL \<or> write_queue_size (stream_of st h) \<noteq> 0 then Some (Inl UV_EAGAIN, st)
      else
        Option.bind (uv__check_before_write h (length bs) NULL st) (\<lambda>err.
          case err of
            Some e \<Rightarrow> Some (Inl e, st)
          | None \<Rightarrow> uv__try_write k h bs send st))"

definition uv_try_write :: "stream_system \<Rightarrow> ptr \<Rightarrow> uv_buf list \<Rightarrow> streams \<Rightarrow> ((uv_errno + nat) \<times> streams) option" where
  "uv_try_write k h bs st = uv_try_write2 k h bs NULL st"

definition uv_shutdown :: "ptr \<Rightarrow> ptr \<Rightarrow> ptr \<Rightarrow> streams \<Rightarrow> (uv_errno option \<times> streams) option" where
  "uv_shutdown r h cb st =
     (if htype (handle (the_loop st) h) \<notin> {UV_TCP, UV_TTY, UV_NAMED_PIPE} then None
      else if stream_flags h st AND UV_HANDLE_WRITABLE = 0 \<or> stream_flags h st AND UV_HANDLE_SHUT \<noteq> 0 \<or>
         uv__is_stream_shutting h st \<or> uv__is_closing h (the_loop st) then Some (Some UV_ENOTCONN, st)
      else if stream_fd h st < 0 then None
      else
        let st = st\<lparr>the_loop := uv__req_register (the_loop st), req_cb := (req_cb st)(r := cb)\<rparr>;
            st = set_stream h ((stream_of st h)\<lparr>shutdown_req := r\<rparr>) st;
            st = set_stream_flags h (stream_flags h st AND NOT UV_HANDLE_WRITABLE) st
        in Some (None, if write_queue (stream_of st h) = []
                       then st\<lparr>the_loop := uv__io_feed h (the_loop st)\<rparr> else st))"

definition uv_stream_get_write_queue_size :: "ptr \<Rightarrow> streams \<Rightarrow> u64" where
  "uv_stream_get_write_queue_size h st = write_queue_size (stream_of st h)"

section \<open>The bytes that wait\<close>

definition bufs_size :: "uv_buf list \<Rightarrow> nat" where
  "bufs_size bs = sum_list (map buf_len bs)"

definition bufs_bytes :: "streams \<Rightarrow> uv_buf list \<Rightarrow> u8 list" where
  "bufs_bytes st bs = concat (map (buf_bytes st) bs)"

definition req_left :: "streams \<Rightarrow> ptr \<Rightarrow> uv_buf list" where
  "req_left st r = (case bufs (write_of st r) of None \<Rightarrow> [] | Some bs \<Rightarrow> drop (write_index (write_of st r)) bs)"

lemma bufs_size_simps [simp]:
  "bufs_size [] = 0" "bufs_size (b # bs) = buf_len b + bufs_size bs" "bufs_size (as @ bs) = bufs_size as + bufs_size bs"
  by (simp_all add: bufs_size_def)

lemma bufs_bytes_simps [simp]:
  "bufs_bytes st [] = []" "bufs_bytes st (b # bs) = buf_bytes st b @ bufs_bytes st bs"
  "bufs_bytes st (as @ bs) = bufs_bytes st as @ bufs_bytes st bs"
  by (simp_all add: bufs_bytes_def)

lemma length_buf_bytes [simp]: "length (buf_bytes st b) = buf_len b"
  by (simp add: buf_bytes_def)

lemma length_bufs_bytes [simp]: "length (bufs_bytes st bs) = bufs_size bs"
  by (induction bs) simp_all

lemma buf_bytes_memory: "memory st' = memory st \<Longrightarrow> buf_bytes st' = buf_bytes st"
  by (simp add: buf_bytes_def fun_eq_iff)

lemma bufs_bytes_memory: "memory st' = memory st \<Longrightarrow> bufs_bytes st' = bufs_bytes st"
  by (rule ext, drule buf_bytes_memory, simp add: bufs_bytes_def)

lemma count_bufs: "uv__count_bufs bs = of_nat (bufs_size bs)"
proof -
  have "fold (\<lambda>b n. n + of_nat (buf_len b)) bs a = a + of_nat (bufs_size bs)" for a :: u64
    by (induction bs arbitrary: a) (simp_all add: bufs_size_def)
  then show ?thesis by (simp add: uv__count_bufs_def)
qed

text \<open>The walk drops just the bytes that were written.\<close>

lemma drop_buf_bytes:
  "n \<le> buf_len b \<Longrightarrow> buf_bytes st (b\<lparr>buf_base := buf_base b + n, buf_len := buf_len b - n\<rparr>) = drop n (buf_bytes st b)"
  by (simp add: buf_bytes_def drop_map)

lemma advance_drops:
  "i < length bs \<Longrightarrow> n \<le> bufs_size (drop i bs) \<Longrightarrow>
   \<exists>bs' i'. advance n bs i = Some (bs', i') \<and> length bs' = length bs \<and> i' \<le> length bs \<and>
     bufs_bytes st (drop i' bs') = drop n (bufs_bytes st (drop i bs)) \<and> bufs_size (drop i' bs') = bufs_size (drop i bs) - n"
proof (induction n bs i rule: advance.induct)
  case (1 n bs i)
  let ?b = "bs ! i"
  have d: "drop i bs = ?b # drop (i + 1) bs" using 1(2) by (simp add: Cons_nth_drop_Suc)
  show ?case
  proof (cases "n < buf_len ?b")
    case True
    let ?b' = "?b\<lparr>buf_base := buf_base ?b + n, buf_len := buf_len ?b - n\<rparr>"
    have a: "advance n bs i = Some (bs[i := ?b'], i)" using True 1(2) by (subst advance.simps) (simp add: Let_def)
    have "drop i (bs[i := ?b']) = ?b' # drop (i + 1) bs"
      using 1(2) Cons_nth_drop_Suc [of i "bs[i := ?b']"] by simp
    then show ?thesis using a True 1(2) drop_buf_bytes [of n ?b st] by (simp add: d)
  next
    case False
    let ?b' = "?b\<lparr>buf_base := if buf_len ?b \<noteq> 0 then buf_base ?b + buf_len ?b else buf_base ?b, buf_len := 0\<rparr>"
    let ?bs = "bs[i := ?b']"
    have dd: "drop (i + 1) ?bs = drop (i + 1) bs" by simp
    show ?thesis
    proof (cases "n = buf_len ?b")
      case True
      then have "advance n bs i = Some (?bs, i + 1)" using 1(2) by (subst advance.simps) (simp add: Let_def)
      then show ?thesis using True 1(2) dd by (simp add: d)
    next
      case ne: False
      then have a: "advance n bs i = advance (n - buf_len ?b) ?bs (i + 1)" using False 1(2)
        by (subst advance.simps) (simp add: Let_def)
      have l: "n - buf_len ?b \<le> bufs_size (drop (i + 1) ?bs)" using 1(3) unfolding d dd by simp
      have "bufs_size (drop (i + 1) bs) > 0" using l ne False dd by simp
      then have i: "i + 1 < length ?bs" by (cases "i + 1 < length bs") simp_all
      obtain bs' i' where "advance (n - buf_len ?b) ?bs (i + 1) = Some (bs', i')" "length bs' = length bs" "i' \<le> length bs"
          "bufs_bytes st (drop i' bs') = drop (n - buf_len ?b) (bufs_bytes st (drop (i + 1) bs))"
          "bufs_size (drop i' bs') = bufs_size (drop (i + 1) bs) - (n - buf_len ?b)"
        using 1(1) [OF 1(2) refl refl refl refl refl] False ne i l unfolding dd by (auto simp: if_distrib cong: if_cong)
      then show ?thesis using a False by (simp add: d)
    qed
  qed
qed

section \<open>The invariant of a stream\<close>

text \<open>
  The requests of a stream are those taken off to be called back, those that wait and those that
  are done. A waiting request has buffers left and no error. The size kept is that of the
  buffers of all of them; the requests and the one to shut down are counted by the loop.
\<close>

definition in_flight :: "ptr \<Rightarrow> ptr list \<Rightarrow> streams \<Rightarrow> ptr list" where
  "in_flight h rs st = rs @ write_queue (stream_of st h) @ write_completed_queue (stream_of st h)"

definition bytes_left :: "streams \<Rightarrow> ptr list \<Rightarrow> nat" where
  "bytes_left st rs = sum_list (map (\<lambda>r. bufs_size (req_left st r)) rs)"

definition one_if :: "ptr \<Rightarrow> nat" where
  "one_if p = (if p = NULL then 0 else 1)"

text \<open>A handle to send along is closing or has a descriptor; \<open>uv_write2\<close> checks the latter.\<close>

definition sendable :: "streams \<Rightarrow> ptr \<Rightarrow> bool" where
  "sendable st g \<longleftrightarrow> g = NULL \<or> uv__is_closing g (the_loop st) \<or> 0 \<le> uv__handle_fd g st"

definition waiting :: "streams \<Rightarrow> ptr \<Rightarrow> bool" where
  "waiting st r \<longleftrightarrow> req_error (write_of st r) = None \<and> sendable st (send_handle (write_of st r)) \<and>
     (\<exists>bs. bufs (write_of st r) = Some bs \<and> nbufs (write_of st r) = length bs \<and> write_index (write_of st r) < length bs)"

definition stream_io_ok :: "ptr \<Rightarrow> streams \<Rightarrow> bool" where
  "stream_io_ok h st \<longleftrightarrow> h \<noteq> NULL \<and> polling_ok (the_loop st) \<and> -1 \<le> stream_fd h st \<and>
     (0 \<le> stream_fd h st \<longrightarrow> fd_free (the_loop st) h)"

definition writes_ok :: "ptr \<Rightarrow> ptr list \<Rightarrow> streams \<Rightarrow> bool" where
  "writes_ok h rs st \<longleftrightarrow> distinct (in_flight h rs st) \<and> (\<forall>r \<in> set (in_flight h rs st). req_handle (write_of st r) = h) \<and>
     (\<forall>r \<in> set (write_queue (stream_of st h)). waiting st r) \<and>
     bytes_left st (in_flight h rs st) < 2 ^ 64 \<and>
     write_queue_size (stream_of st h) = of_nat (bytes_left st (in_flight h rs st)) \<and>
     length (in_flight h rs st) + one_if (shutdown_req (stream_of st h)) \<le> unat (active_reqs (the_loop st)) \<and>
     stream_io_ok h st"

lemma bytes_left_simps [simp]:
  "bytes_left st [] = 0" "bytes_left st (r # rs) = bufs_size (req_left st r) + bytes_left st rs"
  "bytes_left st (rs @ qs) = bytes_left st rs + bytes_left st qs"
  by (simp_all add: bytes_left_def)

lemma bytes_left_cong:
  "(\<And>r. r \<in> set rs \<Longrightarrow> bufs (write_of st' r) = bufs (write_of st r) \<and> write_index (write_of st' r) = write_index (write_of st r)) \<Longrightarrow>
   bytes_left st' rs = bytes_left st rs"
  unfolding bytes_left_def by (rule arg_cong [where f = sum_list], rule map_cong) (auto simp: req_left_def split: option.splits)

lemma writes_ok_size:
  "writes_ok h rs st \<Longrightarrow> unat (write_queue_size (stream_of st h)) = bytes_left st (in_flight h rs st)"
  by (simp add: writes_ok_def unat_of_nat take_bit_nat_eq_self)

definition same_loop :: "streams \<Rightarrow> streams \<Rightarrow> bool" where
  "same_loop st st' \<longleftrightarrow> erase_io (the_loop st') = erase_io (the_loop st) \<and>
     (\<forall>g. fd (io (the_loop st') g) = fd (io (the_loop st) g))"

lemma same_loop_refl [simp]: "the_loop st' = the_loop st \<Longrightarrow> same_loop st st'"
  by (simp add: same_loop_def)

lemma same_loop_trans: "same_loop st st1 \<Longrightarrow> same_loop st1 st2 \<Longrightarrow> same_loop st st2"
  by (simp add: same_loop_def)

lemma same_loopD:
  assumes "same_loop st st'"
  shows "handle (the_loop st') = handle (the_loop st)" "active_reqs (the_loop st') = active_reqs (the_loop st)"
    "stream_fd g st' = stream_fd g st" "uv__handle_fd g st' = uv__handle_fd g st" "sendable st' g = sendable st g"
    "stream_flags g st' = stream_flags g st"
proof -
  note e = erase_ioD [OF conjunct1 [OF assms [unfolded same_loop_def]]]
  show "handle (the_loop st') = handle (the_loop st)" "active_reqs (the_loop st') = active_reqs (the_loop st)"
    by (rule e)+
  show "stream_fd g st' = stream_fd g st" "uv__handle_fd g st' = uv__handle_fd g st" "sendable st' g = sendable st g"
    "stream_flags g st' = stream_flags g st"
    using assms by (simp_all add: e(1) same_loop_def stream_fd_def uv__handle_fd_def sendable_def uv__is_closing_def stream_flags_def)
qed

text \<open>The operations on the watcher of a stream keep it ready to be started and stopped.\<close>

lemma io_stop_fd_free: "uv__io_stop w ev s = Some s' \<Longrightarrow> fd_free s w \<Longrightarrow> fd_free s' w"
  by (cases "nat (fd (io s w)) < length (watchers s)")
    (auto simp: uv__io_stop_def fd_free_def Let_def list_update_beyond not_less split: if_splits)

lemma io_feed_fields [simp]:
  "io (uv__io_feed w s) = io s" "watchers (uv__io_feed w s) = watchers s" "nwatchers (uv__io_feed w s) = nwatchers s"
  "erase_io (uv__io_feed w s) = erase_io s"
  by (auto simp: uv__io_feed_def)

lemma stop_stream_io:
  assumes "stream_io_ok h st" "events_valid ev"
  shows "\<exists>l. on_loop (uv__io_stop h ev) st = Some (st\<lparr>the_loop := l\<rparr>) \<and> stream_io_ok h (st\<lparr>the_loop := l\<rparr>) \<and>
    same_loop st (st\<lparr>the_loop := l\<rparr>)"
proof -
  have a: "polling_ok (the_loop st)" "h \<noteq> NULL" "fd (io (the_loop st) h) \<ge> -1"
    using assms(1) by (simp_all add: stream_io_ok_def stream_fd_def)
  from io_stop_ok [OF a(1) assms(2) a(2,3)] obtain s' where
    s': "uv__io_stop h ev (the_loop st) = Some s'" "polling_ok s'" "erase_io s' = erase_io (the_loop st)"
      "fd (io s' h) = fd (io (the_loop st) h)" "\<forall>v. v \<noteq> h \<longrightarrow> io s' v = io (the_loop st) v" by blast
  then have "fd (io s' g) = fd (io (the_loop st) g)" for g by (cases "g = h") simp_all
  then show ?thesis using assms(1) io_stop_fd_free [OF s'(1)] s'
    by (intro exI [of _ s']) (simp add: on_loop_def stream_io_ok_def stream_fd_def same_loop_def)
qed

lemma start_stream_io:
  assumes "stream_io_ok h st" "events_valid ev" "0 \<le> stream_fd h st"
  shows "\<exists>l. on_loop (uv__io_start h ev) st = Some (st\<lparr>the_loop := l\<rparr>) \<and> stream_io_ok h (st\<lparr>the_loop := l\<rparr>) \<and>
    same_loop st (st\<lparr>the_loop := l\<rparr>)"
proof -
  have a: "polling_ok (the_loop st)" "fd_free (the_loop st) h" using assms(1,3) by (simp_all add: stream_io_ok_def)
  from io_start_ok [OF a(1) assms(2) a(2)] obtain s' where
    s': "uv__io_start h ev (the_loop st) = Some s'" "polling_ok s'" "erase_io s' = erase_io (the_loop st)"
      "io s' = (io (the_loop st))(h := (io (the_loop st) h)\<lparr>pevents := pevents (io (the_loop st) h) OR ev\<rparr>)" "registered s' h"
    by blast
  have "fd_free s' h" using a(2) s'(4,5) by (auto simp: fd_free_def registered_def)
  then show ?thesis using assms(1,3) s' by (intro exI [of _ s']) (simp add: on_loop_def stream_io_ok_def stream_fd_def same_loop_def)
qed

lemma feed_stream_io: "stream_io_ok h st \<Longrightarrow> stream_io_ok h (st\<lparr>the_loop := uv__io_feed g (the_loop st)\<rparr>)"
  by (simp add: stream_io_ok_def io_feed_ok stream_fd_def fd_free_def)

lemma stream_io_cong: "the_loop st' = the_loop st \<Longrightarrow> stream_io_ok h st' \<longleftrightarrow> stream_io_ok h st"
  by (simp add: stream_io_ok_def stream_fd_def)

lemma feed_same_loop: "same_loop st (st\<lparr>the_loop := uv__io_feed g (the_loop st)\<rparr>)"
  by (simp add: same_loop_def)

section \<open>One request\<close>

lemma req_left_cong: "write_of st' r = write_of st r \<Longrightarrow> req_left st' r = req_left st r"
  by (cases "bufs (write_of st r)") (simp_all add: req_left_def)

text \<open>A change of the queues and of one request keeps the invariant when the sizes agree.\<close>

lemma writes_ok_step:
  assumes ok: "writes_ok h rs st" and r: "r \<in> set (in_flight h rs st)"
    and io: "stream_io_ok h st'" "same_loop st st'"
    and fl: "mset (in_flight h rs st') = mset (in_flight h rs st)"
    and wq: "set (write_queue (stream_of st' h)) \<subseteq> set (write_queue (stream_of st h))"
    and q: "write_of st' = (write_of st)(r := q)" "req_handle q = h"
    and wait: "r \<in> set (write_queue (stream_of st' h)) \<Longrightarrow> waiting st' r"
    and n: "bufs_size (req_left st' r) + n = bufs_size (req_left st r)"
    and size: "write_queue_size (stream_of st' h) = write_queue_size (stream_of st h) - of_nat n"
    and reqs: "shutdown_req (stream_of st' h) = shutdown_req (stream_of st h)"
  shows "writes_ok h rs st'"
proof -
  let ?fs = "in_flight h rs st" let ?fs' = "in_flight h rs st'"
  have d: "distinct ?fs" and hd: "\<forall>g \<in> set ?fs. req_handle (write_of st g) = h"
    and w: "\<forall>g \<in> set (write_queue (stream_of st h)). waiting st g" and b: "bytes_left st ?fs < 2 ^ 64"
    and s: "write_queue_size (stream_of st h) = of_nat (bytes_left st ?fs)"
    using ok by (simp_all add: writes_ok_def)
  have set: "set ?fs' = set ?fs" by (rule mset_eq_setD [OF fl])
  have len: "length ?fs' = length ?fs" by (rule mset_eq_length [OF fl])
  have d': "distinct ?fs'" by (rule mset_eq_imp_distinct_iff [OF fl, THEN iffD2, OF d])
  have perm: "bytes_left st' ?fs' = bytes_left st' ?fs"
    unfolding bytes_left_def by (simp only: sum_mset_sum_list [symmetric] mset_map fl)
  have "bytes_left st' gs + n = bytes_left st gs" if "distinct gs" "r \<in> set gs" for gs
    using that
  proof (induction gs)
    case (Cons g gs)
    have same: "bytes_left st' gs = bytes_left st gs" if "r \<notin> set gs"
      using that q(1) by (intro bytes_left_cong) auto
    show ?case
    proof (cases "g = r")
      case True then show ?thesis using Cons.prems n same by simp
    next
      case False
      then have "req_left st' g = req_left st g" using q(1) by (intro req_left_cong) simp
      then show ?thesis using Cons False by simp
    qed
  qed simp
  from this [OF d r] have b': "bytes_left st' ?fs' + n = bytes_left st ?fs" by (simp add: perm)
  then have s': "write_queue_size (stream_of st' h) = of_nat (bytes_left st' ?fs')"
    using size s by (metis add_diff_cancel_right' of_nat_add)
  have w': "waiting st' g" if "g \<in> set (write_queue (stream_of st' h))" for g
  proof (cases "g = r")
    case True then show ?thesis using wait that by simp
  next
    case False
    then have "waiting st g" using that wq w by blast
    then show ?thesis using False q(1) same_loopD(5) [OF io(2)] by (simp add: waiting_def)
  qed
  have hd': "\<forall>g \<in> set ?fs'. req_handle (write_of st' g) = h" using hd q by (simp add: set)
  show ?thesis
    using ok d' hd' w' b b' s' len reqs io(1) same_loopD(2) [OF io(2)] by (simp add: writes_ok_def)
qed

lemma bytes_left_member: "r \<in> set gs \<Longrightarrow> bufs_size (req_left st r) \<le> bytes_left st gs"
  by (induction gs) auto

text \<open>The kernel takes no more than it is offered, and an interrupted call is answered in the end.\<close>

definition kernel_writes :: "stream_system \<Rightarrow> bool" where
  "kernel_writes k \<longleftrightarrow> (\<forall>f d g n m. sys_write k f d g n = Inr m \<longrightarrow> m \<le> length d) \<and>
     (\<forall>f d g n. \<exists>j. settled [UV_EINTR] (sys_write k f d g (n + j)))"

lemma retry_total:
  assumes "\<exists>j. settled es (sys (n + j))"
  shows "\<exists>m. retry es sys n = Some (sys m, m + 1) \<and> n \<le> m"
proof -
  let ?P = "\<lambda>j. settled es (sys (n + j))"
  have "?P (Least ?P)" using assms by (rule LeastI_ex)
  moreover have "\<not> ?P j" if "j < Least ?P" for j using that by (rule not_less_Least)
  ultimately show ?thesis using retry_returns [of es sys n "Least ?P"] by auto
qed

lemma try_write_cases:
  assumes "kernel_writes k" "sendable st send"
  shows "(\<exists>m c. uv__try_write k h bs send st =
        Some (Inr m, st\<lparr>syscalls := c, wire := (wire st)(h := wire st h @ take m (bufs_bytes st bs))\<rparr>) \<and> m \<le> bufs_size bs) \<or>
    (\<exists>e c. uv__try_write k h bs send st = Some (Inl e, st\<lparr>syscalls := c\<rparr>))"
proof (cases "send \<noteq> NULL \<and> uv__is_closing send (the_loop st)")
  case True
  then have "uv__try_write k h bs send st = Some (Inl UV_EBADF, st\<lparr>syscalls := syscalls st\<rparr>)"
    by (simp add: uv__try_write_def Let_def)
  then show ?thesis by blast
next
  case False
  let ?d = "concat (map (buf_bytes st) (take (iov_max k) bs))"
  let ?f = "if send \<noteq> NULL then uv__handle_fd send st else -1"
  have all: "bufs_bytes st bs = ?d @ bufs_bytes st (drop (iov_max k) bs)"
    using bufs_bytes_simps(3) [of st "take (iov_max k) bs" "drop (iov_max k) bs"] by (simp add: bufs_bytes_def)
  have f: "send \<noteq> NULL \<longrightarrow> 0 \<le> uv__handle_fd send st" using False assms(2) by (auto simp: sendable_def)
  have "\<exists>j. settled [UV_EINTR] (sys_write k (stream_fd h st) ?d ?f (syscalls st + j))"
    using assms(1) by (auto simp: kernel_writes_def)
  from retry_total [OF this] obtain c where
    c: "retry [UV_EINTR] (sys_write k (stream_fd h st) ?d ?f) (syscalls st) = Some (sys_write k (stream_fd h st) ?d ?f c, c + 1)"
    by blast
  have t: "uv__try_write k h bs send st =
    (case sys_write k (stream_fd h st) ?d ?f c of
       Inr m \<Rightarrow> Some (Inr m, st\<lparr>syscalls := c + 1, wire := (wire st)(h := wire st h @ take m ?d)\<rparr>)
     | Inl e \<Rightarrow> Some (Inl (if e = UV_EAGAIN \<or> e = UV_ENOBUFS then UV_EAGAIN else e), st\<lparr>syscalls := c + 1\<rparr>))"
    using False f c by (auto simp: uv__try_write_def Let_def split: sum.splits)
  show ?thesis
  proof (cases "sys_write k (stream_fd h st) ?d ?f c")
    case (Inl e) then show ?thesis using t by auto
  next
    case (Inr m)
    have m: "m \<le> length ?d" using assms(1) Inr by (auto simp: kernel_writes_def)
    moreover have "take m (bufs_bytes st bs) = take m ?d" using m by (simp add: all)
    moreover have "length ?d \<le> bufs_size bs"
      using all length_bufs_bytes [of st bs] by (metis length_append le_add1)
    ultimately show ?thesis using t Inr by auto
  qed
qed

lemma req_update_done:
  assumes ok: "writes_ok h rs st" and w: "r \<in> set (write_queue (stream_of st h))" and n: "n \<le> bufs_size (req_left st r)"
  shows "\<exists>bs' i'. uv__write_req_update h r n st =
      Some (i' = length bs', set_write r ((write_of st r)\<lparr>bufs := Some bs', write_index := i'\<rparr>)
        (set_stream h ((stream_of st h)\<lparr>write_queue_size := write_queue_size (stream_of st h) - of_nat n\<rparr>) st)) \<and>
    i' \<le> length bs' \<and> nbufs (write_of st r) = length bs' \<and> bufs_size (drop i' bs') + n = bufs_size (req_left st r) \<and>
    bufs_bytes st (drop i' bs') = drop n (bufs_bytes st (req_left st r))"
proof -
  obtain bs where bs: "bufs (write_of st r) = Some bs" "nbufs (write_of st r) = length bs" "write_index (write_of st r) < length bs"
    using ok w by (auto simp: writes_ok_def waiting_def)
  have left: "req_left st r = drop (write_index (write_of st r)) bs" using bs by (simp add: req_left_def)
  obtain bs' i' where a: "advance n bs (write_index (write_of st r)) = Some (bs', i')" "length bs' = length bs" "i' \<le> length bs"
      "bufs_bytes st (drop i' bs') = drop n (bufs_bytes st (req_left st r))" "bufs_size (drop i' bs') = bufs_size (req_left st r) - n"
    using advance_drops [OF bs(3), of n st] n unfolding left by auto
  have "bufs_size (req_left st r) \<le> bytes_left st (in_flight h rs st)"
    using w by (intro bytes_left_member) (simp add: in_flight_def)
  then have "n \<le> unat (write_queue_size (stream_of st h))" using n writes_ok_size [OF ok] by simp
  then have "uv__write_req_update h r n st = Some (i' = length bs', set_write r ((write_of st r)\<lparr>bufs := Some bs', write_index := i'\<rparr>)
        (set_stream h ((stream_of st h)\<lparr>write_queue_size := write_queue_size (stream_of st h) - of_nat n\<rparr>) st))"
    using a bs by (simp add: uv__write_req_update_def Let_def not_less)
  then show ?thesis using a bs n by (intro exI [of _ bs'] exI [of _ i']) simp
qed

section \<open>Writing in order\<close>

text \<open>What writing on a stream leaves alone.\<close>

definition erase_writes :: "ptr \<Rightarrow> streams \<Rightarrow> streams" where
  "erase_writes h st = st\<lparr>the_loop := erase_io (the_loop st),
     stream_of := (stream_of st)(h := (stream_of st h)\<lparr>write_queue_size := 0, write_queue := [], write_completed_queue := []\<rparr>),
     write_of := (\<lambda>r. (write_of st r)\<lparr>bufs := None, write_index := 0, req_error := None, send_handle := NULL\<rparr>),
     wire := (wire st)(h := []), syscalls := 0\<rparr>"

lemma erase_writesD:
  assumes "erase_writes h st' = erase_writes h st"
  shows "memory st' = memory st" "stream_calls st' = stream_calls st" "req_cb st' = req_cb st" "fd_events st' = fd_events st"
    "emfile_fd st' = emfile_fd st" "g \<noteq> h \<Longrightarrow> stream_of st' g = stream_of st g" "g \<noteq> h \<Longrightarrow> wire st' g = wire st g"
    "connect_req (stream_of st' h) = connect_req (stream_of st h)" "shutdown_req (stream_of st' h) = shutdown_req (stream_of st h)"
    "write_cb (write_of st' r) = write_cb (write_of st r)" "req_handle (write_of st' r) = req_handle (write_of st r)"
proof -
  note e = assms [unfolded erase_writes_def]
  show "memory st' = memory st" "stream_calls st' = stream_calls st" "req_cb st' = req_cb st" "fd_events st' = fd_events st"
    "emfile_fd st' = emfile_fd st"
    using arg_cong [OF e, of memory] arg_cong [OF e, of stream_calls] arg_cong [OF e, of req_cb] arg_cong [OF e, of fd_events]
      arg_cong [OF e, of emfile_fd] by simp_all
  have s: "stream_of (erase_writes h st') g = stream_of (erase_writes h st) g" for g using assms by simp
  have w: "wire (erase_writes h st') g = wire (erase_writes h st) g" for g using assms by simp
  have q: "write_of (erase_writes h st') r = write_of (erase_writes h st) r" using assms by simp
  show "g \<noteq> h \<Longrightarrow> stream_of st' g = stream_of st g" "g \<noteq> h \<Longrightarrow> wire st' g = wire st g"
    using s [of g] w [of g] by (simp_all add: erase_writes_def)
  show "connect_req (stream_of st' h) = connect_req (stream_of st h)" "shutdown_req (stream_of st' h) = shutdown_req (stream_of st h)"
    using arg_cong [OF s [of h], of connect_req] arg_cong [OF s [of h], of shutdown_req] by (simp_all add: erase_writes_def)
  show "write_cb (write_of st' r) = write_cb (write_of st r)" "req_handle (write_of st' r) = req_handle (write_of st r)"
    using arg_cong [OF q, of write_cb] arg_cong [OF q, of req_handle] by (simp_all add: erase_writes_def)
qed

definition reqs_bytes :: "streams \<Rightarrow> ptr list \<Rightarrow> u8 list" where
  "reqs_bytes st rs = concat (map (\<lambda>r. bufs_bytes st (req_left st r)) rs)"

lemma reqs_bytes_simps [simp]:
  "reqs_bytes st [] = []" "reqs_bytes st (r # rs) = bufs_bytes st (req_left st r) @ reqs_bytes st rs"
  "reqs_bytes st (rs @ qs) = reqs_bytes st rs @ reqs_bytes st qs"
  by (simp_all add: reqs_bytes_def)

lemma reqs_bytes_cong:
  assumes "memory st' = memory st" "\<And>r. r \<in> set rs \<Longrightarrow> write_of st' r = write_of st r"
  shows "reqs_bytes st' rs = reqs_bytes st rs"
proof -
  have "bufs_bytes st' (req_left st' r) = bufs_bytes st (req_left st r)" if "r \<in> set rs" for r
    using req_left_cong [OF assms(2) [OF that]] by (simp add: bufs_bytes_memory [OF assms(1)])
  then show ?thesis unfolding reqs_bytes_def by (metis (mono_tags, lifting) map_eq_conv)
qed

text \<open>
  From \<open>st\<close> to \<open>st'\<close> the requests \<open>fin\<close> at the front of the queue were done and the bytes \<open>sent\<close>
  were written: what waited is what was sent followed by what is left, and nothing of a request
  that ended without an error is left.
\<close>

definition wrote :: "ptr \<Rightarrow> streams \<Rightarrow> streams \<Rightarrow> ptr list \<Rightarrow> u8 list \<Rightarrow> bool" where
  "wrote h st st' fin sent \<longleftrightarrow> same_loop st st' \<and> erase_writes h st' = erase_writes h st \<and>
     write_queue (stream_of st h) = fin @ write_queue (stream_of st' h) \<and>
     write_completed_queue (stream_of st' h) = write_completed_queue (stream_of st h) @ fin \<and>
     wire st' h = wire st h @ sent \<and>
     reqs_bytes st (write_queue (stream_of st h)) = sent @ reqs_bytes st' (fin @ write_queue (stream_of st' h)) \<and>
     (\<forall>r. r \<notin> set (write_queue (stream_of st h)) \<longrightarrow> write_of st' r = write_of st r) \<and>
     (\<forall>r \<in> set fin. req_error (write_of st' r) = None \<longrightarrow> req_left st' r = [])"

lemma wrote_trans:
  assumes "writes_ok h rs st1" "wrote h st st1 f1 s1" "\<forall>r \<in> set f1. req_error (write_of st1 r) = None" "wrote h st1 st2 f2 s2"
  shows "wrote h st st2 (f1 @ f2) (s1 @ s2)"
proof -
  have d: "distinct (write_queue (stream_of st1 h) @ write_completed_queue (stream_of st1 h))"
    using assms(1) by (simp add: writes_ok_def in_flight_def)
  have f1: "r \<notin> set (write_queue (stream_of st1 h))" if "r \<in> set f1" for r
    using that d assms(2) by (auto simp: wrote_def)
  have same: "write_of st2 r = write_of st1 r" if "r \<notin> set (write_queue (stream_of st1 h))" for r
    using that assms(4) by (simp add: wrote_def)
  have left: "req_left st2 r = []" if "r \<in> set f1" for r
    using that assms(2,3) same [OF f1] req_left_cong [of st2 r st1] by (auto simp: wrote_def)
  have b2: "reqs_bytes st2 f1 = []" using left by (simp add: reqs_bytes_def)
  have b1: "reqs_bytes st1 f1 = []" using assms(2,3) by (simp add: reqs_bytes_def wrote_def)
  note w1 = assms(2) [unfolded wrote_def] and w2 = assms(4) [unfolded wrote_def]
  have out: "write_of st2 r = write_of st r" if "r \<notin> set (write_queue (stream_of st h))" for r
    using that w1 same [of r] by auto
  have fin: "req_left st2 r = []" if "r \<in> set (f1 @ f2)" "req_error (write_of st2 r) = None" for r
    using that left w2 by auto
  have "reqs_bytes st (write_queue (stream_of st h)) = s1 @ reqs_bytes st1 (f1 @ write_queue (stream_of st1 h))"
    using w1 by blast
  also have "\<dots> = s1 @ reqs_bytes st1 (write_queue (stream_of st1 h))" using b1 by simp
  also have "reqs_bytes st1 (write_queue (stream_of st1 h)) = s2 @ reqs_bytes st2 (f2 @ write_queue (stream_of st2 h))"
    using w2 by blast
  finally have "reqs_bytes st (write_queue (stream_of st h)) =
      (s1 @ s2) @ reqs_bytes st2 ((f1 @ f2) @ write_queue (stream_of st2 h))"
    using b2 by simp
  moreover have "write_queue (stream_of st h) = (f1 @ f2) @ write_queue (stream_of st2 h)"
    using conjunct1 [OF conjunct2 [OF conjunct2 [OF w1]]] conjunct1 [OF conjunct2 [OF conjunct2 [OF w2]]] by (simp only: append.assoc)
  moreover have "same_loop st st2" "erase_writes h st2 = erase_writes h st"
    using w1 w2 same_loop_trans [of st st1 st2] by (blast, metis)
  moreover have "write_completed_queue (stream_of st2 h) = write_completed_queue (stream_of st h) @ f1 @ f2"
    "wire st2 h = wire st h @ s1 @ s2" using w1 w2 by (metis append.assoc)+
  ultimately show ?thesis unfolding wrote_def using out fin by simp
qed

lemma finish_eq:
  assumes "req_handle (write_of st r) = h"
  shows "uv__write_req_finish r st = st\<lparr>the_loop := uv__io_feed h (the_loop st),
    stream_of := (stream_of st)(h := (stream_of st h)\<lparr>write_queue := remove1 r (write_queue (stream_of st h)),
      write_completed_queue := write_completed_queue (stream_of st h) @ [r]\<rparr>),
    write_of := (write_of st)(r := if req_error (write_of st r) = None then (write_of st r)\<lparr>bufs := None\<rparr> else write_of st r)\<rparr>"
  using assms by (simp add: uv__write_req_finish_def Let_def set_stream_def set_write_def)

lemma writes_ok_loop:
  assumes "writes_ok h rs st" "stream_io_ok h (st\<lparr>the_loop := l\<rparr>)" "same_loop st (st\<lparr>the_loop := l\<rparr>)"
  shows "writes_ok h rs (st\<lparr>the_loop := l\<rparr>)"
proof -
  have "bytes_left (st\<lparr>the_loop := l\<rparr>) gs = bytes_left st gs" for gs by (rule bytes_left_cong) simp
  moreover have "waiting (st\<lparr>the_loop := l\<rparr>) r = waiting st r" for r by (simp add: waiting_def same_loopD(5) [OF assms(3)])
  ultimately show ?thesis using assms(1,2) same_loopD(2) [OF assms(3)] by (simp add: writes_ok_def in_flight_def)
qed

lemma wrote_loop: "same_loop st (st\<lparr>the_loop := l\<rparr>) \<Longrightarrow> wrote h st (st\<lparr>the_loop := l\<rparr>) [] []"
  using reqs_bytes_cong [of "st\<lparr>the_loop := l\<rparr>" st]
  by (simp add: wrote_def same_loop_def erase_writes_def)

lemma POLLOUT_valid: "events_valid POLLOUT" "events_valid POLLIN"
  by (simp_all add: events_valid_def all_events_def POLLIN_def POLLOUT_def UV__POLLRDHUP_def UV__POLLPRI_def)

lemma write_later_ok:
  assumes ok: "writes_ok h rs st" and fd: "0 \<le> stream_fd h st" and nb: "stream_flags h st AND UV_HANDLE_BLOCKING_WRITES = 0"
  shows "\<exists>st'. write_later h n st = Some (None, st') \<and> writes_ok h rs st' \<and> wrote h st st' [] []"
proof -
  have io: "stream_io_ok h st" using ok by (simp add: writes_ok_def)
  obtain l where l: "on_loop (uv__io_start h POLLOUT) st = Some (st\<lparr>the_loop := l\<rparr>)" "stream_io_ok h (st\<lparr>the_loop := l\<rparr>)"
      "same_loop st (st\<lparr>the_loop := l\<rparr>)"
    using start_stream_io [OF io POLLOUT_valid(1) fd] by blast
  then show ?thesis using writes_ok_loop [OF ok l(2,3)] wrote_loop [OF l(3)] nb by (simp add: write_later_def)
qed

text \<open>The bytes that a change of one waiting request leaves, when the first \<open>n\<close> of it are written.\<close>

lemma wrote_front:
  assumes q0: "write_queue (stream_of st h) = r # qs" and d: "distinct (r # qs)"
    and same: "same_loop st st'" "erase_writes h st' = erase_writes h st"
    and q: "write_of st' = (write_of st)(r := q)" and w: "wire st' h = wire st h @ take n (bufs_bytes st (req_left st r))"
    and left: "bufs_bytes st (req_left st' r) = drop n (bufs_bytes st (req_left st r))"
    and queues: "write_queue (stream_of st' h) = (if fin then qs else r # qs)"
      "write_completed_queue (stream_of st' h) = write_completed_queue (stream_of st h) @ (if fin then [r] else [])"
    and ended: "fin \<Longrightarrow> req_error q = None \<Longrightarrow> req_left st' r = []"
  shows "wrote h st st' (if fin then [r] else []) (take n (bufs_bytes st (req_left st r)))"
proof -
  have m: "memory st' = memory st" by (rule erase_writesD(1) [OF same(2)])
  have "reqs_bytes st' qs = reqs_bytes st qs" by (rule reqs_bytes_cong [OF m]) (use d q in auto)
  moreover have "bufs_bytes st' (req_left st' r) = drop n (bufs_bytes st (req_left st r))"
    using left bufs_bytes_memory [OF m] by simp
  moreover have "write_of st' g = write_of st g" if "g \<notin> set (r # qs)" for g using that q by simp
  moreover have "req_left st' r = []" if fin "req_error (write_of st' r) = None" using that ended q by simp
  ultimately show ?thesis using same q0 w queues by (cases fin) (simp_all add: wrote_def)
qed

definition step_ok :: "ptr \<Rightarrow> ptr list \<Rightarrow> nat \<Rightarrow> streams \<Rightarrow> nat option \<Rightarrow> streams \<Rightarrow> ptr list \<Rightarrow> u8 list \<Rightarrow> bool" where
  "step_ok h rs rounds st again st' fin sent \<longleftrightarrow> writes_ok h rs st' \<and> wrote h st st' fin sent \<and>
     (again = None \<and> (\<forall>r \<in> set (butlast fin). req_error (write_of st' r) = None) \<or>
      0 < rounds \<and> again = Some (rounds - 1) \<and> (\<forall>r \<in> set fin. req_error (write_of st' r) = None))"

lemma write_round_sent:
  assumes ok: "writes_ok h rs st" and fd: "0 \<le> stream_fd h st" and nb: "stream_flags h st AND UV_HANDLE_BLOCKING_WRITES = 0"
    and q0: "write_queue (stream_of st h) = r # qs" and b: "bufs (write_of st r) = Some bs"
    and t: "uv__try_write k h (drop (write_index (write_of st r)) bs) (send_handle (write_of st r)) st =
      Some (Inr m, st\<lparr>syscalls := c, wire := (wire st)(h := wire st h @ take m (bufs_bytes st (req_left st r)))\<rparr>)"
    and m: "m \<le> bufs_size (req_left st r)"
  shows "\<exists>again st' fin sent. write_round k h rounds st = Some (again, st') \<and> step_ok h rs rounds st again st' fin sent"
proof -
  have r: "r \<in> set (write_queue (stream_of st h))" "r \<in> set (in_flight h rs st)" using q0 by (simp_all add: in_flight_def)
  have hd: "req_handle (write_of st r) = h" and wt: "waiting st r" and io: "stream_io_ok h st"
    and dq: "distinct (r # qs)" and dd: "distinct (in_flight h rs st)"
    using ok r q0 by (auto simp: writes_ok_def in_flight_def)
  let ?sent = "take m (bufs_bytes st (req_left st r))"
  define q where "q = (write_of st r)\<lparr>send_handle := NULL\<rparr>"
  define st2 where "st2 = st\<lparr>syscalls := c, wire := (wire st)(h := wire st h @ ?sent), write_of := (write_of st)(r := q)\<rparr>"
  have left2: "req_left st2 r = req_left st r" using b by (simp add: req_left_def st2_def q_def)
  have l2: "same_loop st st2" by (simp add: st2_def)
  have io2: "stream_io_ok h st2" using io stream_io_cong [of st2 st h] by (simp add: st2_def)
  have wt2: "waiting st2 r" using wt by (auto simp: waiting_def st2_def q_def sendable_def)
  have ok2: "writes_ok h rs st2"
    by (rule writes_ok_step [OF ok r(2) io2 l2, where n = 0 and q = q])
      (use left2 wt2 hd in \<open>simp_all add: st2_def in_flight_def q_def\<close>)
  have r2: "r \<in> set (write_queue (stream_of st2 h))" using r by (simp add: st2_def)
  have wq2: "write_of st2 r = q" "stream_of st2 = stream_of st" "req_handle q = h" "req_error q = None"
    using hd wt by (simp_all add: st2_def q_def waiting_def)
  from req_update_done [OF ok2 r2, of m] obtain bs' i' where
    u: "uv__write_req_update h r m st2 = Some (i' = length bs', set_write r (q\<lparr>bufs := Some bs', write_index := i'\<rparr>)
        (set_stream h ((stream_of st h)\<lparr>write_queue_size := write_queue_size (stream_of st h) - of_nat m\<rparr>) st2))"
      (is "_ = Some (_, ?st3)")
    and i: "i' \<le> length bs'" "nbufs q = length bs'" "bufs_size (drop i' bs') + m = bufs_size (req_left st r)"
      "bufs_bytes st2 (drop i' bs') = drop m (bufs_bytes st2 (req_left st r))"
    using m by (auto simp: wq2 left2)
  have round: "write_round k h rounds st =
      (if i' = length bs' then Some (if rounds > 0 then Some (rounds - 1) else None, uv__write_req_finish r ?st3)
       else write_later h rounds ?st3)"
    using t u b hd q0 by (simp add: write_round_def Let_def st2_def q_def set_write_def)
  have bb: "bufs_bytes st2 = bufs_bytes st" by (rule bufs_bytes_memory) (simp add: st2_def)
  show ?thesis
  proof (cases "i' = length bs'")
    case False
    have left3: "req_left ?st3 r = drop i' bs'" by (simp add: req_left_def set_write_def set_stream_def)
    have "waiting ?st3 r" using wt2 i False
      by (auto simp: waiting_def set_write_def set_stream_def wq2 sendable_def q_def)
    then have ok3: "writes_ok h rs ?st3"
      by (intro writes_ok_step [OF ok2 _ _ _, where r = r and n = m and q = "q\<lparr>bufs := Some bs', write_index := i'\<rparr>"])
        (use r left3 left2 i wq2 io2 stream_io_cong [of ?st3 st2 h] in \<open>simp_all add: set_write_def set_stream_def in_flight_def st2_def\<close>)
    have w3: "wrote h st ?st3 (if False then [r] else []) ?sent"
      by (rule wrote_front [OF q0 dq, where q = "q\<lparr>bufs := Some bs', write_index := i'\<rparr>"])
        (use left3 i bb q0 in \<open>simp_all add: set_write_def set_stream_def st2_def erase_writes_def q_def fun_eq_iff\<close>)
    have "0 \<le> stream_fd h ?st3" "stream_flags h ?st3 AND UV_HANDLE_BLOCKING_WRITES = 0"
      using fd nb by (simp_all add: stream_fd_def stream_flags_def set_write_def set_stream_def st2_def)
    from write_later_ok [OF ok3 this, of rounds] obtain st' where
      "write_later h rounds ?st3 = Some (None, st')" "writes_ok h rs st'" "wrote h ?st3 st' [] []" by blast
    moreover from this have "wrote h st st' ([] @ []) (?sent @ [])"
      using wrote_trans [OF ok3 w3, of st' "[]" "[]"] by simp
    ultimately show ?thesis using round False unfolding step_ok_def
      by (intro exI [of _ None] exI [of _ st'] exI [of _ "[]"] exI [of _ ?sent]) simp
  next
    case True
    define st4 where "st4 = uv__write_req_finish r ?st3"
    have st4: "st4 = ?st3\<lparr>the_loop := uv__io_feed h (the_loop st),
        stream_of := (stream_of st)(h := (stream_of st h)\<lparr>write_queue_size := write_queue_size (stream_of st h) - of_nat m,
          write_queue := qs, write_completed_queue := write_completed_queue (stream_of st h) @ [r]\<rparr>),
        write_of := (write_of st)(r := q\<lparr>write_index := i', bufs := None\<rparr>)\<rparr>"
      unfolding st4_def using finish_eq [of ?st3 r h] q0 wq2 by (simp add: set_write_def set_stream_def st2_def)
    have left4: "req_left st4 r = []" by (simp add: req_left_def st4)
    have l4: "same_loop st st4" by (simp add: st4 same_loop_def)
    have io4: "stream_io_ok h st4"
      using feed_stream_io [OF io, of h] stream_io_cong [of st4 "st\<lparr>the_loop := uv__io_feed h (the_loop st)\<rparr>" h] by (simp add: st4)
    have f4: "erase_writes h st4 = erase_writes h st" "write_of st4 = (write_of st)(r := q\<lparr>write_index := i', bufs := None\<rparr>)"
      "wire st4 h = wire st h @ ?sent" "write_queue (stream_of st4 h) = (if True then qs else r # qs)"
      "write_completed_queue (stream_of st4 h) = write_completed_queue (stream_of st h) @ (if True then [r] else [])"
      by (simp_all add: st4 set_write_def set_stream_def st2_def erase_writes_def q_def fun_eq_iff)
    have b4: "bufs_bytes st (req_left st4 r) = drop m (bufs_bytes st (req_left st r))"
      using i True by (simp add: left4)
    have g4: "mset (in_flight h rs st4) = mset (in_flight h rs st)" "set (write_queue (stream_of st4 h)) \<subseteq> set (write_queue (stream_of st h))"
      "r \<notin> set (write_queue (stream_of st4 h))"
      "write_queue_size (stream_of st4 h) = write_queue_size (stream_of st h) - of_nat m"
      "shutdown_req (stream_of st4 h) = shutdown_req (stream_of st h)"
      using q0 dq by (auto simp: st4 in_flight_def)
    have n4: "bufs_size (req_left st4 r) + m = bufs_size (req_left st r)" using i True by (simp add: left4)
    have ok4: "writes_ok h rs st4"
      by (rule writes_ok_step [OF ok r(2) io4 l4 g4(1,2) f4(2) _ _ n4 g4(4,5)]) (use g4(3) wq2 in simp_all)
    have w4: "wrote h st st4 (if True then [r] else []) ?sent"
      by (rule wrote_front [OF q0 dq l4 f4(1-3) b4 f4(4,5)]) (rule left4)
    have "req_error (write_of st4 r) = None" by (simp add: st4 wq2)
    then show ?thesis using round True ok4 w4 unfolding step_ok_def st4_def [symmetric]
      by (intro exI [of _ "if rounds > 0 then Some (rounds - 1) else None"] exI [of _ st4] exI [of _ "[r]"] exI [of _ ?sent]) simp
  qed
qed

lemma writes_ok_syscalls: "writes_ok h rs (st\<lparr>syscalls := c\<rparr>) = writes_ok h rs st"
proof -
  have "bytes_left (st\<lparr>syscalls := c\<rparr>) gs = bytes_left st gs" for gs by (rule bytes_left_cong) simp
  moreover have "waiting (st\<lparr>syscalls := c\<rparr>) r = waiting st r" for r by (simp add: waiting_def sendable_def uv__handle_fd_def stream_fd_def)
  ultimately show ?thesis by (simp add: writes_ok_def in_flight_def stream_io_ok_def stream_fd_def)
qed

lemma wrote_on:
  assumes "same_loop st1 (st1\<lparr>the_loop := l\<rparr>)"
  shows "wrote h st st1 fin sent \<Longrightarrow> wrote h st (st1\<lparr>the_loop := l\<rparr>) fin sent"
proof -
  let ?s = "st1\<lparr>the_loop := l\<rparr>"
  have b: "reqs_bytes ?s gs = reqs_bytes st1 gs" for gs by (rule reqs_bytes_cong) simp_all
  have e: "erase_writes h ?s = erase_writes h st1" using assms by (simp add: erase_writes_def same_loop_def)
  have q: "req_left ?s g = req_left st1 g" for g by (rule req_left_cong) simp
  have eq: "wrote h st ?s fin sent = wrote h st st1 fin sent" if "same_loop st st1"
    unfolding wrote_def b e q using that same_loop_trans [OF that assms] by simp
  assume w: "wrote h st st1 fin sent"
  then have "same_loop st st1" by (simp add: wrote_def)
  from eq [OF this] w show "wrote h st ?s fin sent" by (simp only:)
qed

lemma write_failed_step:
  assumes ok: "writes_ok h rs st" and q0: "write_queue (stream_of st h) = r # qs"
  shows "\<exists>st'. write_failed h r e st = Some st' \<and> writes_ok h rs st' \<and> wrote h st st' [r] []"
proof -
  have r: "r \<in> set (in_flight h rs st)" using q0 by (simp add: in_flight_def)
  have hd: "req_handle (write_of st r) = h" and io: "stream_io_ok h st" and dq: "distinct (r # qs)"
    using ok r q0 by (auto simp: writes_ok_def in_flight_def)
  let ?q = "(write_of st r)\<lparr>req_error := Some e\<rparr>"
  define st4 where "st4 = uv__write_req_finish r (set_write r ?q st)"
  have st4: "st4 = st\<lparr>the_loop := uv__io_feed h (the_loop st),
      stream_of := (stream_of st)(h := (stream_of st h)\<lparr>write_queue := qs,
        write_completed_queue := write_completed_queue (stream_of st h) @ [r]\<rparr>),
      write_of := (write_of st)(r := ?q)\<rparr>"
    unfolding st4_def using finish_eq [of "set_write r ?q st" r h] q0 hd by (simp add: set_write_def)
  have left4: "req_left st4 r = req_left st r" by (cases "bufs (write_of st r)") (simp_all add: req_left_def st4)
  have l4: "same_loop st st4" by (simp add: st4 same_loop_def)
  have io4: "stream_io_ok h st4"
    using feed_stream_io [OF io, of h] stream_io_cong [of st4 "st\<lparr>the_loop := uv__io_feed h (the_loop st)\<rparr>" h] by (simp add: st4)
  have f4: "erase_writes h st4 = erase_writes h st" "write_of st4 = (write_of st)(r := ?q)" "wire st4 h = wire st h @ take 0 (bufs_bytes st (req_left st r))"
    "write_queue (stream_of st4 h) = (if True then qs else r # qs)"
    "write_completed_queue (stream_of st4 h) = write_completed_queue (stream_of st h) @ (if True then [r] else [])"
    by (simp_all add: st4 erase_writes_def fun_eq_iff)
  have g4: "mset (in_flight h rs st4) = mset (in_flight h rs st)" "set (write_queue (stream_of st4 h)) \<subseteq> set (write_queue (stream_of st h))"
    "r \<notin> set (write_queue (stream_of st4 h))"
    "write_queue_size (stream_of st4 h) = write_queue_size (stream_of st h) - of_nat 0"
    "shutdown_req (stream_of st4 h) = shutdown_req (stream_of st h)"
    using q0 dq by (auto simp: st4 in_flight_def)
  have ok4: "writes_ok h rs st4"
    by (rule writes_ok_step [OF ok r io4 l4 g4(1,2) f4(2) _ _ _ g4(4,5)]) (use g4(3) hd left4 in simp_all)
  have b4: "bufs_bytes st (req_left st4 r) = drop 0 (bufs_bytes st (req_left st r))" by (simp add: left4)
  have "req_error ?q \<noteq> None" by simp
  then have w4: "wrote h st st4 (if True then [r] else []) (take 0 (bufs_bytes st (req_left st r)))"
    by (intro wrote_front [OF q0 dq l4 f4(1-3) b4 f4(4,5)]) simp
  obtain l where l: "on_loop (uv__io_stop h POLLOUT) st4 = Some (st4\<lparr>the_loop := l\<rparr>)" "stream_io_ok h (st4\<lparr>the_loop := l\<rparr>)"
      "same_loop st4 (st4\<lparr>the_loop := l\<rparr>)"
    using stop_stream_io [OF io4 POLLOUT_valid(1)] by blast
  have "wrote h st (st4\<lparr>the_loop := l\<rparr>) [r] []"
    using w4 wrote_on [OF l(3)] by simp
  then show ?thesis using l(1) writes_ok_loop [OF ok4 l(2,3)]
    by (simp add: write_failed_def st4_def)
qed

lemma wrote_nothing: "wrote h st st [] []"
  by (simp add: wrote_def)

lemma write_round_step:
  assumes ok: "writes_ok h rs st" and fd: "0 \<le> stream_fd h st" and nb: "stream_flags h st AND UV_HANDLE_BLOCKING_WRITES = 0"
    and k: "kernel_writes k"
  shows "\<exists>again st' fin sent. write_round k h rounds st = Some (again, st') \<and> step_ok h rs rounds st again st' fin sent"
proof (cases "write_queue (stream_of st h)")
  case Nil
  then have "write_round k h rounds st = Some (None, st)" by (simp add: write_round_def)
  then show ?thesis using ok wrote_nothing unfolding step_ok_def
    by (intro exI [of _ None] exI [of _ st] exI [of _ "[]"]) auto
next
  case (Cons r qs)
  have w: "waiting st r" "req_handle (write_of st r) = h" using ok Cons by (simp_all add: writes_ok_def in_flight_def)
  then obtain bs where b: "bufs (write_of st r) = Some bs" and s: "sendable st (send_handle (write_of st r))"
    by (auto simp: waiting_def)
  have left: "req_left st r = drop (write_index (write_of st r)) bs" using b by (simp add: req_left_def)
  let ?t = "uv__try_write k h (drop (write_index (write_of st r)) bs) (send_handle (write_of st r)) st"
  from try_write_cases [OF k s, of h "drop (write_index (write_of st r)) bs"] consider
    (sent) m c where "?t = Some (Inr m, st\<lparr>syscalls := c, wire := (wire st)(h := wire st h @ take m (bufs_bytes st (req_left st r)))\<rparr>)"
      "m \<le> bufs_size (req_left st r)"
  | (error) e c where "?t = Some (Inl e, st\<lparr>syscalls := c\<rparr>)" unfolding left by blast
  then show ?thesis
  proof cases
    case sent
    then show ?thesis by (rule write_round_sent [OF ok fd nb Cons b])
  next
    case error
    let ?s = "st\<lparr>syscalls := c\<rparr>"
    have ok1: "writes_ok h rs ?s" using ok by (simp add: writes_ok_syscalls)
    have w1: "wrote h st ?s [] []"
      using reqs_bytes_cong [of ?s st] by (simp add: wrote_def erase_writes_def)
    have f1: "0 \<le> stream_fd h ?s" "stream_flags h ?s AND UV_HANDLE_BLOCKING_WRITES = 0"
      using fd nb by (simp_all add: stream_fd_def stream_flags_def)
    show ?thesis
    proof (cases "e = UV_EAGAIN")
      case True
      from write_later_ok [OF ok1 f1, of rounds] obtain st' where
        st': "write_later h rounds ?s = Some (None, st')" "writes_ok h rs st'" "wrote h ?s st' [] []" by blast
      then show ?thesis using wrote_trans [OF ok1 w1 _ st'(3)] error True Cons w b unfolding step_ok_def
        by (intro exI [of _ None] exI [of _ st'] exI [of _ "[]"]) (simp add: write_round_def Let_def)
    next
      case False
      from write_failed_step [OF ok1, of r qs e] Cons obtain st' where
        st': "write_failed h r e ?s = Some st'" "writes_ok h rs st'" "wrote h ?s st' [r] []" by auto
      then show ?thesis using wrote_trans [OF ok1 w1 _ st'(3)] error False Cons w b unfolding step_ok_def
        by (intro exI [of _ None] exI [of _ st'] exI [of _ "[r]"] exI [of _ "[]"]) (simp add: write_round_def Let_def)
    qed
  qed
qed

lemma wrote_keeps:
  assumes "wrote h st st' fin sent"
  shows "stream_fd g st' = stream_fd g st" "stream_flags g st' = stream_flags g st"
    "connect_req (stream_of st' h) = connect_req (stream_of st h)" "shutdown_req (stream_of st' h) = shutdown_req (stream_of st h)"
    "memory st' = memory st" "stream_calls st' = stream_calls st" "handle (the_loop st') = handle (the_loop st)"
    "uv__handle_fd g st' = uv__handle_fd g st" "active_reqs (the_loop st') = active_reqs (the_loop st)"
  using assms same_loopD [of st st'] erase_writesD [of h st' st] by (simp_all add: wrote_def)

lemma write_loop_ok:
  assumes "writes_ok h rs st" "0 \<le> stream_fd h st" "stream_flags h st AND UV_HANDLE_BLOCKING_WRITES = 0" "kernel_writes k"
  shows "\<exists>st' fin sent. write_loop k h rounds st = Some st' \<and> writes_ok h rs st' \<and> wrote h st st' fin sent \<and>
    (\<forall>r \<in> set (butlast fin). req_error (write_of st' r) = None)"
  using assms
proof (induction rounds arbitrary: st rule: less_induct)
  case (less n)
  from write_round_step [OF less.prems, of n] obtain again st1 f1 s1 where
    round: "write_round k h n st = Some (again, st1)" and s1: "step_ok h rs n st again st1 f1 s1" by blast
  then have ok1: "writes_ok h rs st1" "wrote h st st1 f1 s1" by (simp_all add: step_ok_def)
  from s1 consider (stop) "again = None" "\<forall>r \<in> set (butlast f1). req_error (write_of st1 r) = None"
    | (go) "0 < n" "again = Some (n - 1)" "\<forall>r \<in> set f1. req_error (write_of st1 r) = None"
    unfolding step_ok_def by blast
  then show ?case
  proof cases
    case stop
    then have "write_loop k h n st = Some st1" using round by (subst write_loop.simps) simp
    then show ?thesis using ok1 stop by blast
  next
    case go
    from less.IH [of "n - 1" st1] go(1) ok1 less.prems(2-4) obtain st2 f2 s2 where
      st2: "write_loop k h (n - 1) st1 = Some st2" "writes_ok h rs st2" "wrote h st1 st2 f2 s2"
        "\<forall>r \<in> set (butlast f2). req_error (write_of st2 r) = None"
      by (auto simp: wrote_keeps(1,2) [OF ok1(2)])
    have "write_loop k h n st = Some st2" using round go(2) st2(1) by (subst write_loop.simps) simp
    moreover have "wrote h st st2 (f1 @ f2) (s1 @ s2)" by (rule wrote_trans [OF ok1(1,2) go(3) st2(3)])
    moreover have "\<forall>r \<in> set (butlast (f1 @ f2)). req_error (write_of st2 r) = None"
    proof -
      have d: "distinct (write_queue (stream_of st1 h) @ write_completed_queue (stream_of st1 h))"
        using ok1(1) by (simp add: writes_ok_def in_flight_def)
      have "write_of st2 r = write_of st1 r" if "r \<in> set f1" for r
      proof -
        have "set f1 \<subseteq> set (write_completed_queue (stream_of st1 h))" using ok1(2) by (simp add: wrote_def)
        then have "r \<notin> set (write_queue (stream_of st1 h))" using that d by auto
        then show ?thesis using st2(3) by (simp add: wrote_def)
      qed
      then show ?thesis using go(3) st2(4) by (auto simp: butlast_append dest: in_set_butlastD)
    qed
    ultimately show ?thesis using st2(2) by blast
  qed
qed

section \<open>Calling back\<close>

text \<open>Changes outside the requests and the sizes of the stream.\<close>

lemma writes_ok_queues:
  assumes ok: "writes_ok h rs st" and fl: "mset (in_flight h rs' st') = mset (in_flight h rs st)"
    and q: "\<And>r. r \<in> set (in_flight h rs st) \<Longrightarrow> req_handle (write_of st' r) = h \<and> req_left st' r = req_left st r"
    and w: "\<And>r. r \<in> set (write_queue (stream_of st' h)) \<Longrightarrow> waiting st' r"
    and s: "write_queue_size (stream_of st' h) = write_queue_size (stream_of st h)"
    and reqs: "one_if (shutdown_req (stream_of st' h)) + unat (active_reqs (the_loop st)) \<le>
      one_if (shutdown_req (stream_of st h)) + unat (active_reqs (the_loop st'))"
    and io: "stream_io_ok h st'"
  shows "writes_ok h rs' st'"
proof -
  have set: "set (in_flight h rs' st') = set (in_flight h rs st)" by (rule mset_eq_setD [OF fl])
  have len: "length (in_flight h rs' st') = length (in_flight h rs st)" by (rule mset_eq_length [OF fl])
  have d: "distinct (in_flight h rs' st')"
    by (rule mset_eq_imp_distinct_iff [OF fl, THEN iffD2]) (use ok in \<open>simp add: writes_ok_def\<close>)
  have "bytes_left st' (in_flight h rs' st') = bytes_left st' (in_flight h rs st)"
    unfolding bytes_left_def by (simp only: sum_mset_sum_list [symmetric] mset_map fl)
  also have "\<dots> = bytes_left st (in_flight h rs st)"
    unfolding bytes_left_def by (rule arg_cong [where f = sum_list], rule map_cong) (use q in auto)
  finally have b: "bytes_left st' (in_flight h rs' st') = bytes_left st (in_flight h rs st)" .
  have "length (in_flight h rs st) + one_if (shutdown_req (stream_of st h)) \<le> unat (active_reqs (the_loop st))" using ok by (simp add: writes_ok_def)
  then have "length (in_flight h rs' st') + one_if (shutdown_req (stream_of st' h)) \<le> unat (active_reqs (the_loop st'))" using reqs len by linarith
  then show ?thesis using ok d set q w s io b by (simp add: writes_ok_def)
qed

lemma writes_ok_calls: "writes_ok h rs (st\<lparr>stream_calls := c\<rparr>) = writes_ok h rs st"
proof -
  have "bytes_left (st\<lparr>stream_calls := c\<rparr>) gs = bytes_left st gs" for gs by (rule bytes_left_cong) simp
  moreover have "waiting (st\<lparr>stream_calls := c\<rparr>) r = waiting st r" for r by (simp add: waiting_def sendable_def uv__handle_fd_def stream_fd_def)
  ultimately show ?thesis by (simp add: writes_ok_def in_flight_def stream_io_ok_def stream_fd_def)
qed

lemma polling_ok_reqs: "polling_ok s \<Longrightarrow> polling_ok (s\<lparr>active_reqs := n\<rparr>)"
proof -
  have "used_slots (s\<lparr>active_reqs := n\<rparr>) = used_slots s" "shape_ok (s\<lparr>active_reqs := n\<rparr>) = shape_ok s"
    "registered (s\<lparr>active_reqs := n\<rparr>) = registered s" "interest (s\<lparr>active_reqs := n\<rparr>) = interest s"
    by (simp_all add: used_slots_def shape_ok_def registered_def fun_eq_iff interest_def)
  then show "polling_ok s \<Longrightarrow> ?thesis" by (simp add: polling_ok_def io_ok_def entries_ok_def synced_def)
qed

lemma stream_io_reqs: "stream_io_ok h st \<Longrightarrow> stream_io_ok h (st\<lparr>the_loop := (the_loop st)\<lparr>active_reqs := n\<rparr>\<rparr>)"
  by (simp add: stream_io_ok_def polling_ok_reqs stream_fd_def fd_free_def)

text \<open>A request taken off: it is no longer counted and its buffers are released.\<close>

lemma take_off:
  assumes ok: "writes_ok h (r # rs) st"
  shows "\<exists>st1 st2. on_loop uv__req_unregister st = Some st1 \<and> release_bufs h r st1 = Some st2 \<and> writes_ok h rs st2 \<and>
    the_loop st2 = (the_loop st)\<lparr>active_reqs := active_reqs (the_loop st) - 1\<rparr> \<and> stream_calls st2 = stream_calls st \<and> req_cb st2 = req_cb st \<and>
    (\<forall>g. write_cb (write_of st2 g) = write_cb (write_of st g) \<and> req_error (write_of st2 g) = req_error (write_of st g)) \<and>
    (\<forall>g. g \<noteq> r \<longrightarrow> write_of st2 g = write_of st g) \<and>
    stream_of st2 h = (stream_of st h)\<lparr>write_queue_size := write_queue_size (stream_of st2 h)\<rparr>"
proof -
  let ?n = "active_reqs (the_loop st)"
  have io: "stream_io_ok h st" and hd: "req_handle (write_of st r) = h"
    and len: "Suc (length (in_flight h rs st)) + one_if (shutdown_req (stream_of st h)) \<le> unat ?n"
    and d: "distinct (r # in_flight h rs st)" and size: "write_queue_size (stream_of st h) = of_nat (bytes_left st (r # in_flight h rs st))"
    and b: "bytes_left st (r # in_flight h rs st) < 2 ^ 64"
    and w: "\<forall>g \<in> set (write_queue (stream_of st h)). waiting st g" and hs: "\<forall>g \<in> set (in_flight h rs st). req_handle (write_of st g) = h"
    using ok by (simp_all add: writes_ok_def in_flight_def)
  have "unat ?n \<noteq> 0" using len by linarith
  then have n: "?n > 0" by (metis unat_0 word_gt_0)
  have un: "unat (?n - 1) = unat ?n - 1" using n by (simp add: unat_minus_one word_gt_0)
  let ?l = "(the_loop st)\<lparr>active_reqs := ?n - 1\<rparr>"
  let ?st1 = "st\<lparr>the_loop := ?l\<rparr>"
  have st1: "on_loop uv__req_unregister st = Some ?st1" using n by (simp add: on_loop_def uv__req_unregister_def uv__has_active_reqs_def)
  have left: "req_left ?st1 g = req_left st g" for g by (rule req_left_cong) simp
  let ?m = "bufs_size (req_left st r)"
  have le: "of_nat ?m \<le> write_queue_size (stream_of st h)"
    unfolding size using b by (simp add: word_le_nat_alt unat_of_nat take_bit_nat_eq_self del: of_nat_add)
  define q where "q = (if bufs (write_of st r) = None then write_of st r else (write_of st r)\<lparr>bufs := None\<rparr>)"
  define st2 where "st2 = st\<lparr>the_loop := ?l, write_of := (write_of st)(r := q),
    stream_of := (stream_of st)(h := (stream_of st h)\<lparr>write_queue_size := write_queue_size (stream_of st h) - of_nat ?m\<rparr>)\<rparr>"
  have rel: "release_bufs h r ?st1 = Some st2"
  proof (cases "bufs (write_of st r)")
    case None
    then have "?m = 0" by (simp add: req_left_def)
    then show ?thesis using None by (simp add: release_bufs_def st2_def q_def)
  next
    case (Some bs)
    then have l: "drop (write_index (write_of st r)) bs = req_left st r" by (simp add: req_left_def)
    then have "uv__write_req_size r ?st1 = Some (of_nat ?m)"
      using Some hd le by (simp add: uv__write_req_size_def Let_def count_bufs)
    then show ?thesis using Some by (simp add: release_bufs_def st2_def q_def set_stream_def set_write_def Let_def)
  qed
  have fl: "in_flight h rs st2 = in_flight h rs st" by (simp add: in_flight_def st2_def)
  have out: "g \<noteq> r" if "g \<in> set (in_flight h rs st)" for g using d that by auto
  have bl: "bytes_left st2 (in_flight h rs st) = bytes_left st (in_flight h rs st)"
    by (rule bytes_left_cong) (use out in \<open>auto simp: st2_def\<close>)
  have io2: "stream_io_ok h st2"
    using stream_io_reqs [OF io, of "?n - 1"] stream_io_cong [of st2 ?st1 h] by (simp add: st2_def)
  have "waiting st2 g" if "g \<in> set (write_queue (stream_of st h))" for g
  proof -
    have "g \<noteq> r" using out [of g] that by (simp add: in_flight_def)
    then show ?thesis using w that
      by (auto simp: waiting_def st2_def sendable_def uv__is_closing_def uv__handle_fd_def stream_fd_def)
  qed
  then have "writes_ok h rs st2" unfolding writes_ok_def fl
    using d bl size b io2 len un out hs by (simp add: st2_def)
  then show ?thesis using st1 rel by (intro exI [of _ ?st1] exI [of _ st2]) (simp add: st2_def q_def)
qed

text \<open>
  What a program may do in the callbacks of a stream: it keeps the invariant, it leaves the
  requests that are still to be called back alone, and on a stream that is closed it changes
  nothing the library still uses.
\<close>

definition calm :: "ptr \<Rightarrow> streams \<Rightarrow> bool" where
  "calm h st \<longleftrightarrow> stream_flags h st AND UV_HANDLE_BLOCKING_WRITES = 0"

definition shut_down :: "ptr \<Rightarrow> streams \<Rightarrow> bool" where
  "shut_down h st \<longleftrightarrow> stream_flags h st AND UV_HANDLE_CLOSING \<noteq> 0 \<and> stream_fd h st < 0"

definition untouched :: "ptr \<Rightarrow> streams \<Rightarrow> streams \<Rightarrow> bool" where
  "untouched h st st' \<longleftrightarrow> the_loop st' = the_loop st \<and> stream_of st' h = stream_of st h \<and>
     (\<forall>r \<in> set (in_flight h [] st). write_of st' r = write_of st r) \<and>
     req_cb st' (shutdown_req (stream_of st h)) = req_cb st (shutdown_req (stream_of st h))"

locale stream_contract =
  fixes client :: stream_client and h :: ptr
  assumes keeps: "writes_ok h rs st \<Longrightarrow> calm h st \<Longrightarrow>
    \<exists>st'. on_call client c st = Some st' \<and> writes_ok h rs st' \<and> calm h st' \<and> stream_calls st' = stream_calls st \<and>
      (\<forall>r \<in> set rs. write_of st' r = write_of st r) \<and> (shut_down h st \<longrightarrow> untouched h st st')"
begin

lemma notified:
  assumes "writes_ok h rs st" "calm h st"
  shows "\<exists>st'. notify client c st = Some st' \<and> writes_ok h rs st' \<and> calm h st' \<and> stream_calls st' = stream_calls st @ [c] \<and>
      (\<forall>r \<in> set rs. write_of st' r = write_of st r) \<and> (shut_down h st \<longrightarrow> untouched h st st')"
proof -
  let ?s = "st\<lparr>stream_calls := stream_calls st @ [c]\<rparr>"
  have "writes_ok h rs ?s" "calm h ?s" using assms by (simp_all add: writes_ok_calls calm_def stream_flags_def)
  from keeps [OF this, of c] obtain st' where st':
    "on_call client c ?s = Some st'" "writes_ok h rs st'" "calm h st'" "stream_calls st' = stream_calls ?s"
      "\<forall>r \<in> set rs. write_of st' r = write_of ?s r" "shut_down h ?s \<longrightarrow> untouched h ?s st'" by blast
  then show ?thesis
    by (intro exI [of _ st']) (simp add: notify_def shut_down_def untouched_def in_flight_def stream_flags_def stream_fd_def)
qed

lemma callbacks_in_order:
  "writes_ok h rs st \<Longrightarrow> calm h st \<Longrightarrow>
   \<exists>st'. run_write_callbacks client h rs st = Some st' \<and> writes_ok h [] st' \<and> calm h st' \<and>
     stream_calls st' = stream_calls st @
       map (\<lambda>r. Write_cb r (req_error (write_of st r))) (filter (\<lambda>r. write_cb (write_of st r) \<noteq> NULL) rs) \<and>
     (shut_down h st \<longrightarrow> shut_down h st' \<and> write_queue (stream_of st' h) = write_queue (stream_of st h) \<and>
       write_completed_queue (stream_of st' h) = write_completed_queue (stream_of st h) \<and>
       shutdown_req (stream_of st' h) = shutdown_req (stream_of st h) \<and> stream_flags h st' = stream_flags h st \<and>
       req_cb st' (shutdown_req (stream_of st h)) = req_cb st (shutdown_req (stream_of st h)) \<and>
       unat (active_reqs (the_loop st')) + length rs = unat (active_reqs (the_loop st)))"
proof (induction rs arbitrary: st)
  case Nil
  then show ?case by simp
next
  case (Cons r rs)
  from take_off [OF Cons.prems(1)] obtain st1 st2 where
    off: "on_loop uv__req_unregister st = Some st1" "release_bufs h r st1 = Some st2" "writes_ok h rs st2"
      "the_loop st2 = (the_loop st)\<lparr>active_reqs := active_reqs (the_loop st) - 1\<rparr>" "stream_calls st2 = stream_calls st"
      "\<forall>g. write_cb (write_of st2 g) = write_cb (write_of st g) \<and> req_error (write_of st2 g) = req_error (write_of st g)"
      "\<forall>g. g \<noteq> r \<longrightarrow> write_of st2 g = write_of st g" "req_cb st2 = req_cb st"
    and so: "stream_of st2 h = (stream_of st h)\<lparr>write_queue_size := write_queue_size (stream_of st2 h)\<rparr>" by blast
  have so': "write_queue (stream_of st2 h) = write_queue (stream_of st h)" "connect_req (stream_of st2 h) = connect_req (stream_of st h)"
    "write_completed_queue (stream_of st2 h) = write_completed_queue (stream_of st h)"
    "shutdown_req (stream_of st2 h) = shutdown_req (stream_of st h)" by (subst so, simp)+
  have rr: "r \<notin> set rs" using Cons.prems(1) by (simp add: writes_ok_def in_flight_def)
  have "unat (active_reqs (the_loop st)) \<ge> 1" using Cons.prems(1) by (simp add: writes_ok_def in_flight_def)
  then have ar: "unat (active_reqs (the_loop st) - 1) + 1 = unat (active_reqs (the_loop st))"
    by (metis add.commute le_add_diff_inverse not_one_le_zero unat_0 unat_minus_one)
  have fl: "stream_flags h st2 = stream_flags h st" "stream_fd h st2 = stream_fd h st"
    by (simp_all add: off(4) stream_flags_def stream_fd_def)
  then have calm2: "calm h st2" and sd2: "shut_down h st2 = shut_down h st" using Cons.prems(2) by (simp_all add: calm_def shut_down_def)
  let ?c = "if write_cb (write_of st r) \<noteq> NULL then [Write_cb r (req_error (write_of st r))] else []"
  obtain st3 where st3: "(if write_cb (write_of st r) \<noteq> NULL then notify client (Write_cb r (req_error (write_of st r))) st2 else Some st2) = Some st3"
      "writes_ok h rs st3" "calm h st3" "stream_calls st3 = stream_calls st @ ?c" "\<forall>g \<in> set rs. write_of st3 g = write_of st2 g"
      "shut_down h st \<longrightarrow> untouched h st2 st3"
  proof (cases "write_cb (write_of st r) = NULL")
    case True then show ?thesis using that [of st2] off(3,5) calm2 by (simp add: untouched_def)
  next
    case False
    from notified [OF off(3) calm2, of "Write_cb r (req_error (write_of st r))"] show ?thesis using that False off(5) sd2 by auto
  qed
  from Cons.IH [OF st3(2,3)] obtain st4 where st4: "run_write_callbacks client h rs st3 = Some st4" "writes_ok h [] st4" "calm h st4"
      "stream_calls st4 = stream_calls st3 @
        map (\<lambda>r. Write_cb r (req_error (write_of st3 r))) (filter (\<lambda>r. write_cb (write_of st3 r) \<noteq> NULL) rs)"
      "shut_down h st3 \<longrightarrow> shut_down h st4 \<and> write_queue (stream_of st4 h) = write_queue (stream_of st3 h) \<and>
       write_completed_queue (stream_of st4 h) = write_completed_queue (stream_of st3 h) \<and>
       shutdown_req (stream_of st4 h) = shutdown_req (stream_of st3 h) \<and> stream_flags h st4 = stream_flags h st3 \<and>
       req_cb st4 (shutdown_req (stream_of st3 h)) = req_cb st3 (shutdown_req (stream_of st3 h)) \<and>
       unat (active_reqs (the_loop st4)) + length rs = unat (active_reqs (the_loop st3))" by blast
  have same: "write_of st3 g = write_of st g" if "g \<in> set rs" for g using that st3(5) off(7) rr by auto
  have "filter (\<lambda>r. write_cb (write_of st3 r) \<noteq> NULL) rs = filter (\<lambda>r. write_cb (write_of st r) \<noteq> NULL) rs"
    by (rule filter_cong [OF refl]) (simp add: same)
  then have log: "map (\<lambda>r. Write_cb r (req_error (write_of st3 r))) (filter (\<lambda>r. write_cb (write_of st3 r) \<noteq> NULL) rs) =
      map (\<lambda>r. Write_cb r (req_error (write_of st r))) (filter (\<lambda>r. write_cb (write_of st r) \<noteq> NULL) rs)"
    using same by (intro map_cong) auto
  have u: "the_loop st3 = the_loop st2" "stream_of st3 h = stream_of st2 h"
      "req_cb st3 (shutdown_req (stream_of st h)) = req_cb st (shutdown_req (stream_of st h))" if "shut_down h st"
    using st3(6) that off(8) so' by (simp_all add: untouched_def)
  have sd3: "shut_down h st3" if "shut_down h st"
    using that u(1) [OF that] fl by (simp add: shut_down_def stream_flags_def stream_fd_def)
  have "run_write_callbacks client h (r # rs) st = Some st4" using off(1,2) st3(1) st4(1) off(6) by (auto split: if_splits)
  moreover have "stream_calls st4 = stream_calls st @
       map (\<lambda>r. Write_cb r (req_error (write_of st r))) (filter (\<lambda>r. write_cb (write_of st r) \<noteq> NULL) (r # rs))"
    using st4(4) st3(4) log by simp
  moreover have "unat (active_reqs (the_loop st4)) + length (r # rs) = unat (active_reqs (the_loop st))" if "shut_down h st"
    using st4(5) sd3 [OF that] u(1) [OF that] off(4) ar by simp
  moreover have "stream_flags h st3 = stream_flags h st" if "shut_down h st" using u(1) [OF that] fl by (simp add: stream_flags_def)
  ultimately show ?case using st4(2,3,5) sd3 u so' by (intro exI [of _ st4]) auto
qed

end

lemma flush_taken_eq:
  "flush_taken e rs st = st\<lparr>write_of := (\<lambda>r. if r \<in> set rs then (write_of st r)\<lparr>req_error := Some e\<rparr> else write_of st r)\<rparr>"
  by (induction rs arbitrary: st) (auto simp: set_write_def fun_eq_iff)

lemma flush_ok:
  fixes e :: uv_errno
  assumes ok: "writes_ok h [] st" and st': "st' = uv__stream_flush_write_queue h e st"
  shows "writes_ok h [] st'" "write_queue (stream_of st' h) = []"
    "write_completed_queue (stream_of st' h) = write_completed_queue (stream_of st h) @ write_queue (stream_of st h)"
    "write_of st' r = (if r \<in> set (write_queue (stream_of st h)) then (write_of st r)\<lparr>req_error := Some e\<rparr> else write_of st r)"
    "the_loop st' = the_loop st" "stream_calls st' = stream_calls st" "req_cb st' = req_cb st"
    "connect_req (stream_of st' h) = connect_req (stream_of st h)" "shutdown_req (stream_of st' h) = shutdown_req (stream_of st h)"
proof -
  have eq: "st' = (set_stream h ((stream_of st h)\<lparr>write_queue := [],
      write_completed_queue := write_completed_queue (stream_of st h) @ write_queue (stream_of st h)\<rparr>) st)
      \<lparr>write_of := (\<lambda>r. if r \<in> set (write_queue (stream_of st h)) then (write_of st r)\<lparr>req_error := Some e\<rparr> else write_of st r)\<rparr>"
    unfolding st' uv__stream_flush_write_queue_def Let_def flush_taken_eq by (simp add: set_stream_def cong: if_cong)
  show facts: "write_queue (stream_of st' h) = []"
    "write_completed_queue (stream_of st' h) = write_completed_queue (stream_of st h) @ write_queue (stream_of st h)"
    "write_of st' r = (if r \<in> set (write_queue (stream_of st h)) then (write_of st r)\<lparr>req_error := Some e\<rparr> else write_of st r)"
    "the_loop st' = the_loop st" "stream_calls st' = stream_calls st" "req_cb st' = req_cb st"
    "connect_req (stream_of st' h) = connect_req (stream_of st h)" "shutdown_req (stream_of st' h) = shutdown_req (stream_of st h)"
    for r by (simp_all add: eq set_stream_def)
  have "req_left st' g = req_left st g" for g by (cases "bufs (write_of st g)") (simp_all add: req_left_def facts(3))
  moreover have "stream_io_ok h st'" using ok stream_io_cong [OF facts(4), of h] by (simp add: writes_ok_def)
  moreover have "write_queue_size (stream_of st' h) = write_queue_size (stream_of st h)" by (simp add: eq set_stream_def)
  ultimately show "writes_ok h [] st'"
    using ok by (intro writes_ok_queues [OF ok]) (auto simp: facts in_flight_def writes_ok_def)
qed

text \<open>With the queue moved to the stack, the requests on it are those to be called back.\<close>

lemma move_completed:
  assumes ok: "writes_ok h [] st"
  defines "st' \<equiv> set_stream h ((stream_of st h)\<lparr>write_completed_queue := []\<rparr>) st"
  shows "writes_ok h (write_completed_queue (stream_of st h)) st'"
proof -
  have "req_left st' g = req_left st g" for g by (rule req_left_cong) (simp add: st'_def set_stream_def)
  moreover have "waiting st' g = waiting st g" for g
    by (simp add: st'_def set_stream_def waiting_def sendable_def uv__handle_fd_def stream_fd_def)
  moreover have "stream_io_ok h st'" using ok stream_io_cong [of st' st h] by (simp add: writes_ok_def st'_def set_stream_def)
  ultimately show ?thesis
    using ok by (intro writes_ok_queues [OF ok]) (auto simp: st'_def set_stream_def in_flight_def writes_ok_def)
qed

context stream_contract begin

lemma write_callbacks_run:
  assumes "writes_ok h [] st" "calm h st"
  shows "\<exists>st'. uv__write_callbacks client h st = Some st' \<and> writes_ok h [] st' \<and> calm h st' \<and>
     stream_calls st' = stream_calls st @ map (\<lambda>r. Write_cb r (req_error (write_of st r)))
       (filter (\<lambda>r. write_cb (write_of st r) \<noteq> NULL) (write_completed_queue (stream_of st h))) \<and>
     (shut_down h st \<longrightarrow> shut_down h st' \<and> write_queue (stream_of st' h) = write_queue (stream_of st h) \<and>
       write_completed_queue (stream_of st' h) = [] \<and>
       shutdown_req (stream_of st' h) = shutdown_req (stream_of st h) \<and> stream_flags h st' = stream_flags h st \<and>
       req_cb st' (shutdown_req (stream_of st h)) = req_cb st (shutdown_req (stream_of st h)) \<and>
       unat (active_reqs (the_loop st')) + length (write_completed_queue (stream_of st h)) = unat (active_reqs (the_loop st)))"
proof -
  let ?s = "set_stream h ((stream_of st h)\<lparr>write_completed_queue := []\<rparr>) st"
  have c: "calm h ?s" "shut_down h ?s = shut_down h st"
    using assms(2) by (simp_all add: calm_def shut_down_def stream_flags_def stream_fd_def set_stream_def)
  from callbacks_in_order [OF move_completed [OF assms(1)] c(1)] show ?thesis
    unfolding uv__write_callbacks_def Let_def c(2) by (simp add: set_stream_def stream_flags_def)
qed

text \<open>The end of a stream that is closed.\<close>

lemma drain_closed:
  assumes ok: "writes_ok h [] st" and calm: "calm h st" and sd: "shut_down h st" and q: "write_queue (stream_of st h) = []"
    and c: "write_completed_queue (stream_of st h) = []"
  shows "\<exists>st'. uv__drain k client h st = Some st' \<and> writes_ok h [] st' \<and> in_flight h [] st' = [] \<and>
     stream_calls st' = stream_calls st @ (if shutdown_req (stream_of st h) \<noteq> NULL \<and> req_cb st (shutdown_req (stream_of st h)) \<noteq> NULL
       then [Shutdown_cb (shutdown_req (stream_of st h)) (Some UV_ECANCELED)] else []) \<and>
     unat (active_reqs (the_loop st')) + one_if (shutdown_req (stream_of st h)) = unat (active_reqs (the_loop st))"
proof (cases "shutdown_req (stream_of st h) = NULL")
  case True
  then show ?thesis using sd q c ok
    by (intro exI [of _ st]) (simp add: uv__drain_def shut_down_def uv__is_stream_shutting_def one_if_def in_flight_def)
next
  case False
  let ?r = "shutdown_req (stream_of st h)" let ?n = "active_reqs (the_loop st)"
  have len: "one_if ?r \<le> unat ?n" using ok by (simp add: writes_ok_def)
  then have "unat ?n \<noteq> 0" using False by (simp add: one_if_def)
  then have n: "?n > 0" by (metis unat_0 word_gt_0)
  have un: "unat (?n - 1) + 1 = unat ?n" using n \<open>unat ?n \<noteq> 0\<close> by (simp add: unat_minus_one word_gt_0)
  define st1 where "st1 = (set_stream h ((stream_of st h)\<lparr>shutdown_req := NULL\<rparr>) st)\<lparr>the_loop := (the_loop st)\<lparr>active_reqs := ?n - 1\<rparr>\<rparr>"
  have io: "stream_io_ok h st1"
    using ok stream_io_reqs [of h st "?n - 1"] stream_io_cong [of st1 "st\<lparr>the_loop := (the_loop st)\<lparr>active_reqs := ?n - 1\<rparr>\<rparr>" h]
    by (simp add: writes_ok_def st1_def set_stream_def)
  have ok1: "writes_ok h [] st1"
    by (rule writes_ok_queues [OF ok _ _ _ _ _ io])
      (use q c un False in \<open>simp_all add: st1_def set_stream_def in_flight_def one_if_def\<close>)
  have f1: "stream_flags h st1 = stream_flags h st" "stream_fd h st1 = stream_fd h st"
    by (simp_all add: st1_def set_stream_def stream_flags_def stream_fd_def)
  have dr: "uv__drain k client h st = (if req_cb st ?r \<noteq> NULL then notify client (Shutdown_cb ?r (Some UV_ECANCELED)) st1 else Some st1)"
    using sd q False n f1 unfolding uv__drain_def shut_down_def
    by (simp add: uv__is_stream_shutting_def Let_def on_loop_def uv__req_unregister_def uv__has_active_reqs_def st1_def set_stream_def stream_flags_def)
  have fl1: "in_flight h [] st1 = []" using q c by (simp add: st1_def set_stream_def in_flight_def)
  have a1: "unat (active_reqs (the_loop st1)) + one_if ?r = unat ?n" "stream_calls st1 = stream_calls st" "calm h st1" "shut_down h st1"
    using un False calm sd f1 by (simp_all add: st1_def set_stream_def one_if_def calm_def shut_down_def)
  show ?thesis
  proof (cases "req_cb st ?r = NULL")
    case True then show ?thesis using dr ok1 fl1 a1 by simp
  next
    case nz: False
    from notified [OF ok1 a1(3), of "Shutdown_cb ?r (Some UV_ECANCELED)"] obtain st' where
      st': "notify client (Shutdown_cb ?r (Some UV_ECANCELED)) st1 = Some st'" "writes_ok h [] st'"
        "stream_calls st' = stream_calls st @ [Shutdown_cb ?r (Some UV_ECANCELED)]" "untouched h st1 st'"
      using a1(2,4) by auto
    then have "in_flight h [] st' = []" "the_loop st' = the_loop st1" using fl1 by (simp_all add: untouched_def in_flight_def)
    then show ?thesis using dr nz st' False a1(1) by simp
  qed
qed

end

context stream_contract begin

lemma destroy_run:
  assumes ok: "writes_ok h [] st" and calm: "calm h st" and sd: "shut_down h st" and closed: "stream_flags h st AND UV_HANDLE_CLOSED \<noteq> 0"
    and idle: "pevents (io (the_loop st) h) AND (POLLIN OR POLLOUT) = 0"
    and reqs: "length (in_flight h [] st) + one_if (connect_req (stream_of st h)) + one_if (shutdown_req (stream_of st h))
      \<le> unat (active_reqs (the_loop st))"
  shows "\<exists>st'. uv__stream_destroy k client h st = Some st' \<and> in_flight h [] st' = [] \<and> write_queue_size (stream_of st' h) = 0 \<and>
    unat (active_reqs (the_loop st')) + length (in_flight h [] st) + one_if (connect_req (stream_of st h)) +
      one_if (shutdown_req (stream_of st h)) = unat (active_reqs (the_loop st)) \<and>
    stream_calls st' = stream_calls st @
      (if connect_req (stream_of st h) \<noteq> NULL then [Connect_cb (connect_req (stream_of st h)) (Some UV_ECANCELED)] else []) @
      map (\<lambda>r. Write_cb r (req_error (write_of st r)))
        (filter (\<lambda>r. write_cb (write_of st r) \<noteq> NULL) (write_completed_queue (stream_of st h))) @
      map (\<lambda>r. Write_cb r (Some UV_ECANCELED)) (filter (\<lambda>r. write_cb (write_of st r) \<noteq> NULL) (write_queue (stream_of st h))) @
      (if shutdown_req (stream_of st h) \<noteq> NULL \<and> req_cb st (shutdown_req (stream_of st h)) \<noteq> NULL
       then [Shutdown_cb (shutdown_req (stream_of st h)) (Some UV_ECANCELED)] else [])"
proof -
  let ?c = "connect_req (stream_of st h)" let ?n = "active_reqs (the_loop st)"
  have active: "uv__io_active h (POLLIN OR POLLOUT) (the_loop st) = Some False"
    using idle by (simp add: uv__io_active_def events_valid_def all_events_def POLLIN_def POLLOUT_def UV__POLLPRI_def UV__POLLRDHUP_def)
  obtain st1 where st1: "(if ?c \<noteq> NULL then
             Option.bind (on_loop uv__req_unregister st) (\<lambda>st.
             map_option (\<lambda>st. set_stream h ((stream_of st h)\<lparr>connect_req := NULL\<rparr>) st)
               (notify client (Connect_cb (connect_req (stream_of st h)) (Some UV_ECANCELED)) st))
           else Some st) = Some st1"
      "writes_ok h [] st1" "calm h st1" "shut_down h st1"
      "stream_calls st1 = stream_calls st @ (if ?c \<noteq> NULL then [Connect_cb ?c (Some UV_ECANCELED)] else [])"
      "write_queue (stream_of st1 h) = write_queue (stream_of st h)"
      "write_completed_queue (stream_of st1 h) = write_completed_queue (stream_of st h)"
      "shutdown_req (stream_of st1 h) = shutdown_req (stream_of st h)"
      "req_cb st1 (shutdown_req (stream_of st h)) = req_cb st (shutdown_req (stream_of st h))"
      "\<forall>r \<in> set (in_flight h [] st). write_of st1 r = write_of st r"
      "unat (active_reqs (the_loop st1)) + one_if ?c = unat ?n"
  proof (cases "?c = NULL")
    case True
    then show ?thesis using that [of st] ok calm sd by (simp add: one_if_def)
  next
    case False
    have "unat ?n \<noteq> 0" using reqs False by (simp add: one_if_def)
    then have n: "?n > 0" by (metis unat_0 word_gt_0)
    have un: "unat (?n - 1) + 1 = unat ?n" using n \<open>unat ?n \<noteq> 0\<close> by (simp add: unat_minus_one word_gt_0)
    let ?s = "st\<lparr>the_loop := (the_loop st)\<lparr>active_reqs := ?n - 1\<rparr>\<rparr>"
    have io: "stream_io_ok h ?s" using ok stream_io_reqs [of h st "?n - 1"] by (simp add: writes_ok_def)
    have wt: "waiting ?s r = waiting st r" for r
      by (simp add: waiting_def sendable_def uv__handle_fd_def stream_fd_def uv__is_closing_def)
    have lf: "req_left ?s r = req_left st r" for r by (rule req_left_cong) simp
    have bl: "bytes_left ?s gs = bytes_left st gs" for gs by (rule bytes_left_cong) simp
    have oks: "writes_ok h [] ?s"
      using ok io wt bl reqs un False by (simp add: writes_ok_def in_flight_def one_if_def)
    have cs: "calm h ?s" "shut_down h ?s" using calm sd by (simp_all add: calm_def shut_down_def stream_flags_def stream_fd_def)
    from notified [OF oks cs(1), of "Connect_cb ?c (Some UV_ECANCELED)"] cs(2) obtain st0 where
      st0: "notify client (Connect_cb ?c (Some UV_ECANCELED)) ?s = Some st0" "writes_ok h [] st0" "calm h st0"
        "stream_calls st0 = stream_calls st @ [Connect_cb ?c (Some UV_ECANCELED)]" "untouched h ?s st0" by auto
    have u: "the_loop st0 = the_loop ?s" "stream_of st0 h = stream_of st h" "\<forall>r \<in> set (in_flight h [] st). write_of st0 r = write_of st r"
      "req_cb st0 (shutdown_req (stream_of st h)) = req_cb st (shutdown_req (stream_of st h))"
      using st0(5) by (simp_all add: untouched_def in_flight_def)
    let ?t = "set_stream h ((stream_of st0 h)\<lparr>connect_req := NULL\<rparr>) st0"
    have wt: "waiting ?t r = waiting st0 r" for r
      by (simp add: set_stream_def waiting_def sendable_def uv__handle_fd_def stream_fd_def)
    have bl: "bytes_left ?t gs = bytes_left st0 gs" for gs by (rule bytes_left_cong) (simp add: set_stream_def)
    have iot: "stream_io_ok h ?t = stream_io_ok h st0" by (rule stream_io_cong) (simp add: set_stream_def)
    have okt: "writes_ok h [] ?t" using st0(2) wt bl iot by (simp add: writes_ok_def in_flight_def set_stream_def)
    have ct: "calm h ?t" "shut_down h ?t" using cs u(1) by (simp_all add: calm_def shut_down_def stream_flags_def stream_fd_def set_stream_def)
    show ?thesis
      by (rule that [of ?t]) (use False n st0 okt ct u un in \<open>simp_all add: on_loop_def uv__req_unregister_def uv__has_active_reqs_def set_stream_def one_if_def\<close>)
  qed
  define st2 where "st2 = uv__stream_flush_write_queue h UV_ECANCELED st1"
  note f = flush_ok [OF st1(2) st2_def]
  have c2: "calm h st2" "shut_down h st2" using st1(3,4) f(5) by (simp_all add: calm_def shut_down_def stream_flags_def stream_fd_def)
  from write_callbacks_run [OF f(1) c2(1)] c2(2) obtain st3 where
    st3: "uv__write_callbacks client h st2 = Some st3" "writes_ok h [] st3" "calm h st3" "shut_down h st3"
      "stream_calls st3 = stream_calls st2 @ map (\<lambda>r. Write_cb r (req_error (write_of st2 r)))
       (filter (\<lambda>r. write_cb (write_of st2 r) \<noteq> NULL) (write_completed_queue (stream_of st2 h)))"
      "write_queue (stream_of st3 h) = []" "write_completed_queue (stream_of st3 h) = []"
      "shutdown_req (stream_of st3 h) = shutdown_req (stream_of st2 h)"
      "req_cb st3 (shutdown_req (stream_of st2 h)) = req_cb st2 (shutdown_req (stream_of st2 h))"
      "unat (active_reqs (the_loop st3)) + length (write_completed_queue (stream_of st2 h)) = unat (active_reqs (the_loop st2))"
    using f(2) by auto
  from drain_closed [OF st3(2-4,6,7), of k] obtain st4 where
    st4: "uv__drain k client h st3 = Some st4" "writes_ok h [] st4" "in_flight h [] st4 = []"
     "stream_calls st4 = stream_calls st3 @ (if shutdown_req (stream_of st3 h) \<noteq> NULL \<and> req_cb st3 (shutdown_req (stream_of st3 h)) \<noteq> NULL
       then [Shutdown_cb (shutdown_req (stream_of st3 h)) (Some UV_ECANCELED)] else [])"
     "unat (active_reqs (the_loop st4)) + one_if (shutdown_req (stream_of st3 h)) = unat (active_reqs (the_loop st3))" by blast
  have size: "write_queue_size (stream_of st4 h) = 0" using st4(2,3) by (simp add: writes_ok_def)
  have dis: "r \<notin> set (write_queue (stream_of st h))" if "r \<in> set (write_completed_queue (stream_of st h))" for r
    using ok that by (auto simp: writes_ok_def in_flight_def)
  have w2: "write_of st2 r = (if r \<in> set (write_queue (stream_of st h)) then (write_of st r)\<lparr>req_error := Some UV_ECANCELED\<rparr> else write_of st r)"
    if "r \<in> set (in_flight h [] st)" for r
    using f(4) [of r] st1(6,10) that by simp
  have log: "map (\<lambda>r. Write_cb r (req_error (write_of st2 r))) (filter (\<lambda>r. write_cb (write_of st2 r) \<noteq> NULL) (write_completed_queue (stream_of st2 h))) =
      map (\<lambda>r. Write_cb r (req_error (write_of st r)))
        (filter (\<lambda>r. write_cb (write_of st r) \<noteq> NULL) (write_completed_queue (stream_of st h))) @
      map (\<lambda>r. Write_cb r (Some UV_ECANCELED)) (filter (\<lambda>r. write_cb (write_of st r) \<noteq> NULL) (write_queue (stream_of st h)))"
    (is "?l = ?a @ ?b")
  proof -
    have "map (\<lambda>r. Write_cb r (req_error (write_of st2 r))) (filter (\<lambda>r. write_cb (write_of st2 r) \<noteq> NULL) (write_completed_queue (stream_of st h))) = ?a"
      using w2 dis by (intro map_cong filter_cong) (auto simp: in_flight_def)
    moreover have "map (\<lambda>r. Write_cb r (req_error (write_of st2 r))) (filter (\<lambda>r. write_cb (write_of st2 r) \<noteq> NULL) (write_queue (stream_of st h))) = ?b"
      using w2 by (intro map_cong filter_cong) (auto simp: in_flight_def)
    ultimately show ?thesis using f(3) st1(6,7) by simp
  qed
  have "uv__stream_destroy k client h st = Some st4"
    unfolding uv__stream_destroy_def using active closed st1(1) st3(1) st4(1) size by (simp add: st2_def [symmetric])
  moreover have "unat (active_reqs (the_loop st4)) + length (in_flight h [] st) + one_if ?c + one_if (shutdown_req (stream_of st h)) = unat ?n"
    using st4(5) st3(8,10) st1(6-8,11) f(3,5,9) by (simp add: in_flight_def)
  ultimately show ?thesis using st4(3,4) st3(5,8,9) f(6,7,9) st1(5,8,9) size log by simp
qed

end

section \<open>The interface for programs\<close>

text \<open>
  A program that calls the library on the stream from its callbacks: it writes with requests it
  has not used on the stream before, tries to write, and shuts the stream down. A call whose
  preconditions do not hold is left out.
\<close>

datatype stream_op = Do_write ptr "uv_buf list" ptr | Do_try_write "uv_buf list" | Do_shutdown ptr ptr

definition op_legal :: "ptr \<Rightarrow> stream_op \<Rightarrow> streams \<Rightarrow> bool" where
  "op_legal h op st \<longleftrightarrow> htype (handle (the_loop st) h) \<in> {UV_TCP, UV_NAMED_PIPE, UV_TTY} \<and>
     unat (active_reqs (the_loop st)) + 1 < 2 ^ 32 \<and>
     (case op of
        Do_write r bs cb \<Rightarrow> bs \<noteq> [] \<and> req_handle (write_of st r) \<noteq> h \<and>
          unat (write_queue_size (stream_of st h)) + bufs_size bs < 2 ^ 64
      | Do_try_write bs \<Rightarrow> bs \<noteq> []
      | Do_shutdown r cb \<Rightarrow> r \<noteq> NULL \<and> (0 \<le> stream_fd h st \<or> uv__is_closing h (the_loop st)))"

definition exec_op :: "stream_system \<Rightarrow> ptr \<Rightarrow> stream_op \<Rightarrow> streams \<Rightarrow> streams option" where
  "exec_op k h op st =
     (if op_legal h op st then
        (case op of
           Do_write r bs cb \<Rightarrow> map_option snd (uv_write_to k r h bs cb st)
         | Do_try_write bs \<Rightarrow> map_option snd (uv_try_write k h bs st)
         | Do_shutdown r cb \<Rightarrow> map_option snd (uv_shutdown r h cb st))
      else Some st)"

fun exec_ops :: "stream_system \<Rightarrow> ptr \<Rightarrow> stream_op list \<Rightarrow> streams \<Rightarrow> streams option" where
  "exec_ops k h [] st = Some st"
| "exec_ops k h (op # ops) st = Option.bind (exec_op k h op st) (exec_ops k h ops)"

definition api_client :: "stream_system \<Rightarrow> ptr \<Rightarrow> (stream_call \<Rightarrow> stream_op list) \<Rightarrow> stream_client" where
  "api_client k h prog = \<lparr>on_call = (\<lambda>c. exec_ops k h (prog c)), on_alloc = (\<lambda>_ _ st. Some (\<lparr>buf_base = NULL, buf_len = 0\<rparr>, st))\<rparr>"

text \<open>A request that is put on the queue.\<close>

lemma enqueue_ok:
  assumes ok: "writes_ok h rs st" and r: "req_handle (write_of st r) \<noteq> h" and bs: "bs \<noteq> []"
    and size: "unat (write_queue_size (stream_of st h)) + bufs_size bs < 2 ^ 64"
    and n: "unat (active_reqs (the_loop st)) + 1 < 2 ^ 32"
    and q: "q = (write_of st r)\<lparr>write_cb := cb, req_handle := h, req_error := None, send_handle := NULL,
        bufs := Some bs, nbufs := length bs, write_index := 0\<rparr>"
    and st': "st' = st\<lparr>the_loop := uv__req_register (the_loop st), write_of := (write_of st)(r := q),
      stream_of := (stream_of st)(h := (stream_of st h)\<lparr>write_queue_size := write_queue_size (stream_of st h) + uv__count_bufs bs,
        write_queue := write_queue (stream_of st h) @ [r]\<rparr>)\<rparr>"
  shows "writes_ok h rs st'"
proof -
  have out: "r \<notin> set (in_flight h rs st)" using ok r by (auto simp: writes_ok_def)
  have sz: "unat (write_queue_size (stream_of st h)) = bytes_left st (in_flight h rs st)" by (rule writes_ok_size [OF ok])
  have fl: "in_flight h rs st' = rs @ (write_queue (stream_of st h) @ [r]) @ write_completed_queue (stream_of st h)"
    by (simp add: st' in_flight_def)
  have set: "set (in_flight h rs st') = insert r (set (in_flight h rs st))" unfolding fl by (auto simp: in_flight_def)
  have left: "req_left st' r = bs" by (simp add: req_left_def st' q)
  have same: "bytes_left st' gs = bytes_left st gs" if "r \<notin> set gs" for gs
    by (rule bytes_left_cong) (use that in \<open>auto simp: st'\<close>)
  have b: "bytes_left st' (in_flight h rs st') = bytes_left st (in_flight h rs st) + bufs_size bs"
    using out left same unfolding fl by (simp add: in_flight_def)
  have un: "unat (active_reqs (the_loop st) + 1) = unat (active_reqs (the_loop st)) + 1"
    using n by (simp add: unat_word_ariths)
  have io: "stream_io_ok h st'"
    using ok stream_io_reqs [of h st "active_reqs (the_loop st) + 1"] stream_io_cong [of st' "st\<lparr>the_loop := uv__req_register (the_loop st)\<rparr>" h]
    by (simp add: writes_ok_def st' uv__req_register_def)
  have w: "waiting st' g" if "g \<in> set (write_queue (stream_of st' h))" for g
  proof (cases "g = r")
    case True
    then show ?thesis using bs by (simp add: waiting_def st' q sendable_def)
  next
    case False
    then have "waiting st g" using that ok by (simp add: st' writes_ok_def)
    moreover have "sendable st' x = sendable st x" for x
      by (simp add: st' sendable_def uv__is_closing_def uv__handle_fd_def stream_fd_def uv__req_register_def)
    moreover have "write_of st' g = write_of st g" using False by (simp add: st')
    ultimately show ?thesis by (simp add: waiting_def)
  qed
  have "distinct (in_flight h rs st')" using ok out unfolding fl by (auto simp: writes_ok_def in_flight_def)
  moreover have "write_queue_size (stream_of st' h) = of_nat (bytes_left st' (in_flight h rs st'))"
    using ok unfolding b by (simp add: writes_ok_def st' count_bufs)
  moreover have "length (in_flight h rs st') = length (in_flight h rs st) + 1" unfolding fl by (simp add: in_flight_def)
  ultimately show ?thesis using ok io w size sz set b un
    unfolding writes_ok_def by (simp add: st' q uv__req_register_def)
qed

lemma write_ok:
  assumes ok: "writes_ok h rs st" and calm: "calm h st" and k: "kernel_writes k" and leg: "op_legal h (Do_write r bs cb) st"
  shows "\<exists>err st'. uv_write_to k r h bs cb st = Some (err, st') \<and> writes_ok h rs st' \<and> calm h st' \<and>
    stream_calls st' = stream_calls st \<and> (\<forall>g \<in> set rs. write_of st' g = write_of st g) \<and>
    (err \<noteq> None \<longrightarrow> wire st' = wire st \<and> stream_of st' = stream_of st) \<and> (stream_fd h st < 0 \<longrightarrow> st' = st) \<and>
    (stream_fd h st < 0 \<longrightarrow> err = Some UV_EBADF)"
proof -
  have l: "htype (handle (the_loop st) h) \<in> {UV_TCP, UV_NAMED_PIPE, UV_TTY}" "unat (active_reqs (the_loop st)) + 1 < 2 ^ 32" "bs \<noteq> []"
     "req_handle (write_of st r) \<noteq> h" "unat (write_queue_size (stream_of st h)) + bufs_size bs < 2 ^ 64"
    using leg by (simp_all add: op_legal_def)
  have rs: "r \<notin> set rs" using ok l(4) by (auto simp: writes_ok_def in_flight_def)
  have check: "uv__check_before_write h (length bs) NULL st =
      Some (if stream_fd h st < 0 then Some UV_EBADF else if stream_flags h st AND UV_HANDLE_WRITABLE = 0 then Some UV_EPIPE else None)"
    using l by (simp add: uv__check_before_write_def)
  consider (fail) "stream_fd h st < 0 \<or> stream_flags h st AND UV_HANDLE_WRITABLE = 0"
    | (go) "0 \<le> stream_fd h st" "stream_flags h st AND UV_HANDLE_WRITABLE \<noteq> 0" by linarith
  then show ?thesis
  proof cases
    case fail
    then obtain e where "uv_write_to k r h bs cb st = Some (Some e, st)" "stream_fd h st < 0 \<longrightarrow> e = UV_EBADF"
      using check by (cases "stream_fd h st < 0") (simp_all add: uv_write_to_def uv_write2_def)
    then show ?thesis using ok calm by simp
  next
    case go
    let ?q = "(write_of st r)\<lparr>write_cb := cb, req_handle := h, req_error := None, send_handle := NULL\<rparr>"
    let ?q' = "?q\<lparr>bufs := Some bs, nbufs := length bs, write_index := 0\<rparr>"
    define st1 where "st1 = st\<lparr>the_loop := uv__req_register (the_loop st), write_of := (write_of st)(r := ?q'),
      stream_of := (stream_of st)(h := (stream_of st h)\<lparr>write_queue_size := write_queue_size (stream_of st h) + uv__count_bufs bs,
        write_queue := write_queue (stream_of st h) @ [r]\<rparr>)\<rparr>"
    have ok1: "writes_ok h rs st1" by (rule enqueue_ok [OF ok l(4,3,5,2) _ st1_def]) simp
    have f1: "stream_fd h st1 = stream_fd h st" "stream_flags h st1 = stream_flags h st" "stream_calls st1 = stream_calls st"
      "connect_req (stream_of st1 h) = connect_req (stream_of st h)" "\<forall>g. g \<noteq> r \<longrightarrow> write_of st1 g = write_of st g"
      "write_queue (stream_of st1 h) = write_queue (stream_of st h) @ [r]"
      by (simp_all add: st1_def stream_fd_def stream_flags_def uv__req_register_def)
    have nb: "stream_flags h st1 AND UV_HANDLE_BLOCKING_WRITES = 0" using calm f1 by (simp add: calm_def)
    show ?thesis
    proof (cases "length bs > 4 \<and> \<not> malloc_ok k (length bs)")
      case True
      let ?s = "st\<lparr>the_loop := uv__req_register (the_loop st), write_of := (write_of st)(r := ?q\<lparr>bufs := None\<rparr>)\<rparr>"
      have "uv_write_to k r h bs cb st = Some (Some UV_ENOMEM, ?s)"
        using check go True by (simp add: uv_write_to_def uv_write2_def Let_def set_write_def not_less)
      moreover have "writes_ok h rs ?s"
      proof (rule writes_ok_queues [OF ok])
        have out: "g \<noteq> r" if "g \<in> set (in_flight h rs st)" for g using that ok l(4) by (auto simp: writes_ok_def)
        show "req_handle (write_of ?s g) = h \<and> req_left ?s g = req_left st g" if "g \<in> set (in_flight h rs st)" for g
          using out [OF that] that ok req_left_cong [of ?s g st] by (simp add: writes_ok_def)
        show "waiting ?s g" if "g \<in> set (write_queue (stream_of ?s h))" for g
          using that out [of g] ok by (auto simp: in_flight_def writes_ok_def waiting_def sendable_def uv__is_closing_def
              uv__handle_fd_def stream_fd_def uv__req_register_def)
        show "stream_io_ok h ?s"
          using ok stream_io_reqs [of h st "active_reqs (the_loop st) + 1"]
            stream_io_cong [of ?s "st\<lparr>the_loop := uv__req_register (the_loop st)\<rparr>" h] by (simp add: writes_ok_def uv__req_register_def)
      qed (use l(2) in \<open>simp_all add: in_flight_def uv__req_register_def unat_word_ariths\<close>)
      ultimately show ?thesis using calm rs go by (auto simp: calm_def stream_flags_def uv__req_register_def)
    next
      case False
      have w2: "uv_write_to k r h bs cb st = map_option (Pair None)
         (if connect_req (stream_of st h) \<noteq> NULL then Some st1
          else if write_queue_size (stream_of st h) = 0 then uv__write k h st1
          else on_loop (uv__io_start h POLLOUT) st1)"
      proof -
        have m: "(length bs > 4 \<and> \<not> malloc_ok k (length bs)) = False" using False by blast
        have eq: "set_stream h ((stream_of st h)\<lparr>write_queue_size := write_queue_size (stream_of st h) + uv__count_bufs bs,
            write_queue := write_queue (stream_of st h) @ [r]\<rparr>) (set_write r ?q' (st\<lparr>the_loop := uv__req_register (the_loop st)\<rparr>)) = st1"
          by (simp add: st1_def set_stream_def set_write_def)
        show ?thesis unfolding uv_write_to_def uv_write2_def Let_def m
          by (cases "write_queue_size (stream_of st h) = 0")
            (use check go f1(4) nb eq in \<open>simp_all add: set_write_def not_less\<close>)
      qed
      have g: "0 \<le> stream_fd h st1" using go f1 by simp
      have "\<exists>st2 fin sent. (if connect_req (stream_of st h) \<noteq> NULL then Some st1
          else if write_queue_size (stream_of st h) = 0 then uv__write k h st1
          else on_loop (uv__io_start h POLLOUT) st1) = Some st2 \<and> writes_ok h rs st2 \<and> wrote h st1 st2 fin sent"
      proof (cases "connect_req (stream_of st h) \<noteq> NULL \<or> write_queue_size (stream_of st h) \<noteq> 0")
        case True
        have io: "stream_io_ok h st1" using ok1 by (simp add: writes_ok_def)
        from start_stream_io [OF io POLLOUT_valid(1) g] obtain l where l:
          "on_loop (uv__io_start h POLLOUT) st1 = Some (st1\<lparr>the_loop := l\<rparr>)" "stream_io_ok h (st1\<lparr>the_loop := l\<rparr>)" "same_loop st1 (st1\<lparr>the_loop := l\<rparr>)"
          by blast
        show ?thesis using True l(1) writes_ok_loop [OF ok1 l(2,3)] wrote_loop [OF l(3), of h] ok1 wrote_nothing [of h st1]
          by (cases "connect_req (stream_of st h) = NULL"; simp; blast)
      next
        case False
        from write_loop_ok [OF ok1 g nb k, of 32] show ?thesis using False g by (auto simp: uv__write_def)
      qed
      then obtain st2 fin sent where st2: "uv_write_to k r h bs cb st = Some (None, st2)" "writes_ok h rs st2" "wrote h st1 st2 fin sent"
        using w2 by auto
      have "write_of st2 g = write_of st g" if "g \<in> set rs" for g
      proof -
        have "g \<notin> set (write_queue (stream_of st1 h))" using ok1 that by (auto simp: writes_ok_def in_flight_def)
        then show ?thesis using st2(3) f1(5) that rs by (auto simp: wrote_def)
      qed
      then show ?thesis using st2 f1(2,3) wrote_keeps(2,6) [OF st2(3)] calm go(1) by (simp add: calm_def)
    qed
  qed
qed

lemma waiting_cong:
  assumes "\<And>g. uv__is_closing g (the_loop st') = uv__is_closing g (the_loop st)"
    "\<And>g. htype (handle (the_loop st') g) = htype (handle (the_loop st) g)"
    "\<And>g. fd (io (the_loop st') g) = fd (io (the_loop st) g)" "write_of st' r = write_of st r"
  shows "waiting st' r = waiting st r"
proof -
  have "sendable st' x = sendable st x" for x by (simp add: sendable_def uv__handle_fd_def stream_fd_def assms(1-3))
  then show ?thesis by (simp add: waiting_def assms(4))
qed

lemma try_write_ok:
  assumes ok: "writes_ok h rs st" and calm: "calm h st" and k: "kernel_writes k" and leg: "op_legal h (Do_try_write bs) st"
  shows "\<exists>res st'. uv_try_write k h bs st = Some (res, st') \<and> writes_ok h rs st' \<and> calm h st' \<and>
    stream_calls st' = stream_calls st \<and> write_of st' = write_of st \<and> (stream_fd h st < 0 \<longrightarrow> st' = st)"
proof -
  have check: "uv__check_before_write h (length bs) NULL st =
      Some (if stream_fd h st < 0 then Some UV_EBADF else if stream_flags h st AND UV_HANDLE_WRITABLE = 0 then Some UV_EPIPE else None)"
    using leg by (simp add: op_legal_def uv__check_before_write_def)
  have keep: "writes_ok h rs (st\<lparr>syscalls := c, wire := w\<rparr>)" for c w
  proof (rule writes_ok_queues [OF ok])
    let ?s = "st\<lparr>syscalls := c, wire := w\<rparr>"
    show "req_handle (write_of ?s g) = h \<and> req_left ?s g = req_left st g" if "g \<in> set (in_flight h rs st)" for g
      using that ok req_left_cong [of ?s g st] by (simp add: writes_ok_def)
    show "waiting ?s g" if "g \<in> set (write_queue (stream_of ?s h))" for g
      using that ok waiting_cong [of ?s st g] by (simp add: writes_ok_def)
    show "stream_io_ok h ?s" using ok stream_io_cong [of ?s st h] by (simp add: writes_ok_def)
  qed (simp_all add: in_flight_def)
  have s: "sendable st NULL" by (simp add: sendable_def)
  have eq: "uv_try_write k h bs st =
      (if connect_req (stream_of st h) \<noteq> NULL \<or> write_queue_size (stream_of st h) \<noteq> 0 then Some (Inl UV_EAGAIN, st)
       else if stream_fd h st < 0 then Some (Inl UV_EBADF, st)
       else if stream_flags h st AND UV_HANDLE_WRITABLE = 0 then Some (Inl UV_EPIPE, st) else uv__try_write k h bs NULL st)"
    by (simp add: uv_try_write_def uv_try_write2_def check)
  consider (fail) e where "uv_try_write k h bs st = Some (Inl e, st)"
    | (go) "0 \<le> stream_fd h st" "uv_try_write k h bs st = uv__try_write k h bs NULL st"
    unfolding eq using not_less by (metis (full_types))
  then show ?thesis
  proof cases
    case fail then show ?thesis using ok calm by simp
  next
    case go
    from try_write_cases [OF k s, of h bs] obtain res c w where
      "uv__try_write k h bs NULL st = Some (res, st\<lparr>syscalls := c, wire := w\<rparr>)"
    proof (elim disjE exE conjE)
      fix m c assume "uv__try_write k h bs NULL st = Some (Inr m, st\<lparr>syscalls := c, wire := (wire st)(h := wire st h @ take m (bufs_bytes st bs))\<rparr>)"
      then show thesis by (rule that)
    next
      fix e c assume "uv__try_write k h bs NULL st = Some (Inl e, st\<lparr>syscalls := c\<rparr>)"
      then show thesis using that [where w = "wire st"] by simp
    qed
    then show ?thesis using go keep calm by (simp add: calm_def stream_flags_def)
  qed
qed

lemma polling_ok_handle: "polling_ok s \<Longrightarrow> polling_ok (s\<lparr>handle := f\<rparr>)"
proof -
  have "used_slots (s\<lparr>handle := f\<rparr>) = used_slots s" "shape_ok (s\<lparr>handle := f\<rparr>) = shape_ok s"
    "registered (s\<lparr>handle := f\<rparr>) = registered s" "interest (s\<lparr>handle := f\<rparr>) = interest s"
    by (simp_all add: used_slots_def shape_ok_def registered_def fun_eq_iff interest_def)
  then show "polling_ok s \<Longrightarrow> ?thesis" by (simp add: polling_ok_def io_ok_def entries_ok_def synced_def)
qed

lemma polling_ok_flags: "polling_ok s \<Longrightarrow> polling_ok (set_flags h w s)"
  by (simp add: set_flags_def polling_ok_handle)

text \<open>The bits that the functions of a stream test.\<close>

lemma stream_flag_bits:
  "UV_HANDLE_SHUT = 2 ^ 9" "UV_HANDLE_READ_PARTIAL = 2 ^ 10" "UV_HANDLE_READ_EOF = 2 ^ 11" "UV_HANDLE_READING = 2 ^ 12"
  "UV_HANDLE_BOUND = 2 ^ 13" "UV_HANDLE_READABLE = 2 ^ 14" "UV_HANDLE_WRITABLE = 2 ^ 15" "UV_HANDLE_BLOCKING_WRITES = 2 ^ 20"
  by (simp_all add: UV_HANDLE_SHUT_def UV_HANDLE_READ_PARTIAL_def UV_HANDLE_READ_EOF_def UV_HANDLE_READING_def
      UV_HANDLE_BOUND_def UV_HANDLE_READABLE_def UV_HANDLE_WRITABLE_def UV_HANDLE_BLOCKING_WRITES_def)

lemma stream_flag_test:
  "w AND UV_HANDLE_SHUT = 0 \<longleftrightarrow> \<not> bit w 9" "w AND UV_HANDLE_READ_PARTIAL = 0 \<longleftrightarrow> \<not> bit w 10"
  "w AND UV_HANDLE_READ_EOF = 0 \<longleftrightarrow> \<not> bit w 11" "w AND UV_HANDLE_READING = 0 \<longleftrightarrow> \<not> bit w 12"
  "w AND UV_HANDLE_READABLE = 0 \<longleftrightarrow> \<not> bit w 14" "w AND UV_HANDLE_WRITABLE = 0 \<longleftrightarrow> \<not> bit w 15"
  "w AND UV_HANDLE_BLOCKING_WRITES = 0 \<longleftrightarrow> \<not> bit w 20"
  by (simp_all only: stream_flag_bits and_power_u32)

lemma shutdown_ok:
  assumes ok: "writes_ok h rs st" and calm: "calm h st" and leg: "op_legal h (Do_shutdown r cb) st"
  shows "\<exists>err st'. uv_shutdown r h cb st = Some (err, st') \<and> writes_ok h rs st' \<and> calm h st' \<and>
    stream_calls st' = stream_calls st \<and> write_of st' = write_of st \<and> (shut_down h st \<longrightarrow> st' = st)"
proof (cases "stream_flags h st AND UV_HANDLE_WRITABLE = 0 \<or> stream_flags h st AND UV_HANDLE_SHUT \<noteq> 0 \<or>
    uv__is_stream_shutting h st \<or> uv__is_closing h (the_loop st)")
  case True
  then have "uv_shutdown r h cb st = Some (Some UV_ENOTCONN, st)" using leg by (auto simp: uv_shutdown_def op_legal_def)
  then show ?thesis using ok calm by simp
next
  case False
  have l: "unat (active_reqs (the_loop st)) + 1 < 2 ^ 32" "0 \<le> stream_fd h st" "r \<noteq> NULL" using leg False by (auto simp: op_legal_def)
  have nsd: "\<not> shut_down h st" using l by (simp add: shut_down_def)
  let ?l = "set_flags h (stream_flags h st AND NOT UV_HANDLE_WRITABLE) (uv__req_register (the_loop st))"
  define st1 where "st1 = st\<lparr>the_loop := ?l, req_cb := (req_cb st)(r := cb),
     stream_of := (stream_of st)(h := (stream_of st h)\<lparr>shutdown_req := r\<rparr>)\<rparr>"
  have fl: "flags (handle ?l g) = (if g = h then stream_flags h st AND NOT UV_HANDLE_WRITABLE else flags (handle (the_loop st) g))"
    "htype (handle ?l g) = htype (handle (the_loop st) g)" for g
    by (simp_all add: set_flags_def uv__req_register_def)
  have "bit (stream_flags h st AND NOT UV_HANDLE_WRITABLE) n \<longleftrightarrow> bit (stream_flags h st) n \<and> n \<noteq> 15" for n
    unfolding stream_flag_bits bit_and_iff bit_not_iff bit_power_u32 by (auto dest: bit_imp_le_length)
  then have bits: "bit (flags (handle ?l g)) n \<longleftrightarrow> bit (flags (handle (the_loop st) g)) n \<and> (g = h \<longrightarrow> n \<noteq> 15)" for g n
    unfolding fl by (simp add: stream_flags_def)
  have cl: "uv__is_closing g ?l = uv__is_closing g (the_loop st)" for g by (simp add: is_bits bits)
  have calm1: "stream_flags h (st\<lparr>the_loop := ?l\<rparr>) AND UV_HANDLE_BLOCKING_WRITES = 0"
    using calm bits [of h 20] by (simp add: calm_def stream_flags_def stream_flag_test)
  have ok1: "writes_ok h rs st1"
  proof (rule writes_ok_queues [OF ok])
    show "req_handle (write_of st1 g) = h \<and> req_left st1 g = req_left st g" if "g \<in> set (in_flight h rs st)" for g
      using that ok req_left_cong [of st1 g st] by (simp add: writes_ok_def st1_def)
    have io: "io ?l = io (the_loop st)" by (simp add: set_flags_def uv__req_register_def)
    show "waiting st1 g" if "g \<in> set (write_queue (stream_of st1 h))" for g
      using that ok waiting_cong [of st1 st g] by (simp add: writes_ok_def st1_def cl fl(2) io)
    have "polling_ok ?l" using ok polling_ok_flags polling_ok_reqs
      by (simp add: writes_ok_def stream_io_ok_def uv__req_register_def)
    then show "stream_io_ok h st1"
      using ok by (simp add: writes_ok_def stream_io_ok_def stream_fd_def st1_def io fd_free_def) (simp add: set_flags_def uv__req_register_def)
  qed (use False l in \<open>simp_all add: in_flight_def st1_def one_if_def uv__is_stream_shutting_def set_flags_def uv__req_register_def unat_word_ariths\<close>)
  let ?st2 = "if write_queue (stream_of st h) = [] then st1\<lparr>the_loop := uv__io_feed h (the_loop st1)\<rparr> else st1"
  have "uv_shutdown r h cb st = Some (None, ?st2)"
    using False l leg unfolding uv_shutdown_def op_legal_def st1_def
    by (auto simp: Let_def set_stream_def set_stream_flags_def stream_flags_def uv__req_register_def cong: if_cong)
  moreover have "writes_ok h rs ?st2"
    using ok1 writes_ok_loop [OF ok1 feed_stream_io feed_same_loop, of h] by (simp add: writes_ok_def)
  moreover have "calm h ?st2" using calm1 by (simp add: calm_def stream_flags_def st1_def uv__io_feed_def)
  ultimately show ?thesis using nsd by (simp add: st1_def)
qed

lemma exec_op_ok:
  assumes "writes_ok h rs st" "calm h st" "kernel_writes k"
  shows "\<exists>st'. exec_op k h op st = Some st' \<and> writes_ok h rs st' \<and> calm h st' \<and> stream_calls st' = stream_calls st \<and>
    (\<forall>r \<in> set rs. write_of st' r = write_of st r) \<and> (shut_down h st \<longrightarrow> st' = st)"
proof (cases "op_legal h op st")
  case False
  then show ?thesis using assms by (simp add: exec_op_def)
next
  case True
  have sd: "shut_down h st \<Longrightarrow> stream_fd h st < 0" by (simp add: shut_down_def)
  show ?thesis
  proof (cases op)
    case (Do_write r bs cb)
    from write_ok [OF assms True [unfolded Do_write]] show ?thesis using True sd
      by (auto simp: exec_op_def Do_write)
  next
    case (Do_try_write bs)
    from try_write_ok [OF assms True [unfolded Do_try_write]] show ?thesis using True sd
      by (auto simp: exec_op_def Do_try_write)
  next
    case (Do_shutdown r cb)
    from shutdown_ok [OF assms(1,2) True [unfolded Do_shutdown]] show ?thesis using True
      by (auto simp: exec_op_def Do_shutdown)
  qed
qed

lemma exec_ops_ok:
  assumes "writes_ok h rs st" "calm h st" "kernel_writes k"
  shows "\<exists>st'. exec_ops k h ops st = Some st' \<and> writes_ok h rs st' \<and> calm h st' \<and> stream_calls st' = stream_calls st \<and>
    (\<forall>r \<in> set rs. write_of st' r = write_of st r) \<and> (shut_down h st \<longrightarrow> st' = st)"
  using assms
proof (induction ops arbitrary: st)
  case (Cons op ops)
  from exec_op_ok [OF Cons.prems, of op] obtain st1 where st1: "exec_op k h op st = Some st1" "writes_ok h rs st1" "calm h st1"
    "stream_calls st1 = stream_calls st" "\<forall>r \<in> set rs. write_of st1 r = write_of st r" "shut_down h st \<longrightarrow> st1 = st" by blast
  from Cons.IH [OF st1(2,3) Cons.prems(3)] show ?case using st1 by auto
qed simp

text \<open>
  A system that meets the hypotheses of \<open>kernel_writes\<close>: any that does, and one that takes
  nothing otherwise.
\<close>

definition reliable :: "stream_system \<Rightarrow> stream_system" where
  "reliable k = (if kernel_writes k then k else k\<lparr>sys_write := \<lambda>_ _ _ _. Inr 0\<rparr>)"

lemma reliable_writes: "kernel_writes (reliable k)"
  by (simp add: reliable_def kernel_writes_def settled_def)

lemma reliable_id: "kernel_writes k \<Longrightarrow> reliable k = k"
  by (simp add: reliable_def)

interpretation api: stream_contract "api_client (reliable k) h prog" h for k h prog
proof
  fix rs st c assume "writes_ok h rs st" "calm h st"
  from exec_ops_ok [OF this reliable_writes, of k "prog c"]
  show "\<exists>st'. on_call (api_client (reliable k) h prog) c st = Some st' \<and> writes_ok h rs st' \<and>
      calm h st' \<and> stream_calls st' = stream_calls st \<and> (\<forall>r \<in> set rs. write_of st' r = write_of st r) \<and>
      (shut_down h st \<longrightarrow> untouched h st st')"
    by (auto simp: api_client_def untouched_def)
qed

lemma op_legal_code [code]:
  "op_legal h op st \<longleftrightarrow> htype (handle (the_loop st) h) \<in> {UV_TCP, UV_NAMED_PIPE, UV_TTY} \<and>
     uint (active_reqs (the_loop st)) + 1 < 4294967296 \<and>
     (case op of
        Do_write r bs cb \<Rightarrow> bs \<noteq> [] \<and> req_handle (write_of st r) \<noteq> h \<and>
          uint (write_queue_size (stream_of st h)) + int (bufs_size bs) < 18446744073709551616
      | Do_try_write bs \<Rightarrow> bs \<noteq> []
      | Do_shutdown r cb \<Rightarrow> r \<noteq> NULL \<and> (0 \<le> stream_fd h st \<or> uv__is_closing h (the_loop st)))"
proof -
  have "unat w + 1 < 2 ^ 32 \<longleftrightarrow> uint w + 1 < 4294967296" for w :: u32
  proof -
    have "(2::nat) ^ 32 = 4294967296" by simp
    then show ?thesis unfolding uint_nat by linarith
  qed
  moreover have "unat w + n < 2 ^ 64 \<longleftrightarrow> uint w + int n < 18446744073709551616" for w :: u64 and n
  proof -
    have "(2::nat) ^ 64 = 18446744073709551616" by simp
    then show ?thesis unfolding uint_nat by linarith
  qed
  ultimately show ?thesis unfolding op_legal_def by (cases op) simp_all
qed

section \<open>A stream with a kernel that takes two bytes at a time\<close>

definition two_bytes :: stream_system where
  "two_bytes = \<lparr>sys_write = (\<lambda>_ d _ _. Inr (min 2 (length d))), sys_read = (\<lambda>_ _ _. Inl UV_EAGAIN), sys_shutdown = (\<lambda>_ _. Inr ()),
     so_error = (\<lambda>_ _. So_ok), sys_listen = (\<lambda>_ _. None), iov_max = 1024, tcp_options = (\<lambda>_ _. None), udp_reuse = (\<lambda>_. None),
     udp_connected = (\<lambda>_. False), malloc_ok = (\<lambda>_. True),
     descriptors = (\<lambda>_. plain_system)\<rparr>"

definition new_stream :: uv_stream where
  "new_stream = \<lparr>write_queue_size = 0, write_queue = [], write_completed_queue = [], connect_req = NULL, shutdown_req = NULL,
     delayed_error = None, accepted_fd = -1, queued_fds = None, alloc_cb = NULL, read_cb = NULL, connection_cb = NULL, ipc = False\<rparr>"

definition stream_loop :: uv_loop where
  "stream_loop = (let s = new_loop (\<lambda>_. 0)
     in s\<lparr>io := (io s)(5 := \<lparr>io_cb = Uv__stream_io, pevents = 0, events = 0, fd = 3\<rparr>),
          handle := (handle s)(5 := \<lparr>htype = UV_TCP, flags = UV_HANDLE_REF OR UV_HANDLE_WRITABLE, close_cb = NULL\<rparr>)\<rparr>)"

definition one_stream :: streams where
  "one_stream = \<lparr>the_loop = stream_loop, emfile_fd = -1, stream_of = (\<lambda>_. new_stream),
     write_of = (\<lambda>_. \<lparr>req_handle = NULL, write_cb = NULL, req_error = None, send_handle = NULL, bufs = None, nbufs = 0, write_index = 0\<rparr>),
     req_cb = (\<lambda>_. NULL), memory = of_nat, wire = (\<lambda>_. []), syscalls = 0, fd_events = [], stream_calls = []\<rparr>"

lemma two_bytes_writes: "kernel_writes two_bytes"
  by (simp add: kernel_writes_def two_bytes_def settled_def)

lemma one_stream_ok: "writes_ok 5 [] one_stream" "calm 5 one_stream"
proof -
  let ?n = "new_loop (\<lambda>_. 0)"
  from io_init_ok [OF new_loop_polling(1), where w = 5 and cb = Uv__stream_io and f = 3] have
    "polling_ok (?n\<lparr>io := (io ?n)(5 := \<lparr>io_cb = Uv__stream_io, pevents = 0, events = 0, fd = 3\<rparr>)\<rparr>)"
    by (auto simp: new_loop_def)
  then have "polling_ok stream_loop" unfolding stream_loop_def Let_def by (rule polling_ok_handle)
  then have "stream_io_ok 5 one_stream"
    by (simp add: stream_io_ok_def one_stream_def stream_fd_def fd_free_def) (simp add: stream_loop_def Let_def new_loop_def)
  then show "writes_ok 5 [] one_stream"
    by (simp add: writes_ok_def in_flight_def) (simp add: one_stream_def new_stream_def one_if_def)
  show "calm 5 one_stream" by code_simp
qed

text \<open>Three bytes of which one waits.\<close>

definition half_written :: streams where
  "half_written = snd (the (uv_write_to two_bytes 7 5 [\<lparr>buf_base = 100, buf_len = 3\<rparr>] 9 one_stream))"

lemma half_written_facts:
  "map_option fst (uv_write_to two_bytes 7 5 [\<lparr>buf_base = 100, buf_len = 3\<rparr>] 9 one_stream) = Some None"
  "op_legal 5 (Do_write 7 [\<lparr>buf_base = 100, buf_len = 3\<rparr>] 9) one_stream"
  by code_simp+

lemma half_written_ok: "writes_ok 5 [] half_written" "calm 5 half_written"
  using write_ok [OF one_stream_ok two_bytes_writes half_written_facts(2)] by (auto simp: half_written_def)

lemma half_written_state:
  "wire half_written 5 = [100, 101]" "write_queue (stream_of half_written 5) = [7]" "write_queue_size (stream_of half_written 5) = 1"
  "0 \<le> stream_fd 5 half_written"
  by code_simp+

section \<open>Properties\<close>

text \<open>
  C13: \<open>uv__write\<close> on a stream that does not block returns, whatever the kernel takes of each
  buffer. The requests it finishes are a prefix of the queue, moved in order to the completed
  queue; the bytes that waited are those now sent, in order, followed by those of the requests
  still there; a request that ends without an error was written in full, and only the last one
  finished may have failed.
\<close>

theorem write_in_order:
  assumes "writes_ok h [] st" "0 \<le> stream_fd h st" "calm h st" "kernel_writes k"
  shows "\<exists>st' fin sent. uv__write k h st = Some st' \<and> writes_ok h [] st' \<and>
    write_queue (stream_of st h) = fin @ write_queue (stream_of st' h) \<and>
    write_completed_queue (stream_of st' h) = write_completed_queue (stream_of st h) @ fin \<and>
    wire st' h = wire st h @ sent \<and>
    reqs_bytes st (write_queue (stream_of st h)) = sent @ reqs_bytes st' (fin @ write_queue (stream_of st' h)) \<and>
    (\<forall>r \<in> set fin. req_error (write_of st' r) = None \<longrightarrow> req_left st' r = []) \<and>
    (\<forall>r \<in> set (butlast fin). req_error (write_of st' r) = None)"
proof -
  from write_loop_ok [OF assms(1,2) assms(3) [unfolded calm_def] assms(4), of 32] obtain st' fin sent where
    "write_loop k h 32 st = Some st'" "writes_ok h [] st'" "wrote h st st' fin sent" "\<forall>r \<in> set (butlast fin). req_error (write_of st' r) = None"
    by blast
  moreover from this(1) have "uv__write k h st = Some st'" using assms(2) by (simp add: uv__write_def)
  ultimately show ?thesis unfolding wrote_def by blast
qed

theorem write_in_order_witness:
  "\<exists>st' sent. uv__write two_bytes 5 half_written = Some st' \<and> wire st' 5 = [100, 101] @ sent \<and>
     [102] = sent @ reqs_bytes st' [7]"
proof -
  have w: "map_option (\<lambda>s. write_queue (stream_of s 5)) (uv__write two_bytes 5 half_written) = Some []"
    "reqs_bytes half_written [7] = [102]" by code_simp+
  from write_in_order [OF half_written_ok(1) half_written_state(4) half_written_ok(2) two_bytes_writes] obtain st' fin sent where
    "uv__write two_bytes 5 half_written = Some st'" "wire st' 5 = wire half_written 5 @ sent"
    "write_queue (stream_of half_written 5) = fin @ write_queue (stream_of st' 5)"
    "reqs_bytes half_written (write_queue (stream_of half_written 5)) = sent @ reqs_bytes st' (fin @ write_queue (stream_of st' 5))"
    by blast
  then show ?thesis using w half_written_state by (intro exI [of _ st'] exI [of _ sent]) simp
qed

text \<open>
  C14: \<open>uv_write\<close> with a request that is not in flight, within the range of the counters, keeps
  the invariant, whatever the kernel answers: the size the stream reports is that of the buffers
  of all its requests, every one of them is counted by the loop and queued once. On an error
  nothing is queued or sent.
\<close>

theorem write_accounted:
  assumes "writes_ok h [] st" "calm h st" "kernel_writes k" "op_legal h (Do_write r bs cb) st"
  shows "\<exists>err st'. uv_write_to k r h bs cb st = Some (err, st') \<and> writes_ok h [] st' \<and>
    unat (uv_stream_get_write_queue_size h st') = bytes_left st' (write_queue (stream_of st' h) @ write_completed_queue (stream_of st' h)) \<and>
    distinct (write_queue (stream_of st' h) @ write_completed_queue (stream_of st' h)) \<and>
    (err \<noteq> None \<longrightarrow> wire st' = wire st \<and> stream_of st' = stream_of st) \<and> (stream_fd h st < 0 \<longrightarrow> err = Some UV_EBADF)"
proof -
  from write_ok [OF assms] obtain err st' where
    st': "uv_write_to k r h bs cb st = Some (err, st')" "writes_ok h [] st'"
      "err \<noteq> None \<longrightarrow> wire st' = wire st \<and> stream_of st' = stream_of st" "stream_fd h st < 0 \<longrightarrow> err = Some UV_EBADF" by blast
  moreover have "distinct (in_flight h [] st')" using st'(2) by (simp add: writes_ok_def)
  ultimately show ?thesis using writes_ok_size [OF st'(2)] by (simp add: uv_stream_get_write_queue_size_def in_flight_def)
qed

theorem write_accounted_witness:
  "\<exists>st'. uv_write_to two_bytes 7 5 [\<lparr>buf_base = 100, buf_len = 3\<rparr>] 9 one_stream = Some (None, st') \<and>
     unat (uv_stream_get_write_queue_size 5 st') = bytes_left st' (write_queue (stream_of st' 5) @ write_completed_queue (stream_of st' 5))"
  using write_accounted [OF one_stream_ok two_bytes_writes half_written_facts(2)] half_written_facts(1) by fastforce

text \<open>
  C16: \<open>uv__write_callbacks\<close> calls back every request that was completed, once and in order,
  with its status, while the callbacks write, shut down and complete further requests; these
  wait for the next round. The invariant holds again afterwards.
\<close>

theorem write_callbacks_in_order:
  assumes "writes_ok h [] st" "calm h st"
  shows "\<exists>st'. uv__write_callbacks (api_client (reliable k) h prog) h st = Some st' \<and> writes_ok h [] st' \<and>
     stream_calls st' = stream_calls st @ map (\<lambda>r. Write_cb r (req_error (write_of st r)))
       (filter (\<lambda>r. write_cb (write_of st r) \<noteq> NULL) (write_completed_queue (stream_of st h)))"
  using api.write_callbacks_run [OF assms] by blast

text \<open>A request that is complete, with a callback that writes again.\<close>

definition written :: streams where
  "written = the (uv__write two_bytes 5 half_written)"

lemma written_ok: "writes_ok 5 [] written" "calm 5 written"
proof -
  from write_loop_ok [OF half_written_ok(1) half_written_state(4) half_written_ok(2) [unfolded calm_def] two_bytes_writes, of 32] obtain st' fin sent where
    l: "write_loop two_bytes 5 32 half_written = Some st'" "writes_ok 5 [] st'" "wrote 5 half_written st' fin sent" by blast
  then have "written = st'" using half_written_state(4) by (simp add: written_def uv__write_def)
  then show "writes_ok 5 [] written" "calm 5 written"
    using l wrote_keeps(2) [OF l(3)] half_written_ok(2) by (simp_all add: calm_def)
qed

definition write_again :: "stream_call \<Rightarrow> stream_op list" where
  "write_again c = [Do_write 8 [\<lparr>buf_base = 110, buf_len = 1\<rparr>] 9]"

theorem write_callbacks_in_order_witness:
  "\<exists>st'. uv__write_callbacks (api_client (reliable two_bytes) 5 write_again) 5 written = Some st' \<and>
     stream_calls st' = [Write_cb 7 None]"
proof -
  have w: "stream_calls written = []" "write_completed_queue (stream_of written 5) = [7]" "write_cb (write_of written 7) = 9"
    "req_error (write_of written 7) = None" by code_simp+
  from write_callbacks_in_order [OF written_ok] show ?thesis using w by fastforce
qed

text \<open>
  C15: When a closed stream is destroyed, the request to connect is cancelled first; then every
  completed request is called back with its status and every waiting one with \<open>UV_ECANCELED\<close>,
  in the order in which they were written, then the request to shut down; each once, whatever
  the callbacks do. Nothing is in flight afterwards, the size is 0 and the loop counts none of
  these requests any more.
\<close>

theorem stream_destroy_cancels:
  assumes "writes_ok h [] st" "calm h st" "shut_down h st" "stream_flags h st AND UV_HANDLE_CLOSED \<noteq> 0"
    "pevents (io (the_loop st) h) AND (POLLIN OR POLLOUT) = 0"
    "length (in_flight h [] st) + one_if (connect_req (stream_of st h)) + one_if (shutdown_req (stream_of st h))
      \<le> unat (active_reqs (the_loop st))"
  shows "\<exists>st'. uv__stream_destroy k (api_client (reliable k) h prog) h st = Some st' \<and> in_flight h [] st' = [] \<and>
    write_queue_size (stream_of st' h) = 0 \<and>
    unat (active_reqs (the_loop st')) + length (in_flight h [] st) + one_if (connect_req (stream_of st h)) +
      one_if (shutdown_req (stream_of st h)) = unat (active_reqs (the_loop st)) \<and>
    stream_calls st' = stream_calls st @
      (if connect_req (stream_of st h) \<noteq> NULL then [Connect_cb (connect_req (stream_of st h)) (Some UV_ECANCELED)] else []) @
      map (\<lambda>r. Write_cb r (req_error (write_of st r)))
        (filter (\<lambda>r. write_cb (write_of st r) \<noteq> NULL) (write_completed_queue (stream_of st h))) @
      map (\<lambda>r. Write_cb r (Some UV_ECANCELED)) (filter (\<lambda>r. write_cb (write_of st r) \<noteq> NULL) (write_queue (stream_of st h))) @
      (if shutdown_req (stream_of st h) \<noteq> NULL \<and> req_cb st (shutdown_req (stream_of st h)) \<noteq> NULL
       then [Shutdown_cb (shutdown_req (stream_of st h)) (Some UV_ECANCELED)] else [])"
  by (rule api.destroy_run [OF assms])

text \<open>The stream with one byte waiting, closed.\<close>

definition closed_stream :: streams where
  "closed_stream = half_written\<lparr>the_loop :=
     (let s = the (uv__io_init 5 Uv__stream_io (-1) (the (uv__io_close 5 (the_loop half_written))))
      in s\<lparr>handle := (handle s)(5 := (handle s 5)\<lparr>flags := UV_HANDLE_CLOSING OR UV_HANDLE_CLOSED\<rparr>)\<rparr>)\<rparr>"

lemma half_written_sends: "send_handle (write_of half_written 7) = NULL"
  by code_simp

lemma closed_stream_ok: "writes_ok 5 [] closed_stream"
proof -
  let ?l = "the_loop half_written"
  have h: "polling_ok ?l" "0 \<le> fd (io ?l 5)" "fd_free ?l 5"
    using half_written_ok(1) half_written_state(4) by (simp_all add: writes_ok_def stream_io_ok_def stream_fd_def)
  from io_close_ok [OF h(1), of 5] h(2,3) obtain s1 where
    s1: "uv__io_close 5 ?l = Some s1" "polling_ok s1" "erase_io s1 = erase_io ?l" "pevents (io s1 5) = 0" by (auto simp: fd_free_def)
  from io_init_ok [OF s1(2,4), of Uv__stream_io "-1"] obtain s2 where
    s2: "uv__io_init 5 Uv__stream_io (-1) s1 = Some s2" "polling_ok s2" "s2 = s1\<lparr>io := (io s1)(5 := \<lparr>io_cb = Uv__stream_io, pevents = 0, events = 0, fd = -1\<rparr>)\<rparr>"
    by auto
  have l: "the_loop closed_stream = s2\<lparr>handle := (handle s2)(5 := (handle s2 5)\<lparr>flags := UV_HANDLE_CLOSING OR UV_HANDLE_CLOSED\<rparr>)\<rparr>"
    by (simp add: closed_stream_def s1(1) s2(1) Let_def)
  have io: "stream_io_ok 5 closed_stream"
    using polling_ok_handle [OF s2(2)] by (simp add: stream_io_ok_def stream_fd_def l) (simp add: s2(3))
  have a: "active_reqs (the_loop closed_stream) = active_reqs ?l" using erase_ioD(4) [OF s1(3)] by (simp add: l s2(3))
  show ?thesis
  proof (rule writes_ok_queues [OF half_written_ok(1) _ _ _ _ _ io])
    show "waiting closed_stream r" if "r \<in> set (write_queue (stream_of closed_stream 5))" for r
      using that half_written_ok(1) half_written_state(2)
      by (simp add: closed_stream_def writes_ok_def waiting_def sendable_def) (simp add: half_written_sends)
    show "req_handle (write_of closed_stream r) = 5 \<and> req_left closed_stream r = req_left half_written r"
      if "r \<in> set (in_flight 5 [] half_written)" for r
      using that half_written_ok(1) req_left_cong [of closed_stream r half_written] by (simp add: writes_ok_def closed_stream_def)
  qed (use a in \<open>simp_all add: in_flight_def closed_stream_def\<close>)
qed

theorem stream_destroy_cancels_witness:
  "\<exists>st'. uv__stream_destroy two_bytes (api_client (reliable two_bytes) 5 write_again) 5 closed_stream = Some st' \<and>
     stream_calls st' = [Write_cb 7 (Some UV_ECANCELED)] \<and> active_reqs (the_loop st') = 0"
proof -
  have w: "calm 5 closed_stream" "shut_down 5 closed_stream" "stream_flags 5 closed_stream AND UV_HANDLE_CLOSED \<noteq> 0"
    "pevents (io (the_loop closed_stream) 5) AND (POLLIN OR POLLOUT) = 0"
    "length (in_flight 5 [] closed_stream) + one_if (connect_req (stream_of closed_stream 5)) + one_if (shutdown_req (stream_of closed_stream 5))
      \<le> unat (active_reqs (the_loop closed_stream))" by code_simp+
  have v: "in_flight 5 [] closed_stream = [7]" "connect_req (stream_of closed_stream 5) = NULL" "shutdown_req (stream_of closed_stream 5) = NULL"
    "active_reqs (the_loop closed_stream) = 1" "stream_calls closed_stream = []" "write_queue (stream_of closed_stream 5) = [7]"
    "write_completed_queue (stream_of closed_stream 5) = []" "write_cb (write_of closed_stream 7) = 9" by code_simp+
  from stream_destroy_cancels [OF closed_stream_ok w, of two_bytes write_again] obtain st' where
    "uv__stream_destroy two_bytes (api_client (reliable two_bytes) 5 write_again) 5 closed_stream = Some st'"
    "unat (active_reqs (the_loop st')) + 1 = 1" "stream_calls st' = [Write_cb 7 (Some UV_ECANCELED)]"
    unfolding v by (auto simp: one_if_def v)
  then show ?thesis by (simp add: unat_eq_zero)
qed

end
