(* ===== verification/Reading.thy ===== *)
theory Reading
  imports Streams
begin

unbundle bit_operations_syntax

text \<open>
  The other side of \<^verbatim>\<open>unix/stream.c\<close>: opening, listening, accepting, receiving descriptors,
  reading, connecting and closing, and \<open>uv__stream_io\<close>, which the loop calls for a stream.
\<close>

section \<open>Opening and accepting\<close>

definition UV_HANDLE_UDP_CONNECTED :: u32 where "UV_HANDLE_UDP_CONNECTED = 0x2000000"
definition UV_HANDLE_TCP_NODELAY :: u32 where "UV_HANDLE_TCP_NODELAY = 0x1000000"
definition UV_HANDLE_TCP_KEEPALIVE :: u32 where "UV_HANDLE_TCP_KEEPALIVE = 0x2000000"

text \<open>A function on descriptors, with what it opened and closed.\<close>

definition with_fds ::
  "stream_system \<Rightarrow> (fd_calls \<Rightarrow> ((uv_errno + int) \<times> fd_event list) option) \<Rightarrow> streams \<Rightarrow> ((uv_errno + int) \<times> streams) option" where
  "with_fds k f st =
     map_option (\<lambda>(r, es). (r, st\<lparr>syscalls := syscalls st + 1, fd_events := fd_events st @ es\<rparr>)) (f (descriptors k (syscalls st)))"

definition close_in :: "stream_system \<Rightarrow> int \<Rightarrow> streams \<Rightarrow> streams option" where
  "close_in k f st =
     map_option (\<lambda>_. st\<lparr>syscalls := syscalls st + 1, fd_events := fd_events st @ [Closed f]\<rparr>) (uv__close (descriptors k (syscalls st)) f)"

definition set_stream_fd :: "ptr \<Rightarrow> int \<Rightarrow> streams \<Rightarrow> streams" where
  "set_stream_fd h f st = st\<lparr>the_loop := set_io h ((io (the_loop st) h)\<lparr>fd := f\<rparr>) (the_loop st)\<rparr>"

definition uv__stream_init :: "stream_system \<Rightarrow> uv_handle_type \<Rightarrow> ptr \<Rightarrow> streams \<Rightarrow> streams option" where
  "uv__stream_init k ty h st =
     (let s = uv__handle_init ty h (the_loop st);
          s = s\<lparr>handle := (handle s)(h := (handle s h)\<lparr>close_cb := NULL\<rparr>)\<rparr>;
          st = set_stream h ((stream_of st h)\<lparr>read_cb := NULL, alloc_cb := NULL, connection_cb := NULL, connect_req := NULL,
            shutdown_req := NULL, accepted_fd := -1, queued_fds := None, delayed_error := None, write_queue := [],
            write_completed_queue := [], write_queue_size := 0\<rparr>) (st\<lparr>the_loop := s\<rparr>)
      in Option.bind
           (if emfile_fd st = -1 then
              Option.bind (with_fds k uv__open_cloexec st) (\<lambda>(err, st).
              Option.bind (case err of Inl _ \<Rightarrow> with_fds k uv__open_cloexec st | Inr f \<Rightarrow> Some (err, st)) (\<lambda>(err, st).
                Some (case err of Inl _ \<Rightarrow> st | Inr f \<Rightarrow> st\<lparr>emfile_fd := f\<rparr>)))
            else Some st)
           (on_loop (uv__io_init h Uv__stream_io (-1))))"

definition uv__stream_open :: "stream_system \<Rightarrow> ptr \<Rightarrow> int \<Rightarrow> u32 \<Rightarrow> streams \<Rightarrow> (uv_errno option \<times> streams) option" where
  "uv__stream_open k h f w st =
     (if \<not> (stream_fd h st = -1 \<or> stream_fd h st = f) then Some (Some UV_EBUSY, st)
      else if f < 0 then None
      else
        let st = set_stream_flags h (stream_flags h st OR w) st;
            tcp = (htype (handle (the_loop st) h) = UV_TCP);
            err = (if tcp \<and> stream_flags h st AND UV_HANDLE_TCP_NODELAY \<noteq> 0 then tcp_options k f UV_HANDLE_TCP_NODELAY else None)
        in if err \<noteq> None then Some (err, st)
           else
             let err = (if tcp \<and> stream_flags h st AND UV_HANDLE_TCP_KEEPALIVE \<noteq> 0 then tcp_options k f UV_HANDLE_TCP_KEEPALIVE else None)
             in if err \<noteq> None then Some (err, st) else Some (None, set_stream_fd h f st))"

text \<open>The functions of \<^verbatim>\<open>tcp.c\<close>, \<^verbatim>\<open>pipe.c\<close> and \<^verbatim>\<open>udp.c\<close> that streams call.\<close>

definition new_socket :: "stream_system \<Rightarrow> ptr \<Rightarrow> streams \<Rightarrow> (uv_errno option \<times> streams) option" where
  "new_socket k h st =
     Option.bind (with_fds k uv__socket st) (\<lambda>(r, st).
       case r of
         Inl e \<Rightarrow> Some (Some e, st)
       | Inr sockfd \<Rightarrow>
           Option.bind (uv__stream_open k h sockfd 0 st) (\<lambda>(err, st).
             if err \<noteq> None then map_option (Pair err) (close_in k sockfd st) else Some (None, st)))"

definition maybe_new_socket :: "stream_system \<Rightarrow> ptr \<Rightarrow> streams \<Rightarrow> (uv_errno option \<times> streams) option" where
  "maybe_new_socket k h st = (if stream_fd h st = -1 then new_socket k h st else Some (None, st))"

definition set_io_cb :: "ptr \<Rightarrow> io_cb \<Rightarrow> streams \<Rightarrow> streams" where
  "set_io_cb h cb st = st\<lparr>the_loop := set_io h ((io (the_loop st) h)\<lparr>io_cb := cb\<rparr>) (the_loop st)\<rparr>"

definition uv__tcp_listen :: "stream_system \<Rightarrow> ptr \<Rightarrow> int \<Rightarrow> ptr \<Rightarrow> streams \<Rightarrow> (uv_errno option \<times> streams) option" where
  "uv__tcp_listen k h backlog cb st =
     (if delayed_error (stream_of st h) \<noteq> None then Some (delayed_error (stream_of st h), st)
      else
        Option.bind (maybe_new_socket k h st) (\<lambda>(err, st).
          if err \<noteq> None then Some (err, st)
          else if sys_listen k (stream_fd h st) backlog \<noteq> None then Some (sys_listen k (stream_fd h st) backlog, st)
          else
            let st = set_stream h ((stream_of st h)\<lparr>connection_cb := cb\<rparr>) st;
                st = set_stream_flags h (stream_flags h st OR UV_HANDLE_BOUND) st;
                st = set_io_cb h Uv__server_io st
            in map_option (Pair None) (on_loop (uv__io_start h POLLIN) st)))"

definition uv__pipe_listen :: "stream_system \<Rightarrow> ptr \<Rightarrow> int \<Rightarrow> ptr \<Rightarrow> streams \<Rightarrow> (uv_errno option \<times> streams) option" where
  "uv__pipe_listen k h backlog cb st =
     (if stream_fd h st = -1 \<or> ipc (stream_of st h) then Some (Some UV_EINVAL, st)
      else if sys_listen k (stream_fd h st) backlog \<noteq> None then Some (sys_listen k (stream_fd h st) backlog, st)
      else
        let st = set_stream h ((stream_of st h)\<lparr>connection_cb := cb\<rparr>) st;
            st = set_io_cb h Uv__server_io st
        in map_option (Pair None) (on_loop (uv__io_start h POLLIN) st))"

definition uv_listen :: "stream_system \<Rightarrow> ptr \<Rightarrow> int \<Rightarrow> ptr \<Rightarrow> streams \<Rightarrow> (uv_errno option \<times> streams) option" where
  "uv_listen k h backlog cb st =
     (if uv__is_closing h (the_loop st) then Some (Some UV_EINVAL, st)
      else
        Option.bind
          (case htype (handle (the_loop st) h) of
             UV_TCP \<Rightarrow> uv__tcp_listen k h backlog cb st
           | UV_NAMED_PIPE \<Rightarrow> uv__pipe_listen k h backlog cb st
           | _ \<Rightarrow> Some (Some UV_EINVAL, st)) (\<lambda>(err, st).
          Some (err, if err = None then st\<lparr>the_loop := uv__handle_start h (the_loop st)\<rparr> else st)))"

definition uv_udp_open :: "stream_system \<Rightarrow> ptr \<Rightarrow> int \<Rightarrow> streams \<Rightarrow> (uv_errno option \<times> streams) option" where
  "uv_udp_open k h f st =
     (if stream_fd h st \<noteq> -1 then Some (Some UV_EBUSY, st)
      else if uv__fd_exists f (the_loop st) then Some (Some UV_EEXIST, st)
      else
        Option.bind (uv__nonblock (descriptors k (syscalls st)) f True) (\<lambda>err.
          let st = st\<lparr>syscalls := syscalls st + 1\<rparr>
          in if err \<noteq> None then Some (err, st)
             else if udp_reuse k f \<noteq> None then Some (udp_reuse k f, st)
             else
               let st = set_stream_fd h f st
               in Some (None, if udp_connected k f then set_stream_flags h (stream_flags h st OR UV_HANDLE_UDP_CONNECTED) st else st)))"

text \<open>
  The loop that accepts and closes connections while there are no descriptors left; it may go on
  for ever.
\<close>

partial_function (option) shed_load :: "stream_system \<Rightarrow> int \<Rightarrow> streams \<Rightarrow> ((uv_errno + int) \<times> streams) option" where
  "shed_load k accept_fd st =
     Option.bind (with_fds k (\<lambda>c. uv__accept c accept_fd) st) (\<lambda>(err, st).
       case err of
         Inr f \<Rightarrow> Option.bind (close_in k f st) (shed_load k accept_fd)
       | Inl e \<Rightarrow> if e = UV_EINTR then shed_load k accept_fd st else Some (err, st))"

declare shed_load.simps [code]

definition uv__emfile_trick :: "stream_system \<Rightarrow> int \<Rightarrow> streams \<Rightarrow> ((uv_errno + int) \<times> streams) option" where
  "uv__emfile_trick k accept_fd st =
     (if emfile_fd st = -1 then Some (Inl UV_EMFILE, st)
      else
        Option.bind (close_in k (emfile_fd st) st) (\<lambda>st.
        Option.bind (shed_load k accept_fd (st\<lparr>emfile_fd := -1\<rparr>)) (\<lambda>(err, st).
        Option.bind (with_fds k uv__open_cloexec st) (\<lambda>(r, st).
          Some (err, case r of Inl _ \<Rightarrow> st | Inr f \<Rightarrow> st\<lparr>emfile_fd := f\<rparr>)))))"

definition uv__server_io :: "stream_system \<Rightarrow> stream_client \<Rightarrow> ptr \<Rightarrow> u32 \<Rightarrow> streams \<Rightarrow> streams option" where
  "uv__server_io k client h ev st =
     (if ev AND POLLIN = 0 \<or> accepted_fd (stream_of st h) \<noteq> -1 \<or> stream_flags h st AND UV_HANDLE_CLOSING \<noteq> 0 then None
      else
        let f = stream_fd h st
        in Option.bind (with_fds k (\<lambda>c. uv__accept c f) st) (\<lambda>(err, st).
           Option.bind (if err = Inl UV_EMFILE \<or> err = Inl UV_ENFILE then uv__emfile_trick k f st else Some (err, st)) (\<lambda>(err, st).
             case err of
               Inl _ \<Rightarrow> Some st
             | Inr peer \<Rightarrow>
                 Option.bind (notify client (Connection_cb h) (set_stream h ((stream_of st h)\<lparr>accepted_fd := peer\<rparr>) st)) (\<lambda>st.
                   if accepted_fd (stream_of st h) \<noteq> -1 then on_loop (uv__io_stop h POLLIN) st else Some st))))"

text \<open>The end of \<open>uv_accept\<close>: the next descriptor that was received, or wait for another connection.\<close>

definition next_accepted :: "ptr \<Rightarrow> bool \<Rightarrow> streams \<Rightarrow> streams option" where
  "next_accepted server opened st =
     (let x = stream_of st server
      in case queued_fds x of
           Some q \<Rightarrow>
             (case queued q of
                [] \<Rightarrow> None
              | f # fs \<Rightarrow> Some (set_stream server (x\<lparr>accepted_fd := f, queued_fds := if fs = [] then None else Some (q\<lparr>queued := fs\<rparr>)\<rparr>) st))
         | None \<Rightarrow>
             let st = set_stream server (x\<lparr>accepted_fd := -1\<rparr>) st
             in if opened then on_loop (uv__io_start server POLLIN) st else Some st)"

definition uv_accept :: "stream_system \<Rightarrow> ptr \<Rightarrow> ptr \<Rightarrow> streams \<Rightarrow> (uv_errno option \<times> streams) option" where
  "uv_accept k server client st =
     (let f = accepted_fd (stream_of st server);
          ty = htype (handle (the_loop st) client)
      in if f = -1 then Some (Some UV_EAGAIN, st)
         else if ty \<notin> {UV_NAMED_PIPE, UV_TCP, UV_UDP} then Some (Some UV_EINVAL, st)
         else
           Option.bind
             (if ty = UV_UDP then uv_udp_open k client f st
              else uv__stream_open k client f (UV_HANDLE_READABLE OR UV_HANDLE_WRITABLE) st) (\<lambda>(err, st).
           Option.bind
             (if err \<noteq> None then close_in k f st
              else Some (set_stream_flags client (stream_flags client st OR UV_HANDLE_BOUND) st)) (\<lambda>st.
             map_option (Pair err) (next_accepted server (err = None) st))))"

section \<open>Reading\<close>

definition uv__stream_eof :: "stream_client \<Rightarrow> ptr \<Rightarrow> uv_buf \<Rightarrow> streams \<Rightarrow> streams option" where
  "uv__stream_eof client h buf st =
     (let st = set_stream_flags h (stream_flags h st OR UV_HANDLE_READ_EOF) st;
          st = set_stream_flags h (stream_flags h st AND NOT UV_HANDLE_READING) st
      in Option.bind (on_loop (uv__io_stop h POLLIN) st) (\<lambda>st.
           let st = st\<lparr>the_loop := uv__handle_stop h (the_loop st)\<rparr>
           in notify client (Read_cb h (Read_error UV_EOF) buf) st))"

definition uv__stream_queue_fd :: "stream_system \<Rightarrow> ptr \<Rightarrow> int \<Rightarrow> streams \<Rightarrow> uv_errno option \<times> streams" where
  "uv__stream_queue_fd k h f st =
     (let x = stream_of st h
      in case queued_fds x of
           None \<Rightarrow>
             if \<not> malloc_ok k 8 then (Some UV_ENOMEM, st)
             else (None, set_stream h (x\<lparr>queued_fds := Some \<lparr>queued_size = 8, queued = [f]\<rparr>\<rparr>) st)
         | Some q \<Rightarrow>
             if queued_size q = length (queued q) then
               (if \<not> malloc_ok k (queued_size q + 8) then (Some UV_ENOMEM, st)
                else (None, set_stream h (x\<lparr>queued_fds := Some \<lparr>queued_size = queued_size q + 8, queued = queued q @ [f]\<rparr>\<rparr>) st))
             else (None, set_stream h (x\<lparr>queued_fds := Some (q\<lparr>queued := queued q @ [f]\<rparr>)\<rparr>) st))"

text \<open>
  The descriptors of the control messages in their order; those that cannot be kept are closed.
\<close>

fun take_fds :: "stream_system \<Rightarrow> ptr \<Rightarrow> int list \<Rightarrow> uv_errno option \<Rightarrow> streams \<Rightarrow> (uv_errno option \<times> streams) option" where
  "take_fds k h [] err st = Some (err, st)"
| "take_fds k h (f # fs) err st =
     (let (err, st) =
        (if err = None then
           (if accepted_fd (stream_of st h) = -1 then (None, set_stream h ((stream_of st h)\<lparr>accepted_fd := f\<rparr>) st)
            else uv__stream_queue_fd k h f st)
         else (err, st))
      in Option.bind (if err \<noteq> None then close_in k f st else Some st) (take_fds k h fs err))"

definition rights :: "int list option list \<Rightarrow> int list" where
  "rights ms = concat (map (\<lambda>m. case m of None \<Rightarrow> [] | Some fs \<Rightarrow> fs) ms)"

definition uv__stream_recv_cmsg ::
  "stream_system \<Rightarrow> ptr \<Rightarrow> int list option list \<Rightarrow> streams \<Rightarrow> (uv_errno option \<times> streams) option" where
  "uv__stream_recv_cmsg k h ms st = take_fds k h (rights ms) None st"

definition store_bytes :: "ptr \<Rightarrow> u8 list \<Rightarrow> streams \<Rightarrow> streams" where
  "store_bytes p bs st = st\<lparr>memory := (\<lambda>a. if p \<le> a \<and> a < p + length bs then bs ! (a - p) else memory st a)\<rparr>"

text \<open>One round of \<open>uv__read\<close>, in a state in which it is to read: whether it may go on.\<close>

definition read_failed :: "stream_client \<Rightarrow> ptr \<Rightarrow> uv_buf \<Rightarrow> uv_errno \<Rightarrow> streams \<Rightarrow> streams option" where
  "read_failed client h buf e st =
     (if e = UV_EAGAIN then
        Option.bind (if stream_flags h st AND UV_HANDLE_READING \<noteq> 0 then on_loop (uv__io_start h POLLIN) st else Some st)
          (notify client (Read_cb h (Read_bytes 0) buf))
      else
        let st = set_stream_flags h (stream_flags h st AND NOT (UV_HANDLE_READABLE OR UV_HANDLE_WRITABLE)) st
        in Option.bind (notify client (Read_cb h (Read_error e) buf) st) (\<lambda>st.
             if stream_flags h st AND UV_HANDLE_READING \<noteq> 0 then
               let st = set_stream_flags h (stream_flags h st AND NOT UV_HANDLE_READING) st
               in map_option (\<lambda>st. st\<lparr>the_loop := uv__handle_stop h (the_loop st)\<rparr>) (on_loop (uv__io_stop h POLLIN) st)
             else Some st))"

definition read_round :: "stream_system \<Rightarrow> stream_client \<Rightarrow> bool \<Rightarrow> ptr \<Rightarrow> streams \<Rightarrow> (bool \<times> streams) option" where
  "read_round k client is_ipc h st =
     (if alloc_cb (stream_of st h) = NULL then None
      else
        Option.bind (on_alloc client h (64 * 1024) st) (\<lambda>(buf, st).
          if buf_base buf = NULL \<or> buf_len buf = 0 then
            map_option (Pair False) (notify client (Read_cb h (Read_error UV_ENOBUFS) buf) st)
          else if stream_fd h st < 0 then None
          else
            Option.bind (retry [UV_EINTR] (sys_read k (stream_fd h st) (buf_len buf)) (syscalls st)) (\<lambda>(r, n).
              let st = st\<lparr>syscalls := n\<rparr>
              in case r of
                   Inl e \<Rightarrow> map_option (Pair False) (read_failed client h buf e st)
                 | Inr (bytes, ms) \<Rightarrow>
                     let st = store_bytes (buf_base buf) bytes st
                     in if bytes = [] then map_option (Pair False) (uv__stream_eof client h buf st)
                        else
                          Option.bind (if is_ipc then uv__stream_recv_cmsg k h ms st else Some (None, st)) (\<lambda>(err, st).
                            case err of
                              Some e \<Rightarrow> map_option (Pair False) (notify client (Read_cb h (Read_error e) buf) st)
                            | None \<Rightarrow>
                                map_option (\<lambda>st.
                                  if length bytes < buf_len buf then
                                    (False, set_stream_flags h (stream_flags h st OR UV_HANDLE_READ_PARTIAL) st)
                                  else (True, st))
                                  (notify client (Read_cb h (Read_bytes (length bytes)) buf) st)))))"

fun read_loop :: "stream_system \<Rightarrow> stream_client \<Rightarrow> bool \<Rightarrow> ptr \<Rightarrow> nat \<Rightarrow> streams \<Rightarrow> streams option" where
  "read_loop k client is_ipc h 0 st = Some st"
| "read_loop k client is_ipc h (Suc n) st =
     (if read_cb (stream_of st h) \<noteq> NULL \<and> stream_flags h st AND UV_HANDLE_READING \<noteq> 0 then
        Option.bind (read_round k client is_ipc h st) (\<lambda>(go, st).
          if go then read_loop k client is_ipc h n st else Some st)
      else Some st)"

definition uv__read :: "stream_system \<Rightarrow> stream_client \<Rightarrow> ptr \<Rightarrow> streams \<Rightarrow> streams option" where
  "uv__read k client h st =
     (let st = set_stream_flags h (stream_flags h st AND NOT UV_HANDLE_READ_PARTIAL) st;
          is_ipc = (htype (handle (the_loop st) h) = UV_NAMED_PIPE \<and> ipc (stream_of st h))
      in read_loop k client is_ipc h 32 st)"

definition uv__read_start :: "ptr \<Rightarrow> ptr \<Rightarrow> ptr \<Rightarrow> streams \<Rightarrow> streams option" where
  "uv__read_start h alloc cb st =
     (if htype (handle (the_loop st) h) \<notin> {UV_TCP, UV_NAMED_PIPE, UV_TTY} \<or> stream_fd h st < 0 \<or> alloc = NULL then None
      else
        let st = set_stream_flags h (stream_flags h st OR UV_HANDLE_READING) st;
            st = set_stream_flags h (stream_flags h st AND NOT UV_HANDLE_READ_EOF) st;
            st = set_stream h ((stream_of st h)\<lparr>read_cb := cb, alloc_cb := alloc\<rparr>) st
        in map_option (\<lambda>st. st\<lparr>the_loop := uv__handle_start h (the_loop st)\<rparr>) (on_loop (uv__io_start h POLLIN) st))"

definition uv_read_start :: "ptr \<Rightarrow> ptr \<Rightarrow> ptr \<Rightarrow> streams \<Rightarrow> (uv_errno option \<times> streams) option" where
  "uv_read_start h alloc cb st =
     (if h = NULL \<or> alloc = NULL \<or> cb = NULL then Some (Some UV_EINVAL, st)
      else if stream_flags h st AND UV_HANDLE_CLOSING \<noteq> 0 then Some (Some UV_EINVAL, st)
      else if stream_flags h st AND UV_HANDLE_READING \<noteq> 0 then Some (Some UV_EALREADY, st)
      else if stream_flags h st AND UV_HANDLE_READABLE = 0 then Some (Some UV_ENOTCONN, st)
      else map_option (Pair None) (uv__read_start h alloc cb st))"

definition uv_read_stop :: "ptr \<Rightarrow> streams \<Rightarrow> streams option" where
  "uv_read_stop h st =
     (if stream_flags h st AND UV_HANDLE_READING = 0 then Some st
      else
        let st = set_stream_flags h (stream_flags h st AND NOT UV_HANDLE_READING) st
        in map_option (\<lambda>st.
             let st = st\<lparr>the_loop := uv__handle_stop h (the_loop st)\<rparr>
             in set_stream h ((stream_of st h)\<lparr>read_cb := NULL, alloc_cb := NULL\<rparr>) st)
             (on_loop (uv__io_stop h POLLIN) st))"

definition uv_is_readable :: "ptr \<Rightarrow> streams \<Rightarrow> bool" where
  "uv_is_readable h st \<longleftrightarrow> stream_flags h st AND UV_HANDLE_READABLE \<noteq> 0"

definition uv_is_writable :: "ptr \<Rightarrow> streams \<Rightarrow> bool" where
  "uv_is_writable h st \<longleftrightarrow> stream_flags h st AND UV_HANDLE_WRITABLE \<noteq> 0"

section \<open>Connecting, events, closing\<close>

definition uv__stream_connect :: "stream_system \<Rightarrow> stream_client \<Rightarrow> ptr \<Rightarrow> streams \<Rightarrow> streams option" where
  "uv__stream_connect k client h st =
     (if htype (handle (the_loop st) h) \<notin> {UV_TCP, UV_NAMED_PIPE} \<or> connect_req (stream_of st h) = NULL then None
      else
        let r = connect_req (stream_of st h);
            x = stream_of st h
        in Option.bind
             (case delayed_error x of
                Some e \<Rightarrow> Some (So_error e, set_stream h (x\<lparr>delayed_error := None\<rparr>) st)
              | None \<Rightarrow>
                  if stream_fd h st < 0 then None
                  else Some (so_error k (stream_fd h st) (syscalls st), st\<lparr>syscalls := syscalls st + 1\<rparr>)) (\<lambda>(res, st).
             if res = So_in_progress then Some st
             else
               let err = (case res of So_error e \<Rightarrow> Some e | _ \<Rightarrow> None);
                   st = set_stream h ((stream_of st h)\<lparr>connect_req := NULL\<rparr>) st
               in Option.bind (on_loop uv__req_unregister st) (\<lambda>st.
                  Option.bind (if err \<noteq> None \<or> write_queue (stream_of st h) = [] then on_loop (uv__io_stop h POLLOUT) st else Some st) (\<lambda>st.
                  Option.bind (if req_cb st r \<noteq> NULL then notify client (Connect_cb r err) st else Some st) (\<lambda>st.
                    if stream_fd h st = -1 then Some st
                    else if err \<noteq> None then uv__write_callbacks client h (uv__stream_flush_write_queue h UV_ECANCELED st)
                    else Some st)))))"

definition uv__stream_io :: "stream_system \<Rightarrow> stream_client \<Rightarrow> ptr \<Rightarrow> u32 \<Rightarrow> streams \<Rightarrow> streams option" where
  "uv__stream_io k client h ev st =
     (if htype (handle (the_loop st) h) \<notin> {UV_TCP, UV_NAMED_PIPE, UV_TTY} \<or> stream_flags h st AND UV_HANDLE_CLOSING \<noteq> 0 then None
      else if connect_req (stream_of st h) \<noteq> NULL then uv__stream_connect k client h st
      else if stream_fd h st < 0 then None
      else
        Option.bind (if ev AND (POLLIN OR POLLERR OR POLLHUP) \<noteq> 0 then uv__read k client h st else Some st) (\<lambda>st.
          if stream_fd h st = -1 then Some st
          else
            Option.bind
              (if ev AND POLLHUP \<noteq> 0 \<and> stream_flags h st AND UV_HANDLE_READING \<noteq> 0 \<and>
                  stream_flags h st AND UV_HANDLE_READ_PARTIAL \<noteq> 0 \<and> stream_flags h st AND UV_HANDLE_READ_EOF = 0
               then uv__stream_eof client h \<lparr>buf_base = NULL, buf_len = 0\<rparr> st else Some st) (\<lambda>st.
              if stream_fd h st = -1 then Some st
              else if ev AND (POLLOUT OR POLLERR OR POLLHUP) \<noteq> 0 then
                Option.bind (uv__write k h st) (\<lambda>st.
                Option.bind (uv__write_callbacks client h st) (\<lambda>st.
                  if write_queue (stream_of st h) = [] then uv__drain k client h st else Some st))
              else Some st)))"

fun close_all :: "stream_system \<Rightarrow> int list \<Rightarrow> streams \<Rightarrow> streams option" where
  "close_all k [] st = Some st"
| "close_all k (f # fs) st = Option.bind (close_in k f st) (close_all k fs)"

definition uv__stream_close :: "stream_system \<Rightarrow> ptr \<Rightarrow> streams \<Rightarrow> streams option" where
  "uv__stream_close k h st =
     Option.bind (on_loop (uv__io_close h) st) (\<lambda>st.
     Option.bind (uv_read_stop h st) (\<lambda>st.
       let st = st\<lparr>the_loop := uv__handle_stop h (the_loop st)\<rparr>;
           st = set_stream_flags h (stream_flags h st AND NOT (UV_HANDLE_READABLE OR UV_HANDLE_WRITABLE)) st
       in Option.bind
            (if stream_fd h st \<noteq> -1 then
               map_option (set_stream_fd h (-1)) (if stream_fd h st > 2 then close_in k (stream_fd h st) st else Some st)
             else Some st) (\<lambda>st.
          Option.bind
            (if accepted_fd (stream_of st h) \<noteq> -1 then
               map_option (\<lambda>st. set_stream h ((stream_of st h)\<lparr>accepted_fd := -1\<rparr>) st) (close_in k (accepted_fd (stream_of st h)) st)
             else Some st) (\<lambda>st.
          Option.bind
            (case queued_fds (stream_of st h) of
               None \<Rightarrow> Some st
             | Some q \<Rightarrow> map_option (\<lambda>st. set_stream h ((stream_of st h)\<lparr>queued_fds := None\<rparr>) st) (close_all k (queued q) st)) (\<lambda>st.
            if uv__io_active h (POLLIN OR POLLOUT) (the_loop st) = Some False then Some st else None)))))"

definition uv_stream_set_blocking :: "stream_system \<Rightarrow> ptr \<Rightarrow> bool \<Rightarrow> streams \<Rightarrow> uv_errno option option" where
  "uv_stream_set_blocking k h blocking st = uv__nonblock (descriptors k (syscalls st)) (stream_fd h st) (\<not> blocking)"

section \<open>Descriptors received\<close>

text \<open>The descriptors that wait to be accepted, in their order.\<close>

definition pending_fds :: "ptr \<Rightarrow> streams \<Rightarrow> int list" where
  "pending_fds h st =
     (if accepted_fd (stream_of st h) = -1 then []
      else accepted_fd (stream_of st h) # (case queued_fds (stream_of st h) of None \<Rightarrow> [] | Some q \<Rightarrow> queued q))"

definition fds_ok :: "ptr \<Rightarrow> streams \<Rightarrow> bool" where
  "fds_ok h st \<longleftrightarrow>
     (case queued_fds (stream_of st h) of
        None \<Rightarrow> True
      | Some q \<Rightarrow> accepted_fd (stream_of st h) \<noteq> -1 \<and> queued q \<noteq> [] \<and> length (queued q) \<le> queued_size q) \<and>
     (\<forall>f \<in> set (pending_fds h st). f > 2)"

lemma close_in_done: "f > 2 \<Longrightarrow> close_in k f st = Some (st\<lparr>syscalls := syscalls st + 1, fd_events := fd_events st @ [Closed f]\<rparr>)"
  by (simp add: close_in_def uv__close_def uv__close_nocheckstdio_def)

lemma queue_fd_cases:
  assumes "fds_ok h st" "accepted_fd (stream_of st h) \<noteq> -1" "f > 2"
  obtains (kept) st' where "uv__stream_queue_fd k h f st = (None, st')" "fds_ok h st'" "pending_fds h st' = pending_fds h st @ [f]"
      "fd_events st' = fd_events st" "the_loop st' = the_loop st"
    | (refused) "uv__stream_queue_fd k h f st = (Some UV_ENOMEM, st)"
proof (cases "queued_fds (stream_of st h)")
  case None
  show ?thesis
  proof (cases "malloc_ok k 8")
    case True
    then have "uv__stream_queue_fd k h f st =
        (None, set_stream h ((stream_of st h)\<lparr>queued_fds := Some \<lparr>queued_size = 8, queued = [f]\<rparr>\<rparr>) st)"
      using None by (simp add: uv__stream_queue_fd_def)
    then show ?thesis by (rule kept) (use assms None in \<open>auto simp: fds_ok_def pending_fds_def set_stream_def\<close>)
  next
    case False
    then show ?thesis using None by (intro refused) (simp add: uv__stream_queue_fd_def)
  qed
next
  case (Some q)
  show ?thesis
  proof (cases "queued_size q = length (queued q) \<and> \<not> malloc_ok k (queued_size q + 8)")
    case True
    then show ?thesis using Some by (intro refused) (auto simp: uv__stream_queue_fd_def)
  next
    case False
    let ?n = "if queued_size q = length (queued q) then queued_size q + 8 else queued_size q"
    have "uv__stream_queue_fd k h f st =
        (None, set_stream h ((stream_of st h)\<lparr>queued_fds := Some \<lparr>queued_size = ?n, queued = queued q @ [f]\<rparr>\<rparr>) st)"
      using False Some by (cases q) (auto simp: uv__stream_queue_fd_def)
    then show ?thesis by (rule kept) (use assms Some in \<open>auto simp: fds_ok_def pending_fds_def set_stream_def\<close>)
  qed
qed

lemma take_fds_closing:
  "\<forall>f \<in> set fs. f > 2 \<Longrightarrow> \<exists>c. take_fds k h fs (Some e) st =
     Some (Some e, st\<lparr>syscalls := c, fd_events := fd_events st @ map Closed fs\<rparr>)"
proof (induction fs arbitrary: st)
  case Nil
  then show ?case by (intro exI [of _ "syscalls st"]) simp
next
  case (Cons f fs)
  then show ?case using Cons.IH [of "st\<lparr>syscalls := syscalls st + 1, fd_events := fd_events st @ [Closed f]\<rparr>"]
    by (auto simp: close_in_done)
qed

lemma fds_ok_events: "fds_ok h (st\<lparr>syscalls := c, fd_events := es\<rparr>) = fds_ok h st" "pending_fds h (st\<lparr>syscalls := c, fd_events := es\<rparr>) = pending_fds h st"
  by (auto simp: fds_ok_def pending_fds_def split: option.splits)

lemma take_fds_kept:
  "fds_ok h st \<Longrightarrow> \<forall>f \<in> set fs. f > 2 \<Longrightarrow>
   \<exists>err st' n. take_fds k h fs None st = Some (err, st') \<and> fds_ok h st' \<and> pending_fds h st' = pending_fds h st @ take n fs \<and>
     fd_events st' = fd_events st @ map Closed (drop n fs) \<and> (err = None \<longrightarrow> n = length fs) \<and>
     (err \<noteq> None \<longrightarrow> n < length fs) \<and> the_loop st' = the_loop st"
proof (induction fs arbitrary: st)
  case Nil
  then show ?case by simp
next
  case (Cons f fs)
  have f: "f > 2" and fs: "\<forall>f \<in> set fs. f > 2" using Cons.prems(2) by simp_all
  have next_one: ?case if s: "(if accepted_fd (stream_of st h) = -1 then (None, set_stream h ((stream_of st h)\<lparr>accepted_fd := f\<rparr>) st)
      else uv__stream_queue_fd k h f st) = (None, st1)" and ok: "fds_ok h st1" "pending_fds h st1 = pending_fds h st @ [f]"
      "fd_events st1 = fd_events st" "the_loop st1 = the_loop st" for st1
  proof -
    from Cons.IH [OF ok(1) fs] obtain err st' n where
      "take_fds k h fs None st1 = Some (err, st')" "fds_ok h st'" "pending_fds h st' = pending_fds h st1 @ take n fs"
      "fd_events st' = fd_events st1 @ map Closed (drop n fs)" "err = None \<longrightarrow> n = length fs" "err \<noteq> None \<longrightarrow> n < length fs"
      "the_loop st' = the_loop st1" by blast
    then show ?thesis using s ok
      by (intro exI [of _ err] exI [of _ st'] exI [of _ "Suc n"]) (simp add: Let_def)
  qed
  show ?case
  proof (cases "accepted_fd (stream_of st h) = -1")
    case True
    let ?s = "set_stream h ((stream_of st h)\<lparr>accepted_fd := f\<rparr>) st"
    have "queued_fds (stream_of st h) = None" using True Cons.prems(1) by (auto simp: fds_ok_def split: option.splits)
    then show ?thesis using True f by (intro next_one [of ?s]) (auto simp: fds_ok_def pending_fds_def set_stream_def)
  next
    case False
    from Cons.prems(1) False f show ?thesis
    proof (cases rule: queue_fd_cases [of h st f k])
      case (kept st')
      then show ?thesis using False by (intro next_one [of st']) simp_all
    next
      case refused
      from take_fds_closing [OF fs, of k h UV_ENOMEM "st\<lparr>syscalls := syscalls st + 1, fd_events := fd_events st @ [Closed f]\<rparr>"] obtain c where
        "take_fds k h fs (Some UV_ENOMEM) (st\<lparr>syscalls := syscalls st + 1, fd_events := fd_events st @ [Closed f]\<rparr>) =
          Some (Some UV_ENOMEM, st\<lparr>syscalls := c, fd_events := fd_events st @ Closed f # map Closed fs\<rparr>)" by auto
      then show ?thesis using False refused f Cons.prems(1)
        by (intro exI [of _ "Some UV_ENOMEM"] exI [of _ "st\<lparr>syscalls := c, fd_events := fd_events st @ Closed f # map Closed fs\<rparr>"] exI [of _ 0])
          (simp add: close_in_done fds_ok_events)
    qed
  qed
qed

text \<open>
  C25: The descriptors that come with a message join, in the order in which they were sent, those
  that wait to be accepted; from the first one on that cannot be stored, all are closed and the
  error is returned. None is lost and none is stored twice.
\<close>

theorem received_fds_kept_or_closed:
  assumes "fds_ok h st" "\<forall>f \<in> set (rights ms). f > 2"
  shows "\<exists>err st' n. uv__stream_recv_cmsg k h ms st = Some (err, st') \<and> fds_ok h st' \<and>
    pending_fds h st' = pending_fds h st @ take n (rights ms) \<and>
    fd_events st' = fd_events st @ map Closed (drop n (rights ms)) \<and>
    (err = None \<longrightarrow> n = length (rights ms)) \<and> (err \<noteq> None \<longrightarrow> n < length (rights ms))"
  using take_fds_kept [OF assms] unfolding uv__stream_recv_cmsg_def by blast

theorem received_fds_kept_or_closed_witness:
  "\<exists>st'. uv__stream_recv_cmsg two_bytes 5 [Some [7, 8], None, Some [9]] one_stream = Some (None, st') \<and> pending_fds 5 st' = [7, 8, 9]"
proof -
  have "map_option fst (uv__stream_recv_cmsg two_bytes 5 [Some [7, 8], None, Some [9]] one_stream) = Some None" by code_simp
  moreover have "fds_ok 5 one_stream" "\<forall>f \<in> set (rights [Some [7, 8], None, Some [9]]). f > 2" "pending_fds 5 one_stream = []"
    "rights [Some [7, 8], None, Some [9]] = [7, 8, 9]" by code_simp+
  ultimately show ?thesis
    using received_fds_kept_or_closed [of 5 one_stream "[Some [7, 8], None, Some [9]]" two_bytes] by fastforce
qed

text \<open>A stream on which no event is awaited gets a descriptor.\<close>

definition unused_watcher :: "ptr \<Rightarrow> streams \<Rightarrow> bool" where
  "unused_watcher h st \<longleftrightarrow> pevents (io (the_loop st) h) = 0 \<and> io_cb (io (the_loop st) h) \<noteq> No_io_cb"

lemma stream_open_cases:
  assumes "polling_ok (the_loop st)" "unused_watcher c st" "0 \<le> f"
  obtains (opened) st' where "uv__stream_open k c f w st = Some (None, st')" "polling_ok (the_loop st')" "stream_fd c st' = f"
      "\<And>g. g \<noteq> c \<Longrightarrow> io (the_loop st') g = io (the_loop st) g" "stream_flags c st' = stream_flags c st OR w"
      "watchers (the_loop st') = watchers (the_loop st)" "nwatchers (the_loop st') = nwatchers (the_loop st)"
      "stream_of st' = stream_of st" "fd_events st' = fd_events st"
    | (failed) e st' where "uv__stream_open k c f w st = Some (Some e, st')" "polling_ok (the_loop st')"
      "io (the_loop st') = io (the_loop st)" "watchers (the_loop st') = watchers (the_loop st)"
      "nwatchers (the_loop st') = nwatchers (the_loop st)" "stream_of st' = stream_of st" "fd_events st' = fd_events st"
proof -
  let ?s = "set_stream_flags c (stream_flags c st OR w) st"
  let ?l = "set_flags c (stream_flags c st OR w) (the_loop st)"
  have io: "io ?l = io (the_loop st)" by (simp add: set_flags_def)
  have pl: "polling_ok ?l" by (rule polling_ok_flags [OF assms(1)])
  let ?x = "(io (the_loop st) c)\<lparr>fd := f\<rparr>"
  have ev: "events (io (the_loop st) c) = 0" using assms(1,2) by (auto simp: polling_ok_def io_ok_def unused_watcher_def)
  have x: "?x = \<lparr>io_cb = io_cb (io (the_loop st) c), pevents = 0, events = 0, fd = f\<rparr>"
    using assms(2) ev by (cases "io (the_loop st) c") (simp add: unused_watcher_def)
  have "\<exists>s'. uv__io_init c (io_cb (io (the_loop st) c)) f ?l = Some s' \<and> polling_ok s' \<and> s' = ?l\<lparr>io := (io ?l)(c := ?x)\<rparr>"
    unfolding x using io_init_ok [OF pl, of c "io_cb (io (the_loop st) c)" f] assms(2,3) by (simp add: unused_watcher_def io)
  then have px: "polling_ok (set_io c ?x ?l)" by (auto simp: set_io_def io)
  consider (busy) "\<not> (stream_fd c st = -1 \<or> stream_fd c st = f)"
    | (error) e where "stream_fd c st = -1 \<or> stream_fd c st = f" "uv__stream_open k c f w st = Some (Some e, ?s)"
    | (good) "stream_fd c st = -1 \<or> stream_fd c st = f" "uv__stream_open k c f w st = Some (None, set_stream_fd c f ?s)"
  proof -
    define tcp where "tcp \<longleftrightarrow> htype (handle (the_loop ?s) c) = UV_TCP"
    define e1 where "e1 = (if tcp \<and> stream_flags c ?s AND UV_HANDLE_TCP_NODELAY \<noteq> 0 then tcp_options k f UV_HANDLE_TCP_NODELAY else None)"
    define e2 where "e2 = (if tcp \<and> stream_flags c ?s AND UV_HANDLE_TCP_KEEPALIVE \<noteq> 0 then tcp_options k f UV_HANDLE_TCP_KEEPALIVE else None)"
    have "uv__stream_open k c f w st = (if e1 \<noteq> None then Some (e1, ?s) else if e2 \<noteq> None then Some (e2, ?s)
        else Some (None, set_stream_fd c f ?s))" if "stream_fd c st = -1 \<or> stream_fd c st = f"
      using that assms(3) unfolding uv__stream_open_def Let_def e1_def e2_def tcp_def by (simp only: not_less [symmetric] simp_thms if_False if_True)
    then show thesis using busy error good by (cases e1; cases e2) auto
  qed
  then show thesis
  proof cases
    case busy
    show thesis by (rule failed [of UV_EBUSY st]) (use busy assms(1) in \<open>simp_all add: uv__stream_open_def\<close>)
  next
    case error
    show thesis by (rule failed [OF error(2)]) (use pl io in \<open>simp_all add: set_stream_flags_def\<close>, simp_all add: set_flags_def)
  next
    case good
    have l: "the_loop (set_stream_fd c f ?s) = set_io c ?x ?l" by (simp add: set_stream_fd_def set_stream_flags_def io)
    show thesis
      by (rule opened [OF good(2)]) (use px in \<open>simp_all add: l stream_fd_def stream_flags_def io\<close>,
          simp_all add: set_flags_def set_io_def stream_flags_def set_stream_fd_def set_stream_flags_def)
  qed
qed

lemma next_accepted_ok:
  assumes "fds_ok g st" "pending_fds g st = f # fs" "stream_io_ok g st" "0 \<le> stream_fd g st"
  shows "\<exists>st'. next_accepted g b st = Some st' \<and> fds_ok g st' \<and> pending_fds g st' = fs \<and> same_loop st st' \<and> fd_events st' = fd_events st"
proof -
  have a: "accepted_fd (stream_of st g) = f" "accepted_fd (stream_of st g) \<noteq> -1"
    "fs = (case queued_fds (stream_of st g) of None \<Rightarrow> [] | Some q \<Rightarrow> queued q)"
    using assms(2) by (auto simp: pending_fds_def split: if_splits)
  show ?thesis
  proof (cases "queued_fds (stream_of st g)")
    case (Some q)
    then obtain x xs where q: "queued q = x # xs" "\<forall>y \<in> set (x # xs). y > 2" "length (x # xs) \<le> queued_size q"
      using assms(1) a by (cases "queued q") (auto simp: fds_ok_def pending_fds_def)
    let ?s = "set_stream g ((stream_of st g)\<lparr>accepted_fd := x, queued_fds := if xs = [] then None else Some (q\<lparr>queued := xs\<rparr>)\<rparr>) st"
    have "next_accepted g b st = Some ?s" using Some q by (simp add: next_accepted_def)
    moreover have "pending_fds g ?s = fs" "fds_ok g ?s"
      using q a(3) Some by (auto simp: pending_fds_def fds_ok_def set_stream_def)
    ultimately show ?thesis by (intro exI [of _ ?s]) (simp add: set_stream_def)
  next
    case None
    let ?s = "set_stream g ((stream_of st g)\<lparr>accepted_fd := -1\<rparr>) st"
    have p: "pending_fds g (?s\<lparr>the_loop := l\<rparr>) = fs" "fds_ok g (?s\<lparr>the_loop := l\<rparr>)" for l
      using a(3) None by (simp_all add: pending_fds_def fds_ok_def set_stream_def)
    have io: "stream_io_ok g ?s" "0 \<le> stream_fd g ?s"
      using assms(3,4) stream_io_cong [of ?s st g] by (simp_all add: set_stream_def stream_fd_def)
    from start_stream_io [OF io(1) POLLOUT_valid(2) io(2)] obtain l where l:
      "on_loop (uv__io_start g POLLIN) ?s = Some (?s\<lparr>the_loop := l\<rparr>)" "same_loop ?s (?s\<lparr>the_loop := l\<rparr>)" by blast
    have e: "?s\<lparr>the_loop := the_loop st\<rparr> = ?s" by (simp add: set_stream_def)
    have n: "next_accepted g b st = (if b then Some (?s\<lparr>the_loop := l\<rparr>) else Some ?s)"
      using None l(1) by (simp add: next_accepted_def Let_def)
    have sl: "same_loop st ?s" "same_loop st (?s\<lparr>the_loop := l\<rparr>)" "fd_events ?s = fd_events st"
      using l(2) by (simp_all add: set_stream_def same_loop_def)
    show ?thesis using n p [of l] p [of "the_loop st", unfolded e] sl by (cases b) simp_all
  qed
qed

text \<open>
  C24: \<open>uv_accept\<close> hands out the descriptors that wait in the order in which they came: the first
  one becomes the descriptor of the new stream or, when that cannot be set up, is closed; the
  others stay in order, and with none left the server waits for connections again.
\<close>

theorem accept_in_order:
  assumes "fds_ok g st" "pending_fds g st = f # fs" "stream_io_ok g st" "0 \<le> stream_fd g st"
    and "c \<noteq> g" "unused_watcher c st" "htype (handle (the_loop st) c) \<in> {UV_TCP, UV_NAMED_PIPE}"
  shows "\<exists>err st'. uv_accept k g c st = Some (err, st') \<and> fds_ok g st' \<and> pending_fds g st' = fs \<and>
    (err = None \<longrightarrow> stream_fd c st' = f \<and> fd_events st' = fd_events st) \<and>
    (err \<noteq> None \<longrightarrow> stream_fd c st' = stream_fd c st \<and> fd_events st' = fd_events st @ [Closed f])"
proof -
  have f: "accepted_fd (stream_of st g) = f" "f > 2" using assms(1,2) by (auto simp: pending_fds_def fds_ok_def split: if_splits)
  have pl: "polling_ok (the_loop st)" using assms(3) by (simp add: stream_io_ok_def)
  have moved: "fds_ok g st1 = fds_ok g st" "pending_fds g st1 = pending_fds g st" if "stream_of st1 = stream_of st" for st1
    using that by (simp_all add: fds_ok_def pending_fds_def cong: option.case_cong)
  have io1: "stream_io_ok g st1" "0 \<le> stream_fd g st1"
    if "polling_ok (the_loop st1)" "io (the_loop st1) g = io (the_loop st) g" "watchers (the_loop st1) = watchers (the_loop st)"
      "nwatchers (the_loop st1) = nwatchers (the_loop st)" for st1
    using that assms(3,4) by (simp_all add: stream_io_ok_def stream_fd_def fd_free_def)
  have acc: "uv_accept k g c st = Option.bind (uv__stream_open k c f (UV_HANDLE_READABLE OR UV_HANDLE_WRITABLE) st) (\<lambda>(err, st).
           Option.bind
             (if err \<noteq> None then close_in k f st
              else Some (set_stream_flags c (stream_flags c st OR UV_HANDLE_BOUND) st)) (\<lambda>st.
             map_option (Pair err) (next_accepted g (err = None) st)))"
    using f assms(7) by (auto simp: uv_accept_def Let_def)
  have "0 \<le> f" using f(2) by simp
  from pl assms(6) this show ?thesis
  proof (cases rule: stream_open_cases [of st c f k "UV_HANDLE_READABLE OR UV_HANDLE_WRITABLE"])
    case (opened st1)
    let ?s = "set_stream_flags c (stream_flags c st1 OR UV_HANDLE_BOUND) st1"
    have s: "stream_of ?s = stream_of st" "polling_ok (the_loop ?s)" "io (the_loop ?s) = io (the_loop st1)"
      "watchers (the_loop ?s) = watchers (the_loop st)" "nwatchers (the_loop ?s) = nwatchers (the_loop st)" "fd_events ?s = fd_events st"
      using opened polling_ok_flags [OF opened(2)] by (simp_all add: set_stream_flags_def) (simp_all add: set_flags_def)
    have g: "io (the_loop ?s) g = io (the_loop st) g" using s(3) opened(4) [of g] assms(5) by simp
    from next_accepted_ok [of g ?s f fs True] moved [OF s(1)] io1 [OF s(2) g s(4,5)] assms(1,2) obtain st2 where
      "next_accepted g True ?s = Some st2" "fds_ok g st2" "pending_fds g st2 = fs" "same_loop ?s st2" "fd_events st2 = fd_events ?s" by auto
    moreover have "stream_fd c ?s = f" using opened(3) s(3) by (simp add: stream_fd_def)
    ultimately show ?thesis using acc opened(1) s(6) same_loopD(3) [of ?s st2 c] by simp
  next
    case (failed e st1)
    let ?s = "st1\<lparr>syscalls := syscalls st1 + 1, fd_events := fd_events st1 @ [Closed f]\<rparr>"
    have g: "io (the_loop ?s) g = io (the_loop st) g" "polling_ok (the_loop ?s)" "stream_of ?s = stream_of st"
      "watchers (the_loop ?s) = watchers (the_loop st)" "nwatchers (the_loop ?s) = nwatchers (the_loop st)" using failed by simp_all
    from next_accepted_ok [of g ?s f fs False] moved [OF g(3)] io1 [OF g(2,1,4,5)] assms(1,2) obtain st2 where
      "next_accepted g False ?s = Some st2" "fds_ok g st2" "pending_fds g st2 = fs" "same_loop ?s st2" "fd_events st2 = fd_events ?s" by auto
    moreover have "stream_fd c ?s = stream_fd c st" using failed(3) by (simp add: stream_fd_def)
    ultimately show ?thesis using acc failed(1,7) f(2) same_loopD(3) [of ?s st2 c] by (simp add: close_in_done)
  qed
qed

text \<open>The stream 5 after three descriptors, and the stream 6 to accept the first.\<close>

definition three_received :: streams where
  "three_received = (let st = snd (the (uv__stream_recv_cmsg two_bytes 5 [Some [7, 8, 9]] one_stream));
      s = the (uv__io_init 6 Uv__stream_io (-1) (the_loop st))
    in st\<lparr>the_loop := s\<lparr>handle := (handle s)(6 := \<lparr>htype = UV_TCP, flags = 8, close_cb = NULL\<rparr>)\<rparr>\<rparr>)"

theorem accept_in_order_witness:
  "\<exists>st'. uv_accept two_bytes 5 6 three_received = Some (None, st') \<and> stream_fd 6 st' = 7 \<and> pending_fds 5 st' = [8, 9]"
proof -
  have "fds_ok 5 one_stream" "\<forall>f \<in> set (rights [Some [7, 8, 9]]). f > 2" by code_simp+
  from take_fds_kept [OF this, of two_bytes] obtain err st n where
    r: "uv__stream_recv_cmsg two_bytes 5 [Some [7, 8, 9]] one_stream = Some (err, st)" "fds_ok 5 st" "the_loop st = the_loop one_stream"
    by (auto simp: uv__stream_recv_cmsg_def)
  have io: "stream_io_ok 5 one_stream" using one_stream_ok(1) by (simp add: writes_ok_def)
  then have pl: "polling_ok (the_loop one_stream)" by (simp add: stream_io_ok_def)
  have "pevents (io (the_loop one_stream) 6) = 0" by code_simp
  from io_init_ok [OF pl this, of Uv__stream_io "-1"] obtain s where
    s: "uv__io_init 6 Uv__stream_io (-1) (the_loop one_stream) = Some s" "polling_ok s"
      "s = (the_loop one_stream)\<lparr>io := (io (the_loop one_stream))(6 := \<lparr>io_cb = Uv__stream_io, pevents = 0, events = 0, fd = -1\<rparr>)\<rparr>" by auto
  have three: "three_received = st\<lparr>the_loop := s\<lparr>handle := (handle s)(6 := \<lparr>htype = UV_TCP, flags = 8, close_cb = NULL\<rparr>)\<rparr>\<rparr>"
    by (simp add: three_received_def r(1,3) s(1))
  have io3: "stream_io_ok 5 three_received"
    using io polling_ok_handle [OF s(2)] by (simp add: three stream_io_ok_def stream_fd_def fd_free_def) (simp add: s(3))
  have "fds_ok 5 three_received" using r(2) by (simp add: three fds_ok_def pending_fds_def cong: option.case_cong)
  moreover have "pending_fds 5 three_received = 7 # [8, 9]" "0 \<le> stream_fd 5 three_received" "unused_watcher 6 three_received"
    "htype (handle (the_loop three_received) 6) \<in> {UV_TCP, UV_NAMED_PIPE}" by code_simp+
  ultimately have "\<exists>err st'. uv_accept two_bytes 5 6 three_received = Some (err, st') \<and> fds_ok 5 st' \<and> pending_fds 5 st' = [8, 9] \<and>
    (err = None \<longrightarrow> stream_fd 6 st' = 7 \<and> fd_events st' = fd_events three_received) \<and>
    (err \<noteq> None \<longrightarrow> stream_fd 6 st' = stream_fd 6 three_received \<and> fd_events st' = fd_events three_received @ [Closed 7])"
    using io3 by (intro accept_in_order) simp_all
  moreover have "map_option fst (uv_accept two_bytes 5 6 three_received) = Some None" by code_simp
  ultimately show ?thesis by auto
qed

end
