(* ===== verification/Udp.thy ===== *)
theory Udp
  imports Reading Inet
begin

unbundle bit_operations_syntax

text \<open>
  \<^verbatim>\<open>unix/udp.c\<close> and its callers in \<^verbatim>\<open>uv-common.c\<close>: datagrams are queued on a handle, sent in
  order one by one or in batches, and called back from a second queue; receiving, binding and
  connecting. The I/O watcher of a handle has the name of the handle. The theorems are about
  sending: the order, the callbacks while programs submit more, and closing.
\<close>

section \<open>The state\<close>

definition UV_HANDLE_IPV6 :: u32 where "UV_HANDLE_IPV6 = 0x400000"
definition UV_HANDLE_UDP_PROCESSING :: u32 where "UV_HANDLE_UDP_PROCESSING = 0x1000000"
definition UV_HANDLE_UDP_RECVMMSG :: u32 where "UV_HANDLE_UDP_RECVMMSG = 0x4000000"

definition UV_UDP_IPV6ONLY :: u32 where "UV_UDP_IPV6ONLY = 1"
definition UV_UDP_PARTIAL :: u32 where "UV_UDP_PARTIAL = 2"
definition UV_UDP_REUSEADDR :: u32 where "UV_UDP_REUSEADDR = 4"
definition UV_UDP_MMSG_CHUNK :: u32 where "UV_UDP_MMSG_CHUNK = 8"
definition UV_UDP_MMSG_FREE :: u32 where "UV_UDP_MMSG_FREE = 16"
definition UV_UDP_LINUX_RECVERR :: u32 where "UV_UDP_LINUX_RECVERR = 32"
definition UV_UDP_REUSEPORT :: u32 where "UV_UDP_REUSEPORT = 64"
definition UV_UDP_RECVMMSG :: u32 where "UV_UDP_RECVMMSG = 256"

definition UV__UDP_DGRAM_MAXSIZE :: nat where "UV__UDP_DGRAM_MAXSIZE = 65536"

text \<open>The address of a request is \<open>None\<close> for \<open>AF_UNSPEC\<close>; its status is an error or a count.\<close>

record udp_request =
  udp_handle :: ptr
  send_cb :: ptr
  send_addr :: "sockaddr option"
  send_bufs :: "uv_buf list option"
  send_nbufs :: nat
  send_status :: "uv_errno + nat"

record uv_udp =
  send_queue_size :: u64
  send_queue_count :: u64
  udp_write_queue :: "ptr list"
  udp_completed_queue :: "ptr list"
  udp_alloc_cb :: ptr
  udp_recv_cb :: ptr

datatype udp_call =
  Send_cb ptr "uv_errno option"
| Recv_cb ptr "uv_errno + nat" uv_buf "sockaddr option" u32

text \<open>\<open>datagrams\<close> is what the kernel has taken from each handle, in its order.\<close>

record udps =
  udp_loop :: uv_loop
  udp_of :: "ptr \<Rightarrow> uv_udp"
  send_of :: "ptr \<Rightarrow> udp_request"
  udp_memory :: "ptr \<Rightarrow> u8"
  datagrams :: "ptr \<Rightarrow> (sockaddr option \<times> u8 list) list"
  udp_syscalls :: nat
  udp_fd_events :: "fd_event list"
  udp_calls :: "udp_call list"

text \<open>
  The options of sockets that are set, with what they are given; addresses of groups, interfaces
  and sources are those that \<open>uv_ip4_addr\<close> and \<open>uv_ip6_addr\<close> give.
\<close>

datatype (plugins only: code) socket_option =
  SO_REUSEADDR | IP_RECVERR | IPV6_RECVERR | IPV6_V6ONLY | SO_REUSEPORT | SO_BROADCAST int
| IP_TTL int | IPV6_UNICAST_HOPS int | IP_MULTICAST_TTL int | IPV6_MULTICAST_HOPS int
| IP_MULTICAST_LOOP int | IPV6_MULTICAST_LOOP int | IP_MULTICAST_IF "u8 list" | IPV6_MULTICAST_IF u32
| IP_ADD_MEMBERSHIP "u8 list" "u8 list" | IP_DROP_MEMBERSHIP "u8 list" "u8 list"
| IPV6_ADD_MEMBERSHIP "u8 list" u32 | IPV6_DROP_MEMBERSHIP "u8 list" u32
| IP_ADD_SOURCE_MEMBERSHIP "u8 list" "u8 list" "u8 list" | IP_DROP_SOURCE_MEMBERSHIP "u8 list" "u8 list" "u8 list"
| MCAST_JOIN_SOURCE_GROUP u32 sockaddr_in6 sockaddr_in6 | MCAST_LEAVE_SOURCE_GROUP u32 sockaddr_in6 sockaddr_in6

text \<open>
  The system: its answers to \<open>sendmsg\<close> (a datagram goes out whole or not at all), to \<open>sendmmsg\<close>
  (how many of the datagrams it takes, at least one), to \<open>recvmsg\<close> and \<open>recvmmsg\<close> (the bytes, the
  sender and whether the datagram was cut), to \<open>connect\<close> (no address: the connection is
  dissolved), the errors of \<open>bind\<close> and of socket options, whether a socket has a peer, whether an
  allocation of so many elements succeeds, and the calls of \<open>Syscalls\<close>.
\<close>

record udp_system =
  sys_sendmsg :: "int \<Rightarrow> sockaddr option \<Rightarrow> u8 list \<Rightarrow> unit answers"
  sys_sendmmsg :: "int \<Rightarrow> (sockaddr option \<times> u8 list) list \<Rightarrow> nat answers"
  sys_recvmsg :: "int \<Rightarrow> nat \<Rightarrow> (u8 list \<times> sockaddr option \<times> bool) answers"
  sys_recvmmsg :: "int \<Rightarrow> nat \<Rightarrow> (u8 list \<times> sockaddr option \<times> bool) list answers"
  sys_connect :: "int \<Rightarrow> sockaddr option \<Rightarrow> unit answers"
  sys_bind :: "int \<Rightarrow> sockaddr \<Rightarrow> uv_errno option"
  setsockopt :: "int \<Rightarrow> socket_option \<Rightarrow> uv_errno option"
  has_peer :: "int \<Rightarrow> bool"
  udp_malloc_ok :: "nat \<Rightarrow> bool"
  udp_descriptors :: "nat \<Rightarrow> fd_calls"

record udp_client =
  on_udp_call :: "udp_call \<Rightarrow> udps \<Rightarrow> udps option"
  on_udp_alloc :: "ptr \<Rightarrow> nat \<Rightarrow> udps \<Rightarrow> (uv_buf \<times> udps) option"

definition set_udp :: "ptr \<Rightarrow> uv_udp \<Rightarrow> udps \<Rightarrow> udps" where
  "set_udp h x st = st\<lparr>udp_of := (udp_of st)(h := x)\<rparr>"

definition set_send :: "ptr \<Rightarrow> udp_request \<Rightarrow> udps \<Rightarrow> udps" where
  "set_send r x st = st\<lparr>send_of := (send_of st)(r := x)\<rparr>"

definition on_udp_loop :: "(uv_loop \<Rightarrow> uv_loop option) \<Rightarrow> udps \<Rightarrow> udps option" where
  "on_udp_loop f st = map_option (\<lambda>s. st\<lparr>udp_loop := s\<rparr>) (f (udp_loop st))"

definition udp_notify :: "udp_client \<Rightarrow> udp_call \<Rightarrow> udps \<Rightarrow> udps option" where
  "udp_notify client c st = on_udp_call client c (st\<lparr>udp_calls := udp_calls st @ [c]\<rparr>)"

definition udp_flags :: "ptr \<Rightarrow> udps \<Rightarrow> u32" where
  "udp_flags h st = flags (handle (udp_loop st) h)"

definition set_udp_flags :: "ptr \<Rightarrow> u32 \<Rightarrow> udps \<Rightarrow> udps" where
  "set_udp_flags h w st = st\<lparr>udp_loop := set_flags h w (udp_loop st)\<rparr>"

definition udp_fd :: "ptr \<Rightarrow> udps \<Rightarrow> int" where
  "udp_fd h st = fd (io (udp_loop st) h)"

definition set_udp_fd :: "ptr \<Rightarrow> int \<Rightarrow> udps \<Rightarrow> udps" where
  "set_udp_fd h f st = st\<lparr>udp_loop := set_io h ((io (udp_loop st) h)\<lparr>fd := f\<rparr>) (udp_loop st)\<rparr>"

definition udp_active :: "ptr \<Rightarrow> u32 \<Rightarrow> udps \<Rightarrow> bool option" where
  "udp_active h ev st = uv__io_active h ev (udp_loop st)"

section \<open>Sending\<close>

definition udp_bytes :: "udps \<Rightarrow> uv_buf list \<Rightarrow> u8 list" where
  "udp_bytes st bs = concat (map (\<lambda>b. map (udp_memory st) [buf_base b..<buf_base b + buf_len b]) bs)"

text \<open>What a request asks the kernel to send; an address of another family aborts.\<close>

definition AF_UNIX :: int where "AF_UNIX = 1"

definition supported :: "sockaddr option \<Rightarrow> bool" where
  "supported a \<longleftrightarrow> (case a of Some (Sockaddr_other n) \<Rightarrow> n = AF_UNIX | _ \<Rightarrow> True)"

definition datagram_of :: "udps \<Rightarrow> ptr \<Rightarrow> (sockaddr option \<times> u8 list) option" where
  "datagram_of st r =
     (if supported (send_addr (send_of st r)) then
        map_option (\<lambda>bs. (send_addr (send_of st r), udp_bytes st bs)) (send_bufs (send_of st r))
      else None)"

text \<open>A request is over: it gets its status and goes from one queue to the other.\<close>

definition send_done :: "ptr \<Rightarrow> uv_errno + nat \<Rightarrow> ptr \<Rightarrow> udps \<Rightarrow> udps" where
  "send_done h res r st =
     (let st = set_send r ((send_of st r)\<lparr>send_status := res\<rparr>) st;
          x = udp_of st h
      in set_udp h (x\<lparr>udp_write_queue := remove1 r (udp_write_queue x), udp_completed_queue := udp_completed_queue x @ [r]\<rparr>) st)"

definition udp_feed :: "ptr \<Rightarrow> udps \<Rightarrow> udps" where
  "udp_feed h st = st\<lparr>udp_loop := uv__io_feed h (udp_loop st)\<rparr>"

definition busy_error :: "uv_errno \<Rightarrow> bool" where
  "busy_error e \<longleftrightarrow> e = UV_EAGAIN \<or> e = UV_ENOBUFS"

partial_function (option) uv__udp_sendmsg_one :: "udp_system \<Rightarrow> ptr \<Rightarrow> udps \<Rightarrow> udps option" where
  "uv__udp_sendmsg_one k h st =
     (case udp_write_queue (udp_of st h) of
        [] \<Rightarrow> Some st
      | r # _ \<Rightarrow>
          Option.bind (datagram_of st r) (\<lambda>(a, data).
          Option.bind (retry [UV_EINTR] (sys_sendmsg k (udp_fd h st) a data) (udp_syscalls st)) (\<lambda>(res, n).
            let st = st\<lparr>udp_syscalls := n\<rparr>
            in case res of
                 Inl e \<Rightarrow>
                   if busy_error e then Some st
                   else uv__udp_sendmsg_one k h (udp_feed h (send_done h (Inl e) r st))
               | Inr _ \<Rightarrow>
                   uv__udp_sendmsg_one k h (udp_feed h (send_done h (Inr (length data)) r
                     (st\<lparr>datagrams := (datagrams st)(h := datagrams st h @ [(a, data)])\<rparr>))))))"

declare uv__udp_sendmsg_one.simps [code]

text \<open>
  A batch: at most 20 datagrams. An error is reported to every request of the batch. With no
  datagram taken and no error, \<open>errno\<close> would be an old one; the kernel does not do that.
\<close>

definition first_len :: "udps \<Rightarrow> ptr \<Rightarrow> nat" where
  "first_len st r = (case send_bufs (send_of st r) of Some (b # _) \<Rightarrow> buf_len b | _ \<Rightarrow> 0)"

fun all_done :: "ptr \<Rightarrow> (udps \<Rightarrow> ptr \<Rightarrow> uv_errno + nat) \<Rightarrow> ptr list \<Rightarrow> udps \<Rightarrow> udps" where
  "all_done h f [] st = st"
| "all_done h f (r # rs) st = all_done h f rs (send_done h (f st r) r st)"

partial_function (option) uv__udp_sendmsg_many :: "udp_system \<Rightarrow> ptr \<Rightarrow> udps \<Rightarrow> udps option" where
  "uv__udp_sendmsg_many k h st =
     (let rs = take 20 (udp_write_queue (udp_of st h))
      in Option.bind (those (map (datagram_of st) rs)) (\<lambda>ds.
         Option.bind (retry [UV_EINTR] (sys_sendmmsg k (udp_fd h st) ds) (udp_syscalls st)) (\<lambda>(res, n).
           let st = st\<lparr>udp_syscalls := n\<rparr>
           in case res of
                Inl e \<Rightarrow>
                  Some (if busy_error e then st else udp_feed h (all_done h (\<lambda>_ _. Inl e) rs st))
              | Inr m \<Rightarrow>
                  if m < 1 then None
                  else
                    let st = all_done h (\<lambda>st r. Inr (first_len st r)) (take m rs)
                               (st\<lparr>datagrams := (datagrams st)(h := datagrams st h @ take m ds)\<rparr>)
                    in if udp_write_queue (udp_of st h) \<noteq> [] then uv__udp_sendmsg_many k h st
                       else Some (udp_feed h st))))"

declare uv__udp_sendmsg_many.simps [code]

definition uv__udp_sendmsg :: "udp_system \<Rightarrow> ptr \<Rightarrow> udps \<Rightarrow> udps option" where
  "uv__udp_sendmsg k h st =
     (case udp_write_queue (udp_of st h) of
        [] \<Rightarrow> Some st
      | r # rs \<Rightarrow>
          if send_nbufs (send_of st r) \<noteq> 1 \<or> rs \<noteq> [] then uv__udp_sendmsg_many k h st
          else uv__udp_sendmsg_one k h st)"

text \<open>The callbacks of the requests that are over.\<close>

partial_function (option) run_completed :: "udp_client \<Rightarrow> ptr \<Rightarrow> udps \<Rightarrow> udps option" where
  "run_completed client h st =
     (case udp_completed_queue (udp_of st h) of
        [] \<Rightarrow> Some st
      | r # rs \<Rightarrow>
          let st = set_udp h ((udp_of st h)\<lparr>udp_completed_queue := rs\<rparr>) st
          in Option.bind (on_udp_loop uv__req_unregister st) (\<lambda>st.
             Option.bind (send_bufs (send_of st r)) (\<lambda>bs.
               let x = udp_of st h;
                   st = set_udp h (x\<lparr>send_queue_size := send_queue_size x - uv__count_bufs bs,
                     send_queue_count := send_queue_count x - 1\<rparr>) st;
                   st = set_send r ((send_of st r)\<lparr>send_bufs := None\<rparr>) st
               in Option.bind
                    (if send_cb (send_of st r) = NULL then Some st
                     else udp_notify client (Send_cb r (case send_status (send_of st r) of Inr _ \<Rightarrow> None | Inl e \<Rightarrow> Some e)) st)
                    (run_completed client h))))"

declare run_completed.simps [code]

definition uv__udp_run_completed :: "udp_client \<Rightarrow> ptr \<Rightarrow> udps \<Rightarrow> udps option" where
  "uv__udp_run_completed client h st =
     (if udp_flags h st AND UV_HANDLE_UDP_PROCESSING \<noteq> 0 then None
      else
        let st = set_udp_flags h (udp_flags h st OR UV_HANDLE_UDP_PROCESSING) st
        in Option.bind (run_completed client h st) (\<lambda>st.
           Option.bind
             (if udp_write_queue (udp_of st h) = [] then
                Option.bind (on_udp_loop (uv__io_stop h POLLOUT) st) (\<lambda>st.
                  map_option (\<lambda>act. if act then st else st\<lparr>udp_loop := uv__handle_stop h (udp_loop st)\<rparr>)
                    (udp_active h POLLIN st))
              else Some st) (\<lambda>st.
             Some (set_udp_flags h (udp_flags h st AND NOT UV_HANDLE_UDP_PROCESSING) st))))"

section \<open>Receiving\<close>

definition uv_udp_using_recvmmsg :: "ptr \<Rightarrow> udps \<Rightarrow> bool" where
  "uv_udp_using_recvmmsg h st \<longleftrightarrow> udp_flags h st AND UV_HANDLE_UDP_RECVMMSG \<noteq> 0"

text \<open>
  The callback to receive is read again for each call. Data that is received is put into the
  buffer, which the model shows in the memory.
\<close>

definition receive_cb :: "udp_client \<Rightarrow> ptr \<Rightarrow> uv_errno + nat \<Rightarrow> uv_buf \<Rightarrow> sockaddr option \<Rightarrow> u32 \<Rightarrow> udps \<Rightarrow> udps option" where
  "receive_cb client h n b a w st =
     (if udp_recv_cb (udp_of st h) = NULL then None else udp_notify client (Recv_cb h n b a w) st)"

definition fill :: "ptr \<Rightarrow> u8 list \<Rightarrow> udps \<Rightarrow> udps" where
  "fill p data st = st\<lparr>udp_memory := (\<lambda>q. if p \<le> q \<and> q < p + length data then data ! (q - p) else udp_memory st q)\<rparr>"

definition partial_flag :: "bool \<Rightarrow> u32" where
  "partial_flag trunc = (if trunc then UV_UDP_PARTIAL else 0)"

fun pass_chunks :: "udp_client \<Rightarrow> ptr \<Rightarrow> ptr \<Rightarrow> nat \<Rightarrow> (u8 list \<times> sockaddr option \<times> bool) list \<Rightarrow> udps \<Rightarrow> udps option" where
  "pass_chunks client h p i [] st = Some st"
| "pass_chunks client h p i ((data, peer, trunc) # ms) st =
     (if udp_recv_cb (udp_of st h) = NULL then Some st
      else
        Option.bind
          (receive_cb client h (Inr (length data)) \<lparr>buf_base = p + i * UV__UDP_DGRAM_MAXSIZE, buf_len = UV__UDP_DGRAM_MAXSIZE\<rparr>
             peer (UV_UDP_MMSG_CHUNK OR partial_flag trunc) st)
          (pass_chunks client h p (i + 1) ms))"

fun fill_chunks :: "ptr \<Rightarrow> nat \<Rightarrow> (u8 list \<times> sockaddr option \<times> bool) list \<Rightarrow> udps \<Rightarrow> udps" where
  "fill_chunks p i [] st = st"
| "fill_chunks p i ((data, _, _) # ms) st = fill_chunks p (i + 1) ms (fill (p + i * UV__UDP_DGRAM_MAXSIZE) data st)"

text \<open>The result is the number of datagrams, or an error of the system.\<close>

definition uv__udp_recvmmsg :: "udp_system \<Rightarrow> udp_client \<Rightarrow> ptr \<Rightarrow> uv_buf \<Rightarrow> udps \<Rightarrow> ((uv_errno + nat) \<times> udps) option" where
  "uv__udp_recvmmsg k client h b st =
     (let chunks = min (buf_len b div UV__UDP_DGRAM_MAXSIZE) 20
      in Option.bind (retry [UV_EINTR] (sys_recvmmsg k (udp_fd h st) chunks) (udp_syscalls st)) (\<lambda>(res, n).
           let st = st\<lparr>udp_syscalls := n\<rparr>
           in case res of
                Inl e \<Rightarrow> map_option (Pair (Inl e)) (receive_cb client h (if e = UV_EAGAIN then Inr 0 else Inl e) b None 0 st)
              | Inr [] \<Rightarrow> map_option (Pair (Inr 0)) (receive_cb client h (Inr 0) b None 0 st)
              | Inr (m # ms) \<Rightarrow>
                  Option.bind (pass_chunks client h (buf_base b) 0 (m # ms) (fill_chunks (buf_base b) 0 (m # ms) st)) (\<lambda>st.
                    map_option (Pair (Inr (length (m # ms))))
                      (if udp_recv_cb (udp_of st h) = NULL then Some st
                       else receive_cb client h (Inr 0) b None UV_UDP_MMSG_FREE st))))"

text \<open>
  One round of the loop: what is left of the count of 32, and whether the last receive failed.
  Datagrams are received one by one or in batches.
\<close>

definition receive_round :: "udp_system \<Rightarrow> udp_client \<Rightarrow> ptr \<Rightarrow> int \<Rightarrow> udps \<Rightarrow> ((int \<times> bool) option \<times> udps) option" where
  "receive_round k client h left st =
     Option.bind (if udp_alloc_cb (udp_of st h) = NULL then None else on_udp_alloc client h UV__UDP_DGRAM_MAXSIZE st) (\<lambda>(b, st).
       if buf_base b = NULL \<or> buf_len b = 0 then map_option (Pair None) (receive_cb client h (Inl UV_ENOBUFS) b None 0 st)
       else if uv_udp_using_recvmmsg h st then
         map_option (\<lambda>(res, st). (Some (case res of Inl _ \<Rightarrow> (left, True) | Inr n \<Rightarrow> (left - int n, False)), st))
           (uv__udp_recvmmsg k client h b st)
       else
         Option.bind (retry [UV_EINTR] (sys_recvmsg k (udp_fd h st) (buf_len b)) (udp_syscalls st)) (\<lambda>(res, n).
           let st = st\<lparr>udp_syscalls := n\<rparr>
           in case res of
                Inl e \<Rightarrow>
                  map_option (Pair (Some (left - 1, True))) (receive_cb client h (if e = UV_EAGAIN then Inr 0 else Inl e) b None 0 st)
              | Inr (data, peer, trunc) \<Rightarrow>
                  map_option (Pair (Some (left - 1, False)))
                    (receive_cb client h (Inr (length data)) b peer (partial_flag trunc) (fill (buf_base b) data st))))"

partial_function (option) receive_loop :: "udp_system \<Rightarrow> udp_client \<Rightarrow> ptr \<Rightarrow> int \<Rightarrow> udps \<Rightarrow> udps option" where
  "receive_loop k client h left st =
     Option.bind (receive_round k client h left st) (\<lambda>(res, st).
       case res of
         None \<Rightarrow> Some st
       | Some (left, failed) \<Rightarrow>
           if \<not> failed \<and> left > 0 \<and> udp_fd h st \<noteq> -1 \<and> udp_recv_cb (udp_of st h) \<noteq> NULL
           then receive_loop k client h left st else Some st)"

declare receive_loop.simps [code]

definition uv__udp_recvmsg :: "udp_system \<Rightarrow> udp_client \<Rightarrow> ptr \<Rightarrow> udps \<Rightarrow> udps option" where
  "uv__udp_recvmsg k client h st =
     (if udp_recv_cb (udp_of st h) = NULL \<or> udp_alloc_cb (udp_of st h) = NULL then None
      else receive_loop k client h 32 st)"

definition uv__udp_io :: "udp_system \<Rightarrow> udp_client \<Rightarrow> ptr \<Rightarrow> u32 \<Rightarrow> udps \<Rightarrow> udps option" where
  "uv__udp_io k client h ev st =
     (if htype (handle (udp_loop st) h) \<noteq> UV_UDP then None
      else
        Option.bind (if ev AND POLLIN \<noteq> 0 then uv__udp_recvmsg k client h st else Some st) (\<lambda>st.
          if ev AND POLLOUT \<noteq> 0 \<and> \<not> uv__is_closing h (udp_loop st)
          then Option.bind (uv__udp_sendmsg k h st) (uv__udp_run_completed client h)
          else Some st))"

section \<open>Closing\<close>

definition uv__udp_close :: "udp_system \<Rightarrow> ptr \<Rightarrow> udps \<Rightarrow> udps option" where
  "uv__udp_close k h st =
     Option.bind (on_udp_loop (uv__io_close h) st) (\<lambda>st.
       let st = st\<lparr>udp_loop := uv__handle_stop h (udp_loop st)\<rparr>
       in if udp_fd h st \<noteq> -1 then
            map_option (\<lambda>_. set_udp_fd h (-1) (st\<lparr>udp_syscalls := udp_syscalls st + 1,
                udp_fd_events := udp_fd_events st @ [Closed (udp_fd h st)]\<rparr>))
              (uv__close (udp_descriptors k (udp_syscalls st)) (udp_fd h st))
          else Some st)"

definition uv__udp_finish_close :: "udp_client \<Rightarrow> ptr \<Rightarrow> udps \<Rightarrow> udps option" where
  "uv__udp_finish_close client h st =
     (if udp_active h (POLLIN OR POLLOUT) st \<noteq> Some False \<or> udp_fd h st \<noteq> -1 then None
      else
        Option.bind (uv__udp_run_completed client h
            (all_done h (\<lambda>_ _. Inl UV_ECANCELED) (udp_write_queue (udp_of st h)) st)) (\<lambda>st.
          if send_queue_size (udp_of st h) = 0 \<and> send_queue_count (udp_of st h) = 0
          then Some (set_udp h ((udp_of st h)\<lparr>udp_recv_cb := NULL, udp_alloc_cb := NULL\<rparr>) st)
          else None))"

section \<open>Opening, binding and connecting\<close>

definition uv__sock_reuseaddr :: "udp_system \<Rightarrow> int \<Rightarrow> uv_errno option" where
  "uv__sock_reuseaddr k f = setsockopt k f SO_REUSEADDR"

definition uv__set_recverr :: "udp_system \<Rightarrow> int \<Rightarrow> sockaddr \<Rightarrow> uv_errno option" where
  "uv__set_recverr k f a =
     (case a of
        Sockaddr_in _ \<Rightarrow> setsockopt k f IP_RECVERR
      | Sockaddr_in6 _ \<Rightarrow> setsockopt k f IPV6_RECVERR
      | Sockaddr_other _ \<Rightarrow> None)"

definition is_in6 :: "sockaddr \<Rightarrow> bool" where
  "is_in6 a \<longleftrightarrow> (case a of Sockaddr_in6 _ \<Rightarrow> True | _ \<Rightarrow> False)"

definition first_error :: "uv_errno option list \<Rightarrow> uv_errno option" where
  "first_error es = (case filter (\<lambda>e. e \<noteq> None) es of [] \<Rightarrow> None | e # _ \<Rightarrow> e)"

text \<open>
  The options of a socket in their order up to the first that fails. \<open>uv__sock_reuseport\<close> is
  the option of Linux.
\<close>

definition bind_options :: "udp_system \<Rightarrow> int \<Rightarrow> sockaddr \<Rightarrow> u32 \<Rightarrow> uv_errno option" where
  "bind_options k f a w =
     first_error
       [if w AND UV_UDP_LINUX_RECVERR \<noteq> 0 then uv__set_recverr k f a else None,
        if w AND UV_UDP_REUSEADDR \<noteq> 0 then uv__sock_reuseaddr k f else None,
        if w AND UV_UDP_REUSEPORT \<noteq> 0 then setsockopt k f SO_REUSEPORT else None,
        if w AND UV_UDP_IPV6ONLY \<noteq> 0 then setsockopt k f IPV6_V6ONLY else None]"

definition uv__udp_bind :: "udp_system \<Rightarrow> ptr \<Rightarrow> sockaddr \<Rightarrow> u32 \<Rightarrow> udps \<Rightarrow> (uv_errno option \<times> udps) option" where
  "uv__udp_bind k h a w st =
     (if w AND NOT (UV_UDP_IPV6ONLY OR UV_UDP_REUSEADDR OR UV_UDP_REUSEPORT OR UV_UDP_LINUX_RECVERR) \<noteq> 0 then Some (Some UV_EINVAL, st)
      else if w AND UV_UDP_IPV6ONLY \<noteq> 0 \<and> \<not> is_in6 a then Some (Some UV_EINVAL, st)
      else
        Option.bind
          (if udp_fd h st = -1 then
             map_option (\<lambda>(r, es).
               let st = st\<lparr>udp_syscalls := udp_syscalls st + 1, udp_fd_events := udp_fd_events st @ es\<rparr>
               in case r of Inl e \<Rightarrow> (Some e, st) | Inr f \<Rightarrow> (None, set_udp_fd h f st))
               (uv__socket (udp_descriptors k (udp_syscalls st)))
           else Some (None, st)) (\<lambda>(err, st).
          if err \<noteq> None then Some (err, st)
          else
            let f = udp_fd h st
            in case bind_options k f a w of
                 Some e \<Rightarrow> Some (Some e, st)
               | None \<Rightarrow>
                   (case sys_bind k f a of
                      Some e \<Rightarrow> Some (Some (if e = UV_EAFNOSUPPORT then UV_EINVAL else e), st)
                    | None \<Rightarrow>
                        Some (None, set_udp_flags h (udp_flags h st OR (if is_in6 a then UV_HANDLE_IPV6 else 0) OR UV_HANDLE_BOUND) st))))"

text \<open>The wildcard address of a family; another family aborts.\<close>

definition any_addr :: "sockaddr \<Rightarrow> sockaddr option" where
  "any_addr a =
     (case a of
        Sockaddr_in _ \<Rightarrow> Some (Sockaddr_in \<lparr>sin_port = 0, sin_addr = replicate 4 0\<rparr>)
      | Sockaddr_in6 _ \<Rightarrow> Some (Sockaddr_in6 \<lparr>sin6_port = 0, sin6_scope_id = 0, sin6_addr = replicate 16 0\<rparr>)
      | Sockaddr_other _ \<Rightarrow> None)"

definition uv__udp_maybe_deferred_bind :: "udp_system \<Rightarrow> ptr \<Rightarrow> sockaddr \<Rightarrow> u32 \<Rightarrow> udps \<Rightarrow> (uv_errno option \<times> udps) option" where
  "uv__udp_maybe_deferred_bind k h a w st =
     (if udp_fd h st \<noteq> -1 then Some (None, st)
      else Option.bind (any_addr a) (\<lambda>any. uv__udp_bind k h any w st))"

definition uv__udp_connect :: "udp_system \<Rightarrow> ptr \<Rightarrow> sockaddr \<Rightarrow> udps \<Rightarrow> (uv_errno option \<times> udps) option" where
  "uv__udp_connect k h a st =
     Option.bind (uv__udp_maybe_deferred_bind k h a 0 st) (\<lambda>(err, st).
       if err \<noteq> None then Some (err, st)
       else
         map_option (\<lambda>(res, n).
           let st = st\<lparr>udp_syscalls := n\<rparr>
           in case res of
                Inl e \<Rightarrow> (Some e, st)
              | Inr _ \<Rightarrow> (None, set_udp_flags h (udp_flags h st OR UV_HANDLE_UDP_CONNECTED) st))
           (retry [UV_EINTR] (sys_connect k (udp_fd h st) (Some a)) (udp_syscalls st)))"

definition uv__udp_disconnect :: "udp_system \<Rightarrow> ptr \<Rightarrow> udps \<Rightarrow> (uv_errno option \<times> udps) option" where
  "uv__udp_disconnect k h st =
     map_option (\<lambda>(res, n).
       let st = st\<lparr>udp_syscalls := n\<rparr>
       in case res of
            Inl e \<Rightarrow> (Some e, st)
          | Inr _ \<Rightarrow> (None, set_udp_flags h (udp_flags h st AND NOT UV_HANDLE_UDP_CONNECTED) st))
       (retry [UV_EINTR] (sys_connect k (udp_fd h st) None) (udp_syscalls st))"

text \<open>The request gets the buffers inside it when there are at most four, else allocated ones.\<close>

definition uv__udp_send ::
  "udp_system \<Rightarrow> ptr \<Rightarrow> ptr \<Rightarrow> uv_buf list \<Rightarrow> sockaddr option \<Rightarrow> ptr \<Rightarrow> udps \<Rightarrow> (uv_errno option \<times> udps) option" where
  "uv__udp_send k r h bs a cb st =
     (if bs = [] then None
      else
        Option.bind (case a of None \<Rightarrow> Some (None, st) | Some a \<Rightarrow> uv__udp_maybe_deferred_bind k h a 0 st) (\<lambda>(err, st).
          if err \<noteq> None then Some (err, st)
          else
            let empty_queue = (send_queue_count (udp_of st h) = 0);
                q = (send_of st r)\<lparr>send_addr := a, send_cb := cb, udp_handle := h, send_nbufs := length bs\<rparr>;
                st = st\<lparr>udp_loop := uv__req_register (udp_loop st)\<rparr>
            in if length bs > 4 \<and> \<not> udp_malloc_ok k (length bs)
               then map_option (Pair (Some UV_ENOMEM)) (on_udp_loop uv__req_unregister (set_send r (q\<lparr>send_bufs := None\<rparr>) st))
               else
                 let st = set_send r (q\<lparr>send_bufs := Some bs\<rparr>) st;
                     x = udp_of st h;
                     st = set_udp h (x\<lparr>send_queue_size := send_queue_size x + uv__count_bufs bs,
                       send_queue_count := send_queue_count x + 1, udp_write_queue := udp_write_queue x @ [r]\<rparr>) st;
                     st = st\<lparr>udp_loop := uv__handle_start h (udp_loop st)\<rparr>
                 in map_option (Pair None)
                      (if empty_queue \<and> udp_flags h st AND UV_HANDLE_UDP_PROCESSING = 0 then
                         Option.bind (uv__udp_sendmsg k h st) (\<lambda>st.
                           if udp_write_queue (udp_of st h) \<noteq> [] then on_udp_loop (uv__io_start h POLLOUT) st else Some st)
                       else on_udp_loop (uv__io_start h POLLOUT) st)))"

definition uv__udp_try_send ::
  "udp_system \<Rightarrow> ptr \<Rightarrow> uv_buf list \<Rightarrow> sockaddr option \<Rightarrow> udps \<Rightarrow> ((uv_errno + nat) \<times> udps) option" where
  "uv__udp_try_send k h bs a st =
     (if bs = [] then None
      else if send_queue_count (udp_of st h) \<noteq> 0 then Some (Inl UV_EAGAIN, st)
      else
        Option.bind
          (case a of
             None \<Rightarrow> if udp_flags h st AND UV_HANDLE_UDP_CONNECTED \<noteq> 0 then Some (None, st) else None
           | Some a \<Rightarrow> uv__udp_maybe_deferred_bind k h a 0 st) (\<lambda>(err, st).
          case err of
            Some e \<Rightarrow> Some (Inl e, st)
          | None \<Rightarrow>
              let data = udp_bytes st bs
              in map_option (\<lambda>(res, n).
                   let st = st\<lparr>udp_syscalls := n\<rparr>
                   in case res of
                        Inl e \<Rightarrow> (Inl (if busy_error e then UV_EAGAIN else e), st)
                      | Inr _ \<Rightarrow> (Inr (length data), st\<lparr>datagrams := (datagrams st)(h := datagrams st h @ [(a, data)])\<rparr>))
                   (retry [UV_EINTR] (sys_sendmsg k (udp_fd h st) a data) (udp_syscalls st))))"

definition uv__udp_init_ex :: "udp_system \<Rightarrow> ptr \<Rightarrow> bool \<Rightarrow> udps \<Rightarrow> (uv_errno option \<times> udps) option" where
  "uv__udp_init_ex k h unspec st =
     Option.bind
       (if unspec then Some (Inr (-1), st)
        else
          map_option (\<lambda>(r, es). (r, st\<lparr>udp_syscalls := udp_syscalls st + 1, udp_fd_events := udp_fd_events st @ es\<rparr>))
            (uv__socket (udp_descriptors k (udp_syscalls st)))) (\<lambda>(r, st).
       case r of
         Inl e \<Rightarrow> Some (Some e, st)
       | Inr f \<Rightarrow>
           let st = st\<lparr>udp_loop := uv__handle_init UV_UDP h (udp_loop st)\<rparr>;
               st = set_udp h ((udp_of st h)\<lparr>udp_alloc_cb := NULL, udp_recv_cb := NULL, send_queue_size := 0, send_queue_count := 0\<rparr>) st
           in map_option (\<lambda>st. (None, set_udp h ((udp_of st h)\<lparr>udp_write_queue := [], udp_completed_queue := []\<rparr>) st))
                (on_udp_loop (uv__io_init h Uv__udp_io f) st))"

definition uv__udp_recv_start :: "udp_system \<Rightarrow> ptr \<Rightarrow> ptr \<Rightarrow> ptr \<Rightarrow> udps \<Rightarrow> (uv_errno option \<times> udps) option" where
  "uv__udp_recv_start k h alloc recv st =
     (if alloc = NULL \<or> recv = NULL then Some (Some UV_EINVAL, st)
      else if udp_active h POLLIN st = Some True then Some (Some UV_EALREADY, st)
      else
        Option.bind (uv__udp_maybe_deferred_bind k h (Sockaddr_in \<lparr>sin_port = 0, sin_addr = replicate 4 0\<rparr>) 0 st) (\<lambda>(err, st).
          if err \<noteq> None then Some (err, st)
          else
            map_option (\<lambda>st. (None, st\<lparr>udp_loop := uv__handle_start h (udp_loop st)\<rparr>))
              (on_udp_loop (uv__io_start h POLLIN) (set_udp h ((udp_of st h)\<lparr>udp_alloc_cb := alloc, udp_recv_cb := recv\<rparr>) st))))"

definition uv__udp_recv_stop :: "ptr \<Rightarrow> udps \<Rightarrow> udps option" where
  "uv__udp_recv_stop h st =
     Option.bind (on_udp_loop (uv__io_stop h POLLIN) st) (\<lambda>st.
     Option.bind (udp_active h POLLOUT st) (\<lambda>act.
       let st = (if act then st else st\<lparr>udp_loop := uv__handle_stop h (udp_loop st)\<rparr>)
       in Some (set_udp h ((udp_of st h)\<lparr>udp_alloc_cb := NULL, udp_recv_cb := NULL\<rparr>) st)))"

section \<open>The interface\<close>

definition AF_UNSPEC_number :: u32 where "AF_UNSPEC_number = 0"
definition AF_INET_number :: u32 where "AF_INET_number = 2"
definition AF_INET6_number :: u32 where "AF_INET6_number = 10"

definition uv_udp_init_ex :: "udp_system \<Rightarrow> ptr \<Rightarrow> u32 \<Rightarrow> udps \<Rightarrow> (uv_errno option \<times> udps) option" where
  "uv_udp_init_ex k h w st =
     (let domain = w AND 0xFF; extra_flags = w AND NOT 0xFF
      in if domain \<notin> {AF_INET_number, AF_INET6_number, AF_UNSPEC_number} then Some (Some UV_EINVAL, st)
         else if extra_flags AND NOT UV_UDP_RECVMMSG \<noteq> 0 then Some (Some UV_EINVAL, st)
         else
           map_option (\<lambda>(rc, st).
             (rc, if rc = None \<and> extra_flags AND UV_UDP_RECVMMSG \<noteq> 0
                  then set_udp_flags h (udp_flags h st OR UV_HANDLE_UDP_RECVMMSG) st else st))
             (uv__udp_init_ex k h (domain = AF_UNSPEC_number) st))"

definition uv_udp_init :: "udp_system \<Rightarrow> ptr \<Rightarrow> udps \<Rightarrow> (uv_errno option \<times> udps) option" where
  "uv_udp_init k h st = uv_udp_init_ex k h AF_UNSPEC_number st"

definition is_udp :: "ptr \<Rightarrow> udps \<Rightarrow> bool" where
  "is_udp h st \<longleftrightarrow> htype (handle (udp_loop st) h) = UV_UDP"

definition is_other :: "sockaddr \<Rightarrow> bool" where
  "is_other a \<longleftrightarrow> (case a of Sockaddr_other _ \<Rightarrow> True | _ \<Rightarrow> False)"

definition uv_udp_bind :: "udp_system \<Rightarrow> ptr \<Rightarrow> sockaddr \<Rightarrow> u32 \<Rightarrow> udps \<Rightarrow> (uv_errno option \<times> udps) option" where
  "uv_udp_bind k h a w st =
     (if \<not> is_udp h st \<or> is_other a then Some (Some UV_EINVAL, st) else uv__udp_bind k h a w st)"

definition uv_udp_connect :: "udp_system \<Rightarrow> ptr \<Rightarrow> sockaddr option \<Rightarrow> udps \<Rightarrow> (uv_errno option \<times> udps) option" where
  "uv_udp_connect k h addr st =
     (let connected = (udp_flags h st AND UV_HANDLE_UDP_CONNECTED \<noteq> 0)
      in if \<not> is_udp h st then Some (Some UV_EINVAL, st)
         else case addr of
           None \<Rightarrow> if \<not> connected then Some (Some UV_ENOTCONN, st) else uv__udp_disconnect k h st
         | Some a \<Rightarrow>
             if is_other a then Some (Some UV_EINVAL, st)
             else if connected then Some (Some UV_EISCONN, st)
             else uv__udp_connect k h a st)"

definition uv__udp_is_connected :: "udp_system \<Rightarrow> ptr \<Rightarrow> udps \<Rightarrow> bool" where
  "uv__udp_is_connected k h st \<longleftrightarrow> is_udp h st \<and> has_peer k (udp_fd h st)"

definition uv__udp_check_before_send :: "ptr \<Rightarrow> sockaddr option \<Rightarrow> udps \<Rightarrow> uv_errno option" where
  "uv__udp_check_before_send h addr st =
     (let connected = (udp_flags h st AND UV_HANDLE_UDP_CONNECTED \<noteq> 0)
      in if \<not> is_udp h st then Some UV_EINVAL
         else if addr \<noteq> None \<and> connected then Some UV_EISCONN
         else if addr = None \<and> \<not> connected then Some UV_EDESTADDRREQ
         else if supported addr then None else Some UV_EINVAL)"

definition uv_udp_send ::
  "udp_system \<Rightarrow> ptr \<Rightarrow> ptr \<Rightarrow> uv_buf list \<Rightarrow> sockaddr option \<Rightarrow> ptr \<Rightarrow> udps \<Rightarrow> (uv_errno option \<times> udps) option" where
  "uv_udp_send k r h bs addr cb st =
     (case uv__udp_check_before_send h addr st of
        Some e \<Rightarrow> Some (Some e, st)
      | None \<Rightarrow> uv__udp_send k r h bs addr cb st)"

definition uv_udp_try_send ::
  "udp_system \<Rightarrow> ptr \<Rightarrow> uv_buf list \<Rightarrow> sockaddr option \<Rightarrow> udps \<Rightarrow> ((uv_errno + nat) \<times> udps) option" where
  "uv_udp_try_send k h bs addr st =
     (case uv__udp_check_before_send h addr st of
        Some e \<Rightarrow> Some (Inl e, st)
      | None \<Rightarrow> uv__udp_try_send k h bs addr st)"

definition uv_udp_recv_start :: "udp_system \<Rightarrow> ptr \<Rightarrow> ptr \<Rightarrow> ptr \<Rightarrow> udps \<Rightarrow> (uv_errno option \<times> udps) option" where
  "uv_udp_recv_start k h alloc recv st =
     (if \<not> is_udp h st \<or> alloc = NULL \<or> recv = NULL then Some (Some UV_EINVAL, st) else uv__udp_recv_start k h alloc recv st)"

definition uv_udp_recv_stop :: "ptr \<Rightarrow> udps \<Rightarrow> (uv_errno option \<times> udps) option" where
  "uv_udp_recv_stop h st = (if \<not> is_udp h st then Some (Some UV_EINVAL, st) else map_option (Pair None) (uv__udp_recv_stop h st))"

definition uv_udp_get_send_queue_size :: "ptr \<Rightarrow> udps \<Rightarrow> u64" where
  "uv_udp_get_send_queue_size h st = send_queue_size (udp_of st h)"

definition uv_udp_get_send_queue_count :: "ptr \<Rightarrow> udps \<Rightarrow> u64" where
  "uv_udp_get_send_queue_count h st = send_queue_count (udp_of st h)"

section \<open>Options\<close>

definition uv__setsockopt :: "udp_system \<Rightarrow> ptr \<Rightarrow> socket_option \<Rightarrow> socket_option \<Rightarrow> udps \<Rightarrow> uv_errno option" where
  "uv__setsockopt k h option4 option6 st =
     (if udp_flags h st AND UV_HANDLE_IPV6 \<noteq> 0 then setsockopt k (udp_fd h st) option6 else setsockopt k (udp_fd h st) option4)"

definition uv__setsockopt_maybe_char ::
  "udp_system \<Rightarrow> ptr \<Rightarrow> (int \<Rightarrow> socket_option) \<Rightarrow> (int \<Rightarrow> socket_option) \<Rightarrow> int \<Rightarrow> udps \<Rightarrow> uv_errno option" where
  "uv__setsockopt_maybe_char k h option4 option6 val st =
     (if val < 0 \<or> val > 255 then Some UV_EINVAL else uv__setsockopt k h (option4 val) (option6 val) st)"

definition uv_udp_set_broadcast :: "udp_system \<Rightarrow> ptr \<Rightarrow> int \<Rightarrow> udps \<Rightarrow> uv_errno option" where
  "uv_udp_set_broadcast k h on st = setsockopt k (udp_fd h st) (SO_BROADCAST on)"

definition uv_udp_set_ttl :: "udp_system \<Rightarrow> ptr \<Rightarrow> int \<Rightarrow> udps \<Rightarrow> uv_errno option" where
  "uv_udp_set_ttl k h ttl st =
     (if ttl < 1 \<or> ttl > 255 then Some UV_EINVAL else uv__setsockopt_maybe_char k h IP_TTL IPV6_UNICAST_HOPS ttl st)"

definition uv_udp_set_multicast_ttl :: "udp_system \<Rightarrow> ptr \<Rightarrow> int \<Rightarrow> udps \<Rightarrow> uv_errno option" where
  "uv_udp_set_multicast_ttl k h ttl st = uv__setsockopt_maybe_char k h IP_MULTICAST_TTL IPV6_MULTICAST_HOPS ttl st"

definition uv_udp_set_multicast_loop :: "udp_system \<Rightarrow> ptr \<Rightarrow> int \<Rightarrow> udps \<Rightarrow> uv_errno option" where
  "uv_udp_set_multicast_loop k h on st = uv__setsockopt_maybe_char k h IP_MULTICAST_LOOP IPV6_MULTICAST_LOOP on st"

text \<open>\<open>zone\<close> is \<open>if_nametoindex\<close>.\<close>

definition uv_udp_set_multicast_interface ::
  "udp_system \<Rightarrow> (string \<Rightarrow> u32) \<Rightarrow> ptr \<Rightarrow> string option \<Rightarrow> udps \<Rightarrow> uv_errno option" where
  "uv_udp_set_multicast_interface k zone h interface_addr st =
     (let set4 = (\<lambda>a. setsockopt k (udp_fd h st) (IP_MULTICAST_IF a)); set6 = (\<lambda>i. setsockopt k (udp_fd h st) (IPV6_MULTICAST_IF i))
      in case interface_addr of
           None \<Rightarrow> if udp_flags h st AND UV_HANDLE_IPV6 \<noteq> 0 then set6 0 else set4 (replicate 4 0)
         | Some ip \<Rightarrow>
             (case uv_ip4_addr ip 0 of
                (None, a) \<Rightarrow> set4 (sin_addr a)
              | _ \<Rightarrow> (case uv_ip6_addr zone ip 0 of
                        (None, a) \<Rightarrow> set6 (sin6_scope_id a)
                      | _ \<Rightarrow> Some UV_EINVAL)))"

datatype uv_membership = UV_LEAVE_GROUP | UV_JOIN_GROUP | Other_membership

definition uv__udp_set_membership4 ::
  "udp_system \<Rightarrow> ptr \<Rightarrow> sockaddr_in \<Rightarrow> string option \<Rightarrow> uv_membership \<Rightarrow> udps \<Rightarrow> uv_errno option" where
  "uv__udp_set_membership4 k h multicast_addr interface_addr membership st =
     (case (case interface_addr of None \<Rightarrow> Inr (replicate 4 0) | Some ip \<Rightarrow> uv_inet_pton AF_INET ip) of
        Inl e \<Rightarrow> Some e
      | Inr interface \<Rightarrow>
          (case membership of
             UV_JOIN_GROUP \<Rightarrow> setsockopt k (udp_fd h st) (IP_ADD_MEMBERSHIP (sin_addr multicast_addr) interface)
           | UV_LEAVE_GROUP \<Rightarrow> setsockopt k (udp_fd h st) (IP_DROP_MEMBERSHIP (sin_addr multicast_addr) interface)
           | Other_membership \<Rightarrow> Some UV_EINVAL))"

definition uv__udp_set_membership6 ::
  "udp_system \<Rightarrow> (string \<Rightarrow> u32) \<Rightarrow> ptr \<Rightarrow> sockaddr_in6 \<Rightarrow> string option \<Rightarrow> uv_membership \<Rightarrow> udps \<Rightarrow> uv_errno option" where
  "uv__udp_set_membership6 k zone h multicast_addr interface_addr membership st =
     (let (err, i) = (case interface_addr of
            None \<Rightarrow> (None, 0)
          | Some ip \<Rightarrow> (let (err, a) = uv_ip6_addr zone ip 0 in (err, sin6_scope_id a)))
      in if err \<noteq> None then Some UV_EINVAL
         else case membership of
             UV_JOIN_GROUP \<Rightarrow> setsockopt k (udp_fd h st) (IPV6_ADD_MEMBERSHIP (sin6_addr multicast_addr) i)
           | UV_LEAVE_GROUP \<Rightarrow> setsockopt k (udp_fd h st) (IPV6_DROP_MEMBERSHIP (sin6_addr multicast_addr) i)
           | Other_membership \<Rightarrow> Some UV_EINVAL)"

definition any4 :: sockaddr where "any4 = Sockaddr_in \<lparr>sin_port = 0, sin_addr = replicate 4 0\<rparr>"
definition any6 :: sockaddr where "any6 = Sockaddr_in6 \<lparr>sin6_port = 0, sin6_scope_id = 0, sin6_addr = replicate 16 0\<rparr>"

definition uv_udp_set_membership ::
  "udp_system \<Rightarrow> (string \<Rightarrow> u32) \<Rightarrow> ptr \<Rightarrow> string \<Rightarrow> string option \<Rightarrow> uv_membership \<Rightarrow> udps \<Rightarrow> (uv_errno option \<times> udps) option" where
  "uv_udp_set_membership k zone h multicast_addr interface_addr membership st =
     (case uv_ip4_addr multicast_addr 0 of
        (None, a) \<Rightarrow>
          map_option (\<lambda>(err, st). (if err \<noteq> None then err else uv__udp_set_membership4 k h a interface_addr membership st, st))
            (uv__udp_maybe_deferred_bind k h any4 UV_UDP_REUSEADDR st)
      | _ \<Rightarrow>
          (case uv_ip6_addr zone multicast_addr 0 of
             (None, a) \<Rightarrow>
               map_option (\<lambda>(err, st). (if err \<noteq> None then err else uv__udp_set_membership6 k zone h a interface_addr membership st, st))
                 (uv__udp_maybe_deferred_bind k h any6 UV_UDP_REUSEADDR st)
           | _ \<Rightarrow> Some (Some UV_EINVAL, st)))"

definition uv__udp_set_source_membership4 ::
  "udp_system \<Rightarrow> ptr \<Rightarrow> sockaddr_in \<Rightarrow> string option \<Rightarrow> sockaddr_in \<Rightarrow> uv_membership \<Rightarrow> udps \<Rightarrow> (uv_errno option \<times> udps) option" where
  "uv__udp_set_source_membership4 k h multicast_addr interface_addr source_addr membership st =
     map_option (\<lambda>(err, st).
       (if err \<noteq> None then err
        else
          case (case interface_addr of None \<Rightarrow> Inr (replicate 4 0) | Some ip \<Rightarrow> uv_inet_pton AF_INET ip) of
            Inl e \<Rightarrow> Some e
          | Inr interface \<Rightarrow>
              (case membership of
                 UV_JOIN_GROUP \<Rightarrow> setsockopt k (udp_fd h st) (IP_ADD_SOURCE_MEMBERSHIP (sin_addr multicast_addr) interface (sin_addr source_addr))
               | UV_LEAVE_GROUP \<Rightarrow> setsockopt k (udp_fd h st) (IP_DROP_SOURCE_MEMBERSHIP (sin_addr multicast_addr) interface (sin_addr source_addr))
               | Other_membership \<Rightarrow> Some UV_EINVAL), st))
       (uv__udp_maybe_deferred_bind k h any4 UV_UDP_REUSEADDR st)"

definition uv__udp_set_source_membership6 ::
  "udp_system \<Rightarrow> (string \<Rightarrow> u32) \<Rightarrow> ptr \<Rightarrow> sockaddr_in6 \<Rightarrow> string option \<Rightarrow> sockaddr_in6 \<Rightarrow> uv_membership \<Rightarrow> udps \<Rightarrow>
    (uv_errno option \<times> udps) option" where
  "uv__udp_set_source_membership6 k zone h multicast_addr interface_addr source_addr membership st =
     map_option (\<lambda>(err, st).
       (if err \<noteq> None then err
        else
          let (err, i) = (case interface_addr of
                None \<Rightarrow> (None, 0)
              | Some ip \<Rightarrow> (let (err, a) = uv_ip6_addr zone ip 0 in (err, sin6_scope_id a)))
          in if err \<noteq> None then err
             else case membership of
                 UV_JOIN_GROUP \<Rightarrow> setsockopt k (udp_fd h st) (MCAST_JOIN_SOURCE_GROUP i multicast_addr source_addr)
               | UV_LEAVE_GROUP \<Rightarrow> setsockopt k (udp_fd h st) (MCAST_LEAVE_SOURCE_GROUP i multicast_addr source_addr)
               | Other_membership \<Rightarrow> Some UV_EINVAL, st))
       (uv__udp_maybe_deferred_bind k h any6 UV_UDP_REUSEADDR st)"

definition uv_udp_set_source_membership ::
  "udp_system \<Rightarrow> (string \<Rightarrow> u32) \<Rightarrow> ptr \<Rightarrow> string \<Rightarrow> string option \<Rightarrow> string \<Rightarrow> uv_membership \<Rightarrow> udps \<Rightarrow> (uv_errno option \<times> udps) option" where
  "uv_udp_set_source_membership k zone h multicast_addr interface_addr source_addr membership st =
     (case uv_ip4_addr multicast_addr 0 of
        (None, m) \<Rightarrow>
          (case uv_ip4_addr source_addr 0 of
             (None, s) \<Rightarrow> uv__udp_set_source_membership4 k h m interface_addr s membership st
           | (err, _) \<Rightarrow> Some (err, st))
      | _ \<Rightarrow>
          (case uv_ip6_addr zone multicast_addr 0 of
             (None, m) \<Rightarrow>
               (case uv_ip6_addr zone source_addr 0 of
                  (None, s) \<Rightarrow> uv__udp_set_source_membership6 k zone h m interface_addr s membership st
                | (err, _) \<Rightarrow> Some (err, st))
           | (err, _) \<Rightarrow> Some (err, st)))"

section \<open>The invariant of a handle\<close>

text \<open>
  The requests of a handle are those that are over and those that wait, in the order in which
  they were submitted. The handle counts them and their bytes, and the loop counts them.
\<close>

definition in_queues :: "ptr \<Rightarrow> udps \<Rightarrow> ptr list" where
  "in_queues h st = udp_completed_queue (udp_of st h) @ udp_write_queue (udp_of st h)"

definition ready :: "ptr \<Rightarrow> udps \<Rightarrow> ptr \<Rightarrow> bool" where
  "ready h st r \<longleftrightarrow> udp_handle (send_of st r) = h \<and> supported (send_addr (send_of st r)) \<and>
     (\<exists>bs. send_bufs (send_of st r) = Some bs \<and> bs \<noteq> [] \<and> send_nbufs (send_of st r) = length bs)"

definition request_size :: "udps \<Rightarrow> ptr \<Rightarrow> u64" where
  "request_size st r = (case send_bufs (send_of st r) of None \<Rightarrow> 0 | Some bs \<Rightarrow> uv__count_bufs bs)"

definition udp_io_ok :: "ptr \<Rightarrow> udps \<Rightarrow> bool" where
  "udp_io_ok h st \<longleftrightarrow> h \<noteq> NULL \<and> polling_ok (udp_loop st) \<and> -1 \<le> udp_fd h st \<and> (0 \<le> udp_fd h st \<longrightarrow> fd_free (udp_loop st) h)"

definition sends_ok :: "ptr \<Rightarrow> udps \<Rightarrow> bool" where
  "sends_ok h st \<longleftrightarrow> distinct (in_queues h st) \<and> (\<forall>r\<in>set (in_queues h st). ready h st r) \<and>
     send_queue_count (udp_of st h) = of_nat (length (in_queues h st)) \<and>
     send_queue_size (udp_of st h) = sum_list (map (request_size st) (in_queues h st)) \<and>
     length (in_queues h st) \<le> unat (active_reqs (udp_loop st)) \<and> udp_io_ok h st"

definition kernel_sends :: "udp_system \<Rightarrow> bool" where
  "kernel_sends k \<longleftrightarrow> (\<forall>f a d n. \<exists>j. settled [UV_EINTR] (sys_sendmsg k f a d (n + j))) \<and>
     (\<forall>f ds n. \<exists>j. settled [UV_EINTR] (sys_sendmmsg k f ds (n + j))) \<and>
     (\<forall>f ds n m. ds \<noteq> [] \<longrightarrow> sys_sendmmsg k f ds n = Inr m \<longrightarrow> 1 \<le> m \<and> m \<le> length ds)"

text \<open>
  The requests \<open>fin\<close> at the front of the queue are over: each has its status, the datagrams of
  those without an error are sent in their order, and nothing else happens to the handle.
\<close>

definition sent_ok :: "udps \<Rightarrow> ptr \<Rightarrow> bool" where
  "sent_ok st r \<longleftrightarrow> (\<exists>n. send_status (send_of st r) = Inr n)"

definition progress :: "ptr \<Rightarrow> udps \<Rightarrow> udps \<Rightarrow> ptr list \<Rightarrow> bool" where
  "progress h st st' fin \<longleftrightarrow>
     (\<exists>rest. udp_write_queue (udp_of st h) = fin @ rest \<and>
        udp_of st' = (udp_of st)(h := (udp_of st h)\<lparr>udp_write_queue := rest,
          udp_completed_queue := udp_completed_queue (udp_of st h) @ fin\<rparr>)) \<and>
     (\<forall>r. send_of st' r = (send_of st r)\<lparr>send_status := send_status (send_of st' r)\<rparr>) \<and>
     (\<forall>r. r \<notin> set fin \<longrightarrow> send_of st' r = send_of st r) \<and>
     datagrams st' = (datagrams st)(h := datagrams st h @ map (\<lambda>r. the (datagram_of st r)) (filter (sent_ok st') fin)) \<and>
     udp_memory st' = udp_memory st \<and> udp_calls st' = udp_calls st \<and> udp_fd_events st' = udp_fd_events st \<and>
     (\<exists>p. udp_loop st' = (udp_loop st)\<lparr>pending_queue := p\<rparr>) \<and> (polling_ok (udp_loop st) \<longrightarrow> polling_ok (udp_loop st'))"

lemma loop_same: "\<exists>p. s = s\<lparr>pending_queue := p\<rparr>" for s :: uv_loop
  by (rule exI [of _ "pending_queue s"]) simp

lemma progress_refl: "udp_of st' = udp_of st \<Longrightarrow> send_of st' = send_of st \<Longrightarrow> datagrams st' = datagrams st \<Longrightarrow>
    udp_memory st' = udp_memory st \<Longrightarrow> udp_calls st' = udp_calls st \<Longrightarrow> udp_fd_events st' = udp_fd_events st \<Longrightarrow>
    udp_loop st' = udp_loop st \<Longrightarrow> progress h st st' []"
  using loop_same by (simp add: progress_def)

lemma datagram_of_status: "send_of st' r = (send_of st r)\<lparr>send_status := s\<rparr> \<Longrightarrow> udp_memory st' = udp_memory st \<Longrightarrow>
    datagram_of st' r = datagram_of st r"
  by (simp add: datagram_of_def udp_bytes_def)

lemma progress_trans:
  assumes d: "distinct (udp_write_queue (udp_of st h))" and a: "progress h st st1 fin1" and b: "progress h st1 st2 fin2"
  shows "progress h st st2 (fin1 @ fin2)"
proof -
  obtain rest1 where r1: "udp_write_queue (udp_of st h) = fin1 @ rest1"
      "udp_of st1 = (udp_of st)(h := (udp_of st h)\<lparr>udp_write_queue := rest1, udp_completed_queue := udp_completed_queue (udp_of st h) @ fin1\<rparr>)"
    using a by (auto simp: progress_def)
  obtain rest2 where r2: "rest1 = fin2 @ rest2"
      "udp_of st2 = (udp_of st1)(h := (udp_of st1 h)\<lparr>udp_write_queue := rest2, udp_completed_queue := udp_completed_queue (udp_of st1 h) @ fin2\<rparr>)"
    using b by (auto simp: progress_def r1(2))
  have out: "r \<notin> set fin2" if "r \<in> set fin1" for r using d r1(1) r2(1) that by auto
  have s1: "send_of st1 r = (send_of st r)\<lparr>send_status := send_status (send_of st1 r)\<rparr>" "r \<notin> set fin1 \<Longrightarrow> send_of st1 r = send_of st r" for r
    using a unfolding progress_def by blast+
  have s2: "send_of st2 r = (send_of st1 r)\<lparr>send_status := send_status (send_of st2 r)\<rparr>" "r \<notin> set fin2 \<Longrightarrow> send_of st2 r = send_of st1 r" for r
    using b unfolding progress_def by blast+
  have f1: "filter (sent_ok st1) fin1 = filter (sent_ok st2) fin1"
    by (rule filter_cong) (use out s2(2) in \<open>auto simp: sent_ok_def\<close>)
  have m: "udp_memory st1 = udp_memory st" "udp_memory st2 = udp_memory st1" using a b by (simp_all add: progress_def)
  have dg: "datagram_of st1 r = datagram_of st r" for r by (rule datagram_of_status [OF s1(1) m(1)])
  have s12: "send_of st2 r = (send_of st r)\<lparr>send_status := send_status (send_of st2 r)\<rparr>" for r
    using s1(1) [of r] s2(1) [of r] by (metis udp_request.update_convs(6) udp_request.surjective)
  have da: "datagrams st1 = (datagrams st)(h := datagrams st h @ map (\<lambda>r. the (datagram_of st r)) (filter (sent_ok st1) fin1))"
    "datagrams st2 = (datagrams st1)(h := datagrams st1 h @ map (\<lambda>r. the (datagram_of st1 r)) (filter (sent_ok st2) fin2))"
    "udp_calls st2 = udp_calls st" "udp_fd_events st2 = udp_fd_events st"
    using a b by (simp_all add: progress_def)
  obtain p1 where p1: "udp_loop st1 = (udp_loop st)\<lparr>pending_queue := p1\<rparr>" using a by (auto simp: progress_def)
  obtain p2 where p2: "udp_loop st2 = (udp_loop st1)\<lparr>pending_queue := p2\<rparr>" using b by (auto simp: progress_def)
  show ?thesis
    unfolding progress_def
  proof (intro conjI allI impI)
    show "\<exists>rest. udp_write_queue (udp_of st h) = (fin1 @ fin2) @ rest \<and>
        udp_of st2 = (udp_of st)(h := (udp_of st h)\<lparr>udp_write_queue := rest, udp_completed_queue := udp_completed_queue (udp_of st h) @ fin1 @ fin2\<rparr>)"
      by (rule exI [of _ rest2]) (simp add: r1 r2)
    show "\<exists>p. udp_loop st2 = (udp_loop st)\<lparr>pending_queue := p\<rparr>" by (rule exI [of _ p2]) (simp add: p1 p2)
    show "polling_ok (udp_loop st2)" if "polling_ok (udp_loop st)" using that a b by (simp add: progress_def)
    show "send_of st2 r = (send_of st r)\<lparr>send_status := send_status (send_of st2 r)\<rparr>" for r by (rule s12)
    show "send_of st2 r = send_of st r" if "r \<notin> set (fin1 @ fin2)" for r using s1(2) [of r] s2(2) [of r] that by simp
    show "datagrams st2 = (datagrams st)(h := datagrams st h @ map (\<lambda>r. the (datagram_of st r)) (filter (sent_ok st2) (fin1 @ fin2)))"
      by (simp add: da(1,2) dg f1)
  qed (simp_all add: da(3,4) m)
qed

text \<open>Taking requests off the front of the queue.\<close>

lemma all_done_state:
  assumes "distinct (udp_write_queue (udp_of st h))" "udp_write_queue (udp_of st h) = rs @ rest"
    and g: "\<And>st st'. send_bufs \<circ> send_of st' = send_bufs \<circ> send_of st \<Longrightarrow> g st' = g st"
  shows "all_done h g rs st = st\<lparr>send_of := (\<lambda>r. if r \<in> set rs then (send_of st r)\<lparr>send_status := g st r\<rparr> else send_of st r),
    udp_of := (udp_of st)(h := (udp_of st h)\<lparr>udp_write_queue := rest, udp_completed_queue := udp_completed_queue (udp_of st h) @ rs\<rparr>)\<rparr>"
  using assms(1,2)
proof (induction rs arbitrary: st)
  case Nil
  have "(udp_of st h)\<lparr>udp_write_queue := rest\<rparr> = udp_of st h" using Nil by (metis append_Nil uv_udp.surjective uv_udp.update_convs(3))
  then show ?case by simp
next
  case (Cons r rs)
  let ?s = "send_done h (g st r) r st"
  have s: "?s = st\<lparr>send_of := (send_of st)(r := (send_of st r)\<lparr>send_status := g st r\<rparr>),
      udp_of := (udp_of st)(h := (udp_of st h)\<lparr>udp_write_queue := rs @ rest, udp_completed_queue := udp_completed_queue (udp_of st h) @ [r]\<rparr>)\<rparr>"
    using Cons.prems by (simp add: send_done_def set_send_def set_udp_def Let_def)
  have gs: "g ?s = g st" by (rule g) (simp add: s fun_eq_iff)
  have ih: "all_done h g rs ?s = ?s\<lparr>send_of := (\<lambda>r. if r \<in> set rs then (send_of ?s r)\<lparr>send_status := g ?s r\<rparr> else send_of ?s r),
      udp_of := (udp_of ?s)(h := (udp_of ?s h)\<lparr>udp_write_queue := rest, udp_completed_queue := udp_completed_queue (udp_of ?s h) @ rs\<rparr>)\<rparr>"
    by (rule Cons.IH) (use Cons.prems s in simp_all)
  have "r \<notin> set rs" using Cons.prems by simp
  then have "(\<lambda>v. if v \<in> set rs then (send_of ?s v)\<lparr>send_status := g ?s v\<rparr> else send_of ?s v) =
      (\<lambda>v. if v \<in> set (r # rs) then (send_of st v)\<lparr>send_status := g st v\<rparr> else send_of st v)"
    unfolding gs by (auto simp: s fun_eq_iff)
  then show ?case unfolding all_done.simps ih by (simp add: s fun_upd_def cong: if_cong)
qed

lemma progress_ok:
  assumes ok: "sends_ok h st" and p: "progress h st st' fin"
  shows "sends_ok h st'" "in_queues h st' = in_queues h st" "udp_flags h st' = udp_flags h st"
    "udp_fd h st' = udp_fd h st" "active_reqs (udp_loop st') = active_reqs (udp_loop st)" "handle (udp_loop st') = handle (udp_loop st)"
proof -
  obtain rest where rest: "udp_write_queue (udp_of st h) = fin @ rest" "udp_of st' = (udp_of st)(h := (udp_of st h)\<lparr>udp_write_queue := rest,
      udp_completed_queue := udp_completed_queue (udp_of st h) @ fin\<rparr>)"
    using p by (auto simp: progress_def)
  obtain l where l: "udp_loop st' = (udp_loop st)\<lparr>pending_queue := l\<rparr>" using p by (auto simp: progress_def)
  have s: "send_of st' r = (send_of st r)\<lparr>send_status := send_status (send_of st' r)\<rparr>" for r using p unfolding progress_def by blast
  have f: "udp_handle (send_of st' r) = udp_handle (send_of st r)" "send_addr (send_of st' r) = send_addr (send_of st r)"
    "send_bufs (send_of st' r) = send_bufs (send_of st r)" "send_nbufs (send_of st' r) = send_nbufs (send_of st r)" for r
    using arg_cong [OF s [of r], of udp_handle] arg_cong [OF s [of r], of send_addr] arg_cong [OF s [of r], of send_bufs]
      arg_cong [OF s [of r], of send_nbufs] by simp_all
  show q: "in_queues h st' = in_queues h st" by (simp add: in_queues_def rest)
  show "udp_flags h st' = udp_flags h st" "udp_fd h st' = udp_fd h st" "active_reqs (udp_loop st') = active_reqs (udp_loop st)"
    "handle (udp_loop st') = handle (udp_loop st)"
    by (simp_all add: udp_flags_def udp_fd_def l)
  have "polling_ok (udp_loop st')" using ok p by (simp add: sends_ok_def udp_io_ok_def progress_def)
  then have io: "udp_io_ok h st'" using ok by (simp add: sends_ok_def udp_io_ok_def udp_fd_def l fd_free_def)
  have r: "ready h st' r = ready h st r" "request_size st' r = request_size st r" for r
    by (simp_all add: ready_def request_size_def f)
  have rs: "request_size st' = request_size st" "ready h st' = ready h st" using r by (simp_all add: fun_eq_iff)
  show "sends_ok h st'" using ok io unfolding sends_ok_def q rs by (simp add: rest l)
qed

text \<open>One request after the other.\<close>

lemma datagram_ready: "ready h st r \<Longrightarrow> \<exists>bs. send_bufs (send_of st r) = Some bs \<and> datagram_of st r = Some (send_addr (send_of st r), udp_bytes st bs)"
  by (auto simp: ready_def datagram_of_def)

lemma udp_feed_simps [simp]:
  "udp_of (udp_feed h st) = udp_of st" "send_of (udp_feed h st) = send_of st" "datagrams (udp_feed h st) = datagrams st"
  "udp_memory (udp_feed h st) = udp_memory st" "udp_calls (udp_feed h st) = udp_calls st" "udp_fd_events (udp_feed h st) = udp_fd_events st"
  by (simp_all add: udp_feed_def)

lemma udp_feed_loop: "\<exists>p. udp_loop (udp_feed h st) = (udp_loop st)\<lparr>pending_queue := p\<rparr>"
proof (cases "h \<in> set (pending_run (udp_loop st)) \<union> set (pending_queue (udp_loop st))")
  case True
  then have "udp_loop (udp_feed h st) = (udp_loop st)\<lparr>pending_queue := pending_queue (udp_loop st)\<rparr>"
    by (simp add: udp_feed_def uv__io_feed_def)
  then show ?thesis by blast
next
  case False
  then show ?thesis by (auto simp: udp_feed_def uv__io_feed_def)
qed

lemma filter_sent: "(\<And>r. r \<in> set rs \<Longrightarrow> send_status (send_of st r) = Inl e) \<Longrightarrow> filter (sent_ok st) rs = []"
  by (auto simp: sent_ok_def filter_empty_conv)

text \<open>A batch that gets its statuses: with an error, or taken by the kernel.\<close>

lemma batch_progress:
  assumes ok: "sends_ok h st" and rs: "udp_write_queue (udp_of st h) = rs @ rest"
    and g: "\<And>st st'. send_bufs \<circ> send_of st' = send_bufs \<circ> send_of st \<Longrightarrow> g st' = g st"
    and res: "(\<exists>e. \<forall>st r. g st r = Inl e) \<and> ds = [] \<or> (\<forall>st r. \<exists>n. g st r = Inr n) \<and> ds = map (\<lambda>r. the (datagram_of st r)) rs"
  shows "progress h st (all_done h g rs (st\<lparr>udp_syscalls := n, datagrams := (datagrams st)(h := datagrams st h @ ds)\<rparr>)) rs"
proof -
  let ?s = "st\<lparr>udp_syscalls := n, datagrams := (datagrams st)(h := datagrams st h @ ds)\<rparr>"
  have d: "distinct (udp_write_queue (udp_of ?s h))" using ok by (simp add: sends_ok_def in_queues_def)
  have a: "all_done h g rs ?s = ?s\<lparr>send_of := (\<lambda>r. if r \<in> set rs then (send_of ?s r)\<lparr>send_status := g ?s r\<rparr> else send_of ?s r),
      udp_of := (udp_of ?s)(h := (udp_of ?s h)\<lparr>udp_write_queue := rest, udp_completed_queue := udp_completed_queue (udp_of ?s h) @ rs\<rparr>)\<rparr>"
    by (rule all_done_state [OF d _ g]) (use rs in simp_all)
  let ?t = "all_done h g rs ?s"
  have t: "send_of ?t r = (if r \<in> set rs then (send_of st r)\<lparr>send_status := g ?s r\<rparr> else send_of st r)" for r unfolding a by simp
  have fl: "map (\<lambda>r. the (datagram_of st r)) (filter (sent_ok ?t) rs) = ds"
  proof -
    from res show ?thesis
    proof
      assume e: "(\<exists>e. \<forall>st r. g st r = Inl e) \<and> ds = []"
      then obtain e where "\<forall>st r. g st r = Inl e" by blast
      then have "filter (sent_ok ?t) rs = []" by (intro filter_sent [of _ _ e]) (simp add: t)
      then show ?thesis using e by simp
    next
      assume r: "(\<forall>st r. \<exists>n. g st r = Inr n) \<and> ds = map (\<lambda>r. the (datagram_of st r)) rs"
      then have gi: "\<exists>n. g ?s v = Inr n" for v by blast
      have "sent_ok ?t v" if "v \<in> set rs" for v using gi [of v] that unfolding sent_ok_def t by simp
      then have "filter (sent_ok ?t) rs = rs" by (intro filter_True ballI)
      then show ?thesis using r by simp
    qed
  qed
  show ?thesis
    unfolding progress_def
  proof (intro conjI allI impI)
    show "\<exists>rest. udp_write_queue (udp_of st h) = rs @ rest \<and>
        udp_of ?t = (udp_of st)(h := (udp_of st h)\<lparr>udp_write_queue := rest, udp_completed_queue := udp_completed_queue (udp_of st h) @ rs\<rparr>)"
      by (rule exI [of _ rest]) (simp add: a rs)
    show "\<exists>p. udp_loop ?t = (udp_loop st)\<lparr>pending_queue := p\<rparr>" using loop_same [of "udp_loop st"] by (simp add: a)
    show "send_of ?t r = (send_of st r)\<lparr>send_status := send_status (send_of ?t r)\<rparr>" for r unfolding t by simp
    show "send_of ?t r = send_of st r" if "r \<notin> set rs" for r using that unfolding t by simp
    show "datagrams ?t = (datagrams st)(h := datagrams st h @ map (\<lambda>r. the (datagram_of st r)) (filter (sent_ok ?t) rs))"
      unfolding fl by (simp add: a)
  qed (simp_all add: a)
qed

lemma feed_progress: "progress h st st' fin \<Longrightarrow> progress h st (udp_feed h st') fin"
proof -
  assume p: "progress h st st' fin"
  obtain q where q: "udp_loop (udp_feed h st') = (udp_loop st')\<lparr>pending_queue := q\<rparr>" using udp_feed_loop by blast
  have "sent_ok (udp_feed h st') = sent_ok st'" by (simp add: sent_ok_def fun_eq_iff)
  moreover have "polling_ok (udp_loop st') \<longrightarrow> polling_ok (udp_loop (udp_feed h st'))" by (simp add: udp_feed_def io_feed_ok)
  ultimately show ?thesis using p q by (auto simp: progress_def)
qed

text \<open>A kernel that takes every datagram, though its calls may be interrupted.\<close>

definition takes_all :: "udp_system \<Rightarrow> bool" where
  "takes_all k \<longleftrightarrow> (\<forall>f a d n e. sys_sendmsg k f a d n = Inl e \<longrightarrow> e = UV_EINTR) \<and>
     (\<forall>f ds n e. sys_sendmmsg k f ds n = Inl e \<longrightarrow> e = UV_EINTR)"

definition all_out :: "udp_system \<Rightarrow> ptr \<Rightarrow> udps \<Rightarrow> ptr list \<Rightarrow> bool" where
  "all_out k h st fin \<longleftrightarrow> (takes_all k \<longrightarrow> udp_write_queue (udp_of st h) = [] \<and> (\<forall>r\<in>set fin. sent_ok st r))"

lemma sent_ok_send_done: "sent_ok st r \<Longrightarrow> sent_ok (send_done h (Inr n) q st) r" "sent_ok (send_done h (Inr n) r st) r"
  by (simp_all add: sent_ok_def send_done_def set_send_def set_udp_def Let_def)

lemma sent_ok_all_done:
  "sent_ok st r \<or> r \<in> set rs \<Longrightarrow> sent_ok (all_done h (\<lambda>st r. Inr (f st r)) rs st) r"
proof (induction rs arbitrary: st)
  case (Cons q rs)
  have "sent_ok (send_done h (Inr (f st q)) q st) r \<or> r \<in> set rs" using Cons.prems sent_ok_send_done by auto
  then show ?case using Cons.IH by simp
qed simp

lemma sent_ok_feed [simp]: "sent_ok (udp_feed h st) = sent_ok st"
  by (simp add: sent_ok_def fun_eq_iff)

lemma all_out_trans:
  assumes "progress h st st1 fin1" "progress h st1 st2 fin2" "distinct (udp_write_queue (udp_of st h))"
    and "takes_all k \<Longrightarrow> \<forall>r\<in>set fin1. sent_ok st1 r" "all_out k h st2 fin2"
  shows "all_out k h st2 (fin1 @ fin2)"
proof -
  have "r \<notin> set fin2" if "r \<in> set fin1" for r using assms(1-3) that by (auto simp: progress_def)
  then have "send_of st2 r = send_of st1 r" if "r \<in> set fin1" for r using assms(2) that unfolding progress_def by blast
  then show ?thesis using assms(4,5) by (auto simp: all_out_def sent_ok_def)
qed

lemma one_sends:
  assumes "kernel_sends k" "sends_ok h st"
  shows "\<exists>st' fin. uv__udp_sendmsg_one k h st = Some st' \<and> progress h st st' fin \<and> all_out k h st' fin"
  using assms(2)
proof (induction "length (udp_write_queue (udp_of st h))" arbitrary: st rule: less_induct)
  case less
  show ?case
  proof (cases "udp_write_queue (udp_of st h)")
    case Nil
    then have "uv__udp_sendmsg_one k h st = Some st" by (subst uv__udp_sendmsg_one.simps) simp
    then show ?thesis using progress_refl [of st st h] Nil by (intro exI [of _ st] exI [of _ "[]"]) (simp add: all_out_def)
  next
    case (Cons r rs)
    have rd: "ready h st r" using less.prems Cons by (simp add: sends_ok_def in_queues_def)
    obtain bs where bs: "send_bufs (send_of st r) = Some bs" "datagram_of st r = Some (send_addr (send_of st r), udp_bytes st bs)"
      using datagram_ready [OF rd] by blast
    let ?a = "send_addr (send_of st r)" and ?d = "udp_bytes st bs"
    obtain m where m: "retry [UV_EINTR] (sys_sendmsg k (udp_fd h st) ?a ?d) (udp_syscalls st) = Some (sys_sendmsg k (udp_fd h st) ?a ?d m, m + 1)"
      using retry_total [of "[UV_EINTR]" "sys_sendmsg k (udp_fd h st) ?a ?d" "udp_syscalls st"] assms(1) by (auto simp: kernel_sends_def)
    have e: "\<not> takes_all k" if "sys_sendmsg k (udp_fd h st) ?a ?d m = Inl e" for e
      using retry_settled [OF m] that by (auto simp: takes_all_def settled_def)
    have next_step: ?thesis
      if p: "progress h st st1 [r]" and eq: "uv__udp_sendmsg_one k h st = uv__udp_sendmsg_one k h st1"
        and t: "takes_all k \<Longrightarrow> \<forall>q\<in>set [r]. sent_ok st1 q" for st1
    proof -
      have q: "udp_write_queue (udp_of st1 h) = rs" using p Cons by (auto simp: progress_def)
      obtain st' fin where st': "uv__udp_sendmsg_one k h st1 = Some st'" "progress h st1 st' fin" "all_out k h st' fin"
        using less.hyps [of st1] progress_ok(1) [OF less.prems p] Cons q by auto
      have d: "distinct (udp_write_queue (udp_of st h))" using less.prems by (simp add: sends_ok_def in_queues_def)
      show ?thesis
        using st'(1) progress_trans [OF d p st'(2)] all_out_trans [OF p st'(2) d t st'(3)] eq
        by (intro exI [of _ st'] exI [of _ "[r] @ fin"]) simp
    qed
    consider (busy) e where "sys_sendmsg k (udp_fd h st) ?a ?d m = Inl e" "busy_error e"
      | (error) e where "sys_sendmsg k (udp_fd h st) ?a ?d m = Inl e" "\<not> busy_error e"
      | (ok) "sys_sendmsg k (udp_fd h st) ?a ?d m = Inr ()"
      by (cases "sys_sendmsg k (udp_fd h st) ?a ?d m") auto
    then show ?thesis
    proof cases
      case busy
      then have "uv__udp_sendmsg_one k h st = Some (st\<lparr>udp_syscalls := m + 1\<rparr>)"
        using m bs(2) Cons by (subst uv__udp_sendmsg_one.simps) (simp add: Let_def)
      then show ?thesis using progress_refl [of "st\<lparr>udp_syscalls := m + 1\<rparr>" st h] e [OF busy(1)]
        by (intro exI [of _ "st\<lparr>udp_syscalls := m + 1\<rparr>"] exI [of _ "[]"]) (simp add: all_out_def)
    next
      case error
      let ?s = "st\<lparr>udp_syscalls := m + 1, datagrams := (datagrams st)(h := datagrams st h @ [])\<rparr>"
      have "progress h st (all_done h (\<lambda>_ _. Inl e) [r] ?s) [r]"
        by (rule batch_progress [OF less.prems]) (use Cons in auto)
      then have p: "progress h st (udp_feed h (send_done h (Inl e) r (st\<lparr>udp_syscalls := m + 1\<rparr>))) [r]"
        by (intro feed_progress) simp
      have "uv__udp_sendmsg_one k h st = uv__udp_sendmsg_one k h (udp_feed h (send_done h (Inl e) r (st\<lparr>udp_syscalls := m + 1\<rparr>)))"
        using error m bs(2) Cons by (subst uv__udp_sendmsg_one.simps) (simp add: Let_def)
      then show ?thesis by (rule next_step [OF p]) (simp add: e [OF error(1)])
    next
      case ok
      let ?s = "st\<lparr>udp_syscalls := m + 1, datagrams := (datagrams st)(h := datagrams st h @ [(?a, ?d)])\<rparr>"
      have "progress h st (all_done h (\<lambda>_ _. Inr (length ?d)) [r] ?s) [r]"
        by (rule batch_progress [OF less.prems]) (use Cons bs(2) in auto)
      then have p: "progress h st (udp_feed h (send_done h (Inr (length ?d)) r ?s)) [r]"
        by (intro feed_progress) simp
      have "uv__udp_sendmsg_one k h st = uv__udp_sendmsg_one k h (udp_feed h (send_done h (Inr (length ?d)) r ?s))"
        using ok m bs(2) Cons by (subst uv__udp_sendmsg_one.simps) (simp add: Let_def)
      then show ?thesis by (rule next_step [OF p]) (simp add: sent_ok_send_done)
    qed
  qed
qed

lemma those_ready:
  "(\<And>r. r \<in> set rs \<Longrightarrow> datagram_of st r \<noteq> None) \<Longrightarrow> those (map (datagram_of st) rs) = Some (map (\<lambda>r. the (datagram_of st r)) rs)"
proof (induction rs)
  case (Cons r rs)
  obtain d where "datagram_of st r = Some d" using Cons.prems [of r] by auto
  then show ?case using Cons by simp
qed simp

lemma progress_queue: "progress h st st' fin \<Longrightarrow> udp_write_queue (udp_of st h) = fin @ udp_write_queue (udp_of st' h)"
  by (auto simp: progress_def)

lemma first_len_cong: "send_bufs \<circ> send_of st' = send_bufs \<circ> send_of st \<Longrightarrow> first_len st' = first_len st"
proof -
  assume "send_bufs \<circ> send_of st' = send_bufs \<circ> send_of st"
  then have "send_bufs (send_of st' r) = send_bufs (send_of st r)" for r by (metis comp_apply)
  then show ?thesis by (simp add: first_len_def fun_eq_iff)
qed

text \<open>Batches, until the kernel takes no more; an error ends them for the requests of its batch.\<close>

lemma many_sends:
  assumes "kernel_sends k" "sends_ok h st" "udp_write_queue (udp_of st h) \<noteq> []"
  shows "\<exists>st' fin. uv__udp_sendmsg_many k h st = Some st' \<and> progress h st st' fin \<and> all_out k h st' fin"
  using assms(2,3)
proof (induction "length (udp_write_queue (udp_of st h))" arbitrary: st rule: less_induct)
  case less
  let ?rs = "take 20 (udp_write_queue (udp_of st h))"
  let ?ds = "map (\<lambda>r. the (datagram_of st r)) ?rs"
  have rd: "ready h st r" if "r \<in> set ?rs" for r
    using less.prems(1) set_take_subset [of 20 "udp_write_queue (udp_of st h)"] that by (auto simp: sends_ok_def in_queues_def)
  have ds: "those (map (datagram_of st) ?rs) = Some ?ds"
    by (rule those_ready) (use datagram_ready [OF rd] in fastforce)
  obtain m where m: "retry [UV_EINTR] (sys_sendmmsg k (udp_fd h st) ?ds) (udp_syscalls st) = Some (sys_sendmmsg k (udp_fd h st) ?ds m, m + 1)"
    using retry_total [of "[UV_EINTR]" "sys_sendmmsg k (udp_fd h st) ?ds" "udp_syscalls st"] assms(1) by (auto simp: kernel_sends_def)
  let ?m = "sys_sendmmsg k (udp_fd h st) ?ds m"
  have e: "\<not> takes_all k" if "?m = Inl e" for e
    using retry_settled [OF m] that by (auto simp: takes_all_def settled_def)
  consider (busy) e where "?m = Inl e" "busy_error e" | (error) e where "?m = Inl e" "\<not> busy_error e"
    | (ok) c where "?m = Inr c" "1 \<le> c" "c \<le> length ?ds"
  proof (cases ?m)
    case (Inl e)
    then show ?thesis using that by blast
  next
    case (Inr c)
    moreover have "?ds \<noteq> []" using less.prems(2) by simp
    ultimately have "1 \<le> c" "c \<le> length ?ds" using assms(1) unfolding kernel_sends_def by blast+
    then show ?thesis using that(3) Inr by blast
  qed
  then show ?case
  proof cases
    case busy
    then have "uv__udp_sendmsg_many k h st = Some (st\<lparr>udp_syscalls := m + 1\<rparr>)"
      using m ds by (subst uv__udp_sendmsg_many.simps) (simp add: Let_def)
    then show ?thesis using progress_refl [of "st\<lparr>udp_syscalls := m + 1\<rparr>" st h] e [OF busy(1)]
      by (intro exI [of _ "st\<lparr>udp_syscalls := m + 1\<rparr>"] exI [of _ "[]"]) (simp add: all_out_def)
  next
    case error
    let ?s = "st\<lparr>udp_syscalls := m + 1, datagrams := (datagrams st)(h := datagrams st h @ [])\<rparr>"
    have "progress h st (all_done h (\<lambda>_ _. Inl e) ?rs ?s) ?rs"
      by (rule batch_progress [OF less.prems(1), where rest = "drop 20 (udp_write_queue (udp_of st h))"]) auto
    then have "progress h st (udp_feed h (all_done h (\<lambda>_ _. Inl e) ?rs (st\<lparr>udp_syscalls := m + 1\<rparr>))) ?rs"
      by (intro feed_progress) simp
    moreover have "uv__udp_sendmsg_many k h st = Some (udp_feed h (all_done h (\<lambda>_ _. Inl e) ?rs (st\<lparr>udp_syscalls := m + 1\<rparr>)))"
      using error m ds by (subst uv__udp_sendmsg_many.simps) (simp add: Let_def)
    ultimately show ?thesis using e [OF error(1)] all_out_def by blast
  next
    case ok
    let ?fs = "take c ?rs"
    let ?s = "st\<lparr>udp_syscalls := m + 1, datagrams := (datagrams st)(h := datagrams st h @ take c ?ds)\<rparr>"
    let ?t = "all_done h (\<lambda>st r. Inr (first_len st r)) ?fs ?s"
    have split: "udp_write_queue (udp_of st h) = ?fs @ drop (min c 20) (udp_write_queue (udp_of st h))"
      by (simp add: min.commute)
    have p: "progress h st ?t ?fs"
      by (rule batch_progress [OF less.prems(1) split]) (use first_len_cong in \<open>auto simp: take_map fun_eq_iff\<close>)
    have eq: "uv__udp_sendmsg_many k h st = (if udp_write_queue (udp_of ?t h) \<noteq> [] then uv__udp_sendmsg_many k h ?t else Some (udp_feed h ?t))"
      using ok m ds by (subst uv__udp_sendmsg_many.simps) (simp add: Let_def)
    have q: "udp_write_queue (udp_of ?t h) = drop (min c 20) (udp_write_queue (udp_of st h))"
      using progress_queue [OF p] split by (metis same_append_eq)
    have sent: "\<forall>r\<in>set ?fs. sent_ok ?t r" by (auto intro!: sent_ok_all_done)
    show ?thesis
    proof (cases "udp_write_queue (udp_of ?t h) = []")
      case True
      then have "all_out k h (udp_feed h ?t) ?fs" using sent by (simp add: all_out_def)
      then show ?thesis using True eq feed_progress [OF p] by auto
    next
      case False
      have "length (udp_write_queue (udp_of ?t h)) < length (udp_write_queue (udp_of st h))"
        unfolding q using less.prems(2) ok(2) by simp
      from less.hyps [OF this progress_ok(1) [OF less.prems(1) p] False] obtain st' fin where
        st': "uv__udp_sendmsg_many k h ?t = Some st'" "progress h ?t st' fin" "all_out k h st' fin" by blast
      have d: "distinct (udp_write_queue (udp_of st h))" using less.prems(1) by (simp add: sends_ok_def in_queues_def)
      show ?thesis
        using st'(1) progress_trans [OF d p st'(2)] all_out_trans [OF p st'(2) d _ st'(3)] sent eq False
        by (intro exI [of _ st'] exI [of _ "?fs @ fin"]) simp
    qed
  qed
qed

lemma sendmsg_progress:
  assumes "kernel_sends k" "sends_ok h st"
  shows "\<exists>st' fin. uv__udp_sendmsg k h st = Some st' \<and> progress h st st' fin \<and> all_out k h st' fin"
proof (cases "udp_write_queue (udp_of st h)")
  case Nil
  then show ?thesis using progress_refl [of st st h]
    by (intro exI [of _ st] exI [of _ "[]"]) (simp add: uv__udp_sendmsg_def all_out_def)
next
  case (Cons r rs)
  then show ?thesis using one_sends [OF assms] many_sends [OF assms] by (auto simp: uv__udp_sendmsg_def)
qed

text \<open>Changes of the loop that keep the invariant.\<close>

lemma loop_change:
  assumes "sends_ok h st" "udp_io_ok h (st\<lparr>udp_loop := l\<rparr>)" "active_reqs l = active_reqs (udp_loop st)"
  shows "sends_ok h (st\<lparr>udp_loop := l\<rparr>)"
proof -
  have "in_queues h (st\<lparr>udp_loop := l\<rparr>) = in_queues h st" "request_size (st\<lparr>udp_loop := l\<rparr>) = request_size st"
    "ready h (st\<lparr>udp_loop := l\<rparr>) = ready h st"
    by (simp_all add: in_queues_def request_size_def ready_def fun_eq_iff)
  then show ?thesis using assms by (simp add: sends_ok_def)
qed

lemma udp_flag_bit: "UV_HANDLE_UDP_PROCESSING = 2 ^ 24"
  by (simp add: UV_HANDLE_UDP_PROCESSING_def)

lemma udp_flag_test: "w AND UV_HANDLE_UDP_PROCESSING = 0 \<longleftrightarrow> \<not> bit w 24"
  by (simp only: udp_flag_bit and_power_u32)

lemma udp_flag_set:
  "(w OR UV_HANDLE_UDP_PROCESSING) AND UV_HANDLE_UDP_PROCESSING \<noteq> 0"
  "(w AND NOT UV_HANDLE_UDP_PROCESSING) AND UV_HANDLE_UDP_PROCESSING = 0"
  unfolding udp_flag_test by (simp_all only: udp_flag_bit) (simp_all add: bit_or_iff bit_and_iff bit_not_iff bit_exp_iff)

lemma set_flags_fields:
  "io (set_flags h w s) = io s" "watchers (set_flags h w s) = watchers s" "nwatchers (set_flags h w s) = nwatchers s"
  "active_reqs (set_flags h w s) = active_reqs s" "flags (handle (set_flags h w s) h) = w"
  by (simp_all add: set_flags_def)

lemma udp_stop:
  assumes "sends_ok h st" "events_valid ev"
  shows "\<exists>l. on_udp_loop (uv__io_stop h ev) st = Some (st\<lparr>udp_loop := l\<rparr>) \<and> sends_ok h (st\<lparr>udp_loop := l\<rparr>) \<and>
    udp_fd h (st\<lparr>udp_loop := l\<rparr>) = udp_fd h st \<and> handle l = handle (udp_loop st)"
proof -
  have a: "polling_ok (udp_loop st)" "h \<noteq> NULL" "fd (io (udp_loop st) h) \<ge> -1" using assms(1) by (simp_all add: sends_ok_def udp_io_ok_def udp_fd_def)
  from io_stop_ok [OF a(1) assms(2) a(2,3)] obtain s' where
    s': "uv__io_stop h ev (udp_loop st) = Some s'" "polling_ok s'" "erase_io s' = erase_io (udp_loop st)" "fd (io s' h) = fd (io (udp_loop st) h)"
    by blast
  have "udp_io_ok h (st\<lparr>udp_loop := s'\<rparr>)"
    using assms(1) s' io_stop_fd_free [OF s'(1)] by (simp add: sends_ok_def udp_io_ok_def udp_fd_def)
  then have "sends_ok h (st\<lparr>udp_loop := s'\<rparr>)" using loop_change [OF assms(1)] erase_ioD(4) [OF s'(3)] by blast
  then show ?thesis using s' erase_ioD(1) [OF s'(3)] by (intro exI [of _ s']) (simp add: on_udp_loop_def udp_fd_def)
qed

lemma udp_start:
  assumes "sends_ok h st" "events_valid ev" "0 \<le> udp_fd h st"
  shows "\<exists>l. on_udp_loop (uv__io_start h ev) st = Some (st\<lparr>udp_loop := l\<rparr>) \<and> sends_ok h (st\<lparr>udp_loop := l\<rparr>) \<and>
    udp_fd h (st\<lparr>udp_loop := l\<rparr>) = udp_fd h st \<and> handle l = handle (udp_loop st)"
proof -
  have a: "polling_ok (udp_loop st)" "fd_free (udp_loop st) h" using assms(1,3) by (simp_all add: sends_ok_def udp_io_ok_def)
  from io_start_ok [OF a(1) assms(2) a(2)] obtain s' where
    s': "uv__io_start h ev (udp_loop st) = Some s'" "polling_ok s'" "erase_io s' = erase_io (udp_loop st)"
      "io s' = (io (udp_loop st))(h := (io (udp_loop st) h)\<lparr>pevents := pevents (io (udp_loop st) h) OR ev\<rparr>)" "registered s' h"
    by blast
  have "fd_free s' h" using a(2) s'(4,5) by (auto simp: fd_free_def registered_def)
  then have "udp_io_ok h (st\<lparr>udp_loop := s'\<rparr>)" using assms(1) s' by (simp add: sends_ok_def udp_io_ok_def udp_fd_def)
  then have "sends_ok h (st\<lparr>udp_loop := s'\<rparr>)" using loop_change [OF assms(1)] erase_ioD(4) [OF s'(3)] by blast
  then show ?thesis using s' erase_ioD(1) [OF s'(3)] by (intro exI [of _ s']) (simp add: on_udp_loop_def udp_fd_def)
qed

lemma handle_macro_fields:
  "io (uv__handle_start h s) = io s" "io (uv__handle_stop h s) = io s" "watchers (uv__handle_start h s) = watchers s"
  "watchers (uv__handle_stop h s) = watchers s" "nwatchers (uv__handle_start h s) = nwatchers s" "nwatchers (uv__handle_stop h s) = nwatchers s"
  "active_reqs (uv__handle_start h s) = active_reqs s" "active_reqs (uv__handle_stop h s) = active_reqs s"
  by (simp_all add: uv__handle_start_def uv__handle_stop_def macro_defs Let_def)

lemma handle_stop_sends:
  "sends_ok h (st\<lparr>udp_loop := l\<rparr>) \<Longrightarrow> sends_ok h (st\<lparr>udp_loop := uv__handle_stop h l\<rparr>) \<and>
   udp_fd h (st\<lparr>udp_loop := uv__handle_stop h l\<rparr>) = udp_fd h (st\<lparr>udp_loop := l\<rparr>)"
  "sends_ok h (st\<lparr>udp_loop := l\<rparr>) \<Longrightarrow> sends_ok h (st\<lparr>udp_loop := uv__handle_start h l\<rparr>) \<and>
   udp_fd h (st\<lparr>udp_loop := uv__handle_start h l\<rparr>) = udp_fd h (st\<lparr>udp_loop := l\<rparr>)"
  using loop_change [of h "st\<lparr>udp_loop := l\<rparr>"] polling_ok_macros [of l h]
  by (auto simp: sends_ok_def udp_io_ok_def udp_fd_def handle_macro_fields fd_free_def)

section \<open>The callbacks\<close>

definition processing :: "ptr \<Rightarrow> udps \<Rightarrow> bool" where
  "processing h st \<longleftrightarrow> udp_flags h st AND UV_HANDLE_UDP_PROCESSING \<noteq> 0"

text \<open>What a callback may do: submit more, which waits, and nothing to the requests in the queues.\<close>

definition submits :: "ptr \<Rightarrow> udps \<Rightarrow> udps \<Rightarrow> ptr list \<Rightarrow> bool" where
  "submits h st st' new \<longleftrightarrow> udp_completed_queue (udp_of st' h) = udp_completed_queue (udp_of st h) \<and>
     udp_write_queue (udp_of st' h) = udp_write_queue (udp_of st h) @ new \<and>
     (\<forall>r\<in>set (in_queues h st). send_of st' r = send_of st r) \<and> udp_calls st' = udp_calls st \<and>
     udp_fd h st' = udp_fd h st \<and> (udp_fd h st = -1 \<longrightarrow> new = []) \<and> processing h st' = processing h st"

lemma submits_refl: "submits h st st []"
  by (simp add: submits_def)

lemma submits_trans: "submits h st st1 new1 \<Longrightarrow> submits h st1 st2 new2 \<Longrightarrow> submits h st st2 (new1 @ new2)"
  by (auto simp: submits_def in_queues_def)

text \<open>The callbacks that some requests get, with their statuses.\<close>

definition logged :: "udps \<Rightarrow> ptr list \<Rightarrow> udp_call list" where
  "logged st rs = map (\<lambda>r. Send_cb r (case send_status (send_of st r) of Inr _ \<Rightarrow> None | Inl e \<Rightarrow> Some e))
     (filter (\<lambda>r. send_cb (send_of st r) \<noteq> NULL) rs)"

lemma logged_cong: "(\<And>r. r \<in> set rs \<Longrightarrow> send_of st' r = send_of st r) \<Longrightarrow> logged st' rs = logged st rs"
  unfolding logged_def by (intro map_cong filter_cong) auto

locale udp_contract =
  fixes client :: udp_client and h :: ptr
  assumes call_ok: "sends_ok h st \<Longrightarrow> processing h st \<Longrightarrow>
    \<exists>st' new. on_udp_call client c st = Some st' \<and> sends_ok h st' \<and> submits h st st' new"
begin

text \<open>A request that is called back: it is counted no more and has no buffers.\<close>

lemma release_ok:
  assumes ok: "sends_ok h st" and q: "udp_completed_queue (udp_of st h) = r # rs"
    and bs: "send_bufs (send_of st r) = Some bs"
    and st': "st' = st\<lparr>udp_loop := (udp_loop st)\<lparr>active_reqs := active_reqs (udp_loop st) - 1\<rparr>,
      udp_of := (udp_of st)(h := (udp_of st h)\<lparr>udp_completed_queue := rs, send_queue_size := send_queue_size (udp_of st h) - uv__count_bufs bs,
        send_queue_count := send_queue_count (udp_of st h) - 1\<rparr>),
      send_of := (send_of st)(r := (send_of st r)\<lparr>send_bufs := None\<rparr>), udp_calls := calls\<rparr>"
  shows "sends_ok h st'"
proof -
  have d: "distinct (in_queues h st)" "in_queues h st = r # in_queues h st'" using ok q by (simp_all add: sends_ok_def in_queues_def st')
  then have out: "v \<noteq> r" if "v \<in> set (in_queues h st')" for v using that by auto
  have same: "request_size st' v = request_size st v" "ready h st' v = ready h st v" if "v \<in> set (in_queues h st')" for v
    using out [OF that] by (simp_all add: request_size_def ready_def st')
  have n: "0 < unat (active_reqs (udp_loop st))" using ok d by (simp add: sends_ok_def)
  then have a: "unat (active_reqs (udp_loop st) - 1) = unat (active_reqs (udp_loop st)) - 1"
    by (simp add: unat_minus_one unat_gt_0)
  have io: "udp_io_ok h st'" using ok by (simp add: sends_ok_def udp_io_ok_def st' polling_ok_reqs udp_fd_def fd_free_def)
  have m: "map (request_size st') (in_queues h st') = map (request_size st) (in_queues h st')" using same by simp
  have sz: "send_queue_size (udp_of st h) = request_size st r + sum_list (map (request_size st) (in_queues h st'))"
    "send_queue_count (udp_of st h) = 1 + of_nat (length (in_queues h st'))"
    "Suc (length (in_queues h st')) \<le> unat (active_reqs (udp_loop st))"
    using ok by (simp_all add: sends_ok_def d(2))
  have new: "send_queue_size (udp_of st' h) = send_queue_size (udp_of st h) - uv__count_bufs bs"
    "send_queue_count (udp_of st' h) = send_queue_count (udp_of st h) - 1"
    "active_reqs (udp_loop st') = active_reqs (udp_loop st) - 1"
    by (simp_all add: st')
  have "send_queue_size (udp_of st' h) = sum_list (map (request_size st') (in_queues h st'))"
    unfolding m new sz(1) using bs by (simp add: request_size_def)
  moreover have "send_queue_count (udp_of st' h) = of_nat (length (in_queues h st'))"
    unfolding new sz(2) by simp
  moreover have "length (in_queues h st') \<le> unat (active_reqs (udp_loop st'))"
    unfolding new a using sz(3) by simp
  moreover have "\<forall>v\<in>set (in_queues h st'). ready h st' v" using ok same(2) by (simp add: sends_ok_def d(2))
  moreover have "distinct (in_queues h st')" using d by simp
  ultimately show ?thesis using io by (simp add: sends_ok_def)
qed

lemma run_completed_ok:
  assumes "sends_ok h st" "processing h st"
  shows "\<exists>st' new. run_completed client h st = Some st' \<and> sends_ok h st' \<and> processing h st' \<and>
    udp_completed_queue (udp_of st' h) = [] \<and> udp_write_queue (udp_of st' h) = udp_write_queue (udp_of st h) @ new \<and>
    udp_fd h st' = udp_fd h st \<and> (udp_fd h st = -1 \<longrightarrow> new = []) \<and>
    udp_calls st' = udp_calls st @ logged st (udp_completed_queue (udp_of st h))"
  using assms
proof (induction "udp_completed_queue (udp_of st h)" arbitrary: st)
  case Nil
  then have "run_completed client h st = Some st" by (subst run_completed.simps) (simp split: list.splits)
  then show ?case using Nil by (simp add: logged_def)
next
  case (Cons r rs)
  note q = Cons.hyps(2) [symmetric]
  have "ready h st r" using Cons.prems(1) q by (simp add: sends_ok_def in_queues_def)
  then obtain bs where bs: "send_bufs (send_of st r) = Some bs" by (auto simp: ready_def)
  define rel where "rel calls = st\<lparr>udp_loop := (udp_loop st)\<lparr>active_reqs := active_reqs (udp_loop st) - 1\<rparr>,
      udp_of := (udp_of st)(h := (udp_of st h)\<lparr>udp_completed_queue := rs, send_queue_size := send_queue_size (udp_of st h) - uv__count_bufs bs,
        send_queue_count := send_queue_count (udp_of st h) - 1\<rparr>),
      send_of := (send_of st)(r := (send_of st r)\<lparr>send_bufs := None\<rparr>), udp_calls := calls\<rparr>" for calls
  have ok1: "sends_ok h (rel calls)" for calls by (rule release_ok [OF Cons.prems(1) q bs]) (simp add: rel_def)
  have f1: "processing h (rel calls)" "udp_completed_queue (udp_of (rel calls) h) = rs" "udp_fd h (rel calls) = udp_fd h st"
    "udp_write_queue (udp_of (rel calls) h) = udp_write_queue (udp_of st h)" "udp_calls (rel calls) = calls" for calls
    using Cons.prems(2) by (simp_all add: rel_def processing_def udp_flags_def udp_fd_def)
  have dist: "distinct (in_queues h st)" using Cons.prems(1) by (simp add: sends_ok_def)
  then have s1: "send_of (rel calls) v = send_of st v" if "v \<in> set rs" for v calls
    using that q by (auto simp: rel_def in_queues_def)
  have reqs: "uv__has_active_reqs (udp_loop st)"
    using Cons.prems(1) q by (auto simp: sends_ok_def in_queues_def uv__has_active_reqs_def word_gt_0 intro!: gr0I)
  let ?c = "Send_cb r (case send_status (send_of st r) of Inr _ \<Rightarrow> None | Inl e \<Rightarrow> Some e)"
  let ?call = "if send_cb (send_of st r) = NULL then Some (rel (udp_calls st)) else on_udp_call client ?c (rel (udp_calls st @ [?c]))"
  have eq: "run_completed client h st = Option.bind ?call (run_completed client h)"
    using q bs reqs
    by (subst run_completed.simps)
      (simp add: Let_def on_udp_loop_def uv__req_unregister_def set_udp_def set_send_def udp_notify_def rel_def fun_upd_def cong: if_cong)
  let ?calls = "udp_calls st @ (if send_cb (send_of st r) = NULL then [] else [?c])"
  obtain st2 new2 where c: "?call = Some st2" "sends_ok h st2" "submits h (rel ?calls) st2 new2"
  proof (cases "send_cb (send_of st r) = NULL")
    case True
    then show ?thesis using that [of "rel ?calls" "[]"] ok1 submits_refl by simp
  next
    case False
    then show ?thesis using that call_ok [OF ok1 f1(1), of ?c "udp_calls st @ [?c]"] by auto
  qed
  have c2: "udp_completed_queue (udp_of st2 h) = rs" "processing h st2" "udp_write_queue (udp_of st2 h) = udp_write_queue (udp_of st h) @ new2"
    "udp_calls st2 = ?calls" "udp_fd h st2 = udp_fd h st" "udp_fd h st = -1 \<longrightarrow> new2 = []"
    using c(3) f1 by (simp_all add: submits_def)
  have "send_of st2 v = send_of st v" if "v \<in> set rs" for v
    using c(3) s1 [OF that] that f1(2) by (auto simp: submits_def in_queues_def)
  then have l: "logged st2 rs = logged st rs" by (intro logged_cong)
  from Cons.hyps(1) [OF c2(1) [symmetric] c(2) c2(2)] obtain st' new where
    "run_completed client h st2 = Some st'" "sends_ok h st'" "processing h st'" "udp_completed_queue (udp_of st' h) = []"
    "udp_write_queue (udp_of st' h) = udp_write_queue (udp_of st2 h) @ new" "udp_fd h st' = udp_fd h st2"
    "udp_fd h st2 = -1 \<longrightarrow> new = []" "udp_calls st' = udp_calls st2 @ logged st2 rs"
    unfolding c2(1) by blast
  then show ?case using eq c(1) c2 l unfolding q by (intro exI [of _ st'] exI [of _ "new2 @ new"]) (simp add: logged_def)
qed

lemma flags_keep_sends: "sends_ok h st \<Longrightarrow> sends_ok h (set_udp_flags h w st)"
  using loop_change [of h st "set_flags h w (udp_loop st)"]
  by (simp add: sends_ok_def udp_io_ok_def set_udp_flags_def udp_fd_def polling_ok_flags fd_free_def set_flags_fields)

lemma udp_run_completed_ok:
  assumes ok: "sends_ok h st" and idle: "\<not> processing h st"
  shows "\<exists>st' new. uv__udp_run_completed client h st = Some st' \<and> sends_ok h st' \<and> \<not> processing h st' \<and>
    udp_completed_queue (udp_of st' h) = [] \<and> udp_write_queue (udp_of st' h) = udp_write_queue (udp_of st h) @ new \<and>
    udp_fd h st' = udp_fd h st \<and> (udp_fd h st = -1 \<longrightarrow> new = []) \<and>
    udp_calls st' = udp_calls st @ logged st (udp_completed_queue (udp_of st h))"
proof -
  define st1 where "st1 = set_udp_flags h (udp_flags h st OR UV_HANDLE_UDP_PROCESSING) st"
  have ok1: "sends_ok h st1" unfolding st1_def by (rule flags_keep_sends [OF ok])
  have f1: "udp_of st1 = udp_of st" "send_of st1 = send_of st" "udp_calls st1 = udp_calls st" "udp_fd h st1 = udp_fd h st"
    by (simp_all add: st1_def set_udp_flags_def udp_fd_def set_flags_def)
  have p1: "processing h st1"
    by (simp add: st1_def processing_def udp_flags_def set_udp_flags_def set_flags_fields UV_HANDLE_UDP_PROCESSING_def)
  obtain st2 new where st2: "run_completed client h st1 = Some st2" "sends_ok h st2" "processing h st2"
    "udp_completed_queue (udp_of st2 h) = []" "udp_write_queue (udp_of st2 h) = udp_write_queue (udp_of st h) @ new"
    "udp_fd h st2 = udp_fd h st" "udp_fd h st = -1 \<longrightarrow> new = []" "udp_calls st2 = udp_calls st @ logged st (udp_completed_queue (udp_of st h))"
    using run_completed_ok [OF ok1 p1] logged_cong [of "udp_completed_queue (udp_of st h)" st1 st] by (auto simp: f1)
  have "\<exists>l. (if udp_write_queue (udp_of st2 h) = [] then
        Option.bind (on_udp_loop (uv__io_stop h POLLOUT) st2) (\<lambda>st.
          map_option (\<lambda>act. if act then st else st\<lparr>udp_loop := uv__handle_stop h (udp_loop st)\<rparr>) (udp_active h POLLIN st))
      else Some st2) = Some (st2\<lparr>udp_loop := l\<rparr>) \<and> sends_ok h (st2\<lparr>udp_loop := l\<rparr>) \<and> udp_fd h (st2\<lparr>udp_loop := l\<rparr>) = udp_fd h st2"
  proof (cases "udp_write_queue (udp_of st2 h) = []")
    case True
    obtain l where l: "on_udp_loop (uv__io_stop h POLLOUT) st2 = Some (st2\<lparr>udp_loop := l\<rparr>)" "sends_ok h (st2\<lparr>udp_loop := l\<rparr>)"
      "udp_fd h (st2\<lparr>udp_loop := l\<rparr>) = udp_fd h st2"
      using udp_stop [OF st2(2) POLLOUT_valid(1)] by blast
    obtain act where act: "udp_active h POLLIN (st2\<lparr>udp_loop := l\<rparr>) = Some act" by (simp add: udp_active_def uv__io_active_def POLLOUT_valid)
    have "sends_ok h (st2\<lparr>udp_loop := uv__handle_stop h l\<rparr>)" "udp_fd h (st2\<lparr>udp_loop := uv__handle_stop h l\<rparr>) = udp_fd h st2"
      using handle_stop_sends [OF l(2)] l(3) by simp_all
    then show ?thesis using True l act by (cases act) auto
  next
    case False
    then show ?thesis using st2(2) by (intro exI [of _ "udp_loop st2"]) simp
  qed
  then obtain l where l: "(if udp_write_queue (udp_of st2 h) = [] then
        Option.bind (on_udp_loop (uv__io_stop h POLLOUT) st2) (\<lambda>st.
          map_option (\<lambda>act. if act then st else st\<lparr>udp_loop := uv__handle_stop h (udp_loop st)\<rparr>) (udp_active h POLLIN st))
      else Some st2) = Some (st2\<lparr>udp_loop := l\<rparr>)" "sends_ok h (st2\<lparr>udp_loop := l\<rparr>)" "udp_fd h (st2\<lparr>udp_loop := l\<rparr>) = udp_fd h st2"
    by blast
  define st3 where "st3 = st2\<lparr>udp_loop := l\<rparr>"
  define st4 where "st4 = set_udp_flags h (udp_flags h st3 AND NOT UV_HANDLE_UDP_PROCESSING) st3"
  have "uv__udp_run_completed client h st = Some st4"
    unfolding uv__udp_run_completed_def Let_def st1_def [symmetric]
    using idle st2(1) l(1) by (simp add: processing_def st3_def st4_def)
  moreover have "sends_ok h st4" unfolding st4_def by (rule flags_keep_sends) (simp add: st3_def l(2))
  moreover have "\<not> processing h st4"
    by (simp add: st4_def processing_def udp_flags_def set_udp_flags_def set_flags_fields udp_flag_set)
  moreover have "udp_of st4 = udp_of st2" "udp_calls st4 = udp_calls st2" "udp_fd h st4 = udp_fd h st2"
    using l(3) by (simp_all add: st4_def st3_def set_udp_flags_def udp_fd_def set_flags_def)
  ultimately show ?thesis using st2 by auto
qed

text \<open>The handle can be written to.\<close>

lemma udp_io_out:
  assumes ok: "sends_ok h st" and idle: "\<not> processing h st" and k: "kernel_sends k"
    and ty: "htype (handle (udp_loop st) h) = UV_UDP" "\<not> uv__is_closing h (udp_loop st)"
  shows "\<exists>st1 st' fin new. uv__udp_sendmsg k h st = Some st1 \<and> progress h st st1 fin \<and>
    uv__udp_io k client h POLLOUT st = Some st' \<and> sends_ok h st' \<and> \<not> processing h st' \<and>
    in_queues h st' = udp_write_queue (udp_of st1 h) @ new \<and>
    udp_calls st' = udp_calls st @ logged st1 (udp_completed_queue (udp_of st h) @ fin)"
proof -
  obtain st1 fin where st1: "uv__udp_sendmsg k h st = Some st1" "progress h st st1 fin" using sendmsg_progress [OF k ok] by blast
  note p = progress_ok [OF ok st1(2)]
  have idle1: "\<not> processing h st1" using idle p(3) by (simp add: processing_def)
  obtain st' new where st': "uv__udp_run_completed client h st1 = Some st'" "sends_ok h st'" "\<not> processing h st'"
    "udp_completed_queue (udp_of st' h) = []" "udp_write_queue (udp_of st' h) = udp_write_queue (udp_of st1 h) @ new"
    "udp_calls st' = udp_calls st1 @ logged st1 (udp_completed_queue (udp_of st1 h))"
    using udp_run_completed_ok [OF p(1) idle1] by blast
  have "udp_completed_queue (udp_of st1 h) = udp_completed_queue (udp_of st h) @ fin" "udp_calls st1 = udp_calls st"
    using st1(2) by (auto simp: progress_def)
  moreover have "POLLOUT AND POLLIN = 0" "POLLOUT \<noteq> 0" by (simp_all add: POLLOUT_def POLLIN_def)
  ultimately show ?thesis
    using st1 st' ty by (intro exI [of _ st1] exI [of _ st'] exI [of _ fin] exI [of _ new]) (simp add: uv__udp_io_def in_queues_def)
qed

text \<open>Closing: what waits is cancelled, and the assertions at the end hold.\<close>

lemma udp_finish_close_ok:
  assumes ok: "sends_ok h st" and idle: "\<not> processing h st" and closed: "udp_fd h st = -1" "udp_active h (POLLIN OR POLLOUT) st = Some False"
  shows "\<exists>st'. uv__udp_finish_close client h st = Some st' \<and> in_queues h st' = [] \<and>
    send_queue_size (udp_of st' h) = 0 \<and> send_queue_count (udp_of st' h) = 0 \<and>
    udp_calls st' = udp_calls st @ logged st (udp_completed_queue (udp_of st h)) @
      map (\<lambda>r. Send_cb r (Some UV_ECANCELED)) (filter (\<lambda>r. send_cb (send_of st r) \<noteq> NULL) (udp_write_queue (udp_of st h)))"
proof -
  let ?wq = "udp_write_queue (udp_of st h)" and ?cq = "udp_completed_queue (udp_of st h)"
  define st1 where "st1 = all_done h (\<lambda>_ _. Inl UV_ECANCELED) ?wq st"
  have "st\<lparr>udp_syscalls := udp_syscalls st, datagrams := (datagrams st)(h := datagrams st h @ [])\<rparr> = st" by simp
  then have p: "progress h st st1 ?wq"
    using batch_progress [OF ok, of ?wq "[]" "\<lambda>_ _. Inl UV_ECANCELED" "[]" "udp_syscalls st"] unfolding st1_def by auto
  note q = progress_ok [OF ok p]
  have idle1: "\<not> processing h st1" using idle q(3) by (simp add: processing_def)
  have f: "udp_completed_queue (udp_of st1 h) = ?cq @ ?wq" "udp_write_queue (udp_of st1 h) = []" "udp_calls st1 = udp_calls st"
    using p by (auto simp: progress_def)
  obtain st2 where st2: "uv__udp_run_completed client h st1 = Some st2" "sends_ok h st2" "udp_completed_queue (udp_of st2 h) = []"
    "udp_write_queue (udp_of st2 h) = []" "udp_calls st2 = udp_calls st @ logged st1 (?cq @ ?wq)"
    using udp_run_completed_ok [OF q(1) idle1] closed(1) q(4) f by auto
  have e: "in_queues h st2 = []" using st2 by (simp add: in_queues_def)
  then have "send_queue_size (udp_of st2 h) = 0" "send_queue_count (udp_of st2 h) = 0" using st2(2) by (simp_all add: sends_ok_def)
  then have "uv__udp_finish_close client h st = Some (set_udp h ((udp_of st2 h)\<lparr>udp_recv_cb := NULL, udp_alloc_cb := NULL\<rparr>) st2)"
    unfolding uv__udp_finish_close_def st1_def [symmetric] using closed st2(1) by simp
  moreover have "logged st1 (?cq @ ?wq) = logged st ?cq @ map (\<lambda>r. Send_cb r (Some UV_ECANCELED)) (filter (\<lambda>r. send_cb (send_of st r) \<noteq> NULL) ?wq)"
  proof -
    have d: "distinct (?cq @ ?wq)" using ok by (simp add: sends_ok_def in_queues_def)
    have s: "send_of st1 r = send_of st r" if "r \<notin> set ?wq" for r using p that unfolding progress_def by blast
    have a: "send_of st1 r = (send_of st r)\<lparr>send_status := Inl UV_ECANCELED\<rparr>" if "r \<in> set ?wq" for r
      using all_done_state [of st h ?wq "[]" "\<lambda>_ _. Inl UV_ECANCELED"] d that by (simp add: st1_def)
    have "logged st1 ?cq = logged st ?cq" using d s by (intro logged_cong) auto
    moreover have "logged st1 ?wq = map (\<lambda>r. Send_cb r (Some UV_ECANCELED)) (filter (\<lambda>r. send_cb (send_of st r) \<noteq> NULL) ?wq)"
      unfolding logged_def by (intro map_cong filter_cong) (simp_all add: a)
    ultimately show ?thesis by (simp add: logged_def)
  qed
  moreover have "in_queues h (set_udp h ((udp_of st2 h)\<lparr>udp_recv_cb := NULL, udp_alloc_cb := NULL\<rparr>) st2) = []"
    using e by (simp add: in_queues_def set_udp_def)
  ultimately show ?thesis using st2(5) \<open>send_queue_size (udp_of st2 h) = 0\<close> \<open>send_queue_count (udp_of st2 h) = 0\<close>
    by (simp add: set_udp_def)
qed

end

section \<open>The interface for programs\<close>

text \<open>
  A program that calls the library on the handle from its callbacks. A call whose preconditions
  do not hold is left out: a request is not submitted while it is in a queue of the handle, and
  nothing is sent on a handle without a descriptor.
\<close>

datatype udp_op = Do_send ptr "uv_buf list" "sockaddr option" ptr | Do_try_send "uv_buf list" "sockaddr option" | Do_recv_stop

definition udp_legal :: "ptr \<Rightarrow> udp_op \<Rightarrow> udps \<Rightarrow> bool" where
  "udp_legal h op st \<longleftrightarrow>
     (case op of
        Do_send r bs a cb \<Rightarrow> bs \<noteq> [] \<and> 0 \<le> udp_fd h st \<and> r \<notin> set (in_queues h st) \<and> unat (active_reqs (udp_loop st)) + 1 < 2 ^ 32
      | Do_try_send bs a \<Rightarrow> bs \<noteq> [] \<and> 0 \<le> udp_fd h st
      | Do_recv_stop \<Rightarrow> True)"

definition exec_udp :: "udp_system \<Rightarrow> ptr \<Rightarrow> udp_op \<Rightarrow> udps \<Rightarrow> udps option" where
  "exec_udp k h op st =
     (if udp_legal h op st then
        (case op of
           Do_send r bs a cb \<Rightarrow> map_option snd (uv_udp_send k r h bs a cb st)
         | Do_try_send bs a \<Rightarrow> map_option snd (uv_udp_try_send k h bs a st)
         | Do_recv_stop \<Rightarrow> map_option snd (uv_udp_recv_stop h st))
      else Some st)"

fun exec_udps :: "udp_system \<Rightarrow> ptr \<Rightarrow> udp_op list \<Rightarrow> udps \<Rightarrow> udps option" where
  "exec_udps k h [] st = Some st"
| "exec_udps k h (op # ops) st = Option.bind (exec_udp k h op st) (exec_udps k h ops)"

definition udp_program :: "udp_system \<Rightarrow> ptr \<Rightarrow> (udp_call \<Rightarrow> udp_op list) \<Rightarrow> udp_client" where
  "udp_program k h prog = \<lparr>on_udp_call = (\<lambda>c. exec_udps k h (prog c)), on_udp_alloc = (\<lambda>_ _ st. Some (\<lparr>buf_base = NULL, buf_len = 0\<rparr>, st))\<rparr>"

definition steady :: "udp_system \<Rightarrow> udp_system" where
  "steady k = (if kernel_sends k then k else k\<lparr>sys_sendmsg := \<lambda>_ _ _ _. Inr (), sys_sendmmsg := \<lambda>_ ds _. Inr (length ds)\<rparr>)"

lemma steady_sends: "kernel_sends (steady k)"
  by (simp add: steady_def kernel_sends_def settled_def) (metis One_nat_def Suc_leI length_greater_0_conv)

lemma processing_start: "processing h (st\<lparr>udp_loop := uv__handle_start h l\<rparr>) = processing h (st\<lparr>udp_loop := l\<rparr>)"
  "processing h (st\<lparr>udp_loop := uv__handle_stop h l\<rparr>) = processing h (st\<lparr>udp_loop := l\<rparr>)"
  by (auto simp: processing_def udp_flags_def uv__handle_start_def uv__handle_stop_def macro_defs Let_def udp_flag_test power_of_flag
      bit_or_iff bit_and_iff bit_not_iff bit_exp_iff)

lemma processing_handle: "handle l = handle (udp_loop st) \<Longrightarrow> processing h (st\<lparr>udp_loop := l\<rparr>) = processing h st"
  by (simp add: processing_def udp_flags_def)

text \<open>Submitting: the request is behind all others.\<close>

lemma udp_enqueue_ok:
  assumes ok: "sends_ok h st" and r: "r \<notin> set (in_queues h st)" and bs: "bs \<noteq> []" and a: "supported a"
    and n: "unat (active_reqs (udp_loop st)) + 1 < 2 ^ 32"
    and q: "q = (send_of st r)\<lparr>send_addr := a, send_cb := cb, udp_handle := h, send_nbufs := length bs, send_bufs := Some bs\<rparr>"
    and st': "st' = st\<lparr>send_of := (send_of st)(r := q),
      udp_of := (udp_of st)(h := (udp_of st h)\<lparr>send_queue_size := send_queue_size (udp_of st h) + uv__count_bufs bs,
        send_queue_count := send_queue_count (udp_of st h) + 1, udp_write_queue := udp_write_queue (udp_of st h) @ [r]\<rparr>),
      udp_loop := uv__handle_start h ((udp_loop st)\<lparr>active_reqs := active_reqs (udp_loop st) + 1\<rparr>)\<rparr>"
  shows "sends_ok h st'" "in_queues h st' = in_queues h st @ [r]"
proof -
  show q': "in_queues h st' = in_queues h st @ [r]" by (simp add: in_queues_def st')
  have same: "request_size st' v = request_size st v" "ready h st' v = ready h st v" if "v \<in> set (in_queues h st)" for v
    using r that by (auto simp: request_size_def ready_def st')
  have m: "map (request_size st') (in_queues h st) = map (request_size st) (in_queues h st)" using same by simp
  have new: "request_size st' r = uv__count_bufs bs" "ready h st' r" using bs a by (simp_all add: request_size_def ready_def st' q)
  have un: "unat (active_reqs (udp_loop st')) = unat (active_reqs (udp_loop st)) + 1"
    using n by (simp add: st' handle_macro_fields unat_word_ariths)
  have io: "udp_io_ok h st'"
    using ok polling_ok_macros(1) [OF polling_ok_reqs, of "udp_loop st" h "active_reqs (udp_loop st) + 1"]
    by (simp add: sends_ok_def udp_io_ok_def st' udp_fd_def handle_macro_fields fd_free_def)
  have f: "send_queue_size (udp_of st' h) = send_queue_size (udp_of st h) + uv__count_bufs bs"
    "send_queue_count (udp_of st' h) = send_queue_count (udp_of st h) + 1" by (simp_all add: st')
  show "sends_ok h st'"
    unfolding sends_ok_def q' map_append m f un
    using ok r new io same(2) by (auto simp: sends_ok_def)
qed

lemma sends_same:
  assumes "sends_ok h st" "in_queues h st' = in_queues h st" "\<And>r. r \<in> set (in_queues h st) \<Longrightarrow> send_of st' r = send_of st r"
    and "udp_of st' = udp_of st" "udp_loop st' = udp_loop st"
  shows "sends_ok h st'"
proof -
  have m: "map (request_size st') (in_queues h st) = map (request_size st) (in_queues h st)"
    by (rule map_cong) (simp_all add: request_size_def assms(3))
  have r: "\<forall>r \<in> set (in_queues h st). ready h st' r" using assms(1,3) by (simp add: sends_ok_def ready_def)
  have io: "udp_io_ok h st' = udp_io_ok h st" by (simp add: udp_io_ok_def udp_fd_def assms(5))
  show ?thesis using assms(1) r unfolding sends_ok_def assms(2,4,5) m io by blast
qed

lemma udp_send_ok:
  assumes ok: "sends_ok h st" and k: "kernel_sends k" and leg: "udp_legal h (Do_send r bs a cb) st"
  shows "\<exists>err st'. uv_udp_send k r h bs a cb st = Some (err, st') \<and> sends_ok h st' \<and>
    in_queues h st' = in_queues h st @ (if err = None then [r] else []) \<and>
    (processing h st \<longrightarrow> submits h st st' (if err = None then [r] else []))"
proof -
  have l: "bs \<noteq> []" "0 \<le> udp_fd h st" "r \<notin> set (in_queues h st)" "unat (active_reqs (udp_loop st)) + 1 < 2 ^ 32"
    using leg by (simp_all add: udp_legal_def)
  show ?thesis
  proof (cases "uv__udp_check_before_send h a st")
    case (Some e)
    then show ?thesis using ok submits_refl by (simp add: uv_udp_send_def)
  next
    case None
    then have a: "supported a" by (auto simp: uv__udp_check_before_send_def Let_def split: if_splits)
    have bind: "(case a of None \<Rightarrow> Some (None, st) | Some a \<Rightarrow> uv__udp_maybe_deferred_bind k h a 0 st) = Some (None, st)"
      using l(2) by (simp add: uv__udp_maybe_deferred_bind_def split: option.splits)
    let ?q = "(send_of st r)\<lparr>send_addr := a, send_cb := cb, udp_handle := h, send_nbufs := length bs\<rparr>"
    show ?thesis
    proof (cases "length bs > 4 \<and> \<not> udp_malloc_ok k (length bs)")
      case True
      let ?s = "st\<lparr>udp_loop := udp_loop st, send_of := (send_of st)(r := ?q\<lparr>send_bufs := None\<rparr>)\<rparr>"
      have "unat (active_reqs (udp_loop st) + 1) = unat (active_reqs (udp_loop st)) + 1" using l(4) by (simp add: unat_word_ariths)
      then have "active_reqs (udp_loop st) + 1 \<noteq> 0" by auto
      then have "uv_udp_send k r h bs a cb st = Some (Some UV_ENOMEM, ?s)"
        using None l True bind
        by (simp add: uv_udp_send_def uv__udp_send_def Let_def on_udp_loop_def uv__req_unregister_def uv__req_register_def
            uv__has_active_reqs_def set_send_def word_gt_0)
      moreover have "sends_ok h ?s"
        by (rule sends_same [OF ok]) (use l(3) in \<open>auto simp: in_queues_def\<close>)
      moreover have "in_queues h ?s = in_queues h st" by (simp add: in_queues_def)
      moreover have "submits h st ?s []" using l(3) by (auto simp: submits_def udp_fd_def processing_def udp_flags_def)
      ultimately show ?thesis by simp
    next
      case False
      define st1 where "st1 = st\<lparr>send_of := (send_of st)(r := ?q\<lparr>send_bufs := Some bs\<rparr>),
        udp_of := (udp_of st)(h := (udp_of st h)\<lparr>send_queue_size := send_queue_size (udp_of st h) + uv__count_bufs bs,
          send_queue_count := send_queue_count (udp_of st h) + 1, udp_write_queue := udp_write_queue (udp_of st h) @ [r]\<rparr>),
        udp_loop := uv__handle_start h ((udp_loop st)\<lparr>active_reqs := active_reqs (udp_loop st) + 1\<rparr>)\<rparr>"
      note e = udp_enqueue_ok [OF ok l(3,1) a l(4) refl, of st1 cb, unfolded udp_request.simps, folded st1_def, OF refl]
      have fd1: "udp_fd h st1 = udp_fd h st" by (simp add: st1_def udp_fd_def handle_macro_fields)
      have p1: "processing h st1 = processing h st"
        using processing_start(1) [of h "(udp_loop st)\<lparr>active_reqs := active_reqs (udp_loop st) + 1\<rparr>" st1]
        by (simp add: st1_def processing_def udp_flags_def)
      have run: "uv_udp_send k r h bs a cb st = map_option (Pair None)
          (if send_queue_count (udp_of st h) = 0 \<and> \<not> processing h st then
             Option.bind (uv__udp_sendmsg k h st1) (\<lambda>st. if udp_write_queue (udp_of st h) \<noteq> [] then on_udp_loop (uv__io_start h POLLOUT) st else Some st)
           else on_udp_loop (uv__io_start h POLLOUT) st1)"
        using None l False bind p1
        by (cases "4 < length bs")
          (simp_all add: uv_udp_send_def uv__udp_send_def Let_def set_udp_def set_send_def uv__req_register_def st1_def processing_def
            udp_flags_def)
      show ?thesis
      proof (cases "send_queue_count (udp_of st h) = 0 \<and> \<not> processing h st")
        case True
        obtain st2 fin where st2: "uv__udp_sendmsg k h st1 = Some st2" "progress h st1 st2 fin" using sendmsg_progress [OF k e(1)] by blast
        note p = progress_ok [OF e(1) st2(2)]
        have "0 \<le> udp_fd h st2" using p(4) fd1 l(2) by simp
        then obtain l where "on_udp_loop (uv__io_start h POLLOUT) st2 = Some (st2\<lparr>udp_loop := l\<rparr>)" "sends_ok h (st2\<lparr>udp_loop := l\<rparr>)"
          using udp_start [OF p(1) POLLOUT_valid(1)] by blast
        moreover have "in_queues h (st2\<lparr>udp_loop := l\<rparr>) = in_queues h st2" by (simp add: in_queues_def)
        ultimately show ?thesis using run True st2(1) p(1,2) e(2) by (cases "udp_write_queue (udp_of st2 h) = []") auto
      next
        case go: False
        obtain l' where s: "on_udp_loop (uv__io_start h POLLOUT) st1 = Some (st1\<lparr>udp_loop := l'\<rparr>)" "sends_ok h (st1\<lparr>udp_loop := l'\<rparr>)"
          "udp_fd h (st1\<lparr>udp_loop := l'\<rparr>) = udp_fd h st1" "handle l' = handle (udp_loop st1)"
          using udp_start [OF e(1) POLLOUT_valid(1)] fd1 l(2) by auto
        have "uv_udp_send k r h bs a cb st = Some (None, st1\<lparr>udp_loop := l'\<rparr>)" unfolding run if_not_P [OF go] using s(1) by simp
        moreover have "in_queues h (st1\<lparr>udp_loop := l'\<rparr>) = in_queues h st @ [r]" using e(2) by (simp add: in_queues_def)
        moreover have "submits h st (st1\<lparr>udp_loop := l'\<rparr>) [r]"
          using s(3) fd1 l(2,3) p1 processing_handle [OF s(4)] by (auto simp: submits_def st1_def)
        ultimately show ?thesis using s(2) by simp
      qed
    qed
  qed
qed

lemma udp_try_send_ok:
  assumes ok: "sends_ok h st" and k: "kernel_sends k" and leg: "udp_legal h (Do_try_send bs a) st"
  shows "\<exists>res st'. uv_udp_try_send k h bs a st = Some (res, st') \<and> sends_ok h st' \<and> submits h st st' []"
proof (cases "uv__udp_check_before_send h a st = None \<and> send_queue_count (udp_of st h) = 0")
  case False
  then have "\<exists>e. uv_udp_try_send k h bs a st = Some (Inl e, st)"
    using leg by (auto simp: uv_udp_try_send_def uv__udp_try_send_def udp_legal_def split: option.splits)
  then show ?thesis using ok submits_refl by blast
next
  case True
  have l: "bs \<noteq> []" "0 \<le> udp_fd h st" using leg by (simp_all add: udp_legal_def)
  have "(case a of None \<Rightarrow> if udp_flags h st AND UV_HANDLE_UDP_CONNECTED \<noteq> 0 then Some (None, st) else None
      | Some a \<Rightarrow> uv__udp_maybe_deferred_bind k h a 0 st) = Some (None, st)"
    using True l(2) by (auto simp: uv__udp_check_before_send_def uv__udp_maybe_deferred_bind_def Let_def split: option.splits if_splits)
  moreover obtain m where m: "retry [UV_EINTR] (sys_sendmsg k (udp_fd h st) a (udp_bytes st bs)) (udp_syscalls st) =
      Some (sys_sendmsg k (udp_fd h st) a (udp_bytes st bs) m, m + 1)"
    using retry_total [of "[UV_EINTR]" "sys_sendmsg k (udp_fd h st) a (udp_bytes st bs)" "udp_syscalls st"] k by (auto simp: kernel_sends_def)
  ultimately have "\<exists>res c d. uv_udp_try_send k h bs a st = Some (res, st\<lparr>udp_syscalls := c, datagrams := d\<rparr>)"
    using True l
    by (cases "sys_sendmsg k (udp_fd h st) a (udp_bytes st bs) m")
      (fastforce simp: uv_udp_try_send_def uv__udp_try_send_def Let_def intro: exI [of _ "datagrams st"])+
  then obtain res c d where r: "uv_udp_try_send k h bs a st = Some (res, st\<lparr>udp_syscalls := c, datagrams := d\<rparr>)" by blast
  let ?s = "st\<lparr>udp_syscalls := c, datagrams := d\<rparr>"
  have f: "in_queues h ?s = in_queues h st" "request_size ?s = request_size st" "ready h ?s = ready h st" "udp_io_ok h ?s = udp_io_ok h st"
    "udp_of ?s = udp_of st" "udp_loop ?s = udp_loop st"
    by (simp_all add: in_queues_def request_size_def ready_def fun_eq_iff udp_io_ok_def udp_fd_def)
  have "sends_ok h ?s" using ok unfolding sends_ok_def f .
  moreover have "submits h st ?s []" by (simp add: submits_def udp_fd_def processing_def udp_flags_def)
  ultimately show ?thesis using r by blast
qed

lemma udp_recv_stop_ok:
  assumes ok: "sends_ok h st"
  shows "\<exists>err st'. uv_udp_recv_stop h st = Some (err, st') \<and> sends_ok h st' \<and> submits h st st' []"
proof (cases "is_udp h st")
  case False
  then show ?thesis using ok submits_refl by (simp add: uv_udp_recv_stop_def)
next
  case True
  obtain l where l: "on_udp_loop (uv__io_stop h POLLIN) st = Some (st\<lparr>udp_loop := l\<rparr>)" "sends_ok h (st\<lparr>udp_loop := l\<rparr>)"
    "udp_fd h (st\<lparr>udp_loop := l\<rparr>) = udp_fd h st" "handle l = handle (udp_loop st)"
    using udp_stop [OF ok POLLOUT_valid(2)] by blast
  obtain act where act: "udp_active h POLLOUT (st\<lparr>udp_loop := l\<rparr>) = Some act" by (simp add: udp_active_def uv__io_active_def POLLOUT_valid)
  define l2 where "l2 = (if act then l else uv__handle_stop h l)"
  have l2: "sends_ok h (st\<lparr>udp_loop := l2\<rparr>)" "udp_fd h (st\<lparr>udp_loop := l2\<rparr>) = udp_fd h st" "processing h (st\<lparr>udp_loop := l2\<rparr>) = processing h st"
    using l handle_stop_sends(1) [OF l(2)] processing_start(2) [of h l st] processing_handle [OF l(4)] by (simp_all add: l2_def)
  let ?s = "set_udp h ((udp_of st h)\<lparr>udp_alloc_cb := NULL, udp_recv_cb := NULL\<rparr>) (st\<lparr>udp_loop := l2\<rparr>)"
  have "uv_udp_recv_stop h st = Some (None, ?s)"
    using True l(1) act by (simp add: uv_udp_recv_stop_def uv__udp_recv_stop_def l2_def)
  moreover have "sends_ok h ?s"
  proof -
    have f: "in_queues h ?s = in_queues h (st\<lparr>udp_loop := l2\<rparr>)" "request_size ?s = request_size (st\<lparr>udp_loop := l2\<rparr>)"
      "ready h ?s = ready h (st\<lparr>udp_loop := l2\<rparr>)" "udp_io_ok h ?s = udp_io_ok h (st\<lparr>udp_loop := l2\<rparr>)"
      by (simp_all add: in_queues_def request_size_def ready_def fun_eq_iff udp_io_ok_def udp_fd_def set_udp_def)
    show ?thesis using l2(1) unfolding sends_ok_def f by (simp add: set_udp_def)
  qed
  moreover have "submits h st ?s []" using l2(2,3) by (simp add: submits_def udp_fd_def processing_def udp_flags_def set_udp_def)
  ultimately show ?thesis by blast
qed

lemma exec_udps_ok:
  assumes "sends_ok h st" "kernel_sends k" "processing h st"
  shows "\<exists>st' new. exec_udps k h ops st = Some st' \<and> sends_ok h st' \<and> submits h st st' new"
  using assms(1,3)
proof (induction ops arbitrary: st)
  case Nil
  then show ?case using submits_refl by auto
next
  case (Cons op ops)
  have "\<exists>st1 new. exec_udp k h op st = Some st1 \<and> sends_ok h st1 \<and> submits h st st1 new"
  proof (cases "udp_legal h op st")
    case False
    then show ?thesis using Cons.prems submits_refl by (auto simp: exec_udp_def)
  next
    case True
    then show ?thesis
    proof (cases op)
      case (Do_send r bs a cb)
      then show ?thesis using udp_send_ok [OF Cons.prems(1) assms(2), of r bs a cb] True Cons.prems(2) by (auto simp: exec_udp_def)
    next
      case (Do_try_send bs a)
      then show ?thesis using udp_try_send_ok [OF Cons.prems(1) assms(2), of bs a] True by (auto simp: exec_udp_def)
    next
      case Do_recv_stop
      then show ?thesis using udp_recv_stop_ok [OF Cons.prems(1)] True by (auto simp: exec_udp_def)
    qed
  qed
  then obtain st1 new1 where 1: "exec_udp k h op st = Some st1" "sends_ok h st1" "submits h st st1 new1" by blast
  then have "processing h st1" using Cons.prems(2) by (simp add: submits_def)
  then obtain st2 new2 where "exec_udps k h ops st1 = Some st2" "sends_ok h st2" "submits h st1 st2 new2" using Cons.IH [OF 1(2)] by blast
  then show ?case using 1 submits_trans by (intro exI [of _ st2] exI [of _ "new1 @ new2"]) (simp add: submits_trans [OF 1(3)])
qed

interpretation udp_api: udp_contract "udp_program (steady k) h prog" h for k h prog
proof
  fix st c
  assume "sends_ok h st" "processing h st"
  then show "\<exists>st' new. on_udp_call (udp_program (steady k) h prog) c st = Some st' \<and> sends_ok h st' \<and> submits h st st' new"
    using exec_udps_ok [OF _ steady_sends] by (simp add: udp_program_def)
qed

text \<open>A watcher in which nothing is registered may get another descriptor.\<close>

lemma fd_change_ok:
  assumes "polling_ok s" "pevents (io s w) = 0" "-1 \<le> f"
  shows "polling_ok (set_io w ((io s w)\<lparr>fd := f\<rparr>) s)"
proof -
  let ?s = "set_io w ((io s w)\<lparr>fd := f\<rparr>) s"
  have i: "io_ok s" "entries_ok s" "synced s" using assms(1) by (simp_all add: polling_ok_def)
  have u: "used_slots ?s = used_slots s" "shape_ok ?s = shape_ok s" by (simp_all add: used_slots_def shape_ok_def)
  have reg: "registered ?s v" if "registered s v" "v \<noteq> w" for v using that by (simp add: registered_def)
  have slot: "watchers s ! j \<noteq> w" if "j \<in> used_slots s" for j using that i(1) assms(2) by (auto simp: io_ok_def)
  have "io_ok ?s" using i(1) reg slot assms(2) unfolding io_ok_def u by auto
  moreover have "entries_ok ?s" by (rule entries_ok_cong [OF i(2)]) simp_all
  moreover have "synced ?s" using i(3) assms(2) by (auto simp: synced_def interest_def)
  ultimately show ?thesis by (simp add: polling_ok_def)
qed

section \<open>Closing\<close>

text \<open>Without a descriptor and without interest: what \<open>uv__udp_close\<close> leaves.\<close>

lemma POLL_both_valid: "events_valid (POLLIN OR POLLOUT)"
  by code_simp

lemma udp_close_ok:
  assumes ok: "sends_ok h st" and idle: "\<not> processing h st" and fd: "udp_fd h st \<notin> {0, 1, 2}"
  shows "\<exists>st'. uv__udp_close k h st = Some st' \<and> sends_ok h st' \<and> \<not> processing h st' \<and> udp_fd h st' = -1 \<and>
    udp_active h (POLLIN OR POLLOUT) st' = Some False \<and> udp_of st' = udp_of st \<and> send_of st' = send_of st \<and> udp_calls st' = udp_calls st \<and>
    udp_fd_events st' = udp_fd_events st @ (if udp_fd h st = -1 then [] else [Closed (udp_fd h st)])"
proof -
  let ?l = "udp_loop st"
  have a: "polling_ok ?l" "h \<noteq> NULL" "-1 \<le> fd (io ?l h)"
    "0 \<le> fd (io ?l h) \<longrightarrow> nat (fd (io ?l h)) < unat (nwatchers ?l) \<longrightarrow> watchers ?l ! nat (fd (io ?l h)) \<in> {NULL, h}"
    using ok by (auto simp: sends_ok_def udp_io_ok_def udp_fd_def fd_free_def)
  from io_close_ok [OF a] obtain l where
    l: "uv__io_close h ?l = Some l" "polling_ok l" "erase_io l = erase_io ?l" "fd (io l h) = fd (io ?l h)" "pevents (io l h) = 0" by blast
  define l2 where "l2 = uv__handle_stop h l"
  let ?s = "st\<lparr>udp_loop := l2\<rparr>"
  have io2: "io l2 = io l" by (simp add: l2_def handle_macro_fields)
  have "polling_ok l2" using polling_ok_macros [of l h] l(2) by (simp add: l2_def)
  have pr: "\<not> processing h ?s"
    using idle processing_start(2) [of h l st] processing_handle [OF erase_ioD(1) [OF l(3)]] by (simp add: l2_def)
  let ?c = "set_udp_fd h (-1) ?s"
  have c: "sends_ok h ?c"
  proof -
    have "polling_ok (set_io h ((io l2 h)\<lparr>fd := -1\<rparr>) l2)" using fd_change_ok [of l2 h "-1"] \<open>polling_ok l2\<close> l(5) io2 by simp
    then have "udp_io_ok h (st\<lparr>udp_loop := set_io h ((io l2 h)\<lparr>fd := -1\<rparr>) l2\<rparr>)"
      using a(2) by (simp add: udp_io_ok_def udp_fd_def set_io_def)
    from loop_change [OF ok this] show ?thesis
      using erase_ioD(4) [OF l(3)] by (simp add: set_udp_fd_def set_io_def l2_def handle_macro_fields)
  qed
  show ?thesis
  proof (cases "udp_fd h st = -1")
    case True
    then have "(io l2 h)\<lparr>fd := -1\<rparr> = io l2 h" using l(4) io2 by (cases "io l2 h") (simp add: udp_fd_def)
    then have "?c = ?s" by (simp add: set_udp_fd_def set_io_def)
    moreover have "uv__udp_close k h st = Some ?s"
      using True l(1,4) io2 by (simp add: uv__udp_close_def on_udp_loop_def l2_def [symmetric] Let_def udp_fd_def)
    ultimately show ?thesis
      using True c pr l(4,5) io2 by (simp add: udp_active_def uv__io_active_def POLL_both_valid udp_fd_def)
  next
    case False
    have f: "udp_fd h ?s = udp_fd h st" using l(4) io2 by (simp add: udp_fd_def)
    have "2 < udp_fd h st" using False fd a(3) by (auto simp: udp_fd_def)
    then obtain e where "uv__close (udp_descriptors k (udp_syscalls st)) (udp_fd h st) = Some e"
      by (simp add: uv__close_def uv__close_nocheckstdio_def)
    then have r: "uv__udp_close k h st = Some (set_udp_fd h (-1) (?s\<lparr>udp_syscalls := udp_syscalls st + 1,
        udp_fd_events := udp_fd_events st @ [Closed (udp_fd h st)]\<rparr>))"
      using False l(1) f by (simp add: uv__udp_close_def on_udp_loop_def l2_def [symmetric] Let_def)
    let ?r = "set_udp_fd h (-1) (?s\<lparr>udp_syscalls := udp_syscalls st + 1, udp_fd_events := udp_fd_events st @ [Closed (udp_fd h st)]\<rparr>)"
    have g: "in_queues h ?r = in_queues h ?c" "request_size ?r = request_size ?c" "ready h ?r = ready h ?c" "udp_io_ok h ?r = udp_io_ok h ?c"
      "udp_of ?r = udp_of ?c" "udp_loop ?r = udp_loop ?c"
      by (simp_all add: in_queues_def request_size_def ready_def fun_eq_iff udp_io_ok_def udp_fd_def set_udp_fd_def)
    have "sends_ok h ?r" using c unfolding sends_ok_def g .
    moreover have "\<not> processing h ?r" using pr by (simp add: processing_def udp_flags_def set_udp_fd_def set_io_def)
    ultimately show ?thesis
      using r False l(5) io2 by (simp add: udp_active_def uv__io_active_def POLL_both_valid) (simp add: set_udp_fd_def udp_fd_def set_io_def)
  qed
qed

section \<open>Properties\<close>

text \<open>A handle with one descriptor, and a kernel that is not ready at first.\<close>

definition udp_kernel :: "nat \<Rightarrow> udp_system" where
  "udp_kernel n = \<lparr>sys_sendmsg = (\<lambda>_ _ _ i. if i < n then Inl UV_EAGAIN else Inr ()),
     sys_sendmmsg = (\<lambda>_ _ i. if i mod 2 = 0 then Inl UV_EINTR else Inr 1),
     sys_recvmsg = (\<lambda>_ _ _. Inl UV_EAGAIN), sys_recvmmsg = (\<lambda>_ _ _. Inl UV_EAGAIN), sys_connect = (\<lambda>_ _ _. Inr ()),
     sys_bind = (\<lambda>_ _. None), setsockopt = (\<lambda>_ _. None), has_peer = (\<lambda>_. False), udp_malloc_ok = (\<lambda>_. True),
     udp_descriptors = (\<lambda>_. plain_system)\<rparr>"

definition udp_loop_of :: uv_loop where
  "udp_loop_of = (let s = new_loop (\<lambda>_. 0)
     in s\<lparr>io := (io s)(5 := \<lparr>io_cb = Uv__udp_io, pevents = 0, events = 0, fd = 3\<rparr>),
          handle := (handle s)(5 := \<lparr>htype = UV_UDP, flags = UV_HANDLE_REF, close_cb = NULL\<rparr>)\<rparr>)"

definition one_udp :: udps where
  "one_udp = \<lparr>udp_loop = udp_loop_of,
     udp_of = (\<lambda>_. \<lparr>send_queue_size = 0, send_queue_count = 0, udp_write_queue = [], udp_completed_queue = [], udp_alloc_cb = NULL, udp_recv_cb = NULL\<rparr>),
     send_of = (\<lambda>_. \<lparr>udp_handle = NULL, send_cb = NULL, send_addr = None, send_bufs = None, send_nbufs = 0, send_status = Inr 0\<rparr>),
     udp_memory = of_nat, datagrams = (\<lambda>_. []), udp_syscalls = 0, udp_fd_events = [], udp_calls = []\<rparr>"

definition a_peer :: sockaddr where "a_peer = Sockaddr_in \<lparr>sin_port = 53, sin_addr = [127, 0, 0, 1]\<rparr>"

definition first_send :: udps where
  "first_send = snd (the (uv_udp_send (udp_kernel 1) 7 5 [\<lparr>buf_base = 100, buf_len = 2\<rparr>] (Some a_peer) 9 one_udp))"

text \<open>Two datagrams that wait, the second one with two buffers.\<close>

definition two_waiting :: udps where
  "two_waiting = snd (the (uv_udp_send (udp_kernel 1) 8 5 [\<lparr>buf_base = 110, buf_len = 1\<rparr>, \<lparr>buf_base = 120, buf_len = 1\<rparr>]
     (Some a_peer) 9 first_send))"

lemma udp_kernel_sends: "kernel_sends (udp_kernel n)"
proof -
  have "\<exists>j. settled [UV_EINTR] (sys_sendmmsg (udp_kernel n) f ds (i + j))" for f ds i
    by (rule exI [of _ "if i mod 2 = 0 then 1 else 0"]) (simp add: udp_kernel_def settled_def mod2_eq_if)
  moreover have "1 \<le> m \<and> m \<le> length ds" if "ds \<noteq> []" "sys_sendmmsg (udp_kernel n) f ds i = Inr m" for f ds i m
  proof -
    have "m = 1" using that(2) by (simp add: udp_kernel_def split: if_splits)
    then show ?thesis using that(1) by (simp add: Suc_le_eq)
  qed
  ultimately show ?thesis by (auto simp: kernel_sends_def udp_kernel_def settled_def)
qed

lemma one_udp_ok: "sends_ok 5 one_udp"
proof -
  let ?n = "new_loop (\<lambda>_. 0)"
  from io_init_ok [OF new_loop_polling(1), where w = 5 and cb = Uv__udp_io and f = 3] have
    "polling_ok (?n\<lparr>io := (io ?n)(5 := \<lparr>io_cb = Uv__udp_io, pevents = 0, events = 0, fd = 3\<rparr>)\<rparr>)"
    by (auto simp: new_loop_def)
  then have "polling_ok udp_loop_of" unfolding udp_loop_of_def Let_def by (rule polling_ok_handle)
  then have "udp_io_ok 5 one_udp"
    by (simp add: udp_io_ok_def one_udp_def udp_fd_def fd_free_def) (simp add: udp_loop_of_def Let_def new_loop_def)
  then show ?thesis by (simp add: sends_ok_def in_queues_def) (simp add: one_udp_def)
qed

lemma first_send_ok: "sends_ok 5 first_send"
proof -
  have "in_queues 5 one_udp = []" "udp_fd 5 one_udp = 3" "active_reqs (udp_loop one_udp) = 0" by code_simp+
  then have "udp_legal 5 (Do_send 7 [\<lparr>buf_base = 100, buf_len = 2\<rparr>] (Some a_peer) 9) one_udp" by (simp add: udp_legal_def)
  from udp_send_ok [OF one_udp_ok udp_kernel_sends this, of 1] show ?thesis by (auto simp: first_send_def)
qed

lemma two_waiting_ok: "sends_ok 5 two_waiting"
proof -
  have "in_queues 5 first_send = [7]" "udp_fd 5 first_send = 3" "active_reqs (udp_loop first_send) = 1" by code_simp+
  then have "udp_legal 5 (Do_send 8 [\<lparr>buf_base = 110, buf_len = 1\<rparr>, \<lparr>buf_base = 120, buf_len = 1\<rparr>] (Some a_peer) 9) first_send"
    by (simp add: udp_legal_def)
  from udp_send_ok [OF first_send_ok udp_kernel_sends this, of 1] show ?thesis by (auto simp: two_waiting_def)
qed

lemma two_waiting_state:
  "udp_write_queue (udp_of two_waiting 5) = [7, 8]" "udp_completed_queue (udp_of two_waiting 5) = []" "datagrams two_waiting 5 = []"
  "map (datagram_of two_waiting) [7, 8] = [Some (Some a_peer, [100, 101]), Some (Some a_peer, [110, 120])]"
  "udp_calls two_waiting = []" "udp_fd 5 two_waiting = 3" "udp_fd_events two_waiting = []"
  by code_simp+

lemma two_waiting_idle: "\<not> processing 5 two_waiting"
  unfolding processing_def by code_simp

text \<open>
  C17: \<open>uv__udp_sendmsg\<close> returns, whatever the kernel answers to \<open>sendmsg\<close> and \<open>sendmmsg\<close>. The
  requests it finishes are a prefix of the write queue, moved in order to the completed queue;
  what goes out are the datagrams of those of them that have no error, each once and in order, and the
  other requests are untouched. When the kernel takes every datagram, all requests are finished without an error.
\<close>

theorem sendmsg_in_order:
  assumes "sends_ok h st" "kernel_sends k"
  shows "\<exists>st' fin. uv__udp_sendmsg k h st = Some st' \<and> sends_ok h st' \<and>
    udp_write_queue (udp_of st h) = fin @ udp_write_queue (udp_of st' h) \<and>
    udp_completed_queue (udp_of st' h) = udp_completed_queue (udp_of st h) @ fin \<and>
    datagrams st' = (datagrams st)(h := datagrams st h @ map (\<lambda>r. the (datagram_of st r)) (filter (sent_ok st') fin)) \<and>
    (\<forall>r. r \<notin> set fin \<longrightarrow> send_of st' r = send_of st r) \<and>
    (takes_all k \<longrightarrow> udp_write_queue (udp_of st' h) = [] \<and> (\<forall>r\<in>set fin. sent_ok st' r))"
proof -
  from sendmsg_progress [OF assms(2,1)] obtain st' fin where
    st': "uv__udp_sendmsg k h st = Some st'" "progress h st st' fin" "all_out k h st' fin" by blast
  then have "udp_completed_queue (udp_of st' h) = udp_completed_queue (udp_of st h) @ fin" by (auto simp: progress_def)
  then show ?thesis
    using st' progress_ok(1) [OF assms(1) st'(2)] progress_queue [OF st'(2)] unfolding all_out_def progress_def by blast
qed

lemma quick_takes_all: "takes_all (udp_kernel 0)"
  by (simp add: takes_all_def udp_kernel_def)

theorem sendmsg_in_order_witness:
  "\<exists>st'. uv__udp_sendmsg (udp_kernel 0) 5 two_waiting = Some st' \<and> udp_completed_queue (udp_of st' 5) = [7, 8] \<and>
     datagrams st' 5 = [(Some a_peer, [100, 101]), (Some a_peer, [110, 120])]"
proof -
  from sendmsg_in_order [OF two_waiting_ok udp_kernel_sends, of 0] obtain st' fin where
    s: "uv__udp_sendmsg (udp_kernel 0) 5 two_waiting = Some st'"
      "udp_write_queue (udp_of two_waiting 5) = fin @ udp_write_queue (udp_of st' 5)"
      "udp_completed_queue (udp_of st' 5) = udp_completed_queue (udp_of two_waiting 5) @ fin"
      "datagrams st' = (datagrams two_waiting)(5 := datagrams two_waiting 5 @ map (\<lambda>r. the (datagram_of two_waiting r)) (filter (sent_ok st') fin))"
      "udp_write_queue (udp_of st' 5) = []" "\<forall>r\<in>set fin. sent_ok st' r"
    using quick_takes_all by blast
  have "fin = [7, 8]" using s(2,5) two_waiting_state(1) by simp
  moreover from this have "filter (sent_ok st') fin = [7, 8]" using s(6) by simp
  ultimately show ?thesis using s two_waiting_state by (intro exI [of _ st']) simp
qed

text \<open>
  C18: When a handle that is not closing can be written to, \<open>uv__udp_io\<close> sends as above and then
  calls back every request that is over, once and in order, with its status, while the callbacks submit
  further requests, try to send and stop receiving. What they submit waits behind the requests that are left, the
  invariant holds again, and the flag that marks the callbacks as running is reset.
\<close>

theorem udp_callbacks_in_order:
  assumes "sends_ok h st" "\<not> processing h st" "kernel_sends k" "is_udp h st" "\<not> uv__is_closing h (udp_loop st)"
  shows "\<exists>st1 st' fin new. uv__udp_sendmsg k h st = Some st1 \<and>
    udp_write_queue (udp_of st h) = fin @ udp_write_queue (udp_of st1 h) \<and>
    uv__udp_io k (udp_program (steady k') h prog) h POLLOUT st = Some st' \<and> sends_ok h st' \<and> \<not> processing h st' \<and>
    in_queues h st' = udp_write_queue (udp_of st1 h) @ new \<and>
    udp_calls st' = udp_calls st @
      map (\<lambda>r. Send_cb r (case send_status (send_of st1 r) of Inr _ \<Rightarrow> None | Inl e \<Rightarrow> Some e))
        (filter (\<lambda>r. send_cb (send_of st1 r) \<noteq> NULL) (udp_completed_queue (udp_of st h) @ fin))"
  using udp_api.udp_io_out [OF assms(1-3) assms(4) [unfolded is_udp_def] assms(5), of k' prog] progress_queue
  unfolding logged_def by blast

text \<open>A program that answers each callback by sending again.\<close>

definition send_again :: "udp_call \<Rightarrow> udp_op list" where
  "send_again c = (case c of Send_cb r _ \<Rightarrow> [Do_send (r + 10) [\<lparr>buf_base = 130, buf_len = 1\<rparr>] (Some a_peer) 9] | _ \<Rightarrow> [])"

lemma two_waiting_open: "is_udp 5 two_waiting" "\<not> uv__is_closing 5 (udp_loop two_waiting)"
  by code_simp+

theorem udp_callbacks_in_order_witness:
  "\<exists>st'. uv__udp_io (udp_kernel 0) (udp_program (steady (udp_kernel 0)) 5 send_again) 5 POLLOUT two_waiting = Some st' \<and>
     udp_calls st' = [Send_cb 7 None, Send_cb 8 None]"
proof -
  have w: "map_option (\<lambda>s. (udp_write_queue (udp_of s 5), map (\<lambda>r. (send_status (send_of s r), send_cb (send_of s r))) [7, 8]))
      (uv__udp_sendmsg (udp_kernel 0) 5 two_waiting) = Some ([], [(Inr 2, 9), (Inr 1, 9)])" by code_simp
  from udp_callbacks_in_order [OF two_waiting_ok two_waiting_idle udp_kernel_sends two_waiting_open, of 0 "udp_kernel 0" send_again] obtain st1 st' fin where
    s: "uv__udp_sendmsg (udp_kernel 0) 5 two_waiting = Some st1"
      "udp_write_queue (udp_of two_waiting 5) = fin @ udp_write_queue (udp_of st1 5)"
      "uv__udp_io (udp_kernel 0) (udp_program (steady (udp_kernel 0)) 5 send_again) 5 POLLOUT two_waiting = Some st'"
      "udp_calls st' = udp_calls two_waiting @
        map (\<lambda>r. Send_cb r (case send_status (send_of st1 r) of Inr _ \<Rightarrow> None | Inl e \<Rightarrow> Some e))
          (filter (\<lambda>r. send_cb (send_of st1 r) \<noteq> NULL) (udp_completed_queue (udp_of two_waiting 5) @ fin))"
    by blast
  have "fin = [7, 8]" using s(1,2) w two_waiting_state(1) by simp
  then show ?thesis using s w two_waiting_state by (intro exI [of _ st']) simp
qed



end
