(* ===== verification/Threadpool.thy ===== *)
theory Threadpool
  imports Errors
begin

text \<open>
  \<^verbatim>\<open>threadpool.c\<close>: threads that take work from a queue, with a limit on the threads that do
  slow I/O. Each critical section of the mutexes is one step; the steps of the threads, of the
  thread that submits and cancels and of the loop that delivers interleave freely. Work is named
  by the pointer to its \<open>struct uv__work\<close>; each submission has a name of its own.
\<close>

section \<open>The state\<close>

text \<open>What the queue \<open>wq\<close> links: work and the two messages.\<close>

datatype job = Work ptr | Slow_message | Exit_message

datatype work_kind = Cpu | Fast_io | Slow_io

text \<open>
  Where a thread is: about to lock the mutex at the top of its loop for the first time; waiting on
  the condition; woken from it and about to lock; running work, slow or not; about to lock after
  it; past its loop.
\<close>

datatype thread = Top | Waiting | Woken | Running ptr bool | Finishing bool | Exited

text \<open>The field \<open>work\<close>: a function to run, \<open>uv__cancelled\<close>, or \<open>NULL\<close> once it has run.\<close>

datatype work_fun = To_run | Cancelled | Done

text \<open>
  \<open>linked w\<close> is \<open>!uv__queue_empty(&w->wq)\<close>; \<open>done_run\<close> is the queue on the stack of
  \<open>uv__work_done\<close>, \<open>cancelling\<close> the work between the two critical sections of
  \<open>uv__work_cancel\<close>. \<open>active\<close> is the number of these requests that the loop counts. What was
  submitted, begun and delivered (with whether it was cancelled) is recorded in its order.
\<close>

record pool =
  wq :: "job list"
  slow_pending :: "ptr list"
  slow_running :: nat
  idle_threads :: nat
  threads :: "thread list"
  loop_wq :: "ptr list"
  done_run :: "ptr list"
  cancelling :: "ptr option"
  work_fun :: "ptr \<Rightarrow> work_fun"
  linked :: "ptr \<Rightarrow> bool"
  active :: nat
  submitted :: "ptr list"
  started :: "ptr list"
  delivered :: "(ptr \<times> bool) list"

text \<open>
  The number of threads: \<open>UV_THREADPOOL_SIZE\<close> as \<open>atoi\<close> reads it, converted to \<open>unsigned int\<close>,
  and whether there is memory for more threads than the four of the static array.
\<close>

definition pool_size :: "int option \<Rightarrow> bool \<Rightarrow> nat" where
  "pool_size val memory =
     (let n = (case val of None \<Rightarrow> (4 :: u32) | Some v \<Rightarrow> word_of_int v);
          n = (if n = 0 then 1 else n);
          n = (if n > 1024 then 1024 else n)
      in if n > 4 \<and> \<not> memory then 4 else unat n)"

definition init_threads :: "nat \<Rightarrow> pool" where
  "init_threads n = \<lparr>wq = [], slow_pending = [], slow_running = 0, idle_threads = 0, threads = replicate n Top,
     loop_wq = [], done_run = [], cancelling = None, work_fun = (\<lambda>_. Done), linked = (\<lambda>_. False), active = 0,
     submitted = [], started = [], delivered = []\<rparr>"

definition slow_work_thread_threshold :: "pool \<Rightarrow> nat" where
  "slow_work_thread_threshold p = (length (threads p) + 1) div 2"

section \<open>The critical sections\<close>

definition set_thread :: "nat \<Rightarrow> thread \<Rightarrow> pool \<Rightarrow> pool" where
  "set_thread t x p = p\<lparr>threads := (threads p)[t := x]\<rparr>"

text \<open>\<open>uv_cond_signal\<close> wakes one thread that waits, any of them, if there is one.\<close>

inductive signal :: "pool \<Rightarrow> pool \<Rightarrow> bool" where
  wakes: "t < length (threads p) \<Longrightarrow> threads p ! t = Waiting \<Longrightarrow> signal p (set_thread t Woken p)"
| nobody: "Waiting \<notin> set (threads p) \<Longrightarrow> signal p p"

text \<open>\<open>if (idle_threads > 0) uv_cond_signal(&cond)\<close>\<close>

definition signal_idle :: "pool \<Rightarrow> pool \<Rightarrow> bool" where
  "signal_idle p p' \<longleftrightarrow> (if idle_threads p > 0 then signal p p' else p' = p)"

text \<open>The queue after \<open>post\<close>, and whether it goes on to signal.\<close>

definition post :: "job \<Rightarrow> work_kind \<Rightarrow> pool \<Rightarrow> bool \<times> pool" where
  "post q kind p =
     (case (kind, q) of
        (Slow_io, Work w) \<Rightarrow>
          let p = p\<lparr>slow_pending := slow_pending p @ [w]\<rparr>
          in if Slow_message \<in> set (wq p) then (False, p)
             else (True, p\<lparr>wq := wq p @ [Slow_message]\<rparr>)
      | _ \<Rightarrow> (True, p\<lparr>wq := wq p @ [q]\<rparr>))"

definition uv__work_submit :: "ptr \<Rightarrow> work_kind \<Rightarrow> pool \<Rightarrow> bool \<times> pool" where
  "uv__work_submit w kind p =
     post (Work w) kind (p\<lparr>work_fun := (work_fun p)(w := To_run), linked := (linked p)(w := True),
       submitted := submitted p @ [w]\<rparr>)"

text \<open>What every function that submits does first with the loop's count of its requests.\<close>

definition register_work :: "pool \<Rightarrow> pool" where
  "register_work p = p\<lparr>active := active p + 1\<rparr>"

definition uv_queue_work :: "ptr \<Rightarrow> ptr option \<Rightarrow> pool \<Rightarrow> uv_errno option \<times> bool \<times> pool" where
  "uv_queue_work w work_cb p =
     (case work_cb of None \<Rightarrow> (Some UV_EINVAL, False, p) | Some _ \<Rightarrow> (None, uv__work_submit w Cpu (register_work p)))"

text \<open>
  What a thread does with the mutex locked at the top of the loop of \<open>worker\<close>: it waits, it
  leaves, or it takes work; in the last case, whether it signals that there is more slow work.
\<close>

datatype action = Wait | Leave | Run ptr bool bool

partial_function (option) next_job :: "pool \<Rightarrow> (action \<times> pool) option" where
  "next_job p =
     (if wq p = [] \<or> wq p = [Slow_message] \<and> slow_running p \<ge> slow_work_thread_threshold p then Some (Wait, p)
      else
        case hd (wq p) of
          Exit_message \<Rightarrow> Some (Leave, p)
        | Work w \<Rightarrow> Some (Run w False False, p\<lparr>wq := tl (wq p), linked := (linked p)(w := False)\<rparr>)
        | Slow_message \<Rightarrow>
            if slow_running p \<ge> slow_work_thread_threshold p
            then next_job (p\<lparr>wq := tl (wq p) @ [Slow_message]\<rparr>)
            else if slow_pending p = [] then next_job (p\<lparr>wq := tl (wq p)\<rparr>)
            else
              let w = hd (slow_pending p);
                  p = p\<lparr>wq := tl (wq p), slow_running := slow_running p + 1, slow_pending := tl (slow_pending p),
                    linked := (linked p)(w := False)\<rparr>
              in if slow_pending p \<noteq> [] then Some (Run w True True, p\<lparr>wq := wq p @ [Slow_message]\<rparr>)
                 else Some (Run w True False, p))"

declare next_job.simps [code]

text \<open>Before that: the thread is no longer idle, or its slow work is over.\<close>

definition enter :: "thread \<Rightarrow> pool \<Rightarrow> pool" where
  "enter x p =
     (case x of
        Woken \<Rightarrow> p\<lparr>idle_threads := idle_threads p - 1\<rparr>
      | Finishing True \<Rightarrow> p\<lparr>slow_running := slow_running p - 1\<rparr>
      | _ \<Rightarrow> p)"

definition about_to_lock :: "thread \<Rightarrow> bool" where
  "about_to_lock x \<longleftrightarrow> (case x of Top \<Rightarrow> True | Woken \<Rightarrow> True | Finishing _ \<Rightarrow> True | _ \<Rightarrow> False)"

definition cancellable :: "ptr \<Rightarrow> pool \<Rightarrow> bool" where
  "cancellable w p \<longleftrightarrow> linked p w \<and> work_fun p w \<noteq> Done"

text \<open>\<open>uv__work_cancel\<close>: unlinking, and what follows.\<close>

definition unlink :: "ptr \<Rightarrow> pool \<Rightarrow> pool" where
  "unlink w p = p\<lparr>wq := remove1 (Work w) (wq p), slow_pending := remove1 w (slow_pending p),
     loop_wq := remove1 w (loop_wq p), done_run := remove1 w (done_run p), cancelling := Some w\<rparr>"

definition complete_cancel :: "ptr \<Rightarrow> pool \<Rightarrow> pool" where
  "complete_cancel w p = p\<lparr>work_fun := (work_fun p)(w := Cancelled), loop_wq := loop_wq p @ [w], cancelling := None\<rparr>"

definition uv__work_cancel :: "ptr \<Rightarrow> pool \<Rightarrow> uv_errno option \<times> pool" where
  "uv__work_cancel w p = (if cancellable w p then (None, unlink w p) else (Some UV_EBUSY, p))"

datatype uv_req_type =
  UV_UNKNOWN_REQ | UV_REQ | UV_CONNECT | UV_WRITE | UV_SHUTDOWN | UV_UDP_SEND | UV_FS | UV_WORK | UV_GETADDRINFO |
  UV_GETNAMEINFO | UV_RANDOM

definition uv_cancel :: "uv_req_type \<Rightarrow> ptr \<Rightarrow> pool \<Rightarrow> uv_errno option \<times> pool" where
  "uv_cancel type w p =
     (if type \<in> {UV_FS, UV_GETADDRINFO, UV_GETNAMEINFO, UV_RANDOM, UV_WORK} then uv__work_cancel w p else (Some UV_EINVAL, p))"

text \<open>The end of running work, under the lock of the loop.\<close>

definition finish_work :: "ptr \<Rightarrow> pool \<Rightarrow> pool" where
  "finish_work w p = p\<lparr>work_fun := (work_fun p)(w := Done), linked := (linked p)(w := True), loop_wq := loop_wq p @ [w]\<rparr>"

text \<open>\<open>uv__work_done\<close>: it takes the queue, and then calls back for one request after the other.\<close>

definition collect_done :: "pool \<Rightarrow> pool" where
  "collect_done p = p\<lparr>done_run := loop_wq p, loop_wq := []\<rparr>"

definition deliver_done :: "ptr \<Rightarrow> ptr list \<Rightarrow> pool \<Rightarrow> pool" where
  "deliver_done w ws p = p\<lparr>done_run := ws, active := active p - 1, delivered := delivered p @ [(w, work_fun p w = Cancelled)]\<rparr>"

text \<open>
  The steps. A request may be cancelled until it is delivered; the thread of the loop does one
  thing at a time. \<open>uv__threadpool_cleanup\<close> posts the message to exit, once. A wait may also end
  without a signal.
\<close>

inductive pool_step :: "pool \<Rightarrow> pool \<Rightarrow> bool" where
  submit: "w \<notin> set (submitted p) \<Longrightarrow> cancelling p = None \<Longrightarrow> uv__work_submit w kind (register_work p) = (sig, p1) \<Longrightarrow>
    (if sig then signal_idle p1 p' else p' = p1) \<Longrightarrow> pool_step p p'"
| take_job: "t < length (threads p) \<Longrightarrow> x = threads p ! t \<Longrightarrow> about_to_lock x \<Longrightarrow>
    next_job (enter x p) = Some (Run w slow more_slow, p1) \<Longrightarrow>
    p2 = set_thread t (Running w slow) (p1\<lparr>started := started p1 @ [w]\<rparr>) \<Longrightarrow>
    (if more_slow then signal_idle p2 p' else p' = p2) \<Longrightarrow> pool_step p p'"
| wait_job: "t < length (threads p) \<Longrightarrow> x = threads p ! t \<Longrightarrow> about_to_lock x \<Longrightarrow>
    next_job (enter x p) = Some (Wait, p1) \<Longrightarrow>
    pool_step p (set_thread t Waiting (p1\<lparr>idle_threads := idle_threads p1 + 1\<rparr>))"
| leave: "t < length (threads p) \<Longrightarrow> x = threads p ! t \<Longrightarrow> about_to_lock x \<Longrightarrow>
    next_job (enter x p) = Some (Leave, p1) \<Longrightarrow> signal (set_thread t Exited p1) p' \<Longrightarrow> pool_step p p'"
| spurious: "t < length (threads p) \<Longrightarrow> threads p ! t = Waiting \<Longrightarrow> pool_step p (set_thread t Woken p)"
| finish: "t < length (threads p) \<Longrightarrow> threads p ! t = Running w slow \<Longrightarrow>
    pool_step p (set_thread t (Finishing slow) (finish_work w p))"
| cancel: "w \<in> set (submitted p) \<Longrightarrow> w \<notin> fst ` set (delivered p) \<Longrightarrow> cancelling p = None \<Longrightarrow>
    uv__work_cancel w p = (None, p') \<Longrightarrow> pool_step p p'"
| cancelled: "cancelling p = Some w \<Longrightarrow> pool_step p (complete_cancel w p)"
| collect: "cancelling p = None \<Longrightarrow> done_run p = [] \<Longrightarrow> pool_step p (collect_done p)"
| deliver: "cancelling p = None \<Longrightarrow> done_run p = w # ws \<Longrightarrow> pool_step p (deliver_done w ws p)"
| cleanup: "cancelling p = None \<Longrightarrow> Exit_message \<notin> set (wq p) \<Longrightarrow> post Exit_message Cpu p = (sig, p1) \<Longrightarrow>
    signal_idle p1 p' \<Longrightarrow> pool_step p p'"

inductive pool_reachable :: "nat \<Rightarrow> pool \<Rightarrow> bool" for n where
  start: "0 < n \<Longrightarrow> pool_reachable n (init_threads n)"
| step: "pool_reachable n p \<Longrightarrow> pool_step p p' \<Longrightarrow> pool_reachable n p'"

section \<open>Where work is\<close>

fun works :: "job list \<Rightarrow> ptr list" where
  "works [] = []"
| "works (Work w # q) = w # works q"
| "works (Slow_message # q) = works q"
| "works (Exit_message # q) = works q"

fun running :: "thread list \<Rightarrow> ptr list" where
  "running [] = []"
| "running (Running w s # ts) = w # running ts"
| "running (_ # ts) = running ts"

definition is_slow :: "thread \<Rightarrow> bool" where
  "is_slow x \<longleftrightarrow> (case x of Running _ s \<Rightarrow> s | Finishing s \<Rightarrow> s | _ \<Rightarrow> False)"

definition is_idle :: "thread \<Rightarrow> bool" where
  "is_idle x \<longleftrightarrow> x = Waiting \<or> x = Woken"

definition number :: "(thread \<Rightarrow> bool) \<Rightarrow> thread list \<Rightarrow> nat" where
  "number P ts = length (filter P ts)"

definition places :: "pool \<Rightarrow> ptr list" where
  "places p = works (wq p) @ slow_pending p @ running (threads p) @ loop_wq p @ done_run p @
     (case cancelling p of None \<Rightarrow> [] | Some w \<Rightarrow> [w]) @ map fst (delivered p)"

lemma works_append [simp]: "works (p @ q) = works p @ works q"
  by (induction p rule: works.induct) simp_all

lemma running_append [simp]: "running (ts @ us) = running ts @ running us"
  by (induction ts rule: running.induct) simp_all

lemma works_remove1: "works (remove1 (Work w) q) = remove1 w (works q)"
  by (induction q rule: works.induct) auto

lemma split_at: "t < length ts \<Longrightarrow> ts = take t ts @ ts ! t # drop (Suc t) ts \<and> ts[t := x] = take t ts @ x # drop (Suc t) ts"
  by (simp add: id_take_nth_drop [symmetric] upd_conv_take_nth_drop)

lemma running_update:
  "t < length ts \<Longrightarrow> mset (running (ts[t := x])) + mset (running [ts ! t]) = mset (running ts) + mset (running [x])"
proof -
  assume t: "t < length ts"
  have "mset (running (take t ts @ x # drop (Suc t) ts)) + mset (running [ts ! t]) =
      mset (running (take t ts @ ts ! t # drop (Suc t) ts)) + mset (running [x])"
    by (cases x; cases "ts ! t") simp_all
  then show ?thesis using split_at [OF t, of x] by metis
qed

lemma number_update:
  "t < length ts \<Longrightarrow> number P (ts[t := x]) + (if P (ts ! t) then 1 else 0) = number P ts + (if P x then 1 else 0)"
proof -
  assume t: "t < length ts"
  have "number P (take t ts @ x # drop (Suc t) ts) + (if P (ts ! t) then 1 else 0) =
      number P (take t ts @ ts ! t # drop (Suc t) ts) + (if P x then 1 else 0)"
    by (simp add: number_def)
  then show ?thesis using split_at [OF t, of x] by metis
qed

lemma number_pos: "x \<in> set ts \<Longrightarrow> P x \<Longrightarrow> 0 < number P ts"
  by (auto simp: number_def filter_empty_conv)

section \<open>The next job\<close>

definition queue_ok :: "pool \<Rightarrow> bool" where
  "queue_ok p \<longleftrightarrow> length (filter (\<lambda>j. j = Slow_message) (wq p)) \<le> 1 \<and> (slow_pending p \<noteq> [] \<longrightarrow> Slow_message \<in> set (wq p))"

lemma queue_ok_tl:
  assumes "queue_ok p" "wq p = Slow_message # q"
  shows "Slow_message \<notin> set q"
  using assms by (auto simp: queue_ok_def filter_empty_conv)

definition job_spec :: "action \<Rightarrow> pool \<Rightarrow> pool \<Rightarrow> bool" where
  "job_spec a p p' \<longleftrightarrow> queue_ok p' \<and>
     p' = p\<lparr>wq := wq p', slow_pending := slow_pending p', slow_running := slow_running p', linked := linked p'\<rparr> \<and>
     (case a of
        Run w slow more_slow \<Rightarrow>
          linked p' = (linked p)(w := False) \<and>
          (if slow then slow_pending p = w # slow_pending p' \<and> works (wq p') = works (wq p) \<and>
             slow_running p' = slow_running p + 1 \<and> slow_running p' \<le> slow_work_thread_threshold p
           else works (wq p) = w # works (wq p') \<and> slow_pending p' = slow_pending p \<and> slow_running p' = slow_running p \<and> \<not> more_slow)
      | _ \<Rightarrow> works (wq p') = works (wq p) \<and> slow_pending p' = slow_pending p \<and> slow_running p' = slow_running p \<and>
          linked p' = linked p \<and>
          (a = Wait \<longrightarrow> wq p' = [] \<or> wq p' = [Slow_message] \<and> slow_running p' \<ge> slow_work_thread_threshold p))"

lemma job_spec_rotate:
  assumes "job_spec a (p\<lparr>wq := q\<rparr>) p'" "works q = works (wq p)"
  shows "job_spec a p p'"
  using assms by (auto simp: job_spec_def slow_work_thread_threshold_def split: action.splits if_splits)

lemma next_job_spec: "next_job p = Some (a, p') \<Longrightarrow> queue_ok p \<Longrightarrow> job_spec a p p'"
proof -
  have "next_job p = Some y \<Longrightarrow> queue_ok p \<longrightarrow> (case y of (a, p') \<Rightarrow> job_spec a p p')" for y
  proof (rule next_job.raw_induct [where P = "\<lambda>p y. queue_ok p \<longrightarrow> (case y of (a, p') \<Rightarrow> job_spec a p p')"])
    fix f p y
    assume ih: "\<And>p y. f p = Some y \<Longrightarrow> queue_ok p \<longrightarrow> (case y of (a, p') \<Rightarrow> job_spec a p p')"
      and y: "(if wq p = [] \<or> wq p = [Slow_message] \<and> slow_work_thread_threshold p \<le> slow_running p then Some (Wait, p)
      else
        case hd (wq p) of
          Work w \<Rightarrow> Some (Run w False False, p\<lparr>wq := tl (wq p), linked := (linked p)(w := False)\<rparr>)
        | Slow_message \<Rightarrow>
            if slow_work_thread_threshold p \<le> slow_running p
            then f (p\<lparr>wq := tl (wq p) @ [Slow_message]\<rparr>)
            else if slow_pending p = [] then f (p\<lparr>wq := tl (wq p)\<rparr>)
            else
              let w = hd (slow_pending p);
                  p = p\<lparr>wq := tl (wq p), slow_running := slow_running p + 1, slow_pending := tl (slow_pending p),
                    linked := (linked p)(w := False)\<rparr>
              in if slow_pending p \<noteq> [] then Some (Run w True True, p\<lparr>wq := wq p @ [Slow_message]\<rparr>)
                 else Some (Run w True False, p)
        | Exit_message \<Rightarrow> Some (Leave, p)) = Some y"
    show "queue_ok p \<longrightarrow> (case y of (a, p') \<Rightarrow> job_spec a p p')"
    proof
      assume ok: "queue_ok p"
      show "case y of (a, p') \<Rightarrow> job_spec a p p'"
      proof (cases "wq p = [] \<or> wq p = [Slow_message] \<and> slow_work_thread_threshold p \<le> slow_running p")
        case True
        then have "y = (Wait, p)" using y by (simp split: if_splits)
        then show ?thesis using ok True by (auto simp: job_spec_def)
      next
        case False
        then obtain j q where q: "wq p = j # q" by (cases "wq p") auto
        show ?thesis
        proof (cases j)
          case (Work w)
          then have "y = (Run w False False, p\<lparr>wq := q, linked := (linked p)(w := False)\<rparr>)" using y False q by simp
          then show ?thesis using ok q Work by (auto simp: job_spec_def queue_ok_def)
        next
          case Exit_message
          then have "y = (Leave, p)" using y False q by simp
          then show ?thesis using ok by (simp add: job_spec_def)
        next
          case Slow_message
          have no: "Slow_message \<notin> set q" using queue_ok_tl [OF ok] q Slow_message by simp
          have w: "works q = works (wq p)" "works (q @ [Slow_message]) = works (wq p)" using q Slow_message by simp_all
          consider (full) "slow_work_thread_threshold p \<le> slow_running p" "f (p\<lparr>wq := q @ [Slow_message]\<rparr>) = Some y"
            | (none) "slow_pending p = []" "f (p\<lparr>wq := q\<rparr>) = Some y"
            | (some) v vs where "slow_running p < slow_work_thread_threshold p" "slow_pending p = v # vs"
              "y = (Run v True (vs \<noteq> []), p\<lparr>wq := (if vs \<noteq> [] then q @ [Slow_message] else q), slow_running := slow_running p + 1,
                 slow_pending := vs, linked := (linked p)(v := False)\<rparr>)"
            using y False q Slow_message by (cases "slow_pending p") (auto simp: Let_def split: if_splits)
          then show ?thesis
          proof cases
            case full
            have "queue_ok (p\<lparr>wq := q @ [Slow_message]\<rparr>)" using ok q Slow_message by (auto simp: queue_ok_def)
            then show ?thesis using ih [OF full(2)] job_spec_rotate [OF _ w(2)] by blast
          next
            case none
            have "queue_ok (p\<lparr>wq := q\<rparr>)" using ok q none(1) Slow_message by (auto simp: queue_ok_def)
            then show ?thesis using ih [OF none(2)] job_spec_rotate [OF _ w(1)] by blast
          next
            case some
            have "length (filter (\<lambda>j. j = Slow_message) q) = 0" using no by (simp add: filter_empty_conv) metis
            then show ?thesis using some w by (auto simp: job_spec_def queue_ok_def)
          qed
        qed
      qed
    qed
  qed
  then show "next_job p = Some (a, p') \<Longrightarrow> queue_ok p \<Longrightarrow> job_spec a p p'" by blast
qed

text \<open>It decides in every state that the threads can reach.\<close>

lemma next_job_decides:
  assumes "queue_ok p"
  shows "next_job p \<noteq> None"
proof (cases "wq p = [] \<or> wq p = [Slow_message] \<and> slow_running p \<ge> slow_work_thread_threshold p")
  case True
  then show ?thesis by (subst next_job.simps) simp
next
  case False
  then obtain j q where q: "wq p = j # q" by (cases "wq p") auto
  have head: "next_job p \<noteq> None" if "wq p = j # q" "j \<noteq> Slow_message" for p :: pool and j q
    using that by (subst next_job.simps) (cases j; simp)
  show ?thesis
  proof (cases "j = Slow_message")
    case jn: False
    then show ?thesis using head q by blast
  next
    case True
    have no: "Slow_message \<notin> set q" using queue_ok_tl [OF assms] q True by simp
    show ?thesis
    proof (cases "slow_running p \<ge> slow_work_thread_threshold p")
      case full: True
      then have "q \<noteq> []" using False q True by auto
      then obtain j' q' where j': "q = j' # q'" "j' \<noteq> Slow_message" using no by (cases q) auto
      have "next_job p = next_job (p\<lparr>wq := q @ [Slow_message]\<rparr>)" using full q True False by (subst next_job.simps) simp
      then show ?thesis using head [of "p\<lparr>wq := q @ [Slow_message]\<rparr>" j' "q' @ [Slow_message]"] j' by simp
    next
      case room: False
      show ?thesis
      proof (cases "slow_pending p = []")
        case none: True
        have eq: "next_job p = next_job (p\<lparr>wq := q\<rparr>)" using room none q True by (subst next_job.simps) simp
        show ?thesis
        proof (cases q)
          case Nil
          then show ?thesis unfolding eq by (subst next_job.simps) simp
        next
          case (Cons j' q')
          then show ?thesis unfolding eq using head [of "p\<lparr>wq := q\<rparr>" j' q'] no by auto
        qed
      next
        case some: False
        then show ?thesis using room q True by (subst next_job.simps) (simp add: Let_def)
      qed
    qed
  qed
qed

section \<open>The invariant\<close>

definition states_ok :: "pool \<Rightarrow> bool" where
  "states_ok p \<longleftrightarrow>
     (\<forall>w\<in>set (works (wq p) @ slow_pending p). linked p w \<and> work_fun p w = To_run \<and> w \<notin> set (started p)) \<and>
     (\<forall>w\<in>set (running (threads p)). \<not> linked p w \<and> work_fun p w = To_run \<and> w \<in> set (started p)) \<and>
     (\<forall>w\<in>set (loop_wq p @ done_run p). linked p w \<and> work_fun p w \<noteq> To_run \<and> (work_fun p w = Cancelled \<longleftrightarrow> w \<notin> set (started p))) \<and>
     (\<forall>w\<in>set_option (cancelling p). linked p w \<and> work_fun p w \<noteq> Done \<and> w \<notin> set (started p)) \<and>
     (\<forall>(w, c)\<in>set (delivered p). c \<longleftrightarrow> w \<notin> set (started p))"

definition placed :: "pool \<Rightarrow> bool" where
  "placed p \<longleftrightarrow> distinct (submitted p) \<and> mset (places p) = mset (submitted p) \<and> distinct (started p) \<and>
     set (started p) \<subseteq> set (submitted p) \<and> active p + length (delivered p) = length (submitted p)"

definition counts_ok :: "nat \<Rightarrow> pool \<Rightarrow> bool" where
  "counts_ok n p \<longleftrightarrow> length (threads p) = n \<and> 0 < n \<and> queue_ok p \<and> slow_running p = number is_slow (threads p) \<and>
     slow_running p \<le> slow_work_thread_threshold p \<and> idle_threads p = number is_idle (threads p)"

definition safe :: "nat \<Rightarrow> pool \<Rightarrow> bool" where
  "safe n p \<longleftrightarrow> states_ok p \<and> placed p \<and> counts_ok n p"

text \<open>Nobody sleeps while everybody who is left sleeps and there is something to do.\<close>

definition attended :: "pool \<Rightarrow> bool" where
  "attended p \<longleftrightarrow> (Waiting \<in> set (threads p) \<and> set (threads p) \<subseteq> {Waiting, Exited} \<longrightarrow> wq p = [])"

lemma init_safe: "0 < n \<Longrightarrow> safe n (init_threads n) \<and> attended (init_threads n)"
proof -
  assume n: "0 < n"
  have "running (replicate n Top) = []" for n by (induction n) simp_all
  moreover have "number P (replicate n Top) = 0" if "\<not> P Top" for P n using that by (induction n) (simp_all add: number_def)
  ultimately show ?thesis using n
    by (simp add: safe_def states_ok_def placed_def counts_ok_def attended_def init_threads_def places_def queue_ok_def is_slow_def is_idle_def)
qed

lemma placed_distinct: "placed p \<Longrightarrow> distinct (places p) \<and> set (places p) = set (submitted p)"
  by (metis placed_def mset_eq_imp_distinct_iff mset_eq_setD)

text \<open>A thread that changes its place and runs nothing before and after.\<close>

lemma set_thread_safe:
  assumes s: "safe n p" and t: "t < length (threads p)" and x: "running [threads p ! t] = []" "running [y] = []"
    and slow: "is_slow y = is_slow (threads p ! t)" and idle: "is_idle y = is_idle (threads p ! t)"
  shows "safe n (set_thread t y p)"
proof -
  have r: "mset (running ((threads p)[t := y])) = mset (running (threads p))"
    using running_update [OF t, of y] x by simp
  have "number is_slow ((threads p)[t := y]) = number is_slow (threads p)"
    "number is_idle ((threads p)[t := y]) = number is_idle (threads p)"
    using number_update [OF t, of is_slow y] number_update [OF t, of is_idle y] slow idle by simp_all
  then have "counts_ok n (set_thread t y p)"
    using s by (auto simp: safe_def counts_ok_def set_thread_def queue_ok_def slow_work_thread_threshold_def)
  moreover have "placed (set_thread t y p)"
    using s r by (simp add: safe_def placed_def set_thread_def places_def)
  moreover have "states_ok (set_thread t y p)"
    using s mset_eq_setD [OF r] by (simp add: safe_def states_ok_def set_thread_def)
  ultimately show ?thesis by (simp add: safe_def)
qed

lemma signal_safe: "signal p p' \<Longrightarrow> safe n p \<Longrightarrow> safe n p'"
  by (induction rule: signal.induct) (auto intro!: set_thread_safe simp: is_slow_def is_idle_def)

lemma signal_idle_safe: "signal_idle p p' \<Longrightarrow> safe n p \<Longrightarrow> safe n p'"
  using signal_safe by (auto simp: signal_idle_def split: if_splits)

lemma signal_attended: "signal p p' \<Longrightarrow> attended p'"
  by (induction rule: signal.induct) (auto simp: attended_def set_thread_def dest!: set_update_memI [where x = Woken])

lemma signal_idle_attended:
  assumes "signal_idle p p'" "safe n p"
  shows "attended p'"
proof (cases "idle_threads p > 0")
  case True
  then show ?thesis using assms(1) signal_attended by (simp add: signal_idle_def)
next
  case False
  then have "Waiting \<notin> set (threads p)"
    using assms(2) number_pos [of Waiting "threads p" is_idle] by (auto simp: safe_def counts_ok_def is_idle_def)
  then show ?thesis using assms(1) False by (simp add: signal_idle_def attended_def)
qed

text \<open>A thread that does something: nobody else has to.\<close>

lemma busy_attended:
  "t < length (threads p) \<Longrightarrow> threads p ! t \<notin> {Waiting, Exited} \<Longrightarrow> attended p"
  unfolding attended_def using nth_mem [of t "threads p"] by blast

lemma attended_mono: "attended p \<Longrightarrow> threads p' = threads p \<Longrightarrow> wq p = [] \<longrightarrow> wq p' = [] \<Longrightarrow> attended p'"
  by (simp add: attended_def)
section \<open>Every step keeps it\<close>

lemma enter_safe:
  assumes s: "safe n p" and t: "t < length (threads p)" and x: "about_to_lock (threads p ! t)"
  shows "safe n (set_thread t Top (enter (threads p ! t) p))"
proof -
  have run: "running [threads p ! t] = []" using x by (cases "threads p ! t") (simp_all add: about_to_lock_def)
  have r: "mset (running ((threads p)[t := Top])) = mset (running (threads p))"
    using running_update [OF t, of Top] run by simp
  have e: "enter (threads p ! t) p = p\<lparr>idle_threads := idle_threads p - (if is_idle (threads p ! t) then 1 else 0),
      slow_running := slow_running p - (if is_slow (threads p ! t) then 1 else 0)\<rparr>"
    using x by (cases "threads p ! t") (auto simp: enter_def about_to_lock_def is_idle_def is_slow_def split: bool.splits)
  have "number is_slow ((threads p)[t := Top]) = number is_slow (threads p) - (if is_slow (threads p ! t) then 1 else 0)"
    "number is_idle ((threads p)[t := Top]) = number is_idle (threads p) - (if is_idle (threads p ! t) then 1 else 0)"
    using number_update [OF t, of is_slow Top] number_update [OF t, of is_idle Top] by (simp_all add: is_slow_def is_idle_def)
  then have "counts_ok n (set_thread t Top (enter (threads p ! t) p))"
    using s by (auto simp: e safe_def counts_ok_def set_thread_def queue_ok_def slow_work_thread_threshold_def)
  moreover have "placed (set_thread t Top (enter (threads p ! t) p))"
    using s r by (simp add: e safe_def placed_def set_thread_def places_def)
  moreover have "states_ok (set_thread t Top (enter (threads p ! t) p))"
    using s mset_eq_setD [OF r] by (simp add: e safe_def states_ok_def set_thread_def)
  ultimately show ?thesis by (simp add: safe_def)
qed

lemma set_thread_twice [simp]: "set_thread t y (set_thread t x p) = set_thread t y p"
  by (simp add: set_thread_def)

lemma waiting_apart:
  assumes "placed p" "w \<in> set (works (wq p)) \<union> set (slow_pending p)"
  shows "w \<in> set (submitted p)"
    "w \<notin> set (running (threads p)) \<union> set (loop_wq p) \<union> set (done_run p) \<union> set_option (cancelling p) \<union> fst ` set (delivered p)"
    "distinct (works (wq p) @ slow_pending p)"
proof -
  have c: "set (case cancelling p of None \<Rightarrow> [] | Some w \<Rightarrow> [w]) = set_option (cancelling p)" by (cases "cancelling p") simp_all
  define rest where "rest = set (running (threads p)) \<union> set (loop_wq p) \<union> set (done_run p) \<union> set_option (cancelling p) \<union> fst ` set (delivered p)"
  have "distinct ((works (wq p) @ slow_pending p) @ running (threads p) @ loop_wq p @ done_run p @
      (case cancelling p of None \<Rightarrow> [] | Some w \<Rightarrow> [w]) @ map fst (delivered p))"
    using placed_distinct [OF assms(1)] by (simp only: places_def append_assoc)
  then have "set (works (wq p) @ slow_pending p) \<inter> rest = {}"
    unfolding distinct_append [of "works (wq p) @ slow_pending p"] rest_def by (simp only: set_append set_map c Un_assoc)
  then show "w \<notin> set (running (threads p)) \<union> set (loop_wq p) \<union> set (done_run p) \<union> set_option (cancelling p) \<union> fst ` set (delivered p)"
    using assms(2) unfolding rest_def by auto
  show "distinct (works (wq p) @ slow_pending p)" using placed_distinct [OF assms(1)] unfolding places_def append_assoc [symmetric]
    by (simp only: distinct_append)
  show "w \<in> set (submitted p)" using placed_distinct [OF assms(1)] assms(2) by (auto simp: places_def)
qed

text \<open>From there the thread takes work, goes to sleep or leaves.\<close>

lemma run_safe:
  assumes s: "safe n (set_thread t Top q)" and t: "t < length (threads q)" and j: "job_spec (Run w slow m) q q1"
  shows "safe n (set_thread t (Running w slow) (q1\<lparr>started := started q1 @ [w]\<rparr>))"
proof -
  define ts where "ts = (threads q)[t := Top]"
  have ts: "t < length ts" "ts ! t = Top" "(threads q)[t := Running w slow] = ts[t := Running w slow]"
    using t by (simp_all add: ts_def)
  have q1: "q1 = q\<lparr>wq := wq q1, slow_pending := slow_pending q1, slow_running := slow_running q1, linked := (linked q)(w := False)\<rparr>"
    and ok: "queue_ok q1" and slow1: "slow_running q1 = slow_running q + (if slow then 1 else 0)"
    and thr: "slow_running q1 \<le> slow_work_thread_threshold q"
    and w: "mset (works (wq q) @ slow_pending q) = mset (w # works (wq q1) @ slow_pending q1)"
    using j s by (auto simp: job_spec_def safe_def counts_ok_def set_thread_def slow_work_thread_threshold_def split: if_splits)
  have same: "threads q1 = threads q" "loop_wq q1 = loop_wq q" "done_run q1 = done_run q" "cancelling q1 = cancelling q"
    "work_fun q1 = work_fun q" "linked q1 = (linked q)(w := False)" "active q1 = active q" "submitted q1 = submitted q"
    "started q1 = started q" "delivered q1 = delivered q" "idle_threads q1 = idle_threads q"
    by (subst q1, simp)+
  have r: "mset (running (ts[t := Running w slow])) = add_mset w (mset (running ts))"
    using running_update [OF ts(1), of "Running w slow"] ts(2) by simp
  have ws: "set (works (wq q)) \<union> set (slow_pending q) = insert w (set (works (wq q1)) \<union> set (slow_pending q1))"
    using mset_eq_setD [OF w] by simp
  have rs: "set (running (ts[t := Running w slow])) = insert w (set (running ts))"
    using mset_eq_setD [of "running (ts[t := Running w slow])" "w # running ts"] r by simp
  have pl: "placed (set_thread t Top q)" and st: "states_ok (set_thread t Top q)" and co: "counts_ok n (set_thread t Top q)"
    using s by (simp_all add: safe_def)
  have fresh: "w \<notin> set (started q)" "work_fun q w = To_run"
    using st ws by (auto simp: states_ok_def set_thread_def)
  have "w \<in> set (works (wq q)) \<union> set (slow_pending q)" using ws by simp
  then have in_q: "w \<in> set (works (wq (set_thread t Top q))) \<union> set (slow_pending (set_thread t Top q))" by (simp add: set_thread_def)
  have apart: "w \<notin> set (running ts)" "w \<notin> set (loop_wq q)" "w \<notin> set (done_run q)" "w \<notin> set_option (cancelling q)"
    "w \<notin> fst ` set (delivered q)" "w \<in> set (submitted q)"
    using waiting_apart [OF pl in_q] by (simp_all add: set_thread_def ts_def)
  have "distinct (works (wq q) @ slow_pending q)" using waiting_apart(3) [OF pl in_q] by (simp add: set_thread_def)
  then have "distinct (w # works (wq q1) @ slow_pending q1)" using w by (metis mset_eq_imp_distinct_iff)
  then have gone: "w \<notin> set (works (wq q1))" "w \<notin> set (slow_pending q1)" by simp_all
  have ns: "number is_slow (ts[t := Running w slow]) = number is_slow ts + (if slow then 1 else 0)"
    "number is_idle (ts[t := Running w slow]) = number is_idle ts"
    using number_update [OF ts(1), of is_slow "Running w slow"] number_update [OF ts(1), of is_idle "Running w slow"] ts(2)
    by (simp_all add: is_slow_def is_idle_def)
  have cq: "length (threads q) = n" "length ts = n" "0 < n" "slow_running q = number is_slow ts" "idle_threads q = number is_idle ts"
    using co by (simp_all add: counts_ok_def set_thread_def ts_def)
  have "counts_ok n (set_thread t (Running w slow) (q1\<lparr>started := started q1 @ [w]\<rparr>))"
    using ok thr slow1 cq ts(3) ns by (auto simp add: counts_ok_def set_thread_def same queue_ok_def slow_work_thread_threshold_def)
  moreover have "placed (set_thread t (Running w slow) (q1\<lparr>started := started q1 @ [w]\<rparr>))"
  proof -
    have "mset (places (set_thread t (Running w slow) (q1\<lparr>started := started q1 @ [w]\<rparr>))) = mset (places (set_thread t Top q))"
      using w r by (simp add: places_def set_thread_def same ts(3) ts_def [symmetric])
    then show ?thesis using pl fresh apart by (auto simp: placed_def set_thread_def same)
  qed
  moreover have "states_ok (set_thread t (Running w slow) (q1\<lparr>started := started q1 @ [w]\<rparr>))"
  proof -
    have del: "c \<longleftrightarrow> v \<notin> set (started q)" if "(v, c) \<in> set (delivered q)" for v c
      using that st by (auto simp: states_ok_def set_thread_def)
    have del': "v \<noteq> w" if "(v, c) \<in> set (delivered q)" for v c
      using that apart(5) by (metis fst_conv image_eqI)
    have "\<forall>v\<in>set (works (wq q1)) \<union> set (slow_pending q1). v \<noteq> w \<and> linked q v \<and> work_fun q v = To_run \<and> v \<notin> set (started q)"
      using st ws gone by (auto simp: states_ok_def set_thread_def)
    moreover have "\<forall>v\<in>set (running ts). \<not> linked q v \<and> work_fun q v = To_run \<and> v \<in> set (started q)"
      using st by (simp add: states_ok_def set_thread_def ts_def)
    moreover have "\<forall>v\<in>set (loop_wq q) \<union> set (done_run q). v \<noteq> w \<and> linked q v \<and> work_fun q v \<noteq> To_run \<and> (work_fun q v = Cancelled \<longleftrightarrow> v \<notin> set (started q))"
      using st apart by (auto simp: states_ok_def set_thread_def)
    moreover have "\<forall>v\<in>set_option (cancelling q). v \<noteq> w \<and> linked q v \<and> work_fun q v \<noteq> Done \<and> v \<notin> set (started q)"
      using st apart by (auto simp: states_ok_def set_thread_def)
    moreover have "(c \<longleftrightarrow> v \<notin> set (started q @ [w]))" if "(v, c) \<in> set (delivered q)" for v c
      using del [OF that] del' [OF that] by simp
    then have "\<forall>(v, c)\<in>set (delivered q). c \<longleftrightarrow> v \<notin> set (started q @ [w])" by blast
    moreover have "set (running ((threads q)[t := Running w slow])) = insert w (set (running ts))" using rs ts(3) by simp
    ultimately show ?thesis
      using fresh(2) unfolding states_ok_def set_thread_def
      by (simp add: same)
  qed
  ultimately show ?thesis by (simp add: safe_def)
qed

lemma job_spec_stays:
  assumes "job_spec a q q1" "\<forall>w s m. a \<noteq> Run w s m"
  shows "q1 = q\<lparr>wq := wq q1\<rparr>" "works (wq q1) = works (wq q)" "queue_ok q1"
proof -
  have j: "q1 = q\<lparr>wq := wq q1, slow_pending := slow_pending q1, slow_running := slow_running q1, linked := linked q1\<rparr>"
    "slow_pending q1 = slow_pending q" "slow_running q1 = slow_running q" "linked q1 = linked q"
    and rest: "works (wq q1) = works (wq q)" "queue_ok q1"
    using assms by (auto simp: job_spec_def split: action.splits)
  show "q1 = q\<lparr>wq := wq q1\<rparr>" using j(1) unfolding j(2-4) by simp
  show "works (wq q1) = works (wq q)" "queue_ok q1" using rest by simp_all
qed

lemma requeue_safe:
  assumes "safe n p" "works q = works (wq p)" "queue_ok (p\<lparr>wq := q\<rparr>)"
  shows "safe n (p\<lparr>wq := q\<rparr>)"
  using assms by (auto simp: safe_def states_ok_def placed_def counts_ok_def places_def slow_work_thread_threshold_def)

lemma idle_safe:
  assumes s: "safe n p" and t: "t < length (threads p)" "threads p ! t = Top"
  shows "safe n (set_thread t Waiting (p\<lparr>idle_threads := idle_threads p + 1\<rparr>))" "safe n (set_thread t Exited p)"
proof -
  have r: "mset (running ((threads p)[t := x])) = mset (running (threads p))" if "running [x] = []" for x
    using running_update [OF t(1), of x] t(2) that by simp
  have num: "number P ((threads p)[t := x]) = number P (threads p) + (if P x then 1 else 0)" if "\<not> P Top" for P x
    using number_update [OF t(1), of P x] t(2) that by simp
  have same: "states_ok (set_thread t x p')" "placed (set_thread t x p')"
    if "running [x] = []" "p' = p\<lparr>idle_threads := k\<rparr>" for x p' k
    using s r [OF that(1)] mset_eq_setD [OF r [OF that(1)]] that(2)
    by (simp_all add: safe_def states_ok_def placed_def places_def set_thread_def)
  have "counts_ok n (set_thread t Waiting (p\<lparr>idle_threads := idle_threads p + 1\<rparr>))" "counts_ok n (set_thread t Exited p)"
    using s by (auto simp: safe_def counts_ok_def set_thread_def num is_slow_def is_idle_def queue_ok_def slow_work_thread_threshold_def)
  then show "safe n (set_thread t Waiting (p\<lparr>idle_threads := idle_threads p + 1\<rparr>))" "safe n (set_thread t Exited p)"
    using same [of Waiting] same [of Exited p "idle_threads p"] by (simp_all add: safe_def)
qed

lemma finish_safe:
  assumes s: "safe n p" and t: "t < length (threads p)" "threads p ! t = Running w slow"
  shows "safe n (set_thread t (Finishing slow) (finish_work w p))"
proof -
  have r: "add_mset w (mset (running ((threads p)[t := Finishing slow]))) = mset (running (threads p))"
    using running_update [OF t(1), of "Finishing slow"] t(2) by simp
  have st: "states_ok p" and pl: "placed p" and co: "counts_ok n p" using s by (simp_all add: safe_def)
  have "distinct (running (threads p))" using placed_distinct [OF pl] by (simp add: places_def)
  moreover have "mset (running (threads p)) = mset (w # running ((threads p)[t := Finishing slow]))" using r by simp
  ultimately have "distinct (w # running ((threads p)[t := Finishing slow]))" by (metis mset_eq_imp_distinct_iff)
  then have gone: "w \<notin> set (running ((threads p)[t := Finishing slow]))"
    and rs: "set (running (threads p)) = insert w (set (running ((threads p)[t := Finishing slow])))"
    using mset_eq_setD [of "running (threads p)" "w # running ((threads p)[t := Finishing slow])"] r by simp_all
  have nw: "w \<notin> set (works (wq p)) \<union> set (slow_pending p)"
    using waiting_apart(2) [OF pl, of w] rs by auto
  have "distinct ((works (wq p) @ slow_pending p) @ (running (threads p) @ loop_wq p @ done_run p @
      (case cancelling p of None \<Rightarrow> [] | Some w \<Rightarrow> [w])) @ map fst (delivered p))"
    using placed_distinct [OF pl] by (simp only: places_def append_assoc)
  then have "distinct (running (threads p) @ loop_wq p @ done_run p @ (case cancelling p of None \<Rightarrow> [] | Some w \<Rightarrow> [w]))"
    by (metis distinct_append)
  then have "w \<notin> set (loop_wq p) \<union> set (done_run p) \<union> set_option (cancelling p)"
    using rs by (cases "cancelling p") auto
  then have "states_ok (set_thread t (Finishing slow) (finish_work w p))"
    using st gone nw rs unfolding states_ok_def by (auto simp: set_thread_def finish_work_def)
  moreover have "mset (places (set_thread t (Finishing slow) (finish_work w p))) = mset (places p)"
    using r by (simp add: places_def set_thread_def finish_work_def)
  then have "placed (set_thread t (Finishing slow) (finish_work w p))"
    using pl by (simp add: placed_def set_thread_def finish_work_def)
  moreover have "counts_ok n (set_thread t (Finishing slow) (finish_work w p))"
    using co number_update [OF t(1), of is_slow "Finishing slow"] number_update [OF t(1), of is_idle "Finishing slow"] t(2)
    by (auto simp: counts_ok_def set_thread_def finish_work_def queue_ok_def slow_work_thread_threshold_def is_slow_def is_idle_def split: if_splits)
  ultimately show ?thesis by (simp add: safe_def)
qed

text \<open>Posting: the request is recorded, and it waits where its kind says.\<close>

lemma post_work:
  assumes "post (Work w) kind p = (sig, p')"
  shows "p' = p\<lparr>wq := wq p', slow_pending := slow_pending p'\<rparr>"
    "mset (works (wq p') @ slow_pending p') = add_mset w (mset (works (wq p) @ slow_pending p))"
    "queue_ok p \<Longrightarrow> queue_ok p'" "\<not> sig \<Longrightarrow> wq p' = wq p \<and> wq p \<noteq> []"
  using assms
  by (auto simp: post_def queue_ok_def Let_def filter_empty_conv split: work_kind.splits if_splits)

lemma post_exit:
  assumes "post Exit_message Cpu p = (sig, p')"
  shows "p' = p\<lparr>wq := wq p @ [Exit_message]\<rparr>"
  using assms by (simp add: post_def)

lemma submit_safe:
  assumes s: "safe n p" and w: "w \<notin> set (submitted p)" and u: "uv__work_submit w kind (register_work p) = (sig, p')"
  shows "safe n p'"
proof -
  define p0 where "p0 = p\<lparr>active := active p + 1, work_fun := (work_fun p)(w := To_run), linked := (linked p)(w := True),
      submitted := submitted p @ [w]\<rparr>"
  have p': "post (Work w) kind p0 = (sig, p')"
    using u by (simp add: uv__work_submit_def register_work_def p0_def)
  note P = post_work [OF p']
  have st: "states_ok p" and pl: "placed p" and co: "counts_ok n p" using s by (simp_all add: safe_def)
  have new: "w \<notin> set (places p)" using w placed_distinct [OF pl] by simp
  have same: "threads p' = threads p" "loop_wq p' = loop_wq p" "done_run p' = done_run p" "cancelling p' = cancelling p"
    "work_fun p' = (work_fun p)(w := To_run)" "linked p' = (linked p)(w := True)" "active p' = active p + 1"
    "submitted p' = submitted p @ [w]" "started p' = started p" "delivered p' = delivered p"
    "idle_threads p' = idle_threads p" "slow_running p' = slow_running p"
    by (subst P(1), simp add: p0_def)+
  have m: "mset (works (wq p') @ slow_pending p') = add_mset w (mset (works (wq p) @ slow_pending p))"
    using P(2) by (simp add: p0_def)
  have ws: "set (works (wq p')) \<union> set (slow_pending p') = insert w (set (works (wq p)) \<union> set (slow_pending p))"
    using mset_eq_setD [of "works (wq p') @ slow_pending p'" "w # works (wq p) @ slow_pending p"] m by simp
  have ns: "w \<notin> set (started p)" using pl w by (auto simp: placed_def)
  have away: "w \<notin> set (running (threads p))" "w \<notin> set (loop_wq p)" "w \<notin> set (done_run p)" "w \<notin> set_option (cancelling p)"
    using new by (auto simp: places_def split: option.splits)
  have "counts_ok n p'" using co P(3) by (auto simp add: counts_ok_def same slow_work_thread_threshold_def queue_ok_def p0_def)
  moreover have "mset (places p') = add_mset w (mset (places p))"
    using m by (simp add: places_def same)
  then have "placed p'" using pl w by (auto simp: placed_def same)
  moreover have "states_ok p'"
  proof -
    have "\<forall>v\<in>set (works (wq p')) \<union> set (slow_pending p'). linked p' v \<and> work_fun p' v = To_run \<and> v \<notin> set (started p)"
      unfolding ws using st ns by (auto simp: states_ok_def same)
    then show ?thesis using st away by (auto simp: states_ok_def same)
  qed
  ultimately show ?thesis by (simp add: safe_def)
qed

lemma remove1_both: "distinct (xs @ ys) \<Longrightarrow> remove1 w xs @ remove1 w ys = remove1 w (xs @ ys)"
  by (auto simp: remove1_append intro!: remove1_idem [symmetric] remove1_idem)

lemma cancel_safe:
  assumes s: "safe n p" and w: "w \<in> set (submitted p)" "w \<notin> fst ` set (delivered p)" "cancelling p = None" "cancellable w p"
  shows "safe n (unlink w p)"
proof -
  have st: "states_ok p" and pl: "placed p" and co: "counts_ok n p" using s by (simp_all add: safe_def)
  have d: "distinct (places p)" "set (places p) = set (submitted p)" using placed_distinct [OF pl] by simp_all
  have nr: "w \<notin> set (running (threads p))" using st w(4) by (auto simp: states_ok_def cancellable_def)
  define ws where "ws = works (wq p) @ slow_pending p @ loop_wq p @ done_run p"
  have m: "mset (places p) = mset ws + mset (running (threads p)) + mset (map fst (delivered p))"
    using w(3) by (simp add: places_def ws_def)
  have "set (places p) = set ws \<union> set (running (threads p)) \<union> fst ` set (delivered p)"
    using w(3) by (auto simp: places_def ws_def)
  then have in_ws: "w \<in> set ws" using d(2) w(1,2) nr by blast
  have ns: "w \<notin> set (started p)"
  proof (cases "w \<in> set (works (wq p) @ slow_pending p)")
    case True
    then show ?thesis using st unfolding states_ok_def by blast
  next
    case False
    then have "w \<in> set (loop_wq p @ done_run p)" using in_ws by (simp add: ws_def)
    then have "work_fun p w \<noteq> To_run" "work_fun p w = Cancelled \<longleftrightarrow> w \<notin> set (started p)"
      using st unfolding states_ok_def by blast+
    then show ?thesis using w(4) by (cases "work_fun p w") (simp_all add: cancellable_def)
  qed
  have "distinct ws"
  proof -
    have "mset (places p) = mset (ws @ running (threads p) @ map fst (delivered p))" using m by simp
    then have "distinct (ws @ running (threads p) @ map fst (delivered p))" using d(1) by (metis mset_eq_imp_distinct_iff)
    then show ?thesis by (metis distinct_append)
  qed
  then have "remove1 w (works (wq p)) @ remove1 w (slow_pending p) @ remove1 w (loop_wq p) @ remove1 w (done_run p) = remove1 w ws"
    unfolding ws_def by (metis remove1_both distinct_append)
  then have "mset (remove1 w (works (wq p)) @ remove1 w (slow_pending p) @ remove1 w (loop_wq p) @ remove1 w (done_run p)) =
      mset ws - {#w#}" by (simp only: mset_remove1)
  then have "mset (places (unlink w p)) = mset ws - {#w#} + mset (running (threads p)) + {#w#} + mset (map fst (delivered p))"
    by (simp add: places_def unlink_def works_remove1 del: mset_remove1)
  also have "\<dots> = mset (places p)" using in_ws m by simp
  finally have "mset (places (unlink w p)) = mset (places p)" .
  then have "placed (unlink w p)" using pl by (simp add: placed_def unlink_def)
  moreover have "states_ok (unlink w p)"
    using st ns w(4) by (auto simp: states_ok_def unlink_def cancellable_def works_remove1 dest: subsetD [OF set_remove1_subset])
  moreover have "queue_ok (unlink w p)" using co
    by (auto simp: counts_ok_def queue_ok_def unlink_def filter_remove1 remove1_idem)
  then have "counts_ok n (unlink w p)" using co by (auto simp add: counts_ok_def unlink_def slow_work_thread_threshold_def queue_ok_def)
  ultimately show ?thesis by (simp add: safe_def)
qed

lemma cancelled_safe:
  assumes s: "safe n p" and w: "cancelling p = Some w"
  shows "safe n (complete_cancel w p)"
proof -
  have st: "states_ok p" and pl: "placed p" and co: "counts_ok n p" using s by (simp_all add: safe_def)
  have "mset (places (complete_cancel w p)) = mset (places p)"
    using w by (simp add: places_def complete_cancel_def)
  then have "placed (complete_cancel w p)" using pl by (simp add: placed_def complete_cancel_def)
  moreover have "counts_ok n (complete_cancel w p)"
    using co by (auto simp: counts_ok_def complete_cancel_def slow_work_thread_threshold_def queue_ok_def)
  moreover have "w \<notin> set (works (wq p)) \<union> set (slow_pending p)" using waiting_apart(2) [OF pl, of w] w by auto
  then have "states_ok (complete_cancel w p)"
    using st w by (auto simp: states_ok_def complete_cancel_def)
  ultimately show ?thesis by (simp add: safe_def)
qed

lemma collect_safe: "safe n p \<Longrightarrow> done_run p = [] \<Longrightarrow> safe n (collect_done p)"
  by (auto simp: safe_def states_ok_def placed_def counts_ok_def places_def collect_done_def queue_ok_def slow_work_thread_threshold_def)

lemma deliver_safe:
  assumes s: "safe n p" and w: "done_run p = w # ws"
  shows "safe n (deliver_done w ws p)"
proof -
  have st: "states_ok p" and pl: "placed p" and co: "counts_ok n p" using s by (simp_all add: safe_def)
  have m: "mset (places (deliver_done w ws p)) = mset (places p)"
    using w by (simp add: places_def deliver_done_def)
  have "length (places p) = length (submitted p)" using pl by (auto simp: placed_def dest: mset_eq_length)
  then have "length (delivered p) < length (submitted p)" using w by (simp add: places_def)
  then have "placed (deliver_done w ws p)" using pl m by (auto simp: placed_def deliver_done_def)
  moreover have "counts_ok n (deliver_done w ws p)"
    using co by (auto simp: counts_ok_def deliver_done_def slow_work_thread_threshold_def queue_ok_def)
  moreover have "states_ok (deliver_done w ws p)"
    using st w by (auto simp: states_ok_def deliver_done_def)
  ultimately show ?thesis by (simp add: safe_def)
qed

lemma enter_wq [simp]: "wq (enter x p) = wq p"
  by (simp add: enter_def split: thread.splits bool.splits)

lemma enter_threads [simp]: "threads (enter x p) = threads p"
  by (simp add: enter_def split: thread.splits bool.splits)

lemma next_job_entered:
  assumes s: "safe n p" and t: "t < length (threads p)" and x: "about_to_lock (threads p ! t)"
    and j: "next_job (enter (threads p ! t) p) = Some (a, p1)"
  shows "job_spec a (enter (threads p ! t) p) p1"
proof -
  have "queue_ok (enter (threads p ! t) p)"
    using enter_safe [OF s t x] by (simp add: safe_def counts_ok_def set_thread_def queue_ok_def)
  then show ?thesis using next_job_spec [OF j] by blast
qed

text \<open>A thread at the top that does not run anything.\<close>

lemma stay_safe:
  assumes s: "safe n p" and t: "t < length (threads p)" and x: "about_to_lock (threads p ! t)"
    and j: "next_job (enter (threads p ! t) p) = Some (a, p1)" "\<forall>w s m. a \<noteq> Run w s m"
  shows "safe n (set_thread t Waiting (p1\<lparr>idle_threads := idle_threads p1 + 1\<rparr>))" "safe n (set_thread t Exited p1)"
proof -
  define q where "q = enter (threads p ! t) p"
  have q: "safe n (set_thread t Top q)" "length (threads q) = length (threads p)"
    using enter_safe [OF s t x] by (simp_all add: q_def)
  have spec: "job_spec a q p1" using next_job_entered [OF s t x j(1)] by (simp add: q_def)
  note p1 = job_spec_stays [OF spec j(2)]
  have "safe n ((set_thread t Top q)\<lparr>wq := wq p1\<rparr>)"
    using q(1) p1(2,3) by (intro requeue_safe) (simp_all add: set_thread_def, subst (asm) (2) p1(1), simp add: queue_ok_def)
  moreover have "(set_thread t Top q)\<lparr>wq := wq p1\<rparr> = set_thread t Top p1"
    by (subst (2) p1(1)) (simp add: set_thread_def)
  ultimately have "safe n (set_thread t Top p1)" by simp
  moreover have "length (threads p1) = length (threads p)" by (subst p1(1)) (simp add: q(2))
  ultimately show "safe n (set_thread t Waiting (p1\<lparr>idle_threads := idle_threads p1 + 1\<rparr>))" "safe n (set_thread t Exited p1)"
    using idle_safe [of n "set_thread t Top p1" t] t by (simp_all add: set_thread_def)
qed

lemma pool_step_safe:
  assumes "pool_step p p'" "safe n p"
  shows "safe n p'"
  using assms
proof (induction rule: pool_step.induct)
  case (submit w p kind sig p1 p')
  then show ?case using submit_safe [OF submit.prems submit.hyps(1,3)] signal_idle_safe by (cases sig) auto
next
  case (take_job t p x w slow more_slow p1 p2 p')
  have "safe n p2"
    using run_safe [of n t "enter x p" w slow more_slow p1] enter_safe [of n p t] next_job_entered [of n p t] take_job by simp
  then show ?case using take_job.hyps(6) signal_idle_safe by (cases more_slow) auto
next
  case (wait_job t p x p1)
  then show ?case using stay_safe(1) [of n p t Wait p1] by simp
next
  case (leave t p x p1 p')
  then show ?case using stay_safe(2) [of n p t Leave p1] signal_safe by simp
next
  case (spurious t p)
  then show ?case by (intro set_thread_safe) (simp_all add: is_slow_def is_idle_def)
next
  case (finish t p w slow)
  then show ?case by (intro finish_safe)
next
  case (cancel w p p')
  then show ?case using cancel_safe [of n p w] by (auto simp: uv__work_cancel_def split: if_splits)
next
  case (cancelled p w)
  then show ?case by (intro cancelled_safe)
next
  case (collect p)
  then show ?case by (intro collect_safe)
next
  case (deliver p w ws)
  then show ?case by (intro deliver_safe)
next
  case (cleanup p sig p1 p')
  have "safe n p1" unfolding post_exit [OF cleanup.hyps(3)]
    using cleanup.prems by (intro requeue_safe) (auto simp: safe_def counts_ok_def queue_ok_def)
  then show ?case using cleanup.hyps(4) signal_idle_safe by blast
qed

section \<open>No lost wakeup\<close>

lemma attended_empty: "attended p \<Longrightarrow> threads p' = threads p \<Longrightarrow> wq p = [] \<Longrightarrow> wq p' = [] \<Longrightarrow> attended p'"
  by (simp add: attended_def)

lemma slow_thread: "0 < number is_slow ts \<Longrightarrow> \<exists>x\<in>set ts. is_slow x"
  by (auto simp: number_def filter_empty_conv)

lemma job_spec_threads: "job_spec a q q1 \<Longrightarrow> threads q1 = threads q"
proof -
  assume "job_spec a q q1"
  then have "q1 = q\<lparr>wq := wq q1, slow_pending := slow_pending q1, slow_running := slow_running q1, linked := linked q1\<rparr>"
    by (simp only: job_spec_def)
  from arg_cong [OF this, of threads] show ?thesis by simp
qed

lemma wait_attended:
  assumes s: "safe n p" and t: "t < length (threads p)" and x: "about_to_lock (threads p ! t)"
    and j: "next_job (enter (threads p ! t) p) = Some (Wait, p1)"
  shows "attended (set_thread t Waiting (p1\<lparr>idle_threads := idle_threads p1 + 1\<rparr>))"
proof -
  define p' where "p' = set_thread t Waiting (p1\<lparr>idle_threads := idle_threads p1 + 1\<rparr>)"
  have "safe n p'" using stay_safe(1) [OF s t x j] by (simp add: p'_def)
  then have n: "length (threads p') = n" "0 < n" "slow_running p' = number is_slow (threads p')" by (simp_all add: safe_def counts_ok_def)
  have "wq p1 = [] \<or> slow_work_thread_threshold (enter (threads p ! t) p) \<le> slow_running p1"
    "threads p1 = threads (enter (threads p ! t) p)"
    using next_job_entered [OF s t x j] job_spec_stays(1) [OF next_job_entered [OF s t x j]]
    by (auto simp: job_spec_def)
  then have "wq p' = [] \<or> slow_work_thread_threshold p' \<le> slow_running p'"
    by (simp add: p'_def set_thread_def slow_work_thread_threshold_def)
  moreover have "0 < slow_work_thread_threshold p'" using n by (simp add: slow_work_thread_threshold_def)
  ultimately have "wq p' = [] \<or> (\<exists>x\<in>set (threads p'). is_slow x)" using n(3) slow_thread [of "threads p'"] by force
  then have "attended p'" by (auto simp: attended_def is_slow_def)
  then show ?thesis by (simp add: p'_def)
qed

lemma pool_step_attended:
  assumes "pool_step p p'" "safe n p" "attended p"
  shows "attended p'"
  using assms
proof (induction rule: pool_step.induct)
  case (submit w p kind sig p1 p')
  have s: "safe n p1" using submit_safe [OF submit.prems(1) submit.hyps(1,3)] .
  show ?case
  proof (cases sig)
    case True
    then show ?thesis using submit.hyps(4) signal_idle_attended s by simp
  next
    case False
    note q = post_work [OF submit.hyps(3) [unfolded uv__work_submit_def register_work_def]]
    have "threads p1 = threads p" by (subst q(1)) simp
    then show ?thesis using submit.prems(2) submit.hyps(4) False q(4) by (simp add: attended_def)
  qed
next
  case (take_job t p x w slow more_slow p1 p2 p')
  have s: "safe n p2"
    using run_safe [of n t "enter x p" w slow more_slow p1] enter_safe [of n p t] next_job_entered [of n p t] take_job by simp
  have "length (threads p1) = length (threads p)"
    using job_spec_threads [OF next_job_entered [of n p t "Run w slow more_slow" p1]] take_job by simp
  then have "attended p2" using take_job.hyps(1,5) by (intro busy_attended [of t]) (simp_all add: set_thread_def)
  then show ?case using take_job.hyps(6) signal_idle_attended [OF _ s] by (cases more_slow) auto
next
  case (wait_job t p x p1)
  then show ?case using wait_attended [of n p t p1] by simp
next
  case (leave t p x p1 p')
  then show ?case using signal_attended by blast
next
  case (spurious t p)
  then show ?case by (intro busy_attended [of t]) (simp_all add: set_thread_def)
next
  case (finish t p w slow)
  then show ?case by (intro busy_attended [of t]) (simp_all add: set_thread_def finish_work_def)
next
  case (cancel w p p')
  then show ?case by (auto simp: uv__work_cancel_def unlink_def attended_def split: if_splits)
next
  case (cleanup p sig p1 p')
  have "safe n p1" unfolding post_exit [OF cleanup.hyps(3)]
    using cleanup.prems by (intro requeue_safe) (auto simp: safe_def counts_ok_def queue_ok_def)
  then show ?case using cleanup.hyps(4) signal_idle_attended by blast
qed (auto simp: attended_def complete_cancel_def collect_done_def deliver_done_def)

lemma pool_reachable_ok: "pool_reachable n p \<Longrightarrow> safe n p \<and> attended p"
  by (induction rule: pool_reachable.induct) (use init_safe pool_step_safe pool_step_attended in blast)+

section \<open>What the pool promises\<close>

text \<open>Two threads: one runs slow work, the other has been woken; the request 9 is queued.\<close>

definition sample_pool :: pool where
  "sample_pool = (init_threads 2)\<lparr>wq := [Work 9], slow_running := 1, idle_threads := 1, threads := [Running 7 True, Woken],
     work_fun := (\<lambda>_. Done)(7 := To_run, 9 := To_run), linked := (\<lambda>_. False)(7 := True, 7 := False, 9 := True), active := 2,
     submitted := [7, 9], started := [7]\<rparr>"

lemma sample_pool_reachable: "pool_reachable 2 sample_pool"
proof -
  define p1 where "p1 = (init_threads 2)\<lparr>threads := [Top, Waiting], idle_threads := 1\<rparr>"
  define p2 where "p2 = p1\<lparr>slow_pending := [7], wq := [Slow_message], threads := [Top, Woken], work_fun := (\<lambda>_. Done)(7 := To_run),
     linked := (\<lambda>_. False)(7 := True), active := 1, submitted := [7]\<rparr>"
  define p3 where "p3 = p2\<lparr>slow_pending := [], wq := [], slow_running := 1, threads := [Running 7 True, Woken],
     linked := (\<lambda>_. False)(7 := True, 7 := False), started := [7]\<rparr>"
  have 0: "pool_reachable 2 (init_threads 2)" by (rule pool_reachable.start) simp
  have "next_job (enter Top (init_threads 2)) = Some (Wait, init_threads 2)"
    by (subst next_job.simps) (simp add: enter_def init_threads_def)
  from pool_step.wait_job [OF _ _ _ this, of 1]
  have "pool_step (init_threads 2) p1"
    by (simp add: p1_def set_thread_def init_threads_def about_to_lock_def numeral_2_eq_2)
  with 0 have 1: "pool_reachable 2 p1" by (rule pool_reachable.step)
  have "signal (p2\<lparr>threads := [Top, Waiting]\<rparr>) p2"
    using signal.wakes [of 1 "p2\<lparr>threads := [Top, Waiting]\<rparr>"] by (simp add: set_thread_def p2_def p1_def init_threads_def)
  then have "pool_step p1 p2"
    by (intro pool_step.submit [of 7 p1 Slow_io True "p2\<lparr>threads := [Top, Waiting]\<rparr>"])
      (simp_all add: p1_def p2_def init_threads_def uv__work_submit_def register_work_def post_def signal_idle_def)
  with 1 have 2: "pool_reachable 2 p2" by (rule pool_reachable.step)
  have "next_job (enter Top p2) = Some (Run 7 True False, p3\<lparr>threads := [Top, Woken], started := []\<rparr>)"
    by (subst next_job.simps) (simp add: enter_def p3_def p2_def p1_def init_threads_def slow_work_thread_threshold_def Let_def)
  from pool_step.take_job [OF _ _ _ this, of 0 p3 p3]
  have "pool_step p2 p3"
    by (simp add: p3_def p2_def p1_def init_threads_def set_thread_def about_to_lock_def)
  with 2 have 3: "pool_reachable 2 p3" by (rule pool_reachable.step)
  have "signal sample_pool sample_pool" by (rule signal.nobody) (simp add: sample_pool_def)
  then have "pool_step p3 sample_pool"
    by (intro pool_step.submit [of 9 p3 Cpu True sample_pool])
      (simp_all add: p3_def p2_def p1_def sample_pool_def init_threads_def uv__work_submit_def register_work_def post_def signal_idle_def)
  with 3 show ?thesis by (rule pool_reachable.step)
qed

text \<open>
  C22: Every request that is submitted to the thread pool is in exactly one place: waiting, running, finished,
  being cancelled or delivered; it is begun at most once, the number that the loop counts is what has not been
  delivered, a request is reported as cancelled exactly if it was never begun, and at most half of the threads
  (rounded up) do slow I/O, whatever the interleaving of the threads, the cancellations and the spurious wakeups.
\<close>

theorem threadpool_accounts:
  assumes "pool_reachable n p"
  shows "distinct (places p) \<and> set (places p) = set (submitted p) \<and> distinct (started p) \<and>
    active p + length (delivered p) = length (submitted p) \<and>
    (\<forall>(w, c)\<in>set (delivered p). c \<longleftrightarrow> w \<notin> set (started p)) \<and>
    number is_slow (threads p) \<le> (n + 1) div 2"
proof -
  have s: "placed p" "states_ok p" "counts_ok n p" using pool_reachable_ok [OF assms] by (simp_all add: safe_def)
  have "number is_slow (threads p) \<le> (n + 1) div 2" using s(3) by (auto simp: counts_ok_def slow_work_thread_threshold_def)
  then show ?thesis using s(1,2) placed_distinct [OF s(1)] by (simp add: placed_def states_ok_def)
qed

theorem threadpool_accounts_witness: "number is_slow (threads sample_pool) \<le> 1 \<and> set (places sample_pool) = {7, 9}"
  using threadpool_accounts [OF sample_pool_reachable] by (simp add: sample_pool_def)

text \<open>
  C23: No work is lost: as long as a request waits in the pool and no thread has left, some thread is running work
  or is about to lock the mutex and finds something to do or decides to sleep; the threads never all sleep while
  there is work.
\<close>

theorem threadpool_no_lost_work:
  assumes "pool_reachable n p" "works (wq p) @ slow_pending p \<noteq> []" "Exited \<notin> set (threads p)"
  shows "\<exists>x\<in>set (threads p). (\<exists>w slow. x = Running w slow) \<or> about_to_lock x \<and> next_job (enter x p) \<noteq> None"
proof -
  have s: "safe n p" "attended p" using pool_reachable_ok [OF assms(1)] by simp_all
  have "wq p \<noteq> []" using s(1) assms(2) by (auto simp: safe_def counts_ok_def queue_ok_def)
  moreover have "threads p \<noteq> []" using s(1) by (auto simp: safe_def counts_ok_def)
  ultimately obtain x where x: "x \<in> set (threads p)" "x \<noteq> Waiting" "x \<noteq> Exited"
    using s(2) assms(3) unfolding attended_def by (metis insert_iff list.set_intros(1) neq_Nil_conv subsetI)
  show ?thesis
  proof (cases "about_to_lock x")
    case True
    have "queue_ok (enter x p)" using s(1)
      by (auto simp: safe_def counts_ok_def queue_ok_def enter_def split: thread.splits bool.splits)
    then show ?thesis using True x(1) next_job_decides by blast
  next
    case False
    then have "\<exists>w slow. x = Running w slow" using x by (cases x) (simp_all add: about_to_lock_def)
    then show ?thesis using x(1) by blast
  qed
qed

theorem threadpool_no_lost_work_witness:
  "\<exists>x\<in>set (threads sample_pool). (\<exists>w slow. x = Running w slow) \<or> about_to_lock x \<and> next_job (enter x sample_pool) \<noteq> None"
  by (rule threadpool_no_lost_work [OF sample_pool_reachable]) (simp_all add: sample_pool_def)

end
