(* ===== verification/Spec2Isabelle.thy ===== *)
theory Spec2Isabelle
  imports Queue Heap Strings Idna Inet Passes Wakeup Reading Udp Threadpool
begin

text \<open>
  A verification development for libuv as this repository carries it, the event loop library in
  \<^verbatim>\<open>src/Sources/Clibuv/src\<close>. The paths below are relative to that directory. What is modelled is
  the implementation for Unix, on Linux, with the portable poll backend \<^verbatim>\<open>unix/posix-poll.c\<close>.

  \<^bold>\<open>The program.\<close> A loop (\<open>uv_loop_t\<close>) carries intrusive queues of its handles and I/O watchers, a
  heap of timers, the array of descriptors that it polls and a list of handles that are closing.
  One turn of \<open>uv_run\<close> runs the timers that are due, the idle and prepare handles, blocks in \<open>poll\<close>
  until the next timer or an event, calls the I/O watchers of the descriptors that are ready, then
  the check handles, and calls the close callbacks. The callbacks are the program's: they start,
  stop and close handles while the loop is in the middle of any of these, which is what makes the
  code hard. Other threads reach the loop through async handles, and the thread pool hands finished
  work to it the same way. Streams queue writes and read from watchers of the same kind.

  \<^bold>\<open>Theories.\<close>
  \<^item> \<open>Prelude\<close>: names of the machine types, generic facts on lists, maps and words, hint collections.
  \<^item> \<open>Queue\<close> (\<^verbatim>\<open>queue.h\<close>): each inline function as writes to a store of \<open>next\<close> and \<open>prev\<close> links;
    every program of queue operations refines the same program on lists.
  \<^item> \<open>Heap\<close> (\<^verbatim>\<open>heap-inl.h\<close>): the heap with its parent and child pointers; insertion and removal keep
    shape, order and contents, and the heap sorts.
  \<^item> \<open>Errors\<close>, \<open>Strings\<close> (\<^verbatim>\<open>uv/errno.h\<close>, \<^verbatim>\<open>uv-common.c\<close>, \<^verbatim>\<open>strscpy.c\<close>, \<^verbatim>\<open>strtok.c\<close>): the table of
    errors, their numbers on each platform, names and texts; copying and splitting.
  \<^item> \<open>Utf8\<close>, \<open>Idna\<close> (\<^verbatim>\<open>idna.c\<close>): decoders and conversions over explicit memory, so that an access
    outside a buffer is a result; the Punycode encoder on 32-bit words.
  \<^item> \<open>Inet\<close> (\<^verbatim>\<open>inet.c\<close>, part of \<^verbatim>\<open>uv-common.c\<close>): printing and parsing of IPv4 and IPv6 addresses.
  \<^item> \<open>Handles\<close> (\<^verbatim>\<open>uv-common.h\<close>, \<^verbatim>\<open>uv.h\<close>, \<^verbatim>\<open>uv/unix.h\<close>): the state of a loop, flags and counting.
  \<^item> \<open>Timer\<close> (\<^verbatim>\<open>timer.c\<close>), \<open>Watchers\<close> (\<^verbatim>\<open>unix/loop-watcher.c\<close>), \<open>Iowatch\<close> and \<open>Polling\<close> (the I/O watchers
    of \<^verbatim>\<open>unix/core.c\<close> and \<^verbatim>\<open>unix/posix-poll.c\<close>), \<open>Poll\<close> (\<^verbatim>\<open>unix/poll.c\<close>), \<open>Async\<close> (\<^verbatim>\<open>unix/async.c\<close>): one
    component each, with its invariant, what each operation does on each branch, and a locale that
    says what it needs from the callbacks it calls.
  \<^item> \<open>Syscalls\<close> (part of \<^verbatim>\<open>unix/core.c\<close>): descriptors opened, duplicated, accepted and closed, calls
    retried while interrupted, so that interruptions are not visible; every descriptor opened is
    returned in the right mode or closed.
  \<^item> \<open>Loop\<close>, \<open>Client\<close>, \<open>Run\<close> (\<^verbatim>\<open>unix/core.c\<close>, \<^verbatim>\<open>unix/loop.c\<close>, \<^verbatim>\<open>uv-common.c\<close>): \<open>uv_run\<close>, \<open>uv_close\<close>,
    \<open>uv_walk\<close>, the timeouts; the invariant of the whole loop; programs as clients that make any
    legal calls in any callback, with which the locales of the components are interpreted.
  \<^item> \<open>Passes\<close>: what one pass over the timers, the watchers or the async handles calls while such
    programs stop, restart, send to and close the handles that still wait for their turn; locales
    that extend those of the components by what a callback may have done to a waiting handle.
  \<^item> \<open>Wakeup\<close> (\<^verbatim>\<open>unix/async.c\<close> again): the threads that send and the thread of the loop as
    interleaved steps on the words \<open>pending\<close> and \<open>busy\<close> and the wakeup descriptor.
  \<^item> \<open>Streams\<close>, \<open>Reading\<close> (\<^verbatim>\<open>unix/stream.c\<close>, what it uses of \<^verbatim>\<open>unix/tcp.c\<close>, \<^verbatim>\<open>unix/pipe.c\<close> and
    \<^verbatim>\<open>unix/udp.c\<close>): writing in order, shutting down and destroying; listening, accepting, received
    descriptors, reading, connecting, closing.
  \<^item> \<open>Udp\<close> (\<^verbatim>\<open>unix/udp.c\<close>, part of \<^verbatim>\<open>uv-common.c\<close>): datagrams queued, sent one by one or in batches and
    called back from a second queue; receiving, binding, connecting, options and groups; closing.
  \<^item> \<open>Threadpool\<close> (\<^verbatim>\<open>threadpool.c\<close>): the work queue, the limit on slow work, cancelling and delivery,
    one step per critical section.

  \<^bold>\<open>Conventions.\<close> A pointer is a natural number, a structure a record in a map from pointers, a list
  linked through \<open>struct uv__queue\<close> a list of pointers (\<open>Queue\<close> justifies this). An operation takes
  the state and returns it changed, with its error, if any, as an option of \<open>uv_errno\<close>. A result
  of \<open>None\<close> where an operation is partial is a failed \<open>assert\<close>, a null dereference or a run that does
  not end; the theorems say when it does not occur. Words have the width of the C types. Callbacks
  are a function from an event and the state to a new state (a client); the locales say what is
  assumed of it and the interpretations show that programs of legal calls satisfy that.

  \<^bold>\<open>What the theorems show.\<close> In the order of the manifest: the invariant of the loop in every
  reachable state and that a turn of the loop returns; close callbacks run once, walking visits
  each handle, when a loop is alive, what \<open>uv_run\<close> returns; the heap and the queue are correct;
  timers run in order of due time, then of starting, with a clamped due time; the masks of poll
  handles; writes are written in order, accounted, called back in order, and cancelled when the
  stream is destroyed; datagrams are sent, called back and cancelled in order; a pass over timers, watchers or async handles calls those it should, in
  order, and leaves out only what a callback may have taken away; no wakeup is lost and a
  closed handle is not called; the pool runs each request once or reports it cancelled, and never
  sleeps on work; descriptors are accepted in order and never leaked; encodings, addresses and
  error names round trip, and stay inside their buffers.

  \<^bold>\<open>Termination and fuel.\<close> The loop of the poll backend ends by a measure on the answers of the
  kernel, which are a finite list for one call; a loop that may run forever (heap walks on a
  corrupted heap, \<open>uv_run\<close> with a loop that stays alive, decoding, the rescheduling of a message in
  the pool) is a partial function whose result is an option, and a theorem says where it is defined.
  The bounds 32 of the write and read loops are those of the code. An interrupted call is
  retried on the stream of answers of the system; a system that interrupts it for ever is the
  result \<open>None\<close>.

  \<^bold>\<open>Assumptions.\<close> Allocation succeeds, except where a flag of the model says that it fails
  (streams, the size of the pool). The system calls are parameters that answer as documented:
  \<open>poll\<close> yields as many results as it was asked for, a write takes at most what it was given, a batch of
  datagrams at least one and at most all of them. The
  client contracts rule out what the documentation forbids, such as starting a closed handle.
  The streams and the UDP handles are beside the loop: their operations start and stop the I/O watchers of the loop
  model, but \<open>uv__io_poll\<close> there does not dispatch to them, and the queue of pending watchers that
  only they feed is empty in the theorems about \<open>uv_run\<close>. One contract speaks about one
  stream or one UDP handle, and its programs do not send on a handle without a descriptor. The
  watchers of signals and of child processes are not registered, the thread pool is not
  connected to the async handle of the loop. The memory order of the atomic operations is
  sequentially consistent.

  \<^bold>\<open>Not modelled.\<close> The implementation for Windows and the backends of other systems (they implement
  the same interface on other kernels); signals, child processes, terminals, file system requests,
  name resolution, threads and locks, random numbers, system information and the parts of TCP
  and pipes that are calls of the socket layer (wrappers of the system with little state of
  their own); \<open>uv__loop_close\<close> and \<open>uv_loop_fork\<close>; the Swift code, which calls the library.
\<close>

end
